(* ===== verification/Prelude.thy ===== *)
theory Prelude
  imports Main "HOL-Library.Word"
begin

text \<open>
  Shared ground of the development: the C integer types as words, the collections of
  rewrite rules the component proofs draw on, and the generic facts on words, bits and
  finite sets that several components use.

  A C \<^verbatim>\<open>uintN_t\<close> is \<open>N word\<close>, so that every addition, subtraction and
  multiplication wraps exactly as the compiled code does; \<open>unat\<close> reads the value.
\<close>

unbundle bit_operations_syntax

type_synonym u8 = "8 word"
type_synonym u16 = "16 word"
type_synonym u32 = "32 word"
type_synonym u64 = "64 word"

named_theorems pmm_simps \<open>effect of the frame allocator's operations on the free set\<close>
named_theorems word_to_nat \<open>rules that move word comparisons to natural numbers\<close>

lemmas [word_to_nat] = word_less_nat_alt word_le_nat_alt unat_div unat_mod

subsection \<open>Words read as natural numbers\<close>

lemma unat_add_small:
  fixes a b :: "'a::len word"
  assumes "unat a + unat b < 2 ^ LENGTH('a)"
  shows "unat (a + b) = unat a + unat b"
  using assms by (simp add: unat_add_lem [THEN iffD1])

lemma unat_mult_small:
  fixes a b :: "'a::len word"
  assumes "unat a * unat b < 2 ^ LENGTH('a)"
  shows "unat (a * b) = unat a * unat b"
  using assms by (simp add: unat_mult_lem [THEN iffD1])

lemma unat_sub_small:
  fixes a b :: "'a::len word"
  assumes "unat b \<le> unat a"
  shows "unat (a - b) = unat a - unat b"
  using assms by (simp add: unat_sub word_le_nat_alt)

lemma unat_inc:
  fixes a b :: "'a::len word"
  assumes "a < b"
  shows "unat (a + 1) = Suc (unat a)"
proof -
  have "unat a < unat b" using assms by (simp add: word_less_nat_alt)
  also have "unat b < 2 ^ LENGTH('a)" by simp
  finally have lt: "unat a + 1 < 2 ^ LENGTH('a)"
    using \<open>unat a < unat b\<close> \<open>unat b < 2 ^ LENGTH('a)\<close> by linarith
  then have "unat (a + 1) = unat a + unat (1 :: 'a word)"
    by (subst unat_add_small) simp_all
  then show ?thesis by simp
qed

lemma unat_gap_decreases:
  fixes a b :: "'a::len word"
  assumes "a < b"
  shows "unat b - Suc (unat a) < unat b - unat a"
  using assms by (simp add: word_less_nat_alt diff_less_mono2)

lemma unat_less_exp: "unat (a :: 'a::len word) < 2 ^ LENGTH('a)"
  by (rule unsigned_less)

lemma unat_of_nat_small: "n < 2 ^ LENGTH('a) \<Longrightarrow> unat (of_nat n :: 'a::len word) = n"
  by (simp add: unat_of_nat take_bit_nat_eq_self)

lemma unat_u8_bound: "unat (a :: u8) < 256"
  using unat_less_exp [of a] by simp

lemma unat_u16_bound: "unat (a :: u16) < 65536"
  using unat_less_exp [of a] by simp

lemma unat_u32_bound: "unat (a :: u32) < 4294967296"
  using unat_less_exp [of a] by simp

lemma unat_u64_bound: "unat (a :: u64) < 18446744073709551616"
  using unat_less_exp [of a] by simp

lemma unat_ucast_u32_u64 [simp]: "unat (ucast (a :: u32) :: u64) = unat a"
  using unat_u32_bound [of a] by (simp add: unsigned_ucast_eq take_bit_nat_eq_self)

lemma unat_ucast_u8_u64 [simp]: "unat (ucast (a :: u8) :: u64) = unat a"
  using unat_u8_bound [of a] by (simp add: unsigned_ucast_eq take_bit_nat_eq_self)

lemma word_less_inc_iff:
  fixes a b x :: "'a::len word"
  assumes "a < b"
  shows "x < a + 1 \<longleftrightarrow> x < a \<or> x = a"
  using unat_inc [OF assms] by (auto simp: word_less_nat_alt less_Suc_eq word_unat_eq_iff)

lemma word_inc_le_iff:
  fixes a b x :: "'a::len word"
  assumes "a < b"
  shows "a + 1 \<le> x \<longleftrightarrow> a < x"
  using unat_inc [OF assms] by (simp add: word_less_nat_alt word_le_nat_alt Suc_le_eq)

subsection \<open>Testing and changing one bit, as the C code spells it\<close>

lemma and_bit_zero_iff [simp]:
  fixes a :: "'a::len word"
  shows "a AND 2 ^ n = 0 \<longleftrightarrow> \<not> bit a n"
  by (rule and_exp_eq_0_iff_not_bit)

lemma bit_clear_iff [simp]:
  fixes a :: "'a::len word"
  shows "bit (a AND NOT (2 ^ n)) m \<longleftrightarrow> bit a m \<and> m \<noteq> n"
  by (auto simp: bit_and_iff bit_not_iff bit_exp_iff dest: bit_imp_le_length)

lemma bit_set_iff [simp]:
  fixes a :: "'a::len word"
  assumes "n < LENGTH('a)"
  shows "bit (a OR 2 ^ n) m \<longleftrightarrow> bit a m \<or> m = n"
  using assms by (auto simp: bit_or_iff bit_exp_iff)

lemma and_not_mask_eq:
  fixes x :: "'a::len word"
  shows "x AND NOT (mask n) = x - x mod 2 ^ n"
proof -
  have "x AND NOT (mask n) = push_bit n (drop_bit n x)"
    by (auto intro!: bit_word_eqI simp: bit_simps)
  also have "\<dots> = x - take_bit n x" using bits_ident [of n x] by (simp add: algebra_simps)
  finally show ?thesis by (simp add: take_bit_eq_mod)
qed

lemma unat_and_not_mask:
  fixes x :: "'a::len word"
  assumes "n < LENGTH('a)"
  shows "unat (x AND NOT (mask n)) = unat x - unat x mod 2 ^ n"
proof -
  have "unat (2 ^ n :: 'a word) = 2 ^ n"
    using assms unat_of_nat [of "2 ^ n", where 'a = 'a] by (simp add: power_strict_increasing)
  then have "unat (x mod 2 ^ n) = unat x mod 2 ^ n" by (simp add: unat_mod)
  then show ?thesis by (simp add: and_not_mask_eq unat_sub_small)
qed

lemma and_mask_mod:
  fixes x :: "'a::len word"
  shows "x AND mask n = x mod 2 ^ n"
  by (simp add: take_bit_eq_mask [symmetric] take_bit_eq_mod)

lemma word_div_mod_eqI:
  fixes a b c :: "'a::len word"
  assumes "a div c = b div c" and "a mod c = b mod c"
  shows "a = b"
  using assms by (metis div_mult_mod_eq)

subsection \<open>Rounding natural numbers to a multiple\<close>

lemma mod_zero_mult_div: "n mod d = 0 \<Longrightarrow> n div d * d = (n :: nat)"
  by (metis add.right_neutral div_mult_mod_eq)

lemma round_up_le_iff:
  assumes "0 < (d :: nat)"
  shows "(x + (d - 1)) - (x + (d - 1)) mod d \<le> k * d \<longleftrightarrow> x \<le> k * d"
proof -
  have "(x + (d - 1)) - (x + (d - 1)) mod d = (x + (d - 1)) div d * d"
    by (simp add: minus_mod_eq_mult_div mult.commute)
  then have "(x + (d - 1)) - (x + (d - 1)) mod d \<le> k * d \<longleftrightarrow> (x + (d - 1)) div d < Suc k"
    using assms by (simp add: less_Suc_eq_le)
  also have "\<dots> \<longleftrightarrow> x + (d - 1) < Suc k * d" by (rule div_less_iff_less_mult [OF assms])
  finally show ?thesis using assms by (cases d) auto
qed

subsection \<open>Little-endian loads\<close>

text \<open>
  A typed load through a pointer into raw bytes (\<^verbatim>\<open>tag->size\<close>, \<^verbatim>\<open>e->addr\<close>) on the
  little-endian target: \<open>m\<close> is the memory, one byte per address.
\<close>

definition rd16 :: "(u64 \<Rightarrow> u8) \<Rightarrow> u64 \<Rightarrow> u16" where
  "rd16 m p = ucast (m p) OR push_bit 8 (ucast (m (p + 1)))"

definition rd32 :: "(u64 \<Rightarrow> u8) \<Rightarrow> u64 \<Rightarrow> u32" where
  "rd32 m p = ucast (m p) OR push_bit 8 (ucast (m (p + 1)))
     OR push_bit 16 (ucast (m (p + 2))) OR push_bit 24 (ucast (m (p + 3)))"

definition rd64 :: "(u64 \<Rightarrow> u8) \<Rightarrow> u64 \<Rightarrow> u64" where
  "rd64 m p = ucast (rd32 m p) OR push_bit 32 (ucast (rd32 m (p + 4)))"

subsection \<open>Sets of words\<close>

lemma finite_word_set [simp, intro]: "finite (A :: 'a::len word set)"
  by (rule finite_subset [OF subset_UNIV]) simp

end
