(* ===== verification/Pmm.thy ===== *)
theory Pmm
  imports Prelude
begin

text \<open>
  The physical frame allocator, \<^verbatim>\<open>kernel/mm/pmm.c\<close>: one bit per 4 KiB frame of the low
  4 GiB, set when the frame is free. The state is the three file-scope variables of
  \<^verbatim>\<open>pmm.c\<close> plus the physical memory the allocator zeroes. The lock \<^verbatim>\<open>pmm_lock\<close>
  is held from the first to the last access of every public operation, so each operation
  is one atomic state change here.

  The bitmap is a total function on byte indices; the code and the model only ever touch
  indices below \<open>BITMAP_BYTES\<close>. The multiboot information block is raw bytes
  (\<open>u64 \<Rightarrow> u8\<close>) and is parsed as the code parses it; a tag list without an end
  tag makes the walk not return, which is \<open>None\<close>.
\<close>

subsection \<open>State and constants\<close>

definition PAGE_SIZE :: u64 where "PAGE_SIZE = 4096"
definition MAX_FRAMES :: u64 where "MAX_FRAMES = 1048576"
definition BITMAP_BYTES :: u64 where "BITMAP_BYTES = 131072"
definition USER_VIRT_BASE :: u64 where "USER_VIRT_BASE = 0x40000000"
definition USER_VIRT_END :: u64 where "USER_VIRT_END = 0x80000000"

lemmas pmm_consts = PAGE_SIZE_def MAX_FRAMES_def BITMAP_BYTES_def
  USER_VIRT_BASE_def USER_VIRT_END_def

record pmm =
  bitmap :: "u64 \<Rightarrow> u8"
  free_frames :: u64
  usable_frames :: u64
  ram :: "u64 \<Rightarrow> u8"

subsection \<open>Marking frames\<close>

definition mark_used :: "u64 \<Rightarrow> pmm \<Rightarrow> pmm" where
  "mark_used frame s =
     (if frame \<ge> MAX_FRAMES then s
      else let byte = frame div 8; b = unat (frame mod 8) in
        if bitmap s byte AND push_bit b 1 = 0 then s
        else s\<lparr>bitmap := (bitmap s)(byte := bitmap s byte AND NOT (push_bit b 1)),
               free_frames := free_frames s - 1\<rparr>)"

definition mark_free :: "u64 \<Rightarrow> pmm \<Rightarrow> pmm" where
  "mark_free frame s =
     (if frame \<ge> MAX_FRAMES then s
      else let byte = frame div 8; b = unat (frame mod 8) in
        if bitmap s byte AND push_bit b 1 \<noteq> 0 then s
        else s\<lparr>bitmap := (bitmap s)(byte := bitmap s byte OR push_bit b 1),
               free_frames := free_frames s + 1\<rparr>)"

function mark_used_from :: "u64 \<Rightarrow> u64 \<Rightarrow> pmm \<Rightarrow> pmm" where
  "mark_used_from f last_frame s =
     (if f < last_frame then mark_used_from (f + 1) last_frame (mark_used f s) else s)"
  by pat_completeness auto
termination
  by (relation "measure (\<lambda>(f, l, s). unat l - unat f)")
     (auto simp: unat_inc intro!: unat_gap_decreases)

declare mark_used_from.simps [simp del]

definition reserve_range :: "u64 \<Rightarrow> u64 \<Rightarrow> pmm \<Rightarrow> pmm" where
  "reserve_range start stop s =
     (let first_frame = start div PAGE_SIZE;
          last_frame = (stop + PAGE_SIZE - 1) div PAGE_SIZE
      in mark_used_from first_frame last_frame s)"

definition pmm_reserve :: "u64 \<Rightarrow> u64 \<Rightarrow> pmm \<Rightarrow> pmm" where
  "pmm_reserve phys len s = reserve_range phys (phys + len) s"

function mark_free_from :: "u64 \<Rightarrow> u64 \<Rightarrow> pmm \<Rightarrow> pmm" where
  "mark_free_from f last_frame s =
     (if f < last_frame \<and> f < MAX_FRAMES
      then mark_free_from (f + 1) last_frame (mark_free f s) else s)"
  by pat_completeness auto
termination
  by (relation "measure (\<lambda>(f, l, s). unat l - unat f)")
     (auto simp: unat_inc intro!: unat_gap_decreases)

declare mark_free_from.simps [simp del]

subsection \<open>The boot-time memory map\<close>

definition MULTIBOOT2_TAG_TYPE_END :: u32 where "MULTIBOOT2_TAG_TYPE_END = 0"
definition MULTIBOOT2_TAG_TYPE_MODULE :: u32 where "MULTIBOOT2_TAG_TYPE_MODULE = 3"
definition MULTIBOOT2_TAG_TYPE_MMAP :: u32 where "MULTIBOOT2_TAG_TYPE_MMAP = 6"
definition MULTIBOOT2_MEMORY_AVAILABLE :: u32 where "MULTIBOOT2_MEMORY_AVAILABLE = 1"

lemmas multiboot_consts = MULTIBOOT2_TAG_TYPE_END_def MULTIBOOT2_TAG_TYPE_MODULE_def
  MULTIBOOT2_TAG_TYPE_MMAP_def MULTIBOOT2_MEMORY_AVAILABLE_def

text \<open>
  The walk \<^verbatim>\<open>for (;;) { ... tag_ptr += (tag->size + 7) & ~7u; }\<close> that \<open>pmm_init\<close>
  makes twice, as the list of the tag addresses it visits.
\<close>

partial_function (option) mb_tags :: "(u64 \<Rightarrow> u8) \<Rightarrow> u64 \<Rightarrow> u64 list option" where
  "mb_tags m tag_ptr =
     (if rd32 m tag_ptr = MULTIBOOT2_TAG_TYPE_END then Some []
      else Option.bind (mb_tags m (tag_ptr + ucast ((rd32 m (tag_ptr + 4) + 7) AND NOT 7)))
             (\<lambda>ts. Some (tag_ptr # ts)))"

definition mmap_entry :: "(u64 \<Rightarrow> u8) \<Rightarrow> u64 \<Rightarrow> pmm \<Rightarrow> pmm" where
  "mmap_entry m e s =
     (if rd32 m (e + 16) = MULTIBOOT2_MEMORY_AVAILABLE then
        let addr = rd64 m e; len = rd64 m (e + 8);
            start = (addr + PAGE_SIZE - 1) AND NOT (PAGE_SIZE - 1);
            stop = (addr + len) AND NOT (PAGE_SIZE - 1)
        in mark_free_from (start div PAGE_SIZE) (stop div PAGE_SIZE) s
      else s)"

partial_function (option) mmap_entries ::
  "(u64 \<Rightarrow> u8) \<Rightarrow> u64 \<Rightarrow> u64 \<Rightarrow> u32 \<Rightarrow> pmm \<Rightarrow> pmm option" where
  "mmap_entries m entry_ptr entries_end entry_size s =
     (if entry_ptr < entries_end
      then mmap_entries m (entry_ptr + ucast entry_size) entries_end entry_size
             (mmap_entry m entry_ptr s)
      else Some s)"

fun free_mmap_tags :: "(u64 \<Rightarrow> u8) \<Rightarrow> u64 list \<Rightarrow> pmm \<Rightarrow> pmm option" where
  "free_mmap_tags m [] s = Some s"
| "free_mmap_tags m (t # ts) s =
     (if rd32 m t = MULTIBOOT2_TAG_TYPE_MMAP
      then Option.bind
             (mmap_entries m (t + 16) (t + ucast (rd32 m (t + 4))) (rd32 m (t + 8)) s)
             (free_mmap_tags m ts)
      else free_mmap_tags m ts s)"

fun reserve_modules :: "(u64 \<Rightarrow> u8) \<Rightarrow> u64 list \<Rightarrow> pmm \<Rightarrow> pmm" where
  "reserve_modules m [] s = s"
| "reserve_modules m (t # ts) s =
     reserve_modules m ts
       (if rd32 m t = MULTIBOOT2_TAG_TYPE_MODULE
        then reserve_range (ucast (rd32 m (t + 8))) (ucast (rd32 m (t + 12))) s else s)"

text \<open>
  \<open>pmm_init\<close>: \<open>kernel_start\<close> and \<open>kernel_end\<close> are the linker's symbols. The sum
  \<^verbatim>\<open>multiboot_addr + info->total_size\<close> is a 32-bit sum, as in the code.
\<close>

definition pmm_init :: "u64 \<Rightarrow> u64 \<Rightarrow> (u64 \<Rightarrow> u8) \<Rightarrow> u32 \<Rightarrow> pmm \<Rightarrow> pmm option" where
  "pmm_init kernel_start kernel_end m multiboot_addr s0 =
     (let s1 = s0\<lparr>bitmap := (\<lambda>i. if i < BITMAP_BYTES then 0 else bitmap s0 i),
                  free_frames := 0\<rparr>;
          info = ucast multiboot_addr
      in Option.bind (mb_tags m (info + 8)) (\<lambda>tags.
         Option.bind (free_mmap_tags m tags s1) (\<lambda>s2.
           let s3 = s2\<lparr>usable_frames := free_frames s2\<rparr>;
               s4 = reserve_range 0 PAGE_SIZE s3;
               s5 = reserve_range kernel_start kernel_end s4;
               s6 = reserve_range info (ucast (multiboot_addr + rd32 m info)) s5;
               s7 = reserve_range USER_VIRT_BASE USER_VIRT_END s6
           in Some (reserve_modules m tags s7))))"

subsection \<open>Handing frames out and taking them back\<close>

definition frame_free :: "pmm \<Rightarrow> u64 \<Rightarrow> bool" where
  "frame_free s f =
     (if f \<ge> MAX_FRAMES then False
      else bitmap s (f div 8) AND push_bit (unat (f mod 8)) 1 \<noteq> 0)"

fun first_bit :: "u8 \<Rightarrow> nat list \<Rightarrow> nat option" where
  "first_bit b [] = None"
| "first_bit b (k # ks) = (if b AND push_bit k 1 \<noteq> 0 then Some k else first_bit b ks)"

function alloc_scan :: "pmm \<Rightarrow> u64 \<Rightarrow> u64 option" where
  "alloc_scan s byte =
     (if byte < BITMAP_BYTES then
        if bitmap s byte = 0 then alloc_scan s (byte + 1)
        else case first_bit (bitmap s byte) [0..<8] of
               Some b \<Rightarrow> Some (byte * 8 + of_nat b)
             | None \<Rightarrow> alloc_scan s (byte + 1)
      else None)"
  by pat_completeness auto
termination
  by (relation "measure (\<lambda>(s, i). unat BITMAP_BYTES - unat i)")
     (auto simp: unat_inc intro!: unat_gap_decreases)

declare alloc_scan.simps [simp del]

definition pmm_alloc_frame :: "pmm \<Rightarrow> u64 \<times> pmm" where
  "pmm_alloc_frame s =
     (case alloc_scan s 0 of
        Some frame \<Rightarrow> (frame * PAGE_SIZE, mark_used frame s)
      | None \<Rightarrow> (0, s))"

function contig_scan :: "pmm \<Rightarrow> u64 \<Rightarrow> u64 \<Rightarrow> u64 \<Rightarrow> u64 \<Rightarrow> u64 option" where
  "contig_scan s count f run start =
     (if f < MAX_FRAMES then
        if \<not> frame_free s f then contig_scan s count (f + 1) 0 start
        else let start' = (if run = 0 then f else start) in
          if run + 1 = count then Some start'
          else contig_scan s count (f + 1) (run + 1) start'
      else None)"
  by pat_completeness auto
termination
  by (relation "measure (\<lambda>(s, c, f, r, st). unat MAX_FRAMES - unat f)")
     (auto simp: unat_inc intro!: unat_gap_decreases)

declare contig_scan.simps [simp del]

function mark_run :: "u64 \<Rightarrow> u64 \<Rightarrow> u64 \<Rightarrow> pmm \<Rightarrow> pmm" where
  "mark_run start i count s =
     (if i < count then mark_run start (i + 1) count (mark_used (start + i) s) else s)"
  by pat_completeness auto
termination
  by (relation "measure (\<lambda>(st, i, c, s). unat c - unat i)")
     (auto simp: unat_inc intro!: unat_gap_decreases)

declare mark_run.simps [simp del]

definition zero_ram :: "u64 \<Rightarrow> u64 \<Rightarrow> pmm \<Rightarrow> pmm" where
  "zero_ram p n s = s\<lparr>ram := (\<lambda>a. if a - p < n then 0 else ram s a)\<rparr>"

definition pmm_alloc_contig :: "u64 \<Rightarrow> pmm \<Rightarrow> u64 \<times> pmm" where
  "pmm_alloc_contig count s =
     (if count = 0 then (0, s)
      else if count = 1 then pmm_alloc_frame s
      else case contig_scan s count 0 0 0 of
             None \<Rightarrow> (0, s)
           | Some start \<Rightarrow>
               (start * PAGE_SIZE,
                zero_ram (start * PAGE_SIZE) (count * PAGE_SIZE)
                  (mark_run start 0 count s)))"

definition pmm_free_frame :: "u64 \<Rightarrow> pmm \<Rightarrow> pmm" where
  "pmm_free_frame phys_addr s = mark_free (phys_addr div PAGE_SIZE) s"

definition pmm_free_frame_count :: "pmm \<Rightarrow> u64" where
  "pmm_free_frame_count s = free_frames s"

definition pmm_total_frame_count :: "pmm \<Rightarrow> u64" where
  "pmm_total_frame_count s = usable_frames s"

subsection \<open>The free set and what each operation does to it\<close>

definition free_set :: "pmm \<Rightarrow> u64 set" where
  "free_set s = {f. frame_free s f}"

lemma frame_free_iff:
  "frame_free s f \<longleftrightarrow> f < MAX_FRAMES \<and> bit (bitmap s (f div 8)) (unat (f mod 8))"
  by (simp add: frame_free_def not_le [symmetric])

lemma unat_mod8: "unat (f mod 8 :: u64) < 8"
  by (simp add: unat_mod)

lemma frame_slot_eq_iff:
  "f div 8 = g div 8 \<and> unat (f mod 8) = unat (g mod 8) \<longleftrightarrow> f = (g :: u64)"
  using word_div_mod_eqI [of f 8 g] by (auto simp: word_unat_eq_iff [symmetric])

lemma frame_free_mark_used [pmm_simps]:
  "frame_free (mark_used g s) f \<longleftrightarrow> frame_free s f \<and> f \<noteq> g"
  using frame_slot_eq_iff [of f g]
  by (auto simp: frame_free_iff mark_used_def Let_def not_le)

lemma frame_free_mark_free [pmm_simps]:
  "frame_free (mark_free g s) f \<longleftrightarrow> frame_free s f \<or> f = g \<and> g < MAX_FRAMES"
  using frame_slot_eq_iff [of f g] unat_mod8 [of g]
  by (auto simp: frame_free_iff mark_free_def Let_def not_le)

lemma free_set_mark_used [pmm_simps]: "free_set (mark_used g s) = free_set s - {g}"
  by (auto simp: free_set_def pmm_simps)

lemma free_set_mark_free [pmm_simps]:
  "free_set (mark_free g s) = (if g < MAX_FRAMES then insert g (free_set s) else free_set s)"
  by (auto simp: free_set_def pmm_simps)

lemma mark_frame_ram [simp]:
  "ram (mark_used g s) = ram s" "ram (mark_free g s) = ram s"
  "usable_frames (mark_used g s) = usable_frames s"
  "usable_frames (mark_free g s) = usable_frames s"
  by (simp_all add: mark_used_def mark_free_def Let_def)

lemma free_frames_mark_used:
  "free_frames (mark_used g s) = (if frame_free s g then free_frames s - 1 else free_frames s)"
  by (auto simp: mark_used_def Let_def frame_free_iff not_le)

lemma free_frames_mark_free:
  "free_frames (mark_free g s) =
     (if g < MAX_FRAMES \<and> \<not> frame_free s g then free_frames s + 1 else free_frames s)"
  by (auto simp: mark_free_def Let_def frame_free_iff not_le)

subsection \<open>The counter agrees with the bitmap\<close>

definition pmm_wf :: "pmm \<Rightarrow> bool" where
  "pmm_wf s \<longleftrightarrow> unat (free_frames s) = card (free_set s)"

lemma free_set_below: "free_set s \<subseteq> {f. f < MAX_FRAMES}"
  by (auto simp: free_set_def frame_free_iff)

lemma card_below_word: "card {f :: u64. f < n} \<le> unat n"
proof -
  have "{f :: u64. f < n} \<subseteq> word_of_nat ` {..<unat n}"
  proof
    fix f :: u64 assume "f \<in> {f. f < n}"
    then show "f \<in> word_of_nat ` {..<unat n}"
      by (intro image_eqI [of _ _ "unat f"]) (simp_all add: word_less_nat_alt)
  qed
  then have "card {f :: u64. f < n} \<le> card (word_of_nat ` {..<unat n} :: u64 set)"
    by (intro card_mono) auto
  also have "\<dots> \<le> unat n"
    using card_image_le [of "{..<unat n}" "word_of_nat :: nat \<Rightarrow> u64"] by simp
  finally show ?thesis .
qed

lemma card_free_set_le: "card (free_set s) \<le> 1048576"
  using card_mono [OF _ free_set_below, of s] card_below_word [of MAX_FRAMES]
  by (simp add: MAX_FRAMES_def)

lemma pmm_wf_mark_used [intro]: "pmm_wf s \<Longrightarrow> pmm_wf (mark_used g s)"
proof (cases "frame_free s g")
  case True
  assume wf: "pmm_wf s"
  from True have "g \<in> free_set s" by (simp add: free_set_def)
  moreover from this have "0 < card (free_set s)" by (auto simp: card_gt_0_iff)
  ultimately show ?thesis using wf True
    by (simp add: pmm_wf_def free_frames_mark_used free_set_mark_used unat_sub_small)
next
  case False
  assume wf: "pmm_wf s"
  from False have "free_set s - {g} = free_set s" by (auto simp: free_set_def)
  then show ?thesis using wf False
    by (simp add: pmm_wf_def free_frames_mark_used free_set_mark_used)
qed

lemma pmm_wf_mark_free [intro]: "pmm_wf s \<Longrightarrow> pmm_wf (mark_free g s)"
proof (cases "g < MAX_FRAMES \<and> \<not> frame_free s g")
  case True
  assume wf: "pmm_wf s"
  from True have "g \<notin> free_set s" by (simp add: free_set_def)
  moreover have "unat (free_frames s + 1) = unat (free_frames s) + 1"
    using wf card_free_set_le [of s]
    by (subst unat_add_small) (simp_all add: pmm_wf_def)
  ultimately show ?thesis using wf True
    by (simp add: pmm_wf_def free_frames_mark_free free_set_mark_free)
next
  case False
  assume wf: "pmm_wf s"
  from False have "free_set (mark_free g s) = free_set s"
    by (auto simp: free_set_mark_free) (auto simp: free_set_def)
  then show ?thesis using wf False
    by (auto simp add: pmm_wf_def free_frames_mark_free)
qed

lemma mark_used_from_effect:
  "free_set (mark_used_from f l s) = free_set s - {g. f \<le> g \<and> g < l}
   \<and> (pmm_wf s \<longrightarrow> pmm_wf (mark_used_from f l s))
   \<and> ram (mark_used_from f l s) = ram s
   \<and> usable_frames (mark_used_from f l s) = usable_frames s"
proof (induction f l s rule: mark_used_from.induct)
  case (1 f l s)
  show ?case
  proof (cases "f < l")
    case True
    have "{g. f \<le> g \<and> g < l} = insert f {g. f + 1 \<le> g \<and> g < l}"
      using True by (auto simp: word_inc_le_iff [OF True])
    with "1.IH" [OF True] True show ?thesis
      by (auto simp: mark_used_from.simps [of f l s] free_set_mark_used)
  next
    case False
    then show ?thesis by (auto simp: mark_used_from.simps [of f l s])
  qed
qed

lemmas free_set_mark_used_from [pmm_simps] = mark_used_from_effect [THEN conjunct1]

lemma mark_free_from_effect:
  "free_set (mark_free_from f l s) = free_set s \<union> {g. f \<le> g \<and> g < l \<and> g < MAX_FRAMES}
   \<and> (pmm_wf s \<longrightarrow> pmm_wf (mark_free_from f l s))"
proof (induction f l s rule: mark_free_from.induct)
  case (1 f l s)
  show ?case
  proof (cases "f < l \<and> f < MAX_FRAMES")
    case True
    then have "f < l" by simp
    have "{g. f \<le> g \<and> g < l \<and> g < MAX_FRAMES}
          = insert f {g. f + 1 \<le> g \<and> g < l \<and> g < MAX_FRAMES}"
      using True by (auto simp: word_inc_le_iff [OF \<open>f < l\<close>])
    with "1.IH" [OF True] True show ?thesis
      by (auto simp: mark_free_from.simps [of f l s] free_set_mark_free)
  next
    case False
    then have "{g. f \<le> g \<and> g < l \<and> g < MAX_FRAMES} = {}" by auto
    with False show ?thesis by (auto simp: mark_free_from.simps [of f l s])
  qed
qed

lemmas free_set_mark_free_from [pmm_simps] = mark_free_from_effect [THEN conjunct1]

lemma pmm_wf_mark_used_from [intro]: "pmm_wf s \<Longrightarrow> pmm_wf (mark_used_from f l s)"
  using mark_used_from_effect by blast

lemma pmm_wf_mark_free_from [intro]: "pmm_wf s \<Longrightarrow> pmm_wf (mark_free_from f l s)"
  using mark_free_from_effect by blast

lemma mark_run_effect:
  assumes "unat start + unat count < 2 ^ 64"
  shows "free_set (mark_run start i count s)
           = free_set s - {g. start + i \<le> g \<and> g < start + count \<and> i < count}
       \<and> (pmm_wf s \<longrightarrow> pmm_wf (mark_run start i count s))
       \<and> ram (mark_run start i count s) = ram s
       \<and> usable_frames (mark_run start i count s) = usable_frames s"
  using assms
proof (induction start i count s rule: mark_run.induct)
  case (1 start i count s)
  show ?case
  proof (cases "i < count")
    case True
    have lt: "start + i < start + count"
      using True "1.prems" by (simp add: word_less_nat_alt unat_add_small)
    have "{g. start + i \<le> g \<and> g < start + count \<and> i < count}
        = insert (start + i) {g. start + (i + 1) \<le> g \<and> g < start + count \<and> i + 1 < count}"
      using True lt "1.prems" unat_inc [OF True]
      by (auto simp: word_less_nat_alt word_le_nat_alt word_unat_eq_iff unat_add_small)
    with "1.IH" [OF True "1.prems"] True show ?thesis
      by (auto simp: mark_run.simps [of start i count s] free_set_mark_used)
  next
    case False
    then show ?thesis by (auto simp: mark_run.simps [of start i count s])
  qed
qed

subsection \<open>The single-frame scan\<close>

lemma first_bit_find: "first_bit b ks = List.find (bit b) ks"
  by (induction ks) auto

lemma first_bit_None: "first_bit b [0..<8] = None \<longleftrightarrow> b = 0"
proof -
  have "b = 0 \<longleftrightarrow> (\<forall>k < 8. \<not> bit b k)" for b :: u8
    by (auto intro!: bit_word_eqI)
  then show ?thesis by (auto simp: first_bit_find find_None_iff)
qed

lemma first_bit_Some:
  assumes "first_bit b [0..<8] = Some k"
  shows "k < 8 \<and> bit b k \<and> (\<forall>j < k. \<not> bit b j)"
proof -
  from assms obtain i where "i < 8" "bit b ([0..<8] ! i)" "k = [0..<8] ! i"
    "\<forall>j < i. \<not> bit b ([0..<8] ! j)"
    by (auto simp: first_bit_find find_Some_iff)
  then show ?thesis by simp
qed

lemma frame_index:
  assumes "byte < BITMAP_BYTES" and "k < 8"
  shows "unat (byte * 8 + of_nat k) = unat byte * 8 + k"
    and "(byte * 8 + of_nat k) div 8 = byte"
    and "unat ((byte * 8 + of_nat k) mod 8) = k"
    and "byte * 8 + of_nat k < MAX_FRAMES"
proof -
  have b: "unat byte < 131072"
    using assms(1) by (simp add: word_less_nat_alt BITMAP_BYTES_def)
  have k: "unat (word_of_nat k :: u64) = k"
    using assms(2) by (simp add: unat_of_nat)
  show u: "unat (byte * 8 + of_nat k) = unat byte * 8 + k"
    using b k assms(2) by (simp add: unat_add_small unat_mult_small)
  show "(byte * 8 + of_nat k) div 8 = byte"
    using u assms(2) by (simp add: word_unat_eq_iff unat_div)
  show "unat ((byte * 8 + of_nat k) mod 8) = k"
    using u assms(2) by (simp add: unat_mod)
  show "byte * 8 + of_nat k < MAX_FRAMES"
    using u b assms(2) by (simp add: word_less_nat_alt MAX_FRAMES_def)
qed

lemma frame_free_byte: "frame_free s g \<Longrightarrow> g div 8 < BITMAP_BYTES \<and> bitmap s (g div 8) \<noteq> 0"
  by (auto simp: frame_free_iff MAX_FRAMES_def BITMAP_BYTES_def word_less_nat_alt unat_div)

lemma frame_le_via_byte:
  fixes f g :: u64
  assumes "f div 8 < g div 8 \<or> f div 8 = g div 8 \<and> unat (f mod 8) \<le> unat (g mod 8)"
  shows "f \<le> g"
proof -
  have "unat f div 8 < unat g div 8 \<or> unat f div 8 = unat g div 8 \<and> unat f mod 8 \<le> unat g mod 8"
    using assms by (simp add: word_less_nat_alt word_unat_eq_iff unat_div unat_mod)
  then have "unat f \<le> unat g"
    using div_mult_mod_eq [of "unat f" 8] div_mult_mod_eq [of "unat g" 8]
      mod_less_divisor [of 8 "unat f"] by (elim disjE) linarith+
  then show ?thesis by (simp add: word_le_nat_alt)
qed

lemma alloc_scan_spec:
  "case alloc_scan s byte of
     Some f \<Rightarrow> frame_free s f \<and> (\<forall>g. frame_free s g \<and> byte \<le> g div 8 \<longrightarrow> f \<le> g)
   | None \<Rightarrow> \<forall>g. frame_free s g \<longrightarrow> \<not> byte \<le> g div 8"
proof (induction s byte rule: alloc_scan.induct)
  case (1 s byte)
  show ?case
  proof (cases "byte < BITMAP_BYTES")
    case False
    then show ?thesis
      by (auto simp: alloc_scan.simps [of s byte] dest!: frame_free_byte)
  next
    case in_range: True
    show ?thesis
    proof (cases "bitmap s byte = 0")
      case True
      have "byte \<le> g div 8 \<longleftrightarrow> byte + 1 \<le> g div 8" if "frame_free s g" for g
        using frame_free_byte [OF that] True word_inc_le_iff [OF in_range, of "g div 8"]
        by (auto simp: le_less)
      then show ?thesis
        using "1.IH"(1) [OF in_range True] in_range True
        by (auto simp: alloc_scan.simps [of s byte] split: option.splits)
    next
      case False
      then obtain k where k: "first_bit (bitmap s byte) [0..<8] = Some k"
        using first_bit_None [of "bitmap s byte"] by auto
      note kp = first_bit_Some [OF k]
      note ix = frame_index [OF in_range, of k]
      have "byte * 8 + of_nat k \<le> g" if "frame_free s g" "byte \<le> g div 8" for g
      proof (cases "byte = g div 8")
        case True
        then have "bit (bitmap s byte) (unat (g mod 8))"
          using that by (simp add: frame_free_iff)
        then have "k \<le> unat (g mod 8)" using kp leI by blast
        then show ?thesis using ix kp True by (intro frame_le_via_byte) auto
      next
        case False
        then show ?thesis using ix kp that by (intro frame_le_via_byte) auto
      qed
      then show ?thesis
        using in_range False k kp ix
        by (simp add: alloc_scan.simps [of s byte] frame_free_iff)
    qed
  qed
qed

lemma alloc_scan_Some:
  "alloc_scan s 0 = Some f \<Longrightarrow> f \<in> free_set s \<and> (\<forall>g \<in> free_set s. f \<le> g)"
  using alloc_scan_spec [of s 0] by (auto simp: free_set_def)

lemma alloc_scan_None: "alloc_scan s 0 = None \<longleftrightarrow> free_set s = {}"
  using alloc_scan_spec [of s 0] by (auto simp: free_set_def split: option.splits)

subsection \<open>The contiguous scan\<close>

definition free_run :: "pmm \<Rightarrow> nat \<Rightarrow> nat \<Rightarrow> bool" where
  "free_run s a n \<longleftrightarrow> a + n \<le> 1048576 \<and> (\<forall>i. a \<le> i \<and> i < a + n \<longrightarrow> frame_free s (of_nat i))"

definition scan_inv :: "pmm \<Rightarrow> u64 \<Rightarrow> u64 \<Rightarrow> u64 \<Rightarrow> u64 \<Rightarrow> bool" where
  "scan_inv s count f run start \<longleftrightarrow>
     run < count \<and> run \<le> f \<and> (run \<noteq> 0 \<longrightarrow> start = f - run) \<and>
     (\<forall>i. unat f - unat run \<le> i \<and> i < unat f \<longrightarrow> frame_free s (of_nat i))"

lemma contig_scan_spec:
  assumes "scan_inv s count f run start"
  shows "(\<forall>st. contig_scan s count f run start = Some st \<longrightarrow> free_run s (unat st) (unat count))
       \<and> (\<forall>a. free_run s a (unat count) \<and> unat f - unat run \<le> a \<longrightarrow>
            (\<exists>st. contig_scan s count f run start = Some st \<and> unat st \<le> a))"
  using assms
proof (induction s count f run start rule: contig_scan.induct)
  case (1 s count f run start)
  have inv: "run < count" "run \<le> f" "run \<noteq> 0 \<Longrightarrow> start = f - run"
    "\<And>i. unat f - unat run \<le> i \<Longrightarrow> i < unat f \<Longrightarrow> frame_free s (of_nat i)"
    using "1.prems" by (auto simp: scan_inv_def)
  have rl: "unat run \<le> unat f" "unat run < unat count"
    using inv(1,2) by (simp_all add: word_le_nat_alt word_less_nat_alt)
  show ?case
  proof (cases "f < MAX_FRAMES")
    case False
    then have "1048576 \<le> unat f" by (simp add: not_less word_le_nat_alt MAX_FRAMES_def)
    then show ?thesis using False rl
      by (auto simp: contig_scan.simps [of s count f] free_run_def)
  next
    case lt: True
    then have fl: "unat f < 1048576" by (simp add: word_less_nat_alt MAX_FRAMES_def)
    note f1 = unat_inc [OF lt]
    show ?thesis
    proof (cases "frame_free s f")
      case False
      have "scan_inv s count (f + 1) 0 start"
        using rl by (auto simp: scan_inv_def f1 word_less_nat_alt)
      note IH = "1.IH"(1) [OF lt False this]
      have step: "unat f + 1 \<le> a" if "free_run s a (unat count)" "unat f - unat run \<le> a" for a
        using that False rl by (auto simp: free_run_def not_less_eq_eq)
      then show ?thesis using IH lt False
        by (auto simp: contig_scan.simps [of s count f] f1)
    next
      case True
      define start' where "start' = (if run = 0 then f else start)"
      have st: "start' = f - run" "unat start' = unat f - unat run"
        using inv(3) rl by (auto simp: start'_def unat_sub_small)
      have grown: "frame_free s (of_nat i)" if "unat f - unat run \<le> i" "i \<le> unat f" for i
        using that True inv(4) [of i] by (cases "i = unat f") auto
      have r1: "unat (run + 1) = unat run + 1" by (simp add: unat_inc [OF inv(1)])
      show ?thesis
      proof (cases "run + 1 = count")
        case full: True
        have c: "unat count = unat run + 1" using r1 full by simp
        show ?thesis using lt True full st grown fl rl c
          by (auto simp: contig_scan.simps [of s count f] Let_def start'_def [symmetric]
              free_run_def)
      next
        case False
        then have "run + 1 < count"
          using inv(1) r1 by (simp add: word_less_nat_alt word_unat_eq_iff)
        then have "scan_inv s count (f + 1) (run + 1) start'"
          using st rl grown r1 f1 by (auto simp: scan_inv_def word_le_nat_alt)
        note IH = "1.IH"(2) [OF lt _ start'_def False this]
        then show ?thesis using lt True False r1 f1
          by (simp add: contig_scan.simps [of s count f] Let_def start'_def [symmetric])
      qed
    qed
  qed
qed

lemma scan_inv_start: "count \<noteq> 0 \<Longrightarrow> scan_inv s count 0 0 0"
  by (simp add: scan_inv_def word_neq_0_conv [symmetric])

subsection \<open>The public operations\<close>

definition frames_of :: "u64 \<Rightarrow> u64 \<Rightarrow> u64 set" where
  "frames_of p n = {f. p div PAGE_SIZE \<le> f \<and> f < p div PAGE_SIZE + n}"

definition pmm_ok :: "pmm \<Rightarrow> bool" where
  "pmm_ok s \<longleftrightarrow> pmm_wf s \<and> 0 \<notin> free_set s"

lemma frame_addr:
  assumes "unat f < 1048576"
  shows "unat (f * PAGE_SIZE) = unat f * 4096" and "f * PAGE_SIZE div PAGE_SIZE = f"
    and "f * PAGE_SIZE mod PAGE_SIZE = 0"
    and "f * PAGE_SIZE = 0 \<longleftrightarrow> f = 0"
proof -
  show u: "unat (f * PAGE_SIZE) = unat f * 4096"
    using assms by (simp add: PAGE_SIZE_def unat_mult_small)
  show "f * PAGE_SIZE div PAGE_SIZE = f" "f * PAGE_SIZE mod PAGE_SIZE = 0"
    "f * PAGE_SIZE = 0 \<longleftrightarrow> f = 0"
    using u by (simp_all add: word_unat_eq_iff unat_div unat_mod) (simp_all add: PAGE_SIZE_def)
qed

lemma free_set_unat: "f \<in> free_set s \<Longrightarrow> unat f < 1048576"
  by (auto simp: free_set_def frame_free_iff word_less_nat_alt MAX_FRAMES_def)

lemma frames_of_one:
  assumes "unat f < 1048576"
  shows "frames_of (f * PAGE_SIZE) 1 = {f}"
proof -
  have "unat (f + 1) = Suc (unat f)"
    using assms by (subst unat_add_small) auto
  then show ?thesis
    unfolding frames_of_def frame_addr(2) [OF assms]
    by (auto simp: word_less_nat_alt word_le_nat_alt word_unat_eq_iff)
qed

lemma pmm_alloc_frame_cases:
  obtains (none) "free_set s = {}" "pmm_alloc_frame s = (0, s)"
  | (some) f where "f \<in> free_set s" "\<forall>g \<in> free_set s. f \<le> g"
      "pmm_alloc_frame s = (f * PAGE_SIZE, mark_used f s)"
proof (cases "alloc_scan s 0")
  case None
  then show ?thesis using alloc_scan_None [of s] by (intro none) (auto simp: pmm_alloc_frame_def)
next
  case (Some f)
  then show ?thesis using alloc_scan_Some [OF Some] by (intro some) (auto simp: pmm_alloc_frame_def)
qed

lemma free_run_frames:
  assumes "free_run s (unat st) (unat n)" and "n \<noteq> 0"
  shows "unat st < 1048576" and "unat st + unat n \<le> 1048576"
    and "{f. st \<le> f \<and> f < st + n} \<subseteq> free_set s"
proof -
  have n: "0 < unat n" using assms(2) by (simp add: unat_gt_0)
  show le: "unat st + unat n \<le> 1048576" using assms(1) by (simp add: free_run_def)
  with n show "unat st < 1048576" by linarith
  show "{f. st \<le> f \<and> f < st + n} \<subseteq> free_set s"
  proof
    fix f assume "f \<in> {f. st \<le> f \<and> f < st + n}"
    then have "unat st \<le> unat f \<and> unat f < unat st + unat n"
      using le by (simp add: word_less_nat_alt word_le_nat_alt unat_add_small)
    then have "frame_free s (of_nat (unat f))"
      using assms(1) unfolding free_run_def by blast
    then show "f \<in> free_set s" by (simp add: free_set_def)
  qed
qed

lemma pmm_alloc_contig_cases:
  assumes "n \<noteq> 0" and "n \<noteq> 1"
  obtains (none) "\<nexists>a. free_run s a (unat n)" "pmm_alloc_contig n s = (0, s)"
  | (some) st where "free_run s (unat st) (unat n)"
      "\<forall>a. free_run s a (unat n) \<longrightarrow> unat st \<le> a"
      "pmm_alloc_contig n s = (st * PAGE_SIZE,
         zero_ram (st * PAGE_SIZE) (n * PAGE_SIZE) (mark_run st 0 n s))"
proof (cases "contig_scan s n 0 0 0")
  case None
  then show ?thesis
    using assms contig_scan_spec [OF scan_inv_start [OF assms(1)], of s]
    by (intro none) (auto simp: pmm_alloc_contig_def)
next
  case (Some st)
  then show ?thesis
    using assms contig_scan_spec [OF scan_inv_start [OF assms(1)], of s]
    by (intro some [of st]) (auto simp: pmm_alloc_contig_def)
qed

lemma zero_ram_fields [simp]:
  "free_set (zero_ram p n s) = free_set s" "pmm_wf (zero_ram p n s) = pmm_wf s"
  "usable_frames (zero_ram p n s) = usable_frames s"
  by (simp_all add: free_set_def pmm_wf_def zero_ram_def frame_free_def)

lemma pmm_alloc_contig_effect:
  assumes alloc: "pmm_alloc_contig n s = (p, s')" and ok: "pmm_ok s" and p: "p \<noteq> 0"
  shows "n \<noteq> 0 \<and> p mod PAGE_SIZE = 0 \<and> unat (p div PAGE_SIZE) + unat n \<le> 1048576
       \<and> frames_of p n \<subseteq> free_set s \<and> free_set s' = free_set s - frames_of p n \<and> pmm_ok s'"
proof (cases "n = 1")
  case True
  show ?thesis
  proof (cases rule: pmm_alloc_frame_cases [of s])
    case none
    then show ?thesis using alloc p True by (simp add: pmm_alloc_contig_def)
  next
    case (some f)
    note lt = free_set_unat [OF some(1)]
    have eq: "p = f * PAGE_SIZE" "s' = mark_used f s"
      using alloc True some(3) by (simp_all add: pmm_alloc_contig_def)
    have "pmm_ok s'" using ok by (auto simp: eq pmm_ok_def free_set_mark_used)
    then show ?thesis
      using True some(1) lt frame_addr [OF lt] frames_of_one [OF lt]
      by (simp add: eq free_set_mark_used)
  qed
next
  case False
  have n0: "n \<noteq> 0" using alloc p by (auto simp: pmm_alloc_contig_def)
  show ?thesis
  proof (cases rule: pmm_alloc_contig_cases [OF n0 False, of s])
    case 1
    then show ?thesis using alloc p by simp
  next
    case (2 st)
    note fr = free_run_frames [OF 2(1) n0]
    have eq: "p = st * PAGE_SIZE"
      "s' = zero_ram (st * PAGE_SIZE) (n * PAGE_SIZE) (mark_run st 0 n s)"
      using alloc 2(3) by auto
    have "unat st + unat n < 2 ^ 64" using fr(2) by simp
    note mr = mark_run_effect [OF this, of 0 s]
    have fs: "frames_of p n = {f. st \<le> f \<and> f < st + n}"
      by (simp add: frames_of_def eq frame_addr(2) [OF fr(1)])
    have ns: "free_set s' = free_set s - frames_of p n"
      using mr n0 by (simp add: eq fs [unfolded eq] word_gt_0)
    have "pmm_ok s'" using ok mr ns by (auto simp: pmm_ok_def eq(2))
    then show ?thesis
      using n0 fr frame_addr [OF fr(1)] ns fs by (simp add: eq(1))
  qed
qed

lemma pmm_alloc_contig_zero:
  assumes "pmm_alloc_contig n s = (0, s')" and ok: "pmm_ok s"
  shows "s' = s \<and> (n \<noteq> 0 \<longrightarrow> (\<nexists>a. free_run s a (unat n)))"
proof (cases "n = 0 \<or> n = 1")
  case True
  then show ?thesis
  proof
    assume "n = 0" then show ?thesis using assms(1) by (simp add: pmm_alloc_contig_def)
  next
    assume n: "n = 1"
    show ?thesis
    proof (cases rule: pmm_alloc_frame_cases [of s])
      case none
      then have "\<not> free_run s a (unat n)" for a
        using n by (auto simp: free_run_def free_set_def)
      then show ?thesis using none n assms(1) by (simp add: pmm_alloc_contig_def)
    next
      case (some f)
      then have "f = 0" using assms(1) n frame_addr(4) [OF free_set_unat [OF some(1)]]
        by (simp add: pmm_alloc_contig_def)
      then show ?thesis using some(1) ok by (simp add: pmm_ok_def)
    qed
  qed
next
  case False
  then have n: "n \<noteq> 0" "n \<noteq> 1" by auto
  show ?thesis
  proof (cases rule: pmm_alloc_contig_cases [OF n, of s])
    case 1
    then show ?thesis using assms(1) by simp
  next
    case (2 st)
    note fr = free_run_frames [OF 2(1) n(1)]
    have "st = 0" using assms(1) 2(3) frame_addr(4) [OF fr(1)] by simp
    moreover have "0 < n" using n by (simp add: word_gt_0)
    ultimately have "0 \<in> free_set s" using fr(3) by auto
    then show ?thesis using ok by (simp add: pmm_ok_def)
  qed
qed

lemma pmm_free_frame_effect:
  assumes "pmm_ok s" and "p div PAGE_SIZE \<noteq> 0"
  shows "pmm_ok (pmm_free_frame p s)
       \<and> free_set (pmm_free_frame p s) = free_set s \<union> ({p div PAGE_SIZE} \<inter> {f. f < MAX_FRAMES})"
  using assms by (auto simp: pmm_ok_def pmm_free_frame_def free_set_mark_free)

subsection \<open>The contract the rest of the kernel relies on\<close>

text \<open>
  What a client of the allocator may assume: a non-zero answer is a page-aligned run of
  frames that were free and are free no longer, nothing else changed hands, and zero means
  nothing changed at all.
\<close>

locale frame_source =
  fixes inv :: "'s \<Rightarrow> bool"
    and frames :: "'s \<Rightarrow> u64 set"
    and alloc :: "u64 \<Rightarrow> 's \<Rightarrow> u64 \<times> 's"
    and release :: "u64 \<Rightarrow> 's \<Rightarrow> 's"
  assumes alloc_run:
      "inv s \<Longrightarrow> alloc n s = (p, s') \<Longrightarrow> p \<noteq> 0 \<Longrightarrow>
         n \<noteq> 0 \<and> p mod PAGE_SIZE = 0 \<and> unat (p div PAGE_SIZE) + unat n \<le> 1048576
         \<and> frames_of p n \<subseteq> frames s \<and> frames s' = frames s - frames_of p n \<and> inv s'"
    and alloc_zero: "inv s \<Longrightarrow> alloc n s = (0, s') \<Longrightarrow> s' = s"
    and release_frame:
      "inv s \<Longrightarrow> p div PAGE_SIZE \<noteq> 0 \<Longrightarrow> inv (release p s)
         \<and> frames (release p s) = frames s \<union> ({p div PAGE_SIZE} \<inter> {f. f < MAX_FRAMES})"
    and frame_zero: "inv s \<Longrightarrow> 0 \<notin> frames s"
begin

lemma alloc_inv:
  assumes "inv s" and "alloc n s = (p, s')"
  shows "inv s' \<and> frames s' \<subseteq> frames s"
proof (cases "p = 0")
  case True
  then show ?thesis using assms alloc_zero [of s n s'] by simp
next
  case False
  then show ?thesis using assms alloc_run [of s n p s'] by blast
qed

lemma alloc_disjoint:
  assumes "inv s" and "alloc n s = (p, s1)" and "p \<noteq> 0"
    and "alloc m s1 = (q, s2)" and "q \<noteq> 0"
  shows "frames_of p n \<inter> frames_of q m = {}"
proof -
  note first = alloc_run [OF assms(1,2,3)]
  then have "inv s1" by simp
  from alloc_run [OF this assms(4,5)] have "frames_of q m \<subseteq> frames s1" by simp
  with first show ?thesis by blast
qed

lemma alloc_release:
  assumes "inv s" and "alloc 1 s = (p, s')" and "p \<noteq> 0"
  shows "inv (release p s') \<and> frames (release p s') = frames s"
proof -
  note a = alloc_run [OF assms]
  define f where "f = p div PAGE_SIZE"
  have lt: "unat f < 1048576" using a by (simp add: f_def)
  have "p = f * PAGE_SIZE"
    using a div_mult_mod_eq [of p PAGE_SIZE] by (simp add: f_def)
  then have one: "frames_of p 1 = {f}" using frames_of_one [OF lt] by simp
  then have "f \<in> frames s" using a by simp
  moreover from this have "f \<noteq> 0" using frame_zero [OF assms(1)] by auto
  ultimately show ?thesis
    using a one lt release_frame [of s' p]
    by (auto simp: f_def [symmetric] word_less_nat_alt MAX_FRAMES_def)
qed

end

interpretation pmm: frame_source pmm_ok free_set pmm_alloc_contig pmm_free_frame
proof unfold_locales
  show "pmm_ok s \<Longrightarrow> pmm_alloc_contig n s = (p, s') \<Longrightarrow> p \<noteq> 0 \<Longrightarrow>
      n \<noteq> 0 \<and> p mod PAGE_SIZE = 0 \<and> unat (p div PAGE_SIZE) + unat n \<le> 1048576
      \<and> frames_of p n \<subseteq> free_set s \<and> free_set s' = free_set s - frames_of p n \<and> pmm_ok s'"
    for s n p s' by (rule pmm_alloc_contig_effect)
  show "pmm_ok s \<Longrightarrow> pmm_alloc_contig n s = (0, s') \<Longrightarrow> s' = s" for s n s'
    using pmm_alloc_contig_zero by blast
  show "pmm_ok s \<Longrightarrow> p div PAGE_SIZE \<noteq> 0 \<Longrightarrow> pmm_ok (pmm_free_frame p s)
      \<and> free_set (pmm_free_frame p s) = free_set s \<union> ({p div PAGE_SIZE} \<inter> {f. f < MAX_FRAMES})"
    for s p by (rule pmm_free_frame_effect)
  show "pmm_ok s \<Longrightarrow> 0 \<notin> free_set s" for s by (simp add: pmm_ok_def)
qed

subsection \<open>Boot: what \<open>pmm_init\<close> leaves behind\<close>

lemma reserve_range_effect:
  "free_set (reserve_range a b s)
     = free_set s - {f. a div PAGE_SIZE \<le> f \<and> f < (b + PAGE_SIZE - 1) div PAGE_SIZE}
   \<and> (pmm_wf s \<longrightarrow> pmm_wf (reserve_range a b s))
   \<and> usable_frames (reserve_range a b s) = usable_frames s"
  using mark_used_from_effect by (simp add: reserve_range_def Let_def)

lemmas free_set_reserve_range [pmm_simps] = reserve_range_effect [THEN conjunct1]

lemma pmm_wf_reserve_range [intro]: "pmm_wf s \<Longrightarrow> pmm_wf (reserve_range a b s)"
  using reserve_range_effect by blast

lemma reserve_modules_effect:
  "free_set (reserve_modules m ts s) \<subseteq> free_set s
   \<and> (pmm_wf s \<longrightarrow> pmm_wf (reserve_modules m ts s))
   \<and> usable_frames (reserve_modules m ts s) = usable_frames s"
proof (induction ts arbitrary: s)
  case (Cons t ts)
  let ?s = "if rd32 m t = MULTIBOOT2_TAG_TYPE_MODULE
            then reserve_range (ucast (rd32 m (t + 8))) (ucast (rd32 m (t + 12))) s else s"
  have "free_set ?s \<subseteq> free_set s \<and> (pmm_wf s \<longrightarrow> pmm_wf ?s) \<and> usable_frames ?s = usable_frames s"
    by (auto simp: reserve_range_effect)
  with Cons.IH [of ?s] show ?case by auto
qed simp

lemma reserve_modules_member:
  assumes "t \<in> set ts" and "rd32 m t = MULTIBOOT2_TAG_TYPE_MODULE"
    and "ucast (rd32 m (t + 8)) div PAGE_SIZE \<le> f"
    and "f < (ucast (rd32 m (t + 12)) + PAGE_SIZE - 1) div PAGE_SIZE"
  shows "f \<notin> free_set (reserve_modules m ts s)"
  using assms(1)
proof (induction ts arbitrary: s)
  case (Cons u us)
  show ?case
  proof (cases "t = u")
    case True
    have "f \<notin> free_set (reserve_range (ucast (rd32 m (t + 8))) (ucast (rd32 m (t + 12))) s)"
      using assms(3,4) by (simp add: free_set_reserve_range)
    then show ?thesis
      using reserve_modules_effect
        [of m us "reserve_range (ucast (rd32 m (t + 8))) (ucast (rd32 m (t + 12))) s"]
        True assms(2) by auto
  qed (use Cons in auto)
qed simp

lemma pmm_wf_mmap_entry: "pmm_wf s \<Longrightarrow> pmm_wf (mmap_entry m e s)"
  by (auto simp: mmap_entry_def Let_def)

lemma pmm_wf_mmap_entries:
  assumes "mmap_entries m e stop sz s = Some s'" and "pmm_wf s"
  shows "pmm_wf s'"
proof -
  have "pmm_wf s \<longrightarrow> pmm_wf s'"
  proof (rule mmap_entries.raw_induct
      [where P = "\<lambda>m e stop sz s s'. pmm_wf s \<longrightarrow> pmm_wf s'", OF _ assms(1)])
    fix g m e stop sz s s'
    assume "\<And>m e stop sz s s'. g m e stop sz s = Some s' \<Longrightarrow> pmm_wf s \<longrightarrow> pmm_wf s'"
      and "(if e < stop then g m (e + ucast sz) stop sz (mmap_entry m e s) else Some s) = Some s'"
    then show "pmm_wf s \<longrightarrow> pmm_wf s'" by (auto split: if_splits simp: pmm_wf_mmap_entry)
  qed
  with assms(2) show ?thesis by simp
qed

lemma pmm_wf_free_mmap_tags: "free_mmap_tags m ts s = Some s' \<Longrightarrow> pmm_wf s \<Longrightarrow> pmm_wf s'"
  by (induction m ts s rule: free_mmap_tags.induct)
     (auto split: if_splits bind_splits dest: pmm_wf_mmap_entries)

lemma pmm_wf_cleared:
  "pmm_wf (s\<lparr>bitmap := \<lambda>i. if i < BITMAP_BYTES then 0 else bitmap s i, free_frames := 0\<rparr>)"
proof -
  have "free_set (s\<lparr>bitmap := \<lambda>i. if i < BITMAP_BYTES then 0 else bitmap s i,
                   free_frames := 0\<rparr>) = {}"
    by (auto simp: free_set_def dest: frame_free_byte)
  then show ?thesis by (simp add: pmm_wf_def)
qed

lemma frame_free_usable [simp]: "free_set (s\<lparr>usable_frames := u\<rparr>) = free_set s"
  by (simp add: free_set_def frame_free_def)

lemma pmm_init_effect:
  assumes "pmm_init ks ke m mb s0 = Some s"
  obtains tags where "mb_tags m (ucast mb + 8) = Some tags"
    and "pmm_wf s" and "unat (free_frames s) \<le> unat (usable_frames s)"
    and "0 \<notin> free_set s"
    and "{f. USER_VIRT_BASE div PAGE_SIZE \<le> f \<and> f < USER_VIRT_END div PAGE_SIZE} \<inter> free_set s = {}"
    and "{f. ks div PAGE_SIZE \<le> f \<and> f < (ke + PAGE_SIZE - 1) div PAGE_SIZE} \<inter> free_set s = {}"
    and "\<And>t f. t \<in> set tags \<Longrightarrow> rd32 m t = MULTIBOOT2_TAG_TYPE_MODULE \<Longrightarrow>
           ucast (rd32 m (t + 8)) div PAGE_SIZE \<le> f \<Longrightarrow>
           f < (ucast (rd32 m (t + 12)) + PAGE_SIZE - 1) div PAGE_SIZE \<Longrightarrow> f \<notin> free_set s"
proof -
  let ?c = "s0\<lparr>bitmap := \<lambda>i. if i < BITMAP_BYTES then 0 else bitmap s0 i, free_frames := 0\<rparr>"
  from assms obtain tags s2 where tags: "mb_tags m (ucast mb + 8) = Some tags"
    and s2: "free_mmap_tags m tags ?c = Some s2"
    and s: "s = reserve_modules m tags (reserve_range USER_VIRT_BASE USER_VIRT_END
             (reserve_range (ucast mb) (ucast (mb + rd32 m (ucast mb)))
               (reserve_range ks ke (reserve_range 0 PAGE_SIZE
                 (s2\<lparr>usable_frames := free_frames s2\<rparr>)))))"
    (is "s = reserve_modules m tags ?r")
    by (auto simp: pmm_init_def Let_def split: bind_splits)
  have wf2: "pmm_wf s2" by (rule pmm_wf_free_mmap_tags [OF s2 pmm_wf_cleared])
  then have "pmm_wf (s2\<lparr>usable_frames := free_frames s2\<rparr>)" by (simp add: pmm_wf_def)
  then have wfr: "pmm_wf ?r" by (intro pmm_wf_reserve_range)
  have us: "usable_frames ?r = free_frames s2" by (simp add: reserve_range_effect)
  have sub: "free_set s \<subseteq> free_set ?r" using reserve_modules_effect s by simp
  have subr: "free_set ?r \<subseteq> free_set s2" by (auto simp: free_set_reserve_range)
  show ?thesis
  proof
    show "mb_tags m (ucast mb + 8) = Some tags" by (fact tags)
    show wf: "pmm_wf s" using wfr reserve_modules_effect s by simp
    have "card (free_set s) \<le> card (free_set s2)" using sub subr by (intro card_mono) auto
    moreover have "usable_frames s = free_frames s2" using us reserve_modules_effect s by simp
    ultimately show "unat (free_frames s) \<le> unat (usable_frames s)"
      using wf wf2 by (simp add: pmm_wf_def)
    show "0 \<notin> free_set s"
      using sub by (auto simp: free_set_reserve_range PAGE_SIZE_def)
    show "{f. USER_VIRT_BASE div PAGE_SIZE \<le> f \<and> f < USER_VIRT_END div PAGE_SIZE} \<inter> free_set s = {}"
      using sub by (auto simp: free_set_reserve_range pmm_consts)
    show "{f. ks div PAGE_SIZE \<le> f \<and> f < (ke + PAGE_SIZE - 1) div PAGE_SIZE} \<inter> free_set s = {}"
      using sub by (auto simp: free_set_reserve_range)
    show "f \<notin> free_set s" if "t \<in> set tags" "rd32 m t = MULTIBOOT2_TAG_TYPE_MODULE"
      "ucast (rd32 m (t + 8)) div PAGE_SIZE \<le> f"
      "f < (ucast (rd32 m (t + 12)) + PAGE_SIZE - 1) div PAGE_SIZE" for t f
      using reserve_modules_member [OF that] s by simp
  qed
qed

text \<open>
  The boot walk returns whenever the tag list ends and no memory-map tag has a zero entry
  size: the address of an entry then grows past the end of its tag.
\<close>

lemma mmap_entries_returns:
  assumes "sz \<noteq> 0" and "unat stop < 2 ^ 63"
  shows "\<exists>s'. mmap_entries m e stop sz s = Some s'"
proof (induction "unat stop - unat e" arbitrary: e s rule: less_induct)
  case less
  show ?case
  proof (cases "e < stop")
    case True
    have sz: "0 < unat sz" using assms(1) by (simp add: unat_gt_0)
    have "unat (e + ucast sz :: u64) = unat e + unat sz"
      using True assms(2) unat_u32_bound [of sz]
      by (subst unat_add_small) (auto simp: word_less_nat_alt)
    then have "unat stop - unat (e + ucast sz :: u64) < unat stop - unat e"
      using True sz by (simp add: word_less_nat_alt)
    from less [OF this, of "mmap_entry m e s"] True show ?thesis
      by (subst mmap_entries.simps) simp
  next
    case False
    then show ?thesis by (subst mmap_entries.simps) simp
  qed
qed

lemma free_mmap_tags_returns:
  assumes "\<forall>t \<in> set ts. rd32 m t = MULTIBOOT2_TAG_TYPE_MMAP \<longrightarrow>
             rd32 m (t + 8) \<noteq> 0 \<and> unat (t + ucast (rd32 m (t + 4))) < 2 ^ 63"
  shows "\<exists>s'. free_mmap_tags m ts s = Some s'"
  using assms
proof (induction ts arbitrary: s)
  case (Cons t ts)
  show ?case
  proof (cases "rd32 m t = MULTIBOOT2_TAG_TYPE_MMAP")
    case True
    with Cons.prems obtain s1 where
      "mmap_entries m (t + 16) (t + ucast (rd32 m (t + 4))) (rd32 m (t + 8)) s = Some s1"
      using mmap_entries_returns
        [of "rd32 m (t + 8)" "t + ucast (rd32 m (t + 4))" m "t + 16" s] by auto
    with Cons.IH [of s1] Cons.prems True show ?thesis by simp
  next
    case False
    with Cons show ?thesis by simp
  qed
qed simp

subsection \<open>Sequences of allocator calls\<close>

datatype pmm_op = AllocFrame | AllocContig u64 | FreeFrame u64 | Reserve u64 u64

fun pmm_step :: "pmm_op \<Rightarrow> pmm \<Rightarrow> u64 \<times> pmm" where
  "pmm_step AllocFrame s = pmm_alloc_frame s"
| "pmm_step (AllocContig n) s = pmm_alloc_contig n s"
| "pmm_step (FreeFrame p) s = (0, pmm_free_frame p s)"
| "pmm_step (Reserve p n) s = (0, pmm_reserve p n s)"

fun pmm_run :: "pmm_op list \<Rightarrow> pmm \<Rightarrow> pmm" where
  "pmm_run [] s = s"
| "pmm_run (x # xs) s = pmm_run xs (snd (pmm_step x s))"

definition avoids :: "u64 set \<Rightarrow> pmm_op \<Rightarrow> bool" where
  "avoids R x \<longleftrightarrow> (case x of FreeFrame p \<Rightarrow> p div PAGE_SIZE \<notin> R | _ \<Rightarrow> True)"

lemma pmm_alloc_frame_contig: "pmm_alloc_frame s = pmm_alloc_contig 1 s"
  by (simp add: pmm_alloc_contig_def)

lemma pmm_step_reserved:
  assumes "pmm_ok s" and "0 \<in> R" and "R \<inter> free_set s = {}" and "avoids R x"
  shows "pmm_ok (snd (pmm_step x s)) \<and> R \<inter> free_set (snd (pmm_step x s)) = {}"
proof (cases x)
  case AllocFrame
  then show ?thesis
    using pmm.alloc_inv [OF assms(1), of 1] assms(3)
    by (cases "pmm_alloc_contig 1 s") (auto simp: pmm_alloc_frame_contig)
next
  case (AllocContig n)
  then show ?thesis
    using pmm.alloc_inv [OF assms(1), of n] assms(3)
    by (cases "pmm_alloc_contig n s") auto
next
  case (FreeFrame p)
  then have "p div PAGE_SIZE \<notin> R" using assms(4) by (simp add: avoids_def)
  moreover from this have "p div PAGE_SIZE \<noteq> 0" using assms(2) by auto
  ultimately show ?thesis
    using pmm.release_frame [OF assms(1), of p] assms(3) FreeFrame by auto
next
  case (Reserve p n)
  then show ?thesis
    using assms(1,3) by (auto simp: pmm_reserve_def free_set_reserve_range pmm_ok_def)
qed

lemma pmm_run_reserved:
  assumes "pmm_ok s" and "0 \<in> R" and "R \<inter> free_set s = {}" and "list_all (avoids R) xs"
  shows "pmm_ok (pmm_run xs s) \<and> R \<inter> free_set (pmm_run xs s) = {}"
  using assms
proof (induction xs arbitrary: s)
  case (Cons x xs)
  then have "pmm_ok (snd (pmm_step x s)) \<and> R \<inter> free_set (snd (pmm_step x s)) = {}"
    by (intro pmm_step_reserved) auto
  with Cons show ?case by simp
qed simp

lemma alloc_contig_least:
  assumes "pmm_ok s" and "pmm_alloc_contig n s = (p, s')" and "p \<noteq> 0"
  shows "free_run s (unat (p div PAGE_SIZE)) (unat n)
       \<and> (\<forall>a. free_run s a (unat n) \<longrightarrow> unat (p div PAGE_SIZE) \<le> a)"
proof (cases "n = 1")
  case True
  show ?thesis
  proof (cases rule: pmm_alloc_frame_cases [of s])
    case none
    then show ?thesis using assms(2,3) True by (simp add: pmm_alloc_contig_def)
  next
    case (some f)
    note lt = free_set_unat [OF some(1)]
    have p: "p div PAGE_SIZE = f"
      using assms(2) True some(3) frame_addr(2) [OF lt] by (auto simp: pmm_alloc_contig_def)
    have least: "unat f \<le> a" if "free_run s a 1" for a
    proof -
      from that have "of_nat a \<in> free_set s" and "a < 1048576"
        by (auto simp: free_run_def free_set_def)
      with some(2) have "f \<le> of_nat a" by blast
      then show ?thesis using \<open>a < 1048576\<close> by (simp add: word_le_nat_alt unat_of_nat)
    qed
    have "free_run s (unat f) 1"
      using some(1) lt by (auto simp: free_run_def free_set_def less_Suc_eq_le dest: le_antisym)
    then show ?thesis using True p least by simp
  qed
next
  case False
  have n0: "n \<noteq> 0" using assms(2,3) by (auto simp: pmm_alloc_contig_def)
  show ?thesis
  proof (cases rule: pmm_alloc_contig_cases [OF n0 False, of s])
    case 1
    then show ?thesis using assms(2,3) by simp
  next
    case (2 st)
    have "p div PAGE_SIZE = st"
      using assms(2) 2(3) frame_addr(2) [OF free_run_frames(1) [OF 2(1) n0]] by auto
    with 2 show ?thesis by simp
  qed
qed

lemma alloc_contig_ram:
  assumes "pmm_ok s" and "pmm_alloc_contig n s = (p, s')" and "p \<noteq> 0"
  shows "ram s' a = (if n \<noteq> 1 \<and> a - p < n * PAGE_SIZE then 0 else ram s a)"
proof (cases "n = 1")
  case True
  show ?thesis using assms(2,3) True
    by (cases rule: pmm_alloc_frame_cases [of s]) (auto simp: pmm_alloc_contig_def)
next
  case False
  have n0: "n \<noteq> 0" using assms(2,3) by (auto simp: pmm_alloc_contig_def)
  show ?thesis
  proof (cases rule: pmm_alloc_contig_cases [OF n0 False, of s])
    case 1
    then show ?thesis using assms(2,3) by simp
  next
    case (2 st)
    note fr = free_run_frames [OF 2(1) n0]
    have "unat st + unat n < 2 ^ 64" using fr(2) by simp
    note mr = mark_run_effect [OF this, of 0 s]
    have "p = st * PAGE_SIZE"
      "s' = zero_ram (st * PAGE_SIZE) (n * PAGE_SIZE) (mark_run st 0 n s)"
      using assms(2) 2(3) by auto
    with mr False show ?thesis by (simp add: zero_ram_def)
  qed
qed

subsection \<open>Properties\<close>

definition demo_pmm :: pmm where
  "demo_pmm = mark_free 12 (mark_free 11 (mark_free 10
     \<lparr>bitmap = (\<lambda>_. 0), free_frames = 0, usable_frames = 0, ram = (\<lambda>_. 7)\<rparr>))"

lemma free_set_all_zero: "free_set \<lparr>bitmap = (\<lambda>_. 0), free_frames = 0, usable_frames = u, ram = r\<rparr> = {}"
  by (simp add: free_set_def frame_free_def)

lemma pmm_ok_demo: "pmm_ok demo_pmm"
proof -
  have "pmm_wf demo_pmm"
    unfolding demo_pmm_def
    by (intro pmm_wf_mark_free) (simp add: pmm_wf_def free_set_all_zero)
  moreover have "0 \<notin> free_set demo_pmm"
    by (simp add: demo_pmm_def free_set_mark_free free_set_all_zero)
  ultimately show ?thesis by (simp add: pmm_ok_def)
qed

text \<open>
  C12. \<open>pmm_alloc_contig\<close> is exact. It answers zero exactly when no frame was asked for or there is
  no run of that many consecutive free frames anywhere in the 4 GiB, and then the state is untouched.
  Otherwise the answer is the page-aligned address of the lowest such run: exactly its
  frames stop being free, the free-frame counter still equals the number of free frames and
  frame 0 is still withheld. Of memory, a run of two frames or more is zeroed and no other byte
  changes; a single frame is handed out as it was, no byte of memory changes.
\<close>

theorem pmm_alloc_contig_exact:
  assumes "pmm_ok s" and "pmm_alloc_contig n s = (p, s')"
  shows "(p = 0 \<longleftrightarrow> n = 0 \<or> (\<nexists>a. free_run s a (unat n)))
     \<and> (if p = 0 then s' = s
         else p mod PAGE_SIZE = 0
            \<and> free_run s (unat (p div PAGE_SIZE)) (unat n)
            \<and> (\<forall>a. free_run s a (unat n) \<longrightarrow> unat (p div PAGE_SIZE) \<le> a)
            \<and> free_set s' = free_set s - frames_of p n \<and> pmm_ok s'
            \<and> (\<forall>a. ram s' a = (if n \<noteq> 1 \<and> a - p < n * PAGE_SIZE then 0 else ram s a)))"
proof (cases "p = 0")
  case True
  then show ?thesis using pmm_alloc_contig_zero [of n s s'] assms by auto
next
  case False
  note eff = pmm.alloc_run [OF assms False]
  have "free_run s (unat (p div PAGE_SIZE)) (unat n)
      \<and> (\<forall>a. free_run s a (unat n) \<longrightarrow> unat (p div PAGE_SIZE) \<le> a)"
    by (rule alloc_contig_least [OF assms False])
  moreover have "n \<noteq> 0" using assms(2) False by (auto simp: pmm_alloc_contig_def)
  ultimately show ?thesis using eff False alloc_contig_ram [OF assms False] by auto
qed

theorem pmm_alloc_contig_exact_witness:
  "fst (pmm_alloc_contig 3 demo_pmm) = 40960
   \<and> free_set (snd (pmm_alloc_contig 3 demo_pmm)) = free_set demo_pmm - frames_of 40960 3"
proof -
  have f: "fst (pmm_alloc_contig 3 demo_pmm) = 40960"
    by (simp add: pmm_alloc_contig_def contig_scan.simps demo_pmm_def frame_free_mark_free
        frame_free_def [where s = "\<lparr>bitmap = _, free_frames = _, usable_frames = _, ram = _\<rparr>"]
        PAGE_SIZE_def MAX_FRAMES_def)
  then have "pmm_alloc_contig 3 demo_pmm = (40960, snd (pmm_alloc_contig 3 demo_pmm))"
    by (metis prod.collapse)
  from pmm_alloc_contig_exact [OF pmm_ok_demo this] f show ?thesis by simp
qed

definition window_frames :: "u64 set" where
  "window_frames = {f. USER_VIRT_BASE div PAGE_SIZE \<le> f \<and> f < USER_VIRT_END div PAGE_SIZE}"

text \<open>
  C13. Boot terminates and sets the allocator up. When the multiboot tag list ends, and no
  memory-map tag carries a zero entry size or reaches past \<open>2^63\<close>, \<open>pmm_init\<close> returns,
  whatever the bitmap held before; afterwards the counter equals the number of free frames
  and does not exceed the usable total, and frame 0, the program window, the kernel image
  and every boot module are withheld.
\<close>

theorem pmm_init_establishes:
  assumes "mb_tags m (ucast mb + 8) = Some tags"
    and "\<forall>t \<in> set tags. rd32 m t = MULTIBOOT2_TAG_TYPE_MMAP \<longrightarrow>
           rd32 m (t + 8) \<noteq> 0 \<and> unat (t + ucast (rd32 m (t + 4))) < 2 ^ 63"
  shows "\<exists>s. pmm_init ks ke m mb s0 = Some s \<and> pmm_ok s
     \<and> unat (pmm_free_frame_count s) \<le> unat (pmm_total_frame_count s)
     \<and> window_frames \<inter> free_set s = {}
     \<and> {f. ks div PAGE_SIZE \<le> f \<and> f < (ke + PAGE_SIZE - 1) div PAGE_SIZE} \<inter> free_set s = {}
     \<and> (\<forall>t f. t \<in> set tags \<and> rd32 m t = MULTIBOOT2_TAG_TYPE_MODULE
           \<and> ucast (rd32 m (t + 8)) div PAGE_SIZE \<le> f
           \<and> f < (ucast (rd32 m (t + 12)) + PAGE_SIZE - 1) div PAGE_SIZE \<longrightarrow> f \<notin> free_set s)"
proof -
  let ?c = "s0\<lparr>bitmap := \<lambda>i. if i < BITMAP_BYTES then 0 else bitmap s0 i, free_frames := 0\<rparr>"
  obtain s2 where "free_mmap_tags m tags ?c = Some s2"
    using free_mmap_tags_returns [OF assms(2), of ?c] by blast
  then obtain s where s: "pmm_init ks ke m mb s0 = Some s"
    using assms(1) by (simp add: pmm_init_def Let_def)
  then show ?thesis
    using assms(1) s
    by (elim pmm_init_effect, intro exI [of _ s])
       (auto simp: pmm_ok_def pmm_free_frame_count_def pmm_total_frame_count_def
         window_frames_def)
qed

definition boot_bytes :: "u8 list" where
  "boot_bytes = [56,0,0,0, 0,0,0,0,
     6,0,0,0, 40,0,0,0, 24,0,0,0, 0,0,0,0,
     0,0x10,0,0,0,0,0,0, 0,0x30,0,0,0,0,0,0, 1,0,0,0, 0,0,0,0,
     0,0,0,0, 8,0,0,0]"

definition boot_mem :: "u64 \<Rightarrow> u8" where
  "boot_mem a = (if a - 0x10000 < 56 then boot_bytes ! unat (a - 0x10000) else 0)"

lemma boot_mem_rd32:
  "rd32 boot_mem 0x10008 = 6" "rd32 boot_mem 0x1000C = 40" "rd32 boot_mem 0x10010 = 24"
  "rd32 boot_mem 0x10030 = 0"
  by (simp_all add: rd32_def boot_mem_def boot_bytes_def)

lemma boot_mem_tags: "mb_tags boot_mem 0x10008 = Some [0x10008]"
  by (simp add: mb_tags.simps boot_mem_rd32 MULTIBOOT2_TAG_TYPE_END_def)

theorem pmm_init_establishes_witness:
  "\<exists>s. pmm_init 0x100000 0x200000 boot_mem 0x10000 demo_pmm = Some s \<and> pmm_ok s"
proof -
  have "mb_tags boot_mem (ucast (0x10000 :: u32) + 8) = Some [0x10008]"
    by (simp add: boot_mem_tags)
  from pmm_init_establishes [OF this, where ks = "0x100000" and ke = "0x200000" and ?s0.0 = demo_pmm] show ?thesis
    by (auto simp: boot_mem_rd32)
qed

text \<open>
  C14. After boot, the program window and frame 0 stay out of the allocator's hands for ever:
  whatever sequence of allocations, reservations and frees follows, as long as no free names
  one of those frames, the free-frame counter stays exact and no allocation ever returns a
  run that touches them.
\<close>

theorem pmm_window_never_allocated:
  assumes "pmm_init ks ke m mb s0 = Some s"
    and "list_all (avoids (insert 0 window_frames)) xs"
    and "pmm_alloc_contig n (pmm_run xs s) = (p, s')"
  shows "unat (pmm_free_frame_count s') = card (free_set s')
     \<and> (p \<noteq> 0 \<longrightarrow> frames_of p n \<inter> insert 0 window_frames = {})"
proof -
  from assms(1) have "pmm_ok s \<and> insert 0 window_frames \<inter> free_set s = {}"
    by (elim pmm_init_effect) (auto simp: pmm_ok_def window_frames_def)
  then have run: "pmm_ok (pmm_run xs s) \<and> insert 0 window_frames \<inter> free_set (pmm_run xs s) = {}"
    by (intro pmm_run_reserved assms(2)) auto
  have "pmm_ok s'" using pmm.alloc_inv run assms(3) by blast
  moreover have "p \<noteq> 0 \<Longrightarrow> frames_of p n \<subseteq> free_set (pmm_run xs s)"
    using pmm.alloc_run [OF _ assms(3)] run by blast
  ultimately show ?thesis
    using run by (auto simp: pmm_ok_def pmm_wf_def pmm_free_frame_count_def)
qed

lemma boot_mem_init:
  "\<exists>s. pmm_init 0x100000 0x200000 boot_mem 0x10000 demo_pmm = Some s"
proof -
  have "mb_tags boot_mem (ucast (0x10000 :: u32) + 8) = Some [0x10008]"
    by (simp add: boot_mem_tags)
  moreover obtain s2 where "free_mmap_tags boot_mem [0x10008]
      (demo_pmm\<lparr>bitmap := \<lambda>i. if i < BITMAP_BYTES then 0 else bitmap demo_pmm i,
                free_frames := 0\<rparr>) = Some s2"
    using free_mmap_tags_returns [of "[0x10008]" boot_mem] by (auto simp: boot_mem_rd32)
  ultimately show ?thesis by (simp add: pmm_init_def Let_def)
qed

theorem pmm_window_never_allocated_witness:
  "\<exists>s p s'. pmm_init 0x100000 0x200000 boot_mem 0x10000 demo_pmm = Some s
     \<and> pmm_alloc_contig 2 (pmm_run [AllocFrame, FreeFrame 0x5000, Reserve 0x8000 4096] s) = (p, s')
     \<and> (p \<noteq> 0 \<longrightarrow> frames_of p 2 \<inter> insert 0 window_frames = {})"
proof -
  obtain s where s: "pmm_init 0x100000 0x200000 boot_mem 0x10000 demo_pmm = Some s"
    using boot_mem_init by blast
  let ?xs = "[AllocFrame, FreeFrame 0x5000, Reserve 0x8000 4096]"
  obtain p s' where a: "pmm_alloc_contig 2 (pmm_run ?xs s) = (p, s')" by fastforce
  have "list_all (avoids (insert 0 window_frames)) ?xs"
    by (simp add: avoids_def window_frames_def pmm_consts)
  from pmm_window_never_allocated [OF s this a] s a show ?thesis by blast
qed

end
