(* ===== verification/Region_Allocator.thy ===== *)
theory Region_Allocator
  imports Prelude
begin

text \<open>
  The contract of a memory allocator, as its clients see it: a set of live regions (pointer
  and capacity), an \<open>alloc\<close> that adds one region disjoint from the others or fails without
  changing the set, and a \<open>dealloc\<close> that removes exactly the region named. Both operations
  return for every state that satisfies the invariant. The kernel heap is shown to be such
  an allocator in \<open>Heap\<close>.
\<close>

definition region :: "u64 \<Rightarrow> u64 \<Rightarrow> nat set" where
  "region p n = {unat p ..< unat p + unat n}"

datatype req = Get u64 | Put u64

fun run_reqs ::
  "(u64 \<Rightarrow> 's \<Rightarrow> (u64 \<times> 's) option) \<Rightarrow> (u64 \<Rightarrow> 's \<Rightarrow> 's option) \<Rightarrow> req list \<Rightarrow> 's \<Rightarrow> 's option" where
  "run_reqs al de [] s = Some s"
| "run_reqs al de (Get n # rs) s = Option.bind (al n s) (\<lambda>(p, s'). run_reqs al de rs s')"
| "run_reqs al de (Put p # rs) s = Option.bind (de p s) (run_reqs al de rs)"

text \<open>A client is well behaved when it frees only what is live at that moment.\<close>

fun behaved ::
  "('s \<Rightarrow> (u64 \<times> u64) set) \<Rightarrow> (u64 \<Rightarrow> 's \<Rightarrow> (u64 \<times> 's) option) \<Rightarrow> (u64 \<Rightarrow> 's \<Rightarrow> 's option) \<Rightarrow> nat
    \<Rightarrow> req list \<Rightarrow> 's \<Rightarrow> bool" where
  "behaved lv al de m [] s = True"
| "behaved lv al de m (Get n # rs) s =
     (unat n \<le> m \<and> (\<forall>p s'. al n s = Some (p, s') \<longrightarrow> behaved lv al de m rs s'))"
| "behaved lv al de m (Put p # rs) s =
     (p \<in> fst ` lv s \<and> (\<forall>s'. de p s = Some s' \<longrightarrow> behaved lv al de m rs s'))"

locale region_allocator =
  fixes inv :: "'s \<Rightarrow> bool"
    and live :: "'s \<Rightarrow> (u64 \<times> u64) set"
    and alloc :: "u64 \<Rightarrow> 's \<Rightarrow> (u64 \<times> 's) option"
    and dealloc :: "u64 \<Rightarrow> 's \<Rightarrow> 's option"
    and max_request :: nat
  assumes live_disjoint:
      "inv s \<Longrightarrow> (p, n) \<in> live s \<Longrightarrow> (q, m) \<in> live s \<Longrightarrow> (p, n) \<noteq> (q, m) \<Longrightarrow>
         p \<noteq> q \<and> region p n \<inter> region q m = {}"
    and alloc_step:
      "inv s \<Longrightarrow> unat n \<le> max_request \<Longrightarrow> \<exists>p s'. alloc n s = Some (p, s') \<and> inv s'
         \<and> (if p = 0 then live s' = live s
            else \<exists>c. n \<le> c \<and> p \<notin> fst ` live s \<and> live s' = insert (p, c) (live s))"
    and dealloc_step:
      "inv s \<Longrightarrow> (p, n) \<in> live s \<Longrightarrow> \<exists>s'. dealloc p s = Some s' \<and> inv s' \<and> live s' = live s - {(p, n)}"
begin

text \<open>A block fresh from \<open>alloc\<close> overlaps nothing that was live, and freeing it restores
  the live set.\<close>

lemma alloc_fresh:
  assumes "inv s" and "unat n \<le> max_request" and "alloc n s = Some (p, s')" and "p \<noteq> 0"
  shows "\<exists>c. n \<le> c \<and> (p, c) \<in> live s' \<and> (\<forall>(q, m) \<in> live s. region p c \<inter> region q m = {})"
proof -
  from alloc_step [OF assms(1,2)] assms(3,4) obtain c where
    c: "inv s'" "n \<le> c" "p \<notin> fst ` live s" "live s' = insert (p, c) (live s)" by auto
  have "region p c \<inter> region q m = {}" if "(q, m) \<in> live s" for q m
  proof -
    have "(p, c) \<noteq> (q, m)" using c(3) that by force
    then show ?thesis using live_disjoint [OF c(1), of p c q m] that c(4) by blast
  qed
  then have "\<forall>(q, m) \<in> live s. region p c \<inter> region q m = {}" by blast
  with c show ?thesis by blast
qed

lemma alloc_dealloc:
  assumes "inv s" and "unat n \<le> max_request" and "alloc n s = Some (p, s')" and "p \<noteq> 0"
  shows "\<exists>s''. dealloc p s' = Some s'' \<and> inv s'' \<and> live s'' = live s"
proof -
  from alloc_step [OF assms(1,2)] assms(3,4) obtain c where
    c: "inv s'" "p \<notin> fst ` live s" "live s' = insert (p, c) (live s)" by auto
  have "live s' - {(p, c)} = live s" using c(2,3) by force
  then show ?thesis using dealloc_step [OF c(1), of p c] c(3) by auto
qed

lemma run_behaved:
  assumes "inv s" and "behaved live alloc dealloc max_request rs s"
  shows "\<exists>s'. run_reqs alloc dealloc rs s = Some s' \<and> inv s'"
  using assms
proof (induction rs arbitrary: s)
  case (Cons r rs)
  show ?case
  proof (cases r)
    case (Get n)
    with Cons.prems have n: "unat n \<le> max_request"
      and rest: "\<And>p s'. alloc n s = Some (p, s') \<Longrightarrow> behaved live alloc dealloc max_request rs s'"
      by auto
    from alloc_step [OF Cons.prems(1) n] obtain p s' where a: "alloc n s = Some (p, s')" "inv s'"
      by auto
    from Cons.IH [OF a(2) rest [OF a(1)]] show ?thesis by (simp add: Get a(1))
  next
    case (Put p)
    with Cons.prems obtain n where p: "(p, n) \<in> live s"
      and rest: "\<And>s'. dealloc p s = Some s' \<Longrightarrow> behaved live alloc dealloc max_request rs s'"
      by auto
    from dealloc_step [OF Cons.prems(1) p] obtain s' where d: "dealloc p s = Some s'" "inv s'"
      by auto
    from Cons.IH [OF d(2) rest [OF d(1)]] show ?thesis by (simp add: Put d(1))
  qed
qed simp

end

end
