(* ===== verification/Heap.thy ===== *)
theory Heap
  imports Pmm Region_Allocator
begin

text \<open>
  The kernel heap, \<^verbatim>\<open>kernel/mm/heap.c\<close>: a first-fit allocator over a doubly linked list of
  blocks, each a 32-byte header followed by its data, backed by runs of physical frames.

  Block headers are read and written through a typed store: \<open>blocks h a\<close> is the
  \<^verbatim>\<open>heap_block_t\<close> found at address \<open>a\<close>, and writing one header leaves every other
  unchanged. Pointers are addresses, NULL is 0. The frame allocator's state is part of the
  heap's state. \<^verbatim>\<open>heap_lock\<close> is held across each operation, so each is one state
  change. A walk that would follow \<^verbatim>\<open>next\<close> for ever is \<open>None\<close>; the halt in
  \<^verbatim>\<open>kheap_corrupt\<close>, which prints and never returns, is the outcome \<open>Corrupt\<close> with the
  arguments of its report.
\<close>

subsection \<open>State\<close>

record heap_block =
  bsize :: u64
  bfree :: u64
  bnext :: u64
  bprev :: u64

record heap =
  blocks :: "u64 \<Rightarrow> heap_block"
  first_block :: u64
  last_block :: u64
  first_at_init :: u64
  kheap_allocs :: u64
  hframes :: pmm

definition HEADER_SIZE :: u64 where "HEADER_SIZE = 32"

definition ALIGN16 :: "u64 \<Rightarrow> u64" where
  "ALIGN16 x = (x + 15) AND NOT 15"

definition align_up :: "u64 \<Rightarrow> u64 \<Rightarrow> u64" where
  "align_up v a = (v + a - 1) AND NOT (a - 1)"

definition put_block :: "u64 \<Rightarrow> heap_block \<Rightarrow> heap \<Rightarrow> heap" where
  "put_block a b h = h\<lparr>blocks := (blocks h)(a := b)\<rparr>"

subsection \<open>Growing\<close>

function grow_halving :: "u64 \<Rightarrow> pmm \<Rightarrow> u64 \<times> u64 \<times> pmm" where
  "grow_halving frame_count s =
     (if frame_count > 1 then
        let fc = frame_count div 2; (start, s') = pmm_alloc_contig fc s in
          if start \<noteq> 0 then (start, fc, s') else grow_halving fc s'
      else (0, frame_count, s))"
  by pat_completeness auto
termination
  by (relation "measure (\<lambda>(c, s). unat c)") (auto simp: word_less_nat_alt unat_div)

declare grow_halving.simps [simp del]

definition grow_heap :: "u64 \<Rightarrow> heap \<Rightarrow> u64 \<times> heap" where
  "grow_heap min_data_size h =
     (let needed = align_up (HEADER_SIZE + min_data_size) PAGE_SIZE;
          count0 = needed div PAGE_SIZE;
          (start0, s0) = pmm_alloc_contig count0 (hframes h);
          (start, frame_count, s) =
            (if start0 = 0 then grow_halving count0 s0 else (start0, count0, s0));
          h1 = h\<lparr>hframes := s\<rparr>
      in if start = 0 then (0, h1)
         else let stop = start + frame_count * PAGE_SIZE;
                  block = \<lparr>bsize = (stop - start) - HEADER_SIZE, bfree = 1, bnext = 0, bprev = 0\<rparr>;
                  h2 = put_block start block h1;
                  l = last_block h2; lb = blocks h2 l
              in if l \<noteq> 0 \<and> bfree lb \<noteq> 0 \<and> l + HEADER_SIZE + bsize lb = start
                 then (l, put_block l (lb\<lparr>bsize := bsize lb + (HEADER_SIZE + bsize block)\<rparr>) h2)
                 else if first_block h2 = 0
                 then (start, h2\<lparr>first_block := start, last_block := start\<rparr>)
                 else let h3 = put_block start (block\<lparr>bprev := l\<rparr>) h2;
                          h4 = put_block l ((blocks h3 l)\<lparr>bnext := start\<rparr>) h3
                      in (start, h4\<lparr>last_block := start\<rparr>))"

definition heap_init :: "heap \<Rightarrow> heap" where
  "heap_init h =
     (let h1 = h\<lparr>first_block := 0, last_block := 0\<rparr>;
          (b, h2) = grow_heap (1024 * 1024) h1
      in h2\<lparr>first_at_init := first_block h2\<rparr>)"

subsection \<open>Allocating\<close>

definition split_block :: "u64 \<Rightarrow> u64 \<Rightarrow> heap \<Rightarrow> heap" where
  "split_block block sz h =
     (let b = blocks h block; remaining = bsize b - sz in
      if remaining \<le> HEADER_SIZE + 16 then h
      else let new_block = block + HEADER_SIZE + sz;
               h1 = put_block new_block
                      \<lparr>bsize = remaining - HEADER_SIZE, bfree = 1, bnext = bnext b, bprev = block\<rparr> h;
               nx = bnext (blocks h1 block);
               h2 = (if nx \<noteq> 0 then put_block nx ((blocks h1 nx)\<lparr>bprev := new_block\<rparr>) h1
                     else h1\<lparr>last_block := new_block\<rparr>)
           in put_block block ((blocks h2 block)\<lparr>bnext := new_block, bsize := sz\<rparr>) h2)"

definition block_sane :: "u64 \<Rightarrow> heap_block \<Rightarrow> bool" where
  "block_sane a b =
     (if a < 0x1000 \<or> a > 0x100000000 then False
      else if a AND 15 \<noteq> 0 then False
      else if bfree b > 1 then False
      else if bsize b > 0x100000000 then False
      else True)"

datatype walk = Found u64 | NotFound | Broken u64 u64 u32

partial_function (option) first_fit :: "heap \<Rightarrow> u64 \<Rightarrow> u64 \<Rightarrow> u64 \<Rightarrow> u32 \<Rightarrow> walk option" where
  "first_fit h want prv b walked =
     (if b = 0 then Some NotFound
      else if \<not> block_sane b (blocks h b) then Some (Broken prv b walked)
      else if bfree (blocks h b) \<noteq> 0 \<and> bsize (blocks h b) \<ge> want then Some (Found b)
      else first_fit h want b (bnext (blocks h b)) (walked + 1))"

fun grow_tries :: "nat \<Rightarrow> u64 \<Rightarrow> u64 \<times> heap \<Rightarrow> u64 \<times> heap" where
  "grow_tries 0 want (b, h) = (b, h)"
| "grow_tries (Suc n) want (b, h) =
     (if b \<noteq> 0 \<and> bsize (blocks h b) < want then grow_tries n want (grow_heap want h) else (b, h))"

datatype 'a outcome = Return 'a | Corrupt u64 u64 u32

definition take_block :: "u64 \<Rightarrow> u64 \<Rightarrow> heap \<Rightarrow> u64 outcome \<times> heap" where
  "take_block b want h =
     (let h1 = split_block b want h;
          h2 = put_block b ((blocks h1 b)\<lparr>bfree := 0\<rparr>) h1
      in (Return (b + HEADER_SIZE), h2))"

definition kmalloc :: "u64 \<Rightarrow> heap \<Rightarrow> (u64 outcome \<times> heap) option" where
  "kmalloc sz h =
     (if sz = 0 then Some (Return 0, h)
      else let want = ALIGN16 sz in
        Option.bind (first_fit h want 0 (first_block h) 0) (\<lambda>w.
          case w of
            Broken p b n \<Rightarrow> Some (Corrupt p b n, h)
          | Found b \<Rightarrow> Some (take_block b want (h\<lparr>kheap_allocs := kheap_allocs h + 1\<rparr>))
          | NotFound \<Rightarrow>
              (let (b, h1) = grow_tries 16 want (grow_heap want h) in
               if b = 0 \<or> bsize (blocks h1 b) < want then Some (Return 0, h1)
               else Some (take_block b want h1))))"

subsection \<open>Freeing\<close>

definition phys_adjacent :: "heap \<Rightarrow> u64 \<Rightarrow> u64 \<Rightarrow> bool" where
  "phys_adjacent h lo hi \<longleftrightarrow> lo + HEADER_SIZE + bsize (blocks h lo) = hi"

definition merge_next :: "u64 \<Rightarrow> heap \<Rightarrow> heap" where
  "merge_next b h =
     (let n = bnext (blocks h b) in
      if n \<noteq> 0 \<and> bfree (blocks h n) \<noteq> 0 \<and> phys_adjacent h b n
      then let nn = bnext (blocks h n);
               h1 = put_block b ((blocks h b)\<lparr>bsize := bsize (blocks h b) + (HEADER_SIZE + bsize (blocks h n)),
                                               bnext := nn\<rparr>) h
           in if nn \<noteq> 0 then put_block nn ((blocks h1 nn)\<lparr>bprev := b\<rparr>) h1
              else h1\<lparr>last_block := b\<rparr>
      else h)"

partial_function (option) coalesce :: "u64 \<Rightarrow> heap \<Rightarrow> heap option" where
  "coalesce b h =
     (let h1 = merge_next b h; p = bprev (blocks h1 b) in
      if p \<noteq> 0 \<and> bfree (blocks h1 p) \<noteq> 0 \<and> phys_adjacent h1 p b
      then coalesce p h1 else Some h1)"

definition kfree :: "u64 \<Rightarrow> heap \<Rightarrow> heap option" where
  "kfree ptr h =
     (if ptr = 0 then Some h
      else let b = ptr - HEADER_SIZE;
               h1 = put_block b ((blocks h b)\<lparr>bfree := 1\<rparr>) h
           in coalesce b h1)"

text \<open>
  \<open>krealloc\<close> copies the old contents byte by byte, in physical memory, through the
  identity map.
\<close>

definition copy_ram :: "u64 \<Rightarrow> u64 \<Rightarrow> u64 \<Rightarrow> heap \<Rightarrow> heap" where
  "copy_ram dst src n h =
     h\<lparr>hframes := (hframes h)\<lparr>ram := fold (\<lambda>i r. r(dst + of_nat i := r (src + of_nat i)))
                                      [0..<unat n] (ram (hframes h))\<rparr>\<rparr>"

definition krealloc :: "u64 \<Rightarrow> u64 \<Rightarrow> heap \<Rightarrow> (u64 outcome \<times> heap) option" where
  "krealloc ptr sz h =
     (if ptr = 0 then kmalloc sz h
      else if sz = 0 then map_option (\<lambda>h'. (Return 0, h')) (kfree ptr h)
      else let b = ptr - HEADER_SIZE; old_size = bsize (blocks h b) in
        if old_size \<ge> sz then Some (Return ptr, h)
        else Option.bind (kmalloc sz h) (\<lambda>(r, h1).
          case r of
            Corrupt p c n \<Rightarrow> Some (Corrupt p c n, h1)
          | Return n \<Rightarrow>
              if n = 0 then Some (Return 0, h1)
              else map_option (\<lambda>h'. (Return n, h')) (kfree ptr (copy_ram n ptr old_size h1))))"

subsection \<open>Doubly linked segments of the header store\<close>

text \<open>
  \<open>dseg H p a xs p' a'\<close>: starting at \<open>a\<close>, whose predecessor is \<open>p\<close>, the
  \<^verbatim>\<open>next\<close> pointers visit exactly \<open>xs\<close> and arrive at \<open>a'\<close>, the last visited being \<open>p'\<close>;
  every \<^verbatim>\<open>prev\<close> pointer on the way points back.
\<close>

fun dseg :: "(u64 \<Rightarrow> heap_block) \<Rightarrow> u64 \<Rightarrow> u64 \<Rightarrow> u64 list \<Rightarrow> u64 \<Rightarrow> u64 \<Rightarrow> bool" where
  "dseg H p a [] p' a' \<longleftrightarrow> p' = p \<and> a' = a"
| "dseg H p a (x # xs) p' a' \<longleftrightarrow>
     a = x \<and> x \<noteq> 0 \<and> bprev (H x) = p \<and> dseg H x (bnext (H x)) xs p' a'"

lemma dseg_append:
  "dseg H p a (xs @ ys) p' a' \<longleftrightarrow> (\<exists>q b. dseg H p a xs q b \<and> dseg H q b ys p' a')"
  by (induction xs arbitrary: p a) auto

lemma dseg_cong:
  assumes "\<And>x. x \<in> set xs \<Longrightarrow> bnext (G x) = bnext (H x) \<and> bprev (G x) = bprev (H x)"
  shows "dseg G p a xs p' a' = dseg H p a xs p' a'"
  using assms by (induction xs arbitrary: p a) auto

lemma dseg_agree:
  assumes "dseg H p a xs p' a'"
    and "\<forall>x \<in> set xs. bnext (G x) = bnext (H x) \<and> bprev (G x) = bprev (H x)"
  shows "dseg G p a xs p' a'"
  using assms dseg_cong by blast

lemma dseg_nonzero: "dseg H p a xs p' a' \<Longrightarrow> 0 \<notin> set xs"
  by (induction xs arbitrary: p a) auto

lemma dseg_empty_iff: "dseg H 0 a xs p' 0 \<Longrightarrow> (xs = [] \<longleftrightarrow> a = 0) \<and> (xs = [] \<longleftrightarrow> p' = 0)"
proof (induction xs rule: rev_induct)
  case (snoc x xs)
  then show ?case by (cases xs) (auto simp: dseg_append)
qed auto

lemma dseg_determ:
  "dseg H p a xs q 0 \<Longrightarrow> dseg H p' a ys q' 0 \<Longrightarrow> xs = ys"
proof (induction xs arbitrary: p a ys p')
  case Nil
  then show ?case by (cases ys) auto
next
  case (Cons x xs)
  then show ?case by (cases ys) auto
qed

lemma dseg_last: "dseg H p a (xs @ [x]) p' a' \<Longrightarrow> p' = x \<and> a' = bnext (H x)"
  by (auto simp: dseg_append)

lemma dseg_snoc:
  assumes "dseg H p a xs l 0" and "n \<noteq> 0" and "n \<notin> set xs" and "distinct xs" and "xs \<noteq> []"
    and "bprev (G n) = l" and "bnext (G n) = 0" and "bnext (G l) = n" and "bprev (G l) = bprev (H l)"
    and "\<And>x. x \<noteq> l \<Longrightarrow> x \<noteq> n \<Longrightarrow> G x = H x"
  shows "dseg G p a (xs @ [n]) n 0"
proof -
  obtain ys where xs: "xs = ys @ [l]"
    using assms(1,5) by (metis dseg_last rev_exhaust)
  then have "dseg H p a ys (bprev (H l)) l"
    using assms(1) by (auto simp: dseg_append)
  moreover have "\<forall>x \<in> set ys. bnext (G x) = bnext (H x) \<and> bprev (G x) = bprev (H x)"
    using assms(3,4) xs by (intro ballI, subst (1 2) assms(10)) auto
  ultimately have "dseg G p a ys (bprev (H l)) l" by (rule dseg_agree)
  then show ?thesis
    using assms(2,6-9) xs dseg_nonzero [OF assms(1)] by (simp add: dseg_append)
qed

lemma dseg_insert:
  assumes seg: "dseg H p a (xs @ b # ys) l 0" and d: "distinct (xs @ b # ys)"
    and n: "n \<noteq> 0" "n \<notin> set (xs @ b # ys)"
    and Gn: "bprev (G n) = b" "bnext (G n) = bnext (H b)"
    and Gb: "bprev (G b) = bprev (H b)" "bnext (G b) = n"
    and Gy: "bnext (H b) \<noteq> 0 \<Longrightarrow> bprev (G (bnext (H b))) = n
               \<and> bnext (G (bnext (H b))) = bnext (H (bnext (H b)))"
    and other: "\<And>x. x \<noteq> n \<Longrightarrow> x \<noteq> b \<Longrightarrow> x \<noteq> bnext (H b) \<Longrightarrow>
                  bnext (G x) = bnext (H x) \<and> bprev (G x) = bprev (H x)"
  shows "dseg G p a (xs @ b # n # ys) (if bnext (H b) = 0 then n else l) 0"
proof -
  from seg have xs: "dseg H p a xs (bprev (H b)) b" and "b \<noteq> 0"
    and ys: "dseg H b (bnext (H b)) ys l 0"
    by (auto simp: dseg_append)
  have "bnext (H b) \<notin> set xs"
    using ys d dseg_nonzero [OF seg] by (cases ys) auto
  then have xs': "dseg G p a xs (bprev (H b)) b"
    using d n by (intro dseg_agree [OF xs] ballI other) auto
  show ?thesis
  proof (cases ys)
    case Nil
    then show ?thesis using xs' ys n Gn Gb \<open>b \<noteq> 0\<close> by (simp add: dseg_append)
  next
    case (Cons y zs)
    with ys have y: "bnext (H b) = y" "y \<noteq> 0" and zs: "dseg H y (bnext (H y)) zs l 0" by auto
    have "dseg G y (bnext (H y)) zs l 0"
      using d n Cons y by (intro dseg_agree [OF zs] ballI other) auto
    then show ?thesis using xs' n Gn Gb Gy \<open>b \<noteq> 0\<close> y Cons by (simp add: dseg_append)
  qed
qed

lemma dseg_remove:
  assumes seg: "dseg H p a (xs @ b # n # ys) l 0" and d: "distinct (xs @ b # n # ys)"
    and Gb: "bprev (G b) = bprev (H b)" "bnext (G b) = bnext (H n)"
    and Gy: "bnext (H n) \<noteq> 0 \<Longrightarrow> bprev (G (bnext (H n))) = b
               \<and> bnext (G (bnext (H n))) = bnext (H (bnext (H n)))"
    and other: "\<And>x. x \<noteq> b \<Longrightarrow> x \<noteq> bnext (H n) \<Longrightarrow>
                  bnext (G x) = bnext (H x) \<and> bprev (G x) = bprev (H x)"
  shows "dseg G p a (xs @ b # ys) (if bnext (H n) = 0 then b else l) 0"
proof -
  from seg have xs: "dseg H p a xs (bprev (H b)) b" and "b \<noteq> 0"
    and ys: "dseg H n (bnext (H n)) ys l 0"
    by (auto simp: dseg_append)
  have "bnext (H n) \<notin> set xs"
    using ys d dseg_nonzero [OF seg] by (cases ys) auto
  then have xs': "dseg G p a xs (bprev (H b)) b"
    using d by (intro dseg_agree [OF xs] ballI other) auto
  show ?thesis
  proof (cases ys)
    case Nil
    then show ?thesis using xs' ys Gb \<open>b \<noteq> 0\<close> by (simp add: dseg_append)
  next
    case (Cons y zs)
    with ys have y: "bnext (H n) = y" "y \<noteq> 0" and zs: "dseg H y (bnext (H y)) zs l 0" by auto
    have "dseg G y (bnext (H y)) zs l 0"
      using d Cons y by (intro dseg_agree [OF zs] ballI other) auto
    then show ?thesis using xs' Gb Gy \<open>b \<noteq> 0\<close> y Cons by (simp add: dseg_append)
  qed
qed

subsection \<open>Where blocks lie\<close>

definition extent :: "(u64 \<Rightarrow> heap_block) \<Rightarrow> u64 \<Rightarrow> nat set" where
  "extent H b = {unat b ..< unat b + 32 + unat (bsize (H b))}"

definition block_good :: "(u64 \<Rightarrow> heap_block) \<Rightarrow> u64 \<Rightarrow> bool" where
  "block_good H b \<longleftrightarrow> 4096 \<le> unat b \<and> unat b mod 16 = 0
     \<and> unat b + 32 + unat (bsize (H b)) \<le> 4294967296 \<and> bfree (H b) \<le> 1"

definition layout :: "(u64 \<Rightarrow> heap_block) \<Rightarrow> u64 list \<Rightarrow> bool" where
  "layout H bs \<longleftrightarrow> distinct bs \<and> (\<forall>b \<in> set bs. block_good H b)
     \<and> (\<forall>x \<in> set bs. \<forall>y \<in> set bs. x \<noteq> y \<longrightarrow> extent H x \<inter> extent H y = {})"

definition in_use :: "(u64 \<Rightarrow> heap_block) \<Rightarrow> u64 list \<Rightarrow> (u64 \<times> u64) set" where
  "in_use H bs = {(b, bsize (H b)) | b. b \<in> set bs \<and> bfree (H b) = 0}"

lemma in_extent_self [simp]: "unat b \<in> extent H b"
  by (simp add: extent_def)

lemma word_le_1: "(x :: u64) \<le> 1 \<longleftrightarrow> x = 0 \<or> x = 1"
  by (auto simp: word_le_nat_alt word_unat_eq_iff)

lemma and_15_mod: "(b :: u64) AND 15 = b mod 16"
proof -
  have "b AND 15 = take_bit 4 b" by (simp add: take_bit_eq_mask mask_eq_exp_minus_1)
  then show ?thesis by (simp add: take_bit_eq_mod)
qed

lemma block_good_sane: "block_good H b \<Longrightarrow> block_sane b (H b)"
proof -
  assume good: "block_good H b"
  have "b AND 15 = b mod 16" by (rule and_15_mod)
  moreover have "b mod 16 = 0"
    using good by (simp add: block_good_def word_unat_eq_iff unat_mod)
  ultimately show ?thesis
    using good by (auto simp: block_sane_def block_good_def word_less_nat_alt word_le_nat_alt)
qed

lemma layout_good: "layout H bs \<Longrightarrow> b \<in> set bs \<Longrightarrow> block_good H b"
  by (simp add: layout_def)

lemma layout_disjoint:
  "layout H bs \<Longrightarrow> x \<in> set bs \<Longrightarrow> y \<in> set bs \<Longrightarrow> x \<noteq> y \<Longrightarrow> extent H x \<inter> extent H y = {}"
  by (simp add: layout_def)

lemma layout_distinct: "layout H bs \<Longrightarrow> distinct bs"
  by (simp add: layout_def)

lemma layout_cong:
  assumes "layout H bs" and "\<And>x. x \<in> set bs \<Longrightarrow> bsize (G x) = bsize (H x) \<and> bfree (G x) \<le> 1"
  shows "layout G bs"
proof -
  have "extent G x = extent H x" if "x \<in> set bs" for x
    using assms(2) [OF that] by (simp add: extent_def)
  moreover have "block_good G x" if "x \<in> set bs" for x
    using assms that by (auto simp: layout_def block_good_def)
  ultimately show ?thesis using assms(1) by (simp add: layout_def)
qed

lemma layout_split:
  assumes lay: "layout H (xs @ b # ys)"
    and n: "unat n = unat b + 32 + unat (bsize (G b))" and al: "unat (bsize (G b)) mod 16 = 0"
    and sz: "unat (bsize (G b)) + 32 + unat (bsize (G n)) = unat (bsize (H b))"
    and fr: "bfree (G b) \<le> 1" "bfree (G n) \<le> 1"
    and other: "\<And>x. x \<in> set (xs @ ys) \<Longrightarrow> bsize (G x) = bsize (H x) \<and> bfree (G x) \<le> 1"
  shows "layout G (xs @ b # n # ys)" and "extent H b = extent G b \<union> extent G n"
    and "n \<notin> set (xs @ b # ys)"
proof -
  show u: "extent H b = extent G b \<union> extent G n"
    using n sz by (auto simp: extent_def)
  have dj: "extent G b \<inter> extent G n = {}" using n by (auto simp: extent_def)
  have same: "extent G x = extent H x" if "x \<in> set (xs @ ys)" for x
    using other [OF that] by (simp add: extent_def)
  have "unat n \<in> extent H b" using u by simp
  moreover have "n \<noteq> b" using n by auto
  ultimately show nin: "n \<notin> set (xs @ b # ys)"
    using lay in_extent_self [of n H] unfolding layout_def by (metis IntI emptyE in_set_conv_decomp)
  have g: "block_good H x" if "x \<in> set (xs @ b # ys)" for x
    using lay that by (rule layout_good)
  have "block_good G b" "block_good G n"
    using g [of b] n sz al fr by (auto simp: block_good_def)
  moreover have "block_good G x" if "x \<in> set (xs @ ys)" for x
    using g [of x] other [OF that] that by (auto simp: block_good_def)
  moreover have "extent G x \<inter> extent G y = {}"
    if xy: "x \<in> set (xs @ b # n # ys)" "y \<in> set (xs @ b # n # ys)" "x \<noteq> y" for x y
  proof -
    have d: "extent H v \<inter> extent H w = {}"
      if "v \<in> set (xs @ b # ys)" "w \<in> set (xs @ b # ys)" "v \<noteq> w" for v w
      using lay that by (rule layout_disjoint)
    have db: "extent H v \<inter> extent H b = {}" if "v \<in> set (xs @ ys)" for v
      using d [of v b] layout_distinct [OF lay] that by auto
    consider "x \<in> set (xs @ ys)" "y \<in> set (xs @ ys)" | "x \<in> set (xs @ ys)" "y = b \<or> y = n"
      | "x = b \<or> x = n" "y \<in> set (xs @ ys)" | "x = b \<or> x = n" "y = b \<or> y = n"
      using xy by auto
    then show ?thesis
    proof cases
      case 1 then show ?thesis using d [of x y] same xy(3) by auto
    next
      case 2 then show ?thesis using db [of x] same u by auto
    next
      case 3 then show ?thesis using db [of y] same u by auto
    next
      case 4 then show ?thesis using dj xy(3) by auto
    qed
  qed
  ultimately show "layout G (xs @ b # n # ys)"
    using lay nin by (auto simp: layout_def)
qed

lemma layout_merge:
  assumes lay: "layout H (xs @ b # n # ys)"
    and n: "unat n = unat b + 32 + unat (bsize (H b))"
    and sz: "unat (bsize (G b)) = unat (bsize (H b)) + 32 + unat (bsize (H n))"
    and fr: "bfree (G b) \<le> 1"
    and other: "\<And>x. x \<in> set (xs @ ys) \<Longrightarrow> bsize (G x) = bsize (H x) \<and> bfree (G x) \<le> 1"
  shows "layout G (xs @ b # ys)" and "extent G b = extent H b \<union> extent H n"
proof -
  show u: "extent G b = extent H b \<union> extent H n"
    using n sz by (auto simp: extent_def)
  have same: "extent G x = extent H x" if "x \<in> set (xs @ ys)" for x
    using other [OF that] by (simp add: extent_def)
  have g: "block_good H x" if "x \<in> set (xs @ b # n # ys)" for x
    using lay that by (rule layout_good)
  have "block_good G b" using g [of b] g [of n] n sz fr by (auto simp: block_good_def)
  moreover have "block_good G x" if "x \<in> set (xs @ ys)" for x
    using g [of x] other [OF that] that by (auto simp: block_good_def)
  moreover have "extent G x \<inter> extent G y = {}"
    if xy: "x \<in> set (xs @ b # ys)" "y \<in> set (xs @ b # ys)" "x \<noteq> y" for x y
  proof -
    have d: "extent H v \<inter> extent H w = {}"
      if "v \<in> set (xs @ b # n # ys)" "w \<in> set (xs @ b # n # ys)" "v \<noteq> w" for v w
      using lay that by (rule layout_disjoint)
    have db: "extent H v \<inter> extent G b = {}" if "v \<in> set (xs @ ys)" for v
      using d [of v b] d [of v n] layout_distinct [OF lay] that u by auto
    consider "x \<in> set (xs @ ys)" "y \<in> set (xs @ ys)" | "x \<in> set (xs @ ys)" "y = b"
      | "x = b" "y \<in> set (xs @ ys)"
      using xy by auto
    then show ?thesis
    proof cases
      case 1 then show ?thesis using d [of x y] same xy(3) by auto
    next
      case 2 then show ?thesis using db [of x] same by auto
    next
      case 3 then show ?thesis using db [of y] same by auto
    qed
  qed
  ultimately show "layout G (xs @ b # ys)"
    using lay by (auto simp: layout_def)
qed

subsection \<open>The heap invariant\<close>

definition owned :: "heap \<Rightarrow> u64 list \<Rightarrow> bool" where
  "owned h bs \<longleftrightarrow> (\<forall>b \<in> set bs. \<forall>k \<in> extent (blocks h) b. of_nat (k div 4096) \<notin> free_set (hframes h))"

definition heap_wf :: "heap \<Rightarrow> u64 list \<Rightarrow> bool" where
  "heap_wf h bs \<longleftrightarrow> dseg (blocks h) 0 (first_block h) bs (last_block h) 0
     \<and> layout (blocks h) bs \<and> owned h bs \<and> pmm_ok (hframes h)"

lemma heap_wfD:
  assumes "heap_wf h bs"
  shows "dseg (blocks h) 0 (first_block h) bs (last_block h) 0" "layout (blocks h) bs"
    "owned h bs" "pmm_ok (hframes h)"
  using assms by (simp_all add: heap_wf_def)

lemma heap_wf_determ: "heap_wf h bs \<Longrightarrow> heap_wf h bs' \<Longrightarrow> bs = bs'"
  by (auto simp: heap_wf_def intro: dseg_determ)

lemma layout_inside:
  assumes "layout H bs" and "b \<in> set bs" and "unat n \<in> extent H b" and "n \<noteq> b"
  shows "n \<notin> set bs"
proof
  assume "n \<in> set bs"
  then have "extent H n \<inter> extent H b = {}"
    using layout_disjoint [OF assms(1)] assms(2,4) by blast
  with assms(3) in_extent_self [of n H] show False by blast
qed

lemma first_fit_seg:
  assumes "dseg (blocks h) p b ys l 0" and "\<forall>y \<in> set ys. block_good (blocks h) y"
  shows "first_fit h want prv b n =
    Some (case List.find (\<lambda>x. bfree (blocks h x) \<noteq> 0 \<and> want \<le> bsize (blocks h x)) ys of
            None \<Rightarrow> NotFound | Some x \<Rightarrow> Found x)"
  using assms
proof (induction ys arbitrary: p b prv n)
  case Nil
  then show ?case by (simp add: first_fit.simps)
next
  case (Cons y ys)
  then show ?case
    using block_good_sane [of "blocks h" y] by (auto simp: first_fit.simps [of h want prv y n])
qed

lemma block_arith:
  assumes "block_good H b" and "unat sz \<le> unat (bsize (H b))"
  shows "unat (b + HEADER_SIZE + sz) = unat b + 32 + unat sz"
    and "unat (bsize (H b) - sz) = unat (bsize (H b)) - unat sz"
  using assms by (auto simp: HEADER_SIZE_def block_good_def unat_add_small unat_sub_small)

lemma dseg_next_in:
  assumes "dseg H 0 a (xs @ b # ys) l 0" and "bnext (H b) \<noteq> 0"
  shows "bnext (H b) \<in> set ys"
  using assms by (cases ys) (auto simp: dseg_append)

text \<open>Splitting keeps the list, the layout and the blocks in use.\<close>

lemma split_block_wf:
  assumes wf: "heap_wf h bs" and b: "b \<in> set bs" and sz: "sz \<le> bsize (blocks h b)"
    and al: "unat sz mod 16 = 0" and fr: "bfree (blocks h b) = 1"
  obtains bs' where "heap_wf (split_block b sz h) bs'" and "b \<in> set bs'"
    and "sz \<le> bsize (blocks (split_block b sz h) b)" and "bfree (blocks (split_block b sz h) b) = 1"
    and "in_use (blocks (split_block b sz h)) bs' = in_use (blocks h) bs"
    and "hframes (split_block b sz h) = hframes h"
proof (cases "bsize (blocks h b) - sz \<le> HEADER_SIZE + 16")
  case True
  then have "split_block b sz h = h" by (simp add: split_block_def Let_def)
  with assms show ?thesis by (intro that [of bs]) auto
next
  case False
  define H where "H = blocks h"
  define n where "n = b + HEADER_SIZE + sz"
  define G where "G = blocks (split_block b sz h)"
  obtain xs ys where bs: "bs = xs @ b # ys" using b by (meson split_list)
  note W = heap_wfD [OF wf, folded H_def]
  have lay: "layout H (xs @ b # ys)" using W(2) bs by simp
  have szn: "unat sz \<le> unat (bsize (H b))" using sz by (simp add: H_def word_le_nat_alt)
  have good: "block_good H b" using layout_good [OF W(2) b] .
  note ar = block_arith [OF good szn, folded n_def]
  have big: "unat (bsize (H b)) - unat sz > 48"
    using False ar(2) by (simp add: H_def HEADER_SIZE_def word_le_nat_alt)
  have nin: "n \<notin> set bs" "n \<noteq> b"
  proof -
    show "n \<noteq> b" using ar(1) by (auto simp: word_unat_eq_iff)
    then show "n \<notin> set bs"
      using ar(1) big by (intro layout_inside [OF W(2) b]) (auto simp: extent_def)
  qed
  have n0: "n \<noteq> 0" using ar(1) good by (auto simp: word_unat_eq_iff block_good_def)
  have nx: "bnext (H b) \<noteq> 0 \<Longrightarrow> bnext (H b) \<in> set ys"
    using dseg_next_in W(1) bs by blast
  have d: "distinct (xs @ b # ys)" using layout_distinct [OF lay] .
  have b0: "b \<noteq> 0" using good by (auto simp: block_good_def)
  have nxne: "bnext (H b) \<noteq> b" "bnext (H b) \<noteq> n" using nx nin n0 d bs b0 by auto
  let ?new = "\<lparr>bsize = bsize (H b) - sz - HEADER_SIZE, bfree = 1, bnext = bnext (H b), bprev = b\<rparr>"
  have G: "G n = ?new" "G b = (H b)\<lparr>bnext := n, bsize := sz\<rparr>"
    "bnext (H b) \<noteq> 0 \<Longrightarrow> G (bnext (H b)) = (H (bnext (H b)))\<lparr>bprev := n\<rparr>"
    "\<And>x. x \<noteq> n \<Longrightarrow> x \<noteq> b \<Longrightarrow> x \<noteq> bnext (H b) \<Longrightarrow> G x = H x"
    and keep: "first_block (split_block b sz h) = first_block h"
      "last_block (split_block b sz h) = (if bnext (H b) = 0 then n else last_block h)"
      "hframes (split_block b sz h) = hframes h"
    using False nin(2) nxne nin(2) [symmetric]
    by (auto simp: G_def H_def n_def split_block_def Let_def put_block_def)
  have Gf: "\<And>x. x \<in> set (xs @ ys) \<Longrightarrow> bsize (G x) = bsize (H x) \<and> bfree (G x) = bfree (H x)"
  proof -
    fix x assume "x \<in> set (xs @ ys)"
    then have "x \<noteq> b" "x \<noteq> n" "x \<noteq> 0" using d nin bs dseg_nonzero [OF W(1)] by auto
    then show "bsize (G x) = bsize (H x) \<and> bfree (G x) = bfree (H x)"
      using G(3) G(4) [of x] by (cases "x = bnext (H b)") auto
  qed
  have seg: "dseg G 0 (first_block h) (xs @ b # n # ys)
               (if bnext (H b) = 0 then n else last_block h) 0"
    by (rule dseg_insert [where H = H]) (use W(1) bs d n0 nin G in auto)
  have sizes: "unat (bsize (G b)) + 32 + unat (bsize (G n)) = unat (bsize (H b))"
    using G big szn ar(2) by (simp add: HEADER_SIZE_def unat_sub_small)
  have lay': "layout G (xs @ b # n # ys)" and ext: "extent H b = extent G b \<union> extent G n"
  proof -
    have f1: "x \<in> set (xs @ ys) \<Longrightarrow> bsize (G x) = bsize (H x) \<and> bfree (G x) \<le> 1" for x
      using Gf [of x] layout_good [OF lay, of x] by (auto simp: block_good_def)
    show "layout G (xs @ b # n # ys)" "extent H b = extent G b \<union> extent G n"
      using layout_split [OF lay, of n G] ar(1) al sizes G(1,2) f1 fr by (simp_all add: H_def)
  qed
  have extx: "x \<in> set (xs @ ys) \<Longrightarrow> extent G x = extent H x" for x
    using Gf [of x] by (simp add: extent_def)
  have own: "owned (split_block b sz h) (xs @ b # n # ys)"
    using W(3) ext extx by (auto simp: owned_def bs keep(3) G_def [symmetric] H_def [symmetric])
  have use: "in_use G (xs @ b # n # ys) = in_use H bs"
    using Gf G(1,2) fr by (auto simp: in_use_def bs H_def)
  show ?thesis
  proof (rule that)
    show "heap_wf (split_block b sz h) (xs @ b # n # ys)"
      using seg lay' own W(4) keep by (simp add: heap_wf_def G_def [symmetric])
  qed (use G(2) fr use keep in \<open>auto simp: G_def H_def\<close>)
qed

subsection \<open>Setting the free flag, taking a block\<close>

lemma set_flag_wf:
  assumes wf: "heap_wf h bs" and b: "b \<in> set bs" and v: "v \<le> 1"
  shows "heap_wf (put_block b ((blocks h b)\<lparr>bfree := v\<rparr>) h) bs"
proof -
  let ?G = "(blocks h)(b := (blocks h b)\<lparr>bfree := v\<rparr>)"
  note W = heap_wfD [OF wf]
  have "dseg ?G 0 (first_block h) bs (last_block h) 0"
    by (rule dseg_agree [OF W(1)]) auto
  moreover have "layout ?G bs"
    using layout_good [OF W(2)] v by (intro layout_cong [OF W(2)]) (auto simp: block_good_def)
  moreover have "extent ?G x = extent (blocks h) x" for x by (simp add: extent_def)
  ultimately show ?thesis using W(3,4) by (simp add: heap_wf_def owned_def put_block_def)
qed

lemma in_use_set_used:
  "b \<in> set bs \<Longrightarrow> bfree (H b) \<noteq> 0 \<Longrightarrow>
   in_use (H(b := (H b)\<lparr>bfree := 0\<rparr>)) bs = insert (b, bsize (H b)) (in_use H bs)"
  by (auto simp: in_use_def)

lemma in_use_set_free:
  "in_use (H(b := (H b)\<lparr>bfree := 1\<rparr>)) bs = {(x, s) \<in> in_use H bs. x \<noteq> b}"
  by (auto simp: in_use_def split: if_splits)

lemma take_block_wf:
  assumes "heap_wf h bs" and "b \<in> set bs" and "want \<le> bsize (blocks h b)"
    and "unat want mod 16 = 0" and "bfree (blocks h b) = 1"
  obtains h' bs' sz where "take_block b want h = (Return (b + HEADER_SIZE), h')"
    and "heap_wf h' bs'" and "want \<le> sz" and "b \<notin> fst ` in_use (blocks h) bs"
    and "in_use (blocks h') bs' = insert (b, sz) (in_use (blocks h) bs)"
    and "hframes h' = hframes h"
proof -
  let ?h1 = "split_block b want h"
  obtain bs' where S: "heap_wf ?h1 bs'" "b \<in> set bs'" "want \<le> bsize (blocks ?h1 b)"
    "bfree (blocks ?h1 b) = 1" "in_use (blocks ?h1) bs' = in_use (blocks h) bs"
    "hframes ?h1 = hframes h"
    using split_block_wf [OF assms] by metis
  let ?h2 = "put_block b ((blocks ?h1 b)\<lparr>bfree := 0\<rparr>) ?h1"
  show ?thesis
  proof
    show "take_block b want h = (Return (b + HEADER_SIZE), ?h2)"
      by (simp add: take_block_def Let_def)
    show "heap_wf ?h2 bs'" using S(1,2) by (rule set_flag_wf) simp
    show "want \<le> bsize (blocks ?h1 b)" by (fact S(3))
    show "b \<notin> fst ` in_use (blocks h) bs" using assms(5) by (auto simp: in_use_def)
    show "in_use (blocks ?h2) bs' = insert (b, bsize (blocks ?h1 b)) (in_use (blocks h) bs)"
      using in_use_set_used [OF S(2), of "blocks ?h1"] S(4,5) by (simp add: put_block_def)
    show "hframes ?h2 = hframes h" using S(6) by (simp add: put_block_def)
  qed
qed

subsection \<open>Merging neighbours\<close>

lemma merge_next_wf:
  assumes wf: "heap_wf h (xs @ b # ys)" and fr: "bfree (blocks h b) = 1"
  obtains ys' where "heap_wf (merge_next b h) (xs @ b # ys')"
    and "bfree (blocks (merge_next b h) b) = 1"
    and "in_use (blocks (merge_next b h)) (xs @ b # ys') = in_use (blocks h) (xs @ b # ys)"
    and "hframes (merge_next b h) = hframes h"
    and "length ys' \<le> length ys"
proof (cases "bnext (blocks h b) \<noteq> 0 \<and> bfree (blocks h (bnext (blocks h b))) \<noteq> 0
              \<and> phys_adjacent h b (bnext (blocks h b))")
  case False
  then have "merge_next b h = h" by (auto simp: merge_next_def Let_def)
  with assms show ?thesis by (intro that [of ys]) auto
next
  case True
  define H where "H = blocks h"
  define n where "n = bnext (H b)"
  define G where "G = blocks (merge_next b h)"
  note W = heap_wfD [OF wf, folded H_def]
  have "n \<in> set ys" using True dseg_next_in [OF W(1)] by (simp add: H_def n_def)
  then obtain zs where ys: "ys = n # zs"
    using W(1) by (cases ys) (auto simp: dseg_append n_def)
  have lay: "layout H (xs @ b # n # zs)" using W(2) ys by simp
  have d: "distinct (xs @ b # n # zs)" using layout_distinct [OF lay] .
  have good: "block_good H b" "block_good H n" using layout_good [OF lay] by auto
  have b0: "b \<noteq> 0" "n \<noteq> 0" using good by (auto simp: block_good_def)
  have nn: "bnext (H n) \<noteq> 0 \<Longrightarrow> bnext (H n) \<in> set zs"
    using W(1) dseg_next_in [of H "first_block h" "xs @ [b]" n zs] ys by simp
  have ne: "bnext (H n) \<noteq> b" "n \<noteq> b" using nn d b0 by auto
  have G: "G b = (H b)\<lparr>bsize := bsize (H b) + (HEADER_SIZE + bsize (H n)), bnext := bnext (H n)\<rparr>"
    "bnext (H n) \<noteq> 0 \<Longrightarrow> G (bnext (H n)) = (H (bnext (H n)))\<lparr>bprev := b\<rparr>"
    "\<And>x. x \<noteq> b \<Longrightarrow> x \<noteq> bnext (H n) \<Longrightarrow> G x = H x"
    and keep: "first_block (merge_next b h) = first_block h"
      "last_block (merge_next b h) = (if bnext (H n) = 0 then b else last_block h)"
      "hframes (merge_next b h) = hframes h"
    using True ne by (auto simp: G_def H_def n_def merge_next_def Let_def put_block_def)
  have Gf: "bsize (G x) = bsize (H x) \<and> bfree (G x) = bfree (H x)" if "x \<in> set (xs @ zs)" for x
  proof -
    from that have "x \<noteq> b" "x \<noteq> 0" using d dseg_nonzero [OF W(1)] ys by auto
    then show ?thesis using G(2) G(3) [of x] by (cases "x = bnext (H n)") auto
  qed
  have seg: "dseg G 0 (first_block h) (xs @ b # zs) (if bnext (H n) = 0 then b else last_block h) 0"
    by (rule dseg_remove [where H = H and n = n]) (use W(1) ys d G in auto)
  have adj: "unat n = unat b + 32 + unat (bsize (H b))"
    using True block_arith(1) [OF good(1), of "bsize (H b)"]
    by (simp add: phys_adjacent_def n_def H_def)
  have sz: "unat (bsize (G b)) = unat (bsize (H b)) + 32 + unat (bsize (H n))"
    using G(1) good adj by (auto simp: block_good_def HEADER_SIZE_def unat_add_small)
  have f1: "x \<in> set (xs @ zs) \<Longrightarrow> bsize (G x) = bsize (H x) \<and> bfree (G x) \<le> 1" for x
    using Gf [of x] layout_good [OF lay, of x] by (auto simp: block_good_def)
  have lay': "layout G (xs @ b # zs)" and ext: "extent G b = extent H b \<union> extent H n"
    using layout_merge [OF lay adj sz _ f1] G(1) fr by (simp_all add: H_def)
  have extx: "x \<in> set (xs @ zs) \<Longrightarrow> extent G x = extent H x" for x
    using Gf [of x] by (simp add: extent_def)
  have own: "owned (merge_next b h) (xs @ b # zs)"
    using W(3) ext extx by (auto simp: owned_def ys keep(3) G_def [symmetric] H_def [symmetric])
  have "bfree (H n) \<noteq> 0" using True by (simp add: H_def n_def)
  then have use: "in_use G (xs @ b # zs) = in_use H (xs @ b # ys)"
    using Gf G(1) fr by (auto simp: in_use_def ys H_def)
  show ?thesis
  proof (rule that)
    show "heap_wf (merge_next b h) (xs @ b # zs)"
      using seg lay' own W(4) keep by (simp add: heap_wf_def G_def [symmetric])
  qed (use G(1) fr use keep ys in \<open>auto simp: G_def H_def\<close>)
qed

lemma coalesce_wf:
  assumes "heap_wf h (xs @ b # ys)" and "bfree (blocks h b) = 1"
  shows "\<exists>h' bs'. coalesce b h = Some h' \<and> heap_wf h' bs'
     \<and> in_use (blocks h') bs' = in_use (blocks h) (xs @ b # ys) \<and> hframes h' = hframes h"
  using assms
proof (induction xs arbitrary: h b ys rule: rev_induct)
  case Nil
  then obtain ys' where M: "heap_wf (merge_next b h) (b # ys')"
    "in_use (blocks (merge_next b h)) (b # ys') = in_use (blocks h) ([] @ b # ys)"
    "hframes (merge_next b h) = hframes h"
    using merge_next_wf [of h "[]" b ys] by (metis append_Nil)
  from heap_wfD(1) [OF M(1)] have "bprev (blocks (merge_next b h) b) = 0" by simp
  then have "coalesce b h = Some (merge_next b h)" by (subst coalesce.simps) (simp add: Let_def)
  with M show ?case by auto
next
  case (snoc p xs)
  let ?h = "merge_next b h"
  obtain ys' where M: "heap_wf ?h ((xs @ [p]) @ b # ys')"
    "in_use (blocks ?h) ((xs @ [p]) @ b # ys') = in_use (blocks h) ((xs @ [p]) @ b # ys)"
    "hframes ?h = hframes h"
    using merge_next_wf [OF snoc.prems] by metis
  from heap_wfD(1) [OF M(1)] have p: "bprev (blocks ?h b) = p" by (auto simp: dseg_append)
  show ?case
  proof (cases "p \<noteq> 0 \<and> bfree (blocks ?h p) \<noteq> 0 \<and> phys_adjacent ?h p b")
    case True
    then have "coalesce b h = coalesce p ?h" using p by (subst coalesce.simps) (simp add: Let_def)
    moreover have "bfree (blocks ?h p) = 1"
      using True layout_good [OF heap_wfD(2) [OF M(1)], of p] by (auto simp: block_good_def word_le_1)
    ultimately show ?thesis using snoc.IH [of ?h p "b # ys'"] M by simp
  next
    case False
    then have "coalesce b h = Some ?h" using p by (subst coalesce.simps) (auto simp add: Let_def)
    with M show ?thesis by auto
  qed
qed

lemma kfree_wf:
  assumes wf: "heap_wf h bs" and use: "(b, sz) \<in> in_use (blocks h) bs"
  obtains h' bs' where "kfree (b + HEADER_SIZE) h = Some h'" and "heap_wf h' bs'"
    and "in_use (blocks h') bs' = in_use (blocks h) bs - {(b, sz)}" and "hframes h' = hframes h"
proof -
  from use have b: "b \<in> set bs" and sz: "sz = bsize (blocks h b)" by (auto simp: in_use_def)
  then obtain xs ys where bs: "bs = xs @ b # ys" by (meson split_list)
  have good: "block_good (blocks h) b" using layout_good [OF heap_wfD(2) [OF wf] b] .
  have "unat (b + HEADER_SIZE) = unat b + 32"
    using good by (auto simp: block_good_def HEADER_SIZE_def unat_add_small)
  then have "b + HEADER_SIZE \<noteq> 0" by (auto simp: word_unat_eq_iff)
  let ?h1 = "put_block b ((blocks h b)\<lparr>bfree := 1\<rparr>) h"
  have wf1: "heap_wf ?h1 (xs @ b # ys)" using set_flag_wf [OF wf b] bs by simp
  obtain h' bs' where C: "coalesce b ?h1 = Some h'" "heap_wf h' bs'"
    "in_use (blocks h') bs' = in_use (blocks ?h1) bs" "hframes h' = hframes ?h1"
    using coalesce_wf [OF wf1] bs by (auto simp: put_block_def)
  have "in_use (blocks ?h1) bs = in_use (blocks h) bs - {(b, sz)}"
    using in_use_set_free [of "blocks h" b bs] sz by (auto simp: put_block_def in_use_def)
  with C show ?thesis
    using \<open>b + HEADER_SIZE \<noteq> 0\<close> by (intro that [of h' bs']) (simp_all add: kfree_def Let_def put_block_def)
qed

subsection \<open>Growing by whole runs of frames\<close>

definition got_run :: "u64 \<Rightarrow> u64 \<Rightarrow> pmm \<Rightarrow> pmm \<Rightarrow> bool" where
  "got_run st fc s s' \<longleftrightarrow> fc \<noteq> 0 \<and> st \<noteq> 0 \<and> st mod PAGE_SIZE = 0
     \<and> unat (st div PAGE_SIZE) + unat fc \<le> 1048576
     \<and> frames_of st fc \<subseteq> free_set s \<and> free_set s' = free_set s - frames_of st fc \<and> pmm_ok s'"

lemma alloc_got_run:
  assumes "pmm_ok s" and "pmm_alloc_contig n s = (st, s')"
  shows "if st = 0 then s' = s else got_run st n s s'"
  using pmm.alloc_run [OF assms] pmm.alloc_zero [of s n s'] assms by (auto simp: got_run_def)

lemma grow_halving_run:
  assumes "pmm_ok s"
  shows "case grow_halving c s of (st, fc, s') \<Rightarrow> if st = 0 then s' = s else got_run st fc s s'"
  using assms
proof (induction c s rule: grow_halving.induct)
  case (1 c s)
  obtain st s' where a: "pmm_alloc_contig (c div 2) s = (st, s')" by fastforce
  note g = alloc_got_run [OF "1.prems" a]
  show ?case
  proof (cases "c > 1 \<and> st = 0")
    case True
    then show ?thesis
      using "1.IH" [OF _ refl refl a [symmetric]] a g "1.prems"
      by (auto simp: grow_halving.simps [of c s] split: prod.splits)
  next
    case False
    then show ?thesis using a g by (auto simp: grow_halving.simps [of c s])
  qed
qed

lemma page_aligned_unat:
  assumes "st mod PAGE_SIZE = 0"
  shows "unat st = unat (st div PAGE_SIZE) * 4096"
proof -
  have "unat st mod 4096 = 0"
    using assms by (simp add: word_unat_eq_iff unat_mod PAGE_SIZE_def)
  then have "unat st div 4096 * 4096 = unat st" by (metis add.right_neutral div_mult_mod_eq)
  then show ?thesis by (simp add: unat_div PAGE_SIZE_def)
qed

lemma got_run_arith:
  assumes "got_run st fc s s'"
  shows "unat st + unat fc * 4096 \<le> 4294967296" and "1 \<le> unat fc"
    and "unat (fc * PAGE_SIZE) = unat fc * 4096"
    and "unat st mod 4096 = 0"
    and "k \<in> {unat st ..< unat st + unat fc * 4096} \<longleftrightarrow>
         k < 2 ^ 64 \<and> of_nat (k div 4096) \<in> frames_of st fc" (is "?in = ?fr")
proof -
  note r = assms [unfolded got_run_def]
  have st: "unat st = unat (st div PAGE_SIZE) * 4096" using page_aligned_unat [of st] r by simp
  have le: "unat (st div PAGE_SIZE) + unat fc \<le> 1048576" using r by simp
  show top: "unat st + unat fc * 4096 \<le> 4294967296" using st le by simp
  show one: "1 \<le> unat fc" using r by (simp add: Suc_le_eq unat_gt_0)
  show "unat (fc * PAGE_SIZE) = unat fc * 4096"
    using le by (simp add: PAGE_SIZE_def unat_mult_small)
  show "unat st mod 4096 = 0" using st by simp
  have fr: "of_nat (k div 4096) \<in> frames_of st fc \<longleftrightarrow>
      unat (st div PAGE_SIZE) \<le> k div 4096 \<and> k div 4096 < unat (st div PAGE_SIZE) + unat fc"
    if "k < 2 ^ 64"
    using that le
    by (simp add: frames_of_def word_le_nat_alt word_less_nat_alt unat_add_small unat_of_nat)
  show "?in = ?fr"
  proof (cases "k < 2 ^ 64")
    case True
    have "unat st \<le> k \<longleftrightarrow> unat (st div PAGE_SIZE) \<le> k div 4096"
      unfolding st by (simp add: less_eq_div_iff_mult_less_eq)
    moreover have "k < unat st + unat fc * 4096 \<longleftrightarrow> k div 4096 < unat (st div PAGE_SIZE) + unat fc"
      unfolding st by (subst div_less_iff_less_mult) (simp_all add: add_mult_distrib)
    ultimately show ?thesis using fr [OF True] True by simp
  next
    case False
    then show ?thesis using top by auto
  qed
qed

definition grown :: "u64 \<Rightarrow> heap \<Rightarrow> u64 list \<Rightarrow> heap \<Rightarrow> u64 list \<Rightarrow> bool" where
  "grown b h bs h' bs' \<longleftrightarrow> heap_wf h' bs' \<and> b \<in> set bs' \<and> bfree (blocks h' b) = 1
     \<and> in_use (blocks h') bs' = in_use (blocks h) bs"

lemma got_run_4096: "got_run st fc s s' \<Longrightarrow> 4096 \<le> unat st \<and> unat st mod 16 = 0"
proof -
  assume r: "got_run st fc s s'"
  then have "unat st = unat (st div PAGE_SIZE) * 4096" and "st \<noteq> 0"
    using page_aligned_unat [of st] by (simp_all add: got_run_def)
  moreover from this have "unat (st div PAGE_SIZE) \<noteq> 0" by (metis mult_is_0 unat_eq_zero)
  ultimately show ?thesis by simp
qed

lemma layout_add:
  assumes "layout H bs" and "n \<notin> set bs" and "block_good (H(n := b)) n"
    and "\<And>x. x \<in> set bs \<Longrightarrow> extent (H(n := b)) n \<inter> extent H x = {}"
  shows "layout (H(n := b)) (bs @ [n])"
proof -
  have "x \<in> set bs \<Longrightarrow> extent (H(n := b)) x = extent H x \<and> block_good (H(n := b)) x = block_good H x" for x
    using assms(2) by (auto simp: extent_def block_good_def)
  then show ?thesis using assms unfolding layout_def by (auto simp: Int_commute)
qed

lemma dseg_last_in:
  assumes "dseg H p a xs l q" and "xs \<noteq> []"
  shows "l = last xs \<and> l \<in> set xs"
proof -
  have "dseg H p a (butlast xs @ [last xs]) l q" using assms by simp
  from dseg_last [OF this] assms(2) show ?thesis by simp
qed

lemma in_use_cong:
  assumes "\<And>x. x \<in> set bs \<Longrightarrow>
             bfree (G x) = bfree (H x) \<and> (bfree (H x) = 0 \<longrightarrow> bsize (G x) = bsize (H x))"
  shows "in_use G bs = in_use H bs"
  using assms unfolding in_use_def by (auto; metis)

lemma link_run:
  assumes wf: "heap_wf h bs" and run: "got_run st fc (hframes h) s'"
    and blk: "block = \<lparr>bsize = (st + fc * PAGE_SIZE - st) - HEADER_SIZE, bfree = 1, bnext = 0, bprev = 0\<rparr>"
    and h2: "h2 = put_block st block (h\<lparr>hframes := s'\<rparr>)"
    and l: "l = last_block h"
    and res: "(b, h') =
      (if l \<noteq> 0 \<and> bfree (blocks h2 l) \<noteq> 0 \<and> l + HEADER_SIZE + bsize (blocks h2 l) = st
       then (l, put_block l ((blocks h2 l)\<lparr>bsize := bsize (blocks h2 l) + (HEADER_SIZE + bsize block)\<rparr>) h2)
       else if first_block h2 = 0
       then (st, h2\<lparr>first_block := st, last_block := st\<rparr>)
       else (let h3 = put_block st (block\<lparr>bprev := l\<rparr>) h2;
                 h4 = put_block l ((blocks h3 l)\<lparr>bnext := st\<rparr>) h3
             in (st, h4\<lparr>last_block := st\<rparr>)))"
  shows "\<exists>bs'. grown b h bs h' bs'"
proof -
  define H where "H = blocks h"
  note W = heap_wfD [OF wf, folded H_def]
  note ra = got_run_arith [OF run]
  note rr = run [unfolded got_run_def]
  have bsz: "unat (bsize block) = unat fc * 4096 - 32"
    using blk ra(2,3) by (simp add: HEADER_SIZE_def unat_sub_small)
  have newext: "{unat st ..< unat st + 32 + unat (bsize block)} = {unat st ..< unat st + unat fc * 4096}"
    using bsz ra(2) by auto
  have sep: "extent H x \<inter> {unat st ..< unat st + unat fc * 4096} = {}" if "x \<in> set bs" for x
    using W(3) that rr ra(5) by (fastforce simp: owned_def H_def)
  have stnew: "st \<notin> set bs"
  proof
    assume "st \<in> set bs"
    from sep [OF this] in_extent_self [of st H] have "unat st \<notin> {unat st ..< unat st + unat fc * 4096}"
      by blast
    with ra(2) show False by simp
  qed
  have st0: "st \<noteq> 0" using rr by simp
  let ?K = "H(st := block)"
  have Kx: "extent ?K x = extent H x" if "x \<noteq> st" for x using that by (simp add: extent_def)
  have Kst: "extent ?K st = {unat st ..< unat st + unat fc * 4096}"
    using newext by (simp add: extent_def)
  have layK: "layout ?K (bs @ [st])"
  proof (rule layout_add [OF W(2) stnew])
    show "block_good ?K st"
      using ra(1,2) bsz got_run_4096 [OF run] by (auto simp: block_good_def blk)
    show "extent ?K st \<inter> extent H x = {}" if "x \<in> set bs" for x using sep [OF that] Kst by auto
  qed
  have ownK: "of_nat (k div 4096) \<notin> free_set s'" if "x \<in> set (bs @ [st])" "k \<in> extent ?K x" for x k
  proof (cases "x = st")
    case True
    then show ?thesis using that(2) Kst ra(5) [of k] rr by auto
  next
    case False
    then show ?thesis using that W(3) Kx rr by (auto simp: owned_def H_def)
  qed
  have useK: "in_use ?K (bs @ [st]) = in_use H bs" using stnew blk by (auto simp: in_use_def)
  have F: "first_block h2 = first_block h" "blocks h2 = ?K" "hframes h2 = s'" "last_block h2 = l"
    by (simp_all add: h2 put_block_def H_def l)
  have lst: "bs \<noteq> [] \<Longrightarrow> l = last bs \<and> l \<in> set bs" "bs = [] \<longleftrightarrow> l = 0" "bs = [] \<longleftrightarrow> first_block h = 0"
    using dseg_empty_iff [OF W(1)] dseg_last_in [OF W(1)] unfolding l by blast+
  have ok': "pmm_ok s'" using rr by simp
  show ?thesis
  proof (cases "l \<noteq> 0 \<and> bfree (blocks h2 l) \<noteq> 0 \<and> l + HEADER_SIZE + bsize (blocks h2 l) = st")
    case True
    then obtain zs where zs: "bs = zs @ [l]" using lst by (metis append_butlast_last_id)
    have lst': "l \<noteq> st" using stnew lst True by auto
    let ?G = "?K(l := (?K l)\<lparr>bsize := bsize (?K l) + (HEADER_SIZE + bsize block)\<rparr>)"
    have eq: "b = l" "blocks h' = ?G" "hframes h' = s'" "first_block h' = first_block h" "last_block h' = l"
      using res True F by (auto simp: put_block_def)
    have good: "block_good ?K l" "block_good ?K st"
      using layout_good [OF layK] zs by auto
    have adj: "unat st = unat l + 32 + unat (bsize (?K l))"
      using True block_arith(1) [OF good(1), of "bsize (?K l)"] F by simp
    have sz: "unat (bsize (?G l)) = unat (bsize (?K l)) + 32 + unat (bsize (?K st))"
      using good adj lst' by (auto simp: block_good_def HEADER_SIZE_def unat_add_small)
    have fl: "bfree (?K l) = 1" using True good(1) F by (auto simp: block_good_def word_le_1)
    have "x \<in> set (zs @ []) \<Longrightarrow> bsize (?G x) = bsize (?K x) \<and> bfree (?G x) \<le> 1" for x
      using layout_good [OF layK, of x] zs layout_distinct [OF layK] by (auto simp: block_good_def)
    note mg = layout_merge [of ?K zs l st "[]" ?G, OF _ adj sz _ this]
    have lay: "layout ?G bs" and ext: "extent ?G l = extent ?K l \<union> extent ?K st"
      using mg layK zs fl by simp_all
    have "dseg ?G 0 (first_block h) bs l 0"
      using stnew by (intro dseg_agree [OF W(1) [folded l]]) auto
    moreover have "owned h' bs"
      unfolding owned_def eq
    proof (intro ballI)
      fix x k assume xk: "x \<in> set bs" "k \<in> extent ?G x"
      show "of_nat (k div 4096) \<notin> free_set s'"
      proof (cases "x = l")
        case True
        then show ?thesis using xk ext ownK [of l k] ownK [of st k] by auto
      next
        case False
        then have "extent ?G x = extent ?K x" by (simp add: extent_def)
        then show ?thesis using xk ownK [of x k] by auto
      qed
    qed
    ultimately have "heap_wf h' bs" using lay ok' by (simp add: heap_wf_def eq)
    moreover have "in_use ?G bs = in_use H bs"
    proof (rule in_use_cong)
      fix x assume "x \<in> set bs"
      then show "bfree (?G x) = bfree (H x) \<and> (bfree (H x) = 0 \<longrightarrow> bsize (?G x) = bsize (H x))"
        using stnew fl lst' by (cases "x = l") auto
    qed
    moreover have "bfree (?G l) = 1" using fl by simp
    ultimately show ?thesis
      using eq zs unfolding grown_def by (intro exI [of _ bs]) (simp add: H_def)
  next
    case nomerge: False
    show ?thesis
    proof (cases "bs = []")
      case True
      then have eq: "b = st" "blocks h' = ?K" "hframes h' = s'" "first_block h' = st" "last_block h' = st"
        using res nomerge F lst by auto
      have "heap_wf h' [st]"
        using layK ownK True ok' st0 by (simp add: heap_wf_def owned_def eq blk)
      then show ?thesis
        using useK True eq blk unfolding grown_def by (intro exI [of _ "[st]"]) (simp add: H_def)
    next
      case False
      then have "l \<in> set bs" "first_block h2 \<noteq> 0" using lst F by auto
      then have lne: "l \<noteq> st" using stnew by auto
      let ?G = "H(st := block\<lparr>bprev := l\<rparr>, l := (H l)\<lparr>bnext := st\<rparr>)"
      have eq: "b = st" "blocks h' = ?G" "hframes h' = s'" "first_block h' = first_block h" "last_block h' = st"
        using res nomerge F \<open>first_block h2 \<noteq> 0\<close> lne by (auto simp: put_block_def Let_def)
      have "dseg ?G 0 (first_block h) (bs @ [st]) st 0"
        by (rule dseg_snoc [OF W(1) [folded l] st0 stnew layout_distinct [OF W(2)] False])
           (use lne blk in auto)
      moreover have same: "bsize (?G x) = bsize (?K x) \<and> bfree (?G x) = bfree (?K x)" for x
        using lne by simp
      then have "layout ?G (bs @ [st])"
        using layout_good [OF layK] by (intro layout_cong [OF layK]) (auto simp: block_good_def)
      moreover have "extent ?G x = extent ?K x" for x using same by (simp add: extent_def)
      then have "owned h' (bs @ [st])" using ownK by (simp add: owned_def eq)
      ultimately have "heap_wf h' (bs @ [st])" using ok' by (simp add: heap_wf_def eq)
      moreover have "in_use ?G (bs @ [st]) = in_use H bs"
        using useK same unfolding in_use_def by simp
      ultimately show ?thesis
        using eq blk lne unfolding grown_def by (intro exI [of _ "bs @ [st]"]) (simp add: H_def)
    qed
  qed
qed

lemma grow_heap_wf:
  assumes wf: "heap_wf h bs" and g: "grow_heap m h = (b, h')"
  shows "(b = 0 \<and> h' = h) \<or> (b \<noteq> 0 \<and> (\<exists>bs'. grown b h bs h' bs'))"
proof -
  define count0 where "count0 = align_up (HEADER_SIZE + m) PAGE_SIZE div PAGE_SIZE"
  obtain start0 s0 where a0: "pmm_alloc_contig count0 (hframes h) = (start0, s0)" by fastforce
  obtain st fc s' where a1:
    "(if start0 = 0 then grow_halving count0 s0 else (start0, count0, s0)) = (st, fc, s')"
    by (metis prod_cases3)
  note g1 = g [unfolded grow_heap_def Let_def count0_def [symmetric] a0 prod.case a1]
  have ok: "pmm_ok (hframes h)" using heap_wfD(4) [OF wf] .
  note g0 = alloc_got_run [OF ok a0]
  have run: "if st = 0 then s' = hframes h else got_run st fc (hframes h) s'"
    using g0 a1 grow_halving_run [OF ok, of count0] by (auto split: if_splits)
  show ?thesis
  proof (cases "st = 0")
    case True
    then have "b = 0" "h' = h\<lparr>hframes := s'\<rparr>"
      using g1 by simp_all
    then show ?thesis using True run by simp
  next
    case False
    then have run': "got_run st fc (hframes h) s'" using run by simp
    have lb: "last_block (put_block st B (h\<lparr>hframes := s'\<rparr>)) = last_block h" for B
      by (simp add: put_block_def)
    have "\<exists>bs'. grown b h bs h' bs'"
      by (rule link_run [OF wf run' refl refl refl])
         (simp only: g1 [symmetric, unfolded lb] if_not_P [OF False] Let_def)
    moreover from this have "b \<noteq> 0"
      unfolding grown_def heap_wf_def using dseg_nonzero by metis
    ultimately show ?thesis by blast
  qed
qed

subsection \<open>\<open>kmalloc\<close> as a whole\<close>

lemma ALIGN16_unat:
  assumes "unat sz \<le> 2 ^ 64 - 16"
  shows "unat sz \<le> unat (ALIGN16 sz)" and "unat (ALIGN16 sz) mod 16 = 0"
    and "unat (ALIGN16 sz) < unat sz + 16"
proof -
  define x where "x = sz + 15"
  have x: "unat x = unat sz + 15" using assms by (simp add: x_def unat_add_small)
  have eq: "unat (ALIGN16 sz) = unat x - unat x mod 16"
    using unat_and_not_mask [of 4 x] by (simp add: ALIGN16_def x_def mask_eq_exp_minus_1)
  show "unat sz \<le> unat (ALIGN16 sz)" using eq x mod_less_divisor [of 16 "unat x"] by linarith
  show "unat (ALIGN16 sz) mod 16 = 0" using eq by (simp add: minus_mod_eq_mult_div)
  show "unat (ALIGN16 sz) < unat sz + 16" using eq x by linarith
qed

lemma grow_tries_wf:
  assumes "b \<noteq> 0 \<Longrightarrow> \<exists>bs'. grown b h0 bs0 h bs'" and "b = 0 \<Longrightarrow> \<exists>bs. heap_wf h bs \<and> in_use (blocks h) bs = in_use (blocks h0) bs0"
    and "grow_tries n want (b, h) = (b', h')"
  shows "if b' = 0 then \<exists>bs. heap_wf h' bs \<and> in_use (blocks h') bs = in_use (blocks h0) bs0
         else \<exists>bs'. grown b' h0 bs0 h' bs'"
  using assms
proof (induction n arbitrary: b h)
  case 0
  then show ?case by auto
next
  case (Suc n)
  show ?case
  proof (cases "b \<noteq> 0 \<and> bsize (blocks h b) < want")
    case False
    then show ?thesis using Suc.prems by auto
  next
    case True
    obtain c h1 where g: "grow_heap want h = (c, h1)" by fastforce
    from True Suc.prems(1) obtain bs where bs: "grown b h0 bs0 h bs" by blast
    then have wf: "heap_wf h bs" and use: "in_use (blocks h) bs = in_use (blocks h0) bs0"
      by (simp_all add: grown_def)
    have "c \<noteq> 0 \<Longrightarrow> \<exists>bs'. grown c h0 bs0 h1 bs'"
      using grow_heap_wf [OF wf g] use by (auto simp: grown_def)
    moreover have "c = 0 \<Longrightarrow> \<exists>bs. heap_wf h1 bs \<and> in_use (blocks h1) bs = in_use (blocks h0) bs0"
      using grow_heap_wf [OF wf g] use wf by auto
    ultimately show ?thesis using Suc.IH [of c h1] Suc.prems(3) True g by simp
  qed
qed

lemma kmalloc_wf:
  assumes wf: "heap_wf h bs" and sz: "unat sz \<le> 2 ^ 64 - 16"
  shows "\<exists>p h' bs'. kmalloc sz h = Some (Return p, h') \<and> heap_wf h' bs'
     \<and> (if p = 0 then in_use (blocks h') bs' = in_use (blocks h) bs
        else \<exists>b s. p = b + HEADER_SIZE \<and> sz \<le> s \<and> b \<notin> fst ` in_use (blocks h) bs
               \<and> in_use (blocks h') bs' = insert (b, s) (in_use (blocks h) bs))"
proof (cases "sz = 0")
  case True
  then show ?thesis using wf by (auto simp: kmalloc_def)
next
  case False
  define want where "want = ALIGN16 sz"
  note al = ALIGN16_unat [OF sz, folded want_def]
  note W = heap_wfD [OF wf]
  have ff: "first_fit h want 0 (first_block h) 0 =
    Some (case List.find (\<lambda>x. bfree (blocks h x) \<noteq> 0 \<and> want \<le> bsize (blocks h x)) bs of
            None \<Rightarrow> NotFound | Some x \<Rightarrow> Found x)"
    using first_fit_seg [OF W(1)] layout_good [OF W(2)] by blast
  have hand: "\<exists>p h' bs'. take_block b want h1 = (Return p, h') \<and> heap_wf h' bs'
     \<and> p \<noteq> 0 \<and> (\<exists>c s. p = c + HEADER_SIZE \<and> sz \<le> s \<and> c \<notin> fst ` in_use (blocks h) bs
               \<and> in_use (blocks h') bs' = insert (c, s) (in_use (blocks h) bs))"
    if h1: "heap_wf h1 bs1" "b \<in> set bs1" "want \<le> bsize (blocks h1 b)" "bfree (blocks h1 b) = 1"
      and use: "in_use (blocks h1) bs1 = in_use (blocks h) bs" for b h1 bs1
  proof -
    have good: "block_good (blocks h1) b" using layout_good [OF heap_wfD(2) [OF h1(1)] h1(2)] .
    have "unat (b + HEADER_SIZE) = unat b + 32"
      using good by (auto simp: block_good_def HEADER_SIZE_def unat_add_small)
    then have "b + HEADER_SIZE \<noteq> 0" by (auto simp: word_unat_eq_iff)
    moreover obtain h' bs' s where "take_block b want h1 = (Return (b + HEADER_SIZE), h')"
      "heap_wf h' bs'" "want \<le> s" "b \<notin> fst ` in_use (blocks h1) bs1"
      "in_use (blocks h') bs' = insert (b, s) (in_use (blocks h1) bs1)"
      using take_block_wf [OF h1(1,2,3) al(2) h1(4)] by metis
    moreover have "sz \<le> s" if "want \<le> s" for s
      using that al(1) by (simp add: word_le_nat_alt)
    ultimately show ?thesis using use by metis
  qed
  show ?thesis
  proof (cases "List.find (\<lambda>x. bfree (blocks h x) \<noteq> 0 \<and> want \<le> bsize (blocks h x)) bs")
    case (Some b)
    then have b: "b \<in> set bs" "bfree (blocks h b) \<noteq> 0" "want \<le> bsize (blocks h b)"
      by (auto simp: find_Some_iff in_set_conv_nth)
    let ?h = "h\<lparr>kheap_allocs := kheap_allocs h + 1\<rparr>"
    have "heap_wf ?h bs" using wf by (simp add: heap_wf_def owned_def)
    moreover have "bfree (blocks h b) = 1"
      using b layout_good [OF W(2) b(1)] by (auto simp: block_good_def word_le_1)
    ultimately have "\<exists>p h' bs'. take_block b want ?h = (Return p, h') \<and> heap_wf h' bs'
         \<and> p \<noteq> 0 \<and> (\<exists>c s. p = c + HEADER_SIZE \<and> sz \<le> s \<and> c \<notin> fst ` in_use (blocks h) bs
               \<and> in_use (blocks h') bs' = insert (c, s) (in_use (blocks h) bs))"
      using b by (intro hand [of ?h bs b]) auto
    moreover have "kmalloc sz h = Some (take_block b want ?h)"
      using False ff Some by (simp add: kmalloc_def want_def [symmetric])
    ultimately show ?thesis by (auto; blast)
  next
    case None
    obtain b0 h0 where g: "grow_heap want h = (b0, h0)" by fastforce
    obtain b h1 where t: "grow_tries 16 want (b0, h0) = (b, h1)" by fastforce
    have "b0 \<noteq> 0 \<Longrightarrow> \<exists>bs'. grown b0 h bs h0 bs'"
      and "b0 = 0 \<Longrightarrow> \<exists>bs'. heap_wf h0 bs' \<and> in_use (blocks h0) bs' = in_use (blocks h) bs"
      using grow_heap_wf [OF wf g] wf by auto
    note gt = grow_tries_wf [OF this t]
    have km: "kmalloc sz h = (if b = 0 \<or> bsize (blocks h1 b) < want then Some (Return 0, h1)
                             else Some (take_block b want h1))"
      using False ff None g t by (simp add: kmalloc_def want_def [symmetric])
    show ?thesis
    proof (cases "b = 0 \<or> bsize (blocks h1 b) < want")
      case True
      then have "\<exists>bs'. heap_wf h1 bs' \<and> in_use (blocks h1) bs' = in_use (blocks h) bs"
        using gt by (auto simp: grown_def split: if_splits)
      with True km show ?thesis by auto
    next
      case nz: False
      then obtain bs1 where "grown b h bs h1 bs1" using gt by auto
      with nz have "\<exists>p h' bs'. take_block b want h1 = (Return p, h') \<and> heap_wf h' bs'
         \<and> p \<noteq> 0 \<and> (\<exists>c s. p = c + HEADER_SIZE \<and> sz \<le> s \<and> c \<notin> fst ` in_use (blocks h) bs
               \<and> in_use (blocks h') bs' = insert (c, s) (in_use (blocks h) bs))"
        by (intro hand [of h1 bs1 b]) (auto simp: grown_def not_less)
      with nz km show ?thesis by (auto; blast)
    qed
  qed
qed

subsection \<open>The kernel heap is a region allocator\<close>

definition heap_inv :: "heap \<Rightarrow> bool" where
  "heap_inv h \<longleftrightarrow> (\<exists>bs. heap_wf h bs)"

definition heap_live :: "heap \<Rightarrow> (u64 \<times> u64) set" where
  "heap_live h = {(b + HEADER_SIZE, s) | b s bs. heap_wf h bs \<and> (b, s) \<in> in_use (blocks h) bs}"

definition kmalloc_ret :: "u64 \<Rightarrow> heap \<Rightarrow> (u64 \<times> heap) option" where
  "kmalloc_ret sz h =
     (case kmalloc sz h of Some (Return p, h') \<Rightarrow> Some (p, h') | _ \<Rightarrow> None)"

lemma heap_live_eq:
  "heap_wf h bs \<Longrightarrow> heap_live h = (\<lambda>(b, s). (b + HEADER_SIZE, s)) ` in_use (blocks h) bs"
  by (auto simp: heap_live_def dest: heap_wf_determ)

lemma in_use_block:
  assumes "heap_wf h bs" and "(b, s) \<in> in_use (blocks h) bs"
  shows "b \<in> set bs" and "s = bsize (blocks h b)" and "block_good (blocks h) b"
    and "region (b + HEADER_SIZE) s \<subseteq> extent (blocks h) b" and "unat (b + HEADER_SIZE) = unat b + 32"
proof -
  show b: "b \<in> set bs" and s: "s = bsize (blocks h b)" using assms(2) by (auto simp: in_use_def)
  show g: "block_good (blocks h) b" using layout_good [OF heap_wfD(2) [OF assms(1)] b] .
  show u: "unat (b + HEADER_SIZE) = unat b + 32"
    using g by (auto simp: block_good_def HEADER_SIZE_def unat_add_small)
  show "region (b + HEADER_SIZE) s \<subseteq> extent (blocks h) b"
    by (auto simp: region_def extent_def s u)
qed

lemma heap_live_disjoint:
  assumes "heap_inv h" and "(p, n) \<in> heap_live h" and "(q, m) \<in> heap_live h" and ne: "(p, n) \<noteq> (q, m)"
  shows "p \<noteq> q \<and> region p n \<inter> region q m = {}"
proof -
  obtain bs where wf: "heap_wf h bs" using assms(1) by (auto simp: heap_inv_def)
  obtain b c where b: "p = b + HEADER_SIZE" "(b, n) \<in> in_use (blocks h) bs"
    and c: "q = c + HEADER_SIZE" "(c, m) \<in> in_use (blocks h) bs"
    using assms(2,3) by (auto simp: heap_live_eq [OF wf])
  note B = in_use_block [OF wf b(2)] and C = in_use_block [OF wf c(2)]
  have bc: "b \<noteq> c" using ne b c B(2) C(2) by auto
  then have "extent (blocks h) b \<inter> extent (blocks h) c = {}"
    using layout_disjoint [OF heap_wfD(2) [OF wf] B(1) C(1)] by simp
  then show ?thesis using B(4) C(4) b c bc by auto
qed

lemma kmalloc_live:
  assumes "heap_inv h" and "unat sz \<le> 2 ^ 64 - 16"
  shows "\<exists>p h'. kmalloc sz h = Some (Return p, h') \<and> heap_inv h'
     \<and> (if p = 0 then heap_live h' = heap_live h
        else \<exists>c. sz \<le> c \<and> p \<notin> fst ` heap_live h \<and> heap_live h' = insert (p, c) (heap_live h))"
proof -
  obtain bs where wf: "heap_wf h bs" using assms(1) by (auto simp: heap_inv_def)
  obtain p h' bs' where k: "kmalloc sz h = Some (Return p, h')" "heap_wf h' bs'"
    and r: "if p = 0 then in_use (blocks h') bs' = in_use (blocks h) bs
        else \<exists>b s. p = b + HEADER_SIZE \<and> sz \<le> s \<and> b \<notin> fst ` in_use (blocks h) bs
               \<and> in_use (blocks h') bs' = insert (b, s) (in_use (blocks h) bs)"
    using kmalloc_wf [OF wf assms(2)] by blast
  have "if p = 0 then heap_live h' = heap_live h
        else \<exists>c. sz \<le> c \<and> p \<notin> fst ` heap_live h \<and> heap_live h' = insert (p, c) (heap_live h)"
  proof (cases "p = 0")
    case True
    then show ?thesis using r by (simp add: heap_live_eq [OF wf] heap_live_eq [OF k(2)])
  next
    case False
    then obtain b s where b: "p = b + HEADER_SIZE" "sz \<le> s" "b \<notin> fst ` in_use (blocks h) bs"
      "in_use (blocks h') bs' = insert (b, s) (in_use (blocks h) bs)" using r by auto
    have "p \<notin> fst ` heap_live h" using b(1,3) by (force simp: heap_live_eq [OF wf])
    moreover have "heap_live h' = insert (p, s) (heap_live h)"
      by (simp add: heap_live_eq [OF wf] heap_live_eq [OF k(2)] b(4) b(1))
    ultimately show ?thesis using False b(2) by auto
  qed
  with k show ?thesis by (auto simp: heap_inv_def)
qed

lemma kfree_live:
  assumes "heap_inv h" and "(p, n) \<in> heap_live h"
  shows "\<exists>h'. kfree p h = Some h' \<and> heap_inv h' \<and> heap_live h' = heap_live h - {(p, n)}"
proof -
  obtain bs where wf: "heap_wf h bs" using assms(1) by (auto simp: heap_inv_def)
  obtain b where b: "p = b + HEADER_SIZE" "(b, n) \<in> in_use (blocks h) bs"
    using assms(2) by (auto simp: heap_live_eq [OF wf])
  obtain h' bs' where k: "kfree p h = Some h'" "heap_wf h' bs'"
    "in_use (blocks h') bs' = in_use (blocks h) bs - {(b, n)}"
    using kfree_wf [OF wf b(2)] b(1) by metis
  have "heap_live h' = heap_live h - {(p, n)}"
    by (auto simp: heap_live_eq [OF wf] heap_live_eq [OF k(2)] k(3) b(1))
  with k show ?thesis by (auto simp: heap_inv_def)
qed

interpretation kheap: region_allocator heap_inv heap_live kmalloc_ret kfree "2 ^ 64 - 16"
proof unfold_locales
  show "heap_inv s \<Longrightarrow> (p, n) \<in> heap_live s \<Longrightarrow> (q, m) \<in> heap_live s \<Longrightarrow> (p, n) \<noteq> (q, m) \<Longrightarrow>
      p \<noteq> q \<and> region p n \<inter> region q m = {}" for s p n q m
    by (rule heap_live_disjoint)
  show "heap_inv s \<Longrightarrow> unat n \<le> 2 ^ 64 - 16 \<Longrightarrow> \<exists>p s'. kmalloc_ret n s = Some (p, s') \<and> heap_inv s'
      \<and> (if p = 0 then heap_live s' = heap_live s
         else \<exists>c. n \<le> c \<and> p \<notin> fst ` heap_live s \<and> heap_live s' = insert (p, c) (heap_live s))" for s n
    using kmalloc_live [of s n] by (fastforce simp: kmalloc_ret_def)
  show "heap_inv s \<Longrightarrow> (p, n) \<in> heap_live s \<Longrightarrow>
      \<exists>s'. kfree p s = Some s' \<and> heap_inv s' \<and> heap_live s' = heap_live s - {(p, n)}" for s p n
    by (rule kfree_live)
qed

lemma heap_init_inv:
  assumes "pmm_ok (hframes h)"
  shows "heap_inv (heap_init h) \<and> heap_live (heap_init h) = {}"
proof -
  let ?h = "h\<lparr>first_block := 0, last_block := 0\<rparr>"
  have wf: "heap_wf ?h []" using assms by (simp add: heap_wf_def layout_def owned_def)
  obtain b h' where g: "grow_heap (1024 * 1024) ?h = (b, h')" by fastforce
  obtain bs where bs: "heap_wf h' bs" "in_use (blocks h') bs = {}"
    using grow_heap_wf [OF wf g] wf by (auto simp: grown_def in_use_def)
  then have "heap_wf (heap_init h) bs" "blocks (heap_init h) = blocks h'"
    using g by (simp_all add: heap_init_def heap_wf_def owned_def)
  then show ?thesis using bs(2) by (auto simp: heap_inv_def heap_live_eq)
qed

subsection \<open>Properties\<close>

text \<open>A small heap for the witnesses: no free frames, one free block of 64 bytes at 8192.\<close>

definition demo_heap :: heap where
  "demo_heap = \<lparr>blocks = (\<lambda>a. \<lparr>bsize = 64, bfree = 1, bnext = 0, bprev = 0\<rparr>),
     first_block = 8192, last_block = 8192, first_at_init = 8192, kheap_allocs = 0,
     hframes = \<lparr>bitmap = (\<lambda>_. 0), free_frames = 0, usable_frames = 0, ram = (\<lambda>_. 0)\<rparr>\<rparr>"

lemma demo_heap_wf: "heap_wf demo_heap [8192]"
  by (simp add: heap_wf_def demo_heap_def layout_def owned_def block_good_def free_set_all_zero
      pmm_ok_def pmm_wf_def)

lemma demo_heap_inv: "heap_inv demo_heap"
  using demo_heap_wf by (auto simp: heap_inv_def)

text \<open>
  C15. \<open>kmalloc\<close> is total and safe on a well-formed heap: for every request up to
  \<open>2^64 - 16\<close> bytes it returns (the walk ends, the corruption report is never reached), the
  heap is well formed afterwards, a NULL answer leaves the set of live blocks as it was, and
  any other answer is a new live block of at least the requested size which overlaps no
  block that was live.
\<close>

theorem kmalloc_total_safe:
  assumes "heap_inv h" and "unat sz \<le> 2 ^ 64 - 16"
  shows "\<exists>p h'. kmalloc sz h = Some (Return p, h') \<and> heap_inv h'
     \<and> (if p = 0 then heap_live h' = heap_live h
        else \<exists>c. sz \<le> c \<and> heap_live h' = insert (p, c) (heap_live h) \<and> (p, c) \<notin> heap_live h
               \<and> (\<forall>(q, m) \<in> heap_live h. region p c \<inter> region q m = {}))"
proof -
  obtain p h' where k: "kmalloc sz h = Some (Return p, h')" "heap_inv h'"
    and r: "if p = 0 then heap_live h' = heap_live h
        else \<exists>c. sz \<le> c \<and> p \<notin> fst ` heap_live h \<and> heap_live h' = insert (p, c) (heap_live h)"
    using kmalloc_live [OF assms] by blast
  have "\<exists>c. sz \<le> c \<and> heap_live h' = insert (p, c) (heap_live h) \<and> (p, c) \<notin> heap_live h
               \<and> (\<forall>(q, m) \<in> heap_live h. region p c \<inter> region q m = {})" if p: "p \<noteq> 0"
  proof -
    from r p obtain c where c: "sz \<le> c" "p \<notin> fst ` heap_live h"
      "heap_live h' = insert (p, c) (heap_live h)" by auto
    have "region p c \<inter> region q m = {}" if "(q, m) \<in> heap_live h" for q m
      using kheap.live_disjoint [OF k(2), of p c q m] c that by force
    then show ?thesis using c by (intro exI [of _ c]) force
  qed
  with k r show ?thesis by (intro exI [of _ p] exI [of _ h']) auto
qed

theorem kmalloc_total_safe_witness:
  "\<exists>p h'. kmalloc 10 demo_heap = Some (Return p, h') \<and> heap_inv h'"
  using kmalloc_total_safe [OF demo_heap_inv, of 10] by auto

text \<open>
  \<open>kfree\<close> of a live block returns, keeps the heap well formed, and removes exactly that
  block from the live set, whatever merging it does on the way.
\<close>

theorem kfree_total_exact:
  assumes "heap_inv h" and "(p, n) \<in> heap_live h"
  shows "\<exists>h'. kfree p h = Some h' \<and> heap_inv h' \<and> heap_live h' = heap_live h - {(p, n)}"
  using assms by (rule kheap.dealloc_step)

theorem kfree_total_exact_witness:
  "\<exists>p h h'. p \<noteq> 0 \<and> kmalloc 10 demo_heap = Some (Return p, h) \<and> kfree p h = Some h' \<and> heap_live h' = {}"
proof -
  have "in_use (blocks demo_heap) [8192] = {}" by (simp add: in_use_def demo_heap_def)
  then have live0: "heap_live demo_heap = {}" by (simp add: heap_live_eq [OF demo_heap_wf])
  have k: "fst (the (kmalloc 10 demo_heap)) = Return 8224"
    by (simp add: kmalloc_def first_fit.simps demo_heap_def block_sane_def ALIGN16_def
        take_block_def Let_def HEADER_SIZE_def)
  obtain p h where p: "kmalloc 10 demo_heap = Some (Return p, h)" "heap_inv h"
    "p \<noteq> 0 \<longrightarrow> (\<exists>c. heap_live h = insert (p, c) (heap_live demo_heap))"
    using kmalloc_live [OF demo_heap_inv, of 10] by (auto split: if_splits)
  then have "p = 8224" using k by simp
  then obtain c where c: "heap_live h = {(p, c)}" using p live0 by auto
  then obtain h' where "kfree p h = Some h'" "heap_live h' = {}"
    using kfree_total_exact [OF p(2), of p c] by auto
  with p \<open>p = 8224\<close> show ?thesis by force
qed

text \<open>
  C4. From boot on, no sequence of requests can break the heap: starting from
  \<open>heap_init\<close> over a well-formed frame allocator, any client that frees only live blocks
  and asks for at most \<open>2^64 - 16\<close> bytes at a time gets every one of its calls answered, and at the end the heap is well formed and its live
  blocks are pairwise disjoint.
\<close>

theorem heap_runs_safely:
  assumes "pmm_ok (hframes h)"
    and "behaved heap_live kmalloc_ret kfree (2 ^ 64 - 16) rs (heap_init h)"
  shows "\<exists>h'. run_reqs kmalloc_ret kfree rs (heap_init h) = Some h' \<and> heap_inv h'
     \<and> (\<forall>x \<in> heap_live h'. \<forall>y \<in> heap_live h'. x \<noteq> y \<longrightarrow>
          region (fst x) (snd x) \<inter> region (fst y) (snd y) = {})"
proof -
  have "heap_inv (heap_init h)" using heap_init_inv [OF assms(1)] by simp
  from kheap.run_behaved [OF this assms(2)] obtain h' where
    h': "run_reqs kmalloc_ret kfree rs (heap_init h) = Some h'" "heap_inv h'" by blast
  then show ?thesis using kheap.live_disjoint [OF h'(2)] by fastforce
qed

theorem heap_runs_safely_witness:
  "\<exists>h'. run_reqs kmalloc_ret kfree [Get 10, Get 200] (heap_init demo_heap) = Some h' \<and> heap_inv h'"
proof -
  have "pmm_ok (hframes demo_heap)" using heap_wfD(4) [OF demo_heap_wf] .
  from heap_runs_safely [OF this, of "[Get 10, Get 200]"] show ?thesis by auto
qed

text \<open>
  C16. The size is rounded up before it is checked, and the rounding wraps: a request for
  \<open>2^64 - 1\<close> bytes is served. On a well-formed heap with one free block it returns a
  non-NULL pointer to a live block of capacity 0.
\<close>

theorem kmalloc_size_wraps:
  "\<exists>h h'. heap_inv h \<and> kmalloc (2 ^ 64 - 1) h = Some (Return 8224, h') \<and> (8224, 0) \<in> heap_live h'"
proof (intro exI conjI)
  let ?h' = "snd (the (kmalloc (2 ^ 64 - 1) demo_heap))"
  have want: "ALIGN16 (2 ^ 64 - 1) = 0" by (simp add: ALIGN16_def)
  show "heap_inv demo_heap" by (rule demo_heap_inv)
  have k: "kmalloc (2 ^ 64 - 1) demo_heap
      = Some (take_block 8192 0 (demo_heap\<lparr>kheap_allocs := 1\<rparr>))"
  proof -
    have "first_fit demo_heap 0 0 (first_block demo_heap) 0 = Some (Found 8192)"
      by (subst first_fit.simps) (simp add: demo_heap_def block_sane_def)
    then show ?thesis
      unfolding kmalloc_def want Let_def by (simp add: demo_heap_def)
  qed
  have wf: "heap_wf (demo_heap\<lparr>kheap_allocs := 1\<rparr>) [8192]"
    using demo_heap_wf by (simp add: heap_wf_def owned_def)
  have pre: "(8192 :: u64) \<in> set [8192]"
    "(0 :: u64) \<le> bsize (blocks (demo_heap\<lparr>kheap_allocs := 1\<rparr>) 8192)"
    "unat (0 :: u64) mod 16 = 0" "bfree (blocks (demo_heap\<lparr>kheap_allocs := 1\<rparr>) 8192) = 1"
    by (simp_all add: demo_heap_def)
  obtain h' bs' sz where t: "take_block 8192 0 (demo_heap\<lparr>kheap_allocs := 1\<rparr>) = (Return (8192 + HEADER_SIZE), h')"
    "heap_wf h' bs'" "(8192, sz) \<in> in_use (blocks h') bs'"
    using take_block_wf [OF wf pre] by (metis insertI1)
  have "sz = 0"
  proof -
    have "sz = bsize (blocks h' 8192)" using t(3) by (simp add: in_use_def)
    moreover have "bsize (blocks (snd (take_block 8192 0 (demo_heap\<lparr>kheap_allocs := 1\<rparr>))) 8192) = 0"
      by (simp add: take_block_def split_block_def Let_def demo_heap_def HEADER_SIZE_def put_block_def)
    ultimately show ?thesis using t(1) by simp
  qed
  then show "kmalloc (2 ^ 64 - 1) demo_heap = Some (Return 8224, ?h')" "(8224, 0) \<in> heap_live ?h'"
    using k t(1,3) by (force simp: HEADER_SIZE_def heap_live_eq [OF t(2)])+
qed

end
