(* ===== verification/Timecal.thy ===== *)
theory Timecal
  imports Prelude "HOL-Library.Signed_Division"
begin

text \<open>
  The calendar, \<^verbatim>\<open>libc/src/timecal.c\<close>: seconds to a broken-down date and back. A C \<^verbatim>\<open>long\<close>
  is a HOL integer (no value below comes near the 64-bit limits, and overflow there would be
  undefined anyway) with C's truncating division \<open>sdiv\<close>/\<open>smod\<close>; a C \<^verbatim>\<open>unsigned\<close> is a value
  reduced modulo \<open>2^32\<close> by \<open>U32\<close> after every operation; the casts of \<^verbatim>\<open>struct tm\<close> fields to
  \<^verbatim>\<open>int\<close> are \<open>I32\<close>, which keeps the low 32 bits as two's complement.
\<close>

subsection \<open>Fixed-width arithmetic of the C code\<close>

definition U32 :: "int \<Rightarrow> int" where
  "U32 x = x mod 2 ^ 32"

definition I32 :: "int \<Rightarrow> int" where
  "I32 x = (x + 2 ^ 31) mod 2 ^ 32 - 2 ^ 31"

definition SECS_PER_DAY :: int where "SECS_PER_DAY = 86400"

subsection \<open>Days and civil dates\<close>

definition days_from_civil :: "int \<Rightarrow> int \<Rightarrow> int \<Rightarrow> int" where
  "days_from_civil y0 m d =
     (let y = y0 - (if m \<le> 2 then 1 else 0);
          era = (if y \<ge> 0 then y else y - 399) sdiv 400;
          yoe = U32 (y - era * 400);
          doy = U32 (U32 (U32 (153 * U32 (m + (if m > 2 then -3 else 9))) + 2) div 5 + d - 1);
          doe = U32 (yoe * 365 + yoe div 4 - yoe div 100 + doy)
      in era * 146097 + doe - 719468)"

definition civil_from_days :: "int \<Rightarrow> int \<times> int \<times> int" where
  "civil_from_days z0 =
     (let z = z0 + 719468;
          era = (if z \<ge> 0 then z else z - 146096) sdiv 146097;
          doe = U32 (z - era * 146097);
          yoe = U32 (doe - doe div 1460 + doe div 36524 - doe div 146096) div 365;
          yy = yoe + era * 400;
          doy = U32 (doe - U32 (365 * yoe + yoe div 4 - yoe div 100));
          mp = U32 (5 * doy + 2) div 153;
          d = U32 (doy - U32 (153 * mp + 2) div 5 + 1);
          m = U32 (mp + (if mp < 10 then 3 else -9))
      in (yy + (if m \<le> 2 then 1 else 0), m, d))"

definition leap :: "int \<Rightarrow> bool" where
  "leap y \<longleftrightarrow> (y smod 4 = 0 \<and> y smod 100 \<noteq> 0) \<or> y smod 400 = 0"

subsection \<open>Broken-down time\<close>

record tm =
  tm_sec :: int
  tm_min :: int
  tm_hour :: int
  tm_mday :: int
  tm_mon :: int
  tm_year :: int
  tm_wday :: int
  tm_yday :: int
  tm_isdst :: int

definition gmtime :: "int \<Rightarrow> tm" where
  "gmtime secs =
     (let days0 = secs sdiv SECS_PER_DAY; rem0 = secs smod SECS_PER_DAY;
          rm = (if rem0 < 0 then rem0 + SECS_PER_DAY else rem0);
          days = (if rem0 < 0 then days0 - 1 else days0);
          (y, m, d) = civil_from_days days;
          wd0 = (days + 4) smod 7;
          wd = (if wd0 < 0 then wd0 + 7 else wd0)
      in \<lparr>tm_sec = I32 (rm smod 60), tm_min = I32 ((rm sdiv 60) smod 60), tm_hour = I32 (rm sdiv 3600),
          tm_mday = I32 d, tm_mon = I32 m - 1, tm_year = I32 (y - 1900),
          tm_wday = I32 wd, tm_yday = I32 (days - days_from_civil y 1 1), tm_isdst = 0\<rparr>)"

text \<open>
  \<open>utc_fields\<close> returns the seconds and the normalised structure it writes back.
\<close>

definition utc_fields :: "tm \<Rightarrow> int \<times> tm" where
  "utc_fields t =
     (let year0 = tm_year t + 1900; mon0 = tm_mon t;
          year1 = year0 + mon0 sdiv 12; mon1 = mon0 smod 12;
          mon = (if mon1 < 0 then mon1 + 12 else mon1);
          year = (if mon1 < 0 then year1 - 1 else year1);
          days = days_from_civil year (U32 (mon + 1)) 1 + (tm_mday t - 1);
          secs = days * SECS_PER_DAY + tm_hour t * 3600 + tm_min t * 60 + tm_sec t
      in (secs, gmtime secs))"

definition timegm :: "tm \<Rightarrow> int \<times> tm" where
  "timegm t = utc_fields t"

text \<open>
  Local time: \<open>zone\<close> is the offset the kernel reports for an instant (the system call
  \<^verbatim>\<open>CLOCKOP_OFFSET\<close>).
\<close>

definition localtime :: "(int \<Rightarrow> int) \<Rightarrow> int \<Rightarrow> tm" where
  "localtime zone t =
     (let off = zone t; r = gmtime (t + off)
      in r\<lparr>tm_isdst := (if off > zone (t - 183 * 86400) then 1 else 0)\<rparr>)"

definition mktime :: "(int \<Rightarrow> int) \<Rightarrow> tm \<Rightarrow> int \<times> tm" where
  "mktime zone tmv =
     (let (as_utc, _) = utc_fields tmv;
          off1 = zone as_utc;
          off = zone (as_utc - off1);
          t = as_utc - off
      in (t, localtime zone t))"

definition libc_is_leap_year :: "int \<Rightarrow> bool" where
  "libc_is_leap_year y = leap y"

subsection \<open>Truncating division made floor division\<close>

lemma U32_small: "0 \<le> x \<Longrightarrow> x < 4294967296 \<Longrightarrow> U32 x = x"
  by (simp add: U32_def)

lemma I32_small: "-2147483648 \<le> x \<Longrightarrow> x < 2147483648 \<Longrightarrow> I32 x = x"
  by (simp add: I32_def)

lemma sdiv_nonneg: "0 \<le> (x :: int) \<Longrightarrow> 0 < k \<Longrightarrow> x sdiv k = x div k"
  by (simp add: signed_divide_int_def sgn_if)

lemma sdiv_neg:
  fixes x k :: int
  assumes "x < 0" and "0 < k"
  shows "x sdiv k = - ((- x) div k)"
  using assms by (simp add: signed_divide_int_def)

lemma smod_nonneg: "0 \<le> (x :: int) \<Longrightarrow> 0 < k \<Longrightarrow> x smod k = x mod k"
  by (cases "x = 0") (simp_all add: signed_modulo_int_def)

lemma smod_neg: "(x :: int) < 0 \<Longrightarrow> 0 < k \<Longrightarrow> x smod k = - ((- x) mod k)"
  by (simp add: signed_modulo_int_def)

lemma neg_div_floor:
  fixes x k :: int
  assumes "0 < k"
  shows "(- 1 - x) div k = - 1 - x div k"
proof (rule int_div_pos_eq)
  show "- 1 - x = k * (- 1 - x div k) + (k - 1 - x mod k)"
    by (simp add: algebra_simps mult_div_mod_eq)
  show "0 \<le> k - 1 - x mod k" "k - 1 - x mod k < k"
    using assms pos_mod_bound [of k x] pos_mod_sign [of k x] by linarith+
qed

lemma floor_era:
  fixes z k n :: int
  assumes "0 < k" and "n = k - 1"
  shows "(if z \<ge> 0 then z else z - n) sdiv k = z div k"
proof (cases "z \<ge> 0")
  case True
  then show ?thesis using assms by (simp add: sdiv_nonneg)
next
  case False
  have "(k - 1 - z) div k = (- 1 - z) div k + 1"
    using assms div_add_self2 [of k "- 1 - z"] by (simp add: algebra_simps)
  then have "- ((k - 1 - z) div k) = z div k"
    using neg_div_floor [OF assms(1), of z] by simp
  then show ?thesis using False assms by (simp add: sdiv_neg)
qed

lemma floor_divmod:
  fixes x k :: int
  assumes k: "0 < k"
  shows "(if x smod k < 0 then x smod k + k else x smod k) = x mod k"
    and "(if x smod k < 0 then x sdiv k - 1 else x sdiv k) = x div k"
proof -
  have "(if x smod k < 0 then x smod k + k else x smod k) = x mod k
      \<and> (if x smod k < 0 then x sdiv k - 1 else x sdiv k) = x div k"
  proof (cases "x \<ge> 0")
    case True
    moreover have "\<not> x mod k < 0" using k pos_mod_sign [of k x] by linarith
    ultimately show ?thesis using k by (simp only: smod_nonneg sdiv_nonneg) simp
  next
    case False
    then have n: "x smod k = - ((- x) mod k)" "x sdiv k = - ((- x) div k)"
      using k by (simp_all add: smod_neg sdiv_neg)
    show ?thesis
    proof (cases "x mod k = 0")
      case True
      then have "(- x) mod k = 0" by (simp add: zmod_zminus1_eq_if)
      moreover have "(- x) div k = - (x div k)" using True by (simp add: zdiv_zminus1_eq_if less_imp_neq [OF k, symmetric])
      ultimately show ?thesis using n True by simp
    next
      case F: False
      have "(- x) mod k = k - x mod k" "(- x) div k = - (x div k) - 1"
        using F k by (simp_all add: zmod_zminus1_eq_if zdiv_zminus1_eq_if)
      then show ?thesis using n F k pos_mod_bound [of k x] by simp
    qed
  qed
  then show "(if x smod k < 0 then x smod k + k else x smod k) = x mod k"
    and "(if x smod k < 0 then x sdiv k - 1 else x sdiv k) = x div k" by simp_all
qed

lemma smod_zero_iff: "0 < (k::int) \<Longrightarrow> x smod k = 0 \<longleftrightarrow> x mod k = 0"
  using floor_divmod(1) [of k x] pos_mod_bound [of k x]
  by (cases "x \<ge> 0") (auto simp: smod_nonneg smod_neg zmod_zminus1_eq_if)

subsection \<open>The years of one 400-year era\<close>

text \<open>
  \<open>year_start y\<close> is the day of the era on which its (March-based) year \<open>y\<close> begins, and
  \<open>year_guess\<close> the quotient by which \<open>civil_from_days\<close> recovers the year.
\<close>

definition year_start :: "int \<Rightarrow> int" where
  "year_start y = 365 * y + y div 4 - y div 100 + y div 400"

definition year_guess :: "int \<Rightarrow> int" where
  "year_guess x = x - x div 1460 + x div 36524 - x div 146096"

lemma div_step:
  fixes x k :: int
  assumes k: "0 < k"
  shows "(x + 1) div k = x div k + (if (x + 1) mod k = 0 then 1 else 0)"
proof -
  have "x mod k + 1 < k \<or> x mod k + 1 = k" using pos_mod_bound [OF k, of x] by linarith
  then show ?thesis
  proof
    assume a: "x mod k + 1 < k"
    have b: "0 \<le> x mod k" using pos_mod_sign [OF k] .
    have e: "x + 1 = k * (x div k) + (x mod k + 1)" by simp
    have "(x + 1) div k = x div k" "(x + 1) mod k = x mod k + 1"
      using int_div_pos_eq [OF e] int_mod_pos_eq [OF e] a b by auto
    then show ?thesis using b by simp
  next
    assume a: "x mod k + 1 = k"
    have "x + 1 = k * (x div k) + (x mod k + 1)" by simp
    then have e: "x + 1 = k * (x div k + 1) + 0" unfolding a by (simp add: algebra_simps)
    show ?thesis
      using int_div_pos_eq [OF e] int_mod_pos_eq [OF e] k by auto
  qed
qed

lemma year_guess_step: "year_guess x \<le> year_guess (x + 1)"
proof -
  have "(x + 1) mod 36524 = 0" if "(x + 1) mod 146096 = 0"
  proof -
    have "(36524::int) dvd 146096" by simp
    then show ?thesis using that by (meson dvd_trans mod_eq_0_iff_dvd)
  qed
  then show ?thesis
    by (simp add: year_guess_def div_step)
qed

lemma year_guess_mono: "x \<le> y \<Longrightarrow> year_guess x \<le> year_guess y"
  by (induction y rule: int_ge_induct) (auto intro: order_trans year_guess_step)

lemma era_boundaries:
  "list_all (\<lambda>n. 365 * n \<le> year_guess (year_start n)
      \<and> year_guess (year_start (n + 1) - 1) \<le> 365 * n + 364) [0..399]"
  by code_simp

lemma mod_zero_trans: "k dvd n \<Longrightarrow> x mod n = 0 \<Longrightarrow> x mod k = (0::int)"
  by (meson dvd_trans mod_eq_0_iff_dvd)

lemma year_start_mono: "y \<le> y' \<Longrightarrow> year_start y + 365 * (y' - y) \<le> year_start y'"
proof (induction y' rule: int_ge_induct)
  case (step i)
  have "(i + 1) mod 100 = 0 \<Longrightarrow> (i + 1) mod 4 = 0"
    by (rule mod_zero_trans [of 4 100]) simp_all
  then have "year_start i + 365 \<le> year_start (i + 1)"
    by (simp add: year_start_def div_step)
  then show ?case using step by simp
qed simp

lemma year_start_0_400: "year_start 0 = 0" "year_start 400 = 146097"
  by (simp_all add: year_start_def)

lemma year_exists:
  "0 \<le> x \<Longrightarrow> x < year_start (int n) \<Longrightarrow> \<exists>y. 0 \<le> y \<and> y < int n \<and> year_start y \<le> x \<and> x < year_start (y + 1)"
proof (induction n)
  case (Suc n)
  then show ?case
    by (cases "x < year_start (int n)") (force, rule exI [of _ "int n"], simp add: add.commute)
qed (simp add: year_start_def)

lemma year_guess_exact:
  assumes y: "0 \<le> y" "y < 400" and x: "year_start y \<le> x" "x < year_start (y + 1)"
  shows "year_guess x div 365 = y"
proof -
  have "y \<in> set [0..399]" using y by simp
  then have b: "365 * y \<le> year_guess (year_start y)"
    "year_guess (year_start (y + 1) - 1) \<le> 365 * y + 364"
    using era_boundaries unfolding list_all_iff by blast+
  have "year_guess (year_start y) \<le> year_guess x"
    "year_guess x \<le> year_guess (year_start (y + 1) - 1)"
    using x by (auto intro: year_guess_mono)
  then have "year_guess x = 365 * y + (year_guess x - 365 * y)"
    "0 \<le> year_guess x - 365 * y" "year_guess x - 365 * y < 365" using b by linarith+
  then show ?thesis by (rule int_div_pos_eq)
qed

lemma year_guess_range:
  assumes "0 \<le> x" "x < 146097"
  shows "0 \<le> year_guess x" "year_guess x < 4294967296"
  using assms by (simp_all add: year_guess_def)

subsection \<open>The calendar the code computes with\<close>

text \<open>
  The reference: the Gregorian rules, by month lengths and the day after a given day.
\<close>

definition is_leap :: "int \<Rightarrow> bool" where
  "is_leap y \<longleftrightarrow> (4 dvd y \<and> \<not> 100 dvd y) \<or> 400 dvd y"

definition month_len :: "int \<Rightarrow> int \<Rightarrow> int" where
  "month_len y m = (if m = 2 then if is_leap y then 29 else 28
                    else if m \<in> {4, 6, 9, 11} then 30 else 31)"

definition valid_date :: "int \<times> int \<times> int \<Rightarrow> bool" where
  "valid_date = (\<lambda>(y, m, d). 1 \<le> m \<and> m \<le> 12 \<and> 1 \<le> d \<and> d \<le> month_len y m)"

definition next_day :: "int \<times> int \<times> int \<Rightarrow> int \<times> int \<times> int" where
  "next_day = (\<lambda>(y, m, d). if d < month_len y m then (y, m, d + 1)
                           else if m < 12 then (y, m + 1, 1) else (y + 1, 1, 1))"

lemma leap_is_leap: "leap y = is_leap y"
  by (simp add: leap_def is_leap_def smod_zero_iff dvd_eq_mod_eq_0)

text \<open>The March-based year \<open>y\<close> of the era has a leap day exactly when the civil year \<open>y + 1\<close> has.\<close>

lemma year_start_step:
  "year_start (y + 1) = year_start y + (if is_leap (y + 1) then 366 else 365)"
proof -
  have "(y + 1) mod 100 = 0 \<Longrightarrow> (y + 1) mod 4 = 0"
    by (rule mod_zero_trans [of 4 100]) simp_all
  moreover have "(y + 1) mod 400 = 0 \<Longrightarrow> (y + 1) mod 100 = 0"
    by (rule mod_zero_trans [of 100 400]) simp_all
  moreover have "year_start (y + 1) = year_start y + 365 + (if (y + 1) mod 4 = 0 then 1 else 0)
      - (if (y + 1) mod 100 = 0 then 1 else 0) + (if (y + 1) mod 400 = 0 then 1 else 0)"
    by (simp add: year_start_def div_step)
  moreover have "is_leap (y + 1) \<longleftrightarrow> ((y + 1) mod 4 = 0 \<and> (y + 1) mod 100 \<noteq> 0) \<or> (y + 1) mod 400 = 0"
    by (simp only: is_leap_def mod_eq_0_iff_dvd)
  ultimately show ?thesis
    by (cases "(y + 1) mod 4 = 0"; cases "(y + 1) mod 100 = 0"; cases "(y + 1) mod 400 = 0") simp_all
qed

text \<open>Month positions in the March-based year.\<close>

definition month_start :: "int \<Rightarrow> int" where
  "month_start mp = (153 * mp + 2) div 5"

lemma mp_cases: "0 \<le> (mp::int) \<Longrightarrow> mp \<le> 11 \<Longrightarrow>
   mp = 0 \<or> mp = 1 \<or> mp = 2 \<or> mp = 3 \<or> mp = 4 \<or> mp = 5 \<or> mp = 6 \<or> mp = 7 \<or> mp = 8 \<or> mp = 9 \<or> mp = 10 \<or> mp = 11"
  by presburger

lemma month_guess:
  assumes "0 \<le> mp" "mp \<le> 11" "month_start mp \<le> doy" "doy < month_start (mp + 1)"
  shows "(5 * doy + 2) div 153 = mp"
  using mp_cases [OF assms(1,2)] assms(3,4)
  by (elim disjE) (simp_all add: month_start_def)

lemma month_exists:
  assumes "0 \<le> doy" "doy \<le> 365"
  shows "\<exists>mp. 0 \<le> mp \<and> mp \<le> 11 \<and> month_start mp \<le> doy \<and> doy < month_start (mp + 1)"
proof -
  have "doy < 31 \<or> (31 \<le> doy \<and> doy < 61) \<or> (61 \<le> doy \<and> doy < 92) \<or> (92 \<le> doy \<and> doy < 122)
    \<or> (122 \<le> doy \<and> doy < 153) \<or> (153 \<le> doy \<and> doy < 184) \<or> (184 \<le> doy \<and> doy < 214)
    \<or> (214 \<le> doy \<and> doy < 245) \<or> (245 \<le> doy \<and> doy < 275) \<or> (275 \<le> doy \<and> doy < 306)
    \<or> (306 \<le> doy \<and> doy < 337) \<or> 337 \<le> doy" by linarith
  then show ?thesis using assms unfolding month_start_def
    by (elim disjE, intro exI [of _ 0], simp, intro exI [of _ 1], simp, intro exI [of _ 2], simp, intro exI [of _ 3], simp,
        intro exI [of _ 4], simp, intro exI [of _ 5], simp, intro exI [of _ 6], simp, intro exI [of _ 7], simp,
        intro exI [of _ 8], simp, intro exI [of _ 9], simp, intro exI [of _ 10], simp, intro exI [of _ 11], simp)
qed

subsection \<open>What the two conversions compute\<close>

text \<open>
  The day numbers both conversions meet in: \<open>serial Y mp d\<close> for the \<open>d\<close>-th day of the \<open>mp\<close>-th month,
  counted from March, of the March-based year \<open>Y\<close>.
\<close>

definition serial :: "int \<Rightarrow> int \<Rightarrow> int \<Rightarrow> int" where
  "serial Y mp d = year_start Y + month_start mp + d - 1 - 719468"

definition in_month :: "int \<Rightarrow> int \<Rightarrow> int \<Rightarrow> bool" where
  "in_month Y mp d \<longleftrightarrow> 0 \<le> mp \<and> mp \<le> 11 \<and> 1 \<le> d \<and> month_start mp + d - 1 < month_start (mp + 1)
     \<and> year_start Y + month_start mp + d - 1 < year_start (Y + 1)"

definition civil_of :: "int \<Rightarrow> int \<Rightarrow> int \<Rightarrow> int \<times> int \<times> int" where
  "civil_of Y mp d = (Y + (if mp < 10 then 0 else 1), mp + (if mp < 10 then 3 else -9), d)"

lemma year_start_era: "year_start (400 * e + r) = 146097 * e + year_start r"
proof -
  have "(400 * e + r) div 4 = 100 * e + r div 4" "(400 * e + r) div 100 = 4 * e + r div 100"
    "(400 * e + r) div 400 = e + r div 400"
    using div_mult_self2 [of 4 r "100 * e"] div_mult_self2 [of 100 r "4 * e"] div_mult_self2 [of 400 r e]
    by (simp_all add: add.commute)
  then show ?thesis by (simp add: year_start_def algebra_simps)
qed

lemma month_start_bounds:
  assumes "0 \<le> mp" "mp \<le> 11"
  shows "0 \<le> month_start mp" "month_start mp \<le> 337" "month_start (mp + 1) \<le> month_start mp + 31"
  using mp_cases [OF assms] by (elim disjE; simp add: month_start_def)+

lemma days_from_civil_serial:
  assumes "1 \<le> m" "m \<le> 12" "1 \<le> d" "d \<le> 31"
  shows "days_from_civil y m d =
    serial (y - (if m \<le> 2 then 1 else 0)) (if m > 2 then m - 3 else m + 9) d"
proof -
  define Y where "Y = y - (if m \<le> 2 then 1 else 0)"
  define mp where "mp = (if m > 2 then m - 3 else m + 9)"
  have mp: "0 \<le> mp" "mp \<le> 11" using assms by (auto simp: mp_def)
  have Ym: "0 \<le> Y mod 400" "Y mod 400 < 400" by simp_all
  have ys: "year_start (Y mod 400) = Y mod 400 * 365 + Y mod 400 div 4 - Y mod 400 div 100"
    using Ym by (simp add: year_start_def)
  have yb: "0 \<le> year_start (Y mod 400)" "year_start (Y mod 400) \<le> 146097"
    using year_start_mono [of 0 "Y mod 400"] year_start_mono [of "Y mod 400" 400] Ym
    by (simp_all add: year_start_0_400)
  have d1: "U32 (m + (if m > 2 then -3 else 9)) = mp"
    using assms by (simp add: mp_def U32_small)
  have d2: "U32 (U32 (153 * mp) + 2) = 153 * mp + 2" using mp by (simp add: U32_small)
  have d3: "U32 ((153 * mp + 2) div 5 + d - 1) = month_start mp + d - 1"
    using month_start_bounds [OF mp] assms by (simp add: U32_small month_start_def)
  have d4: "U32 (Y mod 400 * 365 + Y mod 400 div 4 - Y mod 400 div 100 + (month_start mp + d - 1))
      = year_start (Y mod 400) + (month_start mp + d - 1)"
    using yb month_start_bounds [OF mp] assms unfolding ys [symmetric] by (intro U32_small) simp_all
  have era: "(if Y \<ge> 0 then Y else Y - 399) sdiv 400 = Y div 400"
    by (rule floor_era) simp_all
  have "Y - Y div 400 * 400 = Y mod 400" by (simp add: minus_div_mult_eq_mod)
  then have yoe: "U32 (Y - Y div 400 * 400) = Y mod 400" using Ym by (simp add: U32_small)
  have "days_from_civil y m d = Y div 400 * 146097 + (year_start (Y mod 400) + (month_start mp + d - 1)) - 719468"
    unfolding days_from_civil_def Let_def Y_def [symmetric] era yoe d1 d2 d3 d4 ..
  moreover have "year_start Y = 146097 * (Y div 400) + year_start (Y mod 400)"
    using year_start_era [of "Y div 400" "Y mod 400"] by simp
  ultimately show ?thesis by (simp add: serial_def Y_def mp_def)
qed

lemma civil_from_days_serial:
  assumes "in_month Y mp d"
  shows "civil_from_days (serial Y mp d) = civil_of Y mp d"
proof -
  define doy where "doy = month_start mp + d - 1"
  define x where "x = year_start (Y mod 400) + doy"
  have mp: "0 \<le> mp" "mp \<le> 11" and d: "1 \<le> d" "month_start mp + d - 1 < month_start (mp + 1)"
    "year_start Y + doy < year_start (Y + 1)"
    using assms by (auto simp: in_month_def doy_def)
  have doy: "0 \<le> doy" "doy \<le> 367" "month_start mp \<le> doy" "doy < month_start (mp + 1)"
    using d month_start_bounds [OF mp] by (simp_all add: doy_def)
  have Ym: "0 \<le> Y mod 400" "Y mod 400 < 400" by simp_all
  have yY: "year_start Y = 146097 * (Y div 400) + year_start (Y mod 400)"
    "year_start (Y + 1) = 146097 * (Y div 400) + year_start (Y mod 400 + 1)"
    using year_start_era [of "Y div 400" "Y mod 400"] year_start_era [of "Y div 400" "Y mod 400 + 1"]
    by (simp_all add: add.assoc [symmetric])
  have x: "year_start (Y mod 400) \<le> x" "x < year_start (Y mod 400 + 1)"
    using d(3) yY doy by (simp_all add: x_def)
  have xb: "0 \<le> x" "x < 146097"
    using x year_start_mono [of 0 "Y mod 400"] year_start_mono [of "Y mod 400 + 1" 400] Ym
    by (simp_all add: year_start_0_400)
  have z: "serial Y mp d + 719468 = 146097 * (Y div 400) + x"
    by (simp add: serial_def x_def doy_def yY)
  have era: "(if 146097 * (Y div 400) + x \<ge> 0 then 146097 * (Y div 400) + x
      else 146097 * (Y div 400) + x - 146096) sdiv 146097 = Y div 400"
    by (subst floor_era) (simp_all add: xb)
  have doe: "U32 (146097 * (Y div 400) + x - Y div 400 * 146097) = x"
    using xb by (simp add: U32_small)
  have yoe: "U32 (x - x div 1460 + x div 36524 - x div 146096) div 365 = Y mod 400"
    using year_guess_exact [OF Ym x] year_guess_range [OF xb] by (simp add: U32_small year_guess_def)
  have ys: "365 * (Y mod 400) + Y mod 400 div 4 - Y mod 400 div 100 = year_start (Y mod 400)"
    using Ym by (simp add: year_start_def)
  have "0 \<le> year_start (Y mod 400)" "year_start (Y mod 400) \<le> 146097"
    using year_start_mono [of 0 "Y mod 400"] xb x Ym by (simp_all add: year_start_0_400)
  then have dy: "U32 (x - U32 (365 * (Y mod 400) + Y mod 400 div 4 - Y mod 400 div 100)) = doy"
    using doy unfolding ys by (simp add: U32_small x_def)
  have mpe: "U32 (5 * doy + 2) div 153 = mp"
    using month_guess [OF mp doy(3,4)] doy by (simp add: U32_small)
  have de: "U32 (doy - U32 (153 * mp + 2) div 5 + 1) = d"
    using mp doy d(1) month_start_bounds [OF mp] by (simp add: U32_small doy_def month_start_def)
  have me: "U32 (mp + (if mp < 10 then 3 else - 9)) = mp + (if mp < 10 then 3 else - 9)"
    using mp by (simp add: U32_small)
  show ?thesis
    unfolding civil_from_days_def Let_def z era doe yoe dy mpe de me
    using mp by (auto simp: civil_of_def)
qed

lemma serial_exists: "\<exists>Y mp d. in_month Y mp d \<and> z = serial Y mp d"
proof -
  define e where "e = (z + 719468) div 146097"
  define x where "x = (z + 719468) mod 146097"
  have x: "0 \<le> x" "x < year_start (int 400)" by (simp_all add: x_def year_start_0_400)
  obtain y where y: "0 \<le> y" "y < 400" "year_start y \<le> x" "x < year_start (y + 1)"
    using year_exists [OF x] by auto
  have "x - year_start y \<le> 365"
    using y year_start_step [of y] by (simp split: if_splits)
  then obtain mp where mp: "0 \<le> mp" "mp \<le> 11" "month_start mp \<le> x - year_start y"
      "x - year_start y < month_start (mp + 1)"
    using month_exists [of "x - year_start y"] y by auto
  define Y where "Y = 400 * e + y"
  have Y: "year_start Y = 146097 * e + year_start y" "year_start (Y + 1) = 146097 * e + year_start (y + 1)"
    using year_start_era [of e y] year_start_era [of e "y + 1"] by (simp_all add: Y_def add.assoc)
  have z: "z + 719468 = 146097 * e + x" by (simp add: e_def x_def)
  have "in_month Y mp (x - year_start y - month_start mp + 1)"
    using y mp by (simp add: in_month_def Y)
  moreover have "z = serial Y mp (x - year_start y - month_start mp + 1)"
    using z by (simp add: serial_def Y)
  ultimately show ?thesis by blast
qed

lemma month_len_march:
  assumes "0 \<le> mp" "mp \<le> 10" and "civil_of Y mp d = (y, m, d)"
  shows "month_start (mp + 1) = month_start mp + month_len y m"
  using mp_cases [of mp] assms
  by (auto simp: month_start_def month_len_def civil_of_def)

lemma in_month_last:
  "in_month Y 11 d \<longleftrightarrow> 1 \<le> d \<and> d \<le> (if is_leap (Y + 1) then 29 else 28)"
  by (auto simp: in_month_def month_start_def year_start_step)

lemma in_month_valid:
  assumes mp: "0 \<le> mp" "mp \<le> 11"
  shows "in_month Y mp d \<longleftrightarrow> valid_date (civil_of Y mp d)"
proof (cases "mp = 11")
  case True
  then show ?thesis
    unfolding True in_month_last by (simp add: valid_date_def civil_of_def month_len_def)
next
  case False
  then have m: "mp \<le> 10" using mp by simp
  obtain y m' where c: "civil_of Y mp d = (y, m', d)" by (simp add: civil_of_def)
  have "month_start (mp + 1) = month_start mp + month_len y m'" by (rule month_len_march [OF mp(1) m c])
  moreover have "month_start (mp + 1) \<le> 337"
    using month_start_bounds [of "mp + 1"] mp m by simp
  then have "d \<le> month_len y m' \<Longrightarrow> month_start mp + d - 1 < 365" using calculation by simp
  moreover have "1 \<le> m'" "m' \<le> 12" using c mp by (auto simp: civil_of_def split: if_splits)
  moreover have "year_start Y + 365 \<le> year_start (Y + 1)" by (simp add: year_start_step)
  ultimately show ?thesis using mp unfolding c by (auto simp: valid_date_def in_month_def)
qed

lemma civil_of_surj:
  assumes "1 \<le> m" "m \<le> 12"
  shows "civil_of (y - (if m \<le> 2 then 1 else 0)) (if m > 2 then m - 3 else m + 9) d = (y, m, d)"
  using assms by (auto simp: civil_of_def)

lemma valid_in_month:
  assumes "valid_date (y, m, d)"
  shows "in_month (y - (if m \<le> 2 then 1 else 0)) (if m > 2 then m - 3 else m + 9) d"
  using assms in_month_valid [of "if m > 2 then m - 3 else m + 9" "y - (if m \<le> 2 then 1 else 0)" d]
    civil_of_surj [of m y d] by (auto simp: valid_date_def)

lemma valid_day_31: "valid_date (y, m, d) \<Longrightarrow> 1 \<le> m \<and> m \<le> 12 \<and> 1 \<le> d \<and> d \<le> 31"
  by (auto simp: valid_date_def month_len_def split: if_splits)

lemma valid_serial:
  assumes "valid_date (y, m, d)"
  shows "days_from_civil y m d = serial (y - (if m \<le> 2 then 1 else 0)) (if m > 2 then m - 3 else m + 9) d"
  using days_from_civil_serial valid_day_31 [OF assms] by blast

lemma civil_round:
  assumes "valid_date (y, m, d)"
  shows "civil_from_days (days_from_civil y m d) = (y, m, d)"
  using civil_from_days_serial [OF valid_in_month [OF assms]] valid_serial [OF assms]
    civil_of_surj valid_day_31 [OF assms] by metis

lemma civil_from_days_valid:
  assumes "civil_from_days z = (y, m, d)"
  shows "valid_date (y, m, d)" and "days_from_civil y m d = z"
proof -
  obtain Y mp d' where s: "in_month Y mp d'" "z = serial Y mp d'" using serial_exists by blast
  have mp: "0 \<le> mp" "mp \<le> 11" using s by (simp_all add: in_month_def)
  have c: "civil_of Y mp d' = (y, m, d)" using civil_from_days_serial [OF s(1)] s(2) assms by simp
  then show v: "valid_date (y, m, d)" using s(1) in_month_valid [OF mp] by metis
  have "Y = y - (if m \<le> 2 then 1 else 0)" "mp = (if m > 2 then m - 3 else m + 9)" "d' = d"
    using c mp by (auto simp: civil_of_def split: if_splits)
  then show "days_from_civil y m d = z" using valid_serial [OF v] s(2) by simp
qed

lemma next_day_serial:
  assumes "valid_date (y, m, d)" and "next_day (y, m, d) = (y', m', d')"
  shows "valid_date (y', m', d')" and "days_from_civil y' m' d' = days_from_civil y m d + 1"
proof -
  have m: "1 \<le> m" "m \<le> 12" "1 \<le> d" "d \<le> month_len y m" using assms(1) by (auto simp: valid_date_def)
  show v: "valid_date (y', m', d')"
    using assms m by (auto simp: valid_date_def next_day_def month_len_def split: if_splits)
  have step: "month_start (m - 2) = month_start (m - 3) + month_len y m" if "3 \<le> m"
    using month_len_march [of "m - 3" y d y m] that m by (simp add: civil_of_def)
  show "days_from_civil y' m' d' = days_from_civil y m d + 1"
  proof (cases "d < month_len y m")
    case True
    then have "y' = y" "m' = m" "d' = d + 1" using assms(2) by (auto simp: next_day_def)
    then show ?thesis
      using valid_serial [OF assms(1)] valid_serial [OF v] by (simp add: serial_def)
  next
    case False
    then have d: "d = month_len y m" using m by simp
    consider "3 \<le> m" "m < 12" | "m = 12" | "m = 1" | "m = 2" using m by linarith
    then show ?thesis
    proof cases
      case 1
      then have "y' = y" "m' = m + 1" "d' = 1" using assms(2) d by (auto simp: next_day_def)
      then show ?thesis
        using valid_serial [OF assms(1)] valid_serial [OF v] step d 1 by (simp add: serial_def)
    next
      case 2
      then have "y' = y + 1" "m' = 1" "d' = 1" using assms(2) d by (auto simp: next_day_def)
      then show ?thesis
        using valid_serial [OF assms(1)] valid_serial [OF v] step d 2 by (simp add: serial_def)
    next
      case 3
      then have "y' = y" "m' = 2" "d' = 1" using assms(2) d by (auto simp: next_day_def)
      then show ?thesis
        using valid_serial [OF assms(1)] valid_serial [OF v] d 3
        by (simp add: serial_def month_start_def month_len_def)
    next
      case 4
      then have "y' = y" "m' = 3" "d' = 1" using assms(2) d by (auto simp: next_day_def)
      then show ?thesis
        using valid_serial [OF assms(1)] valid_serial [OF v] d 4 year_start_step [of "y - 1"]
        by (simp add: serial_def month_start_def month_len_def)
    qed
  qed
qed

lemma civil_from_days_succ: "civil_from_days (z + 1) = next_day (civil_from_days z)"
proof -
  obtain y m d where c: "civil_from_days z = (y, m, d)" by (metis prod_cases3)
  obtain y' m' d' where n: "next_day (y, m, d) = (y', m', d')" by (metis prod_cases3)
  note v = civil_from_days_valid [OF c]
  have "days_from_civil y' m' d' = z + 1" using next_day_serial(2) [OF v(1) n] v(2) by simp
  then show ?thesis using civil_round [OF next_day_serial(1) [OF v(1) n]] c n by simp
qed

subsection \<open>Broken-down time and back\<close>

definition year_of :: "int \<Rightarrow> int" where
  "year_of t = fst (civil_from_days (t div 86400))"

definition fits_tm :: "int \<Rightarrow> bool" where
  "fits_tm t \<longleftrightarrow> - 2147483648 \<le> year_of t - 1900 \<and> year_of t - 1900 < 2147483648"

lemma yday_range:
  assumes "civil_from_days z = (y, m, d)"
  shows "0 \<le> z - days_from_civil y 1 1" "z - days_from_civil y 1 1 < (if is_leap y then 366 else 365)"
proof -
  note v = civil_from_days_valid [OF assms]
  have mb: "1 \<le> m" "m \<le> 12" "1 \<le> d" "d \<le> month_len y m" using v(1) by (auto simp: valid_date_def)
  have j: "days_from_civil y 1 1 = year_start (y - 1) + 306 - 719468"
    by (simp add: days_from_civil_serial serial_def month_start_def)
  have z: "z = serial (y - (if m \<le> 2 then 1 else 0)) (if m > 2 then m - 3 else m + 9) d"
    using valid_serial [OF v(1)] v(2) by simp
  have ys: "year_start y = year_start (y - 1) + (if is_leap y then 366 else 365)"
    using year_start_step [of "y - 1"] by simp
  have "m = 1 \<or> m = 2 \<or> m = 3 \<or> m = 4 \<or> m = 5 \<or> m = 6 \<or> m = 7 \<or> m = 8 \<or> m = 9 \<or> m = 10 \<or> m = 11 \<or> m = 12"
    using mb by presburger
  then show "0 \<le> z - days_from_civil y 1 1" "z - days_from_civil y 1 1 < (if is_leap y then 366 else 365)"
    using mb(3,4) unfolding j z serial_def
    by (cases "is_leap y"; elim disjE; simp add: month_start_def month_len_def ys)+
qed

text \<open>The day of the year: the lengths of the months before, and the days before in the month.\<close>

lemma yday_months:
  assumes "civil_from_days z = (y, m, d)"
  shows "z - days_from_civil y 1 1 = sum_list (map (month_len y) [1..m - 1]) + (d - 1)"
proof -
  note v = civil_from_days_valid [OF assms]
  have mb: "1 \<le> m" "m \<le> 12" using v(1) by (auto simp: valid_date_def)
  have j: "days_from_civil y 1 1 = year_start (y - 1) + 306 - 719468"
    by (simp add: days_from_civil_serial serial_def month_start_def)
  have z: "z = serial (y - (if m \<le> 2 then 1 else 0)) (if m > 2 then m - 3 else m + 9) d"
    using valid_serial [OF v(1)] v(2) by simp
  have ys: "year_start y = year_start (y - 1) + (if is_leap y then 366 else 365)"
    using year_start_step [of "y - 1"] by simp
  have "m = 1 \<or> m = 2 \<or> m = 3 \<or> m = 4 \<or> m = 5 \<or> m = 6 \<or> m = 7 \<or> m = 8 \<or> m = 9 \<or> m = 10 \<or> m = 11 \<or> m = 12"
    using mb by presburger
  then show ?thesis
    unfolding j z serial_def
    by (cases "is_leap y"; elim disjE; simp add: month_start_def month_len_def ys upto_rec1)
qed

lemma clock_fields:
  fixes t :: int
  shows "t mod 86400 mod 60 = t mod 60" and "t mod 86400 div 60 mod 60 = t div 60 mod 60"
    and "t mod 86400 div 3600 = t div 3600 mod 24"
    and "t mod 86400 = (t div 3600 mod 24) * 3600 + (t div 60 mod 60) * 60 + t mod 60"
proof -
  have m: "t mod 86400 = 60 * (t div 60 mod 1440) + t mod 60"
    using zmod_zmult2_eq [of 1440 t 60] by simp
  have h: "t mod 86400 = 3600 * (t div 3600 mod 24) + t mod 3600"
    using zmod_zmult2_eq [of 24 t 3600] by simp
  have "t mod 3600 = 60 * (t div 60 mod 60) + t mod 60"
    using zmod_zmult2_eq [of 60 t 60] by simp
  then show "t mod 86400 = (t div 3600 mod 24) * 3600 + (t div 60 mod 60) * 60 + t mod 60"
    using h by simp
  show "t mod 86400 mod 60 = t mod 60" by (simp add: mod_mod_cancel)
  show "t mod 86400 div 3600 = t div 3600 mod 24" using int_div_pos_eq [OF h] by simp
  have "t mod 86400 div 60 = t div 60 mod 1440" using int_div_pos_eq [OF m] by simp
  then show "t mod 86400 div 60 mod 60 = t div 60 mod 60" by (simp add: mod_mod_cancel)
qed

lemma gmtime_fields:
  assumes "civil_from_days (t div 86400) = (y, m, d)"
  shows "gmtime t = \<lparr>tm_sec = t mod 60, tm_min = t div 60 mod 60, tm_hour = t div 3600 mod 24,
     tm_mday = d, tm_mon = m - 1, tm_year = I32 (y - 1900), tm_wday = (t div 86400 + 4) mod 7,
     tm_yday = t div 86400 - days_from_civil y 1 1, tm_isdst = 0\<rparr>"
proof -
  define rm where "rm = t mod 86400"
  have rm: "0 \<le> rm" "rm < 86400" by (simp_all add: rm_def)
  have t: "t = 86400 * (t div 86400) + rm" by (simp add: rm_def)
  have md: "1 \<le> m" "m \<le> 12" "1 \<le> d" "d \<le> 31"
    using valid_day_31 [OF civil_from_days_valid(1) [OF assms]] by auto
  have yd: "0 \<le> t div 86400 - days_from_civil y 1 1" "t div 86400 - days_from_civil y 1 1 < 367"
    using yday_range [OF assms] by (simp_all split: if_splits)
  have s: "rm mod 60 = t mod 60" "rm div 60 mod 60 = t div 60 mod 60" "rm div 3600 = t div 3600 mod 24"
    unfolding rm_def by (rule clock_fields)+
  have w: "I32 ((t div 86400 + 4) mod 7) = (t div 86400 + 4) mod 7"
    using pos_mod_bound [of 7 "t div 86400 + 4"] pos_mod_sign [of 7 "t div 86400 + 4"]
    by (intro I32_small) linarith+
  have f: "(if t smod 86400 < 0 then t smod 86400 + 86400 else t smod 86400) = rm"
    "(if t smod 86400 < 0 then t sdiv 86400 - 1 else t sdiv 86400) = t div 86400"
    "(if (t div 86400 + 4) smod 7 < 0 then (t div 86400 + 4) smod 7 + 7 else (t div 86400 + 4) smod 7)
     = (t div 86400 + 4) mod 7"
    unfolding rm_def by (rule floor_divmod; simp)+
  have "rm sdiv 60 = rm div 60" "rm sdiv 3600 = rm div 3600" "rm smod 60 = rm mod 60"
    "(rm div 60) smod 60 = rm div 60 mod 60"
    using rm by (simp_all add: sdiv_nonneg smod_nonneg)
  note ops = this
  have "I32 (rm mod 60) = rm mod 60" "I32 (rm div 60 mod 60) = rm div 60 mod 60" "I32 (rm div 3600) = rm div 3600"
    "I32 d = d" "I32 m = m" "I32 (t div 86400 - days_from_civil y 1 1) = t div 86400 - days_from_civil y 1 1"
    using rm md yd pos_mod_bound [of 60 rm] pos_mod_sign [of 60 rm] pos_mod_bound [of 60 "rm div 60"]
      pos_mod_sign [of 60 "rm div 60"] by (auto intro!: I32_small)
  note casts = this
  show ?thesis
    unfolding gmtime_def Let_def SECS_PER_DAY_def f assms prod.case ops casts w unfolding s ..
qed

lemma utc_fields_value:
  "utc_fields t = (let M = (tm_year t + 1900) * 12 + tm_mon t;
       secs = (days_from_civil (M div 12) (M mod 12 + 1) 1 + tm_mday t - 1) * 86400
              + tm_hour t * 3600 + tm_min t * 60 + tm_sec t
     in (secs, gmtime secs))"
proof -
  have M: "((tm_year t + 1900) * 12 + tm_mon t) div 12 = tm_year t + 1900 + tm_mon t div 12"
    "((tm_year t + 1900) * 12 + tm_mon t) mod 12 = tm_mon t mod 12"
    using div_mult_self4 [of 12 "tm_year t + 1900" "tm_mon t"] mod_mult_self4 [of 12 "tm_year t + 1900" "tm_mon t"]
    by (simp_all only: mult.commute add.commute)
  have "0 \<le> tm_mon t mod 12" "tm_mon t mod 12 < 12" by simp_all
  then have "U32 (tm_mon t mod 12 + 1) = tm_mon t mod 12 + 1" by (intro U32_small) auto
  moreover have "(if tm_mon t smod 12 < 0 then tm_year t + 1900 + tm_mon t sdiv 12 - 1
      else tm_year t + 1900 + tm_mon t sdiv 12) = tm_year t + 1900 + tm_mon t div 12"
    using floor_divmod(2) [of 12 "tm_mon t"] by (simp split: if_splits)
  moreover have "(if tm_mon t smod 12 < 0 then tm_mon t smod 12 + 12 else tm_mon t smod 12) = tm_mon t mod 12"
    by (rule floor_divmod) simp
  ultimately show ?thesis
    unfolding utc_fields_def Let_def SECS_PER_DAY_def M by (simp only: add_diff_eq)
qed

lemma utc_fields_pair: "snd (utc_fields t) = gmtime (fst (utc_fields t))"
  by (simp add: utc_fields_def Let_def)

lemma first_of_month:
  assumes "valid_date (y, m, d)"
  shows "days_from_civil y m 1 + d - 1 = days_from_civil y m d"
  using assms valid_day_31 [OF assms] by (simp add: days_from_civil_serial serial_def)

lemma utc_fields_gmtime:
  assumes "fits_tm t"
  shows "fst (utc_fields (gmtime t)) = t"
proof -
  obtain y m d where c: "civil_from_days (t div 86400) = (y, m, d)" by (metis prod_cases3)
  note v = civil_from_days_valid [OF c]
  have "I32 (y - 1900) = y - 1900" using assms c by (simp add: fits_tm_def year_of_def I32_small)
  moreover have "(y * 12 + (m - 1)) div 12 = y" "(y * 12 + (m - 1)) mod 12 + 1 = m"
    using valid_day_31 [OF v(1)] by (auto simp: add.commute)
  moreover have "t = (t div 86400) * 86400 + (t div 3600 mod 24) * 3600 + (t div 60 mod 60) * 60 + t mod 60"
    using clock_fields(4) [of t] by (metis add.assoc mult.commute mult_div_mod_eq)
  ultimately show ?thesis
    using first_of_month [OF v(1)] v(2)
    by (simp add: utc_fields_value gmtime_fields [OF c] Let_def algebra_simps)
qed

text \<open>
  C17. The day numbers of the calendar are the Gregorian calendar: day 0 is 1 January 1970, every day
  number is a valid date, the next number is the next day of the calendar, and
  \<open>days_from_civil\<close> takes the date back to its number.
\<close>

theorem civil_calendar_exact:
  "civil_from_days 0 = (1970, 1, 1)
   \<and> civil_from_days (z + 1) = next_day (civil_from_days z)
   \<and> valid_date (civil_from_days z)
   \<and> (case civil_from_days z of (y, m, d) \<Rightarrow> days_from_civil y m d = z)"
proof -
  obtain y m d where c: "civil_from_days z = (y, m, d)" by (metis prod_cases3)
  have "civil_from_days 0 = (1970, 1, 1)" by code_simp
  then show ?thesis using c civil_from_days_valid [OF c] civil_from_days_succ by simp
qed

text \<open>
  Every valid date comes back from its day number, and the next calendar day has the next
  number.
\<close>

theorem days_civil_roundtrip:
  assumes "valid_date (y, m, d)"
  shows "civil_from_days (days_from_civil y m d) = (y, m, d)
    \<and> (case next_day (y, m, d) of (y', m', d') \<Rightarrow> days_from_civil y' m' d') = days_from_civil y m d + 1"
proof -
  obtain y' m' d' where n: "next_day (y, m, d) = (y', m', d')" by (metis prod_cases3)
  then show ?thesis
    using next_day_serial(2) [OF assms n] civil_round [OF assms] by simp
qed

theorem days_civil_roundtrip_witness:
  "valid_date (2024, 2, 29) \<and> civil_from_days (days_from_civil 2024 2 29) = (2024, 2, 29)
   \<and> days_from_civil 2024 3 1 = days_from_civil 2024 2 29 + 1"
proof -
  have v: "valid_date (2024, 2, 29)" by (simp add: valid_date_def month_len_def is_leap_def)
  moreover have "next_day (2024, 2, 29) = (2024, 3, 1)" by (simp add: next_day_def month_len_def is_leap_def)
  ultimately show ?thesis using days_civil_roundtrip [OF v] by simp
qed

text \<open>
  C18. For every instant whose year fits the \<^verbatim>\<open>int\<close> field \<^verbatim>\<open>tm_year\<close>, \<open>timegm\<close> inverts \<open>gmtime\<close> and
  hands the same broken-down time back; the fields are in their ranges, the weekday is the count of
  days from Thursday 1 January 1970 and the day of the year is the sum of the lengths of the months before
  and of the days before in the month.
\<close>

theorem gmtime_timegm:
  assumes "fits_tm t" and "g = gmtime t"
  shows "timegm g = (t, g)
    \<and> tm_sec g \<in> {0..<60} \<and> tm_min g \<in> {0..<60} \<and> tm_hour g \<in> {0..<24}
    \<and> valid_date (tm_year g + 1900, tm_mon g + 1, tm_mday g)
    \<and> tm_wday g = (t div 86400 + 4) mod 7
    \<and> tm_yday g = sum_list (map (month_len (tm_year g + 1900)) [1..tm_mon g]) + (tm_mday g - 1)
    \<and> 0 \<le> tm_yday g \<and> tm_yday g < (if leap (tm_year g + 1900) then 366 else 365)"
proof -
  obtain y m d where c: "civil_from_days (t div 86400) = (y, m, d)" by (metis prod_cases3)
  have y: "I32 (y - 1900) = y - 1900" using assms c by (simp add: fits_tm_def year_of_def I32_small)
  have "timegm (gmtime t) = (t, gmtime t)"
    using utc_fields_gmtime [OF assms(1)] utc_fields_pair by (metis prod.collapse timegm_def)
  moreover have "valid_date (y, m, d)" by (rule civil_from_days_valid [OF c])
  ultimately show ?thesis
    unfolding assms(2) using yday_range [OF c] yday_months [OF c] by (simp add: gmtime_fields [OF c] y leap_is_leap)
qed

theorem gmtime_timegm_witness:
  "timegm (gmtime 951827696) = (951827696, gmtime 951827696)
   \<and> tm_yday (gmtime 951827696) = sum_list (map (month_len (tm_year (gmtime 951827696) + 1900)) [1..tm_mon (gmtime 951827696)])
       + (tm_mday (gmtime 951827696) - 1)"
proof -
  have "fits_tm 951827696" by code_simp
  from gmtime_timegm [OF this refl] show ?thesis by blast
qed

text \<open>
  \<open>mktime\<close> inverts \<open>localtime\<close> at every instant at which the zone's second answer is the offset in
  force, which is what asking twice is for; both years must fit \<^verbatim>\<open>tm_year\<close>.
\<close>

theorem localtime_mktime:
  assumes "fits_tm (t + zone t)"
    and "zone (t + zone t - zone (t + zone t)) = zone t"
  shows "mktime zone (localtime zone t) = (t, localtime zone t)"
proof -
  have "utc_fields (r\<lparr>tm_isdst := x\<rparr>) = utc_fields r" for r x
    by (simp add: utc_fields_def)
  then have "fst (utc_fields (localtime zone t)) = t + zone t"
    using utc_fields_gmtime [OF assms(1)] by (simp add: localtime_def Let_def)
  then show ?thesis
    using assms(2) by (simp add: mktime_def Let_def case_prod_beta)
qed

theorem localtime_mktime_witness:
  "mktime (\<lambda>t. if t < 1711846800 then 3600 else 7200) (localtime (\<lambda>t. if t < 1711846800 then 3600 else 7200) 1711846799)
   = (1711846799, localtime (\<lambda>t. if t < 1711846800 then 3600 else 7200) 1711846799)"
  by (rule localtime_mktime; code_simp)

text \<open>
  \<open>timegm\<close> normalises: the month carries into the year by floor division, the other fields count
  on, and what it hands back is a fixed point when its year fits.
\<close>

theorem timegm_normalises:
  assumes "fits_tm (fst (timegm t))"
  shows "fst (timegm t) =
      (let M = (tm_year t + 1900) * 12 + tm_mon t
       in (days_from_civil (M div 12) (M mod 12 + 1) 1 + tm_mday t - 1) * 86400
          + tm_hour t * 3600 + tm_min t * 60 + tm_sec t)
    \<and> timegm (snd (timegm t)) = timegm t"
proof (rule conjI)
  show "fst (timegm t) =
      (let M = (tm_year t + 1900) * 12 + tm_mon t
       in (days_from_civil (M div 12) (M mod 12 + 1) 1 + tm_mday t - 1) * 86400
          + tm_hour t * 3600 + tm_min t * 60 + tm_sec t)"
    by (simp only: timegm_def utc_fields_value Let_def fst_conv)
  show "timegm (snd (timegm t)) = timegm t"
    using utc_fields_gmtime [OF assms] utc_fields_pair by (metis prod.collapse timegm_def)
qed

theorem timegm_normalises_witness:
  "timegm (snd (timegm \<lparr>tm_sec = 75, tm_min = -1, tm_hour = 25, tm_mday = 31, tm_mon = -2, tm_year = 100,
      tm_wday = 0, tm_yday = 0, tm_isdst = 0\<rparr>))
   = timegm \<lparr>tm_sec = 75, tm_min = -1, tm_hour = 25, tm_mday = 31, tm_mon = -2, tm_year = 100,
      tm_wday = 0, tm_yday = 0, tm_isdst = 0\<rparr>"
proof (rule timegm_normalises [THEN conjunct2])
  show "fits_tm (fst (timegm \<lparr>tm_sec = 75, tm_min = -1, tm_hour = 25, tm_mday = 31, tm_mon = -2, tm_year = 100,
      tm_wday = 0, tm_yday = 0, tm_isdst = 0\<rparr>))" by code_simp
qed

text \<open>
  The first second of the year 2147485548 does not come back: \<^verbatim>\<open>tm_year\<close> is an \<^verbatim>\<open>int\<close> and the cast
  in \<open>gmtime\<close> wraps it.
\<close>

theorem gmtime_year_truncates:
  "fst (timegm (gmtime 67768036191676800)) \<noteq> 67768036191676800
   \<and> tm_year (gmtime 67768036191676800) = - 2147483648"
  by code_simp

end
