(* ===== verification/Usb_Disk.thy ===== *)
theory Usb_Disk
  imports Prelude
begin

text \<open>
  The USB mass-storage calls of \<^verbatim>\<open>kernel/drivers/xhci.c\<close> that the block layer and the volume layer
  use: the table of sticks and the SCSI commands \<^verbatim>\<open>READ CAPACITY(10)\<close>, \<^verbatim>\<open>READ(10)\<close> and \<^verbatim>\<open>WRITE(10)\<close>.

  What a command does on the bus is the controller's and the device's business: \<^verbatim>\<open>bot_xfer\<close>, one
  Bulk-Only Transport exchange, is the parameter \<open>bot_xfer\<close> of the hardware record \<open>hw\<close>, and \<open>'h\<close>
  is whatever state the hardware has. It is given the index of the device, the command block, the
  direction, the data buffer and its length and gives back the SCSI status (\<open>-1\<close> for a transport
  error), the buffer and the new state; the device may be gone afterwards, which is why it returns
  the whole USB state. The virtio disk is a parameter of the same record for the same reason.
\<close>

subsection \<open>State\<close>

definition MAX_MSC :: nat where "MAX_MSC = 8"

record msc_dev =
  msc_used :: bool
  msc_id :: u32
  mbsize :: u32
  mblocks :: u32

record 'h usb =
  mscs :: "msc_dev list"
  wire :: 'h

record 'h hw =
  bot_xfer :: "nat \<Rightarrow> u8 list \<Rightarrow> bool \<Rightarrow> u8 list \<Rightarrow> u32 \<Rightarrow> 'h usb \<Rightarrow> int \<times> u8 list \<times> 'h usb"
  virtio_blk_init :: "'h usb \<Rightarrow> bool \<times> 'h usb"
  virtio_blk_read_sectors :: "u64 \<Rightarrow> u32 \<Rightarrow> u8 list \<Rightarrow> 'h usb \<Rightarrow> bool \<times> u8 list \<times> 'h usb"
  virtio_blk_write_sectors :: "u64 \<Rightarrow> u32 \<Rightarrow> u8 list \<Rightarrow> 'h usb \<Rightarrow> bool \<times> 'h usb"

subsection \<open>Bytes of a buffer\<close>

definition le32 :: "u8 list \<Rightarrow> nat \<Rightarrow> u32" where
  "le32 s p = ucast (s ! p) OR push_bit 8 (ucast (s ! (p + 1))) OR push_bit 16 (ucast (s ! (p + 2)))
     OR push_bit 24 (ucast (s ! (p + 3)))"

definition le64 :: "u8 list \<Rightarrow> nat \<Rightarrow> u64" where
  "le64 s p = ucast (le32 s p) OR push_bit 32 (ucast (le32 s (p + 4)))"

definition be32 :: "u8 list \<Rightarrow> nat \<Rightarrow> u32" where
  "be32 s p = push_bit 24 (ucast (s ! p)) OR push_bit 16 (ucast (s ! (p + 1)))
     OR push_bit 8 (ucast (s ! (p + 2))) OR ucast (s ! (p + 3))"

subsection \<open>The calls\<close>

definition usb_disk_count :: "'h usb \<Rightarrow> int" where
  "usb_disk_count u = fold (\<lambda>k n. if msc_used (mscs u ! k) then int k + 1 else n) [0..<MAX_MSC] 0"

definition disk :: "int \<Rightarrow> 'h usb \<Rightarrow> nat option" where
  "disk dev u = (if dev < 0 \<or> dev \<ge> int MAX_MSC \<or> \<not> msc_used (mscs u ! nat dev) then None else Some (nat dev))"

definition usb_disk_id :: "int \<Rightarrow> 'h usb \<Rightarrow> u32" where
  "usb_disk_id dev u =
     (if dev < 0 \<or> dev \<ge> int MAX_MSC \<or> \<not> msc_used (mscs u ! nat dev) then 0 else msc_id (mscs u ! nat dev))"

text \<open>
  Up to five tries of \<^verbatim>\<open>READ CAPACITY(10)\<close>; the answer buffer is a local whose first contents nothing
  defines, zeros here.
\<close>

fun capacity_tries :: "'h hw \<Rightarrow> int \<Rightarrow> nat \<Rightarrow> nat \<Rightarrow> 'h usb \<Rightarrow> (u32 \<times> u32) option \<times> 'h usb" where
  "capacity_tries hw dev m 0 u = (None, u)"
| "capacity_tries hw dev m (Suc t) u =
     (case bot_xfer hw m [0x25, 0, 0, 0, 0, 0, 0, 0, 0, 0] True (replicate 8 0) 8 u of
        (st, cap, u1) \<Rightarrow>
          if st = 0 then
            let last = be32 cap 0; bs = be32 cap 4; e = mscs u1 ! m;
                e' = e\<lparr>mblocks := last + 1,
                       mbsize := (if bs = 512 \<or> bs = 1024 \<or> bs = 2048 \<or> bs = 4096 then bs else mbsize e)\<rparr>
            in (Some (mblocks e', mbsize e'), u1\<lparr>mscs := (mscs u1)[m := e']\<rparr>)
          else if disk dev u1 = None then (None, u1)
          else capacity_tries hw dev m t u1)"

definition usb_disk_capacity :: "'h hw \<Rightarrow> int \<Rightarrow> 'h usb \<Rightarrow> (u32 \<times> u32) option \<times> 'h usb" where
  "usb_disk_capacity hw dev u =
     (case disk dev u of None \<Rightarrow> (None, u) | Some m \<Rightarrow> capacity_tries hw dev m 5 u)"

text \<open>
  The 10-byte command block: a 32-bit big-endian block address and a 16-bit count, as the byte
  stores of the code truncate them.
\<close>

definition rw10_cdb :: "u8 \<Rightarrow> u32 \<Rightarrow> u32 \<Rightarrow> u8 list" where
  "rw10_cdb opc lba count =
     [opc, 0, ucast (drop_bit 24 lba), ucast (drop_bit 16 lba), ucast (drop_bit 8 lba), ucast lba,
      0, ucast (drop_bit 8 count), ucast count, 0]"

definition usb_disk_read :: "'h hw \<Rightarrow> int \<Rightarrow> u32 \<Rightarrow> u32 \<Rightarrow> u8 list \<Rightarrow> 'h usb \<Rightarrow> bool \<times> u8 list \<times> 'h usb" where
  "usb_disk_read hw dev lba count buf u =
     (case disk dev u of
        None \<Rightarrow> (False, buf, u)
      | Some m \<Rightarrow>
          (case bot_xfer hw m (rw10_cdb 0x28 lba count) True buf (count * mbsize (mscs u ! m)) u of
             (st, buf', u') \<Rightarrow> (st = 0, buf', u')))"

definition usb_disk_write :: "'h hw \<Rightarrow> int \<Rightarrow> u32 \<Rightarrow> u32 \<Rightarrow> u8 list \<Rightarrow> 'h usb \<Rightarrow> bool \<times> 'h usb" where
  "usb_disk_write hw dev lba count buf u =
     (case disk dev u of
        None \<Rightarrow> (False, u)
      | Some m \<Rightarrow>
          (case bot_xfer hw m (rw10_cdb 0x2A lba count) False buf (count * mbsize (mscs u ! m)) u of
             (st, _, u') \<Rightarrow> (st = 0, u')))"

subsection \<open>What the SCSI block commands promise\<close>

text \<open>
  \<open>media h m k\<close> is block \<open>k\<close> of device \<open>m\<close>. A data-in command leaves every medium alone, a
  \<^verbatim>\<open>WRITE(10)\<close> touches only the blocks its command block names, a \<^verbatim>\<open>READ(10)\<close> that succeeds delivers
  the blocks named and a \<^verbatim>\<open>WRITE(10)\<close> that succeeds stores the data (one with a transfer length that
  is exactly the blocks').
\<close>

definition cdb_lba :: "u8 list \<Rightarrow> nat" where
  "cdb_lba cdb = unat (be32 cdb 2)"

definition cdb_count :: "u8 list \<Rightarrow> nat" where
  "cdb_count cdb = unat (cdb ! 7) * 256 + unat (cdb ! 8)"

definition write_confined :: "'h hw \<Rightarrow> ('h \<Rightarrow> nat \<Rightarrow> nat \<Rightarrow> u8 list) \<Rightarrow> bool" where
  "write_confined hw media \<longleftrightarrow>
     (\<forall>m cdb buf len u st buf' u'.
        bot_xfer hw m cdb False buf len u = (st, buf', u') \<longrightarrow> cdb ! 0 = 0x2A \<longrightarrow>
        (\<forall>m' k. media (wire u') m' k \<noteq> media (wire u) m' k \<longrightarrow>
            m' = m \<and> cdb_lba cdb \<le> k \<and> k < cdb_lba cdb + cdb_count cdb))"

definition sectors :: "('h \<Rightarrow> nat \<Rightarrow> nat \<Rightarrow> u8 list) \<Rightarrow> 'h \<Rightarrow> nat \<Rightarrow> nat \<Rightarrow> nat \<Rightarrow> u8 list" where
  "sectors media h m lba n = concat (map (media h m) [lba..<lba + n])"

definition rw10_exact :: "'h hw \<Rightarrow> ('h \<Rightarrow> nat \<Rightarrow> nat \<Rightarrow> u8 list) \<Rightarrow> bool" where
  "rw10_exact hw media \<longleftrightarrow>
     (\<forall>m cdb buf len u st buf' u'.
        bot_xfer hw m cdb True buf len u = (st, buf', u') \<longrightarrow>
          length buf' = length buf \<and> (\<forall>m' k. media (wire u') m' k = media (wire u) m' k)
          \<and> (st = 0 \<and> cdb ! 0 = 0x28 \<and> unat len = 512 * cdb_count cdb \<longrightarrow>
               buf' = sectors media (wire u) m (cdb_lba cdb) (cdb_count cdb) @ drop (unat len) buf))
   \<and> (\<forall>m cdb buf len u buf' u'.
        bot_xfer hw m cdb False buf len u = (0, buf', u') \<longrightarrow> cdb ! 0 = 0x2A \<longrightarrow>
        unat len = 512 * cdb_count cdb \<longrightarrow> unat len \<le> length buf \<longrightarrow>
          sectors media (wire u') m (cdb_lba cdb) (cdb_count cdb) = take (unat len) buf)
   \<and> (\<forall>h m k. length (media h m k) = 512)"

text \<open>
  A further promise of the transport: a command does not change what the table says of a device's
  block size.
\<close>

definition keeps_table :: "'h hw \<Rightarrow> bool" where
  "keeps_table hw \<longleftrightarrow> (\<forall>m cdb d buf len u st buf' u'. bot_xfer hw m cdb d buf len u = (st, buf', u') \<longrightarrow>
     map mbsize (mscs u') = map mbsize (mscs u))"

subsection \<open>The table\<close>

lemma usb_disk_count_le: "usb_disk_count u \<le> int MAX_MSC"
proof -
  have "fold (\<lambda>k n. if msc_used (mscs u ! k) then int k + 1 else n) xs n0 \<le> m"
    if "\<forall>k \<in> set xs. int k + 1 \<le> m" "n0 \<le> m" for xs n0 m
    using that by (induction xs arbitrary: n0) auto
  then show ?thesis unfolding usb_disk_count_def by auto
qed

subsection \<open>The command block\<close>

lemma be32_bytes:
  "push_bit 24 (ucast (ucast (drop_bit 24 x) :: u8)) OR push_bit 16 (ucast (ucast (drop_bit 16 x) :: u8))
    OR push_bit 8 (ucast (ucast (drop_bit 8 x) :: u8)) OR ucast (ucast x :: u8) = (x :: u32)"
proof (rule bit_word_eqI)
  fix n assume "n < LENGTH(32)"
  then have "n < 8 \<or> (8 \<le> n \<and> n < 16) \<or> (16 \<le> n \<and> n < 24) \<or> (24 \<le> n \<and> n < 32)" by auto
  then show "bit (push_bit 24 (ucast (ucast (drop_bit 24 x) :: u8)) OR push_bit 16 (ucast (ucast (drop_bit 16 x) :: u8))
    OR push_bit 8 (ucast (ucast (drop_bit 8 x) :: u8)) OR ucast (ucast x :: u8) :: u32) n = bit x n"
    by (elim disjE) (auto simp: bit_simps)
qed

lemma be32_rw10: "be32 (rw10_cdb opc lba count) 2 = lba"
  using be32_bytes [of lba] by (simp add: be32_def rw10_cdb_def)

lemma cdb_lba_rw10: "cdb_lba (rw10_cdb opc lba count) = unat lba"
  by (simp add: cdb_lba_def be32_rw10)

lemma cdb_count_rw10: "cdb_count (rw10_cdb opc lba count) = unat count mod 65536"
proof -
  have "unat (ucast (drop_bit 8 count) :: u8) = unat count div 256 mod 256"
    by (simp add: unsigned_ucast_eq drop_bit_eq_div take_bit_eq_mod unat_div)
  moreover have "unat (ucast count :: u8) = unat count mod 256"
    by (simp add: unsigned_ucast_eq take_bit_eq_mod)
  moreover have "unat count mod 65536 = unat count div 256 mod 256 * 256 + unat count mod 256"
    using mod_mult2_eq [of "unat count" 256 256] by simp
  ultimately show ?thesis by (simp add: cdb_count_def rw10_cdb_def)
qed

lemma rw10_opcode: "rw10_cdb opc lba count ! 0 = opc"
  by (simp add: rw10_cdb_def)

lemma usb_write_confined:
  assumes "write_confined hw media" and "usb_disk_write hw dev lba count buf u = (ok, u')"
    and "media (wire u') m k \<noteq> media (wire u) m k"
  shows "dev = int m" and "unat lba \<le> k" and "k < unat lba + unat count mod 65536"
proof -
  have "disk dev u \<noteq> None" using assms(2,3) by (auto simp: usb_disk_write_def split: option.splits)
  then obtain d where d: "disk dev u = Some d" by blast
  obtain st b where x: "bot_xfer hw d (rw10_cdb 0x2A lba count) False buf (count * mbsize (mscs u ! d)) u = (st, b, u')"
    using assms(2) d by (auto simp: usb_disk_write_def split: prod.splits)
  have "m = d \<and> cdb_lba (rw10_cdb 0x2A lba count) \<le> k
      \<and> k < cdb_lba (rw10_cdb 0x2A lba count) + cdb_count (rw10_cdb 0x2A lba count)"
    using assms(1,3) x rw10_opcode unfolding write_confined_def by blast
  moreover have "dev = int d" using d by (auto simp: disk_def split: if_splits)
  ultimately show "dev = int m" "unat lba \<le> k" "k < unat lba + unat count mod 65536"
    by (simp_all add: cdb_lba_rw10 cdb_count_rw10)
qed

subsection \<open>What the calls do to the media\<close>

lemma disk_index: "disk dev u = Some m \<Longrightarrow> dev = int m \<and> m < MAX_MSC"
  by (auto simp: disk_def split: if_splits)

lemma rw10_read:
  assumes "rw10_exact hw media" and "bot_xfer hw m cdb True buf len u = (0, buf', u')"
    and "cdb ! 0 = 0x28" and "unat len = 512 * cdb_count cdb"
  shows "buf' = sectors media (wire u) m (cdb_lba cdb) (cdb_count cdb) @ drop (unat len) buf"
  using assms unfolding rw10_exact_def by simp

lemma rw10_write:
  assumes "rw10_exact hw media" and "bot_xfer hw m cdb False buf len u = (0, buf', u')"
    and "cdb ! 0 = 0x2A" and "unat len = 512 * cdb_count cdb" and "unat len \<le> length buf"
  shows "sectors media (wire u') m (cdb_lba cdb) (cdb_count cdb) = take (unat len) buf"
  using assms unfolding rw10_exact_def by metis

lemma usb_read_media:
  assumes "rw10_exact hw media" and "usb_disk_read hw dev lba count buf u = (ok, buf', u')"
  shows "media (wire u') m k = media (wire u) m k" and "length buf' = length buf"
proof -
  have "media (wire u') m k = media (wire u) m k \<and> length buf' = length buf"
  proof (cases "disk dev u")
    case None
    then show ?thesis using assms(2) by (simp add: usb_disk_read_def)
  next
    case (Some d)
    then obtain st where "bot_xfer hw d (rw10_cdb 0x28 lba count) True buf (count * mbsize (mscs u ! d)) u = (st, buf', u')"
      using assms(2) by (auto simp: usb_disk_read_def split: prod.splits)
    then show ?thesis using assms(1) unfolding rw10_exact_def by metis
  qed
  then show "media (wire u') m k = media (wire u) m k" and "length buf' = length buf" by simp_all
qed

lemma sectors_length:
  assumes "rw10_exact hw media"
  shows "length (sectors media h m lba n) = 512 * n"
proof -
  have "\<And>k. length (media h m k) = 512" using assms unfolding rw10_exact_def by blast
  then show ?thesis by (induction n) (simp_all add: sectors_def)
qed

lemma sectors_length_one:
  assumes "rw10_exact hw media"
  shows "length (media h m k) = 512"
  using assms unfolding rw10_exact_def by blast

lemma sectors_nth_block:
  assumes "rw10_exact hw media" and "j < n"
  shows "take 512 (drop (512 * j) (sectors media h m lba n)) = media h m (lba + j)"
proof -
  have "[lba..<lba + n] = [lba..<lba + j] @ (lba + j) # [Suc (lba + j)..<lba + n]"
    using assms(2) upt_add_eq_append [of lba "lba + j" "n - j"] upt_conv_Cons [of "lba + j" "lba + n"] by simp
  then have "sectors media h m lba n = sectors media h m lba j @ media h m (lba + j)
      @ concat (map (media h m) [Suc (lba + j)..<lba + n])"
    by (simp add: sectors_def)
  then show ?thesis
    using sectors_length [OF assms(1)] sectors_length_one [OF assms(1)] by simp
qed

lemma transfer_len:
  fixes count :: u32
  assumes "unat count < 65536"
  shows "unat (count * 512) = 512 * (unat count mod 65536)"
  using assms unat_mult_small [of count 512] by simp

lemma usb_read_exact:
  assumes "rw10_exact hw media" and "usb_disk_read hw (int m) lba count buf u = (True, buf', u')"
    and "mbsize (mscs u ! m) = 512" and "unat count < 65536"
  shows "buf' = sectors media (wire u) m (unat lba) (unat count) @ drop (512 * unat count) buf"
proof -
  have d: "disk (int m) u = Some m"
    using assms(2) by (auto simp: usb_disk_read_def disk_def split: option.splits if_splits)
  have "bot_xfer hw m (rw10_cdb 0x28 lba count) True buf (count * 512) u = (0, buf', u')"
    using assms(2,3) d by (auto simp: usb_disk_read_def split: prod.splits)
  moreover have "unat (count * 512) = 512 * cdb_count (rw10_cdb 0x28 lba count)"
    using transfer_len [OF assms(4)] by (simp add: cdb_count_rw10)
  ultimately have "buf' = sectors media (wire u) m (cdb_lba (rw10_cdb 0x28 lba count)) (cdb_count (rw10_cdb 0x28 lba count))
      @ drop (unat (count * 512)) buf"
    using rw10_read [OF assms(1) _ rw10_opcode] by blast
  then show ?thesis using assms(4) by (simp add: cdb_lba_rw10 cdb_count_rw10 transfer_len)
qed

lemma usb_write_exact:
  assumes "rw10_exact hw media" and "usb_disk_write hw (int m) lba count buf u = (True, u')"
    and "mbsize (mscs u ! m) = 512" and "unat count < 65536" and "512 * unat count \<le> length buf"
  shows "sectors media (wire u') m (unat lba) (unat count) = take (512 * unat count) buf"
proof -
  have d: "disk (int m) u = Some m"
    using assms(2) by (auto simp: usb_disk_write_def disk_def split: option.splits if_splits)
  obtain b' where "bot_xfer hw m (rw10_cdb 0x2A lba count) False buf (count * 512) u = (0, b', u')"
    using assms(2,3) d by (auto simp: usb_disk_write_def split: prod.splits)
  moreover have "unat (count * 512) = 512 * cdb_count (rw10_cdb 0x2A lba count)"
    using transfer_len [OF assms(4)] by (simp add: cdb_count_rw10)
  moreover have "unat (count * 512) \<le> length buf" using assms(4,5) by (simp add: transfer_len)
  ultimately have "sectors media (wire u') m (cdb_lba (rw10_cdb 0x2A lba count)) (cdb_count (rw10_cdb 0x2A lba count))
      = take (unat (count * 512)) buf"
    using rw10_write [OF assms(1) _ rw10_opcode] by blast
  then show ?thesis using assms(4) by (simp add: cdb_lba_rw10 cdb_count_rw10 transfer_len)
qed

lemma sectors_cong:
  "(\<And>k. lba \<le> k \<Longrightarrow> k < lba + n \<Longrightarrow> media h' m k = media h m k) \<Longrightarrow> sectors media h' m lba n = sectors media h m lba n"
  unfolding sectors_def by (intro arg_cong [where f = concat] map_cong) auto

lemma usb_read_sizes:
  assumes "keeps_table hw" and "usb_disk_read hw dev lba count buf u = (ok, buf', u')"
  shows "map mbsize (mscs u') = map mbsize (mscs u)"
  using assms by (auto simp: usb_disk_read_def keeps_table_def split: option.splits prod.splits)

text \<open>Asking for the capacity changes no medium; the block size it answers is then the table's.\<close>

lemma capacity_tries_size:
  assumes "keeps_table hw"
  shows "capacity_tries hw dev m t u = (r, u') \<Longrightarrow> length (mscs u') = length (mscs u)
    \<and> (\<forall>blocks bs. r = Some (blocks, bs) \<longrightarrow> m < length (mscs u) \<longrightarrow> mbsize (mscs u' ! m) = bs)"
proof (induction t arbitrary: u)
  case (Suc t)
  obtain st cap u1 where x: "bot_xfer hw m [0x25, 0, 0, 0, 0, 0, 0, 0, 0, 0] True (replicate 8 0) 8 u = (st, cap, u1)" by (metis surj_pair)
  have "length (mscs u1) = length (mscs u)" using assms x unfolding keeps_table_def by (metis length_map)
  then show ?case using Suc.prems Suc.IH [of u1] x by (auto simp: Let_def split: if_splits)
qed simp

lemma capacity_size:
  assumes "keeps_table hw" and "usb_disk_capacity hw dev u = (r, u')"
  shows "length (mscs u') = length (mscs u)"
    and "r = Some (blocks, bs) \<Longrightarrow> length (mscs u) = MAX_MSC \<Longrightarrow> mbsize (mscs u' ! nat dev) = bs \<and> nat dev < MAX_MSC"
  using assms capacity_tries_size [OF assms(1)]
  by (fastforce simp: usb_disk_capacity_def dest: disk_index split: option.splits)+

subsection \<open>A stick that keeps its promises\<close>

text \<open>
  A concrete device, for the examples that show the hypotheses on the hardware can hold: media of
  512-byte blocks, every command answered at once.
\<close>

type_synonym platters = "nat \<Rightarrow> nat \<Rightarrow> u8 list"

definition platter :: "platters \<Rightarrow> nat \<Rightarrow> nat \<Rightarrow> u8 list" where
  "platter h m k = take 512 (h m k @ replicate 512 0)"

definition demo_bot ::
  "nat \<Rightarrow> nat \<Rightarrow> u8 list \<Rightarrow> bool \<Rightarrow> u8 list \<Rightarrow> u32 \<Rightarrow> platters usb \<Rightarrow> int \<times> u8 list \<times> platters usb" where
  "demo_bot nblk m cdb dir_in buf len u =
     (if dir_in then
        if cdb ! 0 = 0x28 \<and> unat len = 512 * cdb_count cdb \<and> unat len \<le> length buf
        then (0, sectors platter (wire u) m (cdb_lba cdb) (cdb_count cdb) @ drop (unat len) buf, u)
        else if cdb ! 0 = 0x25 \<and> length buf = 8
        then (0, [0, 0, word_of_nat ((nblk - 1) div 256), word_of_nat (nblk - 1), 0, 0, 2, 0], u)
        else (1, buf, u)
      else
        (0, buf, u\<lparr>wire := (wire u)(m := (\<lambda>k.
            if cdb_lba cdb \<le> k \<and> k < cdb_lba cdb + cdb_count cdb
            then take 512 (drop (512 * (k - cdb_lba cdb)) buf) else wire u m k))\<rparr>))"

definition demo_hw :: "nat \<Rightarrow> platters hw" where
  "demo_hw nblk = \<lparr>bot_xfer = demo_bot nblk, virtio_blk_init = (\<lambda>u. (False, u)),
     virtio_blk_read_sectors = (\<lambda>_ _ buf u. (False, buf, u)), virtio_blk_write_sectors = (\<lambda>_ _ _ u. (False, u))\<rparr>"

lemma platter_length: "length (platter h m k) = 512"
  by (simp add: platter_def)

lemma demo_write_confined: "write_confined (demo_hw nblk) platter"
  by (auto simp: write_confined_def demo_hw_def demo_bot_def platter_def split: if_splits)

lemma demo_keeps_table: "keeps_table (demo_hw nblk)"
  by (auto simp: keeps_table_def demo_hw_def demo_bot_def split: if_splits)

lemma platter_concat:
  "concat (map (platter h m) [lba..<lba + n]) = bs"
  if "length bs = 512 * n" and "\<And>j. j < n \<Longrightarrow> h m (lba + j) = take 512 (drop (512 * j) bs)"
  using that
proof (induction n arbitrary: bs)
  case (Suc n)
  have "concat (map (platter h m) [lba..<lba + n]) = take (512 * n) bs"
  proof (rule Suc.IH)
    show "length (take (512 * n) bs) = 512 * n" using Suc.prems by simp
    fix j assume j: "j < n"
    then have "take 512 (drop (512 * j) (take (512 * n) bs)) = take 512 (drop (512 * j) bs)"
      by (simp add: drop_take min_absorb1)
    then show "h m (lba + j) = take 512 (drop (512 * j) (take (512 * n) bs))" using Suc.prems j by simp
  qed
  moreover have "platter h m (lba + n) = drop (512 * n) bs"
    using Suc.prems by (simp add: platter_def)
  ultimately show ?case by simp
qed simp

lemma demo_rw10_exact: "rw10_exact (demo_hw nblk) platter"
proof -
  have 1: "length buf' = length buf \<and> wire u' = wire u
      \<and> (st = 0 \<and> cdb ! 0 = 0x28 \<and> unat len = 512 * cdb_count cdb \<longrightarrow>
           buf' = sectors platter (wire u) m (cdb_lba cdb) (cdb_count cdb) @ drop (unat len) buf)"
    if "demo_bot nblk m cdb True buf len u = (st, buf', u')" for m cdb buf len u st buf' u'
  proof -
    have "length (sectors platter (wire u) m (cdb_lba cdb) (cdb_count cdb)) = 512 * cdb_count cdb"
      by (simp add: sectors_def length_concat comp_def platter_length sum_list_triv)
    then show ?thesis using that by (auto simp: demo_bot_def split: if_splits)
  qed
  have 2: "sectors platter (wire u') m (cdb_lba cdb) (cdb_count cdb) = take (unat len) buf"
    if "demo_bot nblk m cdb False buf len u = (0, buf', u')" "unat len = 512 * cdb_count cdb" "unat len \<le> length buf"
    for m cdb buf len u buf' u'
    unfolding sectors_def using that
    by (intro platter_concat) (auto simp: demo_bot_def drop_take min_absorb1)
  show ?thesis
    unfolding rw10_exact_def using 1 2 platter_length by (simp add: demo_hw_def)
qed

end
