(* ===== verification/Sector_Device.thy ===== *)
theory Sector_Device
  imports Prelude
begin

text \<open>
  The contract a filesystem relies on: a device of \<open>nsec\<close> sectors of 512 bytes, on which a range that
  fits is read and written in full, a range that does not is refused without effect, and a write
  changes exactly the sectors it names. The client's view, proved once here: after any sequence of
  accepted writes a sector reads back as the last write that covered it left it.
\<close>

definition slice :: "u8 list \<Rightarrow> nat \<Rightarrow> u8 list" where
  "slice buf j = take 512 (drop (512 * j) buf)"

type_synonym sector_write = "nat \<times> nat \<times> u8 list"

fun covers :: "nat \<Rightarrow> sector_write \<Rightarrow> bool" where
  "covers k (lba, n, buf) \<longleftrightarrow> lba \<le> k \<and> k < lba + n"

fun written :: "sector_write \<Rightarrow> nat \<Rightarrow> u8 list" where
  "written (lba, n, buf) k = slice buf (k - lba)"

fun last_write :: "sector_write list \<Rightarrow> nat \<Rightarrow> u8 list option" where
  "last_write [] k = None"
| "last_write (w # ws) k =
     (case last_write ws k of Some d \<Rightarrow> Some d | None \<Rightarrow> if covers k w then Some (written w k) else None)"

fun run_writes :: "(nat \<Rightarrow> nat \<Rightarrow> u8 list \<Rightarrow> 's \<Rightarrow> 's option) \<Rightarrow> sector_write list \<Rightarrow> 's \<Rightarrow> 's option" where
  "run_writes wr [] s = Some s"
| "run_writes wr ((lba, n, buf) # ws) s = Option.bind (wr lba n buf s) (run_writes wr ws)"

definition fits :: "nat \<Rightarrow> sector_write \<Rightarrow> bool" where
  "fits m = (\<lambda>(lba, n, buf). lba + n \<le> m \<and> 512 * n \<le> length buf)"

locale sector_device =
  fixes inv :: "'s \<Rightarrow> bool"
    and nsec :: "'s \<Rightarrow> nat"
    and rd :: "nat \<Rightarrow> 's \<Rightarrow> u8 list option"
    and wr :: "nat \<Rightarrow> nat \<Rightarrow> u8 list \<Rightarrow> 's \<Rightarrow> 's option"
  assumes rd_fits: "inv s \<Longrightarrow> k < nsec s \<Longrightarrow> \<exists>d. rd k s = Some d \<and> length d = 512"
    and rd_refuses: "inv s \<Longrightarrow> nsec s \<le> k \<Longrightarrow> rd k s = None"
    and wr_fits: "inv s \<Longrightarrow> lba + n \<le> nsec s \<Longrightarrow> 512 * n \<le> length buf \<Longrightarrow>
        \<exists>s'. wr lba n buf s = Some s' \<and> inv s' \<and> nsec s' = nsec s
          \<and> (\<forall>k < nsec s. rd k s' = (if covers k (lba, n, buf) then Some (slice buf (k - lba)) else rd k s))"
    and wr_refuses: "inv s \<Longrightarrow> nsec s < lba + n \<Longrightarrow> wr lba n buf s = None"
begin

lemma run_writes_last:
  assumes "inv s" and "list_all (fits (nsec s)) ws"
  shows "\<exists>s'. run_writes wr ws s = Some s' \<and> inv s' \<and> nsec s' = nsec s
     \<and> (\<forall>k < nsec s. rd k s' = (case last_write ws k of Some d \<Rightarrow> Some d | None \<Rightarrow> rd k s))"
  using assms
proof (induction ws arbitrary: s)
  case (Cons w ws)
  obtain lba n buf where w: "w = (lba, n, buf)" by (cases w)
  have f: "lba + n \<le> nsec s" "512 * n \<le> length buf" using Cons.prems(2) by (simp_all add: w fits_def)
  obtain s1 where s1: "wr lba n buf s = Some s1" "inv s1" "nsec s1 = nsec s"
      "\<forall>k < nsec s. rd k s1 = (if covers k (lba, n, buf) then Some (slice buf (k - lba)) else rd k s)"
    using wr_fits [OF Cons.prems(1) f] by blast
  obtain s2 where s2: "run_writes wr ws s1 = Some s2" "inv s2" "nsec s2 = nsec s1"
      "\<forall>k < nsec s1. rd k s2 = (case last_write ws k of Some d \<Rightarrow> Some d | None \<Rightarrow> rd k s1)"
    using Cons.IH [of s1] Cons.prems(2) s1(2,3) by auto
  have "run_writes wr (w # ws) s = Some s2" using s1(1) s2(1) by (simp add: w)
  moreover have "\<forall>k < nsec s. rd k s2 = (case last_write (w # ws) k of Some d \<Rightarrow> Some d | None \<Rightarrow> rd k s)"
    using s1(3,4) s2(4) by (auto simp: w split: option.splits)
  ultimately show ?case using s1(3) s2(2,3) by auto
qed simp

end

end
