(* ===== verification/Blkdev.thy ===== *)
theory Blkdev
  imports Pmm Usb_Disk Sector_Device
begin

text \<open>
  The block device the root filesystem sits on, \<^verbatim>\<open>kernel/drivers/blkdev.c\<close>: a virtio disk, the
  partition of the boot stick found by its filesystem's UUID, or a RAM disk from a boot module, which
  is moved out of the program window. The state is the file's variables, the USB state and the
  physical memory. The progress messages (\<^verbatim>\<open>kprintf\<close>) are left out.
\<close>

subsection \<open>State\<close>

datatype backend_kind = BACKEND_NONE | BACKEND_VIRTIO | BACKEND_RAM | BACKEND_STICK

record 'h blk =
  backend :: backend_kind
  ram_base :: u64
  ram_sectors :: u64
  stick_dev :: int
  stick_first :: u64
  stick_sectors :: u64
  sec :: "u8 list"
  busb :: "'h usb"
  bframes :: pmm

subsection \<open>Boot modules\<close>

text \<open>C strings in raw memory: the walk of \<open>name_eq\<close>, against a name given as its bytes.\<close>

fun name_eq :: "(u64 \<Rightarrow> u8) \<Rightarrow> u64 \<Rightarrow> u8 list \<Rightarrow> bool" where
  "name_eq m a [] = (m a = 0)"
| "name_eq m a (c # cs) = (if m a = 0 then m a = c else if m a \<noteq> c then False else name_eq m (a + 1) cs)"

partial_function (option) find_in_tags :: "(u64 \<Rightarrow> u8) \<Rightarrow> u8 list \<Rightarrow> u64 \<Rightarrow> (u64 \<times> u64) option option" where
  "find_in_tags m name t =
     (if rd32 m t = MULTIBOOT2_TAG_TYPE_END then Some None
      else if rd32 m t = MULTIBOOT2_TAG_TYPE_MODULE \<and> name_eq m (t + 16) name
      then Some (Some (ucast (rd32 m (t + 8)), ucast (rd32 m (t + 12)) - ucast (rd32 m (t + 8))))
      else find_in_tags m name (t + ucast ((rd32 m (t + 4) + 7) AND NOT 7)))"

definition find_module :: "(u64 \<Rightarrow> u8) \<Rightarrow> u32 \<Rightarrow> u8 list \<Rightarrow> (u64 \<times> u64) option option" where
  "find_module m multiboot_addr name = find_in_tags m name (ucast multiboot_addr + 8)"

partial_function (option) release_from :: "u64 \<Rightarrow> u64 \<Rightarrow> pmm \<Rightarrow> pmm option" where
  "release_from a hi s =
     (if a + 4096 \<le> hi
      then release_from (a + 4096) hi
             (if a < USER_VIRT_BASE \<or> a \<ge> USER_VIRT_END then pmm_free_frame a s else s)
      else Some s)"

definition release :: "u64 \<Rightarrow> u64 \<Rightarrow> pmm \<Rightarrow> pmm option" where
  "release lo hi s = release_from ((lo + 4095) AND NOT 0xFFF) hi s"

text \<open>Copying, as the code does it: 64-bit words first, then the last bytes.\<close>

definition copy_word :: "u64 \<Rightarrow> u64 \<Rightarrow> nat \<Rightarrow> (u64 \<Rightarrow> u8) \<Rightarrow> u64 \<Rightarrow> u8" where
  "copy_word dst src i r =
     (let d = dst + 8 * of_nat i; s = src + 8 * of_nat i
      in (\<lambda>a. if a - d < 8 then r (s + (a - d)) else r a))"

definition copy_byte :: "u64 \<Rightarrow> u64 \<Rightarrow> nat \<Rightarrow> (u64 \<Rightarrow> u8) \<Rightarrow> u64 \<Rightarrow> u8" where
  "copy_byte dst src i r = r(dst + of_nat i := r (src + of_nat i))"

definition copy_module :: "u64 \<Rightarrow> u64 \<Rightarrow> u64 \<Rightarrow> (u64 \<Rightarrow> u8) \<Rightarrow> u64 \<Rightarrow> u8" where
  "copy_module dst src sz r =
     fold (copy_byte dst src) [unat (sz AND NOT 7)..<unat sz]
       (fold (copy_word dst src) [0..<unat (sz div 8)] r)"

definition settle :: "u64 \<Rightarrow> u64 \<Rightarrow> pmm \<Rightarrow> (u64 \<times> pmm) option" where
  "settle lo sz s =
     (let hi = lo + sz in
      if hi \<le> USER_VIRT_BASE \<or> lo \<ge> USER_VIRT_END then Some (lo, s)
      else let frames = (sz + 4095) div 4096 in
        case pmm_alloc_contig frames s of
          (to, s1) \<Rightarrow>
            if to = 0 then Some (0, s1)
            else map_option (Pair to) (release lo hi (s1\<lparr>ram := copy_module to lo sz (ram s1)\<rparr>)))"

subsection \<open>The boot stick\<close>

definition hexval :: "u8 \<Rightarrow> int" where
  "hexval c =
     (if c \<ge> 0x30 \<and> c \<le> 0x39 then uint c - 0x30
      else if c \<ge> 0x61 \<and> c \<le> 0x66 then uint c - 0x61 + 10
      else if c \<ge> 0x41 \<and> c \<le> 0x46 then uint c - 0x41 + 10
      else -1)"

fun parse_uuid_from :: "u8 list \<Rightarrow> nat \<Rightarrow> u8 list \<Rightarrow> nat \<times> u8 list" where
  "parse_uuid_from [] n out = (n, out)"
| "parse_uuid_from (c # cs) n out =
     (if n < 32 then
        if c = 0x2D then parse_uuid_from cs n out
        else let v = hexval c in
          if v < 0 then (n, out)
          else parse_uuid_from cs (n + 1)
                 (if odd n then out[n div 2 := out ! (n div 2) OR word_of_int v]
                  else out[n div 2 := word_of_int (v * 16)])
      else (n, out))"

definition parse_uuid :: "u8 list \<Rightarrow> u8 list \<Rightarrow> bool \<times> u8 list" where
  "parse_uuid s out = (case parse_uuid_from s 0 out of (n, out') \<Rightarrow> (n = 32, out'))"

definition ext2_with_uuid :: "'h hw \<Rightarrow> int \<Rightarrow> u64 \<Rightarrow> u8 list \<Rightarrow> 'h blk \<Rightarrow> bool \<times> 'h blk" where
  "ext2_with_uuid hw dev first want b =
     (case usb_disk_read hw dev (ucast (first + 2)) 2 (sec b) (busb b) of
        (ok, s, u) \<Rightarrow>
          let b1 = b\<lparr>sec := s, busb := u\<rparr> in
          (ok \<and> s ! 56 = 0x53 \<and> s ! 57 = 0xEF \<and> (\<forall>i \<in> set [0..<16]. s ! (104 + i) = want ! i), b1))"

definition take_part :: "'h hw \<Rightarrow> int \<Rightarrow> u64 \<Rightarrow> u64 \<Rightarrow> u32 \<Rightarrow> u8 list \<Rightarrow> 'h blk \<Rightarrow> bool \<times> 'h blk" where
  "take_part hw dev first count disk_blocks want b =
     (if first = 0 \<or> count = 0 \<or> first + count > ucast disk_blocks then (False, b)
      else case ext2_with_uuid hw dev first want b of
             (ok, b1) \<Rightarrow>
               if \<not> ok then (False, b1)
               else (True, b1\<lparr>stick_dev := dev, stick_first := first, stick_sectors := count\<rparr>))"

text \<open>The four MBR entries: (is it the GPT's protective entry, first sector, count).\<close>

definition mbr_entry :: "u8 list \<Rightarrow> nat \<Rightarrow> bool \<times> u64 \<times> u64" where
  "mbr_entry s i =
     (let e = 446 + 16 * i in
      if s ! (e + 4) = 0xEE then (True, 0, 0)
      else if s ! (e + 4) \<noteq> 0 then (False, ucast (le32 s (e + 8)), ucast (le32 s (e + 12)))
      else (False, 0, 0))"

fun take_any :: "'h hw \<Rightarrow> int \<Rightarrow> (u64 \<times> u64) list \<Rightarrow> u32 \<Rightarrow> u8 list \<Rightarrow> 'h blk \<Rightarrow> bool \<times> 'h blk" where
  "take_any hw dev [] blocks want b = (False, b)"
| "take_any hw dev ((f, n) # ps) blocks want b =
     (case take_part hw dev f n blocks want b of
        (ok, b1) \<Rightarrow> if ok then (True, b1) else take_any hw dev ps blocks want b1)"

text \<open>
  The GPT entries from index \<open>i\<close>, \<open>k\<close> of them left. An entry is looked for in the sector just read,
  at \<^verbatim>\<open>at % 512\<close> of the 1 KiB buffer.
\<close>

fun gpt_entries :: "'h hw \<Rightarrow> int \<Rightarrow> u64 \<Rightarrow> u32 \<Rightarrow> u32 \<Rightarrow> nat \<Rightarrow> u32 \<Rightarrow> u8 list \<Rightarrow> 'h blk \<Rightarrow> bool \<times> 'h blk" where
  "gpt_entries hw dev tbl esize i 0 blocks want b = (False, b)"
| "gpt_entries hw dev tbl esize i (Suc k) blocks want b =
     (let at = ucast i * ucast esize :: u64 in
      case usb_disk_read hw dev (ucast (tbl + at div 512)) 1 (sec b) (busb b) of
        (ok, s, u) \<Rightarrow>
          let b1 = b\<lparr>sec := s, busb := u\<rparr>; e = unat (at mod 512) in
          if \<not> ok then (False, b1)
          else if (\<forall>j \<in> set [0..<16]. s ! (e + j) = 0) then gpt_entries hw dev tbl esize (i + 1) k blocks want b1
          else let first = le64 s (e + 32); last = le64 s (e + 40) in
            if last < first then gpt_entries hw dev tbl esize (i + 1) k blocks want b1
            else case take_part hw dev first (last - first + 1) blocks want b1 of
                   (got, b2) \<Rightarrow> if got then (True, b2)
                               else gpt_entries hw dev tbl esize (i + 1) k blocks want b2)"

definition try_gpt :: "'h hw \<Rightarrow> int \<Rightarrow> u32 \<Rightarrow> u8 list \<Rightarrow> 'h blk \<Rightarrow> bool \<times> 'h blk" where
  "try_gpt hw dev blocks want b =
     (case usb_disk_read hw dev 1 1 (sec b) (busb b) of
        (ok, s, u) \<Rightarrow>
          let b1 = b\<lparr>sec := s, busb := u\<rparr> in
          if \<not> ok \<or> le64 s 0 \<noteq> 0x5452415020494645 then (False, b1)
          else let tbl = le64 s 72; entries = le32 s 80; esize = le32 s 84 in
            if esize < 128 \<or> esize > 512 \<or> entries > 256 then (False, b1)
            else gpt_entries hw dev tbl esize 0 (unat entries) blocks want b1)"

definition try_disk :: "'h hw \<Rightarrow> int \<Rightarrow> u8 list \<Rightarrow> 'h blk \<Rightarrow> bool \<times> 'h blk" where
  "try_disk hw dev want b =
     (case usb_disk_capacity hw dev (busb b) of
        (None, u) \<Rightarrow> (False, b\<lparr>busb := u\<rparr>)
      | (Some (blocks, bs), u) \<Rightarrow>
          if bs \<noteq> 512 then (False, b\<lparr>busb := u\<rparr>)
          else case usb_disk_read hw dev 0 1 (sec b) u of
            (ok, s, u1) \<Rightarrow>
              let b1 = b\<lparr>sec := s, busb := u1\<rparr> in
              if \<not> ok \<or> s ! 510 \<noteq> 0x55 \<or> s ! 511 \<noteq> 0xAA then (False, b1)
              else let es = map (mbr_entry s) [0..<4] in
                case take_any hw dev (map snd es) blocks want b1 of
                  (got, b2) \<Rightarrow>
                    if got then (True, b2)
                    else if \<not> list_ex fst es then (False, b2)
                    else try_gpt hw dev blocks want b2)"

text \<open>The loop over the disks re-reads \<^verbatim>\<open>usb_disk_count()\<close> before every turn.\<close>

function find_stick_from :: "'h hw \<Rightarrow> int \<Rightarrow> u8 list \<Rightarrow> 'h blk \<Rightarrow> bool \<times> 'h blk" where
  "find_stick_from hw dev want b =
     (if dev < usb_disk_count (busb b)
      then case try_disk hw dev want b of
             (got, b1) \<Rightarrow> if got then (True, b1) else find_stick_from hw (dev + 1) want b1
      else (False, b))"
  by pat_completeness auto
termination
  by (relation "measure (\<lambda>(hw, dev, want, b). nat (int MAX_MSC - dev))")
     (auto intro: less_le_trans [OF _ usb_disk_count_le])

declare find_stick_from.simps [simp del]

definition find_stick :: "'h hw \<Rightarrow> u8 list \<Rightarrow> 'h blk \<Rightarrow> bool \<times> 'h blk" where
  "find_stick hw want b = find_stick_from hw 0 want b"

subsection \<open>Choosing\<close>

definition DISK_NAME :: "u8 list" where "DISK_NAME = [0x64, 0x69, 0x73, 0x6B]"
definition DISKID_NAME :: "u8 list" where "DISKID_NAME = [0x64, 0x69, 0x73, 0x6B, 0x69, 0x64]"

definition release_module :: "(u64 \<times> u64) option \<Rightarrow> 'h blk \<Rightarrow> 'h blk option" where
  "release_module md b =
     (case md of
        Some (base, sz) \<Rightarrow> map_option (\<lambda>s. b\<lparr>bframes := s\<rparr>) (release base (base + sz) (bframes b))
      | None \<Rightarrow> Some b)"

definition use_ram_disk :: "(u64 \<times> u64) option \<Rightarrow> 'h blk \<Rightarrow> (bool \<times> 'h blk) option" where
  "use_ram_disk md b =
     (case md of
        None \<Rightarrow> Some (False, b)
      | Some (base, sz) \<Rightarrow>
          map_option (\<lambda>(base', s).
            if base' = 0 then (False, b\<lparr>bframes := s\<rparr>)
            else (True, b\<lparr>bframes := s, ram_base := base', ram_sectors := sz div 512, backend := BACKEND_RAM\<rparr>))
            (settle base sz (bframes b)))"

definition find_by_uuid :: "'h hw \<Rightarrow> (u64 \<times> u64) option \<Rightarrow> (u64 \<Rightarrow> u8) \<Rightarrow> 'h blk \<Rightarrow> bool \<times> 'h blk" where
  "find_by_uuid hw idm m b =
     (case idm of
        None \<Rightarrow> (False, b)
      | Some (idtext, idlen) \<Rightarrow>
          (case parse_uuid (map (\<lambda>i. m (idtext + of_nat i)) [0..<unat idlen]) (replicate 16 0) of
             (ok, uuid) \<Rightarrow> if ok then find_stick hw uuid b else (False, b)))"

definition blkdev_init :: "'h hw \<Rightarrow> u32 \<Rightarrow> 'h blk \<Rightarrow> (bool \<times> 'h blk) option" where
  "blkdev_init hw multiboot_addr b =
     (let m = ram (bframes b) in
      Option.bind (find_module m multiboot_addr DISK_NAME) (\<lambda>dm.
      Option.bind (find_module m multiboot_addr DISKID_NAME) (\<lambda>idm.
        let md = (case dm of Some (base, sz) \<Rightarrow> if sz \<ge> 1024 then dm else None | None \<Rightarrow> None) in
        case virtio_blk_init hw (busb b) of
          (vok, u) \<Rightarrow>
            let b1 = b\<lparr>busb := u\<rparr> in
            if vok then map_option (Pair True) (release_module md (b1\<lparr>backend := BACKEND_VIRTIO\<rparr>))
            else case find_by_uuid hw idm m b1 of
              (got, b2) \<Rightarrow>
                if got then map_option (Pair True) (release_module md (b2\<lparr>backend := BACKEND_STICK\<rparr>))
                else use_ram_disk md b2)))"

definition blkdev_backend :: "'h blk \<Rightarrow> backend_kind" where
  "blkdev_backend b = backend b"

definition blkdev_usb_dev :: "'h blk \<Rightarrow> int" where
  "blkdev_usb_dev b = (if backend b = BACKEND_STICK then stick_dev b else -1)"

subsection \<open>Reading and writing sectors\<close>

text \<open>
  The RAM disk copies \<^verbatim>\<open>count * 64\<close> words, a 32-bit product; a buffer is its bytes.
\<close>

definition ram_fetch :: "(u64 \<Rightarrow> u8) \<Rightarrow> u64 \<Rightarrow> nat \<Rightarrow> u8 list" where
  "ram_fetch r p n = map (\<lambda>i. r (p + of_nat i)) [0..<n]"

definition ram_store :: "(u64 \<Rightarrow> u8) \<Rightarrow> u64 \<Rightarrow> u8 list \<Rightarrow> u64 \<Rightarrow> u8" where
  "ram_store r p bs = (\<lambda>a. if unat (a - p) < length bs then bs ! unat (a - p) else r a)"

definition blkdev_read_sectors :: "'h hw \<Rightarrow> u64 \<Rightarrow> u32 \<Rightarrow> u8 list \<Rightarrow> 'h blk \<Rightarrow> bool \<times> u8 list \<times> 'h blk" where
  "blkdev_read_sectors hw lba count buf b =
     (case backend b of
        BACKEND_VIRTIO \<Rightarrow>
          (case virtio_blk_read_sectors hw lba count buf (busb b) of (ok, buf', u) \<Rightarrow> (ok, buf', b\<lparr>busb := u\<rparr>))
      | BACKEND_STICK \<Rightarrow>
          if lba + ucast count > stick_sectors b then (False, buf, b)
          else (case usb_disk_read hw (stick_dev b) (ucast (stick_first b + lba)) count buf (busb b) of
                  (ok, buf', u) \<Rightarrow> (ok, buf', b\<lparr>busb := u\<rparr>))
      | BACKEND_RAM \<Rightarrow>
          if lba + ucast count > ram_sectors b then (False, buf, b)
          else let n = 8 * unat (count * 64) in
            (True, ram_fetch (ram (bframes b)) (ram_base b + lba * 512) n @ drop n buf, b)
      | BACKEND_NONE \<Rightarrow> (False, buf, b))"

definition blkdev_write_sectors :: "'h hw \<Rightarrow> u64 \<Rightarrow> u32 \<Rightarrow> u8 list \<Rightarrow> 'h blk \<Rightarrow> bool \<times> 'h blk" where
  "blkdev_write_sectors hw lba count buf b =
     (case backend b of
        BACKEND_VIRTIO \<Rightarrow>
          (case virtio_blk_write_sectors hw lba count buf (busb b) of (ok, u) \<Rightarrow> (ok, b\<lparr>busb := u\<rparr>))
      | BACKEND_STICK \<Rightarrow>
          if lba + ucast count > stick_sectors b then (False, b)
          else (case usb_disk_write hw (stick_dev b) (ucast (stick_first b + lba)) count buf (busb b) of
                  (ok, u) \<Rightarrow> (ok, b\<lparr>busb := u\<rparr>))
      | BACKEND_RAM \<Rightarrow>
          if lba + ucast count > ram_sectors b then (False, b)
          else let n = 8 * unat (count * 64) in
            (True, b\<lparr>bframes := (bframes b)\<lparr>ram := ram_store (ram (bframes b)) (ram_base b + lba * 512) (take n buf)\<rparr>\<rparr>)
      | BACKEND_NONE \<Rightarrow> (False, b))"

definition blkdev_read_sector :: "'h hw \<Rightarrow> u64 \<Rightarrow> u8 list \<Rightarrow> 'h blk \<Rightarrow> bool \<times> u8 list \<times> 'h blk" where
  "blkdev_read_sector hw lba buf b = blkdev_read_sectors hw lba 1 buf b"

definition blkdev_write_sector :: "'h hw \<Rightarrow> u64 \<Rightarrow> u8 list \<Rightarrow> 'h blk \<Rightarrow> bool \<times> 'h blk" where
  "blkdev_write_sector hw lba buf b = blkdev_write_sectors hw lba 1 buf b"

subsection \<open>What the search for the stick leaves\<close>

text \<open>
  The partition record after a successful search: \<open>sec\<close> still holds the superblock that was accepted.
\<close>

definition stick_found :: "u8 list \<Rightarrow> 'h blk \<Rightarrow> bool" where
  "stick_found want b \<longleftrightarrow> stick_first b \<noteq> 0 \<and> stick_sectors b \<noteq> 0
     \<and> stick_first b + stick_sectors b \<le> 0xFFFFFFFF
     \<and> sec b ! 56 = 0x53 \<and> sec b ! 57 = 0xEF \<and> (\<forall>i<16. sec b ! (104 + i) = want ! i)"

definition same_choice :: "'h blk \<Rightarrow> 'h blk \<Rightarrow> bool" where
  "same_choice b b' \<longleftrightarrow> backend b' = backend b \<and> bframes b' = bframes b \<and> ram_base b' = ram_base b
     \<and> ram_sectors b' = ram_sectors b"

lemma same_choice_trans: "same_choice a b \<Longrightarrow> same_choice b c \<Longrightarrow> same_choice a c"
  by (simp add: same_choice_def)

lemma same_choice_refl [simp]: "same_choice b b"
  by (simp add: same_choice_def)

lemma u32_le_u64: "(x :: u64) \<le> ucast (y :: u32) \<Longrightarrow> x \<le> 0xFFFFFFFF"
  using unat_u32_bound [of y] by (simp add: word_le_nat_alt)

lemma take_part_found:
  assumes "take_part hw dev first count blocks want b = (got, b')"
  shows "same_choice b b' \<and> (got \<longrightarrow> stick_found want b' \<and> stick_dev b' = dev)"
  using assms u32_le_u64 [of "first + count" blocks]
  by (auto simp: take_part_def ext2_with_uuid_def stick_found_def same_choice_def Let_def not_less
      split: if_splits prod.splits)

lemma take_any_found:
  assumes "take_any hw dev ps blocks want b = (got, b')"
  shows "same_choice b b' \<and> (got \<longrightarrow> stick_found want b' \<and> stick_dev b' = dev)"
  using assms
proof (induction ps arbitrary: b)
  case (Cons p ps)
  obtain f n where p: "p = (f, n)" by (cases p)
  obtain ok b1 where t: "take_part hw dev f n blocks want b = (ok, b1)" by (metis surj_pair)
  show ?case using Cons.prems Cons.IH [of b1] take_part_found [OF t]
    by (cases ok) (auto simp: p t intro: same_choice_trans)
qed simp

lemma gpt_entries_found:
  assumes "gpt_entries hw dev tbl esize i k blocks want b = (got, b')"
  shows "same_choice b b' \<and> (got \<longrightarrow> stick_found want b' \<and> stick_dev b' = dev)"
  using assms
proof (induction k arbitrary: i b)
  case (Suc k)
  define at :: u64 where "at = ucast i * ucast esize"
  obtain ok s u where r: "usb_disk_read hw dev (ucast (tbl + at div 512)) 1 (sec b) (busb b) = (ok, s, u)"
    by (metis surj_pair)
  define b1 where "b1 = b\<lparr>sec := s, busb := u\<rparr>"
  have b1: "same_choice b b1" by (simp add: b1_def same_choice_def)
  define first where "first = le64 s (unat (at mod 512) + 32)"
  define last where "last = le64 s (unat (at mod 512) + 40)"
  obtain g b2 where t: "take_part hw dev first (last - first + 1) blocks want b1 = (g, b2)" by (metis surj_pair)
  have step: "gpt_entries hw dev tbl esize i (Suc k) blocks want b =
      (if \<not> ok then (False, b1)
       else if \<forall>j \<in> set [0..<16]. s ! (unat (at mod 512) + j) = 0 then gpt_entries hw dev tbl esize (i + 1) k blocks want b1
       else if last < first then gpt_entries hw dev tbl esize (i + 1) k blocks want b1
       else if g then (True, b2) else gpt_entries hw dev tbl esize (i + 1) k blocks want b2)"
    by (simp add: Let_def at_def [symmetric] r b1_def [symmetric] first_def [symmetric] last_def [symmetric] t
        del: set_upt)
  have "same_choice b b2" using take_part_found [OF t] b1 same_choice_trans by blast
  then show ?case
    using Suc.prems Suc.IH [of "i + 1" b1] Suc.IH [of "i + 1" b2] b1 take_part_found [OF t] unfolding step
    by (auto split: if_splits intro: same_choice_trans simp del: set_upt)
qed simp

lemma try_gpt_found:
  assumes "try_gpt hw dev blocks want b = (got, b')"
  shows "same_choice b b' \<and> (got \<longrightarrow> stick_found want b' \<and> stick_dev b' = dev)"
  using assms
  by (auto simp: try_gpt_def Let_def split: prod.splits if_splits dest!: gpt_entries_found)
     (simp_all add: same_choice_def)

lemma try_disk_found:
  assumes "try_disk hw dev want b = (got, b')"
  shows "same_choice b b' \<and> (got \<longrightarrow> stick_found want b' \<and> stick_dev b' = dev)"
proof -
  obtain c u where cap: "usb_disk_capacity hw dev (busb b) = (c, u)" by (metis surj_pair)
  show ?thesis
  proof (cases c)
    case None
    then show ?thesis using assms cap by (auto simp: try_disk_def same_choice_def)
  next
    case (Some q)
    obtain blocks bs where q: "q = (blocks, bs)" by (cases q)
    obtain ok s u1 where r: "usb_disk_read hw dev 0 1 (sec b) u = (ok, s, u1)" by (metis surj_pair)
    define b1 where "b1 = b\<lparr>sec := s, busb := u1\<rparr>"
    have b1: "same_choice b b1" by (simp add: b1_def same_choice_def)
    obtain g b2 where t: "take_any hw dev (map snd (map (mbr_entry s) [0..<4])) blocks want b1 = (g, b2)"
      by (metis surj_pair)
    have "same_choice b b2" using take_any_found [OF t] b1 same_choice_trans by blast
    moreover have "same_choice b b'" if "try_gpt hw dev blocks want b2 = (got, b')"
      using try_gpt_found [OF that] \<open>same_choice b b2\<close> same_choice_trans by blast
    ultimately show ?thesis
      using assms b1 take_any_found [OF t] try_gpt_found [of hw dev blocks want b2 got b']
      by (auto simp: try_disk_def cap Some q r Let_def b1_def [symmetric] t [simplified] same_choice_def [of b "b\<lparr>busb := u\<rparr>"]
          split: if_splits)
  qed
qed

lemma find_stick_from_found:
  "find_stick_from hw dev want b = (got, b') \<Longrightarrow> same_choice b b' \<and> (got \<longrightarrow> stick_found want b')"
proof (induction hw dev want b arbitrary: b' got rule: find_stick_from.induct)
  case (1 hw dev want b)
  note IH = "1.IH" and res = "1.prems"
  obtain g b1 where t: "try_disk hw dev want b = (g, b1)" by (metis surj_pair)
  consider (stop) "\<not> dev < usb_disk_count (busb b)" | (hit) "dev < usb_disk_count (busb b)" "g"
    | (more) "dev < usb_disk_count (busb b)" "\<not> g" by blast
  then show ?case
  proof cases
    case stop
    then show ?thesis using res by (simp add: find_stick_from.simps [of hw dev])
  next
    case hit
    then show ?thesis using res t try_disk_found [OF t] by (simp add: find_stick_from.simps [of hw dev])
  next
    case more
    then have "find_stick_from hw (dev + 1) want b1 = (got, b')"
      using res t by (simp add: find_stick_from.simps [of hw dev])
    then have "same_choice b1 b' \<and> (got \<longrightarrow> stick_found want b')"
      using IH [OF more(1) t [symmetric] more(2)] by blast
    then show ?thesis using try_disk_found [OF t] same_choice_trans by blast
  qed
qed

text \<open>
  What the medium holds where the superblock of the chosen partition is: the second KiB of the partition, read by the 32-bit address of its
  third sector.
\<close>

definition superblock :: "('h \<Rightarrow> nat \<Rightarrow> nat \<Rightarrow> u8 list) \<Rightarrow> 'h blk \<Rightarrow> u8 list" where
  "superblock media b = sectors media (wire (busb b)) (nat (stick_dev b)) ((unat (stick_first b) + 2) mod 2 ^ 32) 2"

definition super_found :: "('h \<Rightarrow> nat \<Rightarrow> nat \<Rightarrow> u8 list) \<Rightarrow> u8 list \<Rightarrow> 'h blk \<Rightarrow> bool" where
  "super_found media want b \<longleftrightarrow> 0 \<le> stick_dev b \<and> superblock media b ! 56 = 0x53 \<and> superblock media b ! 57 = 0xEF
     \<and> (\<forall>i<16. superblock media b ! (104 + i) = want ! i)"

definition sized :: "int \<Rightarrow> 'h blk \<Rightarrow> bool" where
  "sized dev b \<longleftrightarrow> length (mscs (busb b)) = MAX_MSC \<and> nat dev < MAX_MSC \<and> mbsize (mscs (busb b) ! nat dev) = 512"

lemma sized_same:
  assumes "sized dev b" and "map mbsize (mscs (busb b')) = map mbsize (mscs (busb b))"
  shows "sized dev b'"
proof -
  have "length (mscs (busb b')) = MAX_MSC" using assms by (metis length_map sized_def)
  moreover have "mbsize (mscs (busb b') ! nat dev) = mbsize (mscs (busb b) ! nat dev)"
    using assms calculation by (metis nth_map sized_def)
  ultimately show ?thesis using assms(1) by (simp add: sized_def)
qed

lemma super_address: "unat (ucast (first + 2 :: u64) :: u32) = (unat first + 2) mod 2 ^ 32"
proof -
  have "unat (first + 2) = (unat first + 2) mod 2 ^ 64" by (simp add: unat_word_ariths)
  then show ?thesis by (simp add: unsigned_ucast_eq take_bit_eq_mod mod_mod_cancel)
qed

lemma take_part_super:
  assumes hw: "rw10_exact hw media" "keeps_table hw" and b: "sized dev b" and t: "take_part hw dev first count blocks want b = (got, b')"
  shows "sized dev b' \<and> (got \<longrightarrow> super_found media want b')"
proof -
  obtain ok s u where r: "usb_disk_read hw dev (ucast (first + 2)) 2 (sec b) (busb b) = (ok, s, u)" by (metis surj_pair)
  have "map mbsize (mscs u) = map mbsize (mscs (busb b))" by (rule usb_read_sizes [OF hw(2) r])
  then have sz: "sized dev b1" if "busb b1 = u" for b1 :: "'a blk" using sized_same [OF b, of b1] that by simp
  have "super_found media want b'" if got
  proof -
    have ok: ok "busb b' = u" "stick_dev b' = dev" "stick_first b' = first"
      "s ! 56 = 0x53" "s ! 57 = 0xEF" "\<And>i. i < 16 \<Longrightarrow> s ! (104 + i) = want ! i"
      using t that r by (auto simp: take_part_def ext2_with_uuid_def Let_def split: if_splits)
    obtain m where m: "dev = int m" using r ok(1) by (auto simp: usb_disk_read_def dest: disk_index split: option.splits)
    have "s = sectors media (wire (busb b)) m ((unat first + 2) mod 2 ^ 32) 2 @ drop 1024 (sec b)"
      using usb_read_exact [OF hw(1), of m "ucast (first + 2)" 2 "sec b" "busb b" s u] r ok(1) b m super_address [of first]
      by (simp add: sized_def)
    moreover have "superblock media b' = sectors media (wire (busb b)) m ((unat first + 2) mod 2 ^ 32) 2"
      using usb_read_media(1) [OF hw(1) r] ok(2-4) m by (auto simp: superblock_def intro: sectors_cong)
    moreover have "length (superblock media b') = 1024" using sectors_length [OF hw(1)] by (simp add: superblock_def)
    ultimately have "s ! k = superblock media b' ! k" if "k < 1024" for k using that by (simp add: nth_append)
    then show ?thesis using ok m by (simp add: super_found_def)
  qed
  moreover have "sized dev b'" using t r b sz
    by (auto simp: take_part_def ext2_with_uuid_def Let_def split: if_splits)
  ultimately show ?thesis by blast
qed

lemma take_any_super:
  assumes hw: "rw10_exact hw media" "keeps_table hw"
  shows "sized dev b \<Longrightarrow> take_any hw dev ps blocks want b = (got, b') \<Longrightarrow> sized dev b' \<and> (got \<longrightarrow> super_found media want b')"
proof (induction ps arbitrary: b)
  case (Cons p ps)
  obtain f n where p: "p = (f, n)" by (cases p)
  obtain ok b1 where t: "take_part hw dev f n blocks want b = (ok, b1)" by (metis surj_pair)
  show ?case using Cons.prems Cons.IH [of b1] take_part_super [OF hw Cons.prems(1) t] by (cases ok) (auto simp: p t)
qed simp

lemma gpt_entries_super:
  assumes hw: "rw10_exact hw media" "keeps_table hw"
  shows "sized dev b \<Longrightarrow> gpt_entries hw dev tbl esize i k blocks want b = (got, b') \<Longrightarrow> sized dev b' \<and> (got \<longrightarrow> super_found media want b')"
proof (induction k arbitrary: i b)
  case (Suc k)
  define at :: u64 where "at = ucast i * ucast esize"
  obtain ok s u where r: "usb_disk_read hw dev (ucast (tbl + at div 512)) 1 (sec b) (busb b) = (ok, s, u)"
    by (metis surj_pair)
  define b1 where "b1 = b\<lparr>sec := s, busb := u\<rparr>"
  have b1: "sized dev b1" using sized_same [OF Suc.prems(1), of b1] usb_read_sizes [OF hw(2) r] by (simp add: b1_def)
  define first where "first = le64 s (unat (at mod 512) + 32)"
  define last where "last = le64 s (unat (at mod 512) + 40)"
  obtain g b2 where t: "take_part hw dev first (last - first + 1) blocks want b1 = (g, b2)" by (metis surj_pair)
  have step: "gpt_entries hw dev tbl esize i (Suc k) blocks want b =
      (if \<not> ok then (False, b1)
       else if \<forall>j \<in> set [0..<16]. s ! (unat (at mod 512) + j) = 0 then gpt_entries hw dev tbl esize (i + 1) k blocks want b1
       else if last < first then gpt_entries hw dev tbl esize (i + 1) k blocks want b1
       else if g then (True, b2) else gpt_entries hw dev tbl esize (i + 1) k blocks want b2)"
    by (simp add: Let_def at_def [symmetric] r b1_def [symmetric] first_def [symmetric] last_def [symmetric] t
        del: set_upt)
  show ?case
    using Suc.prems Suc.IH [of b1 "i + 1"] Suc.IH [of b2 "i + 1"] b1 take_part_super [OF hw b1 t] unfolding step
    by (auto split: if_splits simp del: set_upt)
qed simp

lemma try_gpt_super:
  assumes hw: "rw10_exact hw media" "keeps_table hw" and b: "sized dev b" and t: "try_gpt hw dev blocks want b = (got, b')"
  shows "sized dev b' \<and> (got \<longrightarrow> super_found media want b')"
proof -
  obtain ok s u where r: "usb_disk_read hw dev 1 1 (sec b) (busb b) = (ok, s, u)" by (metis surj_pair)
  have "sized dev (b\<lparr>sec := s, busb := u\<rparr>)"
    using sized_same [OF b, of "b\<lparr>sec := s, busb := u\<rparr>"] usb_read_sizes [OF hw(2) r] by simp
  then show ?thesis using t gpt_entries_super [OF hw] by (auto simp: try_gpt_def r Let_def split: if_splits)
qed

lemma try_disk_super:
  assumes hw: "rw10_exact hw media" "keeps_table hw" and b: "length (mscs (busb b)) = MAX_MSC" and t: "try_disk hw dev want b = (got, b')"
  shows "length (mscs (busb b')) = MAX_MSC \<and> (got \<longrightarrow> super_found media want b')"
proof -
  obtain c u where cap: "usb_disk_capacity hw dev (busb b) = (c, u)" by (metis surj_pair)
  have l: "length (mscs u) = MAX_MSC" using capacity_size(1) [OF hw(2) cap] b by simp
  show ?thesis
  proof (cases "\<exists>blocks. c = Some (blocks, 512)")
    case False
    then show ?thesis using t cap l by (auto simp: try_disk_def split: option.splits if_splits)
  next
    case True
    then obtain blocks where c: "c = Some (blocks, 512)" by blast
    obtain ok s u1 where r: "usb_disk_read hw dev 0 1 (sec b) u = (ok, s, u1)" by (metis surj_pair)
    define b1 where "b1 = b\<lparr>sec := s, busb := u1\<rparr>"
    have "sized dev (b\<lparr>busb := u\<rparr>)" using capacity_size(2) [OF hw(2) cap c b] l by (simp add: sized_def)
    then have b1: "sized dev b1" by (rule sized_same) (simp add: b1_def usb_read_sizes [OF hw(2) r])
    obtain g b2 where a: "take_any hw dev (map snd (map (mbr_entry s) [0..<4])) blocks want b1 = (g, b2)" by (metis surj_pair)
    note a' = take_any_super [OF hw b1 a]
    have "sized dev b' \<and> (got \<longrightarrow> super_found media want b')"
      using t a' b1 try_gpt_super [OF hw conjunct1 [OF a']]
      by (auto simp: try_disk_def cap c r Let_def b1_def [symmetric] a [simplified] split: if_splits)
    then show ?thesis by (simp add: sized_def)
  qed
qed

lemma find_stick_from_super:
  assumes hw: "rw10_exact hw media" "keeps_table hw"
  shows "find_stick_from hw dev want b = (got, b') \<Longrightarrow> length (mscs (busb b)) = MAX_MSC \<Longrightarrow> got \<longrightarrow> super_found media want b'"
  using hw
proof (induction hw dev want b arbitrary: b' got rule: find_stick_from.induct)
  case (1 hw dev want b)
  obtain g b1 where t: "try_disk hw dev want b = (g, b1)" by (metis surj_pair)
  note s = try_disk_super [OF 1(4,5,3) t]
  show ?case
  proof (cases "dev < usb_disk_count (busb b) \<and> \<not> g")
    case True
    then have "find_stick_from hw (dev + 1) want b1 = (got, b')" using 1(2) t by (simp add: find_stick_from.simps [of hw dev])
    then show ?thesis using 1(1) [OF _ t [symmetric]] True s 1(4,5) by blast
  next
    case False
    then show ?thesis using 1(2) t s by (auto simp: find_stick_from.simps [of hw dev] split: if_splits)
  qed
qed

subsection \<open>Requests stay in the partition\<close>

datatype blk_op = Rd u64 u32 "u8 list" | Wr u64 u32 "u8 list"

fun blk_step :: "'h hw \<Rightarrow> blk_op \<Rightarrow> 'h blk \<Rightarrow> 'h blk" where
  "blk_step hw (Rd lba count buf) b = snd (snd (blkdev_read_sectors hw lba count buf b))"
| "blk_step hw (Wr lba count buf) b = snd (blkdev_write_sectors hw lba count buf b)"

fun no_wrap :: "blk_op \<Rightarrow> bool" where
  "no_wrap (Rd lba count buf) \<longleftrightarrow> unat lba + unat count < 2 ^ 64"
| "no_wrap (Wr lba count buf) \<longleftrightarrow> unat lba + unat count < 2 ^ 64"

text \<open>
  The partition of a stick whose end does not wrap and lies below the 2 TiB that a 32-bit block
  address reaches.
\<close>

definition stick_blocks :: "'h blk \<Rightarrow> nat set" where
  "stick_blocks b = {unat (stick_first b)..<unat (stick_first b) + unat (stick_sectors b)}"

definition stick_ok :: "'h blk \<Rightarrow> bool" where
  "stick_ok b \<longleftrightarrow> backend b = BACKEND_STICK \<and> unat (stick_first b) + unat (stick_sectors b) \<le> 2 ^ 32"

lemma blk_step_keeps:
  "backend (blk_step hw op b) = backend b" "stick_dev (blk_step hw op b) = stick_dev b"
  "stick_first (blk_step hw op b) = stick_first b" "stick_sectors (blk_step hw op b) = stick_sectors b"
  by (cases op; auto simp: blkdev_read_sectors_def blkdev_write_sectors_def Let_def
      split: backend_kind.splits prod.splits)+

lemma stick_write_step:
  assumes hw: "write_confined hw media" and b: "stick_ok b" and nw: "unat lba + unat count < 2 ^ 64"
    and w: "blkdev_write_sectors hw lba count buf b = (ok, b')"
    and ch: "media (wire (busb b')) m k \<noteq> media (wire (busb b)) m k"
  shows "int m = stick_dev b \<and> k \<in> stick_blocks b"
proof -
  have bk: "backend b = BACKEND_STICK" using b by (simp add: stick_ok_def)
  have fit: "\<not> lba + ucast count > stick_sectors b"
    using w ch bk by (auto simp: blkdev_write_sectors_def)
  obtain u where u: "usb_disk_write hw (stick_dev b) (ucast (stick_first b + lba)) count buf (busb b) = (ok, u)"
    and b': "b' = b\<lparr>busb := u\<rparr>"
    using w bk fit by (auto simp: blkdev_write_sectors_def split: prod.splits)
  have s: "unat lba + unat count \<le> unat (stick_sectors b)"
    using fit nw by (simp add: word_less_nat_alt unat_add_small)
  have sum: "unat (stick_first b) + unat lba < 2 ^ 64"
    using s b by (simp add: stick_ok_def)
  note c = usb_write_confined [OF hw u, of m k]
  have c: "stick_dev b = int m" "unat (ucast (stick_first b + lba) :: u32) \<le> k"
    "k < unat (ucast (stick_first b + lba) :: u32) + unat count mod 65536"
    using usb_write_confined [OF hw u] ch b' by simp_all
  have "0 < unat count" using c(2,3) by (cases "unat count = 0") simp_all
  then have lt: "unat (stick_first b) + unat lba < 2 ^ 32" using s b by (simp add: stick_ok_def)
  then have "unat (ucast (stick_first b + lba) :: u32) = unat (stick_first b) + unat lba"
    using sum by (simp add: unsigned_ucast_eq unat_add_small take_bit_nat_eq_self)
  then show ?thesis using c s by (auto simp: stick_blocks_def intro: less_le_trans)
qed

lemma stick_read_step:
  assumes hw: "rw10_exact hw media" and b: "stick_ok b"
  shows "media (wire (busb (blk_step hw (Rd lba count buf) b))) m k = media (wire (busb b)) m k"
  using b usb_read_media(1) [OF hw]
  by (fastforce simp: stick_ok_def blkdev_read_sectors_def split: prod.splits)

lemma stick_run_confined:
  assumes hw: "write_confined hw media" "rw10_exact hw media" and b: "stick_ok b" and ops: "list_all no_wrap ops"
    and out: "int m \<noteq> stick_dev b \<or> k \<notin> stick_blocks b"
  shows "media (wire (busb (fold (blk_step hw) ops b))) m k = media (wire (busb b)) m k"
  using b ops out
proof (induction ops arbitrary: b)
  case (Cons op ops)
  have ok: "stick_ok (blk_step hw op b)" and same: "stick_blocks (blk_step hw op b) = stick_blocks b"
    using Cons.prems(1) by (simp_all add: stick_ok_def stick_blocks_def blk_step_keeps)
  have "media (wire (busb (blk_step hw op b))) m k = media (wire (busb b)) m k"
  proof (cases op)
    case (Rd lba count buf)
    then show ?thesis using stick_read_step [OF hw(2) Cons.prems(1)] by simp
  next
    case (Wr lba count buf)
    obtain okk b' where w: "blkdev_write_sectors hw lba count buf b = (okk, b')" by (metis surj_pair)
    then show ?thesis
      using stick_write_step [OF hw(1) Cons.prems(1) _ w, of m k] Cons.prems(2,3) Wr by auto
  qed
  then show ?case
    using Cons.IH [OF ok] Cons.prems same by (simp add: blk_step_keeps)
qed simp

subsection \<open>From boot on\<close>

lemma release_module_choice:
  assumes "release_module md b = Some b'"
  shows "backend b' = backend b" "stick_dev b' = stick_dev b" "stick_first b' = stick_first b"
    "stick_sectors b' = stick_sectors b" "sec b' = sec b" "busb b' = busb b"
  using assms by (auto simp: release_module_def split: option.splits)

lemma use_ram_disk_choice: "use_ram_disk md b = Some (ok, b') \<Longrightarrow> backend b' = BACKEND_RAM \<or> backend b' = backend b"
  by (auto simp: use_ram_disk_def split: option.splits if_splits)

lemma find_by_uuid_found:
  assumes "find_by_uuid hw idm m b = (got, b')"
  shows "backend b' = backend b \<and> (got \<longrightarrow> (\<exists>p n uuid. idm = Some (p, n)
     \<and> parse_uuid (map (\<lambda>i. m (p + of_nat i)) [0..<unat n]) (replicate 16 0) = (True, uuid) \<and> stick_found uuid b'))"
  using assms
  by (auto simp: find_by_uuid_def find_stick_def same_choice_def split: option.splits prod.splits if_splits
      dest!: find_stick_from_found)

lemma blkdev_init_stick:
  assumes "blkdev_init hw addr b = Some (ok, b')" and "backend b' = BACKEND_STICK" and "backend b = BACKEND_NONE"
  shows "\<exists>p n uuid. find_module (ram (bframes b)) addr DISKID_NAME = Some (Some (p, n))
     \<and> parse_uuid (map (\<lambda>i. ram (bframes b) (p + of_nat i)) [0..<unat n]) (replicate 16 0) = (True, uuid)
     \<and> stick_found uuid b'
     \<and> (\<forall>media. rw10_exact hw media \<longrightarrow> keeps_table hw \<longrightarrow> length (mscs (snd (virtio_blk_init hw (busb b)))) = MAX_MSC \<longrightarrow>
          super_found media uuid b')"
proof -
  obtain dm where dm: "find_module (ram (bframes b)) addr DISK_NAME = Some dm"
    using assms(1) by (auto simp: blkdev_init_def Let_def bind_eq_Some_conv)
  obtain idm where idm: "find_module (ram (bframes b)) addr DISKID_NAME = Some idm"
    using assms(1) by (auto simp: blkdev_init_def Let_def bind_eq_Some_conv)
  define md where "md = (case dm of Some (base, sz) \<Rightarrow> if sz \<ge> 1024 then dm else None | None \<Rightarrow> None)"
  obtain vok u where v: "virtio_blk_init hw (busb b) = (vok, u)" by (metis surj_pair)
  obtain got b2 where f: "find_by_uuid hw idm (ram (bframes b)) (b\<lparr>busb := u\<rparr>) = (got, b2)" by (metis surj_pair)
  note f' = find_by_uuid_found [OF f]
  have step: "(if vok then map_option (Pair True) (release_module md (b\<lparr>busb := u, backend := BACKEND_VIRTIO\<rparr>))
       else if got then map_option (Pair True) (release_module md (b2\<lparr>backend := BACKEND_STICK\<rparr>))
       else use_ram_disk md b2) = Some (ok, b')"
    using assms(1) by (cases vok; cases got) (simp_all add: blkdev_init_def dm idm v f md_def Let_def)
  have "\<not> vok" using step assms(2) release_module_choice(1) by fastforce
  moreover have "got"
    using step assms(2,3) \<open>\<not> vok\<close> f' use_ram_disk_choice [of md b2 ok b'] by (cases got) auto
  ultimately have r: "release_module md (b2\<lparr>backend := BACKEND_STICK\<rparr>) = Some b'" using step by auto
  have "stick_found uuid b' = stick_found uuid b2" "super_found media uuid b' = super_found media uuid b2" for uuid media
    using release_module_choice [OF r] by (simp_all add: stick_found_def super_found_def superblock_def)
  moreover obtain p n uuid where "idm = Some (p, n)" "stick_found uuid b2"
    "parse_uuid (map (\<lambda>i. ram (bframes b) (p + of_nat i)) [0..<unat n]) (replicate 16 0) = (True, uuid)"
    "find_stick hw uuid (b\<lparr>busb := u\<rparr>) = (True, b2)"
    using f' \<open>got\<close> f by (fastforce simp: find_by_uuid_def)
  moreover have "super_found media uuid b2"
    if "rw10_exact hw media" "keeps_table hw" "length (mscs (snd (virtio_blk_init hw (busb b)))) = MAX_MSC" for media
    using find_stick_from_super [OF that(1,2)] calculation(6) that(3) v by (simp add: find_stick_def)
  ultimately show ?thesis using idm by blast
qed

subsection \<open>A machine booted from a stick\<close>

definition stick_boot_mem :: "u64 \<Rightarrow> u8" where
  "stick_boot_mem a =
     (if a = 0x10008 then 3 else if a = 0x1000C then 23
      else if a = 0x10012 then 2 else if a = 0x10014 then 0x20 else if a = 0x10016 then 2
      else if 0x10018 \<le> a \<and> a < 0x1001E then DISKID_NAME ! unat (a - 0x10018)
      else if 0x20000 \<le> a \<and> a < 0x20020 then 0x30 else 0)"

definition stick_media :: platters where
  "stick_media m k =
     (if k = 0 then (replicate 512 0)[450 := 0x83, 454 := 8, 458 := 100, 510 := 0x55, 511 := 0xAA]
      else if k = 10 then (replicate 512 0)[56 := 0x53, 57 := 0xEF] else replicate 512 0)"

definition stick_usb :: "platters usb" where
  "stick_usb = \<lparr>mscs = \<lparr>msc_used = True, msc_id = 1, mbsize = 512, mblocks = 0\<rparr> #
      replicate 7 \<lparr>msc_used = False, msc_id = 0, mbsize = 0, mblocks = 0\<rparr>, wire = stick_media\<rparr>"

definition stick_machine :: "platters blk" where
  "stick_machine = \<lparr>backend = BACKEND_NONE, ram_base = 0, ram_sectors = 0, stick_dev = -1, stick_first = 0,
      stick_sectors = 0, sec = replicate 1024 0, busb = stick_usb,
      bframes = \<lparr>bitmap = (\<lambda>_. 0), free_frames = 0, usable_frames = 0, ram = stick_boot_mem\<rparr>\<rparr>"

lemma stick_boot_rd32:
  "rd32 stick_boot_mem 0x10008 = 3" "rd32 stick_boot_mem 0x1000C = 23" "rd32 stick_boot_mem 0x10020 = 0"
  "rd32 stick_boot_mem 0x10010 = 0x20000" "rd32 stick_boot_mem 0x10014 = 0x20020"
  by code_simp+

lemma stick_boot_modules:
  "find_module stick_boot_mem 0x10000 DISK_NAME = Some None"
  "find_module stick_boot_mem 0x10000 DISKID_NAME = Some (Some (0x20000, 0x20))"
proof -
  have n: "\<not> name_eq stick_boot_mem 0x10018 DISK_NAME" "name_eq stick_boot_mem 0x10018 DISKID_NAME" by code_simp+
  then show "find_module stick_boot_mem 0x10000 DISK_NAME = Some None"
    "find_module stick_boot_mem 0x10000 DISKID_NAME = Some (Some (0x20000, 0x20))"
    by (simp_all add: find_module_def find_in_tags.simps [of _ _ "0x10008"] find_in_tags.simps [of _ _ "0x10020"]
        stick_boot_rd32 multiboot_consts)
qed

definition stick_usb2 :: "platters usb" where
  "stick_usb2 = \<lparr>mscs = \<lparr>msc_used = True, msc_id = 1, mbsize = 512, mblocks = 2000\<rparr> #
      replicate 7 \<lparr>msc_used = False, msc_id = 0, mbsize = 0, mblocks = 0\<rparr>, wire = stick_media\<rparr>"

lemma stick_usb_facts:
  "disk 0 stick_usb = Some 0" "disk 0 stick_usb2 = Some 0" "wire stick_usb2 = stick_media"
  "mbsize (mscs stick_usb2 ! 0) = 512" "usb_disk_count stick_usb = 1"
  by (simp_all add: disk_def MAX_MSC_def stick_usb_def stick_usb2_def usb_disk_count_def upt_rec)

lemma stick_capacity: "usb_disk_capacity (demo_hw 2000) 0 stick_usb = (Some (2000, 512), stick_usb2)"
proof -
  have 5: "(5::nat) = Suc 4" by simp
  have "bot_xfer (demo_hw 2000) 0 [0x25, 0, 0, 0, 0, 0, 0, 0, 0, 0] True (replicate 8 0) 8 stick_usb
      = (0, [0, 0, 7, 0xCF, 0, 0, 2, 0], stick_usb)"
    by (simp add: demo_hw_def demo_bot_def)
  then show ?thesis
    unfolding usb_disk_capacity_def stick_usb_facts option.case 5 capacity_tries.simps
    by (simp add: be32_def stick_usb_def stick_usb2_def)
qed

lemma stick_read:
  assumes "length buf = 1024" and "count = 1 \<or> count = 2"
  shows "usb_disk_read (demo_hw 2000) 0 lba count buf stick_usb2
    = (True, sectors platter stick_media 0 (unat lba) (unat count) @ drop (512 * unat count) buf, stick_usb2)"
  using assms
  by (auto simp: usb_disk_read_def stick_usb_facts demo_hw_def demo_bot_def rw10_opcode cdb_lba_rw10 cdb_count_rw10)

lemma platter_media: "platter stick_media m k = stick_media m k"
  by (simp add: platter_def stick_media_def)

lemma stick_mbr:
  "s = stick_media 0 0 @ drop 512 (replicate 1024 0) \<Longrightarrow> map (mbr_entry s) [0..<4] = [(False, 8, 100), (False, 0, 0), (False, 0, 0), (False, 0, 0)]
    \<and> s ! 510 = 0x55 \<and> s ! 511 = 0xAA \<and> length s = 1024"
  by (simp add: mbr_entry_def le32_def stick_media_def nth_append upt_rec Let_def)

definition stick_booted :: "platters blk" where
  "stick_booted = stick_machine\<lparr>sec := stick_media 0 10 @ stick_media 0 11, busb := stick_usb2, stick_dev := 0,
         stick_first := 8, stick_sectors := 100\<rparr>"

lemma stick_ext2:
  assumes "length (sec b) = 1024" and "busb b = stick_usb2"
  shows "ext2_with_uuid (demo_hw 2000) 0 8 (replicate 16 0) b =
    (True, b\<lparr>sec := stick_media 0 10 @ stick_media 0 11, busb := stick_usb2\<rparr>)"
proof -
  have "sectors platter stick_media 0 10 2 = stick_media 0 10 @ stick_media 0 11"
    by (simp add: sectors_def platter_media upt_rec)
  then have r: "usb_disk_read (demo_hw 2000) 0 10 2 (sec b) (busb b)
      = (True, stick_media 0 10 @ stick_media 0 11, stick_usb2)"
    using stick_read [OF assms(1), of 2 10] assms by simp
  have "\<forall>i \<in> set [0..<16]. (stick_media 0 10 @ stick_media 0 11) ! (104 + i) = replicate 16 0 ! i"
    by (simp add: stick_media_def nth_append)
  moreover have "(stick_media 0 10 @ stick_media 0 11) ! 56 = 0x53" "(stick_media 0 10 @ stick_media 0 11) ! 57 = 0xEF"
    by (simp_all add: stick_media_def nth_append)
  ultimately show ?thesis
    using r by (simp add: ext2_with_uuid_def Let_def del: set_upt)
qed

lemma stick_take:
  assumes "length (sec b) = 1024" and "busb b = stick_usb2"
  shows "take_part (demo_hw 2000) 0 8 100 2000 (replicate 16 0) b =
    (True, b\<lparr>sec := stick_media 0 10 @ stick_media 0 11, busb := stick_usb2, stick_dev := 0,
         stick_first := 8, stick_sectors := 100\<rparr>)"
  by (simp add: take_part_def stick_ext2 [OF assms])

lemma stick_found_there:
  "find_by_uuid (demo_hw 2000) (Some (0x20000, 0x20)) stick_boot_mem stick_machine = (True, stick_booted)"
proof -
  have u: "parse_uuid (map (\<lambda>i. stick_boot_mem (0x20000 + of_nat i)) [0..<unat (0x20 :: u64)]) (replicate 16 0)
      = (True, replicate 16 0)" by code_simp
  have r: "usb_disk_read (demo_hw 2000) 0 0 1 (sec stick_machine) stick_usb2
      = (True, stick_media 0 0 @ drop 512 (replicate 1024 0), stick_usb2)"
    using stick_read [of "replicate 1024 0" 1 0] by (simp add: stick_machine_def sectors_def platter_media)
  have b: "busb stick_machine = stick_usb" by (simp add: stick_machine_def)
  note m = stick_mbr [OF refl]
  have "try_disk (demo_hw 2000) 0 (replicate 16 0) stick_machine = (True, stick_booted)"
    unfolding try_disk_def b stick_capacity prod.case option.case r
    using m by (simp add: stick_take Let_def stick_booted_def del: drop_replicate)
  then show ?thesis
    unfolding find_by_uuid_def option.case prod.case u find_stick_def
    by (simp add: find_stick_from.simps [of _ 0] b stick_usb_facts)
qed

lemma stick_boot: "blkdev_init (demo_hw 2000) 0x10000 stick_machine = Some (True, stick_booted\<lparr>backend := BACKEND_STICK\<rparr>)"
proof -
  have "ram (bframes stick_machine) = stick_boot_mem" "stick_machine\<lparr>busb := busb stick_machine\<rparr> = stick_machine"
    "virtio_blk_init (demo_hw 2000) u = (False, u)" for u
    by (simp_all add: stick_machine_def demo_hw_def)
  then show ?thesis
    by (simp add: blkdev_init_def stick_boot_modules stick_found_there release_module_def Let_def)
qed

subsection \<open>The UUID text\<close>

definition hex_digits :: "u8 list \<Rightarrow> u8 list" where
  "hex_digits s = takeWhile (\<lambda>c. 0 \<le> hexval c) (filter (\<lambda>c. c \<noteq> 0x2D) s)"

fun put_nibbles :: "u8 list \<Rightarrow> nat \<Rightarrow> u8 list \<Rightarrow> u8 list" where
  "put_nibbles [] n out = out"
| "put_nibbles (c # cs) n out =
     put_nibbles cs (n + 1) (if odd n then out[n div 2 := out ! (n div 2) OR word_of_int (hexval c)]
                             else out[n div 2 := word_of_int (hexval c * 16)])"

lemma parse_uuid_digits:
  "n \<le> 32 \<Longrightarrow> parse_uuid_from s n out =
     (n + length (take (32 - n) (hex_digits s)), put_nibbles (take (32 - n) (hex_digits s)) n out)"
proof (induction s arbitrary: n out)
  case (Cons c s)
  show ?case
  proof (cases "n < 32 \<and> c \<noteq> 0x2D \<and> 0 \<le> hexval c")
    case True
    then have "take (32 - n) (hex_digits (c # s)) = c # take (32 - (n + 1)) (hex_digits s)"
      by (simp add: hex_digits_def take_Cons' )
    then show ?thesis using Cons.IH [of "n + 1"] True by (simp add: Let_def)
  next
    case False
    then show ?thesis using Cons by (auto simp: hex_digits_def Let_def not_less)
  qed
qed (simp add: hex_digits_def)

lemma hexval_range: "hexval c < 16" "-1 \<le> hexval c"
  by (auto simp: hexval_def word_le_def)

lemma nibble_or:
  assumes "0 \<le> v" "v < 16" "0 \<le> w" "w < 16"
  shows "word_of_int (v * 16) OR word_of_int w = (word_of_int (16 * v + w) :: u8)"
proof -
  have "(v * 16) AND w = 0"
  proof (rule bit_eqI)
    fix n
    have "w = take_bit 4 w" using assms by (simp add: take_bit_eq_mod)
    then have "bit w n \<Longrightarrow> n < 4" by (metis bit_take_bit_iff)
    moreover have "bit (v * 16) n \<Longrightarrow> 4 \<le> n"
      using bit_push_bit_iff [of 4 v n] by (simp add: push_bit_eq_mult)
    ultimately show "bit (v * 16 AND w) n = bit (0::int) n" by (auto simp: bit_and_iff)
  qed
  then have "v * 16 OR w = v * 16 + w" by (simp add: disjunctive_add bit_and_iff bit_eq_iff)
  then show ?thesis by (metis mult.commute of_int_or_eq)
qed

lemma put_nibbles_pairs:
  assumes "length ds = 2 * k" and "\<forall>c \<in> set ds. 0 \<le> hexval c" and "j + k \<le> length out"
  shows "put_nibbles ds (2 * j) out = take j out
     @ map (\<lambda>i. word_of_int (16 * hexval (ds ! (2 * i)) + hexval (ds ! (2 * i + 1)))) [0..<k] @ drop (j + k) out"
  using assms
proof (induction k arbitrary: ds j out)
  case (Suc k)
  obtain a b cs where ds: "ds = a # b # cs" and l: "length cs = 2 * k"
    using Suc.prems(1) by (cases ds; cases "tl ds") auto
  define v where "v = (word_of_int (16 * hexval a + hexval b) :: u8)"
  have j: "j < length out" using Suc.prems(3) by simp
  have "put_nibbles ds (2 * j) out = put_nibbles cs (2 * (j + 1)) (out[j := v])"
    using Suc.prems(2) j nibble_or [of "hexval a" "hexval b"] hexval_range
    by (simp add: ds v_def)
  also have "\<dots> = take (j + 1) (out[j := v])
     @ map (\<lambda>i. word_of_int (16 * hexval (cs ! (2 * i)) + hexval (cs ! (2 * i + 1)))) [0..<k] @ drop (j + 1 + k) (out[j := v])"
    using Suc.prems l ds by (intro Suc.IH) auto
  also have "take (j + 1) (out[j := v]) = take j out @ [v]"
    using j by (simp add: take_Suc_conv_app_nth)
  also have "drop (j + 1 + k) (out[j := v]) = drop (j + Suc k) out" by simp
  finally show ?case
    using map_upt_Suc [of "\<lambda>i. word_of_int (16 * hexval (ds ! (2 * i)) + hexval (ds ! (2 * i + 1))) :: u8" k]
    by (simp add: ds v_def)
qed simp

subsection \<open>Properties\<close>

text \<open>
  \<open>parse_uuid\<close> accepts exactly the texts that hold, dashes aside, 32 hexadecimal digits before the
  first other character, in either case, and writes the sixteen bytes they spell in order.
\<close>

theorem parse_uuid_exact:
  assumes "length out = 16" and "parse_uuid s out = (ok, uuid)"
  shows "ok = (32 \<le> length (hex_digits s))
    \<and> (ok \<longrightarrow> uuid = map (\<lambda>i. word_of_int (16 * hexval (hex_digits s ! (2 * i)) + hexval (hex_digits s ! (2 * i + 1)))) [0..<16])"
proof -
  have p: "parse_uuid s out = (length (take 32 (hex_digits s)) = 32, put_nibbles (take 32 (hex_digits s)) 0 out)"
    using parse_uuid_digits [of 0 s out] by (simp add: parse_uuid_def)
  have "put_nibbles (take 32 (hex_digits s)) 0 out =
      map (\<lambda>i. word_of_int (16 * hexval (hex_digits s ! (2 * i)) + hexval (hex_digits s ! (2 * i + 1)))) [0..<16]"
    if "32 \<le> length (hex_digits s)"
  proof -
    have "\<forall>c \<in> set (take 32 (hex_digits s)). 0 \<le> hexval c"
      by (auto simp: hex_digits_def dest!: in_set_takeD set_takeWhileD)
    then show ?thesis
      using put_nibbles_pairs [of "take 32 (hex_digits s)" 16 0 out] that assms(1) by simp
  qed
  then show ?thesis using p assms(2) by auto
qed

theorem parse_uuid_exact_witness:
  "parse_uuid (map (\<lambda>i. if i = 8 then 0x2D else 0x41) [0..<33]) (replicate 16 0) = (True, replicate 16 0xAA)
   \<and> 32 \<le> length (hex_digits (map (\<lambda>i::nat. if i = 8 then 0x2D else 0x41) [0..<33]))"
proof -
  have p: "parse_uuid (map (\<lambda>i::nat. if i = 8 then 0x2D else 0x41) [0..<33]) (replicate 16 0) = (True, replicate 16 0xAA)"
    by code_simp
  show ?thesis using parse_uuid_exact [OF _ p] p by simp
qed

text \<open>
  C19. When \<open>blkdev_init\<close> settles on the boot stick, the medium it will use holds, in the two sectors from the third of the chosen
  partition (by the 32-bit block address the drive is asked for), an ext2 superblock whose UUID is exactly the sixteen bytes that the
  hexadecimal digits of the \<^verbatim>\<open>diskid\<close> boot module spell, and the partition does not begin at sector 0 and is not empty. (\<open>rw10_exact\<close> and
  \<open>keeps_table\<close> are what the transport promises; the virtio driver leaves the table of USB drives, of \<^verbatim>\<open>MAX_MSC\<close> entries, alone.)
\<close>

theorem blkdev_init_uuid:
  assumes "rw10_exact hw media" and "keeps_table hw" and "mscs (snd (virtio_blk_init hw (busb b))) = mscs (busb b)" and "length (mscs (busb b)) = MAX_MSC"
    and "blkdev_init hw addr b = Some (ok, b')" and "backend b' = BACKEND_STICK" and "backend b = BACKEND_NONE"
  shows "\<exists>p n m ds sb. find_module (ram (bframes b)) addr DISKID_NAME = Some (Some (p, n))
     \<and> ds = hex_digits (map (\<lambda>i. ram (bframes b) (p + of_nat i)) [0..<unat n]) \<and> 32 \<le> length ds
     \<and> stick_dev b' = int m \<and> sb = sectors media (wire (busb b')) m ((unat (stick_first b') + 2) mod 2 ^ 32) 2
     \<and> sb ! 56 = 0x53 \<and> sb ! 57 = 0xEF
     \<and> (\<forall>i<16. sb ! (104 + i) = word_of_int (16 * hexval (ds ! (2 * i)) + hexval (ds ! (2 * i + 1))))
     \<and> stick_first b' \<noteq> 0 \<and> stick_sectors b' \<noteq> 0"
proof -
  obtain p n uuid where f: "find_module (ram (bframes b)) addr DISKID_NAME = Some (Some (p, n))"
    and u: "parse_uuid (map (\<lambda>i. ram (bframes b) (p + of_nat i)) [0..<unat n]) (replicate 16 0) = (True, uuid)"
    and s: "stick_found uuid b'" "super_found media uuid b'"
    using blkdev_init_stick [OF assms(5-7)] assms(1-4) by auto
  let ?ds = "hex_digits (map (\<lambda>i. ram (bframes b) (p + of_nat i)) [0..<unat n])"
  have ds: "32 \<le> length ?ds" "uuid = map (\<lambda>i. word_of_int (16 * hexval (?ds ! (2 * i)) + hexval (?ds ! (2 * i + 1)))) [0..<16]"
    using parse_uuid_exact [OF _ u] by simp_all
  show ?thesis
    by (rule exI [of _ p], rule exI [of _ n], rule exI [of _ "nat (stick_dev b')"], rule exI [of _ ?ds], rule exI [of _ "superblock media b'"])
       (use f ds s in \<open>simp add: stick_found_def super_found_def superblock_def\<close>)
qed

theorem blkdev_init_uuid_witness:
  "\<exists>b' m. blkdev_init (demo_hw 2000) 0x10000 stick_machine = Some (True, b') \<and> stick_dev b' = int m
     \<and> sectors platter (wire (busb b')) m ((unat (stick_first b') + 2) mod 2 ^ 32) 2 ! 57 = 0xEF"
proof -
  have "mscs (snd (virtio_blk_init (demo_hw 2000) (busb stick_machine))) = mscs (busb stick_machine)" "length (mscs (busb stick_machine)) = MAX_MSC"
    "backend (stick_booted\<lparr>backend := BACKEND_STICK\<rparr>) = BACKEND_STICK" "backend stick_machine = BACKEND_NONE"
    by (simp_all add: demo_hw_def stick_machine_def stick_usb_def MAX_MSC_def)
  from blkdev_init_uuid [OF demo_rw10_exact demo_keeps_table this(1,2) stick_boot this(3,4)]
  show ?thesis using stick_boot by blast
qed

text \<open>
  C11. Nothing outside the partition is written: from the moment \<open>blkdev_init\<close> has settled on a stick whose
  partition does not wrap around the 64-bit sector numbers, over any sequence of reads and writes whose
  sector ranges do not wrap either, every block of every medium outside the partition keeps its contents.
  (\<open>write_confined\<close> and \<open>rw10_exact\<close> are what SCSI says of READ(10) and WRITE(10).)
\<close>

theorem stick_confined:
  assumes "write_confined hw media" and "rw10_exact hw media"
    and "blkdev_init hw addr b = Some (ok, b')" and "backend b' = BACKEND_STICK" and "backend b = BACKEND_NONE"
    and "unat (stick_first b') + unat (stick_sectors b') < 2 ^ 64" and "list_all no_wrap ops"
    and "int m \<noteq> stick_dev b' \<or> k \<notin> stick_blocks b'"
  shows "media (wire (busb (fold (blk_step hw) ops b'))) m k = media (wire (busb b')) m k"
proof -
  have "stick_first b' + stick_sectors b' \<le> 0xFFFFFFFF"
    using blkdev_init_stick [OF assms(3,4,5)] by (auto simp: stick_found_def)
  then have "stick_ok b'" using assms(4,6) by (simp add: stick_ok_def word_le_nat_alt unat_add_small)
  then show ?thesis by (rule stick_run_confined [OF assms(1,2) _ assms(7,8)])
qed

theorem stick_confined_witness:
  "platter (wire (busb (fold (blk_step (demo_hw 2000)) [Wr 99 1 (replicate 512 7), Wr 100 1 (replicate 512 7)]
       (stick_booted\<lparr>backend := BACKEND_STICK\<rparr>)))) 0 108
   = platter (wire (busb (stick_booted\<lparr>backend := BACKEND_STICK\<rparr>))) 0 108"
  by (rule stick_confined [OF demo_write_confined demo_rw10_exact stick_boot])
     (simp_all add: stick_machine_def stick_booted_def stick_blocks_def)

text \<open>
  C20. Both range checks wrap. A write of one sector at \<open>2^64 - 1\<close> passes \<^verbatim>\<open>lba + count > stick_sectors\<close>
  and lands on the sector just before the partition; and a partition entry whose first sector and
  count add up to \<open>2^64\<close> passes \<^verbatim>\<open>first + count > disk_blocks\<close>.
\<close>

theorem stick_guard_wraps:
  "(let b = stick_booted\<lparr>backend := BACKEND_STICK\<rparr>;
        (ok, b') = blkdev_write_sectors (demo_hw 2000) (2 ^ 64 - 1) 1 (replicate 512 7) b
    in ok \<and> 7 \<notin> stick_blocks b \<and> platter (wire (busb b)) 0 7 = replicate 512 0
         \<and> platter (wire (busb b')) 0 7 = replicate 512 7)
   \<and> (\<exists>b'. take_part (demo_hw 2000) 0 8 (2 ^ 64 - 8) 2000 (replicate 16 0) stick_booted = (True, b'))"
proof (rule conjI)
  have "disk 0 stick_usb2 = Some 0" by (simp add: stick_usb_facts)
  then show "let b = stick_booted\<lparr>backend := BACKEND_STICK\<rparr>;
        (ok, b') = blkdev_write_sectors (demo_hw 2000) (2 ^ 64 - 1) 1 (replicate 512 7) b
    in ok \<and> 7 \<notin> stick_blocks b \<and> platter (wire (busb b)) 0 7 = replicate 512 0
         \<and> platter (wire (busb b')) 0 7 = replicate 512 7"
    by (simp add: blkdev_write_sectors_def stick_booted_def usb_disk_write_def demo_hw_def demo_bot_def
        cdb_lba_rw10 cdb_count_rw10 platter_def stick_blocks_def stick_usb2_def stick_media_def Let_def)
  show "\<exists>b'. take_part (demo_hw 2000) 0 8 (2 ^ 64 - 8) 2000 (replicate 16 0) stick_booted = (True, b')"
    using stick_ext2 [of stick_booted]
    by (simp add: take_part_def stick_booted_def stick_media_def)
qed

subsection \<open>The RAM disk is a sector device\<close>

definition ramdisk_ok :: "'h blk \<Rightarrow> bool" where
  "ramdisk_ok b \<longleftrightarrow> backend b = BACKEND_RAM \<and> unat (ram_sectors b) < 2 ^ 26
     \<and> unat (ram_base b) + 512 * unat (ram_sectors b) \<le> 2 ^ 64"

definition ramdisk_nsec :: "'h blk \<Rightarrow> nat" where
  "ramdisk_nsec b = unat (ram_sectors b)"

definition ramdisk_rd :: "'h hw \<Rightarrow> nat \<Rightarrow> 'h blk \<Rightarrow> u8 list option" where
  "ramdisk_rd hw k b =
     (if k < 2 ^ 32 then
        case blkdev_read_sector hw (of_nat k) (replicate 512 0) b of (ok, buf, _) \<Rightarrow> if ok then Some buf else None
      else None)"

definition ramdisk_wr :: "'h hw \<Rightarrow> nat \<Rightarrow> nat \<Rightarrow> u8 list \<Rightarrow> 'h blk \<Rightarrow> 'h blk option" where
  "ramdisk_wr hw lba n buf b =
     (if lba + n < 2 ^ 32 then
        case blkdev_write_sectors hw (of_nat lba) (of_nat n) buf b of (ok, b') \<Rightarrow> if ok then Some b' else None
      else None)"

lemma ram_range:
  assumes "ramdisk_ok b" and "lba + n < 2 ^ 32"
  shows "of_nat lba + ucast (of_nat n :: u32) > ram_sectors b \<longleftrightarrow> ramdisk_nsec b < lba + n"
proof -
  have "unat (of_nat lba + ucast (of_nat n :: u32) :: u64) = lba + n"
    using assms(2) by (subst unat_add_small) (simp_all add: unat_of_nat take_bit_nat_eq_self)
  then show ?thesis by (simp add: word_less_nat_alt ramdisk_nsec_def)
qed

lemma ram_count:
  assumes "ramdisk_ok b" and "lba + n \<le> ramdisk_nsec b"
  shows "8 * unat ((of_nat n :: u32) * 64) = 512 * n"
proof -
  have "n < 2 ^ 26" using assms by (simp add: ramdisk_ok_def ramdisk_nsec_def)
  then show ?thesis by (subst unat_mult_small) (simp_all add: unat_of_nat take_bit_nat_eq_self)
qed

lemma ram_offset:
  assumes "ramdisk_ok b" and "k < ramdisk_nsec b" and "i < 512"
  shows "unat (ram_base b + of_nat k * 512 + of_nat i) = unat (ram_base b) + 512 * k + i"
proof -
  have k: "512 * k + i < 512 * unat (ram_sectors b)" using assms by (simp add: ramdisk_nsec_def)
  have lt: "unat (ram_base b) + 512 * k + i < 2 ^ 64"
    using k assms(1) by (simp add: ramdisk_ok_def)
  have e: "ram_base b + of_nat k * 512 + of_nat i = ram_base b + of_nat (512 * k + i)"
    by (simp add: add.assoc mult.commute)
  have o: "unat (of_nat (512 * k + i) :: u64) = 512 * k + i"
    using lt by (intro unat_of_nat_small) simp
  show ?thesis unfolding e using lt by (subst unat_add_small) (simp_all only: o, simp_all)
qed

lemma ramdisk_rd_value:
  assumes "ramdisk_ok b"
  shows "ramdisk_rd hw k b = (if k < ramdisk_nsec b
     then Some (ram_fetch (ram (bframes b)) (ram_base b + of_nat k * 512) 512) else None)"
proof (cases "k + 1 < 2 ^ 32")
  case True
  have s: "of_nat k + ucast (1::u32) > ram_sectors b \<longleftrightarrow> ramdisk_nsec b < k + 1"
    using ram_range [OF assms True] by simp
  then show ?thesis
    using assms True by (auto simp: ramdisk_rd_def blkdev_read_sector_def blkdev_read_sectors_def ramdisk_ok_def)
next
  case False
  then have "\<not> k < ramdisk_nsec b" using assms by (simp add: ramdisk_ok_def ramdisk_nsec_def)
  moreover have "of_nat k + 1 > ram_sectors b" if "k < 2 ^ 32"
  proof -
    have "k = 4294967295" using that False by simp
    then show ?thesis using assms by (simp add: word_less_nat_alt ramdisk_ok_def)
  qed
  ultimately show ?thesis
    using assms by (auto simp: ramdisk_rd_def blkdev_read_sector_def blkdev_read_sectors_def ramdisk_ok_def)
qed

lemma fetch_store:
  assumes ok: "ramdisk_ok b" and n: "lba + n \<le> ramdisk_nsec b" and l: "length bs = 512 * n" and k: "k < ramdisk_nsec b"
  shows "ram_fetch (ram_store r (ram_base b + of_nat lba * 512) bs) (ram_base b + of_nat k * 512) 512 =
    (if lba \<le> k \<and> k < lba + n then slice bs (k - lba) else ram_fetch r (ram_base b + of_nat k * 512) 512)"
proof (rule nth_equalityI)
  have len: "512 * (k - lba) + 512 \<le> length bs" if "lba \<le> k" "k < lba + n" using that l by simp
  then show "length (ram_fetch (ram_store r (ram_base b + of_nat lba * 512) bs) (ram_base b + of_nat k * 512) 512) =
    length (if lba \<le> k \<and> k < lba + n then slice bs (k - lba) else ram_fetch r (ram_base b + of_nat k * 512) 512)"
    by (auto simp: ram_fetch_def slice_def)
  fix i assume "i < length (ram_fetch (ram_store r (ram_base b + of_nat lba * 512) bs) (ram_base b + of_nat k * 512) 512)"
  then have i: "i < 512" by (simp add: ram_fetch_def)
  define a where "a = ram_base b + of_nat k * 512 + of_nat i"
  have a: "unat a = unat (ram_base b) + 512 * k + i" unfolding a_def by (rule ram_offset [OF ok k i])
  show "ram_fetch (ram_store r (ram_base b + of_nat lba * 512) bs) (ram_base b + of_nat k * 512) 512 ! i =
    (if lba \<le> k \<and> k < lba + n then slice bs (k - lba) else ram_fetch r (ram_base b + of_nat k * 512) 512) ! i"
  proof (cases "n = 0")
    case True
    then show ?thesis using i l by (auto simp: ram_fetch_def ram_store_def)
  next
    case False
    then have p: "unat (ram_base b + of_nat lba * 512) = unat (ram_base b) + 512 * lba"
      using ram_offset [OF ok, of lba 0] n by simp
    have tot: "unat (ram_base b) + 512 * (lba + n) \<le> 2 ^ 64"
      using ok n by (simp add: ramdisk_ok_def ramdisk_nsec_def)
    have d: "unat (a - (ram_base b + of_nat lba * 512)) < 512 * n \<longleftrightarrow> lba \<le> k \<and> k < lba + n"
    proof (cases "lba \<le> k")
      case True
      then show ?thesis using i by (subst unat_sub_small) (auto simp: a p)
    next
      case False
      then have "unat (a - (ram_base b + of_nat lba * 512)) = 2 ^ 64 - (512 * lba - (512 * k + i))"
        using i a p unat_u64_bound [of a] by (simp add: unat_sub_if_size word_size)
      then show ?thesis using False tot i a by simp
    qed
    have e: "unat (a - (ram_base b + of_nat lba * 512)) = 512 * (k - lba) + i" if "lba \<le> k"
      using that by (subst unat_sub_small) (auto simp: a p)
    have "ram_fetch (ram_store r (ram_base b + of_nat lba * 512) bs) (ram_base b + of_nat k * 512) 512 ! i
        = ram_store r (ram_base b + of_nat lba * 512) bs a" "ram_fetch r (ram_base b + of_nat k * 512) 512 ! i = r a"
      using i by (simp_all add: ram_fetch_def a_def)
    then show ?thesis
      using d e i len by (auto simp: ram_store_def l slice_def)
  qed
qed

lemma ramdisk_wr_value:
  assumes "ramdisk_ok b"
  shows "ramdisk_wr hw lba n buf b = (if lba + n \<le> ramdisk_nsec b
     then Some (b\<lparr>bframes := (bframes b)\<lparr>ram := ram_store (ram (bframes b)) (ram_base b + of_nat lba * 512) (take (512 * n) buf)\<rparr>\<rparr>)
     else None)"
proof (cases "lba + n < 2 ^ 32")
  case True
  then show ?thesis
    using ram_range [OF assms True] ram_count [OF assms, of lba n] assms
    by (auto simp: ramdisk_wr_def blkdev_write_sectors_def ramdisk_ok_def Let_def)
next
  case False
  then show ?thesis using assms by (simp add: ramdisk_wr_def ramdisk_ok_def ramdisk_nsec_def)
qed

interpretation ramdisk: sector_device ramdisk_ok ramdisk_nsec "ramdisk_rd hw" "ramdisk_wr hw" for hw
proof
  fix s :: "'a blk" and k lba n :: nat and buf :: "u8 list"
  assume ok: "ramdisk_ok s"
  show "k < ramdisk_nsec s \<Longrightarrow> \<exists>d. ramdisk_rd hw k s = Some d \<and> length d = 512"
    by (simp add: ramdisk_rd_value [OF ok] ram_fetch_def)
  show "ramdisk_nsec s \<le> k \<Longrightarrow> ramdisk_rd hw k s = None" by (simp add: ramdisk_rd_value [OF ok])
  show "ramdisk_nsec s < lba + n \<Longrightarrow> ramdisk_wr hw lba n buf s = None" by (simp add: ramdisk_wr_value [OF ok])
  assume fit: "lba + n \<le> ramdisk_nsec s" and l: "512 * n \<le> length buf"
  define s' where "s' = s\<lparr>bframes := (bframes s)\<lparr>ram := ram_store (ram (bframes s)) (ram_base s + of_nat lba * 512) (take (512 * n) buf)\<rparr>\<rparr>"
  have ok': "ramdisk_ok s'" and ns: "ramdisk_nsec s' = ramdisk_nsec s"
    using ok by (simp_all add: s'_def ramdisk_ok_def ramdisk_nsec_def)
  have "slice (take (512 * n) buf) (k - lba) = slice buf (k - lba)" if "lba \<le> k" "k < lba + n" for k
    using that by (simp add: slice_def drop_take min_absorb1)
  then have "\<forall>k < ramdisk_nsec s. ramdisk_rd hw k s' = (if covers k (lba, n, buf) then Some (slice buf (k - lba)) else ramdisk_rd hw k s)"
    using fetch_store [OF ok fit, of "take (512 * n) buf"] l
    by (simp add: ramdisk_rd_value [OF ok'] ramdisk_rd_value [OF ok] ns) (simp add: s'_def)
  then show "\<exists>s'. ramdisk_wr hw lba n buf s = Some s' \<and> ramdisk_ok s' \<and> ramdisk_nsec s' = ramdisk_nsec s
      \<and> (\<forall>k < ramdisk_nsec s. ramdisk_rd hw k s' = (if covers k (lba, n, buf) then Some (slice buf (k - lba)) else ramdisk_rd hw k s))"
    using ok' ns fit by (auto simp: ramdisk_wr_value [OF ok] s'_def)
qed

subsection \<open>Moving the RAM disk\<close>

lemma copy_words_effect:
  assumes "8 * n \<le> N" "N \<le> 2 ^ 63" and dis: "\<And>i j. i < N \<Longrightarrow> j < N \<Longrightarrow> dst + of_nat i \<noteq> src + (of_nat j :: u64)"
  shows "fold (copy_word dst src) [0..<n] r = (\<lambda>a. if unat (a - dst) < 8 * n then r (src + (a - dst)) else r a)"
  using assms(1)
proof (induction n)
  case (Suc n)
  define r' where "r' = fold (copy_word dst src) [0..<n] r"
  have r': "r' = (\<lambda>a. if unat (a - dst) < 8 * n then r (src + (a - dst)) else r a)"
    unfolding r'_def using Suc by simp
  have n8: "unat (8 * of_nat n :: u64) = 8 * n"
    using unat_of_nat_small [of "8 * n", where 'a = 64] Suc.prems assms(2) by simp
  show ?case
  proof
    fix a
    define x where "x = a - dst"
    have e: "a - (dst + 8 * of_nat n) = x - 8 * of_nat n" by (simp add: x_def)
    have in8: "x - 8 * of_nat n < 8 \<longleftrightarrow> 8 * n \<le> unat x \<and> unat x < 8 * n + 8"
    proof (cases "8 * n \<le> unat x")
      case True
      then show ?thesis by (simp add: word_less_nat_alt unat_sub_small n8) linarith
    next
      case False
      then have "unat (x - 8 * of_nat n) = 2 ^ 64 - (8 * n - unat x)"
        using unat_u64_bound [of x] by (simp add: unat_sub_if_size word_size n8)
      then show ?thesis using False Suc.prems assms(2) by (simp add: word_less_nat_alt)
    qed
    have src: "src + 8 * of_nat n + (x - 8 * of_nat n) = src + x" by simp
    have keep: "r' (src + x) = r (src + x)" if x: "unat x < 8 * n + 8"
    proof -
      have "\<not> unat (src + x - dst) < 8 * n"
      proof
        assume "unat (src + x - dst) < 8 * n"
        moreover have "dst + of_nat (unat (src + x - dst)) = src + of_nat (unat x)" by simp
        ultimately show False using dis [of "unat (src + x - dst)" "unat x"] x Suc.prems by simp
      qed
      then show ?thesis by (simp add: r')
    qed
    have "fold (copy_word dst src) [0..<Suc n] r a = copy_word dst src n r' a" by (simp add: r'_def)
    also have "\<dots> = (if x - 8 * of_nat n < 8 then r' (src + x) else r' a)"
      by (simp add: copy_word_def Let_def e src)
    also have "\<dots> = (if unat x < 8 * n + 8 then r (src + x) else r a)"
      using in8 keep by (auto simp: r' x_def [symmetric])
    finally show "fold (copy_word dst src) [0..<Suc n] r a =
        (if unat (a - dst) < 8 * Suc n then r (src + (a - dst)) else r a)"
      by (simp add: x_def add.commute)
  qed
qed simp

lemma copy_bytes_effect:
  assumes "k \<le> n" "n \<le> N" "N \<le> 2 ^ 63" and dis: "\<And>i j. i < N \<Longrightarrow> j < N \<Longrightarrow> dst + of_nat i \<noteq> src + (of_nat j :: u64)"
    and r0: "r0 = (\<lambda>a. if unat (a - dst) < k then r (src + (a - dst)) else r a)"
  shows "fold (copy_byte dst src) [k..<n] r0 = (\<lambda>a. if unat (a - dst) < n then r (src + (a - dst)) else r a)"
  using assms(1,2)
proof (induction n)
  case (Suc n)
  show ?case
  proof (cases "k = Suc n")
    case True
    then show ?thesis by (simp add: r0)
  next
    case False
    then have IH: "fold (copy_byte dst src) [k..<n] r0 = (\<lambda>a. if unat (a - dst) < n then r (src + (a - dst)) else r a)"
      using Suc by simp
    have nn: "unat (of_nat n :: u64) = n" using Suc.prems assms(3) by (intro unat_of_nat_small) simp
    have keep: "\<not> unat (src + of_nat n - dst) < n"
    proof
      assume "unat (src + of_nat n - dst) < n"
      moreover have "dst + of_nat (unat (src + of_nat n - dst)) = src + of_nat n" by simp
      ultimately show False using dis [of "unat (src + of_nat n - dst)" n] Suc.prems by simp
    qed
    have "fold (copy_byte dst src) [k..<Suc n] r0 = copy_byte dst src n (fold (copy_byte dst src) [k..<n] r0)"
      using False Suc.prems(1) by simp
    also have "\<dots> = (\<lambda>a. if unat (a - dst) < Suc n then r (src + (a - dst)) else r a)"
    proof
      fix a
      have "unat (a - dst) < Suc n \<longleftrightarrow> unat (a - dst) < n \<or> a = dst + of_nat n"
        using nn by (auto simp: less_Suc_eq)
      then show "copy_byte dst src n (fold (copy_byte dst src) [k..<n] r0) a =
          (if unat (a - dst) < Suc n then r (src + (a - dst)) else r a)"
        using keep by (auto simp: copy_byte_def IH nn)
    qed
    finally show ?thesis .
  qed
qed (simp add: r0)

lemma copy_module_effect:
  assumes "unat sz \<le> 2 ^ 63" and dis: "\<And>i j. i < unat sz \<Longrightarrow> j < unat sz \<Longrightarrow> dst + of_nat i \<noteq> src + (of_nat j :: u64)"
  shows "copy_module dst src sz r = (\<lambda>a. if unat (a - dst) < unat sz then r (src + (a - dst)) else r a)"
proof -
  have w: "unat (sz div 8) = unat sz div 8" by (simp add: unat_div)
  have "(7 :: u64) = mask 3" by (simp add: mask_eq_exp_minus_1)
  then have "unat (sz AND NOT 7) = unat sz - unat sz mod 8"
    using unat_and_not_mask [of 3 sz] by simp
  then have b: "unat (sz AND NOT 7) = 8 * (unat sz div 8)" by (simp add: minus_mod_eq_mult_div)
  have "fold (copy_word dst src) [0..<unat (sz div 8)] r
      = (\<lambda>a. if unat (a - dst) < 8 * (unat sz div 8) then r (src + (a - dst)) else r a)"
    unfolding w by (rule copy_words_effect [where N = "unat sz"]) (use assms in auto)
  then show ?thesis
    unfolding copy_module_def b
    by (rule copy_bytes_effect [where N = "unat sz", rotated -1]) (use assms in auto)
qed

definition outside_window :: "u64 \<Rightarrow> bool" where
  "outside_window a \<longleftrightarrow> a < USER_VIRT_BASE \<or> a \<ge> USER_VIRT_END"

definition whole_pages :: "nat \<Rightarrow> nat \<Rightarrow> u64 set" where
  "whole_pages lo hi = {f. lo \<le> unat f * 4096 \<and> unat f * 4096 + 4096 \<le> hi \<and> outside_window (f * PAGE_SIZE)}"

lemma release_from_effect:
  assumes "unat hi < 2 ^ 32" "unat a < 2 ^ 33" "unat a mod 4096 = 0"
  shows "\<exists>s'. release_from a hi s = Some s' \<and> ram s' = ram s \<and> (pmm_wf s \<longrightarrow> pmm_wf s')
     \<and> free_set s' = free_set s \<union> whole_pages (unat a) (unat hi)"
  using assms
proof (induction "unat hi - unat a" arbitrary: a s rule: less_induct)
  case less
  have up: "unat (a + 4096) = unat a + 4096" using less.prems(2) by (subst unat_add_small) simp_all
  show ?case
  proof (cases "a + 4096 \<le> hi")
    case False
    then have "whole_pages (unat a) (unat hi) = {}"
      using less.prems by (auto simp: whole_pages_def word_le_nat_alt up)
    then show ?thesis using False by (simp add: release_from.simps)
  next
    case True
    define s1 where "s1 = (if outside_window a then pmm_free_frame a s else s)"
    have lt: "unat a + 4096 \<le> unat hi" using True by (simp add: word_le_nat_alt up)
    have dec: "unat hi - unat (a + 4096) < unat hi - unat a" using lt up by linarith
    obtain s' where s': "release_from (a + 4096) hi s1 = Some s'" "ram s' = ram s1" "pmm_wf s1 \<longrightarrow> pmm_wf s'"
        "free_set s' = free_set s1 \<union> whole_pages (unat (a + 4096)) (unat hi)"
      using less.hyps [of "a + 4096" s1, OF dec] less.prems lt by (auto simp: up)
    have f: "unat (a div PAGE_SIZE) = unat a div 4096" by (simp add: unat_div PAGE_SIZE_def)
    have fa: "a div PAGE_SIZE * PAGE_SIZE = a"
    proof -
      have "a mod PAGE_SIZE = 0" using less.prems(3) by (simp add: word_unat_eq_iff unat_mod PAGE_SIZE_def)
      then show ?thesis by (metis add.right_neutral div_mult_mod_eq)
    qed
    have max: "a div PAGE_SIZE < MAX_FRAMES"
      using lt less.prems(1) by (simp add: word_less_nat_alt f MAX_FRAMES_def)
    have "whole_pages (unat a) (unat hi) =
        (if outside_window a then {a div PAGE_SIZE} else {}) \<union> whole_pages (unat (a + 4096)) (unat hi)"
    proof -
      have q: "unat a = unat (a div PAGE_SIZE) * 4096" using less.prems(3) f by (metis div_mult_mod_eq add.right_neutral)
      have "unat a \<le> unat g * 4096 \<longleftrightarrow> g = a div PAGE_SIZE \<or> unat a + 4096 \<le> unat g * 4096" for g
        unfolding word_unat_eq_iff using q by auto
      then show ?thesis
        using lt fa by (auto simp: whole_pages_def up q)
    qed
    moreover have "free_set s1 = free_set s \<union> (if outside_window a then {a div PAGE_SIZE} else {})"
      using max by (auto simp: s1_def pmm_free_frame_def free_set_mark_free)
    moreover have "ram s1 = ram s" "pmm_wf s \<longrightarrow> pmm_wf s1"
      by (auto simp: s1_def pmm_free_frame_def)
    moreover have "release_from a hi s = release_from (a + 4096) hi s1"
      using True by (subst release_from.simps) (simp add: s1_def outside_window_def)
    ultimately show ?thesis using s' by auto
  qed
qed

lemma release_effect:
  assumes "unat hi < 2 ^ 32" and "unat lo < 2 ^ 32"
  shows "\<exists>s'. release lo hi s = Some s' \<and> ram s' = ram s \<and> (pmm_wf s \<longrightarrow> pmm_wf s')
     \<and> free_set s' = free_set s \<union> whole_pages (unat lo) (unat hi)"
proof -
  define a where "a = (lo + 4095) AND NOT 0xFFF"
  have m: "(0xFFF :: u64) = mask 12" by (simp add: mask_eq_exp_minus_1)
  have "unat (lo + 4095) = unat lo + 4095" using assms(2) by (subst unat_add_small) simp_all
  then have a: "unat a = unat lo + 4095 - (unat lo + 4095) mod 4096"
    unfolding a_def m by (subst unat_and_not_mask) simp_all
  then have al: "unat a mod 4096 = 0" "unat a < 2 ^ 33" using assms(2) by (auto simp: minus_mod_eq_mult_div)
  have "unat lo \<le> k * 4096 \<longleftrightarrow> unat a \<le> k * 4096" for k
    using round_up_le_iff [of 4096 "unat lo" k] by (simp add: a)
  then have "whole_pages (unat a) (unat hi) = whole_pages (unat lo) (unat hi)"
    by (simp add: whole_pages_def)
  then show ?thesis
    using release_from_effect [OF assms(1) al(2,1), of s] by (simp add: release_def a_def)
qed

lemma alloc_contig_ram_outside:
  assumes "pmm_ok s" and "pmm_alloc_contig n s = (p, s')" and "p \<noteq> 0" and "a div PAGE_SIZE \<notin> frames_of p n"
  shows "ram s' a = ram s a"
proof (cases "n = 1")
  case True
  then show ?thesis
    using assms(2,3) by (cases rule: pmm_alloc_frame_cases [of s]) (auto simp: pmm_alloc_contig_def)
next
  case False
  note eff = pmm_alloc_contig_effect [OF assms(2,1,3)]
  have u: "unat (p div PAGE_SIZE) = unat p div 4096" "unat p mod 4096 = 0" "unat (a div PAGE_SIZE) = unat a div 4096"
    using eff by (simp_all add: unat_div unat_mod word_unat_eq_iff PAGE_SIZE_def)
  have n: "unat (n * PAGE_SIZE) = unat n * 4096"
    using eff by (simp add: unat_mult_small PAGE_SIZE_def)
  have "unat (p div PAGE_SIZE + n) = unat p div 4096 + unat n"
    using eff u by (subst unat_add_small) simp_all
  then have "\<not> (unat p div 4096 \<le> unat a div 4096 \<and> unat a div 4096 < unat p div 4096 + unat n)"
    using assms(4) by (auto simp: frames_of_def word_le_nat_alt word_less_nat_alt u)
  moreover note pp = mod_zero_mult_div [OF u(2)]
  ultimately have out: "unat a < unat p \<or> unat p + unat n * 4096 \<le> unat a"
    using div_less_iff_less_mult [of 4096 "unat a" "unat p div 4096"]
      div_less_iff_less_mult [of 4096 "unat a" "unat p div 4096 + unat n"]
    by (auto simp: not_le not_less add_mult_distrib)
  have "unat p + unat n * 4096 \<le> 2 ^ 32"
    using eff u(1) pp by simp
  then have "\<not> a - p < n * PAGE_SIZE"
    using out unat_u64_bound [of a] unat_u64_bound [of p]
    by (auto simp: word_less_nat_alt n unat_sub_if_size word_size)
  then show ?thesis using alloc_contig_ram [OF assms(1,2,3), of a] by simp
qed

lemma frames_of_byte:
  assumes "unat (p div PAGE_SIZE) + unat n \<le> 1048576" and "p mod PAGE_SIZE = 0"
    and "i < unat n * 4096"
  shows "(p + of_nat i) div PAGE_SIZE \<in> frames_of p n" and "unat (p + of_nat i) = unat p + i"
proof -
  have u: "unat (p div PAGE_SIZE) = unat p div 4096" "unat p mod 4096 = 0"
    using assms(2) by (simp_all add: unat_div unat_mod word_unat_eq_iff PAGE_SIZE_def)
  then have p: "unat p = unat p div 4096 * 4096" by (simp add: mod_zero_mult_div)
  have i: "unat (of_nat i :: u64) = i" using assms(1,3) by (intro unat_of_nat_small) simp
  have lt: "unat p + i < 2 ^ 64" using assms(1,3) u(1) p by simp
  then show s: "unat (p + of_nat i) = unat p + i" by (subst unat_add_small) (simp_all add: i)
  have "unat (p div PAGE_SIZE + n) = unat p div 4096 + unat n"
    using assms(1) u by (subst unat_add_small) simp_all
  moreover have "(unat p + i) div 4096 = unat p div 4096 + i div 4096" using p by (metis div_mult_self3 add.commute zero_neq_numeral)
  ultimately show "(p + of_nat i) div PAGE_SIZE \<in> frames_of p n"
    using assms(3) by (simp add: frames_of_def word_le_nat_alt word_less_nat_alt u unat_div s) (simp add: PAGE_SIZE_def s less_mult_imp_div_less)
qed

lemma window_frame_iff:
  assumes "unat a < 2 ^ 32"
  shows "a div PAGE_SIZE \<in> window_frames \<longleftrightarrow> \<not> outside_window a"
proof -
  have "unat (a div PAGE_SIZE) = unat a div 4096" by (simp add: unat_div PAGE_SIZE_def)
  then show ?thesis
    by (simp add: window_frames_def outside_window_def word_le_nat_alt word_less_nat_alt pmm_consts)
       (auto simp: div_less_iff_less_mult less_eq_div_iff_mult_less_eq)
qed

lemma whole_pages_kept:
  assumes top: "unat lo + unat sz < 2 ^ 32"
    and kept: "\<And>i. i < unat sz \<Longrightarrow> (lo + of_nat i) div PAGE_SIZE \<notin> free_set s"
    and f: "f \<in> whole_pages (unat lo) (unat lo + unat sz)"
  shows "f \<notin> free_set s"
proof -
  define i where "i = unat f * 4096 - unat lo"
  have f': "unat lo \<le> unat f * 4096" "unat f * 4096 + 4096 \<le> unat lo + unat sz" using f by (auto simp: whole_pages_def)
  have i: "i < unat sz" "unat lo + i = unat f * 4096" using f' by (simp_all add: i_def)
  have "unat (of_nat i :: u64) = i" using i top by (intro unat_of_nat_small) simp
  then have "unat (lo + of_nat i) = unat f * 4096" using i top by (simp add: unat_add_small)
  then have "(lo + of_nat i) div PAGE_SIZE = f" by (simp add: word_unat_eq_iff unat_div PAGE_SIZE_def)
  then show ?thesis using kept [OF i(1)] by simp
qed

lemma settle_effect:
  assumes ok: "pmm_ok s" and lo: "4096 \<le> lo" and top: "unat lo + unat sz < 2 ^ 32"
    and hit: "lo + sz > USER_VIRT_BASE" "lo < USER_VIRT_END"
    and kept: "\<And>i. i < unat sz \<Longrightarrow> (lo + of_nat i) div PAGE_SIZE \<notin> free_set s"
    and win: "window_frames \<inter> free_set s = {}"
    and al: "pmm_alloc_contig ((sz + 4095) div 4096) s = (p, s1)" and p: "p \<noteq> 0"
  shows "\<exists>s'. settle lo sz s = Some (p, s')
     \<and> (\<forall>i < unat sz. ram s' (p + of_nat i) = ram s (lo + of_nat i) \<and> outside_window (p + of_nat i)
          \<and> (p + of_nat i) div PAGE_SIZE \<notin> free_set s')
     \<and> free_set s' = free_set s - frames_of p ((sz + 4095) div 4096) \<union> whole_pages (unat lo) (unat lo + unat sz)
     \<and> pmm_ok s'"
proof -
  define n where "n = (sz + 4095) div 4096"
  have un: "unat n = (unat sz + 4095) div 4096"
    using top by (simp add: n_def unat_div unat_add_small)
  have nsz: "unat sz \<le> unat n * 4096" unfolding un by (simp add: div_mult_mod_eq [symmetric])
  have eff: "p mod PAGE_SIZE = 0" "unat (p div PAGE_SIZE) + unat n \<le> 1048576" "frames_of p n \<subseteq> free_set s"
    "free_set s1 = free_set s - frames_of p n" "pmm_ok s1"
    using pmm_alloc_contig_effect [OF al ok p] by (simp_all add: n_def)
  note byte = frames_of_byte [OF eff(2,1)]
  have hi: "unat (lo + sz) = unat lo + unat sz" using top by (simp add: unat_add_small)
  define s2 where "s2 = s1\<lparr>ram := copy_module p lo sz (ram s1)\<rparr>"
  have dis: "p + of_nat i \<noteq> lo + of_nat j" if "i < unat sz" "j < unat sz" for i j
    using byte(1) [of i] kept [of j] eff(3) nsz that by auto
  have cp: "copy_module p lo sz (ram s1) = (\<lambda>a. if unat (a - p) < unat sz then ram s1 (lo + (a - p)) else ram s1 a)"
    by (rule copy_module_effect) (use top dis in auto)
  have fs2: "free_set s2 = free_set s1" "pmm_wf s2" using eff(5)
    by (simp_all add: s2_def free_set_def frame_free_def pmm_ok_def pmm_wf_def)
  obtain s' where s': "release lo (lo + sz) s2 = Some s'" "ram s' = ram s2" "pmm_wf s'"
      "free_set s' = free_set s2 \<union> whole_pages (unat lo) (unat lo + unat sz)"
    using release_effect [of "lo + sz" lo s2] top hi fs2 by auto
  have "settle lo sz s = Some (p, s')"
    using leD [OF less_imp_le [OF hit(1)]] hit p al s'(1) by (auto simp: settle_def Let_def s2_def)
  moreover have "ram s' (p + of_nat i) = ram s (lo + of_nat i) \<and> outside_window (p + of_nat i)
      \<and> (p + of_nat i) div PAGE_SIZE \<notin> free_set s'" if i: "i < unat sz" for i
  proof -
    have iu: "unat (of_nat i :: u64) = i" using i top by (intro unat_of_nat_small) simp
    have "ram s1 (lo + of_nat i) = ram s (lo + of_nat i)"
      using alloc_contig_ram_outside [OF ok al p] kept [OF i] eff(3) by (auto simp: n_def)
    then have r: "ram s' (p + of_nat i) = ram s (lo + of_nat i)"
      using s'(2) i iu by (simp add: s2_def cp)
    have in_n: "i < unat n * 4096" using i nsz by simp
    have fr: "(p + of_nat i) div PAGE_SIZE \<in> free_set s" using byte(1) [OF in_n] eff(3) by blast
    have "unat (p + of_nat i) div 4096 < 1048576"
      using free_set_unat [OF fr] by (simp add: unat_div PAGE_SIZE_def)
    then have "unat (p + of_nat i) < 2 ^ 32" by (simp add: div_less_iff_less_mult)
    then have "outside_window (p + of_nat i)" using win window_frame_iff fr by blast
    moreover have "(p + of_nat i) div PAGE_SIZE \<notin> whole_pages (unat lo) (unat lo + unat sz)"
      using whole_pages_kept [OF top kept] fr by blast
    ultimately show ?thesis using r byte(1) [OF in_n] s'(4) fs2 eff(4) by auto
  qed
  moreover have "pmm_ok s'"
    using s'(3,4) fs2 eff(5) lo by (auto simp: pmm_ok_def whole_pages_def word_le_nat_alt)
  ultimately show ?thesis using s'(4) fs2 eff(4) by (auto simp: n_def)
qed

text \<open>
  A RAM disk that lies across the program window is moved out of it intact. With an exact
  allocator that withholds the window and the module's own frames, \<open>settle\<close> always returns: either
  there is no run of free frames long enough and nothing changes, or every byte of the disk is found
  at the new place, outside the window and in frames the allocator no longer hands out, and the free
  frames are the old ones without the new run and with the module's whole pages outside the window.
\<close>

theorem settle_moves:
  assumes "sz \<noteq> 0" and "pmm_ok s" and "4096 \<le> lo" and "unat lo + unat sz < 2 ^ 32"
    and "lo + sz > USER_VIRT_BASE" and "lo < USER_VIRT_END"
    and "\<And>i. i < unat sz \<Longrightarrow> (lo + of_nat i) div PAGE_SIZE \<notin> free_set s"
    and "window_frames \<inter> free_set s = {}"
  shows "\<exists>p s'. settle lo sz s = Some (p, s')
     \<and> (if p = 0 then s' = s \<and> (\<nexists>a. free_run s a (unat ((sz + 4095) div 4096)))
        else (\<forall>i < unat sz. ram s' (p + of_nat i) = ram s (lo + of_nat i) \<and> outside_window (p + of_nat i)
                \<and> (p + of_nat i) div PAGE_SIZE \<notin> free_set s')
           \<and> free_set s' = free_set s - frames_of p ((sz + 4095) div 4096) \<union> whole_pages (unat lo) (unat lo + unat sz)
           \<and> pmm_ok s')"
proof -
  obtain p s1 where al: "pmm_alloc_contig ((sz + 4095) div 4096) s = (p, s1)" by (metis surj_pair)
  show ?thesis
  proof (cases "p = 0")
    case False
    then show ?thesis using settle_effect [OF assms(2-8) al False] by auto
  next
    case True
    have "0 < unat sz" using assms(1) by (simp add: unat_gt_0)
    then have "1 \<le> (unat sz + 4095) div 4096" by (simp add: less_eq_div_iff_mult_less_eq)
    then have "unat ((sz + 4095) div 4096) \<noteq> 0" using assms(4) by (simp add: unat_div unat_add_small)
    then have "(sz + 4095) div 4096 \<noteq> 0" by auto
    moreover have "s1 = s \<and> ((sz + 4095) div 4096 \<noteq> 0 \<longrightarrow> (\<nexists>a. free_run s a (unat ((sz + 4095) div 4096))))"
      using pmm_alloc_contig_zero [OF al [unfolded True]] assms(2) by blast
    moreover have "settle lo sz s = Some (0, s1)"
      using leD [OF less_imp_le [OF assms(5)]] assms(5,6) al True by (auto simp: settle_def Let_def)
    ultimately show ?thesis by auto
  qed
qed

lemma demo_pmm_free: "free_set demo_pmm = {10, 11, 12}"
  by (auto simp: demo_pmm_def free_set_mark_free free_set_all_zero MAX_FRAMES_def)

theorem settle_moves_witness:
  "\<exists>p s'. settle 0x40000000 1024 demo_pmm = Some (p, s') \<and> p \<noteq> 0
     \<and> (\<forall>i < 1024. ram s' (p + of_nat i) = 7 \<and> outside_window (p + of_nat i))"
proof -
  have "\<exists>p s'. settle 0x40000000 1024 demo_pmm = Some (p, s')
     \<and> (if p = 0 then s' = demo_pmm \<and> (\<nexists>a. free_run demo_pmm a (unat ((1024 + 4095) div 4096 :: u64)))
        else (\<forall>i < unat (1024 :: u64). ram s' (p + of_nat i) = ram demo_pmm (0x40000000 + of_nat i) \<and> outside_window (p + of_nat i)
                \<and> (p + of_nat i) div PAGE_SIZE \<notin> free_set s')
           \<and> free_set s' = free_set demo_pmm - frames_of p ((1024 + 4095) div 4096)
                \<union> whole_pages (unat (0x40000000 :: u64)) (unat (0x40000000 :: u64) + unat (1024 :: u64))
           \<and> pmm_ok s')"
  proof (rule settle_moves)
    fix i :: nat assume "i < unat (1024 :: u64)"
    then have "unat (0x40000000 + of_nat i :: u64) = 0x40000000 + i"
      by (subst unat_add_small) (simp_all add: unat_of_nat_small)
    then have "0x40000 \<le> unat ((0x40000000 + of_nat i :: u64) div PAGE_SIZE)"
      by (simp add: unat_div PAGE_SIZE_def less_eq_div_iff_mult_less_eq)
    then show "(0x40000000 + of_nat i) div PAGE_SIZE \<notin> free_set demo_pmm" unfolding demo_pmm_free by auto
  qed (simp_all add: pmm_ok_demo pmm_consts demo_pmm_free window_frames_def)
  moreover have "free_run demo_pmm 10 1"
  proof -
    have "frame_free demo_pmm 10" using demo_pmm_free by (auto simp: free_set_def)
    moreover have "f = 10" if "10 \<le> f" "f < 10 + (1::nat)" for f using that by simp
    ultimately show ?thesis unfolding free_run_def by fastforce
  qed
  moreover have "ram demo_pmm a = 7" for a by (simp add: demo_pmm_def)
  ultimately show ?thesis by (auto split: if_splits)
qed

text \<open>
  The RAM disk is a disk: any sequence of writes that fit it is accepted, and afterwards each
  sector reads back as the last write that covered it left it, or as it was. The bound \<open>2^26\<close> on
  the size is where the code's 32-bit product \<^verbatim>\<open>count * 64\<close> stops being the transfer's length.
\<close>

theorem ramdisk_last_write:
  assumes "ramdisk_ok b" and "list_all (fits (ramdisk_nsec b)) ws"
  shows "\<exists>b'. run_writes (ramdisk_wr hw) ws b = Some b' \<and> ramdisk_ok b'
     \<and> (\<forall>k < ramdisk_nsec b. ramdisk_rd hw k b' = (case last_write ws k of Some d \<Rightarrow> Some d | None \<Rightarrow> ramdisk_rd hw k b))"
  using ramdisk.run_writes_last [OF assms] by blast

definition demo_ramdisk :: "platters blk" where
  "demo_ramdisk = \<lparr>backend = BACKEND_RAM, ram_base = 0x100000, ram_sectors = 8, stick_dev = -1, stick_first = 0,
      stick_sectors = 0, sec = [], busb = \<lparr>mscs = [], wire = (\<lambda>_ _. [])\<rparr>, bframes = demo_pmm\<rparr>"

theorem ramdisk_last_write_witness:
  "\<exists>b'. run_writes (ramdisk_wr (demo_hw 1)) [(2, 2, replicate 1024 1), (3, 1, replicate 512 2)] demo_ramdisk = Some b'
     \<and> ramdisk_rd (demo_hw 1) 3 b' = Some (replicate 512 2) \<and> ramdisk_rd (demo_hw 1) 2 b' = Some (replicate 512 1)"
proof -
  have "ramdisk_ok demo_ramdisk" and n: "ramdisk_nsec demo_ramdisk = 8"
    by (simp_all add: demo_ramdisk_def ramdisk_ok_def ramdisk_nsec_def)
  moreover have "list_all (fits (ramdisk_nsec demo_ramdisk)) [(2, 2, replicate 1024 1), (3, 1, replicate 512 2)]"
    by (simp add: fits_def n)
  ultimately obtain b' where b': "run_writes (ramdisk_wr (demo_hw 1)) [(2, 2, replicate 1024 1), (3, 1, replicate 512 2)] demo_ramdisk = Some b'"
    "\<forall>k < 8. ramdisk_rd (demo_hw 1) k b' = (case last_write [(2, 2, replicate 1024 1), (3, 1, replicate 512 2)] k of
        Some d \<Rightarrow> Some d | None \<Rightarrow> ramdisk_rd (demo_hw 1) k demo_ramdisk)"
    using ramdisk_last_write [where hw = "demo_hw 1"] by fastforce
  have "last_write [(2, 2, replicate 1024 1), (3, 1, replicate 512 2)] 3 = Some (replicate 512 2)"
    "last_write [(2, 2, replicate 1024 1), (3, 1, replicate 512 2)] 2 = Some (replicate 512 1)"
    by (simp_all add: slice_def)
  then show ?thesis using b' by force
qed

end
