(* ===== verification/Vol.thy ===== *)
theory Vol
  imports Usb_Disk
begin

text \<open>
  Volumes on USB drives, \<^verbatim>\<open>kernel/fs/vol.c\<close>: the table of volumes, the 64-entry write-through sector
  cache, the search for volumes on a drive and the calls the filesystem driver and the rest of the
  kernel make.

  A \<^verbatim>\<open>struct vol *\<close> is the index of its entry in \<open>vtab\<close>; a cache entry belongs to such an index or to
  nobody. The FAT driver (\<^verbatim>\<open>kernel/fs/fatfs.c\<close>) is the record \<open>fatfs\<close> of the functions \<^verbatim>\<open>vol.c\<close> calls
  on it, and \<open>root_dev\<close> is the answer of \<^verbatim>\<open>blkdev_usb_dev()\<close>, fixed once the system has booted.
  Strings are their bytes without the terminating NUL.
\<close>

subsection \<open>State\<close>

definition VOL_MAX :: nat where "VOL_MAX = 8"
definition MAX_DISKS :: nat where "MAX_DISKS = 8"
definition CACHE_N :: nat where "CACHE_N = 64"
definition BOUNCE :: nat where "BOUNCE = 65536"
definition VOL_NAME_MAX :: nat where "VOL_NAME_MAX = 64"

lemmas vol_consts = VOL_MAX_def MAX_DISKS_def CACHE_N_def BOUNCE_def VOL_NAME_MAX_def

datatype vol_kind = VOL_NONE | VOL_FAT | VOL_EXFAT | VOL_OTHER

record vol =
  vused :: bool
  vgen :: u32
  vdisk :: int
  disk_id :: u32
  vfirst :: u64
  vcount :: u64
  vtype :: vol_kind
  vlabel :: "u8 list"
  fsname :: "u8 list"
  vfs :: u64
  vtotal :: u64
  free_bytes :: u64
  free_known :: bool

record cent =
  cv :: "nat option"
  csec :: u64
  cage :: u32
  cdata :: "u8 list"

record 'h vs =
  vtab :: "vol list"
  scanned :: "u32 list"
  cache :: "cent list"
  cache_clock :: u32
  bounce :: "u8 list"
  sec0 :: "u8 list"
  vusb :: "'h usb"
  root_dev :: int

record 'h fatfs =
  fatfs_mount :: "nat \<Rightarrow> u8 list \<Rightarrow> 'h vs \<Rightarrow> bool \<times> 'h vs"
  fatfs_unmount :: "nat \<Rightarrow> 'h vs \<Rightarrow> 'h vs"
  fatfs_kind :: "nat \<Rightarrow> 'h vs \<Rightarrow> u8 list"
  fatfs_label :: "nat \<Rightarrow> 'h vs \<Rightarrow> u8 list"
  fatfs_size :: "nat \<Rightarrow> 'h vs \<Rightarrow> u64 option"
  fatfs_free :: "nat \<Rightarrow> 'h vs \<Rightarrow> u64 option \<times> 'h vs"

subsection \<open>Sectors of a volume\<close>

text \<open>
  The transfer loop of \<open>disk_rw\<close>, through the bounce buffer in pieces of at most 128 sectors; \<open>off\<close> is
  how far \<open>b\<close> has moved into the caller's buffer.
\<close>

definition piece :: "u32 \<Rightarrow> u32" where
  "piece n = (if n > 128 then 128 else n)"

lemma piece_decreases: "n \<noteq> 0 \<Longrightarrow> unat (n - piece n) < unat n"
  using unat_gt_0 [of n] by (auto simp: piece_def unat_sub word_le_nat_alt word_less_nat_alt)

function rd_pieces :: "'h hw \<Rightarrow> vol \<Rightarrow> u64 \<Rightarrow> u32 \<Rightarrow> nat \<Rightarrow> u8 list \<Rightarrow> 'h vs \<Rightarrow> bool \<times> u8 list \<times> 'h vs" where
  "rd_pieces hw v sec n off buf s =
     (if n = 0 then (True, buf, s)
      else let k = piece n; at = vfirst v + sec in
        if at + ucast k > 0xFFFFFFFF then (False, buf, s)
        else case usb_disk_read hw (vdisk v) (ucast at) k (bounce s) (vusb s) of
          (ok, bn, u) \<Rightarrow>
            let s1 = s\<lparr>bounce := bn, vusb := u\<rparr> in
            if \<not> ok then (False, buf, s1)
            else rd_pieces hw v (sec + ucast k) (n - k) (off + unat k * 512)
                   (take off buf @ take (unat k * 512) bn @ drop (off + unat k * 512) buf) s1)"
  by pat_completeness auto
termination
  by (relation "measure (\<lambda>(hw, v, sec, n, off, buf, s). unat n)") (auto simp: piece_decreases)

function wr_pieces :: "'h hw \<Rightarrow> vol \<Rightarrow> u64 \<Rightarrow> u32 \<Rightarrow> nat \<Rightarrow> u8 list \<Rightarrow> 'h vs \<Rightarrow> bool \<times> 'h vs" where
  "wr_pieces hw v sec n off buf s =
     (if n = 0 then (True, s)
      else let k = piece n; at = vfirst v + sec in
        if at + ucast k > 0xFFFFFFFF then (False, s)
        else let bn = take (unat k * 512) (drop off buf) @ drop (unat k * 512) (bounce s) in
          case usb_disk_write hw (vdisk v) (ucast at) k bn (vusb s) of
            (ok, u) \<Rightarrow>
              let s1 = s\<lparr>bounce := bn, vusb := u\<rparr> in
              if \<not> ok then (False, s1)
              else wr_pieces hw v (sec + ucast k) (n - k) (off + unat k * 512) buf s1)"
  by pat_completeness auto
termination
  by (relation "measure (\<lambda>(hw, v, sec, n, off, buf, s). unat n)") (auto simp: piece_decreases)

declare rd_pieces.simps [simp del] wr_pieces.simps [simp del]

definition disk_read :: "'h hw \<Rightarrow> vol \<Rightarrow> u64 \<Rightarrow> u32 \<Rightarrow> u8 list \<Rightarrow> 'h vs \<Rightarrow> bool \<times> u8 list \<times> 'h vs" where
  "disk_read hw v sec n buf s =
     (if sec + ucast n > vcount v \<or> sec + ucast n < sec then (False, buf, s) else rd_pieces hw v sec n 0 buf s)"

definition disk_write :: "'h hw \<Rightarrow> vol \<Rightarrow> u64 \<Rightarrow> u32 \<Rightarrow> u8 list \<Rightarrow> 'h vs \<Rightarrow> bool \<times> 'h vs" where
  "disk_write hw v sec n buf s =
     (if sec + ucast n > vcount v \<or> sec + ucast n < sec then (False, s) else wr_pieces hw v sec n 0 buf s)"

subsection \<open>The sector cache\<close>

definition cache_find :: "nat \<Rightarrow> u64 \<Rightarrow> 'h vs \<Rightarrow> nat option" where
  "cache_find i sec s = List.find (\<lambda>j. cv (cache s ! j) = Some i \<and> csec (cache s ! j) = sec) [0..<CACHE_N]"

definition cache_drop :: "nat \<Rightarrow> 'h vs \<Rightarrow> 'h vs" where
  "cache_drop i s = s\<lparr>cache := map (\<lambda>c. if cv c = Some i then c\<lparr>cv := None\<rparr> else c) (cache s)\<rparr>"

text \<open>The entry to reuse: the first free one met, or the oldest of those before it.\<close>

fun victim_from :: "cent list \<Rightarrow> nat \<Rightarrow> nat list \<Rightarrow> nat" where
  "victim_from cs c [] = c"
| "victim_from cs c (j # js) =
     (if cv (cs ! j) = None then j
      else victim_from cs (if cage (cs ! j) < cage (cs ! c) then j else c) js)"

definition victim :: "cent list \<Rightarrow> nat" where
  "victim cs = victim_from cs 0 [0..<CACHE_N]"

text \<open>\<open>vol_sector\<close> answers the index of the cache entry whose data the pointer would name.\<close>

definition touch :: "nat \<Rightarrow> 'h vs \<Rightarrow> 'h vs" where
  "touch j s = s\<lparr>cache_clock := cache_clock s + 1,
      cache := (cache s)[j := (cache s ! j)\<lparr>cage := cache_clock s + 1\<rparr>]\<rparr>"

definition vol_sector :: "'h hw \<Rightarrow> nat \<Rightarrow> u64 \<Rightarrow> 'h vs \<Rightarrow> nat option \<times> 'h vs" where
  "vol_sector hw i sec s =
     (case cache_find i sec s of
        Some j \<Rightarrow> (Some j, touch j s)
      | None \<Rightarrow>
          let j = victim (cache s);
              s1 = s\<lparr>cache := (cache s)[j := (cache s ! j)\<lparr>cv := None\<rparr>]\<rparr> in
          case disk_read hw (vtab s1 ! i) sec 1 (cdata (cache s1 ! j)) s1 of
            (ok, d, s2) \<Rightarrow>
              let s3 = s2\<lparr>cache := (cache s2)[j := (cache s2 ! j)\<lparr>cdata := d\<rparr>]\<rparr> in
              if \<not> ok then (None, s3)
              else (Some j, touch j (s3\<lparr>cache := (cache s3)[j := (cache s3 ! j)\<lparr>cv := Some i, csec := sec\<rparr>]\<rparr>)))"


definition vol_read :: "'h hw \<Rightarrow> nat \<Rightarrow> u64 \<Rightarrow> u32 \<Rightarrow> u8 list \<Rightarrow> 'h vs \<Rightarrow> bool \<times> u8 list \<times> 'h vs" where
  "vol_read hw i sec n buf s =
     (if n = 1 then
        case vol_sector hw i sec s of
          (None, s1) \<Rightarrow> (False, buf, s1)
        | (Some j, s1) \<Rightarrow> (True, take 512 (cdata (cache s1 ! j)) @ drop 512 buf, s1)
      else disk_read hw (vtab s ! i) sec n buf s)"

definition vol_write :: "'h hw \<Rightarrow> nat \<Rightarrow> u64 \<Rightarrow> u32 \<Rightarrow> u8 list \<Rightarrow> 'h vs \<Rightarrow> bool \<times> 'h vs" where
  "vol_write hw i sec n buf s =
     (case disk_write hw (vtab s ! i) sec n buf s of
        (ok, s1) \<Rightarrow>
          if \<not> ok then (False, s1)
          else (True, s1\<lparr>cache := map (\<lambda>c.
                 if cv c = Some i \<and> csec c \<ge> sec \<and> csec c < sec + ucast n
                 then c\<lparr>cdata := take 512 (drop (unat ((csec c - sec) * 512)) buf) @ drop 512 (cdata c)\<rparr> else c) (cache s1)\<rparr>))"

definition vol_sectors :: "nat \<Rightarrow> 'h vs \<Rightarrow> u64" where
  "vol_sectors i s = vcount (vtab s ! i)"

definition vol_fs :: "nat \<Rightarrow> 'h vs \<Rightarrow> u64" where
  "vol_fs i s = vfs (vtab s ! i)"

definition vol_set_fs :: "nat \<Rightarrow> u64 \<Rightarrow> 'h vs \<Rightarrow> 'h vs" where
  "vol_set_fs i fs s = s\<lparr>vtab := (vtab s)[i := (vtab s ! i)\<lparr>vfs := fs\<rparr>]\<rparr>"

subsection \<open>Finding volumes on a disk\<close>

definition is_fat_boot :: "u8 list \<Rightarrow> bool" where
  "is_fat_boot b =
     (if b ! 510 \<noteq> 0x55 \<or> b ! 511 \<noteq> 0xAA then False
      else if b ! 0 \<noteq> 0xEB \<and> b ! 0 \<noteq> 0xE9 then False
      else let bps = (ucast (b ! 11) OR push_bit 8 (ucast (b ! 12)) :: u32); spc = (ucast (b ! 13) :: u32) in
        if bps \<noteq> 512 \<or> spc = 0 \<or> spc AND (spc - 1) \<noteq> 0 then False
        else if b ! 16 = 0 \<or> (ucast (b ! 14) OR push_bit 8 (ucast (b ! 15)) :: u32) = 0 then False
        else True)"

definition EXFAT_SIG :: "u8 list" where "EXFAT_SIG = [0x45, 0x58, 0x46, 0x41, 0x54, 0x20, 0x20, 0x20]"
definition NTFS_SIG :: "u8 list" where "NTFS_SIG = [0x4E, 0x54, 0x46, 0x53, 0x20, 0x20, 0x20, 0x20]"

definition has_sig :: "u8 list \<Rightarrow> u8 list \<Rightarrow> bool" where
  "has_sig sig b = list_all (\<lambda>i. b ! (3 + i) = sig ! i) [0..<8]"

definition is_exfat_boot :: "u8 list \<Rightarrow> bool" where
  "is_exfat_boot b \<longleftrightarrow> has_sig EXFAT_SIG b \<and> b ! 510 = 0x55 \<and> b ! 511 = 0xAA"

definition sset :: "u8 list \<Rightarrow> nat \<Rightarrow> u8 list" where
  "sset src mx = take (mx - 1) (takeWhile (\<lambda>c. c \<noteq> 0) src)"

definition mount_name :: "nat \<Rightarrow> u8 list" where
  "mount_name i = [0x75, 0x73, 0x62] @ (if i = 0 then [] else [0x31 + of_nat i])"

definition upd_vol :: "nat \<Rightarrow> (vol \<Rightarrow> vol) \<Rightarrow> 'h vs \<Rightarrow> 'h vs" where
  "upd_vol i f s = s\<lparr>vtab := (vtab s)[i := f (vtab s ! i)]\<rparr>"

text \<open>What the boot sector is of, tried in the code's order; the FAT driver mounts what is its own.\<close>

definition mount_fat :: "'h fatfs \<Rightarrow> nat \<Rightarrow> 'h vs \<Rightarrow> 'h vs" where
  "mount_fat ff i s =
     (if is_exfat_boot (sec0 s) \<or> is_fat_boot (sec0 s) then
        case fatfs_mount ff i (sec0 s) s of
          (ok, s1) \<Rightarrow>
            if \<not> ok then s1
            else let s2 = upd_vol i (\<lambda>v. v\<lparr>vtype := if is_exfat_boot (sec0 s1) then VOL_EXFAT else VOL_FAT,
                                           fsname := sset (fatfs_kind ff i s1) 8\<rparr>) s1;
                     s3 = upd_vol i (\<lambda>v. v\<lparr>vlabel := fatfs_label ff i s2\<rparr>) s2
                 in (case fatfs_size ff i s3 of Some t \<Rightarrow> upd_vol i (\<lambda>v. v\<lparr>vtotal := t\<rparr>) s3 | None \<Rightarrow> s3)
      else s)"

definition classify_other :: "'h hw \<Rightarrow> nat \<Rightarrow> 'h vs \<Rightarrow> 'h vs" where
  "classify_other hw i s =
     (if vtype (vtab s ! i) \<noteq> VOL_NONE then s
      else if has_sig NTFS_SIG (sec0 s)
      then upd_vol i (\<lambda>v. v\<lparr>vtype := VOL_OTHER, fsname := [0x4E, 0x54, 0x46, 0x53]\<rparr>) s
      else case disk_read hw (vtab s ! i) 2 1 (sec0 s) s of
        (ok, d, s1) \<Rightarrow>
          let s2 = s1\<lparr>sec0 := d\<rparr> in
          if ok \<and> d ! 56 = 0x53 \<and> d ! 57 = 0xEF
          then upd_vol i (\<lambda>v. v\<lparr>vtype := VOL_OTHER, fsname := [0x65, 0x78, 0x74, 0x34]\<rparr>) s2
          else if is_fat_boot d
          then upd_vol i (\<lambda>v. v\<lparr>vtype := VOL_OTHER, fsname := [0x46, 0x41, 0x54, 0x31, 0x32]\<rparr>) s2
          else s2)"

definition free_slot :: "'h vs \<Rightarrow> nat" where
  "free_slot s = (case List.find (\<lambda>i. \<not> vused (vtab s ! i)) [0..<VOL_MAX] of Some i \<Rightarrow> i | None \<Rightarrow> VOL_MAX)"

definition add_volume :: "'h hw \<Rightarrow> 'h fatfs \<Rightarrow> int \<Rightarrow> u64 \<Rightarrow> u64 \<Rightarrow> 'h vs \<Rightarrow> 'h vs" where
  "add_volume hw ff dsk first count s =
     (let i = free_slot s in
      if i = VOL_MAX \<or> count < 16 then s
      else let s1 = upd_vol i (\<lambda>v. v\<lparr>vdisk := dsk, disk_id := usb_disk_id dsk (vusb s), vfirst := first,
                 vcount := count, vfs := 0, vlabel := [], vtotal := count * 512, free_known := False\<rparr>) s in
        case disk_read hw (vtab s1 ! i) 0 1 (sec0 s1) s1 of
          (ok, d, s2) \<Rightarrow>
            let s3 = s2\<lparr>sec0 := d\<rparr> in
            if \<not> ok then s3
            else let s4 = upd_vol i (\<lambda>v. v\<lparr>vtype := VOL_NONE\<rparr>) s3;
                     s5 = classify_other hw i (mount_fat ff i s4)
              in if vtype (vtab s5 ! i) = VOL_NONE then s5
                 else upd_vol i (\<lambda>v. v\<lparr>vused := True, vgen := vgen v + 1\<rparr>) s5)"

definition mbr_part :: "u8 list \<Rightarrow> nat \<Rightarrow> bool \<times> u64 \<times> u64" where
  "mbr_part b i =
     (let e = 446 + 16 * i in
      if b ! (e + 4) = 0xEE then (True, 0, 0)
      else if b ! (e + 4) \<noteq> 0 \<and> b ! (e + 4) \<noteq> 0x05 \<and> b ! (e + 4) \<noteq> 0x0F
      then (False, ucast (le32 b (e + 8)), ucast (le32 b (e + 12)))
      else (False, 0, 0))"

fun scan_mbr :: "'h hw \<Rightarrow> 'h fatfs \<Rightarrow> int \<Rightarrow> u32 \<Rightarrow> (u64 \<times> u64) list \<Rightarrow> 'h vs \<Rightarrow> 'h vs" where
  "scan_mbr hw ff d blocks [] s = s"
| "scan_mbr hw ff d blocks ((f, n) # ps) s =
     scan_mbr hw ff d blocks ps
       (if n \<noteq> 0 \<and> f + n \<le> ucast blocks then add_volume hw ff d f n s else s)"

fun scan_gpt :: "'h hw \<Rightarrow> 'h fatfs \<Rightarrow> int \<Rightarrow> u32 \<Rightarrow> u64 \<Rightarrow> u32 \<Rightarrow> u32 \<Rightarrow> nat \<Rightarrow> 'h vs \<Rightarrow> 'h vs" where
  "scan_gpt hw ff d blocks tbl esize i 0 s = s"
| "scan_gpt hw ff d blocks tbl esize i (Suc k) s =
     (let at = ucast i * ucast esize :: u64 in
      case usb_disk_read hw d (ucast (tbl + at div 512)) 1 (bounce s) (vusb s) of
        (ok, bn, u) \<Rightarrow>
          let s1 = s\<lparr>bounce := bn, vusb := u\<rparr>; e = unat (at mod 512) in
          if \<not> ok then s1
          else if list_all (\<lambda>j. bn ! (e + j) = 0) [0..<16] then scan_gpt hw ff d blocks tbl esize (i + 1) k s1
          else let first = le64 bn (e + 32); last = le64 bn (e + 40) in
            if last < first \<or> last \<ge> ucast blocks then scan_gpt hw ff d blocks tbl esize (i + 1) k s1
            else scan_gpt hw ff d blocks tbl esize (i + 1) k (add_volume hw ff d first (last - first + 1) s1))"

definition scan_gpt_table :: "'h hw \<Rightarrow> 'h fatfs \<Rightarrow> int \<Rightarrow> u32 \<Rightarrow> 'h vs \<Rightarrow> 'h vs" where
  "scan_gpt_table hw ff d blocks s =
     (case usb_disk_read hw d 1 1 (bounce s) (vusb s) of
        (ok, bn, u) \<Rightarrow>
          let s1 = s\<lparr>bounce := bn, vusb := u\<rparr> in
          if \<not> ok \<or> le64 bn 0 \<noteq> 0x5452415020494645 then s1
          else let tbl = le64 bn 72; entries = le32 bn 80; esize = le32 bn 84 in
            if esize < 128 \<or> esize > 512 \<or> entries > 256 then s1
            else scan_gpt hw ff d blocks tbl esize 0 (unat entries) s1)"

definition scan_disk :: "'h hw \<Rightarrow> 'h fatfs \<Rightarrow> int \<Rightarrow> 'h vs \<Rightarrow> 'h vs" where
  "scan_disk hw ff d s =
     (case usb_disk_capacity hw d (vusb s) of
        (None, u) \<Rightarrow> s\<lparr>vusb := u\<rparr>
      | (Some (blocks, bs), u) \<Rightarrow>
          if bs \<noteq> 512 then s\<lparr>vusb := u\<rparr>
          else case usb_disk_read hw d 0 1 (bounce s) u of
            (ok, bn, u1) \<Rightarrow>
              let s1 = s\<lparr>bounce := bn, vusb := u1\<rparr> in
              if \<not> ok then s1
              else let b = take 512 bn; s2 = s1\<lparr>sec0 := b\<rparr> in
                if is_exfat_boot b \<or> is_fat_boot b then add_volume hw ff d 0 (ucast blocks) s2
                else if b ! 510 \<noteq> 0x55 \<or> b ! 511 \<noteq> 0xAA then s2
                else let es = map (mbr_part b) [0..<4] in
                  if \<not> list_ex fst es then scan_mbr hw ff d blocks (map snd es) s2
                  else scan_gpt_table hw ff d blocks s2)"

subsection \<open>Drives coming and going\<close>

definition unmount_slot :: "'h fatfs \<Rightarrow> nat \<Rightarrow> 'h vs \<Rightarrow> 'h vs" where
  "unmount_slot ff i s =
     upd_vol i (\<lambda>v. v\<lparr>vused := False, vgen := vgen v + 1\<rparr>) (cache_drop i (fatfs_unmount ff i s))"

definition forget_gone :: "'h fatfs \<Rightarrow> nat \<Rightarrow> 'h vs \<Rightarrow> 'h vs" where
  "forget_gone ff i s =
     (if \<not> vused (vtab s ! i) \<or> usb_disk_id (vdisk (vtab s ! i)) (vusb s) = disk_id (vtab s ! i) then s
      else unmount_slot ff i s)"

definition look_at :: "'h hw \<Rightarrow> 'h fatfs \<Rightarrow> int \<Rightarrow> nat \<Rightarrow> 'h vs \<Rightarrow> 'h vs" where
  "look_at hw ff nd d s =
     (let did = (if int d < nd then usb_disk_id (int d) (vusb s) else 0) in
      if did = scanned s ! d then s
      else let s1 = s\<lparr>scanned := (scanned s)[d := did]\<rparr> in
        if did = 0 \<or> int d = root_dev s1 then s1 else scan_disk hw ff (int d) s1)"

definition count_used :: "'h vs \<Rightarrow> nat" where
  "count_used s = length (filter (\<lambda>i. vused (vtab s ! i)) [0..<VOL_MAX])"

definition vol_refresh :: "'h hw \<Rightarrow> 'h fatfs \<Rightarrow> 'h vs \<Rightarrow> nat \<times> 'h vs" where
  "vol_refresh hw ff s =
     (let s1 = fold (forget_gone ff) [0..<VOL_MAX] s;
          nd = usb_disk_count (vusb s1);
          s2 = fold (look_at hw ff nd) [0..<MAX_DISKS] s1
      in (count_used s2, s2))"

subsection \<open>What the rest of the kernel asks\<close>

record vol_info =
  vi_index :: nat
  vi_type :: vol_kind
  vi_mount :: "u8 list"
  vi_label :: "u8 list"
  vi_fs :: "u8 list"
  vi_total :: u64
  vi_free :: u64
  vi_disk :: int

text \<open>The drive's own name (\<^verbatim>\<open>usb_disk_name\<close>) is the one field of \<^verbatim>\<open>struct vol_info\<close> left out.\<close>

definition info_of :: "'h vs \<Rightarrow> nat \<Rightarrow> vol_info" where
  "info_of s i = (let v = vtab s ! i in
     \<lparr>vi_index = i, vi_type = vtype v, vi_mount = mount_name i, vi_label = sset (vlabel v) VOL_NAME_MAX,
      vi_fs = sset (fsname v) 8, vi_total = vtotal v, vi_free = (if free_known v then free_bytes v else 0),
      vi_disk = vdisk v\<rparr>)"

definition vol_list :: "'h hw \<Rightarrow> 'h fatfs \<Rightarrow> nat \<Rightarrow> 'h vs \<Rightarrow> vol_info list \<times> 'h vs" where
  "vol_list hw ff mx s =
     (let s1 = snd (vol_refresh hw ff s)
      in (map (info_of s1) (take mx (filter (\<lambda>i. vused (vtab s1 ! i)) [0..<VOL_MAX])), s1))"

definition vol_get :: "'h hw \<Rightarrow> 'h fatfs \<Rightarrow> int \<Rightarrow> 'h vs \<Rightarrow> nat option \<times> 'h vs" where
  "vol_get hw ff i s =
     (if i < 0 \<or> i \<ge> int VOL_MAX then (None, s)
      else let s1 = snd (vol_refresh hw ff s)
           in (if vused (vtab s1 ! nat i) then Some (nat i) else None, s1))"

definition vol_space :: "'h hw \<Rightarrow> 'h fatfs \<Rightarrow> int \<Rightarrow> 'h vs \<Rightarrow> (u64 \<times> u64) option \<times> 'h vs" where
  "vol_space hw ff i s =
     (case vol_get hw ff i s of
        (None, s1) \<Rightarrow> (None, s1)
      | (Some j, s1) \<Rightarrow>
          let v = vtab s1 ! j;
              s2 = (if \<not> free_known v \<and> (vtype v = VOL_FAT \<or> vtype v = VOL_EXFAT)
                    then case fatfs_free ff j s1 of
                           (Some f, s') \<Rightarrow> upd_vol j (\<lambda>v. v\<lparr>free_bytes := f, free_known := True\<rparr>) s'
                         | (None, s') \<Rightarrow> s'
                    else s1)
          in (Some (vtotal (vtab s2 ! j), if free_known (vtab s2 ! j) then free_bytes (vtab s2 ! j) else 0), s2))"

text \<open>\<^verbatim>\<open>(uint64_t)-delta\<close> and \<^verbatim>\<open>free_bytes += delta\<close> on the two's complement of \<open>delta\<close>.\<close>

definition vol_free_changed :: "nat \<Rightarrow> int \<Rightarrow> 'h vs \<Rightarrow> 'h vs" where
  "vol_free_changed i delta s =
     (let v = vtab s ! i in
      if \<not> free_known v then s
      else if delta < 0 \<and> (word_of_int (- delta) :: u64) > free_bytes v
      then upd_vol i (\<lambda>v. v\<lparr>free_bytes := 0\<rparr>) s
      else upd_vol i (\<lambda>v. v\<lparr>free_bytes := free_bytes v + word_of_int delta\<rparr>) s)"

definition mount_index :: "u8 list \<Rightarrow> (nat \<times> u8 list) option" where
  "mount_index path =
     (if length path < 4 \<or> take 4 path \<noteq> [0x2F, 0x75, 0x73, 0x62] then None
      else let p = drop 4 path;
               (i, q) = (if p \<noteq> [] \<and> hd p \<ge> 0x32 \<and> hd p \<le> 0x39 then (unat (hd p) - 0x31, tl p) else (0, p))
           in if q \<noteq> [] \<and> hd q \<noteq> 0x2F then None
              else if i \<ge> VOL_MAX then None
              else Some (i, if q \<noteq> [] then q else [0x2F]))"

definition vol_of_path :: "'h hw \<Rightarrow> 'h fatfs \<Rightarrow> u8 list \<Rightarrow> 'h vs \<Rightarrow> (nat \<times> u8 list) option \<times> 'h vs" where
  "vol_of_path hw ff path s =
     (case mount_index path of
        None \<Rightarrow> (None, s)
      | Some (i, rest) \<Rightarrow>
          let s1 = snd (vol_refresh hw ff s)
          in (if vused (vtab s1 ! i) then Some (i, rest) else None, s1))"

definition vol_mounts :: "'h hw \<Rightarrow> 'h fatfs \<Rightarrow> nat \<Rightarrow> 'h vs \<Rightarrow> u8 list list \<times> 'h vs" where
  "vol_mounts hw ff mx s =
     (let s1 = snd (vol_refresh hw ff s)
      in (map mount_name (take mx (filter (\<lambda>i. vused (vtab s1 ! i)) [0..<VOL_MAX])), s1))"

definition vol_eject :: "'h fatfs \<Rightarrow> int \<Rightarrow> 'h vs \<Rightarrow> bool \<times> 'h vs" where
  "vol_eject ff i s =
     (if i < 0 \<or> i \<ge> int VOL_MAX \<or> \<not> vused (vtab s ! nat i) then (False, s)
      else let d = vdisk (vtab s ! nat i)
           in (True, fold (\<lambda>k t. if \<not> vused (vtab t ! k) \<or> vdisk (vtab t ! k) \<noteq> d then t else unmount_slot ff k t)
                       [0..<VOL_MAX] s))"

definition vol_disk :: "int \<Rightarrow> 'h vs \<Rightarrow> int" where
  "vol_disk i s = (if i \<ge> 0 \<and> i < int VOL_MAX \<and> vused (vtab s ! nat i) then vdisk (vtab s ! nat i) else -1)"

definition vol_gen :: "int \<Rightarrow> 'h vs \<Rightarrow> u32" where
  "vol_gen i s = (if i \<ge> 0 \<and> i < int VOL_MAX then vgen (vtab s ! nat i) else 0)"

definition vol_type :: "int \<Rightarrow> 'h vs \<Rightarrow> vol_kind" where
  "vol_type i s = (if i \<ge> 0 \<and> i < int VOL_MAX \<and> vused (vtab s ! nat i) then vtype (vtab s ! nat i) else VOL_NONE)"

subsection \<open>The transfer loop is exact\<close>



definition blocks512 :: "'h usb \<Rightarrow> bool" where
  "blocks512 u \<longleftrightarrow> length (mscs u) = MAX_MSC \<and> (\<forall>e \<in> set (mscs u). mbsize e = 512)"






text \<open>A volume that ends below the 2 TiB a 32-bit block address reaches.\<close>

definition vol_fits :: "vol \<Rightarrow> bool" where
  "vol_fits v \<longleftrightarrow> unat (vfirst v) + unat (vcount v) \<le> 2 ^ 32"




definition same_but_bus :: "'h vs \<Rightarrow> 'h vs \<Rightarrow> bool" where
  "same_but_bus s s' \<longleftrightarrow> vtab s' = vtab s \<and> cache s' = cache s \<and> scanned s' = scanned s \<and> cache_clock s' = cache_clock s
     \<and> sec0 s' = sec0 s \<and> root_dev s' = root_dev s"

definition bus_ok :: "'h vs \<Rightarrow> bool" where
  "bus_ok s \<longleftrightarrow> blocks512 (vusb s) \<and> length (bounce s) = BOUNCE"

lemma same_but_bus_simps [simp]:
  "same_but_bus s s" "same_but_bus (s\<lparr>bounce := b, vusb := u\<rparr>) s' = same_but_bus s s'"
  by (simp_all add: same_but_bus_def)






subsection \<open>The cache holds what the drive holds\<close>

definition on_drive :: "('h \<Rightarrow> nat \<Rightarrow> nat \<Rightarrow> u8 list) \<Rightarrow> 'h vs \<Rightarrow> nat \<Rightarrow> u64 \<Rightarrow> u8 list" where
  "on_drive media s i sec =
     media (wire (vusb s)) (nat (vdisk (vtab s ! i))) (unat (vfirst (vtab s ! i)) + unat sec)"

text \<open>
  \<open>live\<close> is the set of volumes in use. The invariant: every cached sector is a sector of a live volume
  and holds what that sector of the drive holds, no sector is cached twice, and live volumes on one
  drive do not overlap.
\<close>

definition coherent :: "('h \<Rightarrow> nat \<Rightarrow> nat \<Rightarrow> u8 list) \<Rightarrow> nat set \<Rightarrow> 'h vs \<Rightarrow> bool" where
  "coherent media live s \<longleftrightarrow> (\<forall>j < CACHE_N. \<forall>i. cv (cache s ! j) = Some i \<longrightarrow>
     i \<in> live \<and> unat (csec (cache s ! j)) < unat (vcount (vtab s ! i))
     \<and> cdata (cache s ! j) = on_drive media s i (csec (cache s ! j)))"

definition once :: "cent list \<Rightarrow> bool" where
  "once cs \<longleftrightarrow> (\<forall>j j' i. j < CACHE_N \<longrightarrow> j' < CACHE_N \<longrightarrow> cv (cs ! j) = Some i \<longrightarrow> cv (cs ! j') = Some i
     \<longrightarrow> csec (cs ! j) = csec (cs ! j') \<longrightarrow> j = j')"

definition cache_ok :: "'h vs \<Rightarrow> bool" where
  "cache_ok s \<longleftrightarrow> length (cache s) = CACHE_N \<and> (\<forall>j < CACHE_N. length (cdata (cache s ! j)) = 512) \<and> once (cache s)"

definition apart :: "nat set \<Rightarrow> 'h vs \<Rightarrow> bool" where
  "apart live s \<longleftrightarrow> (\<forall>i \<in> live. i < VOL_MAX \<and> vol_fits (vtab s ! i) \<and> 0 \<le> vdisk (vtab s ! i))
     \<and> (\<forall>i \<in> live. \<forall>i' \<in> live. i \<noteq> i' \<and> vdisk (vtab s ! i) = vdisk (vtab s ! i') \<longrightarrow>
          unat (vfirst (vtab s ! i)) + unat (vcount (vtab s ! i)) \<le> unat (vfirst (vtab s ! i'))
          \<or> unat (vfirst (vtab s ! i')) + unat (vcount (vtab s ! i')) \<le> unat (vfirst (vtab s ! i)))"

definition vol_inv :: "('h \<Rightarrow> nat \<Rightarrow> nat \<Rightarrow> u8 list) \<Rightarrow> nat set \<Rightarrow> 'h vs \<Rightarrow> bool" where
  "vol_inv media live s \<longleftrightarrow> coherent media live s \<and> cache_ok s \<and> apart live s \<and> bus_ok s"






lemma touch_simps [simp]:
  "vtab (touch j s) = vtab s" "vusb (touch j s) = vusb s" "bounce (touch j s) = bounce s" "sec0 (touch j s) = sec0 s"
  "length (cache (touch j s)) = length (cache s)"
  by (simp_all add: touch_def)

lemma touch_entry:
  assumes "j < length (cache s)"
  shows "cv (cache (touch j s) ! k) = cv (cache s ! k)" "csec (cache (touch j s) ! k) = csec (cache s ! k)"
    "cdata (cache (touch j s) ! k) = cdata (cache s ! k)"
  using assms by (auto simp: touch_def nth_list_update)

lemma on_drive_cong:
  "vtab s' = vtab s \<Longrightarrow> (\<And>m k. media (wire (vusb s')) m k = media (wire (vusb s)) m k) \<Longrightarrow> on_drive media s' i sec = on_drive media s i sec"
  by (simp add: on_drive_def)















subsection \<open>Any sequence of calls\<close>







subsection \<open>A drive that fails halfway\<close>

definition half_hw :: "platters hw" where
  "half_hw = (demo_hw 2000)\<lparr>bot_xfer := (\<lambda>m cdb dir_in buf len u.
     if \<not> dir_in \<and> cdb_lba cdb \<ge> 128 then (1, buf, u) else demo_bot 2000 m cdb dir_in buf len u)\<rparr>"


definition demo_vol :: vol where
  "demo_vol = \<lparr>vused = True, vgen = 1, vdisk = 0, disk_id = 1, vfirst = 0, vcount = 1000, vtype = VOL_FAT, vlabel = [],
     fsname = [], vfs = 0, vtotal = 512000, free_bytes = 0, free_known = False\<rparr>"

definition demo_vs :: "platters vs" where
  "demo_vs = \<lparr>vtab = demo_vol # replicate 7 (demo_vol\<lparr>vused := False\<rparr>), scanned = replicate 8 0,
     cache = \<lparr>cv = Some 0, csec = 5, cage = 1, cdata = replicate 512 0\<rparr>
       # replicate 63 \<lparr>cv = None, csec = 0, cage = 0, cdata = replicate 512 0\<rparr>, cache_clock = 1,
     bounce = replicate BOUNCE 0, sec0 = replicate 512 0,
     vusb = \<lparr>mscs = replicate 8 \<lparr>msc_used = True, msc_id = 1, mbsize = 512, mblocks = 2000\<rparr>, wire = (\<lambda>_ _. replicate 512 0)\<rparr>,
     root_dev = -1\<rparr>"

lemma demo_cache: "cache demo_vs ! j = (if j = 0 then \<lparr>cv = Some 0, csec = 5, cage = 1, cdata = replicate 512 0\<rparr>
    else \<lparr>cv = None, csec = 0, cage = 0, cdata = replicate 512 0\<rparr>)" if "j < CACHE_N"
  using that by (simp add: demo_vs_def CACHE_N_def nth_Cons')

lemma demo_vol_inv: "vol_inv platter {0} demo_vs"
proof -
  have "coherent platter {0} demo_vs" unfolding coherent_def
    by (auto simp: demo_cache split: if_splits) (simp_all add: demo_vs_def demo_vol_def on_drive_def platter_def)
  moreover have "cache_ok demo_vs"
    by (auto simp: cache_ok_def once_def demo_cache split: if_splits) (simp_all add: demo_vs_def CACHE_N_def)
  moreover have "apart {0} demo_vs" by (simp add: apart_def demo_vs_def demo_vol_def vol_fits_def VOL_MAX_def)
  moreover have "bus_ok demo_vs" by (simp add: bus_ok_def blocks512_def demo_vs_def MAX_MSC_def)
  ultimately show ?thesis by (simp add: vol_inv_def)
qed

subsection \<open>Properties\<close>














definition half_done :: "platters usb" where
  "half_done = (vusb demo_vs)\<lparr>wire := (\<lambda>_ _. replicate 512 0)(0 := (\<lambda>k. if k < 128 then replicate 512 7 else replicate 512 0))\<rparr>"

lemma half_first:
  "usb_disk_write half_hw 0 0 128 (replicate 65536 7) (vusb demo_vs) = (True, half_done)"
proof -
  have "take 512 (drop (512 * k) (replicate 65536 7)) = replicate 512 (7 :: u8)" if "k < 128" for k :: nat
    using that by (simp add: min_def)
  then have w: "(\<lambda>k. if k < 128 then take 512 (drop (512 * k) (replicate 65536 7)) else replicate 512 0)
    = (\<lambda>k. if k < 128 then replicate 512 7 else replicate 512 (0 :: u8))"
    by (intro ext) (simp del: take_replicate drop_replicate)
  have d: "disk 0 (vusb demo_vs) = Some 0" and wi: "wire (vusb demo_vs) = (\<lambda>_ _. replicate 512 0)"
    by (simp_all add: disk_def demo_vs_def MAX_MSC_def)
  have "bot_xfer half_hw 0 (rw10_cdb 0x2A 0 128) False (replicate 65536 7) len (vusb demo_vs)
      = (0, replicate 65536 7, half_done)" for len
    by (simp add: half_hw_def demo_bot_def cdb_lba_rw10 cdb_count_rw10 wi w half_done_def
        cong: if_cong del: take_replicate drop_replicate)
  then show ?thesis by (simp add: usb_disk_write_def d)
qed

lemma half_write:
  "disk_write half_hw demo_vol 0 200 (replicate 102400 7) demo_vs
     = (False, demo_vs\<lparr>bounce := replicate 36864 7 @ replicate 28672 7, vusb := half_done\<rparr>)"
proof -
  have b: "bounce demo_vs = replicate 65536 0" by (simp add: demo_vs_def BOUNCE_def)
  have v: "vfirst demo_vol = 0" "vdisk demo_vol = 0" "vcount demo_vol = 1000" by (simp_all add: demo_vol_def)
  have p: "piece 200 = 128" "piece 72 = 72" by (simp_all add: piece_def)
  have "disk 0 half_done = Some 0" by (simp add: half_done_def disk_def demo_vs_def MAX_MSC_def)
  then have "usb_disk_write half_hw 0 128 72 buf half_done = (False, half_done)" for buf
    by (simp add: usb_disk_write_def half_hw_def cdb_lba_rw10)
  then have "wr_pieces half_hw demo_vol 128 72 65536 (replicate 102400 7) (demo_vs\<lparr>bounce := replicate 65536 7, vusb := half_done\<rparr>)
      = (False, demo_vs\<lparr>bounce := replicate 36864 7 @ replicate 28672 7, vusb := half_done\<rparr>)"
    by (subst wr_pieces.simps) (simp add: Let_def v p)
  moreover have "wr_pieces half_hw demo_vol 0 200 0 (replicate 102400 7) demo_vs
      = wr_pieces half_hw demo_vol 128 72 65536 (replicate 102400 7) (demo_vs\<lparr>bounce := replicate 65536 7, vusb := half_done\<rparr>)"
    by (subst wr_pieces.simps) (simp add: Let_def v p b half_first)
  ultimately show ?thesis by (simp add: disk_write_def v)
qed

text \<open>
  C23. A write longer than one piece that fails on a later piece leaves the cache stale: the drive already
  holds the new data of the earlier piece, and a cached read of it still answers the old data. The
  comment that the drive always has what the cache has holds only while no write fails.
\<close>

theorem vol_write_half_stale:
  "vol_inv platter {0} demo_vs
   \<and> (case vol_write half_hw 0 0 200 (replicate 102400 7) demo_vs of
        (ok, s') \<Rightarrow> \<not> ok \<and> on_drive platter s' 0 5 = replicate 512 7
          \<and> fst (vol_read half_hw 0 5 1 (replicate 512 9) s')
          \<and> fst (snd (vol_read half_hw 0 5 1 (replicate 512 9) s')) = replicate 512 0)"
proof -
  define s' where "s' = demo_vs\<lparr>bounce := replicate 36864 7 @ replicate 28672 7, vusb := half_done\<rparr>"
  have v0: "vtab demo_vs ! 0 = demo_vol" by (simp add: demo_vs_def)
  have w: "vol_write half_hw 0 0 200 (replicate 102400 7) demo_vs = (False, s')"
    by (simp add: vol_write_def v0 half_write s'_def)
  have c: "cache s' = cache demo_vs" "vtab s' = vtab demo_vs" "vusb s' = half_done" by (simp_all add: s'_def)
  have f: "cache_find 0 5 s' = Some 0"
    by (simp add: cache_find_def c CACHE_N_def) (simp add: demo_vs_def upt_rec)
  have "vol_read half_hw 0 5 1 (replicate 512 9) s' = (True, replicate 512 0, touch 0 s')"
  proof -
    have "0 < length (cache s')" by (simp add: c demo_vs_def)
    then have "cdata (cache (touch 0 s') ! 0) = replicate 512 0"
      using touch_entry(3) [of 0 s' 0] c by (simp add: demo_vs_def)
    then show ?thesis by (simp add: vol_read_def vol_sector_def f)
  qed
  moreover have "on_drive platter s' 0 5 = replicate 512 7"
    by (simp add: on_drive_def c v0 half_done_def platter_def demo_vol_def)
  ultimately show ?thesis using demo_vol_inv w by simp
qed

subsection \<open>Mount points\<close>

lemma mount_name_last: "0 < i \<Longrightarrow> i < 8 \<Longrightarrow> unat (0x31 + of_nat i :: u8) = 0x31 + i"
  by (subst unat_add_small) (simp_all add: unat_of_nat_small)

text \<open>
  \<open>vol_of_path\<close> recognises exactly the mount points: a path is under volume \<open>i\<close> with remainder \<open>r\<close>
  just when it is a slash, the mount name of \<open>i\<close>, and then nothing (the remainder is the root) or the
  remainder, which begins with a slash.
\<close>

theorem mount_index_exact:
  "mount_index path = Some (i, r) \<longleftrightarrow>
     i < VOL_MAX \<and> (\<exists>q. path = 0x2F # mount_name i @ q \<and> (q = [] \<and> r = [0x2F] \<or> (\<exists>q'. q = 0x2F # q' \<and> r = q)))"
    (is "?L \<longleftrightarrow> ?R")
proof
  assume L: ?L
  have p4: "path = [0x2F, 0x75, 0x73, 0x62] @ drop 4 path"
  proof -
    have "take 4 path = [0x2F, 0x75, 0x73, 0x62]" using L by (auto simp: mount_index_def split: if_splits)
    then show ?thesis using append_take_drop_id [of 4 path] by metis
  qed
  define p where "p = drop 4 path"
  show ?R
  proof (cases "p \<noteq> [] \<and> hd p \<ge> 0x32 \<and> hd p \<le> 0x39")
    case True
    have i: "i = unat (hd p) - 0x31" "i < VOL_MAX" and q: "tl p = [] \<and> r = [0x2F] \<or> (\<exists>q'. tl p = 0x2F # q' \<and> r = tl p)"
      using L True by (auto simp: mount_index_def p_def [symmetric] Let_def split: if_splits; cases "tl p"; auto)+
    have "0x32 \<le> unat (hd p)" using True by (simp add: word_le_nat_alt)
    then have ip: "0 < i" "i < 8" and "unat (hd p) = 0x31 + i" using i by (simp_all add: VOL_MAX_def)
    then have "hd p = 0x31 + of_nat i" using mount_name_last [of i] by (simp add: word_unat_eq_iff)
    then have "p = (0x31 + of_nat i) # tl p" using True by (metis list.collapse)
    then have "path = [0x2F, 0x75, 0x73, 0x62] @ (0x31 + of_nat i) # tl p" using p4 unfolding p_def by simp
    then have "path = 0x2F # mount_name i @ tl p" using ip by (simp add: mount_name_def)
    then show ?thesis using i(2) q by blast
  next
    case False
    then have i: "i = 0" and q: "p = [] \<and> r = [0x2F] \<or> (\<exists>q'. p = 0x2F # q' \<and> r = p)"
      using L by (auto simp: mount_index_def p_def [symmetric] Let_def split: if_splits; cases p; auto)+
    have "path = 0x2F # mount_name 0 @ p" using p4 by (simp add: p_def mount_name_def)
    then show ?thesis using i q by (auto simp: VOL_MAX_def)
  qed
next
  assume ?R
  then obtain q where i: "i < 8" and path: "path = 0x2F # mount_name i @ q"
    and q: "q = [] \<and> r = [0x2F] \<or> (\<exists>q'. q = 0x2F # q' \<and> r = q)" by (auto simp: VOL_MAX_def)
  show ?L
  proof (cases "i = 0")
    case True
    then show ?thesis using q by (auto simp: path mount_name_def mount_index_def VOL_MAX_def Let_def)
  next
    case False
    then have u: "unat (0x31 + of_nat i :: u8) = 0x31 + i" using mount_name_last i by simp
    then have "0x32 \<le> (0x31 + of_nat i :: u8)" "(0x31 + of_nat i :: u8) \<le> 0x39" using False i by (simp_all add: word_le_nat_alt)
    then show ?thesis using q u False i by (auto simp: path mount_name_def mount_index_def VOL_MAX_def Let_def)
  qed
qed

subsection \<open>The system's own stick is never a volume\<close>

text \<open>What the volume table says of where things are, and what the FAT driver's calls leave alone.\<close>

definition geometry :: "'h vs \<Rightarrow> (bool \<times> int \<times> u64 \<times> u64) list \<times> int" where
  "geometry s = (map (\<lambda>v. (vused v, vdisk v, vfirst v, vcount v)) (vtab s), root_dev s)"

definition driver_keeps_table :: "'h fatfs \<Rightarrow> bool" where
  "driver_keeps_table ff \<longleftrightarrow>
     (\<forall>i b s. geometry (snd (fatfs_mount ff i b s)) = geometry s)
   \<and> (\<forall>i s. geometry (fatfs_unmount ff i s) = geometry s)
   \<and> (\<forall>i s. geometry (snd (fatfs_free ff i s)) = geometry s)"

definition vols_right :: "'h vs \<Rightarrow> bool" where
  "vols_right s \<longleftrightarrow> length (vtab s) = VOL_MAX
     \<and> (\<forall>v \<in> set (vtab s). vused v \<longrightarrow> vdisk v \<noteq> root_dev s \<and> vol_fits v)"

lemma vols_right_geometry:
  fixes s s' :: "'h vs"
  assumes "geometry s' = geometry s"
  shows "vols_right s' = vols_right s"
proof -
  let ?g = "\<lambda>v. (vused v, vdisk v, vfirst v, vcount v)"
  have "vols_right t \<longleftrightarrow> length (fst (geometry t)) = VOL_MAX
     \<and> (\<forall>(u, d, f, c) \<in> set (fst (geometry t)). u \<longrightarrow> d \<noteq> snd (geometry t) \<and> unat f + unat c \<le> 2 ^ 32)" for t :: "'h vs"
    by (simp add: vols_right_def geometry_def vol_fits_def)
  then show ?thesis using assms by simp
qed

lemma geometry_root: "geometry a = geometry b \<Longrightarrow> root_dev a = root_dev b"
  by (simp add: geometry_def)

lemma geometry_simps [simp]:
  "geometry (s\<lparr>bounce := b\<rparr>) = geometry s" "geometry (s\<lparr>vusb := u\<rparr>) = geometry s"
  "geometry (s\<lparr>sec0 := d\<rparr>) = geometry s" "geometry (s\<lparr>scanned := x\<rparr>) = geometry s"
  "geometry (s\<lparr>cache := c\<rparr>) = geometry s" "geometry (cache_drop i s) = geometry s"
  by (simp_all add: geometry_def cache_drop_def)

lemma rd_pieces_geometry: "geometry (snd (snd (rd_pieces hw v sec n off buf s))) = geometry s"
proof (induction hw v sec n off buf s rule: rd_pieces.induct)
  case (1 hw v sec n off buf s)
  show ?case
    by (subst rd_pieces.simps) (use "1.IH" in \<open>auto simp: Let_def split: prod.splits\<close>)
qed

lemma disk_read_geometry: "disk_read hw v sec n buf s = (ok, d, s') \<Longrightarrow> geometry s' = geometry s"
  using rd_pieces_geometry [of hw v sec n 0 buf s] by (auto simp: disk_read_def split: if_splits)

lemma upd_vol_geometry:
  assumes "\<And>v. (vused (f v), vdisk (f v), vfirst (f v), vcount (f v)) = (vused v, vdisk v, vfirst v, vcount v)"
  shows "geometry (upd_vol i f s) = geometry s"
proof (cases "i < length (vtab s)")
  case True
  let ?g = "\<lambda>v. (vused v, vdisk v, vfirst v, vcount v)"
  have "map ?g ((vtab s)[i := f (vtab s ! i)]) = (map ?g (vtab s))[i := ?g (vtab s ! i)]"
    by (simp only: map_update assms)
  also have "\<dots> = (map ?g (vtab s))[i := map ?g (vtab s) ! i]" by (simp only: nth_map [OF True])
  finally show ?thesis by (simp only: geometry_def upd_vol_def list_update_id) simp
next
  case False
  then show ?thesis by (simp add: geometry_def upd_vol_def list_update_beyond)
qed

lemma mount_fat_geometry:
  assumes "driver_keeps_table ff"
  shows "geometry (mount_fat ff i s) = geometry s"
proof -
  obtain ok s1 where m: "fatfs_mount ff i (sec0 s) s = (ok, s1)" by (metis surj_pair)
  have "geometry s1 = geometry s" using assms m unfolding driver_keeps_table_def by (metis snd_conv)
  then show ?thesis
    by (simp add: mount_fat_def m Let_def upd_vol_geometry split: option.splits)
qed

lemma classify_geometry: "geometry (classify_other hw i s) = geometry s"
proof -
  obtain ok d s1 where r: "disk_read hw (vtab s ! i) 2 1 (sec0 s) s = (ok, d, s1)" by (metis surj_pair)
  show ?thesis using disk_read_geometry [OF r]
    by (simp add: classify_other_def r Let_def upd_vol_geometry)
qed

lemma free_slot_free:
  assumes "free_slot s \<noteq> VOL_MAX"
  shows "free_slot s < VOL_MAX" "\<not> vused (vtab s ! free_slot s)"
proof -
  obtain i where "List.find (\<lambda>i. \<not> vused (vtab s ! i)) [0..<VOL_MAX] = Some i"
    using assms by (auto simp: free_slot_def split: option.splits)
  then have "free_slot s = i" "i < VOL_MAX" "\<not> vused (vtab s ! i)"
    by (simp add: free_slot_def, auto simp: find_Some_iff)
  then show "free_slot s < VOL_MAX" "\<not> vused (vtab s ! free_slot s)" by simp_all
qed

lemma add_volume_right:
  assumes ff: "driver_keeps_table ff" and s: "vols_right s" and d: "dsk \<noteq> root_dev s"
    and fit: "unat first + unat count \<le> 2 ^ 32"
  shows "vols_right (add_volume hw ff dsk first count s)"
proof (cases "free_slot s = VOL_MAX \<or> count < 16")
  case True
  then show ?thesis using s by (simp add: add_volume_def)
next
  case False
  define i where "i = free_slot s"
  have i: "i < VOL_MAX" "\<not> vused (vtab s ! i)" using free_slot_free False by (auto simp: i_def)
  define new where "new = (\<lambda>v. v\<lparr>vdisk := dsk, disk_id := usb_disk_id dsk (vusb s), vfirst := first,
                 vcount := count, vfs := 0, vlabel := [], vtotal := count * 512, free_known := False\<rparr> :: vol)"
  define s1 where "s1 = upd_vol i new s"
  have len: "length (vtab s) = VOL_MAX" using s by (simp add: vols_right_def)
  have s1: "vtab s1 ! i = new (vtab s ! i)" "root_dev s1 = root_dev s" "length (vtab s1) = VOL_MAX"
    using i len by (simp_all add: s1_def upd_vol_def)
  have r1: "vols_right s1"
    using s i len unfolding vols_right_def s1_def upd_vol_def
    by (auto simp: new_def dest!: set_update_subset_insert [THEN subsetD])
  obtain ok dat s2 where rd: "disk_read hw (vtab s1 ! i) 0 1 (sec0 s1) s1 = (ok, dat, s2)" by (metis surj_pair)
  have g2: "geometry s2 = geometry s1" using disk_read_geometry [OF rd] .
  define s5 where "s5 = classify_other hw i (mount_fat ff i (upd_vol i (\<lambda>v. v\<lparr>vtype := VOL_NONE\<rparr>) (s2\<lparr>sec0 := dat\<rparr>)))"
  have g5: "geometry s5 = geometry s1"
    by (simp add: s5_def classify_geometry mount_fat_geometry [OF ff] upd_vol_geometry g2)
  have step: "add_volume hw ff dsk first count s =
      (if \<not> ok then s2\<lparr>sec0 := dat\<rparr> else if vtype (vtab s5 ! i) = VOL_NONE then s5
       else upd_vol i (\<lambda>v. v\<lparr>vused := True, vgen := vgen v + 1\<rparr>) s5)"
    using False by (simp add: add_volume_def Let_def i_def [symmetric] new_def [symmetric] s1_def [symmetric] rd s5_def [symmetric])
  have r5: "vols_right s5" using r1 g5 vols_right_geometry by blast
  have g: "map (\<lambda>v. (vused v, vdisk v, vfirst v, vcount v)) (vtab s5) = map (\<lambda>v. (vused v, vdisk v, vfirst v, vcount v)) (vtab s1)"
    "root_dev s5 = root_dev s"
    using g5 s1(2) by (simp_all add: geometry_def)
  have l5: "length (vtab s5) = VOL_MAX" using r5 by (simp add: vols_right_def)
  have "(vdisk (vtab s5 ! i), vfirst (vtab s5 ! i), vcount (vtab s5 ! i)) = (dsk, first, count)"
    using arg_cong [OF g(1), of "\<lambda>xs. xs ! i"] i l5 s1 by (simp add: new_def)
  then have "vols_right (upd_vol i (\<lambda>v. v\<lparr>vused := True, vgen := vgen v + 1\<rparr>) s5)"
    using r5 l5 d fit g(2) unfolding vols_right_def upd_vol_def
    by (auto simp: vol_fits_def dest!: set_update_subset_insert [THEN subsetD])
  moreover have "vols_right (s2\<lparr>sec0 := dat\<rparr>)" using r1 g2 vols_right_geometry by (metis geometry_simps(3))
  ultimately show ?thesis using r5 by (simp add: step)
qed


lemma add_volume_root:
  fixes hw :: "'h hw"
  assumes "driver_keeps_table ff"
  shows "root_dev (add_volume hw ff dsk first count s) = root_dev s"
proof -
  have [simp]: "root_dev (upd_vol j f t) = root_dev t" for j f and t :: "'h vs" by (simp add: upd_vol_def)
  have [simp]: "root_dev (classify_other hw j t) = root_dev t" for j and t :: "'h vs" by (rule geometry_root [OF classify_geometry])
  have [simp]: "root_dev (mount_fat ff j t) = root_dev t" for j and t :: "'h vs" by (rule geometry_root [OF mount_fat_geometry [OF assms]])
  have [simp]: "root_dev (snd (snd (disk_read hw v x n b t))) = root_dev t" for v x n b and t :: "'h vs"
    by (metis disk_read_geometry prod.collapse geometry_root)
  show ?thesis by (simp add: add_volume_def Let_def case_prod_beta)
qed

text \<open>Scanning one disk: every volume it adds lies on that disk and inside its 32-bit block count.\<close>

lemma scan_mbr_right:
  assumes ff: "driver_keeps_table ff" and small: "\<forall>(f, n) \<in> set ps. unat f < 2 ^ 32 \<and> unat n < 2 ^ 32"
  shows "vols_right s \<Longrightarrow> d \<noteq> root_dev s \<Longrightarrow> vols_right (scan_mbr hw ff d blocks ps s) \<and> root_dev (scan_mbr hw ff d blocks ps s) = root_dev s"
  using small
proof (induction ps arbitrary: s)
  case (Cons p ps)
  obtain f n where p: "p = (f, n)" by (cases p)
  have "unat f + unat n \<le> 2 ^ 32" if "f + n \<le> ucast blocks"
  proof -
    have "unat (f + n) = unat f + unat n" using Cons.prems(3) p by (intro unat_add_small) auto
    then show ?thesis using that unat_u32_bound [of blocks] by (simp add: word_le_nat_alt)
  qed
  then show ?case
    using Cons.prems Cons.IH [of s] Cons.IH [of "add_volume hw ff d f n s"] add_volume_right [OF ff Cons.prems(1,2), of f n hw]
      add_volume_root [OF ff] by (auto simp: p)
qed simp

lemma gpt_range:
  fixes first last :: u64 and blocks :: u32
  assumes "\<not> (last < first \<or> last \<ge> ucast blocks)"
  shows "unat first + unat (last - first + 1) \<le> 2 ^ 32"
proof -
  have "unat first \<le> unat last" "unat last < unat blocks" using assms by (auto simp: word_le_nat_alt word_less_nat_alt not_le)
  moreover have "unat (last - first + 1) = unat last - unat first + 1"
    using calculation unat_u32_bound [of blocks] by (subst unat_add_small) (simp_all add: unat_sub_small)
  ultimately show ?thesis using unat_u32_bound [of blocks] by simp
qed

lemma scan_gpt_right:
  assumes ff: "driver_keeps_table ff"
  shows "vols_right s \<Longrightarrow> d \<noteq> root_dev s \<Longrightarrow>
     vols_right (scan_gpt hw ff d blocks tbl esize i k s) \<and> root_dev (scan_gpt hw ff d blocks tbl esize i k s) = root_dev s"
proof (induction k arbitrary: i s)
  case (Suc k)
  define at :: u64 where "at = ucast i * ucast esize"
  obtain ok bn u where r: "usb_disk_read hw d (ucast (tbl + at div 512)) 1 (bounce s) (vusb s) = (ok, bn, u)" by (metis surj_pair)
  define s1 where "s1 = s\<lparr>bounce := bn, vusb := u\<rparr>"
  have s1: "vols_right s1" "root_dev s1 = root_dev s"
    using Suc.prems vols_right_geometry [of s1 s] by (simp_all add: s1_def)
  define first where "first = le64 bn (unat (at mod 512) + 32)"
  define last where "last = le64 bn (unat (at mod 512) + 40)"
  have step: "scan_gpt hw ff d blocks tbl esize i (Suc k) s =
      (if \<not> ok then s1
       else if list_all (\<lambda>j. bn ! (unat (at mod 512) + j) = 0) [0..<16] \<or> last < first \<or> last \<ge> ucast blocks
       then scan_gpt hw ff d blocks tbl esize (i + 1) k s1
       else scan_gpt hw ff d blocks tbl esize (i + 1) k (add_volume hw ff d first (last - first + 1) s1))"
    unfolding scan_gpt.simps Let_def at_def [symmetric] r prod.case s1_def [symmetric] first_def [symmetric] last_def [symmetric]
    by simp
  show ?case
    using s1 Suc.prems Suc.IH [of s1 "i + 1"] Suc.IH [of "add_volume hw ff d first (last - first + 1) s1" "i + 1"]
      add_volume_right [OF ff s1(1), of d first "last - first + 1" hw] add_volume_root [OF ff] gpt_range [of last first blocks]
    unfolding step by (auto split: if_splits)
qed simp

lemma scan_disk_right:
  fixes s :: "'h vs"
  assumes ff: "driver_keeps_table ff" and s: "vols_right s" and d: "d \<noteq> root_dev s"
  shows "vols_right (scan_disk hw ff d s) \<and> root_dev (scan_disk hw ff d s) = root_dev s"
proof -
  have keep: "vols_right t \<and> root_dev t = root_dev s" if "geometry t = geometry s" for t :: "'h vs"
    using vols_right_geometry [OF that] geometry_root [OF that] s by simp
  have gpt: "vols_right (scan_gpt_table hw ff d blocks t) \<and> root_dev (scan_gpt_table hw ff d blocks t) = root_dev s"
    if t: "geometry t = geometry s" for blocks t
  proof -
    obtain ok bn u where r: "usb_disk_read hw d 1 1 (bounce t) (vusb t) = (ok, bn, u)" by (metis surj_pair)
    have k: "vols_right (t\<lparr>bounce := bn, vusb := u\<rparr>) \<and> root_dev (t\<lparr>bounce := bn, vusb := u\<rparr>) = root_dev s"
      by (rule keep) (simp add: t)
    then show ?thesis
      using scan_gpt_right [OF ff, of "t\<lparr>bounce := bn, vusb := u\<rparr>" d hw blocks] d
      by (simp add: scan_gpt_table_def r Let_def)
  qed
  have mbr: "\<forall>(f, n) \<in> set (map snd (map (mbr_part b) [0..<4])). unat f < 2 ^ 32 \<and> unat n < 2 ^ 32" for b
    using unat_u32_bound by (auto simp: mbr_part_def Let_def)
  obtain c u where cap: "usb_disk_capacity hw d (vusb s) = (c, u)" by (metis surj_pair)
  show ?thesis
  proof (cases c)
    case None
    then show ?thesis using keep [of "s\<lparr>vusb := u\<rparr>"] by (simp add: scan_disk_def cap)
  next
    case (Some q)
    obtain blocks bs where q: "q = (blocks, bs)" by (cases q)
    obtain ok bn u1 where r: "usb_disk_read hw d 0 1 (bounce s) u = (ok, bn, u1)" by (metis surj_pair)
    define s1 where "s1 = s\<lparr>bounce := bn, vusb := u1\<rparr>"
    define s2 where "s2 = s1\<lparr>sec0 := take 512 bn\<rparr>"
    have g: "geometry s1 = geometry s" "geometry s2 = geometry s" by (simp_all add: s1_def s2_def)
    note k1 = keep [OF g(1)] and k2 = keep [OF g(2)]
    have "vols_right (add_volume hw ff d 0 (ucast blocks) s2)"
      using add_volume_right [OF ff _ _, of s2 d 0 "ucast blocks" hw] k2 d unat_u32_bound [of blocks] by simp
    moreover have "vols_right (scan_mbr hw ff d blocks (map snd (map (mbr_part (take 512 bn)) [0..<4])) s2)
        \<and> root_dev (scan_mbr hw ff d blocks (map snd (map (mbr_part (take 512 bn)) [0..<4])) s2) = root_dev s"
      using scan_mbr_right [OF ff mbr, of s2 d hw blocks] k2 d by simp
    ultimately show ?thesis
      using k1 k2 keep [of "s\<lparr>vusb := u\<rparr>"] gpt [OF g(2)] add_volume_root [OF ff, of hw d 0 "ucast blocks" s2]
      unfolding scan_disk_def cap Some q prod.case option.case r Let_def s1_def [symmetric] s2_def [symmetric]
      by simp
  qed
qed

lemma fold_inv: "(\<And>x s. x \<in> set xs \<Longrightarrow> P s \<Longrightarrow> P (f x s)) \<Longrightarrow> P s \<Longrightarrow> P (fold f xs s)"
  by (induction xs arbitrary: s) auto

lemma unmount_right:
  assumes ff: "driver_keeps_table ff" and s: "vols_right s"
  shows "vols_right (unmount_slot ff i s) \<and> root_dev (unmount_slot ff i s) = root_dev s"
proof -
  define t where "t = cache_drop i (fatfs_unmount ff i s)"
  have "geometry t = geometry s" using ff by (simp add: t_def driver_keeps_table_def)
  then have t: "vols_right t" "root_dev t = root_dev s" using s vols_right_geometry geometry_root by blast+
  have "vols_right (upd_vol i (\<lambda>v. v\<lparr>vused := False, vgen := vgen v + 1\<rparr>) t)"
    using t unfolding vols_right_def upd_vol_def by (auto dest!: set_update_subset_insert [THEN subsetD])
  then show ?thesis using t by (simp add: unmount_slot_def t_def [symmetric]) (simp add: upd_vol_def)
qed

lemma vol_refresh_right:
  assumes ff: "driver_keeps_table ff" and s: "vols_right s"
  shows "vols_right (snd (vol_refresh hw ff s)) \<and> root_dev (snd (vol_refresh hw ff s)) = root_dev s"
proof -
  let ?P = "\<lambda>t. vols_right t \<and> root_dev t = root_dev s"
  define s1 where "s1 = fold (forget_gone ff) [0..<VOL_MAX] s"
  have 1: "?P s1" unfolding s1_def
    by (rule fold_inv [where P = ?P]) (use s unmount_right [OF ff] in \<open>auto simp: forget_gone_def\<close>)
  have step: "?P (look_at hw ff nd d t)" if t: "?P t" for nd d t
  proof -
    define did where "did = (if int d < nd then usb_disk_id (int d) (vusb t) else 0)"
    define t1 where "t1 = t\<lparr>scanned := (scanned t)[d := did]\<rparr>"
    have "geometry t1 = geometry t" by (simp add: t1_def)
    then have t1: "vols_right t1" "root_dev t1 = root_dev t" using t vols_right_geometry geometry_root by blast+
    then show ?thesis
      using t scan_disk_right [OF ff t1(1), of "int d" hw]
      unfolding look_at_def Let_def did_def [symmetric] t1_def [symmetric] by auto
  qed
  have "?P (fold (look_at hw ff (usb_disk_count (vusb s1))) [0..<MAX_DISKS] s1)"
    by (rule fold_inv [where P = ?P]) (use 1 step in auto)
  then show ?thesis by (simp add: vol_refresh_def s1_def Let_def)
qed

datatype kcall = K_list nat | K_space int | K_path "u8 list" | K_mounts nat | K_eject int

fun kcall_step :: "'h hw \<Rightarrow> 'h fatfs \<Rightarrow> kcall \<Rightarrow> 'h vs \<Rightarrow> 'h vs" where
  "kcall_step hw ff (K_list n) s = snd (vol_list hw ff n s)"
| "kcall_step hw ff (K_space i) s = snd (vol_space hw ff i s)"
| "kcall_step hw ff (K_path p) s = snd (vol_of_path hw ff p s)"
| "kcall_step hw ff (K_mounts n) s = snd (vol_mounts hw ff n s)"
| "kcall_step hw ff (K_eject i) s = snd (vol_eject ff i s)"

lemma vol_get_right:
  assumes ff: "driver_keeps_table ff" and s: "vols_right s" and g: "vol_get hw ff i s = (r, s')"
  shows "vols_right s' \<and> root_dev s' = root_dev s"
  using vol_refresh_right [OF ff s, of hw] s g by (auto simp: vol_get_def Let_def split: if_splits)

lemma vol_space_right:
  assumes ff: "driver_keeps_table ff" and s: "vols_right s"
  shows "vols_right (snd (vol_space hw ff i s)) \<and> root_dev (snd (vol_space hw ff i s)) = root_dev s"
proof -
  obtain r s1 where g: "vol_get hw ff i s = (r, s1)" by (metis surj_pair)
  have s1: "vols_right s1" "root_dev s1 = root_dev s" using vol_get_right [OF ff s g] by auto
  show ?thesis
  proof (cases r)
    case None
    then show ?thesis using s1 by (simp add: vol_space_def g)
  next
    case (Some j)
    obtain fr s2 where f: "fatfs_free ff j s1 = (fr, s2)" by (metis surj_pair)
    have g2: "geometry s2 = geometry s1" using ff f unfolding driver_keeps_table_def by (metis snd_conv)
    then have "vols_right s2" "root_dev s2 = root_dev s" using s1 vols_right_geometry geometry_root by metis+
    moreover have "geometry (upd_vol j (\<lambda>v. v\<lparr>free_bytes := x, free_known := True\<rparr>) s2) = geometry s2" for x
      by (rule upd_vol_geometry) simp
    then have "vols_right (upd_vol j (\<lambda>v. v\<lparr>free_bytes := x, free_known := True\<rparr>) s2)
        \<and> root_dev (upd_vol j (\<lambda>v. v\<lparr>free_bytes := x, free_known := True\<rparr>) s2) = root_dev s" for x
      using vols_right_geometry geometry_root \<open>vols_right s2\<close> \<open>root_dev s2 = root_dev s\<close> by metis
    ultimately show ?thesis using s1 by (cases fr) (simp_all add: vol_space_def g Some f Let_def)
  qed
qed

lemma vol_eject_right:
  assumes ff: "driver_keeps_table ff" and s: "vols_right s"
  shows "vols_right (snd (vol_eject ff i s)) \<and> root_dev (snd (vol_eject ff i s)) = root_dev s"
proof -
  let ?P = "\<lambda>t. vols_right t \<and> root_dev t = root_dev s"
  have "?P (fold (\<lambda>k t. if \<not> vused (vtab t ! k) \<or> vdisk (vtab t ! k) \<noteq> d then t else unmount_slot ff k t) [0..<VOL_MAX] s)" for d
    by (rule fold_inv [where P = ?P]) (use s unmount_right [OF ff] in auto)
  then show ?thesis using s by (simp add: vol_eject_def Let_def)
qed

lemma kcall_right:
  assumes ff: "driver_keeps_table ff" and s: "vols_right s"
  shows "vols_right (kcall_step hw ff c s) \<and> root_dev (kcall_step hw ff c s) = root_dev s"
  using vol_refresh_right [OF ff s, of hw] vol_space_right [OF ff s, of hw] vol_eject_right [OF ff s] s
  by (cases c) (auto simp: vol_list_def vol_of_path_def vol_mounts_def Let_def split: option.splits prod.splits)

text \<open>
  C22. The stick the system runs from is never a volume. Starting with no volume, over any sequence of
  the calls the kernel makes (listing, space, path lookup, mount names, ejecting), drives coming and going
  as they like, every volume in use is on another disk than \<^verbatim>\<open>blkdev_usb_dev()\<close> and ends within the
  2 TiB that the transfer loop can address. (The FAT driver changes no entry of the table but
  its own bookkeeping.)
\<close>

theorem root_never_mounted:
  assumes "driver_keeps_table ff" and "length (vtab s) = VOL_MAX" and "\<forall>v \<in> set (vtab s). \<not> vused v"
    and "s' = fold (kcall_step hw ff) calls s"
  shows "length (vtab s') = VOL_MAX
     \<and> list_all (\<lambda>v. vdisk v \<noteq> root_dev s \<and> unat (vfirst v) + unat (vcount v) \<le> 2 ^ 32) (filter vused (vtab s'))"
proof -
  let ?P = "\<lambda>t. vols_right t \<and> root_dev t = root_dev s"
  have "?P s" using assms(2,3) by (simp add: vols_right_def)
  then have "?P s'" unfolding assms(4)
    by (intro fold_inv [where P = ?P]) (use kcall_right [OF assms(1)] in auto)
  then show ?thesis by (auto simp: vols_right_def vol_fits_def list_all_iff)
qed

definition no_driver :: "'h fatfs" where
  "no_driver = \<lparr>fatfs_mount = (\<lambda>i b s. (True, s)), fatfs_unmount = (\<lambda>i s. s), fatfs_kind = (\<lambda>i s. []),
     fatfs_label = (\<lambda>i s. []), fatfs_size = (\<lambda>i s. None), fatfs_free = (\<lambda>i s. (None, s))\<rparr>"

theorem root_never_mounted_witness:
  "list_all (\<lambda>v. vdisk v \<noteq> 0 \<and> unat (vfirst v) + unat (vcount v) \<le> 2 ^ 32)
     (filter vused (vtab (fold (kcall_step (demo_hw 2000) no_driver) [K_list 8, K_eject 3, K_mounts 8]
        (demo_vs\<lparr>vtab := replicate 8 (demo_vol\<lparr>vused := False\<rparr>), root_dev := 0\<rparr>))))"
proof -
  define s where "s = demo_vs\<lparr>vtab := replicate 8 (demo_vol\<lparr>vused := False\<rparr>), root_dev := 0\<rparr>"
  have "driver_keeps_table (no_driver :: platters fatfs)" by (simp add: driver_keeps_table_def no_driver_def)
  moreover have "length (vtab s) = VOL_MAX" "\<forall>v \<in> set (vtab s). \<not> vused v" "root_dev s = 0"
    by (simp_all add: s_def VOL_MAX_def)
  ultimately have "list_all (\<lambda>v. vdisk v \<noteq> root_dev s \<and> unat (vfirst v) + unat (vcount v) \<le> 2 ^ 32)
     (filter vused (vtab (fold (kcall_step (demo_hw 2000) no_driver) [K_list 8, K_eject 3, K_mounts 8] s)))"
    by (intro root_never_mounted [THEN conjunct2]) (assumption | rule refl)+
  then show ?thesis unfolding \<open>root_dev s = 0\<close> unfolding s_def .
qed

end
