(* ===== verification/Paging.thy ===== *)
theory Paging
  imports Pmm
begin

text \<open>
  Per-process address spaces, \<^verbatim>\<open>kernel/mm/paging.c\<close>. The page tables live in physical memory, the
  \<open>ram\<close> of the frame allocator's state, and are read and written there as the code does through the
  identity map: an entry is the 64-bit little-endian word at its address. \<open>p4_table\<close> and \<open>p3_table\<close>,
  the boot tables, are addresses the linker gives. Reloading \<^verbatim>\<open>cr3\<close> and \<^verbatim>\<open>invlpg\<close> act on the
  processor's translation cache only and are left out, as is \<^verbatim>\<open>paging_switch\<close>.
\<close>

subsection \<open>Entries\<close>

definition PAGE_PRESENT :: u64 where "PAGE_PRESENT = 0x001"
definition PAGE_WRITE :: u64 where "PAGE_WRITE = 0x002"
definition PAGE_USER :: u64 where "PAGE_USER = 0x004"
definition PAGE_NX :: u64 where "PAGE_NX = 0x8000000000000000"
definition ADDR_MASK :: u64 where "ADDR_MASK = 0x000FFFFFFFFFF000"
definition ENTRIES :: nat where "ENTRIES = 512"
definition USER_PDPT_INDEX :: u64 where "USER_PDPT_INDEX = 1"

lemmas paging_consts = PAGE_PRESENT_def PAGE_WRITE_def PAGE_USER_def PAGE_NX_def ADDR_MASK_def ENTRIES_def USER_PDPT_INDEX_def

definition wr64 :: "(u64 \<Rightarrow> u8) \<Rightarrow> u64 \<Rightarrow> u64 \<Rightarrow> u64 \<Rightarrow> u8" where
  "wr64 m p v = (\<lambda>a. if a - p < 8 then ucast (drop_bit (8 * unat (a - p)) v) else m a)"

definition ent :: "pmm \<Rightarrow> u64 \<Rightarrow> u64 \<Rightarrow> u64" where
  "ent s t i = rd64 (ram s) (t + i * 8)"

definition set_ent :: "u64 \<Rightarrow> u64 \<Rightarrow> u64 \<Rightarrow> pmm \<Rightarrow> pmm" where
  "set_ent t i v s = s\<lparr>ram := wr64 (ram s) (t + i * 8) v\<rparr>"

definition zero_table :: "u64 \<Rightarrow> pmm \<Rightarrow> pmm" where
  "zero_table t s = fold (\<lambda>i. set_ent t (of_nat i) 0) [0..<ENTRIES] s"

definition idx_pml4 :: "u64 \<Rightarrow> u64" where "idx_pml4 v = drop_bit 39 v AND 0x1FF"
definition idx_pdpt :: "u64 \<Rightarrow> u64" where "idx_pdpt v = drop_bit 30 v AND 0x1FF"
definition idx_pd :: "u64 \<Rightarrow> u64" where "idx_pd v = drop_bit 21 v AND 0x1FF"
definition idx_pt :: "u64 \<Rightarrow> u64" where "idx_pt v = drop_bit 12 v AND 0x1FF"

definition present :: "u64 \<Rightarrow> bool" where
  "present e \<longleftrightarrow> e AND PAGE_PRESENT \<noteq> 0"

subsection \<open>Creating an address space\<close>

definition copy_pdpt_entry :: "u64 \<Rightarrow> u64 \<Rightarrow> u64 \<Rightarrow> pmm \<Rightarrow> pmm" where
  "copy_pdpt_entry p3_table pdpt i s =
     (if i = USER_PDPT_INDEX then s
      else if present (ent s p3_table i) then set_ent pdpt i (ent s p3_table i AND NOT PAGE_USER) s else s)"

definition copy_pml4_entry :: "u64 \<Rightarrow> u64 \<Rightarrow> u64 \<Rightarrow> pmm \<Rightarrow> pmm" where
  "copy_pml4_entry p4_table pml4 i s =
     (if present (ent s p4_table i) then set_ent pml4 i (ent s p4_table i) s else s)"

definition paging_new_address_space :: "u64 \<Rightarrow> u64 \<Rightarrow> pmm \<Rightarrow> u64 \<times> pmm" where
  "paging_new_address_space p4_table p3_table s =
     (case pmm_alloc_frame s of
        (pml4, s1) \<Rightarrow>
          if pml4 = 0 then (0, s1)
          else case pmm_alloc_frame s1 of
            (pdpt, s2) \<Rightarrow>
              if pdpt = 0 then (0, pmm_free_frame pml4 s2)
              else let s3 = zero_table pml4 s2;
                       s4 = zero_table pdpt s3;
                       s5 = set_ent pml4 0 (pdpt OR PAGE_PRESENT OR PAGE_WRITE OR PAGE_USER) s4;
                       s6 = fold (\<lambda>i. copy_pdpt_entry p3_table pdpt (of_nat i)) [0..<512] s5;
                       s7 = fold (\<lambda>i. copy_pml4_entry p4_table pml4 (of_nat i)) [1..<512] s6
                   in (pml4, s7))"

subsection \<open>Device memory in the kernel's space\<close>

partial_function (option) map_mmio_from :: "u64 \<Rightarrow> u64 \<Rightarrow> u64 \<Rightarrow> pmm \<Rightarrow> pmm option" where
  "map_mmio_from p4_table a lim s =
     (if a < lim then
        let pi = idx_pml4 a; di = idx_pdpt a in
        if \<not> present (ent s p4_table pi) then
          case pmm_alloc_frame s of
            (frame, s1) \<Rightarrow>
              if frame = 0 then Some s1
              else let s2 = zero_table frame s1;
                       s3 = set_ent p4_table pi (frame OR PAGE_PRESENT OR PAGE_WRITE) s2;
                       pdpt = ent s3 p4_table pi AND ADDR_MASK
                   in map_mmio_from p4_table (a + 0x40000000) lim
                        (set_ent pdpt di (a OR PAGE_PRESENT OR PAGE_WRITE OR 0x80 OR 0x10) s3)
        else let pdpt = ent s p4_table pi AND ADDR_MASK
             in map_mmio_from p4_table (a + 0x40000000) lim
                  (set_ent pdpt di (a OR PAGE_PRESENT OR PAGE_WRITE OR 0x80 OR 0x10) s)
      else Some s)"

definition paging_map_mmio :: "u64 \<Rightarrow> u64 \<Rightarrow> u64 \<Rightarrow> pmm \<Rightarrow> pmm option" where
  "paging_map_mmio p4_table phys sz s =
     map_mmio_from p4_table (phys AND NOT 0x3FFFFFFF) ((phys + sz + 0x3FFFFFFF) AND NOT 0x3FFFFFFF) s"

subsection \<open>Walking and mapping\<close>

text \<open>\<open>0\<close> stands for the NULL the code returns.\<close>

definition next_level :: "u64 \<Rightarrow> u64 \<Rightarrow> bool \<Rightarrow> u64 \<Rightarrow> pmm \<Rightarrow> u64 \<times> pmm" where
  "next_level tbl index create flags s =
     (if \<not> present (ent s tbl index) then
        if \<not> create then (0, s)
        else case pmm_alloc_frame s of
          (frame, s1) \<Rightarrow>
            if frame = 0 then (0, s1)
            else let s2 = zero_table frame s1;
                     s3 = set_ent tbl index (frame OR PAGE_PRESENT OR PAGE_WRITE OR (flags AND PAGE_USER)) s2
                 in (ent s3 tbl index AND ADDR_MASK, s3)
      else let s1 = set_ent tbl index (ent s tbl index OR (flags AND (PAGE_USER OR PAGE_WRITE))) s
           in (ent s1 tbl index AND ADDR_MASK, s1))"

definition paging_map :: "u64 \<Rightarrow> u64 \<Rightarrow> u64 \<Rightarrow> u64 \<Rightarrow> pmm \<Rightarrow> bool \<times> pmm" where
  "paging_map pml4 vaddr paddr flags s =
     (case next_level pml4 (idx_pml4 vaddr) True flags s of
        (pdpt, s1) \<Rightarrow>
          if pdpt = 0 then (False, s1)
          else case next_level pdpt (idx_pdpt vaddr) True flags s1 of
            (pd, s2) \<Rightarrow>
              if pd = 0 then (False, s2)
              else case next_level pd (idx_pd vaddr) True flags s2 of
                (pt, s3) \<Rightarrow>
                  if pt = 0 then (False, s3)
                  else (True, set_ent pt (idx_pt vaddr)
                          ((paddr AND ADDR_MASK) OR (flags AND 0xFFF) OR (flags AND PAGE_NX) OR PAGE_PRESENT) s3))"

definition paging_translate :: "u64 \<Rightarrow> u64 \<Rightarrow> pmm \<Rightarrow> u64 \<times> pmm" where
  "paging_translate pml4 vaddr s =
     (case next_level pml4 (idx_pml4 vaddr) False 0 s of
        (pdpt, s1) \<Rightarrow>
          if pdpt = 0 then (0, s1)
          else case next_level pdpt (idx_pdpt vaddr) False 0 s1 of
            (pd, s2) \<Rightarrow>
              if pd = 0 then (0, s2)
              else let pde = ent s2 pd (idx_pd vaddr) in
                if \<not> present pde then (0, s2)
                else if pde AND 0x80 \<noteq> 0 then ((pde AND ADDR_MASK) + (vaddr AND 0x1FFFFF), s2)
                else let pte = ent s2 (pde AND ADDR_MASK) (idx_pt vaddr) in
                  if \<not> present pte then (0, s2)
                  else ((pte AND ADDR_MASK) + (vaddr AND 0xFFF), s2))"

definition zero_page :: "u64 \<Rightarrow> pmm \<Rightarrow> pmm" where
  "zero_page p s = s\<lparr>ram := (\<lambda>a. if a - p < PAGE_SIZE then 0 else ram s a)\<rparr>"

text \<open>
  One page put in place: a frame, its bytes cleared, its entry written, and the frame handed back when the
  tables for the entry could not be had. \<^verbatim>\<open>paging_map_alloc\<close> and \<^verbatim>\<open>vmm_fault\<close> both spell this out.
\<close>

definition build_page :: "u64 \<Rightarrow> u64 \<Rightarrow> u64 \<Rightarrow> pmm \<Rightarrow> bool \<times> pmm" where
  "build_page pml4 v flags s =
     (case pmm_alloc_frame s of
        (frame, s1) \<Rightarrow>
          if frame = 0 then (False, s1)
          else case paging_map pml4 v frame flags (zero_page frame s1) of
            (ok, s2) \<Rightarrow> if \<not> ok then (False, pmm_free_frame frame s2) else (True, s2))"

partial_function (option) map_alloc_from :: "u64 \<Rightarrow> u64 \<Rightarrow> u64 \<Rightarrow> u64 \<Rightarrow> pmm \<Rightarrow> (bool \<times> pmm) option" where
  "map_alloc_from pml4 v lim flags s =
     (if v < lim then
        case paging_translate pml4 v s of
          (p, s1) \<Rightarrow>
            if p \<noteq> 0 then map_alloc_from pml4 (v + PAGE_SIZE) lim flags s1
            else case build_page pml4 v flags s1 of
              (ok, s2) \<Rightarrow>
                if \<not> ok then Some (False, s2) else map_alloc_from pml4 (v + PAGE_SIZE) lim flags s2
      else Some (True, s))"

definition range_start :: "u64 \<Rightarrow> u64" where "range_start vaddr = vaddr AND NOT 0xFFF"
definition range_end :: "u64 \<Rightarrow> u64 \<Rightarrow> u64" where "range_end vaddr bytes = (vaddr + bytes + 0xFFF) AND NOT 0xFFF"

definition paging_map_alloc :: "u64 \<Rightarrow> u64 \<Rightarrow> u64 \<Rightarrow> u64 \<Rightarrow> pmm \<Rightarrow> (bool \<times> pmm) option" where
  "paging_map_alloc pml4 vaddr bytes flags s =
     map_alloc_from pml4 (range_start vaddr) (range_end vaddr bytes) flags s"

subsection \<open>Taking an address space down\<close>

definition free_pt_page :: "u64 \<Rightarrow> u64 \<Rightarrow> pmm \<Rightarrow> pmm" where
  "free_pt_page pt l s = (if present (ent s pt l) then pmm_free_frame (ent s pt l AND ADDR_MASK) s else s)"

definition free_pd_entry :: "u64 \<Rightarrow> u64 \<Rightarrow> pmm \<Rightarrow> pmm" where
  "free_pd_entry pd k s =
     (if \<not> present (ent s pd k) then s
      else if ent s pd k AND 0x80 \<noteq> 0 then s
      else let pt = ent s pd k AND ADDR_MASK;
               s1 = fold (\<lambda>l. free_pt_page pt (of_nat l)) [0..<ENTRIES] s
           in pmm_free_frame (ent s1 pd k AND ADDR_MASK) s1)"

definition paging_free_address_space :: "u64 \<Rightarrow> pmm \<Rightarrow> pmm" where
  "paging_free_address_space pml4 s =
     (if pml4 = 0 then s
      else if \<not> present (ent s pml4 0) then pmm_free_frame pml4 s
      else let pdpt = ent s pml4 0 AND ADDR_MASK;
               pde_entry = ent s pdpt USER_PDPT_INDEX;
               s1 = (if present pde_entry
                     then pmm_free_frame (pde_entry AND ADDR_MASK)
                            (fold (\<lambda>k. free_pd_entry (pde_entry AND ADDR_MASK) (of_nat k)) [0..<ENTRIES] s)
                     else s)
           in pmm_free_frame pml4 (pmm_free_frame pdpt s1))"

subsection \<open>Changing a mapping\<close>

text \<open>\<open>pte_of\<close> answers the table and index of the entry the code returns a pointer to.\<close>

definition pte_of :: "u64 \<Rightarrow> u64 \<Rightarrow> pmm \<Rightarrow> (u64 \<times> u64) option \<times> pmm" where
  "pte_of pml4 v s =
     (case next_level pml4 (idx_pml4 v) False 0 s of
        (pdpt, s1) \<Rightarrow>
          if pdpt = 0 then (None, s1)
          else case next_level pdpt (idx_pdpt v) False 0 s1 of
            (pd, s2) \<Rightarrow>
              if pd = 0 then (None, s2)
              else let pde = ent s2 pd (idx_pd v) in
                if \<not> present pde then (None, s2)
                else if pde AND 0x80 \<noteq> 0 then (None, s2)
                else let pt = pde AND ADDR_MASK in
                  if \<not> present (ent s2 pt (idx_pt v)) then (None, s2)
                  else (Some (pt, idx_pt v), s2))"

partial_function (option) protect_from :: "u64 \<Rightarrow> u64 \<Rightarrow> u64 \<Rightarrow> u64 \<Rightarrow> pmm \<Rightarrow> pmm option" where
  "protect_from pml4 v lim flags s =
     (if v < lim then
        case pte_of pml4 v s of
          (None, s1) \<Rightarrow> protect_from pml4 (v + PAGE_SIZE) lim flags s1
        | (Some (pt, i), s1) \<Rightarrow>
            protect_from pml4 (v + PAGE_SIZE) lim flags
              (set_ent pt i ((ent s1 pt i AND ADDR_MASK) OR (flags AND 0xFFF) OR (flags AND PAGE_NX) OR PAGE_PRESENT) s1)
      else Some s)"

definition paging_protect :: "u64 \<Rightarrow> u64 \<Rightarrow> u64 \<Rightarrow> u64 \<Rightarrow> pmm \<Rightarrow> pmm option" where
  "paging_protect pml4 vaddr bytes flags s =
     protect_from pml4 (range_start vaddr) (range_end vaddr bytes) flags s"

partial_function (option) detach_from :: "u64 \<Rightarrow> u64 \<Rightarrow> u64 \<Rightarrow> int \<Rightarrow> pmm \<Rightarrow> (int \<times> pmm) option" where
  "detach_from pml4 v lim n s =
     (if v < lim then
        case pte_of pml4 v s of
          (None, s1) \<Rightarrow> detach_from pml4 (v + PAGE_SIZE) lim n s1
        | (Some (pt, i), s1) \<Rightarrow>
            if \<not> present (ent s1 pt i) then detach_from pml4 (v + PAGE_SIZE) lim n s1
            else detach_from pml4 (v + PAGE_SIZE) lim (n + 1) (set_ent pt i 0 s1)
      else Some (n, s))"

definition paging_detach :: "u64 \<Rightarrow> u64 \<Rightarrow> u64 \<Rightarrow> pmm \<Rightarrow> (int \<times> pmm) option" where
  "paging_detach pml4 vaddr bytes s = detach_from pml4 (range_start vaddr) (range_end vaddr bytes) 0 s"

partial_function (option) unmap_from :: "u64 \<Rightarrow> u64 \<Rightarrow> u64 \<Rightarrow> int \<Rightarrow> pmm \<Rightarrow> (int \<times> pmm) option" where
  "unmap_from pml4 v lim n s =
     (if v < lim then
        case pte_of pml4 v s of
          (None, s1) \<Rightarrow> unmap_from pml4 (v + PAGE_SIZE) lim n s1
        | (Some (pt, i), s1) \<Rightarrow>
            let frame = ent s1 pt i AND ADDR_MASK
            in unmap_from pml4 (v + PAGE_SIZE) lim (n + 1) (pmm_free_frame frame (set_ent pt i 0 s1))
      else Some (n, s))"

definition paging_unmap :: "u64 \<Rightarrow> u64 \<Rightarrow> u64 \<Rightarrow> pmm \<Rightarrow> (int \<times> pmm) option" where
  "paging_unmap pml4 vaddr bytes s = unmap_from pml4 (range_start vaddr) (range_end vaddr bytes) 0 s"

subsection \<open>Loads and stores\<close>

lemma drop_bit_12: "drop_bit 12 (x :: u64) = x div 4096"
  by (simp add: drop_bit_eq_div)

lemma bit_rd32:
  "bit (rd32 m p) n \<longleftrightarrow> n < 32 \<and> bit (m (p + of_nat (n div 8))) (n mod 8)"
proof -
  define q r where "q = n div 8" and "r = n mod 8"
  have n: "n = 8 * q + r" and r: "r < 8" by (simp_all add: q_def r_def)
  consider "q = 0" | "q = 1" | "q = 2" | "q = 3" | "32 \<le> n" using n by linarith
  then show ?thesis
    unfolding q_def [symmetric] r_def [symmetric]
    by cases (use r in \<open>auto simp: n rd32_def bit_or_iff bit_push_bit_iff bit_ucast_iff dest: bit_imp_le_length\<close>)
qed

lemma bit_rd64:
  "bit (rd64 m p) n \<longleftrightarrow> n < 64 \<and> bit (m (p + of_nat (n div 8))) (n mod 8)"
proof (cases "n < 32")
  case True
  then show ?thesis by (simp add: rd64_def bit_or_iff bit_push_bit_iff bit_ucast_iff bit_rd32)
next
  case False
  then obtain k where k: "n = k + 32" by (metis add.commute le_add_diff_inverse2 not_less)
  have d: "(k + 32) div 8 = k div 8 + 4" and r: "(k + 32) mod 8 = k mod 8" by presburger+
  show ?thesis
    by (auto simp: k rd64_def bit_or_iff bit_push_bit_iff bit_ucast_iff bit_rd32 d r ac_simps dest: bit_imp_le_length)
qed

lemma rd64_eqI:
  assumes "\<And>k. k < 8 \<Longrightarrow> m (p + of_nat k) = m' (q + of_nat k)"
  shows "rd64 m p = rd64 m' q"
  by (rule bit_word_eqI) (auto simp: bit_rd64 assms)

lemma rd64_wr64_same [simp]: "rd64 (wr64 m p v) p = v"
proof (rule bit_word_eqI)
  fix n assume "n < LENGTH(64)"
  then have n: "n < 64" by simp
  have k: "n div 8 < 8" using n by simp
  have u: "unat (of_nat (n div 8) :: u64) = n div 8" by (rule unat_of_nat_small) (use k in simp)
  have "(of_nat (n div 8) :: u64) < 8" using k u by (simp add: word_less_nat_alt)
  then show "bit (rd64 (wr64 m p v) p) n = bit v n"
    by (simp add: bit_rd64 n wr64_def u bit_ucast_iff bit_drop_bit_eq)
qed

lemma wr64_rd64_same [simp]: "wr64 m p (rd64 m p) = m"
proof
  fix a
  show "wr64 m p (rd64 m p) a = m a"
  proof (cases "a - p < 8")
    case True
    define k where "k = unat (a - p)"
    have k: "k < 8" using True by (simp add: k_def word_less_nat_alt)
    have a: "a = p + of_nat k" by (simp add: k_def)
    have "bit (ucast (drop_bit (8 * k) (rd64 m p)) :: u8) j = bit (m a) j" if "j < 8" for j
      using that k by (simp add: bit_ucast_iff bit_drop_bit_eq bit_rd64 a)
    then have "ucast (drop_bit (8 * k) (rd64 m p)) = m a" by (intro bit_word_eqI) simp
    then show ?thesis using True by (simp add: wr64_def k_def)
  qed (simp add: wr64_def)
qed

text \<open>Two different entry slots, both multiples of eight, do not overlap.\<close>

lemma slot_div8:
  assumes "p mod 8 = (0 :: u64)" and "k < 8"
  shows "(p + k) div 8 = p div 8"
proof -
  have p8: "unat p mod 8 = 0" using assms(1) by (simp add: word_unat_eq_iff unat_mod)
  have k8: "unat k < 8" using assms(2) by (simp add: word_less_nat_alt)
  define q where "q = unat p div 8"
  have q: "unat p = 8 * q" using p8 mod_zero_mult_div [OF p8] by (simp add: q_def)
  have "q < 2305843009213693952" using unat_u64_bound [of p] unfolding q by simp
  then have "unat p + unat k < 2 ^ 64" using k8 q by simp
  then show ?thesis using k8
    by (simp add: word_unat_eq_iff unat_div unat_add_small q)
qed

subsection \<open>Tables as arrays of entries\<close>

definition is_table :: "u64 \<Rightarrow> bool" where
  "is_table t \<longleftrightarrow> t mod 4096 = 0"

lemma unat_slot:
  assumes "is_table t" and "i < 512"
  shows "unat (t + i * 8) = unat t + unat i * 8" and "unat t mod 4096 = 0" and "unat i < 512"
proof -
  show t: "unat t mod 4096 = 0"
    using assms(1) by (simp add: is_table_def word_unat_eq_iff unat_mod)
  show i: "unat i < 512" using assms(2) by (simp add: word_less_nat_alt)
  define q where "q = unat t div 4096"
  have q: "unat t = 4096 * q" using mod_zero_mult_div [OF t] by (simp add: q_def)
  have "q < 4503599627370496" using unat_u64_bound [of t] unfolding q by simp
  then have "unat t + unat i * 8 < 2 ^ 64" using i q by simp
  then show "unat (t + i * 8) = unat t + unat i * 8"
    using i by (simp add: unat_add_small unat_mult_small)
qed

lemma slot_mod8:
  assumes "is_table t" and "i < 512"
  shows "(t + i * 8) mod 8 = 0"
proof -
  obtain q where "unat t = 4096 * q" using mod_zero_mult_div [OF unat_slot(2) [OF assms]] by (metis mult.commute)
  then have "(unat t + unat i * 8) mod 8 = 0" by simp
  then show ?thesis by (simp add: word_unat_eq_iff unat_mod unat_slot(1) [OF assms])
qed

lemma slot_page:
  assumes "is_table t" and "i < 512" and "k < 8"
  shows "(t + i * 8 + k) div 4096 = t div 4096"
proof -
  have "(t + i * 8 + k) div 4096 = (t + i * 8 + k) div 8 div 512"
    by (simp add: word_unat_eq_iff unat_div div_mult2_eq [symmetric])
  also have "\<dots> = (t + i * 8) div 8 div 512" using slot_div8 [OF slot_mod8 [OF assms(1,2)] assms(3)] by simp
  also have "\<dots> = t div 4096"
  proof -
    obtain q where q: "unat t = 4096 * q" using mod_zero_mult_div [OF unat_slot(2) [OF assms(1,2)]] by (metis mult.commute)
    have "(4096 * q + unat i * 8) div 4096 = q" using unat_slot(3) [OF assms(1,2)] by simp
    then show ?thesis by (simp add: word_unat_eq_iff unat_div div_mult2_eq [symmetric] unat_slot(1) [OF assms(1,2)] q)
  qed
  finally show ?thesis .
qed

lemma slot_inj:
  assumes "is_table t" "i < 512" "is_table t'" "i' < 512" and "t + i * 8 = t' + i' * 8"
  shows "t = t' \<and> i = i'"
proof -
  have "t div 4096 = t' div 4096"
    using slot_page [OF assms(1,2), of 0] slot_page [OF assms(3,4), of 0] assms(5) by simp
  then have t: "t = t'" using assms(1,3) word_div_mod_eqI [of t 4096 t'] by (simp add: is_table_def)
  have "unat i * 8 = unat i' * 8"
    using unat_slot(1) [OF assms(1,2)] unat_slot(1) [OF assms(3,4)] assms(5) t by simp
  then show ?thesis using t by (simp add: word_unat_eq_iff)
qed

lemma ent_set_ent:
  assumes "is_table t" "i < 512" "is_table t'" "i' < 512"
  shows "ent (set_ent t i v s) t' i' = (if t = t' \<and> i = i' then v else ent s t' i')"
proof (cases "t = t' \<and> i = i'")
  case True
  then show ?thesis by (simp add: ent_def set_ent_def)
next
  case False
  have "wr64 (ram s) (t + i * 8) v (t' + i' * 8 + of_nat k) = ram s (t' + i' * 8 + of_nat k)" if k: "k < 8" for k
  proof -
    have u: "unat (of_nat k :: u64) = k" by (rule unat_of_nat_small) (use k in simp)
    have "\<not> t' + i' * 8 + of_nat k - (t + i * 8) < 8"
    proof
      assume d: "t' + i' * 8 + of_nat k - (t + i * 8) < 8"
      have "(t + i * 8) div 8 = (t' + i' * 8) div 8"
        using slot_div8 [OF slot_mod8 [OF assms(1,2)] d] slot_div8 [OF slot_mod8 [OF assms(3,4)], of "of_nat k"] k u
        by (simp add: word_less_nat_alt add.assoc)
      then have "t + i * 8 = t' + i' * 8"
        by (rule word_div_mod_eqI) (simp add: slot_mod8 assms)
      then show False using slot_inj assms False by blast
    qed
    then show ?thesis by (simp add: wr64_def)
  qed
  then have "rd64 (wr64 (ram s) (t + i * 8) v) (t' + i' * 8) = rd64 (ram s) (t' + i' * 8)"
    by (rule rd64_eqI)
  then show ?thesis using False by (auto simp: ent_def set_ent_def)
qed

lemma set_ent_same [simp]: "set_ent t i (ent s t i) s = s"
  by (simp add: ent_def set_ent_def)

lemma set_ent_fields [simp]:
  "bitmap (set_ent t i v s) = bitmap s" "free_frames (set_ent t i v s) = free_frames s"
  "usable_frames (set_ent t i v s) = usable_frames s"
  by (simp_all add: set_ent_def)

lemma free_set_cong: "bitmap s' = bitmap s \<Longrightarrow> free_set s' = free_set s"
  by (simp add: free_set_def frame_free_def)

lemma free_set_set_ent [simp]: "free_set (set_ent t i v s) = free_set s"
  by (rule free_set_cong) simp

lemma ram_set_ent:
  assumes "is_table t" "i < 512" and "a div 4096 \<noteq> t div 4096"
  shows "ram (set_ent t i v s) a = ram s a"
proof -
  have "\<not> a - (t + i * 8) < 8"
    using slot_page [OF assms(1,2), of "a - (t + i * 8)"] assms(3) by auto
  then show ?thesis by (simp add: set_ent_def wr64_def)
qed

lemma ent_cong_page:
  assumes "is_table t" "i < 512" and "\<And>a. a div 4096 = t div 4096 \<Longrightarrow> ram s' a = ram s a"
  shows "ent s' t i = ent s t i"
proof -
  have "ram s' (t + i * 8 + of_nat k) = ram s (t + i * 8 + of_nat k)" if "k < 8" for k
  proof (rule assms(3))
    have "(of_nat k :: u64) < 8" using that unat_of_nat_small [of k, where 'a = 64] by (simp add: word_less_nat_alt)
    then show "(t + i * 8 + of_nat k) div 4096 = t div 4096" by (rule slot_page [OF assms(1,2)])
  qed
  then show ?thesis unfolding ent_def by (rule rd64_eqI)
qed

lemma zero_table_upto:
  assumes "is_table t" and "n \<le> 512"
  shows "(\<forall>t' i. is_table t' \<longrightarrow> i < 512 \<longrightarrow>
            ent (fold (\<lambda>i. set_ent t (of_nat i) 0) [0..<n] s) t' i = (if t = t' \<and> unat i < n then 0 else ent s t' i))
       \<and> bitmap (fold (\<lambda>i. set_ent t (of_nat i) 0) [0..<n] s) = bitmap s
       \<and> free_frames (fold (\<lambda>i. set_ent t (of_nat i) 0) [0..<n] s) = free_frames s
       \<and> usable_frames (fold (\<lambda>i. set_ent t (of_nat i) 0) [0..<n] s) = usable_frames s
       \<and> (\<forall>a. a div 4096 \<noteq> t div 4096 \<longrightarrow> ram (fold (\<lambda>i. set_ent t (of_nat i) 0) [0..<n] s) a = ram s a)"
  using assms(2)
proof (induction n)
  case (Suc n)
  have u: "unat (of_nat n :: u64) = n" by (rule unat_of_nat_small) (use Suc.prems in simp)
  have n: "(of_nat n :: u64) < 512" using Suc.prems u by (simp add: word_less_nat_alt)
  have eq: "unat i < Suc n \<longleftrightarrow> unat i < n \<or> of_nat n = i" for i :: u64
    using u by (auto simp: less_Suc_eq)
  show ?case using Suc n by (auto simp: ent_set_ent assms(1) ram_set_ent eq)
qed simp

lemma ent_zero_table:
  assumes "is_table t" "is_table t'" "i < 512"
  shows "ent (zero_table t s) t' i = (if t = t' then 0 else ent s t' i)"
  using zero_table_upto [of t 512 s] assms unat_slot(3) [OF assms(2,3)] by (simp add: zero_table_def ENTRIES_def)

lemma zero_table_fields [simp]:
  assumes "is_table t"
  shows "bitmap (zero_table t s) = bitmap s" "free_frames (zero_table t s) = free_frames s"
    "usable_frames (zero_table t s) = usable_frames s" "free_set (zero_table t s) = free_set s"
  using zero_table_upto [of t 512 s] assms by (auto simp: zero_table_def ENTRIES_def intro!: free_set_cong)

lemma ram_zero_table:
  assumes "is_table t" and "a div 4096 \<noteq> t div 4096"
  shows "ram (zero_table t s) a = ram s a"
  using zero_table_upto [of t 512 s] assms by (simp add: zero_table_def ENTRIES_def)

subsection \<open>The flag bits and the address field\<close>

definition tbl :: "u64 \<Rightarrow> u64" where
  "tbl e = e AND ADDR_MASK"

lemma ADDR_MASK_push: "ADDR_MASK = push_bit 12 (mask 40)"
  by (simp add: ADDR_MASK_def mask_eq_exp_minus_1 push_bit_eq_mult)

lemma bit_tbl: "bit (tbl e) n \<longleftrightarrow> bit e n \<and> 12 \<le> n \<and> n < 52"
  by (auto simp: tbl_def ADDR_MASK_push bit_and_iff bit_push_bit_iff bit_mask_iff dest: bit_imp_le_length)

lemma present_bit: "present e \<longleftrightarrow> bit e 0"
  using and_bit_zero_iff [of e 0] by (simp add: present_def PAGE_PRESENT_def)

lemma flag80_bit: "e AND 0x80 = (0 :: u64) \<longleftrightarrow> \<not> bit e 7"
  using and_bit_zero_iff [of e 7] by simp

lemma not_present_0 [simp]: "\<not> present 0"
  by (simp add: present_bit)

lemma is_table_bits: "is_table t \<longleftrightarrow> (\<forall>n < 12. \<not> bit t n)"
proof -
  have "is_table t \<longleftrightarrow> take_bit 12 t = 0" by (simp add: is_table_def take_bit_eq_mod)
  also have "\<dots> \<longleftrightarrow> (\<forall>n < 12. \<not> bit t n)" by (auto simp: bit_eq_iff bit_take_bit_iff)
  finally show ?thesis .
qed

lemma is_table_tbl [simp]: "is_table (tbl e)"
  by (simp add: is_table_bits bit_tbl)

text \<open>A frame the allocator manages, by its address.\<close>

definition is_frame :: "u64 \<Rightarrow> bool" where
  "is_frame t \<longleftrightarrow> is_table t \<and> t \<noteq> 0 \<and> t div 4096 < MAX_FRAMES"

lemma frame_high_bits:
  assumes "is_frame t" and "32 \<le> n"
  shows "\<not> bit t n"
proof
  assume b: "bit t n"
  have "t div 4096 < 2 ^ 20" using assms(1) by (simp add: is_frame_def MAX_FRAMES_def)
  then have "take_bit 20 (drop_bit 12 t) = drop_bit 12 t"
    by (simp add: drop_bit_12 take_bit_eq_mask less_mask_eq)
  moreover have "bit (drop_bit 12 t) (n - 12)" using b assms(2) by (simp add: bit_drop_bit_eq)
  ultimately have "n - 12 < 20" by (metis bit_take_bit_iff)
  then show False using assms(2) by linarith
qed

lemma tbl_or:
  assumes "is_frame t" and "tbl fl = 0"
  shows "tbl (t OR fl) = t"
proof (rule bit_word_eqI)
  fix n assume "n < LENGTH(64)"
  have "\<not> bit (tbl fl) n" by (simp add: assms(2))
  moreover have "bit t n \<Longrightarrow> 12 \<le> n \<and> n < 52"
    using assms(1) frame_high_bits [OF assms(1), of n] by (force simp: is_frame_def is_table_bits not_less)
  ultimately show "bit (tbl (t OR fl)) n = bit t n"
    by (auto simp: bit_tbl bit_or_iff)
qed

subsection \<open>The user half of an address space as a tree of tables\<close>

text \<open>
  Everything under entry 1 of the page-directory-pointer table: \<open>pdpt_of\<close> and \<open>pd_of\<close> are the two
  single tables, \<open>pde k\<close> the \<open>k\<close>-th directory entry, \<open>pte k l\<close> the entry of one page; an entry below
  a missing table reads as \<open>0\<close>.
\<close>

definition pdpt_of :: "pmm \<Rightarrow> u64 \<Rightarrow> u64" where "pdpt_of s p = tbl (ent s p 0)"
definition pdpe :: "pmm \<Rightarrow> u64 \<Rightarrow> u64" where "pdpe s p = ent s (pdpt_of s p) 1"
definition pd_of :: "pmm \<Rightarrow> u64 \<Rightarrow> u64" where "pd_of s p = tbl (pdpe s p)"
definition pde :: "pmm \<Rightarrow> u64 \<Rightarrow> u64 \<Rightarrow> u64" where
  "pde s p k = (if present (pdpe s p) then ent s (pd_of s p) k else 0)"
definition pte :: "pmm \<Rightarrow> u64 \<Rightarrow> u64 \<Rightarrow> u64 \<Rightarrow> u64" where
  "pte s p k l = (if present (pde s p k) then ent s (tbl (pde s p k)) l else 0)"

definition tables :: "pmm \<Rightarrow> u64 \<Rightarrow> u64 set" where
  "tables s p = {p, pdpt_of s p} \<union> (if present (pdpe s p) then {pd_of s p} else {})
     \<union> {tbl (pde s p k) |k. k < 512 \<and> present (pde s p k)}"

definition tree_wf :: "pmm \<Rightarrow> u64 \<Rightarrow> bool" where
  "tree_wf s p \<longleftrightarrow> is_table p \<and> present (ent s p 0) \<and> p \<noteq> pdpt_of s p
     \<and> (present (pdpe s p) \<longrightarrow> pd_of s p \<notin> {p, pdpt_of s p})
     \<and> (\<forall>k < 512. present (pde s p k) \<longrightarrow>
          tbl (pde s p k) \<notin> {p, pdpt_of s p, pd_of s p} \<and> \<not> bit (pde s p k) 7
          \<and> (\<forall>j < 512. present (pde s p j) \<longrightarrow> tbl (pde s p j) = tbl (pde s p k) \<longrightarrow> j = k))"

lemma tree_wf_top:
  assumes "tree_wf s p"
  shows "is_table p" and "present (ent s p 0)" and "p \<noteq> pdpt_of s p"
    and "present (pdpe s p) \<Longrightarrow> pd_of s p \<noteq> p" and "present (pdpe s p) \<Longrightarrow> pd_of s p \<noteq> pdpt_of s p"
  using assms by (auto simp: tree_wf_def)

lemma tree_wf_pt:
  assumes "tree_wf s p" and "k < 512" and "present (pde s p k)"
  shows "tbl (pde s p k) \<noteq> p" and "tbl (pde s p k) \<noteq> pdpt_of s p" and "tbl (pde s p k) \<noteq> pd_of s p" and "\<not> bit (pde s p k) 7"
  using assms unfolding tree_wf_def by blast+

lemma tree_wf_inj:
  assumes "tree_wf s p" and "k < 512" "present (pde s p k)" and "j < 512" "present (pde s p j)" and "tbl (pde s p j) = tbl (pde s p k)"
  shows "j = k"
  using assms unfolding tree_wf_def by blast

lemma is_table_parts [simp]: "is_table (pdpt_of s p)" "is_table (pd_of s p)"
  by (simp_all add: pdpt_of_def pd_of_def)

definition same_entry :: "u64 \<Rightarrow> u64 \<Rightarrow> bool" where
  "same_entry e e' \<longleftrightarrow> tbl e = tbl e' \<and> present e = present e' \<and> bit e 7 = bit e' 7"

lemma same_entry_refl [simp]: "same_entry e e"
  by (simp add: same_entry_def)

lemma tree_cong:
  assumes wf: "tree_wf s p"
    and e0: "same_entry (ent s' p 0) (ent s p 0)"
    and e1: "same_entry (ent s' (pdpt_of s p) 1) (pdpe s p)"
    and e2: "\<And>k. k < 512 \<Longrightarrow> present (pdpe s p) \<Longrightarrow> same_entry (ent s' (pd_of s p) k) (pde s p k)"
    and e3: "\<And>k l. k < 512 \<Longrightarrow> l < 512 \<Longrightarrow> present (pde s p k) \<Longrightarrow> ent s' (tbl (pde s p k)) l = ent s (tbl (pde s p k)) l"
  shows "tree_wf s' p" and "tables s' p = tables s p" and "\<And>k l. k < 512 \<Longrightarrow> l < 512 \<Longrightarrow> pte s' p k l = pte s p k l"
    and "pdpt_of s' p = pdpt_of s p" and "present (pdpe s' p) = present (pdpe s p)" and "pd_of s' p = pd_of s p"
    and "\<And>k. k < 512 \<Longrightarrow> same_entry (pde s' p k) (pde s p k)"
proof -
  show r: "pdpt_of s' p = pdpt_of s p" using e0 by (simp add: pdpt_of_def same_entry_def)
  then have d: "same_entry (pdpe s' p) (pdpe s p)" using e1 by (simp add: pdpe_def)
  show dp: "present (pdpe s' p) = present (pdpe s p)" using d by (simp add: same_entry_def)
  show pd: "pd_of s' p = pd_of s p" using d by (simp add: pd_of_def same_entry_def)
  show k: "same_entry (pde s' p k) (pde s p k)" if "k < 512" for k
    using e2 [OF that] by (auto simp: pde_def [of s'] dp pd) (simp add: pde_def)
  then have kp: "k < 512 \<Longrightarrow> present (pde s' p k) = present (pde s p k)"
    and kt: "k < 512 \<Longrightarrow> tbl (pde s' p k) = tbl (pde s p k)"
    and kb: "k < 512 \<Longrightarrow> bit (pde s' p k) 7 = bit (pde s p k) 7" for k
    by (auto simp: same_entry_def)
  show "pte s' p k l = pte s p k l" if "k < 512" "l < 512" for k l
    using e3 that by (auto simp: pte_def kp kt)
  have "{tbl (pde s' p k) |k. k < 512 \<and> present (pde s' p k)} = {tbl (pde s p k) |k. k < 512 \<and> present (pde s p k)}"
    using kp kt by metis
  then show "tables s' p = tables s p" by (simp add: tables_def r dp pd)
  show "tree_wf s' p" using wf e0 unfolding tree_wf_def r dp pd by (auto simp: same_entry_def kp kt kb)
qed

lemma same_entry_or:
  assumes "\<forall>n. bit f n \<longrightarrow> n = 1 \<or> n = 2"
  shows "same_entry (e OR f) e"
proof -
  have "\<not> bit f 0" and "\<not> bit f 7" using assms by fastforce+
  moreover have "tbl (e OR f) = tbl e"
    by (rule bit_word_eqI) (use assms in \<open>force simp: bit_tbl bit_or_iff\<close>)
  ultimately show ?thesis by (simp add: same_entry_def present_bit bit_or_iff)
qed

lemma widen_bits: "bit (flags AND (PAGE_USER OR PAGE_WRITE)) n \<Longrightarrow> n = 1 \<or> n = 2"
proof -
  assume a: "bit (flags AND (PAGE_USER OR PAGE_WRITE)) n"
  have u: "PAGE_USER = 2 ^ 2" and w: "PAGE_WRITE = 2 ^ 1" by (simp_all add: PAGE_USER_def PAGE_WRITE_def)
  show "n = 1 \<or> n = 2" using a unfolding bit_and_iff bit_or_iff u w bit_exp_iff by auto
qed

text \<open>What an update of one entry does to the tree, level by level.\<close>

lemma widen_any:
  assumes wf: "tree_wf s p" and t: "(t, i) = (p, 0) \<or> (t, i) = (pdpt_of s p, 1)
      \<or> (present (pdpe s p) \<and> t = pd_of s p \<and> i < 512)"
    and f: "\<forall>n. bit f n \<longrightarrow> n = 1 \<or> n = 2"
    and s': "s' = set_ent t i (ent s t i OR f) s"
  shows "tree_wf s' p" and "tables s' p = tables s p" and "\<And>k l. k < 512 \<Longrightarrow> l < 512 \<Longrightarrow> pte s' p k l = pte s p k l"
    and "pdpt_of s' p = pdpt_of s p" and "present (pdpe s' p) = present (pdpe s p)" and "pd_of s' p = pd_of s p"
    and "\<And>k. k < 512 \<Longrightarrow> same_entry (pde s' p k) (pde s p k)"
proof -
  have tt: "is_table t" "i < 512" and p: "is_table p"
    using t wf by (auto simp: tree_wf_def)
  have all: "is_table t' \<Longrightarrow> j < 512 \<Longrightarrow> same_entry (ent s' t' j) (ent s t' j)" for t' j
    using same_entry_or [OF f] by (auto simp: s' ent_set_ent tt)
  have low: "ent s' (tbl (pde s p k)) l = ent s (tbl (pde s p k)) l" if "k < 512" "l < 512" "present (pde s p k)" for k l
  proof -
    have "t \<noteq> tbl (pde s p k)" using t wf that by (auto simp: tree_wf_def)
    then show ?thesis using that by (simp add: s' ent_set_ent tt)
  qed
  note c = tree_cong [OF wf, of s']
  have e2: "same_entry (ent s' (pd_of s p) k) (pde s p k)" if "k < 512" "present (pdpe s p)" for k
    using all [of "pd_of s p" k] that by (simp add: pde_def)
  show "tree_wf s' p" "tables s' p = tables s p" "\<And>k l. k < 512 \<Longrightarrow> l < 512 \<Longrightarrow> pte s' p k l = pte s p k l"
    "pdpt_of s' p = pdpt_of s p" "present (pdpe s' p) = present (pdpe s p)" "pd_of s' p = pd_of s p"
    "\<And>k. k < 512 \<Longrightarrow> same_entry (pde s' p k) (pde s p k)"
    using c all [OF p, of 0] all [of "pdpt_of s p" 1] e2 low by (auto simp: pdpe_def)
qed

lemma set_pte_tree:
  assumes wf: "tree_wf s p" and k: "k < 512" "present (pde s p k)" and l: "l < 512"
    and s': "s' = set_ent (tbl (pde s p k)) l v s"
  shows "tree_wf s' p" and "tables s' p = tables s p"
    and "\<And>k' l'. k' < 512 \<Longrightarrow> l' < 512 \<Longrightarrow> pte s' p k' l' = (if k' = k \<and> l' = l then v else pte s p k' l')"
proof -
  let ?t = "tbl (pde s p k)"
  have p: "is_table p" and d: "?t \<notin> {p, pdpt_of s p, pd_of s p}" using wf k by (auto simp: tree_wf_def)
  have en: "is_table t' \<Longrightarrow> i < 512 \<Longrightarrow> ent s' t' i = (if ?t = t' \<and> l = i then v else ent s t' i)" for t' i
    by (simp add: s' ent_set_ent l)
  have top: "ent s' t' i = ent s t' i" if "is_table t'" "i < 512" "t' \<in> {p, pdpt_of s p, pd_of s p}" for t' i
    using that d by (auto simp: en)
  have r: "pdpt_of s' p = pdpt_of s p" using top [OF p, of 0] by (simp add: pdpt_of_def)
  have e: "pdpe s' p = pdpe s p" using top [of "pdpt_of s p" 1] by (simp add: pdpe_def r)
  have pd: "pd_of s' p = pd_of s p" by (simp add: pd_of_def e)
  have pk: "pde s' p j = pde s p j" if "j < 512" for j using top [of "pd_of s p" j] that by (simp add: pde_def e pd)
  show "tree_wf s' p" using wf top [OF p, of 0] by (auto simp: tree_wf_def r e pd pk)
  have "{tbl (pde s' p k) |k. k < 512 \<and> present (pde s' p k)} = {tbl (pde s p k) |k. k < 512 \<and> present (pde s p k)}"
    using pk by metis
  then show "tables s' p = tables s p" by (simp add: tables_def r e pd)
  show "pte s' p k' l' = (if k' = k \<and> l' = l then v else pte s p k' l')" if b: "k' < 512" "l' < 512" for k' l'
  proof (cases "present (pde s p k') \<and> k' \<noteq> k")
    case True
    then have "tbl (pde s p k') \<noteq> ?t" using tree_wf_inj [OF wf k, of k'] b by blast
    then show ?thesis using True b by (simp add: pte_def pk en)
  next
    case False
    then have "\<not> present (pde s p k') \<or> k' = k" by blast
    then show ?thesis using b k l by (elim disjE) (auto simp: pte_def pk en)
  qed
qed

lemma new_pd_tree:
  assumes wf: "tree_wf s p" and n: "\<not> present (pdpe s p)"
    and t: "is_frame t" "t \<notin> tables s p" and e: "tbl e = t" "present e"
    and s': "s' = set_ent (pdpt_of s p) 1 e (zero_table t s)"
  shows "tree_wf s' p" and "tables s' p = insert t (tables s p)" and "pdpt_of s' p = pdpt_of s p" and "pdpe s' p = e"
    and "pd_of s' p = t" and "\<And>k. k < 512 \<Longrightarrow> pde s' p k = 0"
    and "\<And>k l. k < 512 \<Longrightarrow> l < 512 \<Longrightarrow> pte s' p k l = pte s p k l"
proof -
  have p: "is_table p" and tt: "is_table t" "t \<noteq> p" "t \<noteq> pdpt_of s p" and pr: "p \<noteq> pdpt_of s p"
    using wf t by (auto simp: tree_wf_def tables_def is_frame_def)
  have en: "is_table t' \<Longrightarrow> i < 512 \<Longrightarrow>
      ent s' t' i = (if t' = pdpt_of s p \<and> i = 1 then e else if t' = t then 0 else ent s t' i)" for t' i
    using tt by (auto simp: s' ent_set_ent ent_zero_table)
  have r: "ent s' p 0 = ent s p 0" using tt pr by (simp add: en p)
  then show r': "pdpt_of s' p = pdpt_of s p" by (simp add: pdpt_of_def)
  then show pe: "pdpe s' p = e" by (simp add: pdpe_def en)
  then show pd: "pd_of s' p = t" by (simp add: pd_of_def e)
  show pk: "pde s' p k = 0" if "k < 512" for k
    using that tt by (simp add: pde_def pe e pd en)
  show "tree_wf s' p" using wf tt by (simp add: tree_wf_def r r' pe pd pk e)
  have "{tbl (pde s' p k) |k. k < 512 \<and> present (pde s' p k)} = {}" using pk by auto
  moreover have "\<not> present (pde s p k)" for k using n by (simp add: pde_def)
  ultimately show "tables s' p = insert t (tables s p)" by (auto simp: tables_def r' pe pd e n)
  show "pte s' p k l = pte s p k l" if "k < 512" for k l using that pk n by (simp add: pte_def pde_def)
qed

lemma new_pt_tree:
  assumes wf: "tree_wf s p" and n: "present (pdpe s p)" "k < 512" "\<not> present (pde s p k)"
    and t: "is_frame t" "t \<notin> tables s p" and e: "tbl e = t" "present e" "\<not> bit e 7"
    and s': "s' = set_ent (pd_of s p) k e (zero_table t s)"
  shows "tree_wf s' p" and "tables s' p = insert t (tables s p)" and "pdpe s' p = pdpe s p" and "pd_of s' p = pd_of s p"
    and "pdpt_of s' p = pdpt_of s p"
    and "\<And>j. j < 512 \<Longrightarrow> pde s' p j = (if j = k then e else pde s p j)"
    and "\<And>k l. k < 512 \<Longrightarrow> l < 512 \<Longrightarrow> pte s' p k l = pte s p k l"
proof -
  have p: "is_table p" and tt: "is_table t" "t \<noteq> p" "t \<noteq> pdpt_of s p" "t \<noteq> pd_of s p"
    and fresh: "\<And>j. j < 512 \<Longrightarrow> present (pde s p j) \<Longrightarrow> t \<noteq> tbl (pde s p j)"
    and pr: "p \<noteq> pdpt_of s p" "p \<noteq> pd_of s p" "pdpt_of s p \<noteq> pd_of s p"
    using tree_wf_top [OF wf] t n(1) by (auto simp: tables_def is_frame_def)
  have en: "is_table t' \<Longrightarrow> i < 512 \<Longrightarrow>
      ent s' t' i = (if t' = pd_of s p \<and> i = k then e else if t' = t then 0 else ent s t' i)" for t' i
    using tt n by (auto simp: s' ent_set_ent ent_zero_table)
  have r: "ent s' p 0 = ent s p 0" using tt pr by (simp add: en p)
  then show r': "pdpt_of s' p = pdpt_of s p" by (simp add: pdpt_of_def)
  then show pe: "pdpe s' p = pdpe s p" using pr tt by (simp add: pdpe_def en)
  then show pd: "pd_of s' p = pd_of s p" by (simp add: pd_of_def)
  show pk: "pde s' p j = (if j = k then e else pde s p j)" if "j < 512" for j
    using that tt n by (simp add: pde_def pe pd en)
  have A: "tbl (pde s' p j) \<notin> {p, pdpt_of s p, pd_of s p} \<and> \<not> bit (pde s' p j) 7" if "j < 512" "present (pde s' p j)" for j
    using that tt e tree_wf_pt [OF wf, of j] by (cases "j = k") (simp_all add: pk)
  have B: "j = i" if "i < 512" "present (pde s' p i)" "j < 512" "present (pde s' p j)" "tbl (pde s' p j) = tbl (pde s' p i)" for i j
    using that pk [of i] pk [of j] fresh [of i] fresh [of j] e(1) tree_wf_inj [OF wf, of i j] by metis
  have C: "is_table p \<and> present (ent s p 0) \<and> p \<noteq> pdpt_of s p \<and> (present (pdpe s p) \<longrightarrow> pd_of s p \<notin> {p, pdpt_of s p})"
    using wf by (simp add: tree_wf_def)
  show "tree_wf s' p" unfolding tree_wf_def r r' pe pd using A B C by blast
  have "{tbl (pde s' p j) |j. j < 512 \<and> present (pde s' p j)} = insert t {tbl (pde s p j) |j. j < 512 \<and> present (pde s p j)}"
    using pk e n by (auto split: if_splits) (metis, metis)
  then show "tables s' p = insert t (tables s p)" by (auto simp: tables_def r' pe pd)
  show "pte s' p j l = pte s p j l" if b: "j < 512" "l < 512" for j l
  proof (cases "j = k")
    case True
    then show ?thesis using tt b n e by (simp add: pte_def pk en)
  next
    case False
    then have "present (pde s p j) \<Longrightarrow> tbl (pde s p j) \<noteq> t \<and> tbl (pde s p j) \<noteq> pd_of s p"
      using fresh [of j] b tree_wf_pt(3) [OF wf, of j] by blast
    then show ?thesis using False b by (simp add: pte_def pk en)
  qed
qed

subsection \<open>Address spaces and the frames they hold\<close>

abbreviation pg :: "u64 \<Rightarrow> u64" where "pg t \<equiv> t div 4096"

definition space_ok :: "pmm \<Rightarrow> u64 \<Rightarrow> bool" where
  "space_ok s p \<longleftrightarrow> pmm_ok s \<and> tree_wf s p \<and> (\<forall>t \<in> tables s p. is_frame t \<and> pg t \<notin> free_set s)"

lemma pg_inj: "is_table t \<Longrightarrow> is_table u \<Longrightarrow> pg t = pg u \<longleftrightarrow> t = u"
  using word_div_mod_eqI [of t 4096 u] by (auto simp: is_table_def)

lemma is_frame_table: "is_frame t \<Longrightarrow> is_table t"
  by (simp add: is_frame_def)

lemma alloc_frame_split [consumes 1]:
  assumes "pmm_ok s"
  obtains (none) "free_set s = {}" "pmm_alloc_frame s = (0, s)"
  | (some) t where "is_frame t" "t \<noteq> 0" "pg t \<in> free_set s" "pmm_alloc_frame s = (t, mark_used (pg t) s)"
      "pmm_ok (mark_used (pg t) s)" "free_set (mark_used (pg t) s) = free_set s - {pg t}"
proof (cases rule: pmm_alloc_frame_cases [of s])
  case none
  then show ?thesis by (rule that(1))
next
  case (some f)
  have f: "f \<noteq> 0" "f < MAX_FRAMES" using some(1) assms free_set_below [of s] by (auto simp: pmm_ok_def)
  have uf: "unat f < 1048576" using f(2) by (simp add: MAX_FRAMES_def word_less_nat_alt)
  have u: "unat (f * PAGE_SIZE) = unat f * 4096"
    using uf by (simp add: PAGE_SIZE_def unat_mult_small)
  have d: "pg (f * PAGE_SIZE) = f" by (simp add: word_unat_eq_iff unat_div u)
  have "is_frame (f * PAGE_SIZE)"
    using f u by (auto simp: is_frame_def is_table_def d word_unat_eq_iff unat_mod)
  moreover have "f * PAGE_SIZE \<noteq> 0" using d f by force
  ultimately show ?thesis using some d assms pmm_wf_mark_used [of s f]
    by (intro that(2) [of "f * PAGE_SIZE"]) (auto simp: pmm_ok_def free_set_mark_used)
qed

lemma ent_ram_cong: "ram s' = ram s \<Longrightarrow> ent s' = ent s"
  by (intro ext) (simp add: ent_def)

lemma view_ram_cong:
  assumes "ram s' = ram s"
  shows "pdpt_of s' = pdpt_of s" "pdpe s' = pdpe s" "pd_of s' = pd_of s" "pde s' = pde s" "pte s' = pte s"
    "tables s' = tables s" "tree_wf s' = tree_wf s"
  by (intro ext; simp add: ent_ram_cong [OF assms] pdpt_of_def pdpe_def pd_of_def pde_def pte_def tables_def tree_wf_def)+

text \<open>
  The part of the two top tables that belongs to the kernel: every entry but the one the user window hangs
  off. \<open>kern_same\<close> says an operation left all of it alone.
\<close>

definition kern_same :: "u64 \<Rightarrow> pmm \<Rightarrow> pmm \<Rightarrow> bool" where
  "kern_same p s s' \<longleftrightarrow> pdpt_of s' p = pdpt_of s p
     \<and> (\<forall>i < 512. i \<noteq> 1 \<longrightarrow> ent s' (pdpt_of s p) i = ent s (pdpt_of s p) i)
     \<and> (\<forall>i < 512. i \<noteq> 0 \<longrightarrow> ent s' p i = ent s p i)"

lemma kern_same_refl [simp]: "kern_same p s s"
  by (simp add: kern_same_def)

lemma kern_same_trans: "kern_same p s s1 \<Longrightarrow> kern_same p s1 s2 \<Longrightarrow> kern_same p s s2"
  by (simp add: kern_same_def)

lemma kern_same_set_ent:
  assumes "tree_wf s p" and "is_table t" and "i < 512" and "(t, i) = (p, 0) \<or> (t, i) = (pdpt_of s p, 1) \<or> t \<notin> {p, pdpt_of s p}"
    and "pdpt_of (set_ent t i v s) p = pdpt_of s p"
  shows "kern_same p s (set_ent t i v s)"
  using assms tree_wf_top(1,3) [OF assms(1)] by (auto simp: kern_same_def ent_set_ent)

lemma kern_same_zero_table:
  assumes "is_table p" and "is_table t" and "t \<notin> {p, pdpt_of s p}"
  shows "kern_same p s (zero_table t s)" and "pdpt_of (zero_table t s) p = pdpt_of s p"
  using assms by (auto simp: kern_same_def ent_zero_table pdpt_of_def)

text \<open>How the tables of a space may grow: frames come from the free set only, no page entry changes, and no
  memory outside the tables is touched.\<close>

definition grows :: "u64 \<Rightarrow> pmm \<Rightarrow> pmm \<Rightarrow> bool" where
  "grows p s s' \<longleftrightarrow> space_ok s' p \<and> (\<forall>k < 512. \<forall>l < 512. pte s' p k l = pte s p k l)
     \<and> kern_same p s s'
     \<and> tables s p \<subseteq> tables s' p \<and> pg ` (tables s' p - tables s p) \<subseteq> free_set s
     \<and> free_set s' = free_set s - pg ` tables s' p
     \<and> (\<forall>a. pg a \<notin> pg ` tables s' p \<longrightarrow> ram s' a = ram s a)"

lemma space_okD:
  assumes "space_ok s p"
  shows "pmm_ok s" "tree_wf s p" "t \<in> tables s p \<Longrightarrow> is_frame t" "t \<in> tables s p \<Longrightarrow> t \<noteq> 0" "t \<in> tables s p \<Longrightarrow> pg t \<notin> free_set s"
    "free_set s - pg ` tables s p = free_set s"
  using assms by (auto simp: space_ok_def is_frame_def)

lemma grows_refl: "space_ok s p \<Longrightarrow> grows p s s"
  by (auto simp: grows_def space_okD)

lemma grows_trans:
  assumes "grows p s s1" and "grows p s1 s2"
  shows "grows p s s2"
  unfolding grows_def
proof (intro conjI)
  have f1: "free_set s1 = free_set s - pg ` tables s1 p" and f2: "free_set s2 = free_set s1 - pg ` tables s2 p"
    and t: "tables s p \<subseteq> tables s1 p" "tables s1 p \<subseteq> tables s2 p"
    and n: "pg ` (tables s1 p - tables s p) \<subseteq> free_set s" "pg ` (tables s2 p - tables s1 p) \<subseteq> free_set s1"
    using assms by (auto simp: grows_def)
  show "tables s p \<subseteq> tables s2 p" using t by blast
  show "pg ` (tables s2 p - tables s p) \<subseteq> free_set s" using n f1 by blast
  show "free_set s2 = free_set s - pg ` tables s2 p" using f1 f2 t by blast
  have "kern_same p s s1" "kern_same p s1 s2" using assms by (simp_all add: grows_def)
  then show "kern_same p s s2" by (rule kern_same_trans)
  show "\<forall>a. pg a \<notin> pg ` tables s2 p \<longrightarrow> ram s2 a = ram s a"
  proof (intro allI impI)
    fix a assume a: "pg a \<notin> pg ` tables s2 p"
    then have "pg a \<notin> pg ` tables s1 p" using t by blast
    then show "ram s2 a = ram s a" using a assms by (simp add: grows_def)
  qed
qed (use assms in \<open>auto simp: grows_def\<close>)

lemma widen_grows:
  assumes ok: "space_ok s p" and t: "(t, i) = (p, 0) \<or> (t, i) = (pdpt_of s p, 1)
      \<or> (present (pdpe s p) \<and> t = pd_of s p \<and> i < 512)"
  shows "grows p s (set_ent t i (ent s t i OR (flags AND (PAGE_USER OR PAGE_WRITE))) s)" (is "grows p s ?s'")
proof -
  have f: "\<forall>n. bit (flags AND (PAGE_USER OR PAGE_WRITE)) n \<longrightarrow> n = 1 \<or> n = 2" using widen_bits by blast
  note w = widen_any [OF space_okD(2) [OF ok] t f refl]
  have tt: "t \<in> tables s p" "is_table t" "i < 512" using t tree_wf_top [OF space_okD(2) [OF ok]] by (auto simp: tables_def)
  have ks: "kern_same p s ?s'"
    using t tree_wf_top(3,4,5) [OF space_okD(2) [OF ok]]
    by (intro kern_same_set_ent [OF space_okD(2) [OF ok] tt(2,3) _ w(4)]) auto
  have "pmm_ok ?s'" using ok by (simp add: space_ok_def pmm_ok_def pmm_wf_def)
  then have "space_ok ?s' p" using ok by (auto simp: space_ok_def w)
  moreover have "pg a \<notin> pg ` tables s p \<Longrightarrow> ram ?s' a = ram s a" for a
    using tt by (intro ram_set_ent) auto
  ultimately show ?thesis unfolding grows_def w using space_okD(6) [OF ok] w(3) ks by auto
qed

lemma entry_flags:
  fixes flags :: u64
  defines "fl \<equiv> PAGE_PRESENT OR PAGE_WRITE OR (flags AND PAGE_USER)"
  shows "tbl fl = 0" and "bit fl 0" and "\<not> bit fl 7"
proof -
  have b: "bit fl n \<longleftrightarrow> n = 0 \<or> n = 1 \<or> n = 2 \<and> bit flags 2" for n
  proof -
    have c: "PAGE_PRESENT = 2 ^ 0" "PAGE_WRITE = 2 ^ 1" "PAGE_USER = 2 ^ 2"
      by (simp_all add: PAGE_PRESENT_def PAGE_WRITE_def PAGE_USER_def)
    show ?thesis unfolding fl_def bit_or_iff bit_and_iff c bit_exp_iff by auto
  qed
  show "tbl fl = 0" by (rule bit_word_eqI) (auto simp: bit_tbl b)
  show "bit fl 0" "\<not> bit fl 7" by (simp_all add: b)
qed

lemma new_entry:
  fixes flags :: u64
  assumes "is_frame t"
  defines "e \<equiv> t OR PAGE_PRESENT OR PAGE_WRITE OR (flags AND PAGE_USER)"
  shows "tbl e = t" and "present e" and "\<not> bit e 7"
  using assms(1) tbl_or [OF assms(1) entry_flags(1)] entry_flags(2,3) [of flags]
  by (auto simp: e_def or.assoc present_bit bit_or_iff is_frame_def is_table_bits)

text \<open>Taking a fresh frame for a table and hanging it below entry \<open>i\<close> of table \<open>t\<close>.\<close>

lemma fresh_table_grows:
  assumes ok: "space_ok s p" and f: "is_frame f" "pg f \<in> free_set s"
    and m: "pmm_ok (mark_used (pg f) s)" "free_set (mark_used (pg f) s) = free_set s - {pg f}"
    and t: "t \<in> tables s p" "i < 512" "(t, i) = (pdpt_of s p, 1) \<or> t \<notin> {p, pdpt_of s p}"
    and s': "s' = set_ent t i e (zero_table f (mark_used (pg f) s))"
    and wf: "tree_wf s' p" and tb: "tables s' p = insert f (tables s p)" and r: "pdpt_of s' p = pdpt_of s p"
    and same: "\<And>k l. k < 512 \<Longrightarrow> l < 512 \<Longrightarrow> pte s' p k l = pte s p k l"
  shows "grows p s s'"
proof -
  have tt: "is_table t" "is_table f" using space_okD(3) [OF ok t(1)] f by (auto simp: is_frame_def)
  have fs: "free_set s' = free_set s - {pg f}" by (simp add: s' tt m(2))
  have "pmm_ok s'" using m(1) tt fs by (simp add: s' pmm_ok_def pmm_wf_def)
  then have "space_ok s' p" using wf f ok fs by (auto simp: space_ok_def tb)
  moreover have "free_set s' = free_set s - pg ` tables s' p" using space_okD(6) [OF ok] fs by (auto simp: tb)
  moreover have "ram s' a = ram s a" if "pg a \<notin> pg ` tables s' p" for a
  proof -
    have "pg a \<noteq> pg t" "pg a \<noteq> pg f" using that t(1) by (auto simp: tb)
    then show ?thesis using t tt by (simp add: s' ram_set_ent ram_zero_table)
  qed
  moreover have "kern_same p s s'"
  proof -
    let ?s1 = "mark_used (pg f) s"
    have p: "is_table p" using tree_wf_top(1) [OF space_okD(2) [OF ok]] .
    have nf: "f \<notin> {p, pdpt_of s p}" using space_okD(5) [OF ok, of f] f by (auto simp: tables_def)
    have v: "pdpt_of ?s1 p = pdpt_of s p" "ent ?s1 = ent s" using view_ram_cong(1) [of ?s1 s] ent_ram_cong [of ?s1 s] by simp_all
    have z: "kern_same p ?s1 (zero_table f ?s1)" using kern_same_zero_table [OF p tt(2), of ?s1] nf v by simp
    then have z': "kern_same p s (zero_table f ?s1)" by (simp add: kern_same_def v)
    have "\<forall>j < 512. j \<noteq> 1 \<longrightarrow> ent s' (pdpt_of s p) j = ent (zero_table f ?s1) (pdpt_of s p) j"
      "\<forall>j < 512. j \<noteq> 0 \<longrightarrow> ent s' p j = ent (zero_table f ?s1) p j"
      using t tree_wf_top(3) [OF space_okD(2) [OF ok]] by (auto simp: s' ent_set_ent tt p)
    then show ?thesis using z' r by (simp add: kern_same_def)
  qed
  ultimately show ?thesis using f same by (auto simp: grows_def tb)
qed

lemma free_not_table: "space_ok s p \<Longrightarrow> pg f \<in> free_set s \<Longrightarrow> f \<notin> tables s p"
  by (auto simp: space_ok_def)

lemma next_level_root:
  assumes ok: "space_ok s p"
  obtains s' where "next_level p 0 True flags s = (pdpt_of s p, s')" "grows p s s'" "pdpt_of s p \<noteq> 0"
    "pdpt_of s' p = pdpt_of s p"
proof -
  let ?s' = "set_ent p 0 (ent s p 0 OR (flags AND (PAGE_USER OR PAGE_WRITE))) s"
  have g: "grows p s ?s'" by (rule widen_grows [OF ok]) simp
  then have "tbl (ent ?s' p 0) = pdpt_of s p" by (simp add: grows_def kern_same_def pdpt_of_def)
  then have "next_level p 0 True flags s = (pdpt_of s p, ?s')"
    using tree_wf_top [OF space_okD(2) [OF ok]] by (simp add: next_level_def Let_def tbl_def)
  moreover have "pdpt_of s p \<noteq> 0" using space_okD(4) [OF ok, of "pdpt_of s p"] by (simp add: tables_def)
  ultimately show ?thesis using g that by (auto simp: grows_def kern_same_def)
qed

lemma next_level_pdpt:
  assumes ok: "space_ok s p"
  obtains (full) "next_level (pdpt_of s p) 1 True flags s = (0, s)" "free_set s = {}"
  | (down) s' where "next_level (pdpt_of s p) 1 True flags s = (pd_of s' p, s')" "grows p s s'"
      "pd_of s' p \<noteq> 0" "present (pdpe s' p)"
proof (cases "present (pdpe s p)")
  case True
  let ?s' = "set_ent (pdpt_of s p) 1 (ent s (pdpt_of s p) 1 OR (flags AND (PAGE_USER OR PAGE_WRITE))) s"
  have g: "grows p s ?s'" by (rule widen_grows [OF ok]) simp
  have f: "\<forall>n. bit (flags AND (PAGE_USER OR PAGE_WRITE)) n \<longrightarrow> n = 1 \<or> n = 2" using widen_bits by blast
  have w: "present (pdpe ?s' p)" "pdpt_of ?s' p = pdpt_of s p"
    using widen_any(4,5) [OF space_okD(2) [OF ok] _ f refl, of "pdpt_of s p" 1] True by auto
  have "pd_of ?s' p = tbl (ent ?s' (pdpt_of s p) 1)" by (simp add: pd_of_def pdpe_def w)
  then have "next_level (pdpt_of s p) 1 True flags s = (pd_of ?s' p, ?s')"
    using True by (simp add: next_level_def Let_def tbl_def pdpe_def)
  moreover have "pd_of ?s' p \<noteq> 0" using g space_okD(4) [of ?s' p "pd_of ?s' p"] w by (auto simp: grows_def tables_def)
  ultimately show ?thesis using g w by (intro that(2))
next
  case False
  show ?thesis
    using space_okD(1) [OF ok]
  proof (cases rule: alloc_frame_split)
    case none
    then show ?thesis using False by (intro that(1)) (simp_all add: next_level_def pdpe_def)
  next
    case (some t)
    let ?e = "t OR PAGE_PRESENT OR PAGE_WRITE OR (flags AND PAGE_USER)"
    let ?s1 = "mark_used (pg t) s"
    let ?s' = "set_ent (pdpt_of s p) 1 ?e (zero_table t ?s1)"
    note v = view_ram_cong [of ?s1 s, simplified]
    have wf: "tree_wf ?s1 p" and n: "\<not> present (pdpe ?s1 p)" and nt: "t \<notin> tables ?s1 p"
      using space_okD(2) [OF ok] False free_not_table [OF ok some(3)] by (simp_all add: v)
    note ne = new_entry [OF some(1), of flags]
    have sd: "?s' = set_ent (pdpt_of ?s1 p) 1 ?e (zero_table t ?s1)" by (simp add: v)
    note w = new_pd_tree [OF wf n some(1) nt ne(1,2) sd]
    have g: "grows p s ?s'"
      by (rule fresh_table_grows [OF ok some(1,3,5,6) _ _ _ refl, of "pdpt_of s p" 1])
         (use w in \<open>auto simp: v tables_def\<close>)
    have "next_level (pdpt_of s p) 1 True flags s = (pd_of ?s' p, ?s')"
      using False some w(3,4) by (simp add: next_level_def Let_def pdpe_def pd_of_def tbl_def v)
    then show ?thesis using g w ne some by (intro that(2) [of ?s']) auto
  qed
qed

lemma next_level_pd:
  assumes ok: "space_ok s p" and d: "present (pdpe s p)" and k: "k < 512"
  obtains (full) "next_level (pd_of s p) k True flags s = (0, s)" "free_set s = {}"
  | (down) s' where "next_level (pd_of s p) k True flags s = (tbl (pde s' p k), s')" "grows p s s'"
      "tbl (pde s' p k) \<noteq> 0" "present (pde s' p k)"
proof (cases "present (pde s p k)")
  case True
  let ?s' = "set_ent (pd_of s p) k (ent s (pd_of s p) k OR (flags AND (PAGE_USER OR PAGE_WRITE))) s"
  have g: "grows p s ?s'" by (rule widen_grows [OF ok]) (simp add: d k)
  have f: "\<forall>n. bit (flags AND (PAGE_USER OR PAGE_WRITE)) n \<longrightarrow> n = 1 \<or> n = 2" using widen_bits by blast
  have w: "present (pdpe ?s' p)" "pd_of ?s' p = pd_of s p" "same_entry (pde ?s' p k) (pde s p k)"
    using widen_any(5,6,7) [OF space_okD(2) [OF ok] _ f refl, of "pd_of s p" k] d k by auto
  have pk: "present (pde ?s' p k)" using w(3) True by (simp add: same_entry_def)
  have "pde ?s' p k = ent ?s' (pd_of s p) k" using w by (simp add: pde_def)
  then have "next_level (pd_of s p) k True flags s = (tbl (pde ?s' p k), ?s')"
    using True d by (simp add: next_level_def Let_def tbl_def pde_def)
  moreover have "tbl (pde ?s' p k) \<noteq> 0"
    using g space_okD(4) [of ?s' p "tbl (pde ?s' p k)"] pk k by (auto simp: grows_def tables_def)
  ultimately show ?thesis using g pk by (intro that(2))
next
  case False
  show ?thesis
    using space_okD(1) [OF ok]
  proof (cases rule: alloc_frame_split)
    case none
    then show ?thesis using False d by (intro that(1)) (simp_all add: next_level_def pde_def)
  next
    case (some t)
    let ?e = "t OR PAGE_PRESENT OR PAGE_WRITE OR (flags AND PAGE_USER)"
    let ?s1 = "mark_used (pg t) s"
    let ?s' = "set_ent (pd_of s p) k ?e (zero_table t ?s1)"
    note v = view_ram_cong [of ?s1 s, simplified]
    have wf: "tree_wf ?s1 p" and n: "present (pdpe ?s1 p)" "\<not> present (pde ?s1 p k)" and nt: "t \<notin> tables ?s1 p"
      using space_okD(2) [OF ok] d False free_not_table [OF ok some(3)] by (simp_all add: v)
    note ne = new_entry [OF some(1), of flags]
    have sd: "?s' = set_ent (pd_of ?s1 p) k ?e (zero_table t ?s1)" by (simp add: v)
    note w = new_pt_tree [OF wf n(1) k n(2) some(1) nt ne sd]
    have g: "grows p s ?s'"
      by (rule fresh_table_grows [OF ok some(1,3,5,6) _ _ _ refl, of "pd_of s p" k])
         (use w k d tree_wf_top(4,5) [OF space_okD(2) [OF ok] d] in \<open>auto simp: v tables_def\<close>)
    have pk: "pde ?s' p k = ?e" using w(6) [OF k] by simp
    have "ent ?s' (pd_of s p) k = ?e" using pk w(3,4) d by (simp add: pde_def v)
    moreover have "\<not> present (ent s (pd_of s p) k)" using False d by (simp add: pde_def)
    ultimately have "next_level (pd_of s p) k True flags s = (tbl (pde ?s' p k), ?s')"
      using some by (simp add: next_level_def Let_def tbl_def pk)
    then show ?thesis using g pk ne some by (intro that(2) [of ?s']) auto
  qed
qed

subsection \<open>Addresses of the user window\<close>

definition user_addr :: "u64 \<Rightarrow> bool" where
  "user_addr v \<longleftrightarrow> USER_VIRT_BASE \<le> v \<and> v < USER_VIRT_END"

lemma and_1FF: "x AND 0x1FF = (x :: u64) mod 512"
  using and_mask_mod [of x 9] by (simp add: mask_eq_exp_minus_1)

lemma unat_idx:
  "unat (idx_pml4 v) = unat v div 549755813888 mod 512" "unat (idx_pdpt v) = unat v div 1073741824 mod 512"
  "unat (idx_pd v) = unat v div 2097152 mod 512" "unat (idx_pt v) = unat v div 4096 mod 512"
  by (simp_all add: idx_pml4_def idx_pdpt_def idx_pd_def idx_pt_def and_1FF drop_bit_eq_div unat_mod unat_div)

lemma idx_bound [simp]: "idx_pd v < 512" "idx_pt v < 512" "idx_pml4 v < 512" "idx_pdpt v < 512"
  by (simp_all add: word_less_nat_alt unat_idx)

lemma user_idx:
  assumes "user_addr v"
  shows "idx_pml4 v = 0" and "idx_pdpt v = 1" and "unat v div 1073741824 = 1"
proof -
  have b: "1073741824 \<le> unat v" "unat v < 2147483648"
    using assms by (simp_all add: user_addr_def USER_VIRT_BASE_def USER_VIRT_END_def word_le_nat_alt word_less_nat_alt)
  have d: "unat v div 1073741824 < 2" "0 < unat v div 1073741824"
    using b by (simp_all add: div_less_iff_less_mult div_greater_zero_iff)
  then show u: "unat v div 1073741824 = 1" by linarith
  have "unat v div 549755813888 = 0" using b by simp
  then show "idx_pml4 v = 0" "idx_pdpt v = 1" using u by (simp_all add: word_unat_eq_iff unat_idx)
qed

lemma user_page_eq_iff:
  assumes "user_addr v" "user_addr w"
  shows "idx_pd v = idx_pd w \<and> idx_pt v = idx_pt w \<longleftrightarrow> pg v = pg w"
proof
  assume "pg v = pg w"
  then have q: "unat v div 4096 = unat w div 4096" by (simp add: word_unat_eq_iff unat_div)
  have "unat x div 2097152 = unat x div 4096 div 512" for x :: u64 by (simp add: div_mult2_eq [symmetric])
  then show "idx_pd v = idx_pd w \<and> idx_pt v = idx_pt w" using q by (simp add: word_unat_eq_iff unat_idx)
next
  assume e: "idx_pd v = idx_pd w \<and> idx_pt v = idx_pt w"
  define V W where "V = unat v div 4096" and "W = unat w div 4096"
  have eq: "V div 512 mod 512 = W div 512 mod 512" "V mod 512 = W mod 512"
    using e by (simp_all add: word_unat_eq_iff unat_idx V_def W_def div_mult2_eq [symmetric])
  have "V div 512 div 512 = 1" "W div 512 div 512 = 1"
    using user_idx(3) assms by (simp_all add: V_def W_def div_mult2_eq [symmetric])
  then have "V div 512 = W div 512" using eq(1) by (metis div_mult_mod_eq)
  then have "V = W" using eq(2) by (metis div_mult_mod_eq)
  then show "pg v = pg w" by (simp add: word_unat_eq_iff unat_div V_def W_def)
qed

text \<open>The entry that governs a user address.\<close>

definition pte_at :: "pmm \<Rightarrow> u64 \<Rightarrow> u64 \<Rightarrow> u64" where
  "pte_at s p v = pte s p (idx_pd v) (idx_pt v)"

definition leaf :: "u64 \<Rightarrow> u64 \<Rightarrow> u64" where
  "leaf paddr flags = (paddr AND ADDR_MASK) OR (flags AND 0xFFF) OR (flags AND PAGE_NX) OR PAGE_PRESENT"

text \<open>Putting one entry into the lowest level, and what the rest of the machine sees of it.\<close>

definition sets_pte :: "u64 \<Rightarrow> u64 \<Rightarrow> u64 \<Rightarrow> pmm \<Rightarrow> pmm \<Rightarrow> bool" where
  "sets_pte p v e s s' \<longleftrightarrow> space_ok s' p
     \<and> (\<forall>w. user_addr w \<longrightarrow> pte_at s' p w = (if pg w = pg v then e else pte_at s p w))
     \<and> kern_same p s s'
     \<and> tables s p \<subseteq> tables s' p \<and> pg ` (tables s' p - tables s p) \<subseteq> free_set s
     \<and> free_set s' = free_set s - pg ` tables s' p
     \<and> (\<forall>a. pg a \<notin> pg ` tables s' p \<longrightarrow> ram s' a = ram s a)"

lemma set_pte_sets:
  assumes ok: "space_ok s p" and u: "user_addr v" and k: "present (pde s p (idx_pd v))"
  shows "sets_pte p v e s (set_ent (tbl (pde s p (idx_pd v))) (idx_pt v) e s)" (is "sets_pte p v e s ?s'")
proof -
  note w = set_pte_tree [where l = "idx_pt v" and v = e, OF space_okD(2) [OF ok] idx_bound(1) k idx_bound(2) refl]
  have t: "tbl (pde s p (idx_pd v)) \<in> tables s p" using k idx_bound(1) [of v] by (auto simp: tables_def)
  have p: "pdpt_of ?s' p = pdpt_of s p"
    using tree_wf_pt(1) [OF space_okD(2) [OF ok] idx_bound(1) k] tree_wf_top(1) [OF space_okD(2) [OF ok]]
    by (simp add: pdpt_of_def ent_set_ent)
  have "pmm_ok ?s'" using ok by (simp add: space_ok_def pmm_ok_def pmm_wf_def)
  then have "space_ok ?s' p" using ok w(1) by (simp add: space_ok_def w(2))
  moreover have "pg a \<notin> pg ` tables s p \<Longrightarrow> ram ?s' a = ram s a" for a
    using t by (intro ram_set_ent) auto
  moreover have "kern_same p s ?s'"
    using tree_wf_pt(1,2) [OF space_okD(2) [OF ok] idx_bound(1) k]
    by (intro kern_same_set_ent [OF space_okD(2) [OF ok] _ _ _ p]) auto
  moreover have "pte_at ?s' p x = (if pg x = pg v then e else pte_at s p x)" if "user_addr x" for x
    using user_page_eq_iff [OF that u] by (simp add: pte_at_def w(3))
  ultimately show ?thesis using space_okD(6) [OF ok] p by (simp add: sets_pte_def w(2))
qed

lemma grows_sets_pte:
  assumes g: "grows p s s1" and w: "sets_pte p v e s1 s2"
  shows "sets_pte p v e s s2"
proof -
  have f1: "free_set s1 = free_set s - pg ` tables s1 p" and f2: "free_set s2 = free_set s1 - pg ` tables s2 p"
    and t: "tables s p \<subseteq> tables s1 p" "tables s1 p \<subseteq> tables s2 p"
    and n: "pg ` (tables s1 p - tables s p) \<subseteq> free_set s" "pg ` (tables s2 p - tables s1 p) \<subseteq> free_set s1"
    using g w by (auto simp: grows_def sets_pte_def)
  have "pg ` (tables s2 p - tables s p) \<subseteq> free_set s" using n f1 by blast
  moreover have "free_set s2 = free_set s - pg ` tables s2 p" using f1 f2 t by blast
  moreover have "ram s2 a = ram s a" if a: "pg a \<notin> pg ` tables s2 p" for a
  proof -
    have "pg a \<notin> pg ` tables s1 p" using a t by blast
    then show ?thesis using a g w by (simp add: grows_def sets_pte_def)
  qed
  moreover have "kern_same p s s2"
    by (rule kern_same_trans [of p s s1]) (use g w in \<open>simp_all add: grows_def sets_pte_def\<close>)
  ultimately show ?thesis using g w t by (auto simp: sets_pte_def grows_def pte_at_def)
qed

lemma paging_map_cases:
  assumes ok: "space_ok s p" and u: "user_addr v"
  obtains (full) s' where "paging_map p v paddr flags s = (False, s')" "grows p s s'" "free_set s' = {}"
  | (mapped) s' where "paging_map p v paddr flags s = (True, s')" "sets_pte p v (leaf paddr flags) s s'"
proof -
  obtain s1 where s1: "next_level p 0 True flags s = (pdpt_of s p, s1)" "grows p s s1" "pdpt_of s p \<noteq> 0"
      "pdpt_of s1 p = pdpt_of s p"
    using next_level_root [OF ok] by blast
  have ok1: "space_ok s1 p" using s1 by (simp add: grows_def)
  from ok1 show ?thesis
  proof (cases rule: next_level_pdpt [of s1 p flags, consumes 1, case_names full down])
    case full
    then have "paging_map p v paddr flags s = (False, s1)"
      using s1 by (simp add: paging_map_def user_idx [OF u])
    then show ?thesis using s1 full by (intro that(1))
  next
    case (down s2)
    have ok2: "space_ok s2 p" using down by (simp add: grows_def)
    have g2: "grows p s s2" using s1(2) down(2) by (rule grows_trans)
    from ok2 down(4) idx_bound(1) show ?thesis
    proof (cases rule: next_level_pd [of s2 p "idx_pd v" flags, consumes 3, case_names full down])
      case full
      then have "paging_map p v paddr flags s = (False, s2)"
        using s1 down by (simp add: paging_map_def user_idx [OF u])
      then show ?thesis using g2 full by (intro that(1))
    next
      case d3: (down s3)
      have ok3: "space_ok s3 p" using d3 by (simp add: grows_def)
      have g3: "grows p s s3" using g2 d3(2) by (rule grows_trans)
      have "paging_map p v paddr flags s = (True, set_ent (tbl (pde s3 p (idx_pd v))) (idx_pt v) (leaf paddr flags) s3)"
        using s1 down d3 by (simp add: paging_map_def user_idx [OF u] leaf_def)
      then show ?thesis
        using grows_sets_pte [OF g3 set_pte_sets [OF ok3 u d3(4)]] by (intro that(2))
    qed
  qed
qed

subsection \<open>Reading a mapping\<close>

lemma tbl_0 [simp]: "tbl 0 = 0"
  by (simp add: tbl_def)

lemma next_level_look:
  "next_level t i False 0 s = (if present (ent s t i) then tbl (ent s t i) else 0, s)"
  by (simp add: next_level_def Let_def tbl_def)

lemma space_tables_nonzero:
  assumes "space_ok s p"
  shows "pdpt_of s p \<noteq> 0" and "present (pdpe s p) \<Longrightarrow> pd_of s p \<noteq> 0"
  using space_okD(4) [OF assms] by (auto simp: tables_def)

lemma pte_of_eq:
  assumes ok: "space_ok s p" and u: "user_addr v"
  shows "pte_of p v s = (if present (pte_at s p v) then Some (tbl (pde s p (idx_pd v)), idx_pt v) else None, s)"
proof -
  have r: "next_level p 0 False 0 s = (pdpt_of s p, s)" "pdpt_of s p \<noteq> 0"
    using tree_wf_top(2) [OF space_okD(2) [OF ok]] space_tables_nonzero [OF ok] by (simp_all add: next_level_look pdpt_of_def)
  have d: "next_level (pdpt_of s p) 1 False 0 s = (if present (pdpe s p) then pd_of s p else 0, s)"
    by (simp add: next_level_look pdpe_def pd_of_def)
  show ?thesis
  proof (cases "present (pdpe s p) \<and> present (pde s p (idx_pd v))")
    case True
    then have e: "ent s (pd_of s p) (idx_pd v) = pde s p (idx_pd v)" by (simp add: pde_def)
    have "\<not> bit (pde s p (idx_pd v)) 7" using tree_wf_pt(4) [OF space_okD(2) [OF ok]] True by simp
    then show ?thesis
      using True r d space_tables_nonzero [OF ok] flag80_bit [of "pde s p (idx_pd v)"]
      by (simp add: pte_of_def user_idx [OF u] e Let_def pte_at_def pte_def tbl_def)
  next
    case False
    then show ?thesis
      using r d space_tables_nonzero [OF ok]
      by (auto simp: pte_of_def user_idx [OF u] Let_def pte_at_def pte_def pde_def)
  qed
qed

lemma paging_translate_eq:
  assumes ok: "space_ok s p" and u: "user_addr v"
  shows "paging_translate p v s = (if present (pte_at s p v) then tbl (pte_at s p v) + (v AND 0xFFF) else 0, s)"
proof -
  have r: "next_level p 0 False 0 s = (pdpt_of s p, s)" "pdpt_of s p \<noteq> 0"
    using tree_wf_top(2) [OF space_okD(2) [OF ok]] space_tables_nonzero [OF ok] by (simp_all add: next_level_look pdpt_of_def)
  have d: "next_level (pdpt_of s p) 1 False 0 s = (if present (pdpe s p) then pd_of s p else 0, s)"
    by (simp add: next_level_look pdpe_def pd_of_def)
  show ?thesis
  proof (cases "present (pdpe s p) \<and> present (pde s p (idx_pd v))")
    case True
    then have e: "ent s (pd_of s p) (idx_pd v) = pde s p (idx_pd v)" by (simp add: pde_def)
    have "\<not> bit (pde s p (idx_pd v)) 7" using tree_wf_pt(4) [OF space_okD(2) [OF ok]] True by simp
    then show ?thesis
      using True r d space_tables_nonzero [OF ok] flag80_bit [of "pde s p (idx_pd v)"]
      by (simp add: paging_translate_def user_idx [OF u] e Let_def pte_at_def pte_def tbl_def)
  next
    case False
    then show ?thesis
      using r d space_tables_nonzero [OF ok]
      by (auto simp: paging_translate_def user_idx [OF u] Let_def pte_at_def pte_def pde_def)
  qed
qed

lemma is_table_low: "is_table v \<Longrightarrow> v AND 0xFFF = 0"
  using and_mask_mod [of v 12] by (simp add: is_table_def mask_eq_exp_minus_1)

lemma tbl_leaf:
  assumes "is_frame t"
  shows "tbl (leaf t flags) = t" and "present (leaf t flags)"
proof -
  have b: "bit ((flags AND 0xFFF) OR (flags AND PAGE_NX) OR PAGE_PRESENT) n
      \<longleftrightarrow> bit flags n \<and> n < 12 \<or> bit flags n \<and> n = 63 \<or> n = 0" for n
  proof -
    have c: "(0xFFF :: u64) = mask 12" "PAGE_NX = 2 ^ 63" "PAGE_PRESENT = 2 ^ 0"
      by (simp_all add: mask_eq_exp_minus_1 PAGE_NX_def PAGE_PRESENT_def)
    show ?thesis unfolding c bit_or_iff bit_and_iff bit_mask_iff bit_exp_iff by (auto dest: bit_imp_le_length)
  qed
  have z: "tbl ((flags AND 0xFFF) OR (flags AND PAGE_NX) OR PAGE_PRESENT) = 0"
    by (rule bit_word_eqI) (auto simp: bit_tbl b)
  have "t AND ADDR_MASK = t" using tbl_or [OF assms, of 0] by (simp add: tbl_def)
  then have l: "leaf t flags = t OR ((flags AND 0xFFF) OR (flags AND PAGE_NX) OR PAGE_PRESENT)"
    by (simp add: leaf_def or.assoc)
  show "tbl (leaf t flags) = t" unfolding l by (rule tbl_or [OF assms z])
  show "present (leaf t flags)" unfolding l present_bit bit_or_iff [of t] b by simp
qed

subsection \<open>Ranges of pages\<close>

definition user_range :: "u64 \<Rightarrow> u64 \<Rightarrow> bool" where
  "user_range v lim \<longleftrightarrow> is_table v \<and> is_table lim \<and> USER_VIRT_BASE \<le> v \<and> lim \<le> USER_VIRT_END"

lemma next_page:
  assumes "user_range v lim" and "v < lim"
  shows "user_addr v" and "user_range (v + PAGE_SIZE) lim" and "unat (v + PAGE_SIZE) = unat v + 4096"
    and "\<And>w. v \<le> w \<Longrightarrow> w < v + PAGE_SIZE \<longleftrightarrow> pg w = pg v" and "v + PAGE_SIZE \<le> lim"
proof -
  have b: "1073741824 \<le> unat v" "unat lim \<le> 2147483648" "unat v < unat lim"
    using assms by (simp_all add: user_range_def USER_VIRT_BASE_def USER_VIRT_END_def word_le_nat_alt word_less_nat_alt)
  show "user_addr v" using b by (simp add: user_addr_def USER_VIRT_BASE_def USER_VIRT_END_def word_le_nat_alt word_less_nat_alt)
  show u: "unat (v + PAGE_SIZE) = unat v + 4096" using b by (simp add: PAGE_SIZE_def unat_add_small)
  have m: "unat v mod 4096 = 0" "unat lim mod 4096 = 0"
    using assms(1) by (simp_all add: user_range_def is_table_def word_unat_eq_iff unat_mod)
  obtain q r where q: "unat v = q * 4096" and r: "unat lim = r * 4096"
    using mod_zero_mult_div [OF m(1)] mod_zero_mult_div [OF m(2)] by metis
  have "Suc q \<le> r" using b q r by simp
  then have "unat v + 4096 \<le> unat lim" using q r by simp
  then show le: "v + PAGE_SIZE \<le> lim" by (simp add: word_le_nat_alt u)
  have "is_table (v + PAGE_SIZE)" using m by (simp add: is_table_def word_unat_eq_iff unat_mod u)
  then show "user_range (v + PAGE_SIZE) lim" using assms b u by (simp add: user_range_def word_le_nat_alt USER_VIRT_BASE_def)
  show "w < v + PAGE_SIZE \<longleftrightarrow> pg w = pg v" if "v \<le> w" for w
  proof -
    have "w < v + PAGE_SIZE \<longleftrightarrow> unat w < Suc q * 4096" unfolding word_less_nat_alt u q by (simp add: add.commute)
    also have "\<dots> \<longleftrightarrow> unat w div 4096 < Suc q" by (simp add: div_less_iff_less_mult)
    also have "\<dots> \<longleftrightarrow> unat w div 4096 = q"
      using that q by (simp add: word_le_nat_alt less_Suc_eq_le le_antisym less_eq_div_iff_mult_less_eq eq_iff)
    finally show ?thesis by (simp add: word_unat_eq_iff unat_div q)
  qed
qed

lemma page_range_induct [consumes 1, case_names stop step]:
  assumes "user_range v lim"
    and "\<And>v. user_range v lim \<Longrightarrow> \<not> v < lim \<Longrightarrow> P v"
    and "\<And>v. user_range v lim \<Longrightarrow> v < lim \<Longrightarrow> P (v + PAGE_SIZE) \<Longrightarrow> P v"
  shows "P v"
  using assms(1)
proof (induction "unat lim - unat v" arbitrary: v rule: less_induct)
  case less
  show ?case
  proof (cases "v < lim")
    case True
    have "unat lim - unat (v + PAGE_SIZE) < unat lim - unat v"
      using next_page(3) [OF less.prems True] True by (simp add: word_less_nat_alt)
    then show ?thesis using less.hyps next_page(2) [OF less.prems True] assms(3) [OF less.prems True] by blast
  next
    case False
    then show ?thesis by (rule assms(2) [OF less.prems])
  qed
qed

end
