(* ===== verification/Address_Space.thy ===== *)
theory Address_Space
  imports Paging
begin

text \<open>
  Who owns which physical frame. An address space owns its page tables and the frames its pages map, less
  the frames it borrows from shared segments; every operation of \<^verbatim>\<open>paging.c\<close> on user pages is
  shown to conserve the frames the allocator and the space hold together, to touch no memory outside them,
  and to change the mapping of exactly the pages it names. The properties of \<^verbatim>\<open>paging.c\<close> close the theory.
\<close>

subsection \<open>Ownership of frames\<close>

text \<open>
  A space owns its tables and the frames its pages map, except the frames \<open>B\<close> it only borrows (those of
  shared segments). \<open>total\<close>, the free frames together with the owned ones, is what every operation on the
  space conserves; memory outside it is never written.
\<close>

definition fr :: "pmm \<Rightarrow> u64 \<Rightarrow> u64 \<Rightarrow> u64 option" where
  "fr s p w = (if present (pte_at s p w) then Some (tbl (pte_at s p w)) else None)"

definition user_frames :: "u64 set \<Rightarrow> pmm \<Rightarrow> u64 \<Rightarrow> u64 set" where
  "user_frames B s p = {t. t \<notin> B \<and> (\<exists>w. user_addr w \<and> fr s p w = Some t)}"

definition own_ok :: "u64 set \<Rightarrow> pmm \<Rightarrow> u64 \<Rightarrow> bool" where
  "own_ok B s p \<longleftrightarrow> space_ok s p
     \<and> (\<forall>b \<in> B. is_frame b \<and> pg b \<notin> free_set s \<and> b \<notin> tables s p)
     \<and> (\<forall>t \<in> user_frames B s p. is_frame t \<and> pg t \<notin> free_set s \<and> t \<notin> tables s p)
     \<and> (\<forall>v w t. user_addr v \<longrightarrow> user_addr w \<longrightarrow> fr s p v = Some t \<longrightarrow> fr s p w = Some t \<longrightarrow> t \<notin> B \<longrightarrow> pg v = pg w)"

definition owned :: "u64 set \<Rightarrow> pmm \<Rightarrow> u64 \<Rightarrow> u64 set" where
  "owned B s p = tables s p \<union> user_frames B s p"

definition total :: "u64 set \<Rightarrow> pmm \<Rightarrow> u64 \<Rightarrow> u64 set" where
  "total B s p = free_set s \<union> pg ` owned B s p"

definition keeps :: "u64 set \<Rightarrow> u64 \<Rightarrow> pmm \<Rightarrow> pmm \<Rightarrow> bool" where
  "keeps B p s s' \<longleftrightarrow> own_ok B s' p \<and> total B s' p = total B s p \<and> kern_same p s s'
     \<and> (\<forall>a. pg a \<notin> total B s p \<longrightarrow> ram s' a = ram s a)"

lemma keeps_refl: "own_ok B s p \<Longrightarrow> keeps B p s s"
  by (simp add: keeps_def)

lemma keeps_trans: "keeps B p s s1 \<Longrightarrow> keeps B p s1 s2 \<Longrightarrow> keeps B p s s2"
  using kern_same_trans [of p s s1 s2] by (simp add: keeps_def)

lemma own_okD:
  assumes "own_ok B s p"
  shows "space_ok s p"
    and "b \<in> B \<Longrightarrow> is_frame b" and "b \<in> B \<Longrightarrow> pg b \<notin> free_set s" and "b \<in> B \<Longrightarrow> b \<notin> tables s p"
    and "t \<in> user_frames B s p \<Longrightarrow> is_frame t" and "t \<in> user_frames B s p \<Longrightarrow> pg t \<notin> free_set s"
    and "t \<in> user_frames B s p \<Longrightarrow> t \<notin> tables s p"
    and "user_addr v \<Longrightarrow> user_addr w \<Longrightarrow> fr s p v = Some t \<Longrightarrow> fr s p w = Some t \<Longrightarrow> t \<notin> B \<Longrightarrow> pg v = pg w"
  using assms unfolding own_ok_def by blast+

lemma own_okI:
  assumes "space_ok s p"
    and "\<And>b. b \<in> B \<Longrightarrow> is_frame b" and "\<And>b. b \<in> B \<Longrightarrow> pg b \<notin> free_set s" and "\<And>b. b \<in> B \<Longrightarrow> b \<notin> tables s p"
    and "\<And>t. t \<in> user_frames B s p \<Longrightarrow> is_frame t" and "\<And>t. t \<in> user_frames B s p \<Longrightarrow> pg t \<notin> free_set s"
    and "\<And>t. t \<in> user_frames B s p \<Longrightarrow> t \<notin> tables s p"
    and "\<And>v w t. user_addr v \<Longrightarrow> user_addr w \<Longrightarrow> fr s p v = Some t \<Longrightarrow> fr s p w = Some t \<Longrightarrow> t \<notin> B \<Longrightarrow> pg v = pg w"
  shows "own_ok B s p"
  using assms unfolding own_ok_def by blast

lemma fr_page: "user_addr v \<Longrightarrow> user_addr w \<Longrightarrow> pg v = pg w \<Longrightarrow> fr s p v = fr s p w"
  using user_page_eq_iff [of v w] by (simp add: fr_def pte_at_def)

text \<open>An operation that leaves the pages of the tables alone leaves the whole space alone.\<close>

lemma space_frame:
  assumes ok: "space_ok s p" and m: "pmm_ok s'" and f: "free_set s' \<inter> pg ` tables s p = {}"
    and r: "\<And>a. pg a \<in> pg ` tables s p \<Longrightarrow> ram s' a = ram s a"
  shows "space_ok s' p" and "tables s' p = tables s p" and "kern_same p s s'" and "\<And>w. user_addr w \<Longrightarrow> pte_at s' p w = pte_at s p w"
proof -
  note wf = space_okD(2) [OF ok]
  have e: "ent s' t i = ent s t i" if "t \<in> tables s p" "i < 512" for t i
    using that space_okD(3) [OF ok that(1)] by (intro ent_cong_page) (auto simp: is_frame_def r)
  have in_t: "p \<in> tables s p" "pdpt_of s p \<in> tables s p" "present (pdpe s p) \<Longrightarrow> pd_of s p \<in> tables s p"
    "k < 512 \<Longrightarrow> present (pde s p k) \<Longrightarrow> tbl (pde s p k) \<in> tables s p" for k
    by (auto simp: tables_def)
  have e0: "same_entry (ent s' p 0) (ent s p 0)" and e1: "same_entry (ent s' (pdpt_of s p) 1) (pdpe s p)"
    using in_t by (simp_all add: e pdpe_def)
  have e2: "same_entry (ent s' (pd_of s p) k) (pde s p k)" if "k < 512" "present (pdpe s p)" for k
    using in_t(3) that by (simp add: e pde_def)
  have e3: "ent s' (tbl (pde s p k)) l = ent s (tbl (pde s p k)) l" if "k < 512" "l < 512" "present (pde s p k)" for k l
    using in_t(4) that by (simp add: e)
  note c = tree_cong [OF wf e0 e1 e2 e3]
  show t: "tables s' p = tables s p" using c(2) .
  show "kern_same p s s'" using c(4) in_t by (auto simp: kern_same_def e)
  show "user_addr w \<Longrightarrow> pte_at s' p w = pte_at s p w" for w using c(3) by (simp add: pte_at_def)
  show "space_ok s' p" using c(1) m f ok by (auto simp: space_ok_def t)
qed

lemma own_frame:
  assumes ok: "own_ok B s p" and m: "pmm_ok s'" and f: "free_set s' \<inter> pg ` (owned B s p \<union> B) = {}"
    and r: "\<And>a. pg a \<in> pg ` tables s p \<Longrightarrow> ram s' a = ram s a"
  shows "own_ok B s' p" and "owned B s' p = owned B s p" and "\<And>w. user_addr w \<Longrightarrow> pte_at s' p w = pte_at s p w"
proof -
  have "free_set s' \<inter> pg ` tables s p = {}" using f by (auto simp: owned_def)
  note g = space_frame [OF own_okD(1) [OF ok] m this r]
  show "user_addr w \<Longrightarrow> pte_at s' p w = pte_at s p w" for w using g(4) .
  then have fq: "user_addr w \<Longrightarrow> fr s' p w = fr s p w" for w by (simp add: fr_def)
  then have u: "user_frames B s' p = user_frames B s p" by (auto simp: user_frames_def)
  then show "owned B s' p = owned B s p" using g by (simp add: owned_def)
  show "own_ok B s' p"
  proof (rule own_okI [OF g(1)])
    show "pg v = pg w" if "user_addr v" "user_addr w" "fr s' p v = Some t" "fr s' p w = Some t" "t \<notin> B" for v w t
      using own_okD(8) [OF ok that(1,2)] that by (simp add: fq)
  qed (use own_okD(2-7) [OF ok] f in \<open>auto simp: owned_def u g(2)\<close>)
qed

lemma tables_total:
  assumes "T \<subseteq> T'" and "pg ` (T' - T) \<subseteq> F" and "F' = F - pg ` T'"
  shows "F' \<union> pg ` T' = F \<union> pg ` T"
proof -
  have "pg ` T' \<subseteq> pg ` T \<union> F" using assms(2) by blast
  moreover have "pg ` T \<subseteq> pg ` T'" using assms(1) by blast
  ultimately show ?thesis using assms(3) by blast
qed

text \<open>Growing the tables, and writing one page entry, in terms of ownership.\<close>

lemma grows_keeps:
  assumes ok: "own_ok B s p" and g: "grows p s s'"
  shows "keeps B p s s'" and "\<And>w. user_addr w \<Longrightarrow> pte_at s' p w = pte_at s p w"
proof -
  have t: "tables s p \<subseteq> tables s' p" "pg ` (tables s' p - tables s p) \<subseteq> free_set s" "free_set s' = free_set s - pg ` tables s' p"
    and so: "space_ok s' p" and r: "\<And>a. pg a \<notin> pg ` tables s' p \<Longrightarrow> ram s' a = ram s a"
    using g by (auto simp: grows_def)
  show pt: "user_addr w \<Longrightarrow> pte_at s' p w = pte_at s p w" for w using g by (simp add: grows_def pte_at_def)
  then have fq: "user_addr w \<Longrightarrow> fr s' p w = fr s p w" for w by (simp add: fr_def)
  then have u: "user_frames B s' p = user_frames B s p" by (auto simp: user_frames_def)
  have n: "x \<notin> tables s' p" if "x \<notin> tables s p" "pg x \<notin> free_set s" for x using t(2) that by blast
  have "own_ok B s' p"
  proof (rule own_okI [OF so])
    show "pg v = pg w" if "user_addr v" "user_addr w" "fr s' p v = Some t" "fr s' p w = Some t" "t \<notin> B" for v w t
      using own_okD(8) [OF ok that(1,2)] that by (simp add: fq)
  qed (use own_okD(2-7) [OF ok] n t(3) in \<open>auto simp: u\<close>)
  moreover have "total B s' p = total B s p"
    using tables_total [OF t] by (simp add: total_def owned_def u image_Un Un_assoc [symmetric])
  moreover have "pg a \<notin> pg ` tables s' p" if "pg a \<notin> total B s p" for a
    using that t(2) by (auto simp: total_def owned_def)
  ultimately show "keeps B p s s'" using r g by (auto simp: keeps_def grows_def)
qed

lemma sets_pte_fr:
  assumes "sets_pte p v e s s'" and "user_addr w"
  shows "fr s' p w = (if pg w = pg v then (if present e then Some (tbl e) else None) else fr s p w)"
  using assms by (simp add: sets_pte_def fr_def)

text \<open>Replacing the entry of one page by one that maps nothing.\<close>

lemma clears_user_frames:
  assumes ok: "own_ok B s p" and w: "sets_pte p v e s s'" and e: "\<not> present e" and u: "user_addr v"
  shows "user_frames B s' p = user_frames B s p - (case fr s p v of Some t \<Rightarrow> {t} | None \<Rightarrow> {})"
proof (rule set_eqI)
  fix t
  have "t \<in> user_frames B s' p \<longleftrightarrow> t \<notin> B \<and> (\<exists>x. user_addr x \<and> pg x \<noteq> pg v \<and> fr s p x = Some t)"
    using e by (auto simp: user_frames_def sets_pte_fr [OF w] split: if_splits)
  also have "\<dots> \<longleftrightarrow> t \<in> user_frames B s p - (case fr s p v of Some t \<Rightarrow> {t} | None \<Rightarrow> {})"
    using own_okD(8) [OF ok _ u, of _ t] fr_page [OF _ u, of _ s p] by (auto simp: user_frames_def split: option.splits)
  finally show "t \<in> user_frames B s' p \<longleftrightarrow> t \<in> user_frames B s p - (case fr s p v of Some t \<Rightarrow> {t} | None \<Rightarrow> {})" .
qed

definition fresh_for :: "u64 set \<Rightarrow> pmm \<Rightarrow> u64 \<Rightarrow> u64 \<Rightarrow> bool" where
  "fresh_for B s p t \<longleftrightarrow> is_frame t \<and> pg t \<notin> free_set s \<and> t \<notin> tables s p \<and> t \<notin> B \<and> t \<notin> user_frames B s p"

lemma sets_own:
  assumes ok: "own_ok B s p" and w: "sets_pte p v e s s'" and u: "user_addr v"
    and e: "present e \<Longrightarrow> tbl e \<in> B \<or> fr s p v = Some (tbl e) \<or> fresh_for B s p (tbl e)"
  shows "own_ok B s' p"
proof -
  have t: "tables s p \<subseteq> tables s' p" "pg ` (tables s' p - tables s p) \<subseteq> free_set s" "free_set s' = free_set s - pg ` tables s' p"
    and so: "space_ok s' p"
    using w by (auto simp: sets_pte_def)
  have n: "x \<notin> tables s' p" if "x \<notin> tables s p" "pg x \<notin> free_set s" for x using t(2) that by blast
  note f = sets_pte_fr [OF w]
  have good: "is_frame x \<and> pg x \<notin> free_set s \<and> x \<notin> tables s p" if x: "x \<in> user_frames B s' p" for x
  proof -
    obtain y where y: "user_addr y" "fr s' p y = Some x" "x \<notin> B" using x by (auto simp: user_frames_def)
    show ?thesis
    proof (cases "pg y = pg v \<and> fr s p v \<noteq> Some x")
      case True
      then have "present e" "tbl e = x" using y f [OF y(1)] by (auto split: if_splits)
      then show ?thesis using e True y(3) by (auto simp: fresh_for_def)
    next
      case False
      then have "x \<in> user_frames B s p" using y f [OF y(1)] u by (auto simp: user_frames_def split: if_splits)
      then show ?thesis using own_okD(5-7) [OF ok] by blast
    qed
  qed
  show ?thesis
  proof (rule own_okI [OF so])
    fix y z x
    assume a: "user_addr y" "user_addr z" "fr s' p y = Some x" "fr s' p z = Some x" "x \<notin> B"
    have two: "pg b = pg v" if "user_addr b" "pg c = pg v" "user_addr c" "fr s' p b = Some x" "fr s' p c = Some x" for b c
    proof (rule ccontr)
      assume nb: "pg b \<noteq> pg v"
      have b: "fr s p b = Some x" using that nb f [OF that(1)] by simp
      have c: "present e" "tbl e = x" using that f [OF that(3)] by (auto split: if_splits)
      have "\<not> fresh_for B s p x" using b that(1) a(5) by (auto simp: fresh_for_def user_frames_def)
      then have "fr s p v = Some x" using e c a(5) by blast
      then show False using own_okD(8) [OF ok that(1) u b] a(5) nb by blast
    qed
    show "pg y = pg z"
    proof (cases "pg y = pg v \<or> pg z = pg v")
      case True
      then show ?thesis using two [of y z] two [of z y] a by metis
    next
      case False
      then show ?thesis using own_okD(8) [OF ok a(1,2)] a f [OF a(1)] f [OF a(2)] by simp
    qed
  qed (use own_okD(2-4) [OF ok] good n t(3) in \<open>auto\<close>)
qed

lemma sets_keeps:
  assumes ok: "own_ok B s p" and w: "sets_pte p v e s s'" and u: "user_addr v"
    and o: "own_ok B s' p" and uf: "user_frames B s' p = user_frames B s p"
  shows "keeps B p s s'"
proof -
  have t: "tables s p \<subseteq> tables s' p" "pg ` (tables s' p - tables s p) \<subseteq> free_set s" "free_set s' = free_set s - pg ` tables s' p"
    using w by (auto simp: sets_pte_def)
  have "pg a \<notin> pg ` tables s' p" if "pg a \<notin> total B s p" for a
    using that t(2) by (auto simp: total_def owned_def)
  then show ?thesis using o w tables_total [OF t]
    by (auto simp: keeps_def sets_pte_def total_def owned_def uf image_Un Un_assoc [symmetric])
qed

lemma protect_step:
  assumes ok: "own_ok B s p" and w: "sets_pte p v e s s'" and u: "user_addr v"
    and e: "fr s p v = Some (tbl e)" "present e"
  shows "keeps B p s s'"
proof (rule sets_keeps [OF ok w u])
  show "own_ok B s' p" by (rule sets_own [OF ok w u]) (use e in simp)
  have "user_addr x \<Longrightarrow> fr s' p x = fr s p x" for x using sets_pte_fr [OF w, of x] fr_page [OF _ u, of x s p] e by simp
  then show "user_frames B s' p = user_frames B s p" by (auto simp: user_frames_def)
qed

lemma detach_step:
  assumes ok: "own_ok B s p" and w: "sets_pte p v 0 s s'" and u: "user_addr v"
    and e: "fr s p v = Some f" "f \<in> B"
  shows "keeps B p s s'"
proof (rule sets_keeps [OF ok w u])
  show "own_ok B s' p" by (rule sets_own [OF ok w u]) simp
  show "user_frames B s' p = user_frames B s p"
    using clears_user_frames [OF ok w _ u] e by (auto simp: user_frames_def)
qed

lemma borrow_step:
  assumes ok: "own_ok B s p" and w: "sets_pte p v e s s'" and u: "user_addr v"
    and e: "present e" "tbl e \<in> B" "fr s p v = None"
  shows "keeps B p s s'"
proof (rule sets_keeps [OF ok w u])
  show "own_ok B s' p" by (rule sets_own [OF ok w u]) (use e in simp)
  have "user_addr x \<Longrightarrow> t \<notin> B \<Longrightarrow> fr s' p x = Some t \<longleftrightarrow> fr s p x = Some t" for x t
    using e fr_page [OF _ u, of x s p] sets_pte_fr [OF w, of x] by (auto split: if_splits)
  then show "user_frames B s' p = user_frames B s p" by (auto simp: user_frames_def)
qed

lemma free_frame_effect:
  assumes "pmm_ok s" and "is_frame f"
  shows "pmm_ok (pmm_free_frame f s)" "free_set (pmm_free_frame f s) = insert (pg f) (free_set s)" "ram (pmm_free_frame f s) = ram s"
proof -
  have nz: "pg f \<noteq> 0"
  proof
    assume "pg f = 0"
    then have "f = 0" using assms(2) word_div_mod_eqI [of f 4096 0] by (simp add: is_frame_def is_table_def)
    then show False using assms(2) by (simp add: is_frame_def)
  qed
  show "pmm_ok (pmm_free_frame f s)" "free_set (pmm_free_frame f s) = insert (pg f) (free_set s)"
    using pmm_free_frame_effect [OF assms(1), of f] nz assms(2) by (auto simp: PAGE_SIZE_def is_frame_def)
  show "ram (pmm_free_frame f s) = ram s" by (simp add: pmm_free_frame_def)
qed

lemma unmap_step:
  assumes ok: "own_ok B s p" and w: "sets_pte p v 0 s s1" and u: "user_addr v" and tb: "tables s1 p = tables s p"
    and e: "fr s p v = Some f" "f \<notin> B"
  shows "keeps B p s (pmm_free_frame f s1)" and "free_set (pmm_free_frame f s1) = insert (pg f) (free_set s)"
    and "\<And>x. user_addr x \<Longrightarrow> pte_at (pmm_free_frame f s1) p x = (if pg x = pg v then 0 else pte_at s p x)"
    and "tables (pmm_free_frame f s1) p = tables s p"
proof -
  have o1: "own_ok B s1 p" by (rule sets_own [OF ok w u]) simp
  have f: "f \<in> user_frames B s p" using e u by (auto simp: user_frames_def)
  have ff: "is_frame f" "f \<notin> tables s p" using own_okD(5,7) [OF ok f] by auto
  have uf: "user_frames B s1 p = user_frames B s p - {f}" using clears_user_frames [OF ok w _ u] e by simp
  have fs1: "free_set s1 = free_set s" using w space_okD(6) [OF own_okD(1) [OF ok]] by (simp add: sets_pte_def tb)
  note fx = free_frame_effect [OF space_okD(1) [OF own_okD(1) [OF o1]] ff(1)]
  let ?s' = "pmm_free_frame f s1"
  have "pg f \<notin> pg ` (owned B s1 p \<union> B)"
  proof
    assume "pg f \<in> pg ` (owned B s1 p \<union> B)"
    then obtain t where t: "t \<in> owned B s1 p \<union> B" "pg f = pg t" by blast
    have "is_frame t" using t own_okD(2,5) [OF o1] space_okD(3) [OF own_okD(1) [OF o1]] by (auto simp: owned_def)
    then have "f = t" using pg_inj [of f t] ff t(2) by (simp add: is_frame_def)
    then show False using t ff e uf tb by (auto simp: owned_def)
  qed
  moreover have "free_set s1 \<inter> pg ` (owned B s1 p \<union> B) = {}"
    using own_okD(3,6) [OF o1] space_okD(5) [OF own_okD(1) [OF o1]] by (auto simp: owned_def)
  ultimately have dis: "free_set ?s' \<inter> pg ` (owned B s1 p \<union> B) = {}" using fx(2) by auto
  note fr' = own_frame [OF o1 fx(1) dis] 
  have o: "own_ok B ?s' p" "owned B ?s' p = owned B s1 p" "\<And>x. user_addr x \<Longrightarrow> pte_at ?s' p x = pte_at s1 p x"
    using fr' fx(3) by simp_all
  show "free_set ?s' = insert (pg f) (free_set s)" using fx(2) fs1 by simp
  have "insert f (owned B s1 p) = owned B s p" using f by (auto simp: owned_def tb uf)
  then have "total B ?s' p = total B s p" using o(2) fs1 fx(2) by (auto simp: total_def)
  moreover have "ram ?s' a = ram s a" if "pg a \<notin> total B s p" for a
    using w that fx(3) tb by (auto simp: sets_pte_def total_def owned_def)
  ultimately show "keeps B p s ?s'"
    using o(1) w view_ram_cong(1) [OF fx(3)] ent_ram_cong [OF fx(3)] by (simp add: keeps_def sets_pte_def kern_same_def)
  show "user_addr x \<Longrightarrow> pte_at ?s' p x = (if pg x = pg v then 0 else pte_at s p x)" for x
    using o(3) w by (simp add: sets_pte_def)
  show "tables ?s' p = tables s p" using view_ram_cong(6) [OF fx(3)] tb by simp
qed

subsection \<open>Building a page\<close>

lemma zero_page_simps [simp]:
  "bitmap (zero_page t s) = bitmap s" "free_frames (zero_page t s) = free_frames s" "usable_frames (zero_page t s) = usable_frames s"
  by (simp_all add: zero_page_def)

lemma free_set_zero_page [simp]: "free_set (zero_page t s) = free_set s"
  by (rule free_set_cong) simp

lemma page_member:
  assumes t: "is_table t"
  shows "a - t < PAGE_SIZE \<longleftrightarrow> pg a = pg t"
proof -
  have m: "unat t mod 4096 = 0" using t by (simp add: is_table_def word_unat_eq_iff unat_mod)
  define q where "q = unat t div 4096"
  have q: "unat t = 4096 * q" using mod_zero_mult_div [OF m] by (simp add: q_def mult.commute)
  have qb: "q < 4503599627370496" using unat_u64_bound [of t] unfolding q by simp
  show ?thesis
  proof
    assume "a - t < PAGE_SIZE"
    then have k: "unat (a - t) < 4096" by (simp add: word_less_nat_alt PAGE_SIZE_def)
    have "unat t + unat (a - t) < 2 ^ 64" using k q qb by simp
    then have "unat (t + (a - t)) = unat t + unat (a - t)" by (intro unat_add_small) simp
    then have "unat a = 4096 * q + unat (a - t)" by (simp add: q)
    then have "unat a div 4096 = q" using k by simp
    then show "pg a = pg t" by (simp add: word_unat_eq_iff unat_div q)
  next
    assume "pg a = pg t"
    then have d: "unat a div 4096 = q" by (simp add: word_unat_eq_iff unat_div q)
    have ua: "unat a = 4096 * q + unat a mod 4096" using mult_div_mod_eq [of 4096 "unat a"] d by simp
    then have "unat (a - t) = unat a mod 4096" using q by (simp add: unat_sub_small)
    then show "a - t < PAGE_SIZE" by (simp add: word_less_nat_alt PAGE_SIZE_def)
  qed
qed

lemma ram_zero_page: "is_table t \<Longrightarrow> ram (zero_page t s) a = (if pg a = pg t then 0 else ram s a)"
  by (simp add: zero_page_def page_member)

lemma fr_None: "\<not> present (pte_at s p v) \<Longrightarrow> fr s p v = None"
  by (simp add: fr_def)

lemma frame_set_aside:
  assumes ok: "own_ok B s p" and t: "is_frame t" "pg t \<in> free_set s"
    and m: "pmm_ok (mark_used (pg t) s)" "free_set (mark_used (pg t) s) = free_set s - {pg t}"
  defines "s2 \<equiv> zero_page t (mark_used (pg t) s)"
  shows "own_ok B s2 p" and "owned B s2 p = owned B s p" and "\<And>w. user_addr w \<Longrightarrow> pte_at s2 p w = pte_at s p w"
    and "free_set s2 = free_set s - {pg t}" and "fresh_for B s2 p t" and "tables s2 p = tables s p" and "kern_same p s s2"
    and "\<And>a. ram s2 a = (if pg a = pg t then 0 else ram s a)"
proof -
  have tt: "is_table t" using t by (simp add: is_frame_def)
  show f: "free_set s2 = free_set s - {pg t}" by (simp add: s2_def m)
  have pm: "pmm_ok s2" using m(1) f by (simp add: s2_def pmm_ok_def pmm_wf_def m(2))
  show r: "ram s2 a = (if pg a = pg t then 0 else ram s a)" for a by (simp add: s2_def ram_zero_page tt)
  have nt: "pg t \<notin> pg ` tables s p"
    using space_okD(5) [OF own_okD(1) [OF ok]] t(2) by auto
  have dis: "free_set s2 \<inter> pg ` (owned B s p \<union> B) = {}"
    using own_okD(3,6) [OF ok] space_okD(5) [OF own_okD(1) [OF ok]] by (auto simp: owned_def f)
  have agree: "ram s2 a = ram s a" if "pg a \<in> pg ` tables s p" for a using that nt r by auto
  note g = own_frame [OF ok pm dis agree]
  show "own_ok B s2 p" "owned B s2 p = owned B s p" "\<And>w. user_addr w \<Longrightarrow> pte_at s2 p w = pte_at s p w" using g by auto
  have d2: "free_set s2 \<inter> pg ` tables s p = {}" using dis by (auto simp: owned_def)
  note h = space_frame [OF own_okD(1) [OF ok] pm d2 agree]
  show ht: "tables s2 p = tables s p" "kern_same p s s2" using h by auto
  have "t \<notin> owned B s p" "t \<notin> B"
    using own_okD(3,6) [OF ok] space_okD(5) [OF own_okD(1) [OF ok]] t(2) by (auto simp: owned_def)
  then show "fresh_for B s2 p t" using t f g(2) ht by (auto simp: fresh_for_def owned_def)
qed

lemma return_frame:
  assumes ok: "own_ok B s p" and t: "is_frame t" and no: "pg t \<notin> pg ` owned B s p" and nb: "pg t \<notin> pg ` B"
  shows "own_ok B (pmm_free_frame t s) p" and "owned B (pmm_free_frame t s) p = owned B s p"
    and "\<And>x. user_addr x \<Longrightarrow> pte_at (pmm_free_frame t s) p x = pte_at s p x"
    and "free_set (pmm_free_frame t s) = insert (pg t) (free_set s)" and "ram (pmm_free_frame t s) = ram s"
proof -
  note fx = free_frame_effect [OF space_okD(1) [OF own_okD(1) [OF ok]] t]
  have dis: "free_set (pmm_free_frame t s) \<inter> pg ` (owned B s p \<union> B) = {}"
    using no nb fx(2) own_okD(3,6) [OF ok] space_okD(5) [OF own_okD(1) [OF ok]] by (auto simp: owned_def)
  note f = own_frame [OF ok fx(1) dis]
  show "own_ok B (pmm_free_frame t s) p" "owned B (pmm_free_frame t s) p = owned B s p"
    "\<And>x. user_addr x \<Longrightarrow> pte_at (pmm_free_frame t s) p x = pte_at s p x"
    using f fx(3) by simp_all
qed (use free_frame_effect [OF space_okD(1) [OF own_okD(1) [OF ok]] t] in auto)

lemma fresh_user_frames:
  assumes w: "sets_pte p v e s s'" and u: "user_addr v" and e: "present e" and nb: "tbl e \<notin> B" and n: "fr s p v = None"
  shows "user_frames B s' p = insert (tbl e) (user_frames B s p)"
proof (rule set_eqI)
  fix x
  have fs: "fr s' p y = (if pg y = pg v then Some (tbl e) else fr s p y)" if "user_addr y" for y
    using sets_pte_fr [OF w that] e by simp
  have fn: "pg y \<noteq> pg v" if "user_addr y" "fr s p y = Some x" for y
    using that fr_page [OF that(1) u, of s p] n by auto
  show "x \<in> user_frames B s' p \<longleftrightarrow> x \<in> insert (tbl e) (user_frames B s p)"
  proof
    assume "x \<in> user_frames B s' p"
    then obtain y where "user_addr y" "fr s' p y = Some x" "x \<notin> B" by (auto simp: user_frames_def)
    then show "x \<in> insert (tbl e) (user_frames B s p)" by (auto simp: fs user_frames_def split: if_splits)
  next
    assume "x \<in> insert (tbl e) (user_frames B s p)"
    then consider "x = tbl e" | y where "user_addr y" "fr s p y = Some x" "x \<notin> B" by (auto simp: user_frames_def)
    then show "x \<in> user_frames B s' p"
    proof cases
      case 1
      then show ?thesis using fs [OF u] u nb by (auto simp: user_frames_def)
    next
      case (2 y)
      then show ?thesis using fs [OF 2(1)] fn [OF 2(1,2)] by (auto simp: user_frames_def)
    qed
  qed
qed

text \<open>Frames move from the free set to the tables only, and what the mapped pages hold is not touched.\<close>

definition calm :: "u64 \<Rightarrow> pmm \<Rightarrow> pmm \<Rightarrow> bool" where
  "calm p s s' \<longleftrightarrow> free_set s' \<subseteq> free_set s \<and> pg ` tables s' p \<subseteq> pg ` tables s p \<union> free_set s
     \<and> (\<forall>a. pg a \<notin> pg ` tables s p \<longrightarrow> pg a \<notin> free_set s \<longrightarrow> ram s' a = ram s a)"

lemma calm_refl: "calm p s s"
  by (simp add: calm_def)

lemma calm_trans:
  assumes "calm p s s1" and "calm p s1 s2"
  shows "calm p s s2"
  unfolding calm_def
proof (intro conjI allI impI)
  fix a assume a: "pg a \<notin> pg ` tables s p" "pg a \<notin> free_set s"
  then have "pg a \<notin> pg ` tables s1 p" "pg a \<notin> free_set s1" using assms(1) by (auto simp: calm_def)
  then show "ram s2 a = ram s a" using a assms by (simp add: calm_def)
next
  show "pg ` tables s2 p \<subseteq> pg ` tables s p \<union> free_set s" using assms unfolding calm_def by blast
qed (use assms in \<open>auto simp: calm_def\<close>)

lemma new_tables_calm:
  assumes "pg ` (tables s' p - tables s p) \<subseteq> free_set s" and "free_set s' = free_set s - pg ` tables s' p"
    and "\<And>a. pg a \<notin> pg ` tables s' p \<Longrightarrow> ram s' a = ram s a"
  shows "calm p s s'"
proof -
  have t: "pg ` tables s' p \<subseteq> pg ` tables s p \<union> free_set s" using assms(1) by blast
  then show ?thesis using assms(2,3) unfolding calm_def by blast
qed

lemma build_page_cases:
  assumes ok: "own_ok B s p" and u: "user_addr v" and np: "\<not> present (pte_at s p v)"
  obtains (full) s' where "build_page p v flags s = (False, s')" "keeps B p s s'"
      "\<And>w. user_addr w \<Longrightarrow> pte_at s' p w = pte_at s p w" "card (free_set s') \<le> 1" "calm p s s'"
  | (built) t s' where "build_page p v flags s = (True, s')" "keeps B p s s'" "is_frame t" "pg t \<in> free_set s"
      "\<And>w. user_addr w \<Longrightarrow> pte_at s' p w = (if pg w = pg v then leaf t flags else pte_at s p w)"
      "\<And>a. pg a = pg t \<Longrightarrow> ram s' a = 0" "calm p s s'"
  using space_okD(1) [OF own_okD(1) [OF ok]]
proof (cases rule: alloc_frame_split)
  case none
  then have "build_page p v flags s = (False, s)" by (simp add: build_page_def)
  moreover have "card (free_set s) \<le> 1" by (simp only: none(1)) simp
  ultimately show ?thesis by (intro that(1)) (auto intro: keeps_refl [OF ok] calm_refl)
next
  case (some t)
  define s2 where "s2 = zero_page t (mark_used (pg t) s)"
  note g = frame_set_aside [OF ok some(1,3,5,6), folded s2_def]
  have tot: "total B s p = insert (pg t) (total B s2 p)" using some(3) by (auto simp: total_def g(2,4))
  have pgt: "pg t \<notin> pg ` tables s2 p" using space_okD(3) [OF own_okD(1) [OF g(1)]] some(1) g(5) pg_inj [of t]
    by (auto simp: is_frame_def fresh_for_def)
  have aside: "calm p s s2" using some(3) g(4,6,8) by (auto simp: calm_def)
  from own_okD(1) [OF g(1)] u show ?thesis
  proof (cases rule: paging_map_cases [of s2 p v t flags, consumes 2, case_names full mapped])
    case (full s3)
    note k = grows_keeps [OF g(1) full(2)]
    have o3: "own_ok B s3 p" and t3: "total B s3 p = total B s2 p" using k by (simp_all add: keeps_def)
    let ?s' = "pmm_free_frame t s3"
    have nb: "pg t \<notin> pg ` B" using g(5) own_okD(2) [OF ok] pg_inj [of t] some(1) by (auto simp: fresh_for_def is_frame_def)
    have "pg t \<notin> total B s2 p"
      using g(5) own_okD(5) [OF g(1)] pgt pg_inj [of t] some(1) by (auto simp: total_def owned_def fresh_for_def is_frame_def)
    then have no: "pg t \<notin> pg ` owned B s3 p" using t3 by (auto simp: total_def)
    note o = return_frame [OF o3 some(1) no nb]
    note fx = o(4,5)
    have "total B ?s' p = total B s p" using o(2) fx(1) t3 tot by (auto simp: total_def)
    moreover have "ram ?s' a = ram s a" if "pg a \<notin> total B s p" for a
    proof -
      have "ram s3 a = ram s2 a" using k(1) that tot by (simp add: keeps_def)
      moreover have "pg a \<noteq> pg t" using that tot by auto
      ultimately show ?thesis using fx(2) g(8) by simp
    qed
    moreover have "kern_same p s ?s'"
      using view_ram_cong(1) [OF fx(2)] ent_ram_cong [OF fx(2)] full(2) kern_same_trans [OF g(7), of s3]
      by (simp add: grows_def kern_same_def)
    ultimately have "keeps B p s ?s'" using o(1) by (simp add: keeps_def)
    moreover have "build_page p v flags s = (False, ?s')" using some full(1) by (simp add: build_page_def s2_def)
    moreover have "card (free_set ?s') \<le> 1" using fx(1) full(3) by simp
    moreover have "calm p s ?s'"
    proof -
      have "calm p s2 s3" using full(2) by (intro new_tables_calm) (simp_all add: grows_def)
      then have c: "calm p s s3" by (rule calm_trans [OF aside])
      then show ?thesis using fx view_ram_cong(6) [OF fx(2)] some(3) by (simp add: calm_def)
    qed
    ultimately show ?thesis using o(3) k(2) g(3) by (intro that(1)) simp_all
  next
    case (mapped s3)
    note w = mapped(2)
    have b: "build_page p v flags s = (True, s3)" using some mapped(1) by (simp add: build_page_def s2_def)
    have o: "own_ok B s3 p" by (rule sets_own [OF g(1) w u]) (use g(5) tbl_leaf [OF some(1)] in simp)
    have np2: "fr s2 p v = None" using np g(3) [OF u] by (simp add: fr_def)
    have uf: "user_frames B s3 p = insert t (user_frames B s2 p)"
      using fresh_user_frames [OF w u _ _ np2, of B] tbl_leaf [OF some(1)] g(5) by (simp add: fresh_for_def)
    have t: "tables s2 p \<subseteq> tables s3 p" "pg ` (tables s3 p - tables s2 p) \<subseteq> free_set s2" "free_set s3 = free_set s2 - pg ` tables s3 p"
      using w by (auto simp: sets_pte_def)
    have "total B s3 p = insert (pg t) (total B s2 p)"
      using tables_total [OF t] by (simp add: total_def owned_def uf image_Un Un_assoc [symmetric])
    then have tt: "total B s3 p = total B s p" using tot by simp
    have nt3: "pg t \<notin> pg ` tables s3 p"
      using t(2) pgt g(4) by auto
    have r: "ram s3 a = ram s2 a" if "pg a \<notin> pg ` tables s3 p" for a using w that by (simp add: sets_pte_def)
    have "ram s3 a = ram s a" if a: "pg a \<notin> total B s p" for a
    proof -
      have "pg a \<notin> pg ` tables s3 p" "pg a \<noteq> pg t" using a tot unfolding tt [symmetric] by (auto simp: total_def owned_def uf)
      then show ?thesis using r g(8) by simp
    qed
    then have "keeps B p s s3" using o tt w kern_same_trans [OF g(7), of s3] by (simp add: keeps_def sets_pte_def)
    moreover have "ram s3 a = 0" if "pg a = pg t" for a using r [of a] nt3 that g(8) by simp
    moreover have "calm p s s3"
      using w by (intro calm_trans [OF aside] new_tables_calm) (simp_all add: sets_pte_def)
    ultimately show ?thesis using b some w g(3) by (intro that(2) [of s3 t]) (simp_all add: sets_pte_def)
  qed
qed

subsection \<open>Operations on a range of pages\<close>

lemma is_frame_leaf_tbl: "tbl (leaf x flags) = tbl x"
proof -
  have b: "bit (leaf x flags) n \<longleftrightarrow> bit (tbl x) n \<or> bit flags n \<and> n < 12 \<or> bit flags n \<and> n = 63 \<or> n = 0" for n
  proof -
    have c: "(0xFFF :: u64) = mask 12" "PAGE_NX = 2 ^ 63" "PAGE_PRESENT = 2 ^ 0"
      by (simp_all add: mask_eq_exp_minus_1 PAGE_NX_def PAGE_PRESENT_def)
    show ?thesis unfolding leaf_def tbl_def [symmetric] c bit_or_iff [of _ _ n] bit_and_iff [of flags] bit_mask_iff bit_exp_iff
      by (auto dest: bit_imp_le_length)
  qed
  show ?thesis by (rule bit_word_eqI) (auto simp: bit_tbl b)
qed

lemma present_leaf: "present (leaf x flags)"
  by (simp add: leaf_def present_bit PAGE_PRESENT_def bit_or_iff)

lemma in_range_step:
  assumes "user_range v lim" and "v < lim"
  shows "v \<le> w \<and> w < lim \<longleftrightarrow> (v + PAGE_SIZE \<le> w \<and> w < lim) \<or> (pg w = pg v)"
proof -
  note n = next_page [OF assms]
  have "pg w = pg v \<Longrightarrow> v \<le> w"
  proof -
    assume e: "pg w = pg v"
    have m: "unat v mod 4096 = 0" using assms(1) by (simp add: user_range_def is_table_def word_unat_eq_iff unat_mod)
    have "unat v = unat v div 4096 * 4096" using mod_zero_mult_div [OF m] by simp
    also have "\<dots> = unat w div 4096 * 4096" using e by (simp add: word_unat_eq_iff unat_div)
    also have "\<dots> \<le> unat w" by simp
    finally show ?thesis by (simp add: word_le_nat_alt)
  qed
  moreover have "v + PAGE_SIZE \<le> w \<Longrightarrow> v \<le> w" using n(3) by (simp add: word_le_nat_alt)
  moreover have "w < v + PAGE_SIZE \<Longrightarrow> w < lim" using n(5) by order
  ultimately show ?thesis using n(4) [of w] by (meson linorder_not_le)
qed

lemma in_range_page:
  assumes "user_range v lim" and "pg w = pg w'"
  shows "v \<le> w \<and> w < lim \<longleftrightarrow> v \<le> w' \<and> w' < lim"
proof -
  have le: "v \<le> x \<longleftrightarrow> pg v \<le> pg x" if "is_table v" for v x :: u64
  proof -
    have m: "unat v mod 4096 = 0" using that by (simp add: is_table_def word_unat_eq_iff unat_mod)
    have "pg v \<le> pg x \<longleftrightarrow> unat v div 4096 * 4096 \<le> unat x" by (simp add: word_le_nat_alt unat_div less_eq_div_iff_mult_less_eq)
    then show ?thesis using mod_zero_mult_div [OF m] by (simp add: word_le_nat_alt)
  qed
  have "is_table v" "is_table lim" using assms(1) by (simp_all add: user_range_def)
  then show ?thesis using le [of v w] le [of v w'] le [of lim w] le [of lim w'] assms(2)
    by (simp add: linorder_not_le [symmetric])
qed

lemma map_alloc_from_effect:
  assumes "user_range v lim" and "own_ok B s p"
  shows "\<exists>ok s'. map_alloc_from p v lim flags s = Some (ok, s') \<and> keeps B p s s' \<and> calm p s s'
     \<and> (\<forall>w. user_addr w \<longrightarrow> (present (pte_at s p w) \<or> \<not> (v \<le> w \<and> w < lim)) \<longrightarrow> pte_at s' p w = pte_at s p w)
     \<and> (ok \<longrightarrow> (\<forall>w. user_addr w \<longrightarrow> v \<le> w \<and> w < lim \<longrightarrow> \<not> present (pte_at s p w) \<longrightarrow>
          (\<exists>t. is_frame t \<and> pg t \<in> free_set s \<and> pte_at s' p w = leaf t flags \<and> (\<forall>a. pg a = pg t \<longrightarrow> ram s' a = 0))))
     \<and> (\<not> ok \<longrightarrow> card (free_set s') \<le> 1)"
  using assms
proof (induction v arbitrary: s rule: page_range_induct)
  case (stop v)
  then have "map_alloc_from p v lim flags s = Some (True, s)" by (subst map_alloc_from.simps) simp
  moreover have "\<not> (v \<le> w \<and> w < lim)" for w using stop(2) using le_less_trans [of v w lim] by blast
  moreover have "keeps B p s s" "calm p s s" using stop by (auto intro: keeps_refl calm_refl)
  ultimately show ?case by blast
next
  case (step v)
  note n = next_page [OF step(1,2)] and ir = in_range_step [OF step(1,2)]
  note tr = paging_translate_eq [OF own_okD(1) [OF step.prems] n(1)]
  have low: "v AND 0xFFF = 0" using step(1) by (simp add: user_range_def is_table_low)
  show ?case
  proof (cases "present (pte_at s p v)")
    case True
    have f: "tbl (pte_at s p v) \<noteq> 0"
    proof -
      have "fr s p v = Some (tbl (pte_at s p v))" using True by (simp add: fr_def)
      then have "is_frame (tbl (pte_at s p v))"
        using own_okD(2,5) [OF step.prems, of "tbl (pte_at s p v)"] n(1) by (auto simp: user_frames_def)
      then show ?thesis by (simp add: is_frame_def)
    qed
    have same: "pte_at s p w = pte_at s p v" if "user_addr w" "pg w = pg v" for w
      using user_page_eq_iff [OF that(1) n(1)] that by (simp add: pte_at_def)
    have eq: "map_alloc_from p v lim flags s = map_alloc_from p (v + PAGE_SIZE) lim flags s"
      using step(2) True f low by (subst map_alloc_from.simps) (simp add: tr)
    obtain ok s' where r: "map_alloc_from p (v + PAGE_SIZE) lim flags s = Some (ok, s')" "keeps B p s s'" "calm p s s'"
      and kp: "\<And>w. user_addr w \<Longrightarrow> present (pte_at s p w) \<or> \<not> (v + PAGE_SIZE \<le> w \<and> w < lim) \<Longrightarrow> pte_at s' p w = pte_at s p w"
      and new: "\<And>w. ok \<Longrightarrow> user_addr w \<Longrightarrow> v + PAGE_SIZE \<le> w \<and> w < lim \<Longrightarrow> \<not> present (pte_at s p w) \<Longrightarrow>
        \<exists>t. is_frame t \<and> pg t \<in> free_set s \<and> pte_at s' p w = leaf t flags \<and> (\<forall>a. pg a = pg t \<longrightarrow> ram s' a = 0)"
      and no: "\<not> ok \<Longrightarrow> card (free_set s') \<le> 1"
      using step.IH [OF step.prems] by blast
    have "pte_at s' p w = pte_at s p w" if "user_addr w" "present (pte_at s p w) \<or> \<not> (v \<le> w \<and> w < lim)" for w
      using kp [OF that(1)] that ir [of w] by blast
    moreover have "v + PAGE_SIZE \<le> w \<and> w < lim" if "user_addr w" "v \<le> w \<and> w < lim" "\<not> present (pte_at s p w)" for w
      using that same [OF that(1)] True ir [of w] by auto
    ultimately show ?thesis using r new no unfolding eq by blast
  next
    case False
    have unf: "map_alloc_from p v lim flags s = (case build_page p v flags s of (ok, s2) \<Rightarrow>
        if \<not> ok then Some (False, s2) else map_alloc_from p (v + PAGE_SIZE) lim flags s2)"
      using step(2) False by (subst map_alloc_from.simps) (simp add: tr)
    from step.prems n(1) False show ?thesis
    proof (cases rule: build_page_cases [of B s p v flags, consumes 3, case_names full built])
      case (full s')
      have "map_alloc_from p v lim flags s = Some (False, s')" using full(1) by (simp add: unf)
      then show ?thesis using full(2-5) by blast
    next
      case (built t s1)
      have o1: "own_ok B s1 p" using built(2) by (simp add: keeps_def)
      obtain ok s' where r: "map_alloc_from p (v + PAGE_SIZE) lim flags s1 = Some (ok, s')" "keeps B p s1 s'" "calm p s1 s'"
        and same: "\<And>w. user_addr w \<Longrightarrow> present (pte_at s1 p w) \<or> \<not> (v + PAGE_SIZE \<le> w \<and> w < lim) \<Longrightarrow> pte_at s' p w = pte_at s1 p w"
        and new: "\<And>w. ok \<Longrightarrow> user_addr w \<Longrightarrow> v + PAGE_SIZE \<le> w \<and> w < lim \<Longrightarrow> \<not> present (pte_at s1 p w) \<Longrightarrow>
          \<exists>t. is_frame t \<and> pg t \<in> free_set s1 \<and> pte_at s' p w = leaf t flags \<and> (\<forall>a. pg a = pg t \<longrightarrow> ram s' a = 0)"
        and no: "\<not> ok \<Longrightarrow> card (free_set s') \<le> 1"
        using step.IH [OF o1] by blast
      have eq: "map_alloc_from p v lim flags s = Some (ok, s')" using built(1) r(1) by (simp add: unf)
      have c: "calm p s s'" by (rule calm_trans [OF built(7) r(3)])
      have pv: "user_addr w \<Longrightarrow> pg w = pg v \<Longrightarrow> pte_at s p w = pte_at s p v" for w
        using user_page_eq_iff [OF _ n(1), of w] by (simp add: pte_at_def)
      have keep: "pte_at s' p w = pte_at s p w" if "user_addr w" "present (pte_at s p w) \<or> \<not> (v \<le> w \<and> w < lim)" for w
      proof -
        have "pg w \<noteq> pg v" using that pv [OF that(1)] False ir [of w] by auto
        then show ?thesis using same [OF that(1)] built(5) [OF that(1)] that(2) ir [of w] by auto
      qed
      have fresh: "\<exists>t. is_frame t \<and> pg t \<in> free_set s \<and> pte_at s' p w = leaf t flags \<and> (\<forall>a. pg a = pg t \<longrightarrow> ram s' a = 0)"
        if o: "ok" and w: "user_addr w" "v \<le> w \<and> w < lim" "\<not> present (pte_at s p w)" for w
      proof (cases "pg w = pg v")
        case True
        have l: "pte_at s1 p w = leaf t flags" using built(5) [OF w(1)] True by simp
        have "fr s1 p w = Some t" using l tbl_leaf [OF built(3)] by (simp add: fr_def)
        moreover have "t \<notin> B" using own_okD(3) [OF step.prems] built(4) by blast
        ultimately have "t \<in> user_frames B s1 p" using w(1) by (auto simp: user_frames_def)
        then have "pg t \<notin> free_set s1" "t \<notin> tables s1 p" using own_okD(6,7) [OF o1] by blast+
        moreover have "pg t \<notin> pg ` tables s1 p"
          using \<open>t \<notin> tables s1 p\<close> space_okD(3) [OF own_okD(1) [OF o1]] pg_inj [of t] built(3) by (auto simp: is_frame_def)
        ultimately have "ram s' a = 0" if "pg a = pg t" for a using that r(3) built(6) by (auto simp: calm_def)
        then show ?thesis using same [OF w(1)] l present_leaf built(3,4) by metis
      next
        case False
        then have "\<not> present (pte_at s1 p w)" "v + PAGE_SIZE \<le> w \<and> w < lim" using w built(5) ir [of w] by auto
        moreover have "free_set s1 \<subseteq> free_set s" using built(7) by (simp add: calm_def)
        ultimately show ?thesis using new [OF o w(1)] by blast
      qed
      have k: "keeps B p s s'" by (rule keeps_trans [OF built(2) r(2)])
      show ?thesis
        using eq k c no keep fresh by (intro exI [of _ ok] exI [of _ s']) blast
    qed
  qed
qed

text \<open>The pages of a range that are mapped, by their first address.\<close>

definition mapped_pages :: "pmm \<Rightarrow> u64 \<Rightarrow> u64 \<Rightarrow> u64 \<Rightarrow> u64 set" where
  "mapped_pages s p v lim = {w. is_table w \<and> v \<le> w \<and> w < lim \<and> present (pte_at s p w)}"

lemma mapped_pages_step:
  assumes "user_range v lim" and "v < lim"
    and "\<And>w. user_addr w \<Longrightarrow> pg w \<noteq> pg v \<Longrightarrow> pte_at s' p w = pte_at s p w"
  shows "mapped_pages s p v lim = (if present (pte_at s p v) then insert v (mapped_pages s' p (v + PAGE_SIZE) lim) else mapped_pages s' p (v + PAGE_SIZE) lim)"
    and "v \<notin> mapped_pages s' p (v + PAGE_SIZE) lim"
proof -
  note n = next_page [OF assms(1,2)]
  have lt: "\<not> v + PAGE_SIZE \<le> v" using n(3) by (simp add: word_le_nat_alt)
  then show "v \<notin> mapped_pages s' p (v + PAGE_SIZE) lim" by (auto simp: mapped_pages_def)
  have tv: "is_table v" using assms(1) by (simp add: user_range_def)
  have ua: "user_addr w" if "v \<le> w" "w < lim" for w
    using that assms(1) by (auto simp: user_addr_def user_range_def)
  have high: "v + PAGE_SIZE \<le> w \<Longrightarrow> v \<le> w \<and> pg w \<noteq> pg v" for w
    using n(3) n(4) [of w] by (auto simp: word_le_nat_alt word_less_nat_alt)
  have "w \<in> mapped_pages s p v lim \<longleftrightarrow> (w = v \<and> present (pte_at s p v)) \<or> w \<in> mapped_pages s' p (v + PAGE_SIZE) lim" for w
    using in_range_step [OF assms(1,2), of w] pg_inj [of w v] tv ua [of w] high [of w] assms(2) assms(3) [of w]
    by (auto simp: mapped_pages_def)
  then show "mapped_pages s p v lim = (if present (pte_at s p v) then insert v (mapped_pages s' p (v + PAGE_SIZE) lim) else mapped_pages s' p (v + PAGE_SIZE) lim)"
    by auto
qed

lemma set_pte_sets_tables:
  assumes ok: "space_ok s p" and u: "user_addr v" and k: "present (pte_at s p v)"
  shows "sets_pte p v e s (set_ent (tbl (pde s p (idx_pd v))) (idx_pt v) e s)"
    and "tables (set_ent (tbl (pde s p (idx_pd v))) (idx_pt v) e s) p = tables s p"
    and "ent s (tbl (pde s p (idx_pd v))) (idx_pt v) = pte_at s p v"
proof -
  have k': "present (pde s p (idx_pd v))" using k by (auto simp: pte_at_def pte_def split: if_splits)
  show "sets_pte p v e s (set_ent (tbl (pde s p (idx_pd v))) (idx_pt v) e s)" by (rule set_pte_sets [OF ok u k'])
  show "tables (set_ent (tbl (pde s p (idx_pd v))) (idx_pt v) e s) p = tables s p"
    by (rule set_pte_tree(2) [OF space_okD(2) [OF ok] idx_bound(1) k' idx_bound(2) refl])
  show "ent s (tbl (pde s p (idx_pd v))) (idx_pt v) = pte_at s p v" using k' by (simp add: pte_at_def pte_def)
qed

text \<open>\<open>protect\<close>: the frames stay, the flags of the mapped pages of the range become the ones asked for.\<close>

lemma protect_from_effect:
  assumes "user_range v lim" and "own_ok B s p"
  shows "\<exists>s'. protect_from p v lim flags s = Some s' \<and> keeps B p s s' \<and> tables s' p = tables s p \<and> free_set s' = free_set s
     \<and> (\<forall>w. user_addr w \<longrightarrow> pte_at s' p w =
          (if v \<le> w \<and> w < lim \<and> present (pte_at s p w) then leaf (pte_at s p w) flags else pte_at s p w))"
  using assms
proof (induction v arbitrary: s rule: page_range_induct)
  case (stop v)
  have "protect_from p v lim flags s = Some s" using stop(2) by (subst protect_from.simps) simp
  moreover have "\<not> (v \<le> w \<and> w < lim)" for w using stop(2) le_less_trans [of v w lim] by blast
  ultimately show ?case using keeps_refl [OF stop(3)] by auto
next
  case (step v)
  note n = next_page [OF step(1,2)] and ir = in_range_step [OF step(1,2)]
  have pv: "user_addr w \<Longrightarrow> pg w = pg v \<Longrightarrow> pte_at s p w = pte_at s p v" for w
    using user_page_eq_iff [OF _ n(1), of w] by (simp add: pte_at_def)
  note po = pte_of_eq [OF own_okD(1) [OF step.prems] n(1)]
  have nv: "pg w = pg v \<Longrightarrow> \<not> (v + PAGE_SIZE \<le> w \<and> w < lim)" for w
    using n(3) n(4) [of w] by (auto simp: word_le_nat_alt word_less_nat_alt)
  show ?case
  proof (cases "present (pte_at s p v)")
    case True
    let ?t = "tbl (pde s p (idx_pd v))"
    let ?s1 = "set_ent ?t (idx_pt v) (leaf (pte_at s p v) flags) s"
    note w = set_pte_sets_tables(1,2) [OF own_okD(1) [OF step.prems] n(1) True, of "leaf (pte_at s p v) flags"]
      set_pte_sets_tables(3) [OF own_okD(1) [OF step.prems] n(1) True]
    have k: "keeps B p s ?s1"
      by (rule protect_step [OF step.prems w(1) n(1)]) (simp_all add: True fr_def is_frame_leaf_tbl present_leaf)
    have fs: "free_set ?s1 = free_set s" by simp
    have u: "user_addr x \<Longrightarrow> pte_at ?s1 p x = (if pg x = pg v then leaf (pte_at s p v) flags else pte_at s p x)" for x
      using w(1) by (simp add: sets_pte_def)
    have "protect_from p v lim flags s = protect_from p (v + PAGE_SIZE) lim flags ?s1"
      using step(2) True w(3) by (subst protect_from.simps) (simp add: po leaf_def)
    moreover obtain s' where r: "protect_from p (v + PAGE_SIZE) lim flags ?s1 = Some s'" "keeps B p ?s1 s'" "tables s' p = tables ?s1 p"
      "free_set s' = free_set ?s1" "\<And>x. user_addr x \<Longrightarrow> pte_at s' p x =
        (if v + PAGE_SIZE \<le> x \<and> x < lim \<and> present (pte_at ?s1 p x) then leaf (pte_at ?s1 p x) flags else pte_at ?s1 p x)"
      using step.IH [of ?s1] k by (auto simp: keeps_def)
    moreover have "pte_at s' p x = (if v \<le> x \<and> x < lim \<and> present (pte_at s p x) then leaf (pte_at s p x) flags else pte_at s p x)"
      if "user_addr x" for x
      using r(5) [OF that] u [OF that] pv [OF that] ir [of x] nv [of x] True by (cases "pg x = pg v") auto
    ultimately show ?thesis using keeps_trans [OF k r(2)] w(2) fs by auto
  next
    case False
    have "protect_from p v lim flags s = protect_from p (v + PAGE_SIZE) lim flags s"
      using step(2) False by (subst protect_from.simps) (simp add: po)
    moreover have "(v \<le> x \<and> x < lim \<and> present (pte_at s p x)) = (v + PAGE_SIZE \<le> x \<and> x < lim \<and> present (pte_at s p x))"
      if "user_addr x" for x
      using pv [OF that] False ir [of x] by auto
    ultimately show ?thesis using step.IH [OF step.prems] by simp
  qed
qed

text \<open>\<open>detach\<close>: the entries of the mapped pages go, the frames stay where they are.\<close>

lemma detach_from_effect:
  assumes "user_range v lim" and "own_ok B s p"
    and "\<And>w f. user_addr w \<Longrightarrow> v \<le> w \<Longrightarrow> w < lim \<Longrightarrow> fr s p w = Some f \<Longrightarrow> f \<in> B"
  shows "\<exists>s'. detach_from p v lim n s = Some (n + int (card (mapped_pages s p v lim)), s') \<and> keeps B p s s'
     \<and> tables s' p = tables s p \<and> free_set s' = free_set s
     \<and> (\<forall>w. user_addr w \<longrightarrow> pte_at s' p w =
          (if v \<le> w \<and> w < lim \<and> present (pte_at s p w) then 0 else pte_at s p w))"
  using assms
proof (induction v arbitrary: s n rule: page_range_induct)
  case (stop v)
  have "detach_from p v lim n s = Some (n, s)" using stop(2) by (subst detach_from.simps) simp
  moreover have no: "\<not> (v \<le> w \<and> w < lim)" for w using stop(2) le_less_trans [of v w lim] by blast
  moreover have "mapped_pages s p v lim = {}" using no by (auto simp: mapped_pages_def)
  ultimately show ?case using keeps_refl [OF stop(3)] by auto
next
  case (step v)
  note nx = next_page [OF step(1,2)] and ir = in_range_step [OF step(1,2)]
  have pv: "user_addr w \<Longrightarrow> pg w = pg v \<Longrightarrow> pte_at s p w = pte_at s p v" for w
    using user_page_eq_iff [OF _ nx(1), of w] by (simp add: pte_at_def)
  note po = pte_of_eq [OF own_okD(1) [OF step.prems(1)] nx(1)]
  have nv: "pg w = pg v \<Longrightarrow> \<not> (v + PAGE_SIZE \<le> w \<and> w < lim)" for w
    using nx(3) nx(4) [of w] by (auto simp: word_le_nat_alt word_less_nat_alt)
  show ?case
  proof (cases "present (pte_at s p v)")
    case True
    let ?t = "tbl (pde s p (idx_pd v))"
    let ?s1 = "set_ent ?t (idx_pt v) 0 s"
    note w = set_pte_sets_tables(1,2) [OF own_okD(1) [OF step.prems(1)] nx(1) True, of 0]
      set_pte_sets_tables(3) [OF own_okD(1) [OF step.prems(1)] nx(1) True]
    have u: "user_addr x \<Longrightarrow> pte_at ?s1 p x = (if pg x = pg v then 0 else pte_at s p x)" for x
      using w(1) by (simp add: sets_pte_def)
    have fv: "fr s p v = Some (tbl (pte_at s p v))" using True by (simp add: fr_def)
    have k: "keeps B p s ?s1"
      by (rule detach_step [OF step.prems(1) w(1) nx(1) fv]) (use step.prems(2) [OF nx(1) _ step(2) fv] in simp)
    have "f \<in> B" if "user_addr x" "v + PAGE_SIZE \<le> x" "x < lim" "fr ?s1 p x = Some f" for x f
      using that step.prems(2) [of x f] u [OF that(1)] ir [of x] by (auto simp: fr_def split: if_splits)
    then obtain s' where r: "detach_from p (v + PAGE_SIZE) lim (n + 1) ?s1 = Some (n + 1 + int (card (mapped_pages ?s1 p (v + PAGE_SIZE) lim)), s')"
      "keeps B p ?s1 s'" "tables s' p = tables ?s1 p" "free_set s' = free_set ?s1" "\<And>x. user_addr x \<Longrightarrow> pte_at s' p x =
        (if v + PAGE_SIZE \<le> x \<and> x < lim \<and> present (pte_at ?s1 p x) then 0 else pte_at ?s1 p x)"
      using step.IH [of ?s1 "n + 1"] k by (auto simp: keeps_def)
    have c: "card (mapped_pages s p v lim) = Suc (card (mapped_pages ?s1 p (v + PAGE_SIZE) lim))"
      using mapped_pages_step [OF step(1,2), of ?s1 p s] u True by simp
    have "detach_from p v lim n s = detach_from p (v + PAGE_SIZE) lim (n + 1) ?s1"
      using step(2) True w(3) by (subst detach_from.simps) (simp add: po)
    then have "detach_from p v lim n s = Some (n + int (card (mapped_pages s p v lim)), s')" using r(1) c by simp
    moreover have "pte_at s' p x = (if v \<le> x \<and> x < lim \<and> present (pte_at s p x) then 0 else pte_at s p x)"
      if "user_addr x" for x
      using r(5) [OF that] u [OF that] pv [OF that] ir [of x] nv [of x] True by (cases "pg x = pg v") auto
    moreover have "keeps B p s s'" by (rule keeps_trans [OF k r(2)])
    moreover have "tables s' p = tables s p" "free_set s' = free_set s" using r(3,4) w(2) by simp_all
    ultimately show ?thesis by blast
  next
    case False
    have "detach_from p v lim n s = detach_from p (v + PAGE_SIZE) lim n s"
      using step(2) False by (subst detach_from.simps) (simp add: po)
    moreover have "(v \<le> x \<and> x < lim \<and> present (pte_at s p x)) = (v + PAGE_SIZE \<le> x \<and> x < lim \<and> present (pte_at s p x))"
      if "user_addr x" for x
      using pv [OF that] False ir [of x] by auto
    moreover have "mapped_pages s p v lim = mapped_pages s p (v + PAGE_SIZE) lim"
      using mapped_pages_step(1) [OF step(1,2), of s p s] False by simp
    moreover have "f \<in> B" if "user_addr x" "v + PAGE_SIZE \<le> x" "x < lim" "fr s p x = Some f" for x f
      using that step.prems(2) [of x f] ir [of x] by auto
    ultimately show ?thesis using step.IH [OF step.prems(1), of n] by simp
  qed
qed

text \<open>\<open>unmap\<close>: the entries of the mapped pages go and their frames return to the allocator.\<close>

lemma unmap_from_effect:
  assumes "user_range v lim" and "own_ok B s p"
    and "\<And>w f. user_addr w \<Longrightarrow> v \<le> w \<Longrightarrow> w < lim \<Longrightarrow> fr s p w = Some f \<Longrightarrow> f \<notin> B"
  shows "\<exists>s'. unmap_from p v lim n s = Some (n + int (card (mapped_pages s p v lim)), s') \<and> keeps B p s s'
     \<and> tables s' p = tables s p
     \<and> free_set s' = free_set s \<union> (\<lambda>w. pg (tbl (pte_at s p w))) ` mapped_pages s p v lim
     \<and> (\<forall>w. user_addr w \<longrightarrow> pte_at s' p w =
          (if v \<le> w \<and> w < lim \<and> present (pte_at s p w) then 0 else pte_at s p w))"
  using assms
proof (induction v arbitrary: s n rule: page_range_induct)
  case (stop v)
  have "unmap_from p v lim n s = Some (n, s)" using stop(2) by (subst unmap_from.simps) simp
  moreover have no: "\<not> (v \<le> w \<and> w < lim)" for w using stop(2) le_less_trans [of v w lim] by blast
  moreover have "mapped_pages s p v lim = {}" using no by (auto simp: mapped_pages_def)
  ultimately show ?case using keeps_refl [OF stop(3)] by auto
next
  case (step v)
  note nx = next_page [OF step(1,2)] and ir = in_range_step [OF step(1,2)]
  have pv: "user_addr w \<Longrightarrow> pg w = pg v \<Longrightarrow> pte_at s p w = pte_at s p v" for w
    using user_page_eq_iff [OF _ nx(1), of w] by (simp add: pte_at_def)
  note po = pte_of_eq [OF own_okD(1) [OF step.prems(1)] nx(1)]
  have nv: "pg w = pg v \<Longrightarrow> \<not> (v + PAGE_SIZE \<le> w \<and> w < lim)" for w
    using nx(3) nx(4) [of w] by (auto simp: word_le_nat_alt word_less_nat_alt)
  show ?case
  proof (cases "present (pte_at s p v)")
    case True
    let ?t = "tbl (pde s p (idx_pd v))" and ?f = "tbl (pte_at s p v)"
    let ?s1 = "pmm_free_frame ?f (set_ent ?t (idx_pt v) 0 s)"
    note w = set_pte_sets_tables(1,2) [OF own_okD(1) [OF step.prems(1)] nx(1) True, of 0]
      set_pte_sets_tables(3) [OF own_okD(1) [OF step.prems(1)] nx(1) True]
    have fv: "fr s p v = Some ?f" using True by (simp add: fr_def)
    have nb: "?f \<notin> B" using step.prems(2) [OF nx(1) _ step(2) fv] by simp
    note us = unmap_step [OF step.prems(1) w(1) nx(1) w(2) fv nb]
    have "f \<notin> B" if "user_addr x" "v + PAGE_SIZE \<le> x" "x < lim" "fr ?s1 p x = Some f" for x f
      using that step.prems(2) [of x f] us(3) [OF that(1)] ir [of x] by (auto simp: fr_def split: if_splits)
    then obtain s' where r: "unmap_from p (v + PAGE_SIZE) lim (n + 1) ?s1 = Some (n + 1 + int (card (mapped_pages ?s1 p (v + PAGE_SIZE) lim)), s')"
      "keeps B p ?s1 s'" "tables s' p = tables ?s1 p"
      "free_set s' = free_set ?s1 \<union> (\<lambda>w. pg (tbl (pte_at ?s1 p w))) ` mapped_pages ?s1 p (v + PAGE_SIZE) lim"
      "\<And>x. user_addr x \<Longrightarrow> pte_at s' p x =
        (if v + PAGE_SIZE \<le> x \<and> x < lim \<and> present (pte_at ?s1 p x) then 0 else pte_at ?s1 p x)"
      using step.IH [of ?s1 "n + 1"] us(1) by (auto simp: keeps_def)
    have m: "mapped_pages s p v lim = insert v (mapped_pages ?s1 p (v + PAGE_SIZE) lim)" "v \<notin> mapped_pages ?s1 p (v + PAGE_SIZE) lim"
      using mapped_pages_step [OF step(1,2), of ?s1 p s] us(3) True by simp_all
    have "unmap_from p v lim n s = unmap_from p (v + PAGE_SIZE) lim (n + 1) ?s1"
      using step(2) True w(3) by (subst unmap_from.simps) (simp add: po Let_def tbl_def)
    then have "unmap_from p v lim n s = Some (n + int (card (mapped_pages s p v lim)), s')" using r(1) m by simp
    moreover have "pte_at s' p x = (if v \<le> x \<and> x < lim \<and> present (pte_at s p x) then 0 else pte_at s p x)"
      if "user_addr x" for x
      using r(5) [OF that] us(3) [OF that] pv [OF that] ir [of x] nv [of x] True by (cases "pg x = pg v") auto
    moreover have "keeps B p s s'" by (rule keeps_trans [OF us(1) r(2)])
    moreover have "tables s' p = tables s p" using r(3) us(4) by simp
    moreover have "pte_at ?s1 p x = pte_at s p x" if "x \<in> mapped_pages ?s1 p (v + PAGE_SIZE) lim" for x
    proof -
      have "v \<le> x" "x < lim" "pg x \<noteq> pg v" using that nv [of x] ir [of x] by (auto simp: mapped_pages_def)
      moreover have "user_addr x" using calculation step(1) by (auto simp: user_addr_def user_range_def)
      ultimately show ?thesis using us(3) by simp
    qed
    then have "(\<lambda>w. pg (tbl (pte_at ?s1 p w))) ` mapped_pages ?s1 p (v + PAGE_SIZE) lim
        = (\<lambda>w. pg (tbl (pte_at s p w))) ` mapped_pages ?s1 p (v + PAGE_SIZE) lim"
      by (intro image_cong) simp_all
    then have "free_set s' = free_set s \<union> (\<lambda>w. pg (tbl (pte_at s p w))) ` mapped_pages s p v lim"
      using r(4) us(2) by (simp add: m(1))
    ultimately show ?thesis by blast
  next
    case False
    have "unmap_from p v lim n s = unmap_from p (v + PAGE_SIZE) lim n s"
      using step(2) False by (subst unmap_from.simps) (simp add: po)
    moreover have "(v \<le> x \<and> x < lim \<and> present (pte_at s p x)) = (v + PAGE_SIZE \<le> x \<and> x < lim \<and> present (pte_at s p x))"
      if "user_addr x" for x
      using pv [OF that] False ir [of x] by auto
    moreover have "mapped_pages s p v lim = mapped_pages s p (v + PAGE_SIZE) lim"
      using mapped_pages_step(1) [OF step(1,2), of s p s] False by simp
    moreover have "f \<notin> B" if "user_addr x" "v + PAGE_SIZE \<le> x" "x < lim" "fr s p x = Some f" for x f
      using that step.prems(2) [of x f] ir [of x] by auto
    ultimately show ?thesis using step.IH [OF step.prems(1), of n] by simp
  qed
qed

subsection \<open>The byte ranges callers pass\<close>

lemma and_not_fff: "x AND NOT 0xFFF = x - (x :: u64) mod 4096"
  using and_not_mask_eq [of x 12] by (simp add: mask_eq_exp_minus_1)

lemma user_bytes_range:
  assumes "USER_VIRT_BASE \<le> a" and "unat a + unat n \<le> 2147483648"
  shows "user_range (range_start a) (range_end a n)"
    and "\<And>w. range_start a \<le> w \<and> w < range_end a n \<longleftrightarrow> unat a div 4096 \<le> unat w div 4096 \<and> unat w div 4096 < (unat a + unat n + 4095) div 4096"
proof -
  have u: "unat (a + n + 0xFFF) = unat a + unat n + 4095" using assms(2) by (simp add: unat_add_small)
  have s: "unat (range_start a) = unat a div 4096 * 4096"
    using unat_and_not_mask [of 12 a] by (simp add: range_start_def mask_eq_exp_minus_1 minus_mod_eq_mult_div mult.commute)
  have e: "unat (range_end a n) = (unat a + unat n + 4095) div 4096 * 4096"
    using unat_and_not_mask [of 12 "a + n + 0xFFF"] u by (simp add: range_end_def mask_eq_exp_minus_1 minus_mod_eq_mult_div mult.commute)
  have t: "is_table (range_start a)" "is_table (range_end a n)"
    by (simp_all add: is_table_def word_unat_eq_iff unat_mod s e)
  have b: "1073741824 \<le> unat a" using assms(1) by (simp add: USER_VIRT_BASE_def word_le_nat_alt)
  have "262144 \<le> unat a div 4096" using b by (simp add: less_eq_div_iff_mult_less_eq)
  then have lo: "USER_VIRT_BASE \<le> range_start a" by (simp add: USER_VIRT_BASE_def word_le_nat_alt s)
  have "(unat a + unat n + 4095) div 4096 \<le> 524288" using assms(2) by (simp add: div_le_mono [of _ 2147487743 4096, simplified])
  then have hi: "range_end a n \<le> USER_VIRT_END" by (simp add: USER_VIRT_END_def word_le_nat_alt e)
  show "user_range (range_start a) (range_end a n)" using t lo hi by (simp add: user_range_def)
  show "range_start a \<le> w \<and> w < range_end a n \<longleftrightarrow> unat a div 4096 \<le> unat w div 4096 \<and> unat w div 4096 < (unat a + unat n + 4095) div 4096" for w
    by (simp add: word_le_nat_alt word_less_nat_alt s e less_eq_div_iff_mult_less_eq div_less_iff_less_mult)
qed

subsection \<open>A new address space\<close>

lemma copy_entries:
  fixes P :: "u64 \<Rightarrow> u64 \<Rightarrow> bool" and g :: "u64 \<Rightarrow> u64"
  assumes t: "is_table t" "is_table src" "t \<noteq> src" and n: "n \<le> 512"
  defines "cp \<equiv> (\<lambda>i s. if P (of_nat i) (ent s src (of_nat i)) then set_ent t (of_nat i) (g (ent s src (of_nat i))) s else s)"
  shows "(\<forall>t' i. is_table t' \<longrightarrow> i < 512 \<longrightarrow> ent (fold cp [m..<n] s) t' i =
            (if t' = t \<and> m \<le> unat i \<and> unat i < n \<and> P i (ent s src i) then g (ent s src i) else ent s t' i))
       \<and> bitmap (fold cp [m..<n] s) = bitmap s \<and> free_frames (fold cp [m..<n] s) = free_frames s
       \<and> (\<forall>a. pg a \<noteq> pg t \<longrightarrow> ram (fold cp [m..<n] s) a = ram s a)"
  using n
proof (induction n)
  case (Suc n)
  show ?case
  proof (cases "m \<le> n")
    case True
    let ?s = "fold cp [m..<n] s"
    have u: "unat (of_nat n :: u64) = n" by (rule unat_of_nat_small) (use Suc.prems in simp)
    have k: "(of_nat n :: u64) < 512" using Suc.prems u by (simp add: word_less_nat_alt)
    have IH: "\<And>t' i. is_table t' \<Longrightarrow> i < 512 \<Longrightarrow> ent ?s t' i =
            (if t' = t \<and> m \<le> unat i \<and> unat i < n \<and> P i (ent s src i) then g (ent s src i) else ent s t' i)"
      "bitmap ?s = bitmap s" "free_frames ?s = free_frames s" "\<And>a. pg a \<noteq> pg t \<Longrightarrow> ram ?s a = ram s a"
      using Suc by auto
    have src: "ent ?s src (of_nat n) = ent s src (of_nat n)" using IH(1) t k by simp
    have f: "fold cp [m..<Suc n] s = (if P (of_nat n) (ent s src (of_nat n)) then set_ent t (of_nat n) (g (ent s src (of_nat n))) ?s else ?s)"
      using True src by (simp add: cp_def)
    have eq: "unat i < Suc n \<longleftrightarrow> unat i < n \<or> i = of_nat n" for i :: u64
      using u by (auto simp: less_Suc_eq)
    show ?thesis unfolding f using IH k t u True by (auto simp: ent_set_ent ram_set_ent eq)
  next
    case False
    then show ?thesis by auto
  qed
qed simp

lemma copy_pdpt_entries:
  "(\<lambda>i. copy_pdpt_entry src t (of_nat i)) = (\<lambda>i s. if (\<lambda>(i :: u64) e. i \<noteq> 1 \<and> present e) (of_nat i) (ent s src (of_nat i))
      then set_ent t (of_nat i) ((\<lambda>e. e AND NOT PAGE_USER) (ent s src (of_nat i))) s else s)"
  by (intro ext) (simp add: copy_pdpt_entry_def USER_PDPT_INDEX_def)

lemma copy_pml4_entries:
  "(\<lambda>i. copy_pml4_entry src t (of_nat i)) = (\<lambda>i s. if (\<lambda>(i :: u64) e. present e) (of_nat i) (ent s src (of_nat i))
      then set_ent t (of_nat i) (id (ent s src (of_nat i))) s else s)"
  by (intro ext) (simp add: copy_pml4_entry_def)

definition boot_tables :: "u64 \<Rightarrow> u64 \<Rightarrow> pmm \<Rightarrow> bool" where
  "boot_tables p4 p3 s \<longleftrightarrow> is_table p4 \<and> is_table p3 \<and> pg p4 \<notin> free_set s \<and> pg p3 \<notin> free_set s"

text \<open>The contents of the two tables of a new space, the boot tables being read as they were before.\<close>

definition kernel_half :: "u64 \<Rightarrow> u64 \<Rightarrow> pmm \<Rightarrow> u64 \<Rightarrow> pmm \<Rightarrow> bool" where
  "kernel_half p4 p3 s p s' \<longleftrightarrow>
     (\<forall>i < 512. i \<noteq> 1 \<longrightarrow> ent s' (pdpt_of s' p) i = (if present (ent s p3 i) then ent s p3 i AND NOT PAGE_USER else 0))
   \<and> (\<forall>i < 512. i \<noteq> 0 \<longrightarrow> ent s' p i = (if present (ent s p4 i) then ent s p4 i else 0))"

lemma new_tables_filled:
  fixes s :: pmm
  assumes p: "is_frame p" and q: "is_frame q" and pq: "p \<noteq> q"
    and b: "is_table p4" "is_table p3" "p4 \<notin> {p, q}" "p3 \<notin> {p, q}"
  defines "s' \<equiv> fold (\<lambda>i. copy_pml4_entry p4 p (of_nat i)) [1..<512]
     (fold (\<lambda>i. copy_pdpt_entry p3 q (of_nat i)) [0..<512]
       (set_ent p 0 (q OR PAGE_PRESENT OR PAGE_WRITE OR PAGE_USER) (zero_table q (zero_table p s))))"
  shows "pdpt_of s' p = q" and "present (ent s' p 0)" and "kernel_half p4 p3 s p s'" and "bitmap s' = bitmap s" and "free_frames s' = free_frames s"
    and "\<And>a. pg a \<noteq> pg p \<Longrightarrow> pg a \<noteq> pg q \<Longrightarrow> ram s' a = ram s a" and "pdpe s' p = 0"
proof -
  let ?e = "q OR PAGE_PRESENT OR PAGE_WRITE OR PAGE_USER"
  define s1 where "s1 = set_ent p 0 ?e (zero_table q (zero_table p s))"
  define s2 where "s2 = fold (\<lambda>i. copy_pdpt_entry p3 q (of_nat i)) [0..<512] s1"
  have s': "s' = fold (\<lambda>i. copy_pml4_entry p4 p (of_nat i)) [1..<512] s2" by (simp add: s'_def s2_def s1_def)
  have t: "is_table p" "is_table q" using p q by (simp_all add: is_frame_def)
  have nb: "q \<noteq> p3" "p \<noteq> p4" using b by auto
  note c2 = copy_entries [of q p3 512 "\<lambda>i e. i \<noteq> 1 \<and> present e" "\<lambda>e. e AND NOT PAGE_USER" 0 s1, folded copy_pdpt_entries, folded s2_def]
  note c3 = copy_entries [of p p4 512 "\<lambda>i e. present e" id 1 s2, folded copy_pml4_entries, folded s']
  have lt: "unat i < 512" if "i < 512" for i :: u64 using that by (simp add: word_less_nat_alt)
  have e1: "ent s1 t' i = (if t' = p \<and> i = 0 then ?e else if t' = p \<or> t' = q then 0 else ent s t' i)" if "is_table t'" "i < 512" for t' i
    using that t pq by (auto simp: s1_def ent_set_ent ent_zero_table)
  have e2: "ent s2 t' i = (if t' = q \<and> i \<noteq> 1 \<and> present (ent s p3 i) then ent s p3 i AND NOT PAGE_USER else ent s1 t' i)"
    if "is_table t'" "i < 512" for t' i
    using c2 t b that lt [OF that(2)] e1 [of p3 i] by auto
  have e3: "ent s' t' i = (if t' = p \<and> i \<noteq> 0 \<and> present (ent s p4 i) then ent s p4 i else ent s2 t' i)" if "is_table t'" "i < 512" for t' i
  proof -
    have "Suc 0 \<le> unat i \<longleftrightarrow> i \<noteq> 0" by (auto simp: Suc_le_eq unat_gt_0)
    then show ?thesis using c3 t b that lt [OF that(2)] e1 [of p4 i] e2 [of p4 i] by auto
  qed
  have e0: "ent s' p 0 = ?e" using e3 [OF t(1), of 0] e2 [OF t(1), of 0] e1 [OF t(1), of 0] pq by simp
  have fl: "PAGE_PRESENT OR PAGE_WRITE OR (PAGE_USER AND PAGE_USER) = PAGE_PRESENT OR PAGE_WRITE OR PAGE_USER" by simp
  show pd: "pdpt_of s' p = q" "present (ent s' p 0)" using new_entry [OF q, of PAGE_USER] e0 by (simp_all add: pdpt_of_def)
  show "kernel_half p4 p3 s p s'" unfolding kernel_half_def pd
  proof (intro conjI allI impI)
    show "ent s' q i = (if present (ent s p3 i) then ent s p3 i AND NOT PAGE_USER else 0)" if "i < 512" "i \<noteq> 1" for i
      using e3 [OF t(2) that(1)] e2 [OF t(2) that(1)] e1 [OF t(2) that(1)] that pq by auto
    show "ent s' p i = (if present (ent s p4 i) then ent s p4 i else 0)" if "i < 512" "i \<noteq> 0" for i
      using e3 [OF t(1) that(1)] e2 [OF t(1) that(1)] e1 [OF t(1) that(1)] that pq by simp
  qed
  show "pdpe s' p = 0" using e3 [OF t(2), of 1] e2 [OF t(2), of 1] e1 [OF t(2), of 1] pq by (simp add: pdpe_def pd)
  show "bitmap s' = bitmap s" "free_frames s' = free_frames s" using c2 c3 t b nb by (simp_all add: s1_def)
  show "ram s' a = ram s a" if "pg a \<noteq> pg p" "pg a \<noteq> pg q" for a
    using c2 c3 t b nb that by (simp add: s1_def ram_set_ent ram_zero_table)
qed

lemma new_space_cases:
  assumes ok: "pmm_ok s" and b: "boot_tables p4 p3 s" and B: "\<forall>x \<in> B. is_frame x \<and> pg x \<notin> free_set s"
  obtains (full) s' where "paging_new_address_space p4 p3 s = (0, s')" "pmm_ok s'" "free_set s' = free_set s" "ram s' = ram s" "card (free_set s) \<le> 1"
  | (made) p s' where "paging_new_address_space p4 p3 s = (p, s')" "p \<noteq> 0" "own_ok B s' p" "total B s' p = free_set s"
      "\<And>w. user_addr w \<Longrightarrow> pte_at s' p w = 0" "kernel_half p4 p3 s p s'" "user_frames B s' p = {}"
      "\<And>a. pg a \<notin> free_set s \<Longrightarrow> ram s' a = ram s a" "tables s' p = {p, pdpt_of s' p}"
  using ok
proof (cases rule: alloc_frame_split)
  case none
  then have "paging_new_address_space p4 p3 s = (0, s)" by (simp add: paging_new_address_space_def)
  then show ?thesis by (rule that(1)) (use none ok in simp_all)
next
  case (some p)
  let ?s1 = "mark_used (pg p) s"
  show ?thesis using some(5)
  proof (cases rule: alloc_frame_split)
    case none
    let ?s' = "pmm_free_frame p ?s1"
    note fx = free_frame_effect [OF some(5,1)]
    have "paging_new_address_space p4 p3 s = (0, ?s')"
      using some none by (simp add: paging_new_address_space_def)
    moreover have one: "free_set s = {pg p}" using none(1) some(3,6) by auto
    ultimately show ?thesis using fx some(6) by (intro that(1) [of ?s']) auto
  next
    case q: (some q)
    let ?s2 = "mark_used (pg q) ?s1"
    define s' where "s' = fold (\<lambda>i. copy_pml4_entry p4 p (of_nat i)) [1..<512]
     (fold (\<lambda>i. copy_pdpt_entry p3 q (of_nat i)) [0..<512]
       (set_ent p 0 (q OR PAGE_PRESENT OR PAGE_WRITE OR PAGE_USER) (zero_table q (zero_table p ?s2))))"
    have qf: "pg q \<in> free_set s" using q(3) some(6) by blast
    have pq: "p \<noteq> q" using q(3) some(6) by auto
    have bt: "is_table p4" "is_table p3" "p4 \<notin> {p, q}" "p3 \<notin> {p, q}"
      using b some(3) q(3) some(6) by (auto simp: boot_tables_def)
    note nt = new_tables_filled [OF some(1) q(1) pq bt, where s = ?s2, folded s'_def]
    have r: "paging_new_address_space p4 p3 s = (p, s')"
      using some q by (simp add: paging_new_address_space_def Let_def s'_def)
    have fs: "free_set s' = free_set s - {pg p, pg q}" using free_set_cong [OF nt(4)] q(6) some(6) by auto
    have pm: "pmm_ok s'" using q(5) free_set_cong [OF nt(4)] nt(5) by (simp add: pmm_ok_def pmm_wf_def)
    have e2: "ent ?s2 = ent s" by (rule ent_ram_cong) simp
    have kh: "kernel_half p4 p3 s p s'" using nt(3) by (simp add: kernel_half_def e2)
    have pe: "pdpe s' p = 0" by (rule nt(7))
    then have pk: "pde s' p k = 0" for k by (simp add: pde_def)
    then have pt: "pte_at s' p w = 0" for w by (simp add: pte_at_def pte_def)
    have tb: "tables s' p = {p, q}" by (simp add: tables_def nt(1) pe pk)
    have wf: "tree_wf s' p" using some(1) pq by (simp add: tree_wf_def nt(1,2) pe pk is_frame_def)
    have so: "space_ok s' p" using wf pm some(1) q(1) by (auto simp: space_ok_def tb fs)
    have frn: "fr s' p w = None" for w by (simp add: fr_def pt)
    then have uf: "user_frames B s' p = {}" by (simp add: user_frames_def)
    have "own_ok B s' p"
      using so B fs some(3) q(3) some(6) by (intro own_okI) (auto simp: uf frn tb)
    moreover have "total B s' p = free_set s" using some(3) q(3) some(6) by (auto simp: total_def owned_def tb uf fs)
    moreover have "ram s' a = ram s a" if "pg a \<notin> free_set s" for a
    proof -
      have "pg a \<noteq> pg p" "pg a \<noteq> pg q" using that some(3) qf by metis+
      then show ?thesis using nt(6) by simp
    qed
    moreover have "tables s' p = {p, pdpt_of s' p}" by (simp add: tb nt(1))
    ultimately show ?thesis using that(2) [OF r some(2) _ _ pt kh uf] by blast
  qed
qed

subsection \<open>Taking a space down\<close>

lemma free_list_effect:
  assumes "pmm_ok s" and "\<And>x. x \<in> set xs \<Longrightarrow> P x \<Longrightarrow> is_frame (g x)"
    and step: "\<And>x s'. ram s' = ram s \<Longrightarrow> f x s' = (if P x then pmm_free_frame (g x) s' else s')"
  shows "pmm_ok (fold f xs s) \<and> ram (fold f xs s) = ram s
       \<and> free_set (fold f xs s) = free_set s \<union> pg ` g ` {x \<in> set xs. P x}"
proof -
  have "pmm_ok s' \<Longrightarrow> ram s' = ram s \<Longrightarrow> pmm_ok (fold f xs s') \<and> ram (fold f xs s') = ram s
       \<and> free_set (fold f xs s') = free_set s' \<union> pg ` g ` {x \<in> set xs. P x}" for s'
    using assms(2)
  proof (induction xs arbitrary: s')
    case (Cons x xs)
    have a: "pmm_ok (f x s') \<and> ram (f x s') = ram s \<and> free_set (f x s') = free_set s' \<union> pg ` g ` {y. y = x \<and> P y}"
      using step [OF Cons.prems(2), of x] Cons.prems free_frame_effect [OF Cons.prems(1), of "g x"] by auto
    have "{y \<in> set (x # xs). P y} = {y. y = x \<and> P y} \<union> {y \<in> set xs. P y}" by auto
    then show ?case using Cons.IH [of "f x s'"] a Cons.prems(3) by (simp add: image_Un Un_assoc)
  qed simp
  then show ?thesis using assms(1) by blast
qed

lemma user_addr_exists:
  assumes "k < 512" "l < 512"
  obtains w where "user_addr w" "idx_pd w = k" "idx_pt w = l"
proof -
  define n where "n = 1073741824 + unat k * 2097152 + unat l * 4096"
  have k: "unat k < 512" and l: "unat l < 512" using assms by (simp_all add: word_less_nat_alt)
  have u: "unat (of_nat n :: u64) = n" by (rule unat_of_nat_small) (use k l in \<open>simp add: n_def\<close>)
  have n1: "n = (262144 + unat k * 512 + unat l) * 4096" by (simp add: n_def)
  have n2: "n = (512 + unat k) * 2097152 + unat l * 4096" by (simp add: n_def)
  have d1: "n div 4096 = 262144 + unat k * 512 + unat l" using n1 by simp
  have d2: "n div 2097152 = 512 + unat k" using n2 l by simp
  have "(262144 + unat k * 512 + unat l) mod 512 = unat l"
  proof -
    have "262144 + unat k * 512 + unat l = unat l + (512 + unat k) * 512" by simp
    then show ?thesis using l by (metis mod_less mod_mult_self1)
  qed
  moreover have "(512 + unat k) mod 512 = unat k" using k by simp
  ultimately have "idx_pd (of_nat n) = k" "idx_pt (of_nat n) = l"
    by (simp_all add: word_unat_eq_iff unat_idx u d1 d2)
  moreover have "user_addr (of_nat n)"
    using k l u by (simp add: user_addr_def USER_VIRT_BASE_def USER_VIRT_END_def word_le_nat_alt word_less_nat_alt n_def)
  ultimately show ?thesis by (intro that)
qed

lemma index_below: "x \<in> set [0..<ENTRIES] \<Longrightarrow> (of_nat x :: u64) < 512"
  using unat_of_nat_small [of x, where 'a = 64] by (simp add: word_less_nat_alt ENTRIES_def)

lemma index_image:
  "(\<lambda>x. f (of_nat x :: u64)) ` {x \<in> set [0..<ENTRIES]. P (of_nat x)} = {f l |l. l < 512 \<and> P l}" (is "?A = ?B")
proof
  show "?A \<subseteq> ?B" using index_below by blast
  show "?B \<subseteq> ?A"
  proof
    fix y assume "y \<in> ?B"
    then obtain l where l: "y = f l" "l < 512" "P l" by blast
    have "unat l \<in> {x \<in> set [0..<ENTRIES]. P (of_nat x)}" using l by (simp add: word_less_nat_alt ENTRIES_def)
    moreover have "y = f (of_nat (unat l))" using l by simp
    ultimately show "y \<in> ?A" by (rule rev_image_eqI)
  qed
qed

lemma index_UN:
  fixes R :: "u64 \<Rightarrow> 'a set"
  shows "(\<Union>k \<in> {..<ENTRIES}. R (of_nat k)) = (\<Union>k \<in> {k. k < 512}. R k)"
proof -
  have "of_nat ` {..<ENTRIES} = {k :: u64. k < 512}"
    using index_image [of "\<lambda>k. k" "\<lambda>_. True"] by (simp add: lessThan_def ENTRIES_def)
  then show ?thesis by (metis (no_types) image_image)
qed

lemma free_pd_entry_effect:
  assumes ok: "pmm_ok s'" and r: "ram s' = ram s" and k: "k < 512" and pp: "present (pdpe s p)"
    and b: "present (pde s p k) \<Longrightarrow> \<not> bit (pde s p k) 7" and t: "present (pde s p k) \<Longrightarrow> is_frame (tbl (pde s p k))"
    and l: "\<And>l. l < 512 \<Longrightarrow> present (pte s p k l) \<Longrightarrow> is_frame (tbl (pte s p k l))"
  defines "R \<equiv> (if present (pde s p k) then insert (tbl (pde s p k)) {tbl (pte s p k l) |l. l < 512 \<and> present (pte s p k l)} else {})"
  shows "pmm_ok (free_pd_entry (pd_of s p) k s') \<and> ram (free_pd_entry (pd_of s p) k s') = ram s
       \<and> free_set (free_pd_entry (pd_of s p) k s') = free_set s' \<union> pg ` R"
proof (cases "present (pde s p k)")
  case False
  then have "free_pd_entry (pd_of s p) k s' = s'" using pp ent_ram_cong [OF r] by (simp add: free_pd_entry_def pde_def)
  then show ?thesis using False ok r by (simp add: R_def)
next
  case True
  let ?pt = "tbl (pde s p k)"
  have e: "ent s' (pd_of s p) k = pde s p k" using pp ent_ram_cong [OF r] by (simp add: pde_def)
  have en: "ent s'' ?pt x = pte s p k x" if "ram s'' = ram s'" for s'' x
    using that ent_ram_cong [of s'' s] r True by (simp add: pte_def)
  let ?s1 = "fold (\<lambda>l. free_pt_page ?pt (of_nat l)) [0..<ENTRIES] s'"
  have f: "pmm_ok ?s1 \<and> ram ?s1 = ram s' \<and> free_set ?s1 = free_set s' \<union> pg ` (\<lambda>x. tbl (pte s p k (of_nat x))) ` {x \<in> set [0..<ENTRIES]. present (pte s p k (of_nat x))}"
  proof (rule free_list_effect [OF ok])
    show "is_frame (tbl (pte s p k (of_nat x)))" if "x \<in> set [0..<ENTRIES]" "present (pte s p k (of_nat x))" for x
      using l [OF index_below [OF that(1)] that(2)] .
    show "free_pt_page ?pt (of_nat x) s'' = (if present (pte s p k (of_nat x)) then pmm_free_frame (tbl (pte s p k (of_nat x))) s'' else s'')"
      if "ram s'' = ram s'" for x s''
      using en [OF that] by (simp add: free_pt_page_def tbl_def)
  qed
  have img: "(\<lambda>x. tbl (pte s p k (of_nat x))) ` {x \<in> set [0..<ENTRIES]. present (pte s p k (of_nat x))}
      = {tbl (pte s p k l) |l. l < 512 \<and> present (pte s p k l)}"
    by (rule index_image)
  have e1: "ent ?s1 (pd_of s p) k = pde s p k" using f ent_ram_cong [of ?s1 s'] e by simp
  have "free_pd_entry (pd_of s p) k s' = pmm_free_frame ?pt ?s1"
    using True b [OF True] e1 by (simp add: free_pd_entry_def e Let_def flag80_bit tbl_def)
  then show ?thesis using free_frame_effect [OF _ t [OF True], of ?s1] f [unfolded img] r True by (simp add: R_def)
qed

lemma own_pte_frame:
  assumes ok: "own_ok B s p" and k: "k < 512" "l < 512" "present (pte s p k l)"
  shows "is_frame (tbl (pte s p k l))" and "tbl (pte s p k l) \<in> user_frames B s p \<or> tbl (pte s p k l) \<in> B"
proof -
  obtain w where w: "user_addr w" "idx_pd w = k" "idx_pt w = l" using user_addr_exists [OF k(1,2)] .
  have "fr s p w = Some (tbl (pte s p k l))" using w k(3) by (simp add: fr_def pte_at_def)
  then show u: "tbl (pte s p k l) \<in> user_frames B s p \<or> tbl (pte s p k l) \<in> B" using w by (auto simp: user_frames_def)
  then show "is_frame (tbl (pte s p k l))" using own_okD(2,5) [OF ok] by blast
qed

lemma user_frames_tree:
  assumes "\<And>w f. user_addr w \<Longrightarrow> fr s p w = Some f \<Longrightarrow> f \<notin> B"
  shows "user_frames B s p = {tbl (pte s p k l) |k l. k < 512 \<and> l < 512 \<and> present (pte s p k l)}"
proof
  show "user_frames B s p \<subseteq> {tbl (pte s p k l) |k l. k < 512 \<and> l < 512 \<and> present (pte s p k l)}"
  proof
    fix t assume "t \<in> user_frames B s p"
    then obtain w where "fr s p w = Some t" by (auto simp: user_frames_def)
    then have "tbl (pte s p (idx_pd w) (idx_pt w)) = t" "present (pte s p (idx_pd w) (idx_pt w))"
      by (auto simp: fr_def pte_at_def split: if_splits)
    then show "t \<in> {tbl (pte s p k l) |k l. k < 512 \<and> l < 512 \<and> present (pte s p k l)}" using idx_bound(1,2) by blast
  qed
  show "{tbl (pte s p k l) |k l. k < 512 \<and> l < 512 \<and> present (pte s p k l)} \<subseteq> user_frames B s p"
  proof
    fix t assume "t \<in> {tbl (pte s p k l) |k l. k < 512 \<and> l < 512 \<and> present (pte s p k l)}"
    then obtain k l where k: "t = tbl (pte s p k l)" "k < 512" "l < 512" "present (pte s p k l)" by blast
    obtain w where "user_addr w" "idx_pd w = k" "idx_pt w = l" using user_addr_exists [OF k(2,3)] .
    then have "user_addr w" "fr s p w = Some t" using k by (simp_all add: fr_def pte_at_def)
    then show "t \<in> user_frames B s p" using assms by (auto simp: user_frames_def)
  qed
qed

lemma free_space_effect:
  assumes ok: "own_ok B s p" and nb: "\<And>w f. user_addr w \<Longrightarrow> fr s p w = Some f \<Longrightarrow> f \<notin> B"
  shows "pmm_ok (paging_free_address_space p s) \<and> free_set (paging_free_address_space p s) = total B s p
       \<and> ram (paging_free_address_space p s) = ram s"
proof -
  note so = own_okD(1) [OF ok]
  note wf = space_okD(2) [OF so]
  let ?R = "\<lambda>k. if present (pde s p k) then insert (tbl (pde s p k)) {tbl (pte s p k l) |l. l < 512 \<and> present (pte s p k l)} else {}"
  define s1 where "s1 = (if present (pdpe s p) then pmm_free_frame (pd_of s p)
      (fold (\<lambda>k. free_pd_entry (pd_of s p) (of_nat k)) [0..<ENTRIES] s) else s)"
  define T where "T = (if present (pdpe s p) then insert (pd_of s p) (\<Union>k \<in> {k. k < 512}. ?R k) else {})"
  have s1: "pmm_ok s1 \<and> ram s1 = ram s \<and> free_set s1 = free_set s \<union> pg ` T"
  proof (cases "present (pdpe s p)")
    case True
    have pt: "present (pde s p k) \<Longrightarrow> k < 512 \<Longrightarrow> is_frame (tbl (pde s p k))" for k
      using space_okD(3) [OF so] by (auto simp: tables_def)
    have fold: "pmm_ok (fold (\<lambda>k. free_pd_entry (pd_of s p) (of_nat k)) [0..<n] s) \<and> ram (fold (\<lambda>k. free_pd_entry (pd_of s p) (of_nat k)) [0..<n] s) = ram s
        \<and> free_set (fold (\<lambda>k. free_pd_entry (pd_of s p) (of_nat k)) [0..<n] s) = free_set s \<union> pg ` (\<Union>k \<in> {..<n}. ?R (of_nat k))"
      if "n \<le> ENTRIES" for n
      using that
    proof (induction n)
      case 0
      then show ?case using space_okD(1) [OF so] by simp
    next
      case (Suc n)
      let ?s = "fold (\<lambda>k. free_pd_entry (pd_of s p) (of_nat k)) [0..<n] s"
      have b: "(of_nat n :: u64) < 512" by (rule index_below) (use Suc.prems in simp)
      have e: "pmm_ok (free_pd_entry (pd_of s p) (of_nat n) ?s) \<and> ram (free_pd_entry (pd_of s p) (of_nat n) ?s) = ram s
         \<and> free_set (free_pd_entry (pd_of s p) (of_nat n) ?s) = free_set ?s \<union> pg ` ?R (of_nat n)"
        by (rule free_pd_entry_effect)
           (use Suc True b pt tree_wf_pt(4) [OF wf b] own_pte_frame(1) [OF ok b] in auto)
      have "(\<Union>k \<in> {..<Suc n}. ?R (of_nat k)) = (\<Union>k \<in> {..<n}. ?R (of_nat k)) \<union> ?R (of_nat n)"
        by (simp only: lessThan_Suc UN_insert Un_commute)
      then show ?case using e Suc by (simp add: image_Un Un_assoc)
    qed
    have "(\<Union>k \<in> {..<ENTRIES}. ?R (of_nat k)) = (\<Union>k \<in> {k. k < 512}. ?R k)"
      by (rule index_UN)
    note fin = fold [OF order_refl, unfolded this]
    have "is_frame (pd_of s p)" using space_okD(3) [OF so] True by (auto simp: tables_def)
    then show ?thesis using free_frame_effect [of "fold (\<lambda>k. free_pd_entry (pd_of s p) (of_nat k)) [0..<ENTRIES] s" "pd_of s p"] fin True
      by (simp add: s1_def T_def)
  next
    case False
    then show ?thesis using space_okD(1) [OF so] by (simp add: s1_def T_def)
  qed
  have pf: "is_frame p" "is_frame (pdpt_of s p)" using space_okD(3) [OF so] by (auto simp: tables_def)
  have r: "paging_free_address_space p s = pmm_free_frame p (pmm_free_frame (pdpt_of s p) s1)"
    using pf tree_wf_top(2) [OF wf]
    by (simp add: paging_free_address_space_def is_frame_def Let_def USER_PDPT_INDEX_def s1_def pdpt_of_def pdpe_def pd_of_def tbl_def)
  note f1 = free_frame_effect [OF s1 [THEN conjunct1] pf(2)]
  note f2 = free_frame_effect [OF f1(1) pf(1)]
  have uf: "user_frames B s p = {tbl (pte s p k l) |k l. k < 512 \<and> l < 512 \<and> present (pte s p k l)}"
    by (rule user_frames_tree) (use nb in blast)
  have up: "present (pte s p k l) \<Longrightarrow> present (pde s p k) \<and> present (pdpe s p)" for k l
    by (auto simp: pte_def pde_def split: if_splits)
  have un: "(\<Union>k \<in> {k. k < 512}. ?R k) = {tbl (pde s p k) |k. k < 512 \<and> present (pde s p k)} \<union> user_frames B s p"
  proof (rule set_eqI)
    fix x
    have "x \<in> (\<Union>k \<in> {k. k < 512}. ?R k) \<longleftrightarrow>
        (\<exists>k < 512. present (pde s p k) \<and> (x = tbl (pde s p k) \<or> (\<exists>l < 512. present (pte s p k l) \<and> x = tbl (pte s p k l))))"
      by auto
    also have "\<dots> \<longleftrightarrow> x \<in> {tbl (pde s p k) |k. k < 512 \<and> present (pde s p k)} \<union> user_frames B s p"
      unfolding uf using up by blast
    finally show "x \<in> (\<Union>k \<in> {k. k < 512}. ?R k) \<longleftrightarrow> x \<in> {tbl (pde s p k) |k. k < 512 \<and> present (pde s p k)} \<union> user_frames B s p" .
  qed
  have none: "\<not> present (pdpe s p) \<Longrightarrow> {tbl (pde s p k) |k. k < 512 \<and> present (pde s p k)} = {} \<and> user_frames B s p = {}"
    unfolding uf using up by (auto simp: pde_def)
  have "{p, pdpt_of s p} \<union> T = owned B s p"
    unfolding owned_def tables_def T_def un using none by (cases "present (pdpe s p)") (simp add: insert_commute, auto)
  then have "total B s p = free_set s \<union> pg ` ({p, pdpt_of s p} \<union> T)" by (simp add: total_def)
  then show ?thesis unfolding r using f1 f2 s1 by auto
qed

subsection \<open>Every range loop ends\<close>

text \<open>The bounds of a loop are multiples of the step, so the counter meets the end and cannot wrap past it.\<close>

lemma stride_induct [consumes 3, case_names stop step]:
  fixes v lim d :: u64
  assumes "v mod d = 0" and "lim mod d = 0" and "d \<noteq> 0"
    and stop: "\<And>v. \<not> v < lim \<Longrightarrow> P v" and step: "\<And>v. v < lim \<Longrightarrow> P (v + d) \<Longrightarrow> P v"
  shows "P v"
  using assms(1)
proof (induction "unat lim - unat v" arbitrary: v rule: less_induct)
  case less
  show ?case
  proof (cases "v < lim")
    case True
    have m: "unat v mod unat d = 0" "unat lim mod unat d = 0"
      using less.prems assms(2) by (simp_all add: word_unat_eq_iff unat_mod)
    obtain q r where q: "unat v = q * unat d" and r: "unat lim = r * unat d"
      using mod_zero_mult_div [OF m(1)] mod_zero_mult_div [OF m(2)] by metis
    have dp: "0 < unat d" using assms(3) by (simp add: unat_gt_0)
    have lt: "q * unat d < r * unat d" using True unfolding q [symmetric] r [symmetric] by (simp add: word_less_nat_alt)
    then have "Suc q * unat d \<le> r * unat d" using dp by (intro mult_le_mono1) simp
    then have le: "unat v + unat d \<le> unat lim" using q r by simp
    then have u: "unat (v + d) = unat v + unat d"
      using unat_u64_bound [of lim] by (intro unat_add_small) simp
    have "(v + d) mod d = 0" using m(1) by (simp add: word_unat_eq_iff unat_mod u)
    then have "P (v + d)" using le u dp by (intro less.hyps) simp_all
    then show ?thesis by (rule step [OF True])
  next
    case False
    then show ?thesis by (rule stop)
  qed
qed

lemma range_bounds_aligned: "range_start a mod 4096 = 0" "range_end a n mod 4096 = 0"
proof -
  have "is_table (x AND NOT 0xFFF)" for x :: u64
  proof -
    have m: "(0xFFF :: u64) = mask 12" by (simp add: mask_eq_exp_minus_1)
    show ?thesis unfolding m is_table_bits bit_and_iff bit_not_iff bit_mask_iff by auto
  qed
  then show "range_start a mod 4096 = 0" "range_end a n mod 4096 = 0"
    by (simp_all add: range_start_def range_end_def is_table_def [symmetric])
qed

lemma page_loops_return:
  assumes "v mod 4096 = 0" and "lim mod 4096 = 0"
  shows "\<exists>r. map_alloc_from p v lim flags s = Some r" and "\<exists>r. protect_from p v lim flags s = Some r"
    and "\<exists>r. detach_from p v lim n s = Some r" and "\<exists>r. unmap_from p v lim n s = Some r"
proof -
  have nz: "(4096 :: u64) \<noteq> 0" by simp
  have ps: "v + 4096 = v + PAGE_SIZE" for v :: u64 by (simp add: PAGE_SIZE_def)
  have "\<forall>s. \<exists>r. map_alloc_from p v lim flags s = Some r"
    using assms nz
  proof (induction v rule: stride_induct)
    case (step v)
    then show ?case by (subst map_alloc_from.simps) (auto simp: ps split: prod.splits)
  qed (auto simp: map_alloc_from.simps)
  then show "\<exists>r. map_alloc_from p v lim flags s = Some r" by blast
  have "\<forall>s. \<exists>r. protect_from p v lim flags s = Some r"
    using assms nz
  proof (induction v rule: stride_induct)
    case (step v)
    then show ?case by (subst protect_from.simps) (auto simp: ps split: prod.splits option.splits)
  qed (auto simp: protect_from.simps)
  then show "\<exists>r. protect_from p v lim flags s = Some r" by blast
  have "\<forall>s n. \<exists>r. detach_from p v lim n s = Some r"
    using assms nz
  proof (induction v rule: stride_induct)
    case (step v)
    then show ?case by (subst detach_from.simps) (auto simp: ps split: prod.splits option.splits)
  qed (auto simp: detach_from.simps)
  then show "\<exists>r. detach_from p v lim n s = Some r" by blast
  have "\<forall>s n. \<exists>r. unmap_from p v lim n s = Some r"
    using assms nz
  proof (induction v rule: stride_induct)
    case (step v)
    then show ?case by (subst unmap_from.simps) (auto simp: ps Let_def split: prod.splits option.splits)
  qed (auto simp: unmap_from.simps)
  then show "\<exists>r. unmap_from p v lim n s = Some r" by blast
qed

subsection \<open>Sequences of operations on one space\<close>

datatype page_op = MapAlloc u64 u64 u64 | Unmap u64 u64 | Protect u64 u64 u64

fun page_step :: "u64 \<Rightarrow> page_op \<Rightarrow> pmm \<Rightarrow> pmm option" where
  "page_step p (MapAlloc a n flags) s = map_option snd (paging_map_alloc p a n flags s)"
| "page_step p (Unmap a n) s = map_option snd (paging_unmap p a n s)"
| "page_step p (Protect a n flags) s = paging_protect p a n flags s"

fun page_run :: "u64 \<Rightarrow> page_op list \<Rightarrow> pmm \<Rightarrow> pmm option" where
  "page_run p [] s = Some s"
| "page_run p (x # xs) s = Option.bind (page_step p x s) (page_run p xs)"

definition in_window :: "u64 \<Rightarrow> u64 \<Rightarrow> bool" where
  "in_window a n \<longleftrightarrow> USER_VIRT_BASE \<le> a \<and> unat a + unat n \<le> 2147483648"

fun op_in_window :: "page_op \<Rightarrow> bool" where
  "op_in_window (MapAlloc a n flags) = in_window a n"
| "op_in_window (Unmap a n) = in_window a n"
| "op_in_window (Protect a n flags) = in_window a n"

lemma page_step_keeps:
  assumes "own_ok {} s p" and "op_in_window x"
  shows "\<exists>s'. page_step p x s = Some s' \<and> keeps {} p s s'"
proof (cases x)
  case (MapAlloc a n flags)
  then have "user_range (range_start a) (range_end a n)" using assms(2) user_bytes_range(1) by (simp add: in_window_def)
  from map_alloc_from_effect [OF this assms(1), of flags] show ?thesis
    by (auto simp: MapAlloc paging_map_alloc_def)
next
  case (Unmap a n)
  then have "user_range (range_start a) (range_end a n)" using assms(2) user_bytes_range(1) by (simp add: in_window_def)
  from unmap_from_effect [OF this assms(1), of 0] show ?thesis by (auto simp: Unmap paging_unmap_def)
next
  case (Protect a n flags)
  then have "user_range (range_start a) (range_end a n)" using assms(2) user_bytes_range(1) by (simp add: in_window_def)
  from protect_from_effect [OF this assms(1), of flags] show ?thesis by (auto simp: Protect paging_protect_def)
qed

lemma page_run_keeps:
  assumes "own_ok {} s p" and "\<forall>x \<in> set xs. op_in_window x"
  shows "\<exists>s'. page_run p xs s = Some s' \<and> keeps {} p s s'"
  using assms
proof (induction xs arbitrary: s)
  case (Cons x xs)
  obtain s1 where s1: "page_step p x s = Some s1" "keeps {} p s s1" using page_step_keeps Cons.prems by fastforce
  then obtain s2 where "page_run p xs s1 = Some s2" "keeps {} p s1 s2"
    using Cons.IH [of s1] Cons.prems by (auto simp: keeps_def)
  then show ?case using s1 keeps_trans by auto
qed (auto intro: keeps_refl)

definition page_demo :: pmm where
  "page_demo = mark_free_from 10 20 \<lparr>bitmap = (\<lambda>_. 0), free_frames = 0, usable_frames = 0, ram = (\<lambda>_. 7)\<rparr>"

lemma page_demo_free: "free_set page_demo = {f. 10 \<le> f \<and> f < 20}"
proof -
  have "f < 20 \<Longrightarrow> f < MAX_FRAMES" for f :: u64 by (simp add: MAX_FRAMES_def word_less_nat_alt)
  then show ?thesis by (auto simp: page_demo_def free_set_mark_free_from free_set_all_zero)
qed

lemma page_demo_ok: "pmm_ok page_demo"
proof -
  have "pmm_wf page_demo" unfolding page_demo_def
    by (intro pmm_wf_mark_free_from) (simp add: pmm_wf_def free_set_all_zero)
  then show ?thesis by (simp add: pmm_ok_def page_demo_free)
qed

lemma page_demo_boot: "boot_tables 0x1000 0x2000 page_demo"
  by (simp add: boot_tables_def is_table_def page_demo_free word_le_nat_alt)

lemma page_demo_new:
  obtains p s where "paging_new_address_space 0x1000 0x2000 page_demo = (p, s)" "p \<noteq> 0" "own_ok {} s p"
    "total {} s p = free_set page_demo" "\<And>w. user_addr w \<Longrightarrow> pte_at s p w = 0"
    "user_frames {} s p = {}" "tables s p = {p, pdpt_of s p}"
  using page_demo_ok page_demo_boot
proof (cases rule: new_space_cases [of page_demo "0x1000" "0x2000" "{}", consumes 2, case_names none full made])
  case (full s')
  have "{10, 11} \<subseteq> free_set page_demo" by (simp add: page_demo_free)
  then have "card {10, 11 :: u64} \<le> card (free_set page_demo)" by (intro card_mono) simp_all
  then show ?thesis using full(5) by simp
qed (auto intro: that)

lemma page_demo_two:
  obtains p q s where "own_ok {} s p" "own_ok {} s q" "owned {} s p \<inter> owned {} s q = {}"
proof -
  obtain p s where p: "own_ok {} s p" "total {} s p = free_set page_demo" "user_frames {} s p = {}" "tables s p = {p, pdpt_of s p}"
    by (rule page_demo_new)
  have ok: "pmm_ok s" using space_okD(1) [OF own_okD(1) [OF p(1)]] .
  have sub: "free_set s \<subseteq> free_set page_demo" using p(2) by (auto simp: total_def)
  have b: "boot_tables 0x1000 0x2000 s" using page_demo_boot sub by (auto simp: boot_tables_def)
  have big: "\<not> card (free_set s) \<le> 1"
  proof
    assume a: "card (free_set s) \<le> 1"
    have "free_set page_demo = free_set s \<union> {pg p, pg (pdpt_of s p)}" using p(2) by (simp add: total_def owned_def p(3,4))
    then have "card (free_set page_demo) \<le> card (free_set s) + card {pg p, pg (pdpt_of s p)}" by (metis card_Un_le)
    moreover have "card {pg p, pg (pdpt_of s p)} \<le> 2" by (simp add: card_insert_if)
    moreover have "card {10, 11, 12, 13 :: u64} \<le> card (free_set page_demo)"
      by (intro card_mono) (simp_all add: page_demo_free)
    ultimately show False using a by simp
  qed
  from ok b show ?thesis
  proof (cases rule: new_space_cases [of s "0x1000" "0x2000" "{}", consumes 2, case_names none full made])
    case full
    then show ?thesis using big by simp
  next
    case (made q s1)
    have free: "pg t \<notin> free_set s" if "t \<in> owned {} s p" for t
      using that own_okD(6) [OF p(1)] space_okD(5) [OF own_okD(1) [OF p(1)]] by (auto simp: owned_def)
    have "free_set s1 \<subseteq> free_set s" using made(4) by (auto simp: total_def)
    then have dis: "free_set s1 \<inter> pg ` (owned {} s p \<union> {}) = {}" using free by auto
    have ag: "ram s1 a = ram s a" if "pg a \<in> pg ` tables s p" for a
    proof -
      have "pg a \<notin> free_set s" using that free by (auto simp: owned_def)
      then show ?thesis by (rule made(8))
    qed
    have "pmm_ok s1" using space_okD(1) [OF own_okD(1) [OF made(3)]] .
    note o = own_frame [OF p(1) this dis ag]
    have "pg t \<in> free_set s" if "t \<in> owned {} s1 q" for t using that made(4) by (auto simp: total_def)
    then show ?thesis using that [OF o(1) made(3)] o(2) free by blast
  qed simp
qed

subsection \<open>Properties\<close>

text \<open>
  C3. No frame is lost and no foreign memory is touched over the life of an address space. Starting from any
  sound allocator, after \<open>paging_new_address_space\<close> succeeds every sequence of \<open>paging_map_alloc\<close>,
  \<open>paging_unmap\<close> and \<open>paging_protect\<close> calls on ranges of the user window returns, whether or not memory runs
  out on the way; it has written only to frames that were free at the start; the kernel's entries in the
  space's two top tables are still the boot tables' present entries, in the page-directory-pointer table with the
  USER bit cleared; and
  \<open>paging_free_address_space\<close> then gives back exactly the frames that were taken.
\<close>

theorem space_returns_every_frame:
  assumes "pmm_ok s" and "boot_tables p4 p3 s" and "paging_new_address_space p4 p3 s = (p, s0)" and "p \<noteq> 0"
    and "\<forall>x \<in> set xs. op_in_window x"
  shows "\<exists>s1. page_run p xs s0 = Some s1 \<and> (\<forall>a. a div 4096 \<notin> free_set s \<longrightarrow> ram s1 a = ram s a)
    \<and> kernel_half p4 p3 s p s1
    \<and> pmm_ok (paging_free_address_space p s1) \<and> free_set (paging_free_address_space p s1) = free_set s"
  using assms(1,2)
proof (cases rule: new_space_cases [of s p4 p3 "{}", consumes 2, case_names none full made])
  case (made q t)
  then have m: "q = p" "t = s0" using assms(3) by auto
  note made = made [unfolded m]
  obtain s1 where s1: "page_run p xs s0 = Some s1" "keeps {} p s0 s1" using page_run_keeps [OF made(3) assms(5)] by blast
  have r: "ram s1 a = ram s a" if "pg a \<notin> free_set s" for a
    using s1(2) made(4) made(8) [OF that] that by (simp add: keeps_def)
  have "kernel_half p4 p3 s p s1"
    using made(6) s1(2) unfolding kernel_half_def kern_same_def keeps_def by auto
  moreover have "own_ok {} s1 p" "total {} s1 p = free_set s" using s1(2) made(4) by (auto simp: keeps_def)
  ultimately show ?thesis using s1(1) r free_space_effect [of "{}" s1 p] by auto
qed (use assms in auto)

theorem space_returns_every_frame_witness:
  "\<exists>p s0 s1. paging_new_address_space 0x1000 0x2000 page_demo = (p, s0)
     \<and> page_run p [MapAlloc 0x40001000 8192 PAGE_USER, Unmap 0x40001000 4096] s0 = Some s1
     \<and> free_set (paging_free_address_space p s1) = {f. 10 \<le> f \<and> f < 20}"
proof -
  obtain p s0 where n: "paging_new_address_space 0x1000 0x2000 page_demo = (p, s0)" "p \<noteq> 0" using page_demo_new by metis
  have w: "\<forall>x \<in> set [MapAlloc 0x40001000 8192 PAGE_USER, Unmap 0x40001000 4096]. op_in_window x"
    by (simp add: in_window_def USER_VIRT_BASE_def word_le_nat_alt)
  show ?thesis using space_returns_every_frame [OF page_demo_ok page_demo_boot n w] n page_demo_free by auto
qed

text \<open>
  C24. \<open>paging_map_alloc\<close> is exact on every range of the user window. It returns; success means every page of the
  range is now mapped, a page that was missing before maps its own frame taken from the free set, with exactly the
  flags asked for and every byte zero, and translates to that frame; pages mapped before and pages outside the
  range keep their entries whether it succeeds or not; and it fails only when the allocator is down to its last frame.
\<close>

theorem map_alloc_exact:
  assumes "own_ok B s p" and "in_window a n"
  shows "\<exists>ok s'. paging_map_alloc p a n flags s = Some (ok, s') \<and> own_ok B s' p
     \<and> (\<forall>w. user_addr w \<longrightarrow> present (pte_at s p w) \<or> \<not> (range_start a \<le> w \<and> w < range_end a n) \<longrightarrow> pte_at s' p w = pte_at s p w)
     \<and> (ok \<longrightarrow> (\<forall>w. user_addr w \<longrightarrow> range_start a \<le> w \<and> w < range_end a n \<longrightarrow> \<not> present (pte_at s p w) \<longrightarrow>
          (\<exists>t. t div 4096 \<in> free_set s \<and> pte_at s' p w = leaf t flags
             \<and> fst (paging_translate p w s') = t + (w AND 0xFFF) \<and> (\<forall>x. x div 4096 = t div 4096 \<longrightarrow> ram s' x = 0))))
     \<and> (\<not> ok \<longrightarrow> card (free_set s') \<le> 1)"
proof -
  have u: "user_range (range_start a) (range_end a n)" using assms(2) user_bytes_range(1) by (simp add: in_window_def)
  obtain ok s' where r: "paging_map_alloc p a n flags s = Some (ok, s')" "own_ok B s' p"
    and same: "\<forall>w. user_addr w \<longrightarrow> present (pte_at s p w) \<or> \<not> (range_start a \<le> w \<and> w < range_end a n) \<longrightarrow> pte_at s' p w = pte_at s p w"
    and new: "ok \<longrightarrow> (\<forall>w. user_addr w \<longrightarrow> range_start a \<le> w \<and> w < range_end a n \<longrightarrow> \<not> present (pte_at s p w) \<longrightarrow>
          (\<exists>t. is_frame t \<and> pg t \<in> free_set s \<and> pte_at s' p w = leaf t flags \<and> (\<forall>a. pg a = pg t \<longrightarrow> ram s' a = 0)))"
    and no: "\<not> ok \<longrightarrow> card (free_set s') \<le> 1"
    using map_alloc_from_effect [OF u assms(1), of flags] unfolding paging_map_alloc_def keeps_def by blast
  have "fst (paging_translate p w s') = t + (w AND 0xFFF)" if "user_addr w" "is_frame t" "pte_at s' p w = leaf t flags" for w t
    using paging_translate_eq [OF own_okD(1) [OF r(2)] that(1)] that tbl_leaf [OF that(2)] by simp
  then show ?thesis using r same new no by blast
qed

theorem map_alloc_exact_witness:
  "\<exists>p s ok s'. paging_map_alloc p 0x40001000 4096 PAGE_USER s = Some (ok, s') \<and> own_ok {} s' p \<and> pte_at s' p 0x40003000 = 0"
proof -
  obtain p s where n: "own_ok {} s p" "\<And>w. user_addr w \<Longrightarrow> pte_at s p w = 0" using page_demo_new by metis
  have w: "in_window 0x40001000 4096" by (simp add: in_window_def USER_VIRT_BASE_def word_le_nat_alt)
  have v: "user_addr 0x40003000" by (simp add: user_addr_def USER_VIRT_BASE_def USER_VIRT_END_def word_le_nat_alt word_less_nat_alt)
  have "\<not> (range_start 0x40001000 \<le> 0x40003000 \<and> 0x40003000 < range_end 0x40001000 4096)"
    using user_bytes_range(2) [of "0x40001000" 4096 "0x40003000"] by (simp add: USER_VIRT_BASE_def word_le_nat_alt)
  then show ?thesis using map_alloc_exact [OF n(1) w, of PAGE_USER] v n(2) [OF v] by metis
qed

text \<open>
  \<open>paging_unmap\<close> removes exactly the pages of its range: it reports how many were mapped, afterwards every
  address of the range translates to 0 and every other user address translates as before, and the frames of
  exactly those pages join the free set, while the page tables stay.
\<close>

theorem unmap_exact:
  assumes "own_ok {} s p" and "in_window a n"
  shows "\<exists>s'. paging_unmap p a n s = Some (int (card (mapped_pages s p (range_start a) (range_end a n))), s')
     \<and> own_ok {} s' p \<and> tables s' p = tables s p
     \<and> free_set s' = free_set s \<union> (\<lambda>w. tbl (pte_at s p w) div 4096) ` mapped_pages s p (range_start a) (range_end a n)
     \<and> (\<forall>w. user_addr w \<longrightarrow> fst (paging_translate p w s') =
          (if range_start a \<le> w \<and> w < range_end a n then 0 else fst (paging_translate p w s)))"
proof -
  have u: "user_range (range_start a) (range_end a n)" using assms(2) user_bytes_range(1) by (simp add: in_window_def)
  obtain s' where r: "paging_unmap p a n s = Some (int (card (mapped_pages s p (range_start a) (range_end a n))), s')"
    "own_ok {} s' p" "tables s' p = tables s p"
    "free_set s' = free_set s \<union> (\<lambda>w. pg (tbl (pte_at s p w))) ` mapped_pages s p (range_start a) (range_end a n)"
    and e: "\<And>w. user_addr w \<Longrightarrow> pte_at s' p w =
          (if range_start a \<le> w \<and> w < range_end a n \<and> present (pte_at s p w) then 0 else pte_at s p w)"
    using unmap_from_effect [OF u assms(1), of 0] by (auto simp: paging_unmap_def keeps_def)
  have "fst (paging_translate p w s') = (if range_start a \<le> w \<and> w < range_end a n then 0 else fst (paging_translate p w s))"
    if "user_addr w" for w
    using paging_translate_eq [OF own_okD(1) [OF r(2)] that] paging_translate_eq [OF own_okD(1) [OF assms(1)] that] e [OF that]
    by auto
  then show ?thesis using r by blast
qed

theorem unmap_exact_witness:
  "\<exists>p s s'. paging_unmap p 0x40000000 8192 s = Some (0, s') \<and> tables s' p = tables s p \<and> fst (paging_translate p 0x40001234 s') = 0"
proof -
  obtain p s where n: "own_ok {} s p" "\<And>w. user_addr w \<Longrightarrow> pte_at s p w = 0" using page_demo_new by metis
  have w: "in_window 0x40000000 8192" by (simp add: in_window_def USER_VIRT_BASE_def)
  have v: "user_addr 0x40001234" by (simp add: user_addr_def USER_VIRT_BASE_def USER_VIRT_END_def word_le_nat_alt word_less_nat_alt)
  have i: "range_start 0x40000000 \<le> 0x40001234 \<and> 0x40001234 < range_end 0x40000000 8192"
    using user_bytes_range(2) [of "0x40000000" 8192 "0x40001234"] by (simp add: USER_VIRT_BASE_def)
  have "mapped_pages s p (range_start 0x40000000) (range_end 0x40000000 8192) = {}"
  proof -
    have "user_range (range_start 0x40000000) (range_end 0x40000000 8192)"
      using user_bytes_range(1) [of "0x40000000" 8192] by (simp add: USER_VIRT_BASE_def)
    then have "user_addr x" if "range_start 0x40000000 \<le> x" "x < range_end 0x40000000 8192" for x
      using that by (auto simp: user_addr_def user_range_def)
    then show ?thesis using n(2) by (auto simp: mapped_pages_def)
  qed
  then obtain s' where "paging_unmap p 0x40000000 8192 s = Some (0, s')" "tables s' p = tables s p"
      "fst (paging_translate p 0x40001234 s') = 0"
    using unmap_exact [OF n(1) w] v i by auto
  then show ?thesis by blast
qed

text \<open>
  C2. One process cannot disturb another. When two address spaces own disjoint frames, every sequence of
  map, unmap and protect calls on the first leaves the second as it was: every user address of it translates to
  the same physical address, every byte of the frames it owns is unchanged, and the two still own disjoint frames.
\<close>

theorem spaces_isolated:
  assumes "own_ok {} s p" and "own_ok {} s q" and "owned {} s p \<inter> owned {} s q = {}"
    and "\<forall>x \<in> set xs. op_in_window x"
  shows "\<exists>s'. page_run p xs s = Some s' \<and> own_ok {} s' p \<and> own_ok {} s' q \<and> owned {} s' p \<inter> owned {} s' q = {}
     \<and> (\<forall>w. user_addr w \<longrightarrow> paging_translate q w s' = (fst (paging_translate q w s), s'))
     \<and> (\<forall>a. a div 4096 \<in> (\<lambda>t. t div 4096) ` owned {} s q \<longrightarrow> ram s' a = ram s a)"
proof -
  obtain s' where s': "page_run p xs s = Some s'" "keeps {} p s s'" using page_run_keeps [OF assms(1,4)] by blast
  have o: "own_ok {} s' p" "total {} s' p = total {} s p" and r: "\<And>a. pg a \<notin> total {} s p \<Longrightarrow> ram s' a = ram s a"
    using s'(2) by (auto simp: keeps_def)
  have frame: "is_frame t" if "t \<in> owned {} x y" "own_ok {} x y" for t x y
    using that own_okD(5) [OF that(2)] space_okD(3) [OF own_okD(1) [OF that(2)]] by (auto simp: owned_def)
  have free: "pg t \<notin> free_set x" if "t \<in> owned {} x y" "own_ok {} x y" for t x y
    using that own_okD(6) [OF that(2)] space_okD(5) [OF own_okD(1) [OF that(2)]] by (auto simp: owned_def)
  have far: "pg t \<notin> total {} s p" if t: "t \<in> owned {} s q" for t
  proof
    assume "pg t \<in> total {} s p"
    then obtain u where u: "u \<in> owned {} s p" "pg t = pg u" using free [OF t assms(2)] by (auto simp: total_def)
    then have "t = u" using pg_inj [of t u] frame [OF t assms(2)] frame [OF u(1) assms(1)] by (simp add: is_frame_def)
    then show False using t u assms(3) by blast
  qed
  have agree: "ram s' a = ram s a" if "pg a \<in> pg ` owned {} s q" for a using that far r by auto
  have "free_set s' \<subseteq> total {} s p" unfolding o(2) [symmetric] by (simp add: total_def)
  then have dis: "free_set s' \<inter> pg ` (owned {} s q \<union> {}) = {}" using far by auto
  have "pmm_ok s'" using space_okD(1) [OF own_okD(1) [OF o(1)]] .
  note f = own_frame [OF assms(2) this dis]
  have q: "own_ok {} s' q" "owned {} s' q = owned {} s q" "\<And>w. user_addr w \<Longrightarrow> pte_at s' q w = pte_at s q w"
    using f agree by (auto simp: owned_def)
  have "t \<notin> owned {} s' p" if "t \<in> owned {} s q" for t using far [OF that] unfolding o(2) [symmetric] by (auto simp: total_def)
  then have "owned {} s' p \<inter> owned {} s' q = {}" using q(2) by auto
  moreover have "paging_translate q w s' = (fst (paging_translate q w s), s')" if "user_addr w" for w
    using paging_translate_eq [OF own_okD(1) [OF q(1)] that] paging_translate_eq [OF own_okD(1) [OF assms(2)] that] q(3) [OF that]
    by simp
  ultimately show ?thesis using s'(1) o(1) q(1) agree by auto
qed

theorem spaces_isolated_witness:
  "\<exists>p q s s'. p \<noteq> q \<and> own_ok {} s p \<and> own_ok {} s q
     \<and> page_run p [MapAlloc 0x40000000 4096 PAGE_WRITE] s = Some s' \<and> own_ok {} s' q"
proof -
  obtain p q s where s: "own_ok {} s p" "own_ok {} s q" "owned {} s p \<inter> owned {} s q = {}" by (rule page_demo_two)
  have w: "\<forall>x \<in> set [MapAlloc 0x40000000 4096 PAGE_WRITE]. op_in_window x" by (simp add: in_window_def USER_VIRT_BASE_def)
  have "p \<noteq> q" using s(3) by (auto simp: owned_def tables_def)
  then show ?thesis using spaces_isolated [OF s w] s(1,2) by blast
qed

text \<open>
  C25. Every loop over a range ends. For every state, every address and every length, wrapping sums included,
  \<open>paging_map_alloc\<close>, \<open>paging_protect\<close>, \<open>paging_detach\<close>, \<open>paging_unmap\<close> and \<open>paging_map_mmio\<close> return.
\<close>

theorem paging_ranges_return:
  "(\<exists>r. paging_map_alloc p a n flags s = Some r) \<and> (\<exists>r. paging_protect p a n flags s = Some r)
   \<and> (\<exists>r. paging_detach p a n s = Some r) \<and> (\<exists>r. paging_unmap p a n s = Some r) \<and> (\<exists>r. paging_map_mmio p a n s = Some r)"
proof -
  have "\<exists>r. paging_map_mmio p a n s = Some r"
  proof -
    have al: "(x AND NOT 0x3FFFFFFF) mod 0x40000000 = (0 :: u64)" for x :: u64
    proof -
      have m: "(0x3FFFFFFF :: u64) = mask 30" by (simp add: mask_eq_exp_minus_1)
      have "take_bit 30 (x AND NOT (mask 30)) = 0" by (rule bit_word_eqI) (simp add: bit_take_bit_iff bit_and_iff bit_not_iff bit_mask_iff)
      then show ?thesis unfolding m by (simp add: take_bit_eq_mod)
    qed
    have nz: "(0x40000000 :: u64) \<noteq> 0" by simp
    have "\<forall>s. \<exists>r. map_mmio_from p v lim s = Some r" if "v mod 0x40000000 = 0" "lim mod 0x40000000 = 0" for v lim
      using that nz
    proof (induction v rule: stride_induct)
      case (step v)
      then show ?case by (subst map_mmio_from.simps) (auto simp: Let_def split: prod.splits)
    qed (auto simp: map_mmio_from.simps)
    then show ?thesis using al by (simp add: paging_map_mmio_def)
  qed
  then show ?thesis
    using page_loops_return [OF range_bounds_aligned]
    by (simp add: paging_map_alloc_def paging_protect_def paging_detach_def paging_unmap_def)
qed

end
