(* ===== verification/Vmm.thy ===== *)
theory Vmm
  imports Heap Address_Space
begin

text \<open>
  What a process may do with its memory: \<^verbatim>\<open>kernel/mm/vmm.c\<close>, the shared segments of
  \<^verbatim>\<open>kernel/kernel/shm.c\<close> it is entangled with, and the heap break of
  \<^verbatim>\<open>process_sbrk\<close>. An \<^verbatim>\<open>addr_space_t\<close> lives in the kernel heap and is found by its address in the typed
  store \<open>spaces\<close>, as the block headers of the heap are; the array of frame addresses of a segment is found the same
  way in \<open>arrays\<close>. The heap's own state carries the frame allocator and physical memory. \<open>cur\<close> is what
  \<^verbatim>\<open>process_current()\<close> answers, with the two fields of the process these files read. Telling other processors to
  drop their cached translations (\<^verbatim>\<open>shootdown_if_shared\<close>, \<^verbatim>\<open>invlpg\<close>) changes no state modelled here.
  \<open>None\<close> is a call that does not return, which only the kernel heap's corruption halt can cause.
\<close>

subsection \<open>State\<close>

definition VM_PAGE :: u64 where "VM_PAGE = 4096"
definition USER_HEAP_BASE :: u64 where "USER_HEAP_BASE = USER_VIRT_BASE + 0x10000000"
definition USER_STACK_TOP :: u64 where "USER_STACK_TOP = USER_VIRT_END"
definition USER_STACK_SIZE :: u64 where "USER_STACK_SIZE = 0x00800000"
definition USER_STACK_BASE :: u64 where "USER_STACK_BASE = USER_STACK_TOP - USER_STACK_SIZE"
definition USER_GUARD_SIZE :: u64 where "USER_GUARD_SIZE = 0x00001000"
definition USER_MMAP_TOP :: u64 where "USER_MMAP_TOP = USER_STACK_BASE - USER_GUARD_SIZE"
definition VM_READ :: u32 where "VM_READ = 1"
definition VM_WRITE :: u32 where "VM_WRITE = 2"
definition VM_EXEC :: u32 where "VM_EXEC = 4"
definition VM_REGIONS_MAX :: nat where "VM_REGIONS_MAX = 64"
definition PF_PRESENT :: u64 where "PF_PRESENT = 0x1"
definition PF_WRITE :: u64 where "PF_WRITE = 0x2"
definition PF_FETCH :: u64 where "PF_FETCH = 0x10"
definition NSIG :: nat where "NSIG = 32"

lemmas vmm_consts = VM_PAGE_def USER_HEAP_BASE_def USER_STACK_TOP_def USER_STACK_SIZE_def USER_STACK_BASE_def
  USER_GUARD_SIZE_def USER_MMAP_TOP_def USER_VIRT_BASE_def USER_VIRT_END_def

record vm_region =
  rbase :: u64
  rlen :: u64
  rprot :: u32
  rshm :: u32

record addr_space =
  pml4 :: u64
  brk :: u64
  vm :: "vm_region list"
  refs :: int
  sig_handler :: "u64 list"
  sig_tramp :: u64

record shm_seg =
  used :: bool
  sid :: int
  skey :: int
  removed :: bool
  npages :: u32
  frames :: u64
  maps :: int

record vproc =
  p_as :: u64
  p_pml4 :: u64

record vmw =
  cur :: "vproc option"
  spaces :: "u64 \<Rightarrow> addr_space"
  kheap :: heap
  segs :: "shm_seg list"
  next_id :: int
  arrays :: "u64 \<Rightarrow> u64 list"

definition mem :: "vmw \<Rightarrow> pmm" where
  "mem w = hframes (kheap w)"

definition set_mem :: "pmm \<Rightarrow> vmw \<Rightarrow> vmw" where
  "set_mem m w = w\<lparr>kheap := (kheap w)\<lparr>hframes := m\<rparr>\<rparr>"

definition set_space :: "u64 \<Rightarrow> addr_space \<Rightarrow> vmw \<Rightarrow> vmw" where
  "set_space a x w = w\<lparr>spaces := (spaces w)(a := x)\<rparr>"

definition cur_as :: "vmw \<Rightarrow> (u64 \<times> u64 \<times> addr_space) option" where
  "cur_as w =
     (case cur w of
        None \<Rightarrow> None
      | Some p \<Rightarrow> if p_as p = 0 then None else Some (p_as p, p_pml4 p, spaces w (p_as p)))"

fun first_idx :: "('a \<Rightarrow> bool) \<Rightarrow> 'a list \<Rightarrow> nat option" where
  "first_idx P [] = None"
| "first_idx P (x # xs) = (if P x then Some 0 else map_option Suc (first_idx P xs))"

subsection \<open>Checking user addresses\<close>

definition vmm_user_range_ok :: "u64 \<Rightarrow> u64 \<Rightarrow> bool" where
  "vmm_user_range_ok addr len =
     (if addr < USER_VIRT_BASE then False
      else if addr \<ge> USER_VIRT_END then False
      else if len > USER_VIRT_END - addr then False
      else True)"

definition flags_of :: "u32 \<Rightarrow> u64" where
  "flags_of prot =
     (let f = PAGE_PRESENT OR PAGE_USER;
          f1 = (if prot AND VM_WRITE \<noteq> 0 then f OR PAGE_WRITE else f)
      in if prot AND VM_EXEC = 0 then f1 OR PAGE_NX else f1)"

definition vmm_page_flags :: "u32 \<Rightarrow> u64" where
  "vmm_page_flags prot = flags_of prot"

subsection \<open>The list of mappings\<close>

definition region_at :: "addr_space \<Rightarrow> u64 \<Rightarrow> nat option" where
  "region_at a addr = first_idx (\<lambda>r. rbase r \<noteq> 0 \<and> addr \<ge> rbase r \<and> addr < rbase r + rlen r) (vm a)"

definition region_exact :: "addr_space \<Rightarrow> u64 \<Rightarrow> u64 \<Rightarrow> nat option" where
  "region_exact a addr len = first_idx (\<lambda>r. rbase r = addr \<and> rlen r = len) (vm a)"

definition lower :: "vm_region \<Rightarrow> u64 \<Rightarrow> u64" where
  "lower r low = (if rbase r \<noteq> 0 \<and> rbase r < low then rbase r else low)"

definition vmm_mmap_floor :: "vmw \<Rightarrow> u64" where
  "vmm_mmap_floor w =
     (case cur_as w of
        None \<Rightarrow> USER_MMAP_TOP
      | Some (_, _, a) \<Rightarrow> fold lower (vm a) USER_MMAP_TOP)"

definition hits :: "u64 \<Rightarrow> u64 \<Rightarrow> vm_region \<Rightarrow> bool" where
  "hits cand len r \<longleftrightarrow> rbase r \<noteq> 0 \<and> cand < rbase r + rlen r \<and> rbase r < cand + len"

fun place_from :: "nat \<Rightarrow> u64 \<Rightarrow> addr_space \<Rightarrow> u64 \<Rightarrow> u64" where
  "place_from 0 hi a len = 0"
| "place_from (Suc guard) hi a len =
     (if hi < len then 0
      else let cand = (hi - len) AND NOT (VM_PAGE - 1) in
        if cand < brk a + VM_PAGE then 0
        else case first_idx (hits cand len) (vm a) of
               None \<Rightarrow> cand
             | Some i \<Rightarrow> place_from guard (rbase (vm a ! i)) a len)"

definition place :: "addr_space \<Rightarrow> u64 \<Rightarrow> u64" where
  "place a len = place_from (VM_REGIONS_MAX + 1) USER_MMAP_TOP a len"

definition round_len :: "u64 \<Rightarrow> u64" where
  "round_len len = (len + VM_PAGE - 1) AND NOT (VM_PAGE - 1)"

definition vmm_reserve :: "u64 \<Rightarrow> u32 \<Rightarrow> int \<Rightarrow> vmw \<Rightarrow> u64 \<times> vmw" where
  "vmm_reserve len0 prot shm_id w =
     (case cur_as w of
        None \<Rightarrow> (0, w)
      | Some (ap, _, a) \<Rightarrow>
          if len0 = 0 then (0, w)
          else let len = round_len len0 in
            case first_idx (\<lambda>r. rbase r = 0) (vm a) of
              None \<Rightarrow> (0, w)
            | Some i \<Rightarrow>
                let at = place a len in
                if at = 0 then (0, w)
                else (at, set_space ap (a\<lparr>vm := (vm a)[i := \<lparr>rbase = at, rlen = len, rprot = prot,
                            rshm = (if shm_id \<ge> 0 then word_of_int (shm_id + 1) else 0)\<rparr>]\<rparr>) w))"

definition vmm_release :: "u64 \<Rightarrow> vmw \<Rightarrow> vmw" where
  "vmm_release addr w =
     (case cur_as w of
        None \<Rightarrow> w
      | Some (ap, _, a) \<Rightarrow>
          (case first_idx (\<lambda>r. rbase r = addr) (vm a) of
             None \<Rightarrow> w
           | Some i \<Rightarrow> set_space ap (a\<lparr>vm := (vm a)[i := (vm a ! i)\<lparr>rbase := 0, rlen := 0, rshm := 0\<rparr>]\<rparr>) w))"

definition vmm_mmap :: "u64 \<Rightarrow> u32 \<Rightarrow> vmw \<Rightarrow> u64 \<times> vmw" where
  "vmm_mmap len prot w = vmm_reserve len prot (- 1) w"

subsection \<open>Shared segments\<close>

definition SHM_SEGMENTS :: nat where "SHM_SEGMENTS = 16"
definition SHM_MAX_PAGES :: u64 where "SHM_MAX_PAGES = 4096"
definition IPC_PRIVATE :: int where "IPC_PRIVATE = 0"
definition IPC_CREAT :: u32 where "IPC_CREAT = 512"
definition IPC_EXCL :: u32 where "IPC_EXCL = 1024"
definition IPC_RMID :: int where "IPC_RMID = 0"
definition SHM_RDONLY :: u32 where "SHM_RDONLY = 4096"

definition by_id :: "int \<Rightarrow> vmw \<Rightarrow> nat option" where
  "by_id i w = (if i \<le> 0 then None else first_idx (\<lambda>s. used s \<and> sid s = i) (segs w))"

definition by_key :: "int \<Rightarrow> vmw \<Rightarrow> nat option" where
  "by_key k w =
     (if k = IPC_PRIVATE then None else first_idx (\<lambda>s. used s \<and> \<not> removed s \<and> skey s = k) (segs w))"

definition free_frame_at :: "u64 \<Rightarrow> pmm \<Rightarrow> pmm" where
  "free_frame_at f m = (if f \<noteq> 0 then pmm_free_frame f m else m)"

definition set_seg :: "nat \<Rightarrow> shm_seg \<Rightarrow> vmw \<Rightarrow> vmw" where
  "set_seg i s w = w\<lparr>segs := (segs w)[i := s]\<rparr>"

definition seg_free :: "nat \<Rightarrow> vmw \<Rightarrow> vmw option" where
  "seg_free i w =
     (let s = segs w ! i;
          w1 = set_mem (fold free_frame_at (take (unat (npages s)) (arrays w (frames s))) (mem w)) w
      in Option.bind (kfree (frames s) (kheap w1)) (\<lambda>h.
           Some (set_seg i (s\<lparr>frames := 0, npages := 0, used := False, sid := 0, skey := 0, removed := False\<rparr>)
                   (w1\<lparr>kheap := h\<rparr>))))"

fun shm_fill :: "nat \<Rightarrow> u64 list \<Rightarrow> pmm \<Rightarrow> u64 list option \<times> pmm" where
  "shm_fill 0 got m = (Some got, m)"
| "shm_fill (Suc n) got m =
     (case pmm_alloc_frame m of
        (f, m1) \<Rightarrow>
          if f = 0 then (None, fold pmm_free_frame got m1)
          else shm_fill n (got @ [f]) (zero_page f m1))"

definition shm_get :: "int \<Rightarrow> u64 \<Rightarrow> u32 \<Rightarrow> vmw \<Rightarrow> (int \<times> vmw) option" where
  "shm_get key sz flags w =
     (case by_key key w of
        Some i \<Rightarrow>
          if flags AND IPC_CREAT \<noteq> 0 \<and> flags AND IPC_EXCL \<noteq> 0 then Some (- 1, w)
          else if sz > ucast (npages (segs w ! i)) * VM_PAGE then Some (- 1, w)
          else Some (sid (segs w ! i), w)
      | None \<Rightarrow>
          if key \<noteq> IPC_PRIVATE \<and> flags AND IPC_CREAT = 0 then Some (- 1, w)
          else if sz = 0 then Some (- 1, w)
          else let n = (sz + VM_PAGE - 1) div VM_PAGE in
            if n > SHM_MAX_PAGES then Some (- 1, w)
            else case first_idx (\<lambda>s. \<not> used s) (segs w) of
              None \<Rightarrow> Some (- 1, w)
            | Some i \<Rightarrow>
                Option.bind (kmalloc_ret (n * 8) (kheap w)) (\<lambda>(arr, h).
                  let w1 = w\<lparr>kheap := h\<rparr> in
                  if arr = 0 then Some (- 1, set_seg i ((segs w ! i)\<lparr>frames := 0\<rparr>) w1)
                  else case shm_fill (unat n) [] (mem w1) of
                    (None, m) \<Rightarrow>
                      Option.bind (kfree arr (kheap (set_mem m w1))) (\<lambda>h2.
                        Some (- 1, set_seg i ((segs w ! i)\<lparr>frames := 0\<rparr>) (w1\<lparr>kheap := h2\<rparr>)))
                  | (Some fs, m) \<Rightarrow>
                      Some (next_id w,
                        set_seg i \<lparr>used = True, sid = next_id w, skey = key, removed = False,
                                   npages = ucast n, frames = arr, maps = 0\<rparr>
                          ((set_mem m w1)\<lparr>next_id := next_id w + 1, arrays := (arrays w)(arr := fs)\<rparr>))))"

definition shm_size :: "int \<Rightarrow> vmw \<Rightarrow> u64" where
  "shm_size i w = (case by_id i w of None \<Rightarrow> 0 | Some k \<Rightarrow> ucast (npages (segs w ! k)) * VM_PAGE)"

definition shm_ctl :: "int \<Rightarrow> int \<Rightarrow> vmw \<Rightarrow> (int \<times> vmw) option" where
  "shm_ctl i cmd w =
     (case by_id i w of
        None \<Rightarrow> Some (- 1, w)
      | Some k \<Rightarrow>
          if cmd \<noteq> IPC_RMID then Some (- 1, w)
          else let w1 = set_seg k ((segs w ! k)\<lparr>removed := True, skey := 0\<rparr>) w in
            if maps (segs w1 ! k) = 0 then map_option (\<lambda>w2. (0, w2)) (seg_free k w1)
            else Some (0, w1))"

definition shm_dropped :: "int \<Rightarrow> vmw \<Rightarrow> vmw option" where
  "shm_dropped i w =
     (case by_id i w of
        None \<Rightarrow> Some w
      | Some k \<Rightarrow>
          let s = segs w ! k;
              s1 = (if maps s > 0 then s\<lparr>maps := maps s - 1\<rparr> else s);
              w1 = set_seg k s1 w
          in if maps s1 = 0 \<and> removed s1 then seg_free k w1 else Some w1)"

subsection \<open>Letting mappings go\<close>

definition vmm_munmap_shared :: "u64 \<Rightarrow> vmw \<Rightarrow> (int \<times> vmw) option" where
  "vmm_munmap_shared addr w =
     (case cur_as w of
        None \<Rightarrow> Some (- 1, w)
      | Some (ap, pm, a) \<Rightarrow>
          (case first_idx (\<lambda>r. rbase r = addr \<and> rshm r \<noteq> 0) (vm a) of
             None \<Rightarrow> Some (- 1, w)
           | Some i \<Rightarrow>
               let r = vm a ! i in
               Option.bind (paging_detach pm (rbase r) (rlen r) (mem w)) (\<lambda>(_, m).
                 let w1 = set_space ap (a\<lparr>vm := (vm a)[i := r\<lparr>rbase := 0, rlen := 0, rshm := 0\<rparr>]\<rparr>) (set_mem m w)
                 in map_option (\<lambda>w2. (0, w2)) (shm_dropped (sint (rshm r) - 1) w1))))"

definition vmm_munmap :: "u64 \<Rightarrow> u64 \<Rightarrow> vmw \<Rightarrow> (int \<times> vmw) option" where
  "vmm_munmap addr len0 w =
     (case cur_as w of
        None \<Rightarrow> Some (- 1, w)
      | Some (ap, pm, a) \<Rightarrow>
          let len = round_len len0 in
          (case region_exact a addr len of
             None \<Rightarrow> Some (- 1, w)
           | Some i \<Rightarrow>
               let r = vm a ! i in
               if rshm r \<noteq> 0 then vmm_munmap_shared addr w
               else Option.bind (paging_unmap pm (rbase r) (rlen r) (mem w)) (\<lambda>(_, m).
                 Some (0, set_space ap (a\<lparr>vm := (vm a)[i := r\<lparr>rbase := 0, rlen := 0\<rparr>]\<rparr>) (set_mem m w)))))"

definition vmm_mprotect :: "u64 \<Rightarrow> u64 \<Rightarrow> u32 \<Rightarrow> vmw \<Rightarrow> (int \<times> vmw) option" where
  "vmm_mprotect addr len0 prot w =
     (case cur_as w of
        None \<Rightarrow> Some (- 1, w)
      | Some (ap, pm, a) \<Rightarrow>
          (case region_exact a addr (round_len len0) of
             None \<Rightarrow> Some (- 1, w)
           | Some i \<Rightarrow>
               let r = (vm a ! i)\<lparr>rprot := prot\<rparr>;
                   w1 = set_space ap (a\<lparr>vm := (vm a)[i := r]\<rparr>) w
               in map_option (\<lambda>m. (0, set_mem m w1)) (paging_protect pm (rbase r) (rlen r) (flags_of prot) (mem w1))))"

subsection \<open>Attaching shared memory\<close>

fun attach_pages :: "u64 \<Rightarrow> u64 \<Rightarrow> u64 \<Rightarrow> nat \<Rightarrow> u64 list \<Rightarrow> pmm \<Rightarrow> nat option \<times> pmm" where
  "attach_pages pm at flags i [] m = (None, m)"
| "attach_pages pm at flags i (f # fs) m =
     (case paging_map pm (at + of_nat i * VM_PAGE) f flags m of
        (ok, m1) \<Rightarrow> if \<not> ok then (Some i, m1) else attach_pages pm at flags (Suc i) fs m1)"

definition shm_attach :: "int \<Rightarrow> u32 \<Rightarrow> vmw \<Rightarrow> (u64 \<times> vmw) option" where
  "shm_attach i flags w =
     (case (cur_as w, by_id i w) of
        (Some (ap, pm, a), Some k) \<Rightarrow>
          let s = segs w ! k in
          if removed s then Some (0, w)
          else let prot = VM_READ OR (if flags AND SHM_RDONLY \<noteq> 0 then 0 else VM_WRITE);
                   len = ucast (npages s) * VM_PAGE
               in (case vmm_reserve len prot i w of
                     (at, w1) \<Rightarrow>
                       if at = 0 then Some (0, w1)
                       else (case attach_pages pm at (vmm_page_flags prot) 0
                                    (take (unat (npages s)) (arrays w (frames s))) (mem w1) of
                               (None, m) \<Rightarrow> Some (at, set_seg k (s\<lparr>maps := maps s + 1\<rparr>) (set_mem m w1))
                             | (Some j, m) \<Rightarrow>
                                 map_option (\<lambda>(_, m2). (0, vmm_release at (set_mem m2 w1)))
                                   (paging_detach pm at (of_nat j * VM_PAGE) m)))
      | _ \<Rightarrow> Some (0, w))"

definition shm_detach :: "u64 \<Rightarrow> vmw \<Rightarrow> (int \<times> vmw) option" where
  "shm_detach addr w = vmm_munmap_shared addr w"

subsection \<open>Pages that appear when they are touched\<close>

definition fault_flags :: "addr_space \<Rightarrow> u64 \<Rightarrow> u64 \<Rightarrow> u64 option" where
  "fault_flags a page err =
     (if page \<ge> USER_STACK_BASE \<and> page < USER_STACK_TOP
      then Some (PAGE_PRESENT OR PAGE_USER OR PAGE_WRITE OR PAGE_NX)
      else if page \<ge> USER_HEAP_BASE \<and> page < brk a then Some (PAGE_PRESENT OR PAGE_USER OR PAGE_WRITE)
      else case region_at a page of
             None \<Rightarrow> None
           | Some i \<Rightarrow>
               let r = vm a ! i in
               if rshm r \<noteq> 0 then None
               else if err AND PF_WRITE \<noteq> 0 \<and> rprot r AND VM_WRITE = 0 then None
               else if err AND PF_FETCH \<noteq> 0 \<and> rprot r AND VM_EXEC = 0 then None
               else Some (flags_of (rprot r)))"

definition vmm_fault :: "u64 \<Rightarrow> u64 \<Rightarrow> vmw \<Rightarrow> bool \<times> vmw" where
  "vmm_fault addr err w =
     (case cur_as w of
        None \<Rightarrow> (False, w)
      | Some (ap, pm, a) \<Rightarrow>
          if pm = 0 then (False, w)
          else if addr < USER_VIRT_BASE \<or> addr \<ge> USER_VIRT_END then (False, w)
          else if err AND PF_PRESENT \<noteq> 0 then (False, w)
          else let page = addr AND NOT (VM_PAGE - 1) in
            (case fault_flags a page err of
               None \<Rightarrow> (False, w)
             | Some flags \<Rightarrow>
                 (case paging_translate pm page (mem w) of
                    (t, m) \<Rightarrow>
                      if t \<noteq> 0 then (True, set_mem m w)
                      else (case build_page pm page flags m of (ok, m1) \<Rightarrow> (ok, set_mem m1 w)))))"

partial_function (option) touch_from :: "u64 \<Rightarrow> u64 \<Rightarrow> u64 \<Rightarrow> vmw \<Rightarrow> (bool \<times> vmw) option" where
  "touch_from pm v lim w =
     (if v \<le> lim then
        case paging_translate pm v (mem w) of
          (t, m) \<Rightarrow>
            let w1 = set_mem m w in
            if t \<noteq> 0 then touch_from pm (v + VM_PAGE) lim w1
            else case vmm_fault v PF_WRITE w1 of
              (ok, w2) \<Rightarrow> if \<not> ok then Some (False, w2) else touch_from pm (v + VM_PAGE) lim w2
      else Some (True, w))"

definition vmm_touch_write :: "u64 \<Rightarrow> u64 \<Rightarrow> vmw \<Rightarrow> (bool \<times> vmw) option" where
  "vmm_touch_write addr len w =
     (case cur_as w of
        None \<Rightarrow> Some (False, w)
      | Some (ap, pm, a) \<Rightarrow>
          if pm = 0 \<or> len = 0 then Some (False, w)
          else if \<not> vmm_user_range_ok addr len then Some (False, w)
          else touch_from pm (addr AND NOT (VM_PAGE - 1)) ((addr + len - 1) AND NOT (VM_PAGE - 1)) w)"

subsection \<open>Address spaces and their holders\<close>

text \<open>\<open>sizeof(addr_space_t)\<close>: two words, 64 regions of 24 bytes, the count padded to a word, 32 handlers and the trampoline.\<close>

definition ADDR_SPACE_SIZE :: u64 where "ADDR_SPACE_SIZE = 1824"

definition no_region :: vm_region where
  "no_region = \<lparr>rbase = 0, rlen = 0, rprot = 0, rshm = 0\<rparr>"

definition vmm_space_new :: "u64 \<Rightarrow> u64 \<Rightarrow> vmw \<Rightarrow> (u64 \<times> vmw) option" where
  "vmm_space_new p4_table p3_table w =
     Option.bind (kmalloc_ret ADDR_SPACE_SIZE (kheap w)) (\<lambda>(ap, h).
       let w1 = w\<lparr>kheap := h\<rparr> in
       if ap = 0 then Some (0, w1)
       else case paging_new_address_space p4_table p3_table (mem w1) of
         (pm, m) \<Rightarrow>
           let w2 = set_space ap \<lparr>pml4 = pm, brk = 0, vm = replicate VM_REGIONS_MAX no_region, refs = 0,
                      sig_handler = replicate NSIG 0, sig_tramp = 0\<rparr> (set_mem m w1)
           in if pm = 0 then map_option (\<lambda>h2. (0, w2\<lparr>kheap := h2\<rparr>)) (kfree ap (kheap w2))
              else Some (ap, set_space ap ((spaces w2 ap)\<lparr>brk := USER_HEAP_BASE, refs := 1\<rparr>) w2))"

definition vmm_space_ref :: "u64 \<Rightarrow> vmw \<Rightarrow> vmw" where
  "vmm_space_ref ap w = (if ap \<noteq> 0 then set_space ap ((spaces w ap)\<lparr>refs := refs (spaces w ap) + 1\<rparr>) w else w)"

fun drop_shared :: "u64 \<Rightarrow> nat list \<Rightarrow> vmw \<Rightarrow> vmw option" where
  "drop_shared ap [] w = Some w"
| "drop_shared ap (i # js) w =
     (let a = spaces w ap; r = vm a ! i in
      if rbase r = 0 \<or> rshm r = 0 then drop_shared ap js w
      else Option.bind (paging_detach (pml4 a) (rbase r) (rlen r) (mem w)) (\<lambda>(_, m).
             Option.bind (shm_dropped (sint (rshm r) - 1) (set_mem m w)) (\<lambda>w1.
               drop_shared ap js
                 (set_space ap ((spaces w1 ap)\<lparr>vm := (vm (spaces w1 ap))[i := r\<lparr>rbase := 0, rlen := 0, rshm := 0\<rparr>]\<rparr>) w1))))"

definition vmm_space_unref :: "u64 \<Rightarrow> vmw \<Rightarrow> vmw option" where
  "vmm_space_unref ap w =
     (if ap = 0 then Some w
      else let w1 = set_space ap ((spaces w ap)\<lparr>refs := refs (spaces w ap) - 1\<rparr>) w in
        if refs (spaces w1 ap) > 0 then Some w1
        else Option.bind (drop_shared ap [0..<VM_REGIONS_MAX] w1) (\<lambda>w2.
               let w3 = set_mem (paging_free_address_space (pml4 (spaces w2 ap)) (mem w2)) w2
               in map_option (\<lambda>h. w3\<lparr>kheap := h\<rparr>) (kfree ap (kheap w3))))"

text \<open>\<open>process_sbrk\<close>: \<open>increment\<close> is the signed argument, \<open>-1\<close> the all-ones word.\<close>

definition process_sbrk :: "64 word \<Rightarrow> vmw \<Rightarrow> u64 \<times> vmw" where
  "process_sbrk increment w =
     (case cur_as w of
        None \<Rightarrow> (- 1, w)
      | Some (ap, pm, a) \<Rightarrow>
          let old = brk a in
          if increment = 0 then (old, w)
          else if sint increment > 0 then
            let ceiling0 = vmm_mmap_floor w in
            if ceiling0 < USER_HEAP_BASE + 0x1000 then (- 1, w)
            else let ceiling = ceiling0 - 0x1000 in
              if old \<ge> ceiling then (- 1, w)
              else if increment > ceiling - old then (- 1, w)
              else (old, set_space ap (a\<lparr>brk := old + increment\<rparr>) w)
          else let shrink = - increment in
            if shrink > old - USER_HEAP_BASE then (- 1, w)
            else (old, set_space ap (a\<lparr>brk := old - shrink\<rparr>) w))"

subsection \<open>Searching a table\<close>

lemma first_idx_Some:
  "first_idx P xs = Some i \<Longrightarrow> i < length xs \<and> P (xs ! i) \<and> (\<forall>j < i. \<not> P (xs ! j))"
proof (induction xs arbitrary: i)
  case (Cons x xs)
  show ?case
  proof (cases "P x")
    case True
    then show ?thesis using Cons.prems by simp
  next
    case False
    then obtain k where k: "first_idx P xs = Some k" "i = Suc k" using Cons.prems by auto
    show ?thesis using Cons.IH [OF k(1)] False k(2) by (auto simp: nth_Cons split: nat.splits)
  qed
qed simp

lemma first_idx_None: "first_idx P xs = None \<longleftrightarrow> (\<forall>x \<in> set xs. \<not> P x)"
  by (induction xs) auto

subsection \<open>The window check\<close>

lemma window_nat:
  "unat USER_VIRT_BASE = 1073741824" "unat USER_VIRT_END = 2147483648" "unat USER_HEAP_BASE = 1342177280"
  "unat USER_STACK_BASE = 2139095040" "unat USER_MMAP_TOP = 2139090944" "unat USER_STACK_TOP = 2147483648" "unat VM_PAGE = 4096"
  by (simp_all add: vmm_consts)

lemma user_range_ok_iff:
  "vmm_user_range_ok a n \<longleftrightarrow> 1073741824 \<le> unat a \<and> unat a < 2147483648 \<and> unat a + unat n \<le> 2147483648"
proof -
  have "unat (USER_VIRT_END - a) = 2147483648 - unat a" if "unat a < 2147483648"
    using that by (simp add: unat_sub_small window_nat)
  then show ?thesis
    by (auto simp: vmm_user_range_ok_def word_less_nat_alt word_le_nat_alt window_nat not_less)
qed

subsection \<open>Mappings as intervals\<close>

definition span :: "vm_region \<Rightarrow> nat set" where
  "span r = {unat (rbase r)..<unat (rbase r) + unat (rlen r)}"

definition region_wf :: "addr_space \<Rightarrow> vm_region \<Rightarrow> bool" where
  "region_wf a r \<longleftrightarrow> rbase r \<noteq> 0 \<longrightarrow>
     unat (rbase r) mod 4096 = 0 \<and> unat (rlen r) mod 4096 = 0 \<and> unat (brk a) + 4096 \<le> unat (rbase r)
     \<and> unat (rbase r) + unat (rlen r) \<le> unat USER_MMAP_TOP"

definition vm_wf :: "addr_space \<Rightarrow> bool" where
  "vm_wf a \<longleftrightarrow> length (vm a) = VM_REGIONS_MAX
     \<and> unat USER_HEAP_BASE \<le> unat (brk a) \<and> unat (brk a) \<le> unat USER_MMAP_TOP
     \<and> (\<forall>r \<in> set (vm a). region_wf a r)
     \<and> (\<forall>i < VM_REGIONS_MAX. \<forall>j < VM_REGIONS_MAX. i \<noteq> j \<longrightarrow> rbase (vm a ! i) \<noteq> 0 \<longrightarrow> rbase (vm a ! j) \<noteq> 0 \<longrightarrow>
          span (vm a ! i) \<inter> span (vm a ! j) = {})"

lemma hits_nat:
  assumes "region_wf a r" and "rbase r \<noteq> 0" and "unat x + unat len \<le> unat USER_MMAP_TOP"
  shows "hits x len r \<longleftrightarrow> unat x < unat (rbase r) + unat (rlen r) \<and> unat (rbase r) < unat x + unat len"
proof -
  have b: "unat (rbase r) + unat (rlen r) \<le> 2139090944" using assms(1,2) by (simp add: region_wf_def window_nat)
  have "unat (rbase r + rlen r) = unat (rbase r) + unat (rlen r)" using b by (simp add: unat_add_small)
  moreover have "unat (x + len) = unat x + unat len" using assms(3) by (simp add: unat_add_small window_nat)
  ultimately show ?thesis using assms(2) by (simp add: hits_def word_less_nat_alt)
qed

text \<open>A spot for \<open>len\<close> bytes: page aligned, a page above the break, below the stack's guard, clear of every mapping.\<close>

definition fits :: "addr_space \<Rightarrow> u64 \<Rightarrow> nat \<Rightarrow> bool" where
  "fits a len x \<longleftrightarrow> x mod 4096 = 0 \<and> unat (brk a) + 4096 \<le> x \<and> x + unat len \<le> unat USER_MMAP_TOP
     \<and> (\<forall>r \<in> set (vm a). rbase r \<noteq> 0 \<longrightarrow> \<not> (x < unat (rbase r) + unat (rlen r) \<and> unat (rbase r) < x + unat len))"

definition below :: "addr_space \<Rightarrow> u64 \<Rightarrow> nat" where
  "below a hi = card {i. i < length (vm a) \<and> rbase (vm a ! i) \<noteq> 0 \<and> rbase (vm a ! i) < hi}"

lemma cand_nat:
  assumes "len \<le> hi" and "unat len mod 4096 = 0" and "unat hi mod 4096 = 0"
  shows "unat ((hi - len) AND NOT (VM_PAGE - 1)) = unat hi - unat len" "(unat hi - unat len) mod 4096 = 0"
proof -
  have u: "unat (hi - len) = unat hi - unat len" using assms(1) by (simp add: unat_sub_small word_le_nat_alt)
  obtain q r where q: "unat len = q * 4096" and r: "unat hi = r * 4096"
    using mod_zero_mult_div [OF assms(2)] mod_zero_mult_div [OF assms(3)] by metis
  have "unat hi - unat len = (r - q) * 4096" by (simp add: q r diff_mult_distrib)
  then show m: "(unat hi - unat len) mod 4096 = 0" by simp
  have "VM_PAGE - 1 = mask 12" by (simp add: VM_PAGE_def mask_eq_exp_minus_1)
  then show "unat ((hi - len) AND NOT (VM_PAGE - 1)) = unat hi - unat len"
    using unat_and_not_mask [of 12 "hi - len"] m by (simp add: u)
qed

lemma place_from_exact:
  assumes wf: "vm_wf a" and len: "unat len mod 4096 = 0"
    and "unat hi mod 4096 = 0" "unat hi \<le> unat USER_MMAP_TOP" and "below a hi < g"
    and "\<And>x. fits a len x \<Longrightarrow> x + unat len \<le> unat hi"
  shows "if place_from g hi a len = 0 then \<not> (\<exists>x. fits a len x)
         else fits a len (unat (place_from g hi a len)) \<and> (\<forall>x. fits a len x \<longrightarrow> x \<le> unat (place_from g hi a len))"
  using assms(3-)
proof (induction g arbitrary: hi)
  case (Suc g)
  show ?case
  proof (cases "hi < len")
    case True
    then have "\<not> fits a len x" for x using Suc.prems(4) [of x] by (auto simp: word_less_nat_alt)
    then show ?thesis using True by simp
  next
    case False
    then have le: "len \<le> hi" by simp
    define cand where "cand = (hi - len) AND NOT (VM_PAGE - 1)"
    have c: "unat cand = unat hi - unat len" "unat cand mod 4096 = 0" using cand_nat [OF le len Suc.prems(1)] by (simp_all add: cand_def)
    have hl: "unat cand + unat len = unat hi" using c le by (simp add: word_le_nat_alt)
    have up: "x \<le> unat cand" if "fits a len x" for x using Suc.prems(4) [OF that] hl by simp
    have bp: "unat (brk a + VM_PAGE) = unat (brk a) + 4096" using wf by (simp add: vm_wf_def window_nat unat_add_small)
    show ?thesis
    proof (cases "cand < brk a + VM_PAGE")
      case True
      have "\<not> fits a len x" for x
      proof
        assume f: "fits a len x"
        then have "unat (brk a) + 4096 \<le> x" by (simp add: fits_def)
        then show False using up [OF f] True bp by (simp add: word_less_nat_alt)
      qed
      then show ?thesis using True False by (simp add: cand_def Let_def)
    next
      case nb: False
      have ht: "hits cand len r \<longleftrightarrow> unat cand < unat (rbase r) + unat (rlen r) \<and> unat (rbase r) < unat cand + unat len"
        if "r \<in> set (vm a)" "rbase r \<noteq> 0" for r
        using that wf hl Suc.prems(2) by (intro hits_nat) (auto simp: vm_wf_def)
      show ?thesis
      proof (cases "first_idx (hits cand len) (vm a)")
        case None
        then have "\<forall>r \<in> set (vm a). \<not> hits cand len r" by (simp add: first_idx_None)
        then have "fits a len (unat cand)"
          using c(2) nb bp hl Suc.prems(2) ht by (auto simp: fits_def word_less_nat_alt not_less)
        moreover have "place_from (Suc g) hi a len = cand" using False nb None by (simp add: cand_def Let_def)
        moreover have "cand \<noteq> 0" using nb bp by (auto simp: word_less_nat_alt)
        ultimately show ?thesis using up by simp
      next
        case (Some i)
        let ?r = "vm a ! i"
        have i: "i < length (vm a)" "hits cand len ?r" using first_idx_Some [OF Some] by auto
        have rz: "rbase ?r \<noteq> 0" using i(2) by (simp add: hits_def)
        have rw: "region_wf a ?r" using wf i(1) by (simp add: vm_wf_def)
        have h: "unat cand < unat (rbase ?r) + unat (rlen ?r)" "unat (rbase ?r) < unat hi"
          using ht [of ?r] i rz hl by auto
        have "below a (rbase ?r) < below a hi"
          unfolding below_def
        proof (rule psubset_card_mono)
          show "{k. k < length (vm a) \<and> rbase (vm a ! k) \<noteq> 0 \<and> rbase (vm a ! k) < rbase ?r} \<subset> {k. k < length (vm a) \<and> rbase (vm a ! k) \<noteq> 0 \<and> rbase (vm a ! k) < hi}"
            using i(1) rz h(2) by (auto simp: word_less_nat_alt)
        qed simp
        then have "below a (rbase ?r) < g" using Suc.prems(3) by simp
        moreover have "x + unat len \<le> unat (rbase ?r)" if f: "fits a len x" for x
        proof -
          have "?r \<in> set (vm a)" using i(1) by simp
          then have "\<not> (x < unat (rbase ?r) + unat (rlen ?r) \<and> unat (rbase ?r) < x + unat len)" using f rz by (auto simp: fits_def)
          then show ?thesis using up [OF f] h(1) by linarith
        qed
        moreover have "unat (rbase ?r) mod 4096 = 0" "unat (rbase ?r) \<le> unat USER_MMAP_TOP" using rw rz by (simp_all add: region_wf_def)
        moreover have "place_from (Suc g) hi a len = place_from g (rbase ?r) a len" using False nb Some by (simp add: cand_def Let_def)
        ultimately show ?thesis using Suc.IH [of "rbase ?r"] by simp
      qed
    qed
  qed
qed simp

lemma place_spec:
  assumes wf: "vm_wf a" and len: "unat len mod 4096 = 0"
  shows "if place a len = 0 then \<not> (\<exists>x. fits a len x)
         else fits a len (unat (place a len)) \<and> (\<forall>x. fits a len x \<longrightarrow> x \<le> unat (place a len))"
  unfolding place_def
proof (rule place_from_exact [OF wf len])
  have "below a USER_MMAP_TOP \<le> card {i. i < length (vm a)}"
    unfolding below_def by (rule card_mono) auto
  then show "below a USER_MMAP_TOP < VM_REGIONS_MAX + 1" using wf by (simp add: vm_wf_def)
  show "unat USER_MMAP_TOP mod 4096 = 0" by (simp add: window_nat)
qed (auto simp: fits_def)

subsection \<open>Every operation keeps the mappings apart\<close>

lemma fits_region:
  assumes wf: "vm_wf a" and f: "fits a len (unat at)" and len: "unat len mod 4096 = 0" and at: "at \<noteq> 0"
    and r: "rbase r = at" "rlen r = len" and i: "i < VM_REGIONS_MAX"
  shows "vm_wf (a\<lparr>vm := (vm a)[i := r]\<rparr>)"
proof -
  have L: "length (vm a) = VM_REGIONS_MAX" using wf by (simp add: vm_wf_def)
  have rw: "region_wf a r" using f len r by (simp add: region_wf_def fits_def)
  have apart: "span r \<inter> span q = {}" if "q \<in> set (vm a)" "rbase q \<noteq> 0" for q
    using that f r by (fastforce simp: fits_def span_def)
  have nth: "(vm a)[i := r] ! j = (if j = i then r else vm a ! j)" if "j < VM_REGIONS_MAX" for j
    using that L i by (simp add: nth_list_update)
  have "span ((vm a)[i := r] ! j) \<inter> span ((vm a)[i := r] ! k) = {}"
    if "j < VM_REGIONS_MAX" "k < VM_REGIONS_MAX" "j \<noteq> k" "rbase ((vm a)[i := r] ! j) \<noteq> 0" "rbase ((vm a)[i := r] ! k) \<noteq> 0" for j k
    using that wf apart [of "vm a ! j"] apart [of "vm a ! k"] L by (auto simp: nth vm_wf_def split: if_splits)
  moreover have "\<forall>q \<in> set ((vm a)[i := r]). region_wf (a\<lparr>vm := (vm a)[i := r]\<rparr>) q"
  proof
    fix q assume "q \<in> set ((vm a)[i := r])"
    then have "q = r \<or> q \<in> set (vm a)" using set_update_subset_insert by fast
    then have "region_wf a q" using rw wf by (auto simp: vm_wf_def)
    then show "region_wf (a\<lparr>vm := (vm a)[i := r]\<rparr>) q" by (simp add: region_wf_def)
  qed
  ultimately show ?thesis using wf by (simp add: vm_wf_def)
qed

lemma replace_region:
  assumes wf: "vm_wf a" and i: "i < VM_REGIONS_MAX"
    and r: "rbase r = 0 \<or> rbase r = rbase (vm a ! i) \<and> rlen r = rlen (vm a ! i)"
  shows "vm_wf (a\<lparr>vm := (vm a)[i := r]\<rparr>)"
proof -
  have L: "length (vm a) = VM_REGIONS_MAX" using wf by (simp add: vm_wf_def)
  have nth: "(vm a)[i := r] ! j = (if j = i then r else vm a ! j)" if "j < VM_REGIONS_MAX" for j
    using that L i by (simp add: nth_list_update)
  have sp: "rbase r \<noteq> 0 \<Longrightarrow> span r = span (vm a ! i) \<and> rbase (vm a ! i) \<noteq> 0" using r by (auto simp: span_def)
  have "span ((vm a)[i := r] ! j) \<inter> span ((vm a)[i := r] ! k) = {}"
    if "j < VM_REGIONS_MAX" "k < VM_REGIONS_MAX" "j \<noteq> k" "rbase ((vm a)[i := r] ! j) \<noteq> 0" "rbase ((vm a)[i := r] ! k) \<noteq> 0" for j k
    using that wf sp i by (auto simp: nth vm_wf_def split: if_splits)
  moreover have "region_wf (a\<lparr>vm := (vm a)[i := r]\<rparr>) q" if "q \<in> set ((vm a)[i := r])" for q
  proof -
    have "q = r \<or> q \<in> set (vm a)" using that set_update_subset_insert by fast
    moreover have "region_wf a (vm a ! i)" using wf i L by (simp add: vm_wf_def)
    ultimately show ?thesis using r wf by (auto simp: vm_wf_def region_wf_def)
  qed
  ultimately show ?thesis using wf by (simp add: vm_wf_def)
qed

lemma unat_round_len:
  "unat (round_len len) = (if unat len + 4095 < 2 ^ 64 then (unat len + 4095) div 4096 * 4096 else 0)"
proof -
  have m: "VM_PAGE - 1 = mask 12" by (simp add: VM_PAGE_def mask_eq_exp_minus_1)
  have e: "len + VM_PAGE - 1 = len + 4095" by (simp add: VM_PAGE_def)
  have r: "unat (round_len len) = unat (len + 4095) div 4096 * 4096"
    unfolding round_len_def e m using unat_and_not_mask [of 12 "len + 4095"] by (simp add: minus_mod_eq_mult_div mult.commute)
  show ?thesis
  proof (cases "unat len + 4095 < 2 ^ 64")
    case True
    then show ?thesis using r by (simp add: unat_add_small)
  next
    case False
    have "unat (len + 4095) = (unat len + 4095) mod 2 ^ 64" by (simp add: unat_word_ariths)
    also have "\<dots> = unat len + 4095 - 2 ^ 64"
      using False unat_u64_bound [of len] by (subst mod_if) simp
    finally show ?thesis using r False unat_u64_bound [of len] by simp
  qed
qed

lemma round_len_pages: "unat (round_len len) mod 4096 = 0"
  by (simp add: unat_round_len)

lemma set_space_cur [simp]:
  "cur (set_space ap a w) = cur w" "spaces (set_space ap a w) ap = a" "mem (set_space ap a w) = mem w"
  "segs (set_space ap a w) = segs w" "kheap (set_space ap a w) = kheap w" "next_id (set_space ap a w) = next_id w" "arrays (set_space ap a w) = arrays w"
  by (simp_all add: set_space_def mem_def)

lemma set_mem_fields [simp]:
  "cur (set_mem m w) = cur w" "spaces (set_mem m w) = spaces w" "mem (set_mem m w) = m" "segs (set_mem m w) = segs w"
  "next_id (set_mem m w) = next_id w" "arrays (set_mem m w) = arrays w" "set_mem m (set_mem m' w) = set_mem m w"
  by (simp_all add: set_mem_def mem_def)

lemma set_seg_fields [simp]:
  "cur (set_seg i s w) = cur w" "spaces (set_seg i s w) = spaces w" "mem (set_seg i s w) = mem w" "kheap (set_seg i s w) = kheap w"
  "next_id (set_seg i s w) = next_id w" "arrays (set_seg i s w) = arrays w" "segs (set_seg i s w) = (segs w)[i := s]"
  by (simp_all add: set_seg_def mem_def)

lemma cur_as_cong: "cur w' = cur w \<Longrightarrow> spaces w' = spaces w \<Longrightarrow> cur_as w' = cur_as w"
  by (auto simp: cur_as_def split: option.splits)

lemma cur_as_set_space: "cur_as w = Some (ap, pm, a) \<Longrightarrow> cur_as (set_space ap b w) = Some (ap, pm, b)"
  by (auto simp: cur_as_def split: option.splits if_splits)

lemma cur_as_spaces: "cur_as w = Some (ap, pm, a) \<Longrightarrow> spaces w ap = a \<and> ap \<noteq> 0"
  by (auto simp: cur_as_def split: option.splits if_splits)

text \<open>\<open>here w a\<close>: the running process's space is well formed; \<open>same_proc\<close>: which process that is did not change.\<close>

definition vm_ok :: "vmw \<Rightarrow> bool" where
  "vm_ok w \<longleftrightarrow> (\<exists>ap pm a. cur_as w = Some (ap, pm, a) \<and> vm_wf a)"

lemma vm_okE:
  assumes "vm_ok w"
  obtains ap pm a where "cur_as w = Some (ap, pm, a)" "vm_wf a"
  using assms by (auto simp: vm_ok_def)

lemma vmm_reserve_ok:
  assumes "vm_ok w" and "vmm_reserve len prot i w = (at, w')"
  shows "vm_ok w'"
proof -
  obtain ap pm a where c: "cur_as w = Some (ap, pm, a)" "vm_wf a" using assms(1) by (rule vm_okE)
  show ?thesis
  proof (cases "len \<noteq> 0 \<and> first_idx (\<lambda>r. rbase r = 0) (vm a) \<noteq> None \<and> place a (round_len len) \<noteq> 0")
    case True
    then obtain k where k: "first_idx (\<lambda>r. rbase r = 0) (vm a) = Some k" by blast
    have b: "k < VM_REGIONS_MAX" using first_idx_Some [OF k] c(2) by (simp add: vm_wf_def)
    have f: "fits a (round_len len) (unat (place a (round_len len)))"
      using place_spec [OF c(2) round_len_pages, of len] True by simp
    have "vm_wf (a\<lparr>vm := (vm a)[k := \<lparr>rbase = place a (round_len len), rlen = round_len len, rprot = prot,
        rshm = (if i \<ge> 0 then word_of_int (i + 1) else 0)\<rparr>]\<rparr>)"
      by (rule fits_region [OF c(2) f round_len_pages _ _ _ b]) (use True in auto)
    then show ?thesis using assms(2) c k True cur_as_set_space [OF c(1)]
      by (auto simp: vmm_reserve_def Let_def vm_ok_def split: if_splits)
  next
    case False
    then have "w' = w" using assms(2) c by (auto simp: vmm_reserve_def Let_def split: option.splits if_splits)
    then show ?thesis using assms(1) by simp
  qed
qed

lemma vm_ok_cong: "cur w' = cur w \<Longrightarrow> spaces w' = spaces w \<Longrightarrow> vm_ok w' = vm_ok w"
  using cur_as_cong [of w' w] by (simp add: vm_ok_def)

lemma vm_ok_set_mem [simp]: "vm_ok (set_mem m w) = vm_ok w"
  by (rule vm_ok_cong) simp_all

lemma vm_ok_set_seg [simp]: "vm_ok (set_seg i s w) = vm_ok w"
  by (rule vm_ok_cong) simp_all

lemma vm_ok_replace:
  assumes c: "cur_as w = Some (ap, pm, a)" and wf: "vm_wf a" and i: "i < length (vm a)"
    and r: "rbase r = 0 \<or> rbase r = rbase (vm a ! i) \<and> rlen r = rlen (vm a ! i)"
  shows "vm_ok (set_space ap (a\<lparr>vm := (vm a)[i := r]\<rparr>) w)"
proof -
  have "i < VM_REGIONS_MAX" using i wf by (simp add: vm_wf_def)
  then have "vm_wf (a\<lparr>vm := (vm a)[i := r]\<rparr>)" using replace_region [OF wf _ r] by simp
  then show ?thesis using cur_as_set_space [OF c] by (auto simp: vm_ok_def)
qed

lemma vmm_release_ok: "vm_ok w \<Longrightarrow> vm_ok (vmm_release addr w)"
proof (erule vm_okE)
  fix ap pm a assume c: "cur_as w = Some (ap, pm, a)" and wf: "vm_wf a"
  then have ok: "vm_ok w" by (auto simp: vm_ok_def)
  show "vm_ok (vmm_release addr w)"
  proof (cases "first_idx (\<lambda>r. rbase r = addr) (vm a)")
    case None
    then show ?thesis using c ok by (simp add: vmm_release_def)
  next
    case (Some i)
    then show ?thesis using c vm_ok_replace [OF c wf] first_idx_Some [OF Some] by (simp add: vmm_release_def)
  qed
qed

lemma kfree_keeps: "Option.bind (kfree f (kheap w)) (\<lambda>h. Some (g h)) = Some w' \<Longrightarrow> \<exists>h. w' = g h"
  by (auto simp: bind_eq_Some_conv)

lemma seg_free_keeps: "seg_free k w = Some w' \<Longrightarrow> cur w' = cur w \<and> spaces w' = spaces w \<and> next_id w' = next_id w"
  by (auto simp: seg_free_def Let_def bind_eq_Some_conv)

lemma shm_dropped_keeps: "shm_dropped i w = Some w' \<Longrightarrow> cur w' = cur w \<and> spaces w' = spaces w \<and> next_id w' = next_id w"
  by (auto simp: shm_dropped_def Let_def split: option.splits if_splits dest!: seg_free_keeps)

lemma shm_ctl_keeps: "shm_ctl i cmd w = Some (r, w') \<Longrightarrow> cur w' = cur w \<and> spaces w' = spaces w \<and> next_id w' = next_id w"
  by (auto simp: shm_ctl_def Let_def split: option.splits if_splits dest!: seg_free_keeps)

lemma shm_get_keeps: "shm_get key sz flags w = Some (r, w') \<Longrightarrow> cur w' = cur w \<and> spaces w' = spaces w"
  by (auto simp: shm_get_def Let_def bind_eq_Some_conv split: option.splits if_splits prod.splits)

lemma vmm_munmap_shared_ok:
  assumes ok: "vm_ok w" and r: "vmm_munmap_shared addr w = Some (x, w')"
  shows "vm_ok w'"
proof -
  obtain ap pm a where c: "cur_as w = Some (ap, pm, a)" "vm_wf a" using ok by (rule vm_okE)
  show ?thesis
  proof (cases "first_idx (\<lambda>r. rbase r = addr \<and> rshm r \<noteq> 0) (vm a)")
    case None
    then show ?thesis using r c ok by (simp add: vmm_munmap_shared_def)
  next
    case (Some i)
    then obtain n m where d: "paging_detach pm (rbase (vm a ! i)) (rlen (vm a ! i)) (mem w) = Some (n, m)"
      "shm_dropped (sint (rshm (vm a ! i)) - 1)
         (set_space ap (a\<lparr>vm := (vm a)[i := (vm a ! i)\<lparr>rbase := 0, rlen := 0, rshm := 0\<rparr>]\<rparr>) (set_mem m w)) = Some w'"
      using r c by (auto simp: vmm_munmap_shared_def Let_def bind_eq_Some_conv)
    have "cur_as (set_mem m w) = Some (ap, pm, a)" using c(1) cur_as_cong [of "set_mem m w" w] by simp
    then have "vm_ok (set_space ap (a\<lparr>vm := (vm a)[i := (vm a ! i)\<lparr>rbase := 0, rlen := 0, rshm := 0\<rparr>]\<rparr>) (set_mem m w))"
      using vm_ok_replace [OF _ c(2)] first_idx_Some [OF Some] by simp
    then show ?thesis using shm_dropped_keeps [OF d(2)] vm_ok_cong by blast
  qed
qed

lemma vmm_munmap_ok:
  assumes ok: "vm_ok w" and r: "vmm_munmap addr len w = Some (x, w')"
  shows "vm_ok w'"
proof -
  obtain ap pm a where c: "cur_as w = Some (ap, pm, a)" "vm_wf a" using ok by (rule vm_okE)
  show ?thesis
  proof (cases "region_exact a addr (round_len len)")
    case None
    then show ?thesis using r c ok by (simp add: vmm_munmap_def Let_def)
  next
    case (Some i)
    have i: "i < length (vm a)" using Some first_idx_Some by (fastforce simp: region_exact_def)
    show ?thesis
    proof (cases "rshm (vm a ! i) = 0")
      case True
      then obtain n m where w': "w' = set_space ap (a\<lparr>vm := (vm a)[i := (vm a ! i)\<lparr>rbase := 0, rlen := 0\<rparr>]\<rparr>) (set_mem m w)"
        using r c Some by (auto simp: vmm_munmap_def Let_def bind_eq_Some_conv)
      have "cur_as (set_mem m w) = Some (ap, pm, a)" using c(1) cur_as_cong [of "set_mem m w" w] by simp
      then show ?thesis using vm_ok_replace [OF _ c(2) i] w' by simp
    next
      case False
      then show ?thesis using r c Some vmm_munmap_shared_ok [OF ok] by (auto simp: vmm_munmap_def Let_def)
    qed
  qed
qed

lemma vmm_mprotect_ok:
  assumes ok: "vm_ok w" and r: "vmm_mprotect addr len prot w = Some (x, w')"
  shows "vm_ok w'"
proof -
  obtain ap pm a where c: "cur_as w = Some (ap, pm, a)" "vm_wf a" using ok by (rule vm_okE)
  show ?thesis
  proof (cases "region_exact a addr (round_len len)")
    case None
    then show ?thesis using r c ok by (simp add: vmm_mprotect_def)
  next
    case (Some i)
    have i: "i < length (vm a)" using Some first_idx_Some by (fastforce simp: region_exact_def)
    obtain m where w': "w' = set_mem m (set_space ap (a\<lparr>vm := (vm a)[i := (vm a ! i)\<lparr>rprot := prot\<rparr>]\<rparr>) w)"
      using r c Some by (auto simp: vmm_mprotect_def Let_def)
    have "vm_ok (set_space ap (a\<lparr>vm := (vm a)[i := (vm a ! i)\<lparr>rprot := prot\<rparr>]\<rparr>) w)"
      by (rule vm_ok_replace [OF c i]) simp
    then show ?thesis by (simp add: w')
  qed
qed

lemma fold_lower:
  "fold lower xs hi \<le> hi \<and> (\<forall>r \<in> set xs. rbase r \<noteq> 0 \<longrightarrow> fold lower xs hi \<le> rbase r)"
proof (induction xs arbitrary: hi)
  case (Cons x xs)
  have "lower x hi \<le> hi" "rbase x \<noteq> 0 \<Longrightarrow> lower x hi \<le> rbase x" by (auto simp: lower_def)
  then show ?case using Cons.IH [of "lower x hi"] by auto
qed simp

lemma vm_wf_brk:
  assumes wf: "vm_wf a" and b: "unat USER_HEAP_BASE \<le> unat b" "unat b \<le> unat (brk a) \<or> unat b + 4096 \<le> unat (fold lower (vm a) USER_MMAP_TOP)"
  shows "vm_wf (a\<lparr>brk := b\<rparr>)"
proof -
  let ?fl = "fold lower (vm a) USER_MMAP_TOP"
  have f: "unat ?fl \<le> unat USER_MMAP_TOP" and fr: "r \<in> set (vm a) \<Longrightarrow> rbase r \<noteq> 0 \<Longrightarrow> unat ?fl \<le> unat (rbase r)" for r
    using fold_lower [of "vm a" USER_MMAP_TOP] by (auto simp: word_le_nat_alt)
  have "unat b \<le> unat USER_MMAP_TOP" using b(2) f wf by (auto simp: vm_wf_def)
  moreover have "region_wf (a\<lparr>brk := b\<rparr>) r" if "r \<in> set (vm a)" for r
    using that wf b(2) fr [OF that] by (auto simp: vm_wf_def region_wf_def)
  ultimately show ?thesis using wf b(1) by (simp add: vm_wf_def)
qed

lemma process_sbrk_ok:
  assumes ok: "vm_ok w" and r: "process_sbrk inc w = (x, w')"
  shows "vm_ok w'"
proof -
  obtain ap pm a where c: "cur_as w = Some (ap, pm, a)" "vm_wf a" using ok by (rule vm_okE)
  let ?fl = "fold lower (vm a) USER_MMAP_TOP"
  have fl: "vmm_mmap_floor w = ?fl" using c by (simp add: vmm_mmap_floor_def)
  have hb: "unat USER_HEAP_BASE \<le> unat (brk a)" using c(2) by (simp add: vm_wf_def)
  consider "w' = w" | "sint inc > 0" "\<not> ?fl < USER_HEAP_BASE + 0x1000" "brk a < ?fl - 0x1000" "\<not> inc > ?fl - 0x1000 - brk a"
      "w' = set_space ap (a\<lparr>brk := brk a + inc\<rparr>) w"
    | "\<not> - inc > brk a - USER_HEAP_BASE" "w' = set_space ap (a\<lparr>brk := brk a - (- inc)\<rparr>) w"
    using r c(1) by (auto simp: process_sbrk_def Let_def fl split: if_splits)
  then show ?thesis
  proof cases
    case 1
    then show ?thesis using ok by simp
  next
    case 2
    have u1: "unat (?fl - 0x1000) = unat ?fl - 4096"
      using 2(2) by (intro unat_sub_small [THEN trans]) (simp_all add: word_less_nat_alt vmm_consts not_less)
    have u2: "unat (?fl - 0x1000 - brk a) = unat ?fl - 4096 - unat (brk a)"
      using 2(3) u1 by (subst unat_sub_small) (simp_all add: word_less_nat_alt)
    have le: "unat inc \<le> unat ?fl - 4096 - unat (brk a)" using 2(4) u2 by (simp add: word_less_nat_alt not_less)
    have lt: "unat (brk a) < unat ?fl - 4096" using 2(3) u1 by (simp add: word_less_nat_alt)
    have "unat ?fl < 2 ^ 64" using unat_u64_bound [of ?fl] by simp
    then have s: "unat (brk a + inc) = unat (brk a) + unat inc" using le lt by (intro unat_add_small) simp
    have "vm_wf (a\<lparr>brk := brk a + inc\<rparr>)"
      by (rule vm_wf_brk [OF c(2)]) (use hb s le lt in \<open>auto\<close>)
    then show ?thesis using 2(5) cur_as_set_space [OF c(1)] by (auto simp: vm_ok_def)
  next
    case 3
    have u: "unat (brk a - USER_HEAP_BASE) = unat (brk a) - unat USER_HEAP_BASE" using hb by (rule unat_sub_small)
    have le: "unat (- inc) \<le> unat (brk a) - unat USER_HEAP_BASE" using 3(1) u by (simp add: word_less_nat_alt not_less)
    then have s: "unat (brk a - (- inc)) = unat (brk a) - unat (- inc)" by (intro unat_sub_small) simp
    have "vm_wf (a\<lparr>brk := brk a - (- inc)\<rparr>)"
      by (rule vm_wf_brk [OF c(2)]) (use hb s le in auto)
    then show ?thesis using 3(2) cur_as_set_space [OF c(1)] by (auto simp: vm_ok_def)
  qed
qed

lemma vmm_fault_keeps: "vmm_fault addr err w = (ok, w') \<Longrightarrow> cur w' = cur w \<and> spaces w' = spaces w \<and> segs w' = segs w \<and> next_id w' = next_id w"
  by (auto simp: vmm_fault_def Let_def split: option.splits if_splits prod.splits)

lemma vmm_reserve_keeps:
  "vmm_reserve len prot i w = (at, w') \<Longrightarrow> cur w' = cur w \<and> segs w' = segs w \<and> next_id w' = next_id w \<and> arrays w' = arrays w \<and> kheap w' = kheap w \<and> mem w' = mem w"
  by (auto simp: vmm_reserve_def Let_def split: option.splits if_splits)

lemma shm_attach_ok:
  assumes ok: "vm_ok w" and r: "shm_attach i flags w = Some (x, w')"
  shows "vm_ok w'"
proof -
  obtain ap pm a where c: "cur_as w = Some (ap, pm, a)" using ok by (rule vm_okE)
  show ?thesis
  proof (cases "by_id i w")
    case None
    then show ?thesis using r c ok by (simp add: shm_attach_def)
  next
    case (Some k)
    let ?prot = "VM_READ OR (if flags AND SHM_RDONLY \<noteq> 0 then 0 else VM_WRITE)"
    obtain at w1 where v: "vmm_reserve (ucast (npages (segs w ! k)) * VM_PAGE) ?prot i w = (at, w1)" by force
    have o1: "vm_ok w1" by (rule vmm_reserve_ok [OF ok v])
    show ?thesis using r c Some v ok o1
      by (auto simp: shm_attach_def Let_def split: if_splits option.splits prod.splits intro!: vmm_release_ok)
  qed
qed

subsection \<open>Sequences of calls by one process\<close>

datatype vm_op = Mmap u64 u32 | Munmap u64 u64 | Mprotect u64 u64 u32 | Sbrk u64 | Fault u64 u64
  | ShmGet int u64 u32 | ShmAttach int u32 | ShmDetach u64 | ShmCtl int int

fun vm_step :: "vm_op \<Rightarrow> vmw \<Rightarrow> vmw option" where
  "vm_step (Mmap len prot) w = Some (snd (vmm_mmap len prot w))"
| "vm_step (Munmap addr len) w = map_option snd (vmm_munmap addr len w)"
| "vm_step (Mprotect addr len prot) w = map_option snd (vmm_mprotect addr len prot w)"
| "vm_step (Sbrk inc) w = Some (snd (process_sbrk inc w))"
| "vm_step (Fault addr err) w = Some (snd (vmm_fault addr err w))"
| "vm_step (ShmGet key sz flags) w = map_option snd (shm_get key sz flags w)"
| "vm_step (ShmAttach i flags) w = map_option snd (shm_attach i flags w)"
| "vm_step (ShmDetach addr) w = map_option snd (shm_detach addr w)"
| "vm_step (ShmCtl i cmd) w = map_option snd (shm_ctl i cmd w)"

fun vm_run :: "vm_op list \<Rightarrow> vmw \<Rightarrow> vmw option" where
  "vm_run [] w = Some w"
| "vm_run (x # xs) w = Option.bind (vm_step x w) (vm_run xs)"

lemma vm_step_ok:
  assumes ok: "vm_ok w" and r: "vm_step x w = Some w'"
  shows "vm_ok w'"
proof (cases x)
  case (Mmap len prot)
  then show ?thesis using r vmm_reserve_ok [OF ok, of len prot "- 1"] by (cases "vmm_reserve len prot (- 1) w") (auto simp: vmm_mmap_def)
next
  case (Sbrk inc)
  then show ?thesis using r process_sbrk_ok [OF ok, of inc] by (cases "process_sbrk inc w") auto
next
  case (Fault addr err)
  then obtain f where "vmm_fault addr err w = (f, w')" using r by (cases "vmm_fault addr err w") simp
  then have "cur w' = cur w" "spaces w' = spaces w" using vmm_fault_keeps by blast+
  then show ?thesis using ok vm_ok_cong by blast
next
  case (ShmGet key sz flags)
  then obtain f where "shm_get key sz flags w = Some (f, w')" using r by auto
  then have "cur w' = cur w" "spaces w' = spaces w" using shm_get_keeps by blast+
  then show ?thesis using ok vm_ok_cong by blast
next
  case (ShmCtl i cmd)
  then obtain f where "shm_ctl i cmd w = Some (f, w')" using r by auto
  then have "cur w' = cur w" "spaces w' = spaces w" using shm_ctl_keeps by blast+
  then show ?thesis using ok vm_ok_cong by blast
qed (use r vmm_munmap_ok [OF ok] vmm_mprotect_ok [OF ok] shm_attach_ok [OF ok] vmm_munmap_shared_ok [OF ok] in
     \<open>auto simp: shm_detach_def\<close>)

lemma vm_run_ok: "vm_run xs w = Some w' \<Longrightarrow> vm_ok w \<Longrightarrow> vm_ok w'"
  by (induction xs arbitrary: w) (auto simp: bind_eq_Some_conv dest: vm_step_ok)

lemma cur_munmap_shared: "vmm_munmap_shared addr w = Some (x, w') \<Longrightarrow> cur w' = cur w"
  by (auto simp: vmm_munmap_shared_def Let_def bind_eq_Some_conv split: option.splits if_splits dest!: shm_dropped_keeps)

lemma cur_munmap:
  assumes "vmm_munmap addr len w = Some (x, w')"
  shows "cur w' = cur w"
proof (cases "cur_as w")
  case (Some c)
  obtain ap pm a where c: "c = (ap, pm, a)" by (cases c) auto
  show ?thesis
  proof (cases "region_exact a addr (round_len len)")
    case (Some i)
    then show ?thesis using assms \<open>cur_as w = Some c\<close> c cur_munmap_shared [of addr w x w']
      by (cases "rshm (vm a ! i) = 0") (auto simp: vmm_munmap_def Let_def bind_eq_Some_conv)
  qed (use assms Some c in \<open>simp add: vmm_munmap_def Let_def\<close>)
qed (use assms in \<open>simp add: vmm_munmap_def\<close>)

lemma cur_release: "cur (vmm_release addr w) = cur w"
  by (simp add: vmm_release_def split: option.splits)

lemma vm_step_cur:
  assumes r: "vm_step x w = Some w'"
  shows "cur w' = cur w"
proof (cases x)
  case (Mmap len prot)
  then obtain f where "vmm_reserve len prot (- 1) w = (f, w')" using r by (cases "vmm_reserve len prot (- 1) w") (simp add: vmm_mmap_def)
  then show ?thesis using vmm_reserve_keeps by blast
next
  case (Munmap addr len)
  then show ?thesis using r by (auto dest: cur_munmap)
next
  case (Mprotect addr len prot)
  then show ?thesis using r by (auto simp: vmm_mprotect_def Let_def split: option.splits)
next
  case (Sbrk inc)
  then show ?thesis using r by (auto simp: process_sbrk_def Let_def split: option.splits)
next
  case (Fault addr err)
  then obtain f where "vmm_fault addr err w = (f, w')" using r by (cases "vmm_fault addr err w") simp
  then show ?thesis using vmm_fault_keeps by blast
next
  case (ShmGet key sz flags)
  then obtain f where "shm_get key sz flags w = Some (f, w')" using r by auto
  then show ?thesis using shm_get_keeps by blast
next
  case (ShmCtl i cmd)
  then obtain f where "shm_ctl i cmd w = Some (f, w')" using r by auto
  then show ?thesis using shm_ctl_keeps by blast
next
  case (ShmAttach i flags)
  then show ?thesis using r
    by (auto simp: shm_attach_def Let_def cur_release split: option.splits if_splits prod.splits dest!: vmm_reserve_keeps)
next
  case (ShmDetach addr)
  then show ?thesis using r by (auto simp: shm_detach_def dest!: cur_munmap_shared)
qed

lemma vm_run_cur: "vm_run xs w = Some w' \<Longrightarrow> cur w' = cur w"
  by (induction xs arbitrary: w) (auto simp: bind_eq_Some_conv dest: vm_step_cur)

lemma vm_wf_new: "vm_wf \<lparr>pml4 = pm, brk = USER_HEAP_BASE, vm = replicate VM_REGIONS_MAX no_region, refs = n, sig_handler = hs, sig_tramp = t\<rparr>"
  by (auto simp: vm_wf_def region_wf_def no_region_def window_nat)

lemma vmm_space_new_ok:
  assumes "vmm_space_new p4 p3 w = Some (ap, w')" and "ap \<noteq> 0"
  shows "vm_wf (spaces w' ap)" and "refs (spaces w' ap) = 1"
  using assms vm_wf_new by (auto simp: vmm_space_new_def Let_def bind_eq_Some_conv split: if_splits prod.splits)

lemma and_not_page: "addr AND NOT (VM_PAGE - 1) = addr AND NOT 0xFFF"
  by (simp add: VM_PAGE_def)

lemma page_of:
  fixes addr :: u64
  shows "is_table (addr AND NOT (VM_PAGE - 1))" and "pg (addr AND NOT (VM_PAGE - 1)) = pg addr"
    and "user_addr (addr AND NOT (VM_PAGE - 1)) = user_addr addr"
proof -
  let ?p = "addr AND NOT (VM_PAGE - 1)"
  have u: "unat ?p = unat addr div 4096 * 4096"
  proof -
    have "VM_PAGE - 1 = mask 12" by (simp add: VM_PAGE_def mask_eq_exp_minus_1)
    then show ?thesis using unat_and_not_mask [of 12 addr] by (simp add: minus_mod_eq_mult_div mult.commute)
  qed
  show "is_table ?p" by (simp add: is_table_def word_unat_eq_iff unat_mod u)
  show "pg ?p = pg addr" by (simp add: word_unat_eq_iff unat_div u)
  have "1073741824 \<le> unat addr div 4096 * 4096 \<longleftrightarrow> 262144 \<le> unat addr div 4096" by simp
  also have "\<dots> \<longleftrightarrow> 1073741824 \<le> unat addr" by (simp add: less_eq_div_iff_mult_less_eq)
  finally have lo: "1073741824 \<le> unat addr div 4096 * 4096 \<longleftrightarrow> 1073741824 \<le> unat addr" .
  have "unat addr div 4096 * 4096 < 2147483648 \<longleftrightarrow> unat addr div 4096 < 524288" by simp
  also have "\<dots> \<longleftrightarrow> unat addr < 2147483648" by (simp add: div_less_iff_less_mult)
  finally have hi: "unat addr div 4096 * 4096 < 2147483648 \<longleftrightarrow> unat addr < 2147483648" .
  show "user_addr ?p = user_addr addr" unfolding user_addr_def word_le_nat_alt word_less_nat_alt window_nat u using lo hi by simp
qed

lemma own_present_nonzero:
  assumes "own_ok B s p" "user_addr v" "is_table v" "present (pte_at s p v)"
  shows "fst (paging_translate p v s) \<noteq> 0"
proof -
  have "fr s p v = Some (tbl (pte_at s p v))" using assms(4) by (simp add: fr_def)
  then have "is_frame (tbl (pte_at s p v))"
    using own_okD(2,5) [OF assms(1), of "tbl (pte_at s p v)"] assms(2) by (auto simp: user_frames_def)
  then show ?thesis using paging_translate_eq [OF own_okD(1) [OF assms(1)] assms(2)] assms(3,4) is_table_low
    by (simp add: is_frame_def)
qed

text \<open>
  What a user program may have built under it, said without the order in which the code looks: a page of the
  stack, a page of the heap below the break, or a page of a private mapping whose protection allows the kind of
  access. \<open>spec_flags\<close> is the entry such a page gets: present, for the user, writable exactly when the protection
  has \<open>VM_WRITE\<close>, not runnable exactly when it lacks \<open>VM_EXEC\<close>.
\<close>

definition spec_flags :: "bool \<Rightarrow> bool \<Rightarrow> u64" where
  "spec_flags can_write can_run =
     PAGE_PRESENT OR PAGE_USER OR (if can_write then PAGE_WRITE else 0) OR (if can_run then 0 else PAGE_NX)"

definition grants :: "addr_space \<Rightarrow> u64 \<Rightarrow> u64 \<Rightarrow> u64 \<Rightarrow> bool" where
  "grants a page err fl \<longleftrightarrow>
     unat page \<in> {unat USER_STACK_BASE..<unat USER_STACK_TOP} \<and> fl = spec_flags True False
   \<or> unat page \<in> {unat USER_HEAP_BASE..<unat (brk a)} \<and> fl = spec_flags True True
   \<or> (\<exists>r \<in> set (vm a). rbase r \<noteq> 0 \<and> unat page \<in> span r \<and> rshm r = 0
        \<and> (err AND PF_WRITE \<noteq> 0 \<longrightarrow> rprot r AND VM_WRITE \<noteq> 0) \<and> (err AND PF_FETCH \<noteq> 0 \<longrightarrow> rprot r AND VM_EXEC \<noteq> 0)
        \<and> fl = spec_flags (rprot r AND VM_WRITE \<noteq> 0) (rprot r AND VM_EXEC \<noteq> 0))"

lemma flags_of_spec: "flags_of prot = spec_flags (prot AND VM_WRITE \<noteq> 0) (prot AND VM_EXEC \<noteq> 0)"
  by (auto simp: flags_of_def spec_flags_def Let_def paging_consts)

lemma spec_flags_wx: "spec_flags cw cr AND PAGE_WRITE \<noteq> 0 \<and> spec_flags cw cr AND PAGE_NX = 0 \<longleftrightarrow> cw \<and> cr"
  by (auto simp: spec_flags_def paging_consts)

lemma region_covers:
  assumes "vm_wf a" and "r \<in> set (vm a)"
  shows "rbase r \<noteq> 0 \<and> page \<ge> rbase r \<and> page < rbase r + rlen r \<longleftrightarrow> rbase r \<noteq> 0 \<and> unat page \<in> span r"
proof (cases "rbase r = 0")
  case False
  then have "unat (rbase r) + unat (rlen r) \<le> 2139090944"
    using assms by (auto simp: vm_wf_def region_wf_def window_nat)
  then have "unat (rbase r + rlen r) = unat (rbase r) + unat (rlen r)" by (simp add: unat_add_small)
  then show ?thesis using False by (auto simp: span_def word_le_nat_alt word_less_nat_alt)
qed simp

lemma vm_wf_one_region:
  assumes "vm_wf a" and "r \<in> set (vm a)" "rbase r \<noteq> 0" "x \<in> span r" and "q \<in> set (vm a)" "rbase q \<noteq> 0" "x \<in> span q"
  shows "q = r"
proof -
  obtain i j where "i < length (vm a)" "vm a ! i = r" "j < length (vm a)" "vm a ! j = q"
    using assms(2,5) by (metis in_set_conv_nth)
  then show ?thesis using assms by (cases "i = j") (auto simp: vm_wf_def)
qed

lemma region_span:
  assumes "vm_wf a" and "r \<in> set (vm a)" "rbase r \<noteq> 0" "x \<in> span r"
  shows "unat (brk a) < x" and "x < unat USER_MMAP_TOP" and "unat USER_HEAP_BASE \<le> unat (brk a)"
  using assms by (auto simp: vm_wf_def region_wf_def span_def)

lemma region_at_spec:
  assumes "vm_wf a"
  shows "(\<exists>i. region_at a page = Some i \<and> vm a ! i = r) \<longleftrightarrow> r \<in> set (vm a) \<and> rbase r \<noteq> 0 \<and> unat page \<in> span r"
    (is "?L \<longleftrightarrow> ?R")
proof
  assume ?L
  then obtain i where i: "region_at a page = Some i" "vm a ! i = r" by blast
  then have "r \<in> set (vm a)" "rbase r \<noteq> 0 \<and> page \<ge> rbase r \<and> page < rbase r + rlen r"
    using first_idx_Some unfolding region_at_def by fastforce+
  then show ?R using region_covers [OF assms] by blast
next
  assume r: ?R
  then have c: "rbase r \<noteq> 0 \<and> page \<ge> rbase r \<and> page < rbase r + rlen r" using region_covers [OF assms] by blast
  then obtain i where i: "region_at a page = Some i"
    using r first_idx_None [of "\<lambda>r. rbase r \<noteq> 0 \<and> page \<ge> rbase r \<and> page < rbase r + rlen r" "vm a"]
    unfolding region_at_def by (cases "first_idx (\<lambda>r. rbase r \<noteq> 0 \<and> page \<ge> rbase r \<and> page < rbase r + rlen r) (vm a)") auto
  then have q: "vm a ! i \<in> set (vm a)" "rbase (vm a ! i) \<noteq> 0 \<and> page \<ge> rbase (vm a ! i) \<and> page < rbase (vm a ! i) + rlen (vm a ! i)"
    using first_idx_Some unfolding region_at_def by fastforce+
  then have "vm a ! i = r" using vm_wf_one_region [OF assms] region_covers [OF assms q(1)] r by blast
  then show ?L using i by blast
qed

lemma first_region_iff:
  assumes "vm_wf a"
  shows "(\<exists>i. region_at a page = Some i \<and> P (vm a ! i)) \<longleftrightarrow> (\<exists>r \<in> set (vm a). rbase r \<noteq> 0 \<and> unat page \<in> span r \<and> P r)"
  using region_at_spec [OF assms, of page] by metis

lemma fault_flags_grants:
  assumes "vm_wf a"
  shows "fault_flags a page err = Some fl \<longleftrightarrow> grants a page err fl"
proof -
  let ?allowed = "\<lambda>r. rshm r = 0 \<and> (err AND PF_WRITE \<noteq> 0 \<longrightarrow> rprot r AND VM_WRITE \<noteq> 0)
    \<and> (err AND PF_FETCH \<noteq> 0 \<longrightarrow> rprot r AND VM_EXEC \<noteq> 0) \<and> fl = flags_of (rprot r)"
  have st: "page \<ge> USER_STACK_BASE \<and> page < USER_STACK_TOP \<longleftrightarrow> unat page \<in> {unat USER_STACK_BASE..<unat USER_STACK_TOP}"
    and hp: "page \<ge> USER_HEAP_BASE \<and> page < brk a \<longleftrightarrow> unat page \<in> {unat USER_HEAP_BASE..<unat (brk a)}"
    by (auto simp: word_le_nat_alt word_less_nat_alt)
  have top: "unat (brk a) \<le> 2139090944" using assms by (simp add: vm_wf_def window_nat)
  have sf: "PAGE_PRESENT OR PAGE_USER OR PAGE_WRITE OR PAGE_NX = spec_flags True False"
    and hf: "PAGE_PRESENT OR PAGE_USER OR PAGE_WRITE = spec_flags True True" by (simp_all add: spec_flags_def)
  have reg: "(\<exists>i. region_at a page = Some i \<and> ?allowed (vm a ! i)) \<longleftrightarrow>
      (\<exists>r \<in> set (vm a). rbase r \<noteq> 0 \<and> unat page \<in> span r \<and> ?allowed r)"
    by (rule first_region_iff [OF assms])
  have apart: "\<not> (unat page \<in> {unat USER_STACK_BASE..<unat USER_STACK_TOP} \<or> unat page \<in> {unat USER_HEAP_BASE..<unat (brk a)})"
    if "r \<in> set (vm a)" "rbase r \<noteq> 0" "unat page \<in> span r" for r
    using region_span [OF assms that] by (auto simp: window_nat)
  have body: "fault_flags a page err = Some fl \<longleftrightarrow>
      (if unat page \<in> {unat USER_STACK_BASE..<unat USER_STACK_TOP} then fl = spec_flags True False
       else if unat page \<in> {unat USER_HEAP_BASE..<unat (brk a)} then fl = spec_flags True True
       else \<exists>i. region_at a page = Some i \<and> ?allowed (vm a ! i))"
    unfolding fault_flags_def st hp sf hf by (auto simp: Let_def split: option.splits)
  show ?thesis
    unfolding body reg grants_def flags_of_spec [symmetric] using apart top by (auto simp: window_nat)
qed

lemma grants_wx:
  assumes "grants a page err fl" and "fl AND PAGE_WRITE \<noteq> 0" and "fl AND PAGE_NX = 0"
  shows "unat page \<in> {unat USER_HEAP_BASE..<unat (brk a)}
    \<or> (\<exists>r \<in> set (vm a). rbase r \<noteq> 0 \<and> unat page \<in> span r \<and> rprot r AND VM_WRITE \<noteq> 0 \<and> rprot r AND VM_EXEC \<noteq> 0)"
proof -
  have sw: "\<not> (spec_flags True False AND PAGE_NX = 0)" by (simp add: spec_flags_def paging_consts)
  consider "fl = spec_flags True False" | "unat page \<in> {unat USER_HEAP_BASE..<unat (brk a)}"
    | r where "r \<in> set (vm a)" "rbase r \<noteq> 0" "unat page \<in> span r" "fl = spec_flags (rprot r AND VM_WRITE \<noteq> 0) (rprot r AND VM_EXEC \<noteq> 0)"
    using assms(1) unfolding grants_def by blast
  then show ?thesis
  proof cases
    case 1
    then show ?thesis using assms(3) sw by simp
  next
    case (3 r)
    then show ?thesis using spec_flags_wx assms(2,3) by metis
  qed blast
qed

lemma vmm_fault_granted:
  assumes w: "cur_as w = Some (ap, pm, a)" "vm_wf a" and own: "own_ok B (mem w) pm" and f: "vmm_fault addr err w = (ok, w')"
    and page: "page = addr AND NOT (VM_PAGE - 1)" and g: "grants a page err fl" and u: "user_addr addr" and e: "err AND PF_PRESENT = 0"
  obtains (there) "present (pte_at (mem w) pm addr)" "ok" "mem w' = mem w" "spaces w' = spaces w"
  | (full) "\<not> present (pte_at (mem w) pm addr)" "\<not> ok" "own_ok B (mem w') pm" "spaces w' = spaces w"
      "\<And>v. user_addr v \<Longrightarrow> pte_at (mem w') pm v = pte_at (mem w) pm v" "card (free_set (mem w')) \<le> 1"
  | (built) t where "\<not> present (pte_at (mem w) pm addr)" "ok" "own_ok B (mem w') pm" "spaces w' = spaces w" "pg t \<in> free_set (mem w)"
      "\<And>v. user_addr v \<Longrightarrow> pte_at (mem w') pm v = (if pg v = pg addr then leaf t fl else pte_at (mem w) pm v)"
      "\<And>x. pg x = pg t \<Longrightarrow> ram (mem w') x = 0"
proof -
  note up = page_of [of addr, folded page]
  have pu: "user_addr page" using u up by simp
  have pa: "pte_at (mem w) pm page = pte_at (mem w) pm addr" using user_page_eq_iff [OF pu u] up by (simp add: pte_at_def)
  have tr: "paging_translate pm page (mem w) = (if present (pte_at (mem w) pm addr) then tbl (pte_at (mem w) pm addr) else 0, mem w)"
    using paging_translate_eq [OF own_okD(1) [OF own] pu] is_table_low [OF up(1)] pa by simp
  have "pm \<noteq> 0" using space_okD(4) [OF own_okD(1) [OF own], of pm] by (simp add: tables_def)
  then have r: "vmm_fault addr err w = (case paging_translate pm page (mem w) of
      (t, m) \<Rightarrow> if t \<noteq> 0 then (True, set_mem m w) else (case build_page pm page fl m of (ok, m1) \<Rightarrow> (ok, set_mem m1 w)))"
    using u w(1) e g fault_flags_grants [OF w(2), of page err fl] unfolding vmm_fault_def Let_def page [symmetric]
    by (auto simp: user_addr_def dest: leD)
  show thesis
  proof (cases "present (pte_at (mem w) pm addr)")
    case True
    then have "tbl (pte_at (mem w) pm addr) \<noteq> 0" using own_present_nonzero [OF own pu up(1)] tr pa by simp
    then show thesis using f r tr True by (intro that(1)) auto
  next
    case False
    then have b: "vmm_fault addr err w = (case build_page pm page fl (mem w) of (ok, m1) \<Rightarrow> (ok, set_mem m1 w))" using r tr by simp
    have np: "\<not> present (pte_at (mem w) pm page)" using False pa by simp
    from own pu np show thesis
    proof (cases rule: build_page_cases [of B "mem w" pm page fl, consumes 3, case_names full built])
      case (full s')
      then show thesis using b f False by (intro that(2)) (auto simp: keeps_def)
    next
      case (built t s')
      then show thesis using b f False up(2) by (intro that(3) [of t]) (auto simp: keeps_def)
    qed
  qed
qed

subsection \<open>Properties\<close>

definition vm_demo :: vmw where
  "vm_demo = \<lparr>cur = Some \<lparr>p_as = 0x9000, p_pml4 = 0x5000\<rparr>,
     spaces = (\<lambda>_. \<lparr>pml4 = 0x5000, brk = USER_HEAP_BASE, vm = replicate VM_REGIONS_MAX no_region, refs = 1,
                     sig_handler = replicate NSIG 0, sig_tramp = 0\<rparr>),
     kheap = demo_heap, segs = replicate SHM_SEGMENTS
       \<lparr>used = False, sid = 0, skey = 0, removed = False, npages = 0, frames = 0, maps = 0\<rparr>,
     next_id = 1, arrays = (\<lambda>_. [])\<rparr>"

lemma vm_demo_cur: "cur_as vm_demo = Some (0x9000, 0x5000, \<lparr>pml4 = 0x5000, brk = USER_HEAP_BASE, vm = replicate VM_REGIONS_MAX no_region, refs = 1,
                     sig_handler = replicate NSIG 0, sig_tramp = 0\<rparr>)"
  by (simp add: cur_as_def vm_demo_def)

lemma vm_demo_ok: "vm_ok vm_demo"
  using vm_demo_cur vm_wf_new by (auto simp: vm_ok_def)

text \<open>
  C7. The memory map of a process stays sound. Over every sequence of mmap, munmap, mprotect, sbrk, page
  faults and shared-memory calls, with any arguments, the mappings remain whole pages that overlap nowhere,
  each starts at least a page above the heap's break and ends below the guard page under the stack, and the
  break stays between the heap's base and the top of the mapping area. \<open>vmm_space_new\<close> starts a process in such
  a state (\<open>vmm_space_new_ok\<close>).
\<close>

theorem vm_map_stays_sound:
  assumes "vm_ok w" and "vm_run xs w = Some w'"
  shows "vm_ok w' \<and> cur w' = cur w"
  using vm_run_ok [OF assms(2,1)] vm_run_cur [OF assms(2)] by blast

theorem vm_map_stays_sound_witness:
  "\<exists>w'. vm_run [Mmap 8192 3, Sbrk 4096, Mmap (- 1) 1, Fault 0x50000010 2] vm_demo = Some w' \<and> vm_ok w'"
proof -
  have "\<exists>w'. vm_run [Mmap 8192 3, Sbrk 4096, Mmap (- 1) 1, Fault 0x50000010 2] vm_demo = Some w'" by simp
  then show ?thesis using vm_map_stays_sound [OF vm_demo_ok] by blast
qed

text \<open>
  C26. \<open>vmm_reserve\<close> puts a mapping as high as it will go. For every request of at least one byte whose length does
  not wrap when rounded up to pages (at most 2^64 - 4096 bytes), it answers 0 and changes nothing exactly when the
  table is full or no page-aligned spot between the break and the stack's guard is clear of the existing mappings;
  otherwise the answer is the highest such spot, and it is recorded in the first free slot with the rounded length
  and the protection asked for. The 65 rounds of the search are always enough.
\<close>

theorem vmm_reserve_highest:
  assumes "cur_as w = Some (ap, pm, a)" and "vm_wf a" and "len \<noteq> 0" and "unat len + 4095 < 2 ^ 64"
    and "vmm_reserve len prot i w = (at, w')"
  shows "if at = 0 then w' = w \<and> ((\<forall>r \<in> set (vm a). rbase r \<noteq> 0) \<or> \<not> (\<exists>x. fits a (round_len len) x))
    else fits a (round_len len) (unat at) \<and> (\<forall>x. fits a (round_len len) x \<longrightarrow> x \<le> unat at)
       \<and> unat (round_len len) = (unat len + 4095) div 4096 * 4096
       \<and> (\<exists>k. first_idx (\<lambda>r. rbase r = 0) (vm a) = Some k \<and> vm (spaces w' ap) = (vm a)[k := \<lparr>rbase = at, rlen = round_len len, rprot = prot,
            rshm = (if i \<ge> 0 then word_of_int (i + 1) else 0)\<rparr>])"
proof (cases "first_idx (\<lambda>r. rbase r = 0) (vm a)")
  case None
  then have "at = 0 \<and> w' = w" using assms by (simp add: vmm_reserve_def Let_def)
  moreover have "\<forall>r \<in> set (vm a). rbase r \<noteq> 0" using None by (simp add: first_idx_None)
  ultimately show ?thesis by simp
next
  case (Some k)
  note p = place_spec [OF assms(2) round_len_pages, of len]
  show ?thesis
  proof (cases "place a (round_len len) = 0")
    case True
    then have "at = 0 \<and> w' = w" using assms Some by (simp add: vmm_reserve_def Let_def)
    then show ?thesis using p True by simp
  next
    case False
    then have "at = place a (round_len len)" "vm (spaces w' ap) = (vm a)[k := \<lparr>rbase = at, rlen = round_len len, rprot = prot,
            rshm = (if i \<ge> 0 then word_of_int (i + 1) else 0)\<rparr>]"
      using assms Some by (auto simp: vmm_reserve_def Let_def)
    then show ?thesis using p False Some assms(4) by (simp add: unat_round_len)
  qed
qed

theorem vmm_reserve_highest_witness:
  "unat (fst (vmm_reserve 8192 3 (- 1) vm_demo)) = 2139082752"
proof -
  let ?a = "\<lparr>pml4 = 0x5000, brk = USER_HEAP_BASE, vm = replicate VM_REGIONS_MAX no_region, refs = 1,
                     sig_handler = replicate NSIG 0, sig_tramp = 0 :: u64\<rparr>"
  obtain at w' where r: "vmm_reserve 8192 3 (- 1) vm_demo = (at, w')" by force
  have rl: "unat (round_len 8192) = 8192" by (simp add: unat_round_len)
  have f: "fits ?a (round_len 8192) x \<longleftrightarrow> x mod 4096 = 0 \<and> 1342181376 \<le> x \<and> x + 8192 \<le> 2139090944" for x
    by (auto simp: fits_def rl window_nat no_region_def)
  have best: "fits ?a (round_len 8192) 2139082752" by (simp add: f)
  have slot: "\<not> (\<forall>r \<in> set (vm ?a). rbase r \<noteq> 0)" by (simp add: no_region_def VM_REGIONS_MAX_def)
  note t = vmm_reserve_highest [OF vm_demo_cur vm_wf_new, of 8192, simplified, OF r]
  have "at \<noteq> 0" using t best slot by auto
  then have "fits ?a (round_len 8192) (unat at)" "2139082752 \<le> unat at" using t best by auto
  then show ?thesis using r by (simp add: f)
qed

text \<open>
  C27. \<open>vmm_fault\<close> builds exactly the pages it should. In a process whose memory map is sound it never changes
  a mapping that exists, nor any page but the faulting one. It answers 1 only for an address in the window, when
  the processor did not report a refusal and the page lies in the stack, in the heap below the break or in a private
  mapping whose protection allows the write or the fetch; if the page was missing it is then mapped to a frame that
  was free, with every byte zero, and with exactly the flags of that part: writable for the stack and the heap, not
  runnable for the stack, and for a mapping as its protection says. It answers 0 to such a fault only when the page
  was missing and at most one frame is left free, and then every translation is as it was. A page that is both
  writable and runnable arises only in the heap or in the mapping at that page when it asked for both.
\<close>

theorem vmm_fault_exact:
  assumes "cur_as w = Some (ap, pm, a)" and "vm_wf a" and "own_ok B (mem w) pm" and "vmm_fault addr err w = (ok, w')"
    and "page = addr AND NOT (VM_PAGE - 1)"
  shows "own_ok B (mem w') pm \<and> spaces w' = spaces w
    \<and> (\<forall>v. user_addr v \<longrightarrow> \<not> ok \<or> present (pte_at (mem w) pm v) \<or> v div 4096 \<noteq> addr div 4096 \<longrightarrow>
         pte_at (mem w') pm v = pte_at (mem w) pm v)
    \<and> (ok \<longrightarrow> user_addr addr \<and> err AND PF_PRESENT = 0 \<and>
        (\<exists>fl. grants a page err fl
           \<and> (\<not> present (pte_at (mem w) pm addr) \<longrightarrow>
               (\<exists>t. pte_at (mem w') pm addr = leaf t fl \<and> t div 4096 \<in> free_set (mem w)
                  \<and> (\<forall>x. x div 4096 = t div 4096 \<longrightarrow> ram (mem w') x = 0)))
           \<and> (fl AND PAGE_WRITE \<noteq> 0 \<and> fl AND PAGE_NX = 0 \<longrightarrow>
                unat page \<in> {unat USER_HEAP_BASE..<unat (brk a)}
              \<or> (\<exists>r \<in> set (vm a). rbase r \<noteq> 0 \<and> unat page \<in> span r \<and> rprot r AND VM_WRITE \<noteq> 0 \<and> rprot r AND VM_EXEC \<noteq> 0))))
    \<and> (\<not> ok \<longrightarrow> user_addr addr \<and> err AND PF_PRESENT = 0 \<and> (\<exists>fl. grants a page err fl) \<longrightarrow>
         \<not> present (pte_at (mem w) pm addr) \<and> card (free_set (mem w')) \<le> 1)"
    (is "_ \<and> _ \<and> (\<forall>v. _ \<longrightarrow> ?same v) \<and> (_ \<longrightarrow> _ \<and> _ \<and> (\<exists>fl. _ \<and> (_ \<longrightarrow> (\<exists>t. ?built t fl)) \<and> ?wx fl)) \<and> _")
proof (cases "\<not> user_addr addr \<or> err AND PF_PRESENT \<noteq> 0 \<or> (\<nexists>fl. grants a page err fl)")
  case True
  then have "\<not> ok \<and> mem w' = mem w \<and> spaces w' = spaces w"
    using assms(1,4) fault_flags_grants [OF assms(2), of page err, symmetric] unfolding assms(5)
    by (auto simp: vmm_fault_def Let_def user_addr_def split: if_splits option.splits prod.splits)
  then show ?thesis using True assms(3) by auto
next
  case False
  then obtain fl where g: "grants a page err fl" and u: "user_addr addr" and e: "err AND PF_PRESENT = 0" by auto
  have wx: "?wx fl" using grants_wx [OF g] by blast
  from assms(1-5) g u e show ?thesis
  proof (cases rule: vmm_fault_granted [consumes 8, case_names there full built])
    case there
    then show ?thesis using assms(3) g u e wx by auto
  next
    case full
    then show ?thesis by simp
  next
    case (built t)
    have same: "?same v" if "user_addr v" for v
      using built(1,2,6) that user_page_eq_iff [OF that u] by (auto simp: pte_at_def)
    have "?built t fl" using built(5-7) u by simp
    then show ?thesis using built(1-4) same g u e wx by auto
  qed
qed

lemma vm_demo_fault:
  obtains w pm where "cur_as w = Some (0x9000, pm, \<lparr>pml4 = 0x5000, brk = USER_HEAP_BASE, vm = replicate VM_REGIONS_MAX no_region, refs = 1,
                     sig_handler = replicate NSIG 0, sig_tramp = 0\<rparr>)" "own_ok {} (mem w) pm" "\<And>v. user_addr v \<Longrightarrow> pte_at (mem w) pm v = 0"
proof -
  obtain p s where n: "own_ok {} s p" "\<And>w. user_addr w \<Longrightarrow> pte_at s p w = 0" using page_demo_new by metis
  let ?w = "set_mem s (vm_demo\<lparr>cur := Some \<lparr>p_as = 0x9000, p_pml4 = p\<rparr>\<rparr>)"
  have "cur_as ?w = Some (0x9000, p, \<lparr>pml4 = 0x5000, brk = USER_HEAP_BASE, vm = replicate VM_REGIONS_MAX no_region, refs = 1,
                     sig_handler = replicate NSIG 0, sig_tramp = 0\<rparr>)"
    by (simp add: cur_as_def vm_demo_def)
  then show ?thesis using n by (intro that [of ?w p]) simp_all
qed

theorem vmm_fault_exact_witness:
  "\<exists>w ok w' pm. vmm_fault 0x7FFFF008 PF_WRITE w = (ok, w') \<and> own_ok {} (mem w') pm \<and> pte_at (mem w') pm 0x40000000 = 0
     \<and> (if ok then \<exists>t. pte_at (mem w') pm 0x7FFFF008 = leaf t (PAGE_PRESENT OR PAGE_USER OR PAGE_WRITE OR PAGE_NX) \<and> ram (mem w') t = 0
        else card (free_set (mem w')) \<le> 1)"
proof -
  let ?a = "\<lparr>pml4 = 0x5000, brk = USER_HEAP_BASE, vm = replicate VM_REGIONS_MAX no_region, refs = 1,
                     sig_handler = replicate NSIG 0, sig_tramp = 0 :: u64\<rparr>"
  obtain w pm where w: "cur_as w = Some (0x9000, pm, ?a)" "own_ok {} (mem w) pm" "\<And>v. user_addr v \<Longrightarrow> pte_at (mem w) pm v = 0"
    using vm_demo_fault by metis
  obtain ok w' where f: "vmm_fault 0x7FFFF008 PF_WRITE w = (ok, w')" by force
  have u: "user_addr 0x40000000" "user_addr 0x7FFFF008"
    by (simp_all add: user_addr_def USER_VIRT_BASE_def USER_VIRT_END_def word_less_nat_alt word_le_nat_alt)
  have p: "0x7FFFF000 = (0x7FFFF008 :: u64) AND NOT (VM_PAGE - 1)" by (simp add: VM_PAGE_def)
  have g: "grants ?a 0x7FFFF000 PF_WRITE fl \<longleftrightarrow> fl = spec_flags True False" for fl
    by (auto simp: grants_def window_nat no_region_def)
  have e: "PF_WRITE AND PF_PRESENT = 0" by (simp add: PF_WRITE_def PF_PRESENT_def)
  have sf: "PAGE_PRESENT OR PAGE_USER OR PAGE_WRITE OR PAGE_NX = spec_flags True False" by (simp add: spec_flags_def)
  note t = vmm_fault_exact [OF w(1) vm_wf_new w(2) f p, unfolded g]
  have np: "\<not> present (pte_at (mem w) pm 0x7FFFF008)" using w(3) [OF u(2)] by (simp add: present_def)
  have "own_ok {} (mem w') pm" "pte_at (mem w') pm 0x40000000 = 0" using t u(1) w(3) [OF u(1)] by auto
  moreover have "if ok then \<exists>t. pte_at (mem w') pm 0x7FFFF008 = leaf t (spec_flags True False) \<and> ram (mem w') t = 0
        else card (free_set (mem w')) \<le> 1"
    using t np u(2) e by auto
  ultimately show ?thesis using f unfolding sf by blast
qed

text \<open>
  \<open>vmm_user_range_ok\<close> is exact: it accepts a pointer and length exactly when the first byte and all the bytes
  lie in the user window, as numbers, so no length can wrap the sum back into it.
\<close>

theorem user_range_ok_exact:
  "vmm_user_range_ok addr len \<longleftrightarrow>
     unat USER_VIRT_BASE \<le> unat addr \<and> unat addr < unat USER_VIRT_END \<and> unat addr + unat len \<le> unat USER_VIRT_END"
  unfolding user_range_ok_iff window_nat by simp

lemma first_idx_replicate: "P x \<Longrightarrow> 0 < n \<Longrightarrow> first_idx P (replicate n x) = Some 0"
  by (cases n) simp_all

text \<open>
  C28. Two corners of the interface answer success for nonsense. A request within a page of the largest length
  wraps to zero when it is rounded: \<open>vmm_mmap\<close> then hands out an address and burns a slot on a mapping of no
  bytes. And a free slot of the table matches the request to unmap, or to reprotect, nothing at address 0.
\<close>

theorem vmm_wrapped_requests:
  "(\<exists>at w'. vmm_mmap (- 1) 3 vm_demo = (at, w') \<and> at \<noteq> 0 \<and> (\<exists>r \<in> set (vm (spaces w' 0x9000)). rbase r = at \<and> rlen r = 0))
   \<and> (\<exists>w'. vmm_munmap 0 0 vm_demo = Some (0, w')) \<and> (\<exists>w'. vmm_mprotect 0 0 7 vm_demo = Some (0, w'))"
proof (intro conjI)
  let ?a = "\<lparr>pml4 = 0x5000, brk = USER_HEAP_BASE, vm = replicate VM_REGIONS_MAX no_region, refs = 1,
                     sig_handler = replicate NSIG 0, sig_tramp = 0 :: u64\<rparr>"
  have r0: "round_len (- 1) = 0" by (simp add: round_len_def VM_PAGE_def)
  have rz: "round_len 0 = 0" by (simp add: round_len_def VM_PAGE_def)
  have s: "first_idx (\<lambda>r. rbase r = 0) (vm ?a) = Some 0" by (simp add: first_idx_replicate VM_REGIONS_MAX_def no_region_def)
  have "fits ?a 0 2139090944" by (simp add: fits_def window_nat no_region_def)
  moreover have "vm_wf ?a" by (rule vm_wf_new)
  moreover have "unat (0 :: u64) mod 4096 = 0" by simp
  ultimately have p: "place ?a 0 \<noteq> 0" using place_spec [of ?a 0] by metis
  show "\<exists>at w'. vmm_mmap (- 1) 3 vm_demo = (at, w') \<and> at \<noteq> 0 \<and> (\<exists>r \<in> set (vm (spaces w' 0x9000)). rbase r = at \<and> rlen r = 0)"
  proof -
    let ?r = "\<lparr>rbase = place ?a 0, rlen = 0, rprot = 3, rshm = 0\<rparr>"
    have "vmm_mmap (- 1) 3 vm_demo = (place ?a 0, set_space 0x9000 (?a\<lparr>vm := (vm ?a)[0 := ?r]\<rparr>) vm_demo)"
      using p s by (simp add: vmm_mmap_def vmm_reserve_def vm_demo_cur r0 Let_def)
    moreover have "?r \<in> set ((vm ?a)[0 := ?r])" by (rule set_update_memI) (simp add: VM_REGIONS_MAX_def)
    ultimately show ?thesis using p by force
  qed
  have x: "region_exact ?a 0 0 = Some 0" by (simp add: region_exact_def first_idx_replicate VM_REGIONS_MAX_def no_region_def)
  have n: "vm ?a ! 0 = no_region" by (simp add: VM_REGIONS_MAX_def)
  have "\<exists>r. paging_unmap 0x5000 0 0 (mem vm_demo) = Some r"
    unfolding paging_unmap_def by (rule page_loops_return(4) [OF range_bounds_aligned])
  then show "\<exists>w'. vmm_munmap 0 0 vm_demo = Some (0, w')"
    using x n by (auto simp: vmm_munmap_def vm_demo_cur rz Let_def no_region_def)
  have "\<exists>r. paging_protect 0x5000 0 0 (flags_of 7) (mem vm_demo) = Some r"
    unfolding paging_protect_def by (rule page_loops_return(2) [OF range_bounds_aligned])
  then show "\<exists>w'. vmm_mprotect 0 0 7 vm_demo = Some (0, w')"
    using x n by (auto simp: vmm_mprotect_def vm_demo_cur rz Let_def no_region_def)
qed

end
