(* ===== verification/Proc_Table.thy ===== *)
theory Proc_Table
  imports Vmm
begin

text \<open>
  The process table of \<^verbatim>\<open>kernel/kernel/process.c\<close> with the half of \<^verbatim>\<open>kernel/kernel/signal.c\<close> that only
  sets bits and flips states: the records, lookups, environments, the waking of sleepers, signal dispositions and
  sending. A process is named by its slot in the table where the code holds a \<^verbatim>\<open>process_t *\<close>. Every core has its
  own \<^verbatim>\<open>struct percpu\<close>; \<open>me\<close> is the core the code runs on, which the kernel lock makes the only one in the
  kernel. Blocks of the kernel heap that hold an environment, and register frames on kernel stacks, are found by
  their address in typed stores. Calls into the file system, the sockets and the window manager, which change none of
  this state, are recorded in \<open>calls\<close> in the order they happen. \<open>None\<close> is a call that does not return.
\<close>

subsection \<open>Registers, processes and cores\<close>

record intr_frame =
  r15 :: u64
  r14 :: u64
  r13 :: u64
  r12 :: u64
  r11 :: u64
  r10 :: u64
  r9 :: u64
  r8 :: u64
  rbp :: u64
  rdi :: u64
  rsi :: u64
  rdx :: u64
  rcx :: u64
  rbx :: u64
  rax :: u64
  int_no :: u64
  err_code :: u64
  rip :: u64
  cs :: u64
  rflags :: u64
  rsp :: u64
  ss :: u64

datatype proc_state = PROC_UNUSED | PROC_READY | PROC_RUNNING | PROC_BLOCKED | PROC_ZOMBIE

datatype wait_why = WAIT_NONE | WAIT_CHILD | WAIT_KEY | WAIT_TIME | WAIT_PIPE | WAIT_THREAD

datatype stream_kind = STREAM_TERM | STREAM_FILE | STREAM_PIPE

record pstream =
  kind :: stream_kind
  handle :: int

text \<open>
  What \<^verbatim>\<open>kctx\<close> keeps of a process that blocked inside a system call: the call, with the local
  variables that are live across the block.
\<close>

datatype kont =
    In_none
  | In_key
  | In_sleep
  | In_yield
  | In_wait int
  | In_join int
  | In_pipe_write nat "u8 list" nat
  | In_pipe_read nat nat

record process =
  pid :: int
  parent_pid :: int
  is_thread :: bool
  tgid :: int
  tstack :: u64
  tstack_len :: u64
  pstate :: proc_state
  stopped :: bool
  pticks :: u64
  pname :: string
  asp :: u64
  ppml4 :: u64
  entry :: u64
  kstack :: u64
  kstack_top :: u64
  resume_kernel :: bool
  saved_rsp :: u64
  kctx :: kont
  pin :: pstream
  pout :: pstream
  wait_reason :: wait_why
  waiting_for :: int
  wake_at :: u64
  exit_code :: int
  sig_pending :: u32
  sig_blocked :: u32
  sig_restart :: bool
  alarm_at :: u64
  env :: u64
  env_len :: u32
  fxstate :: "u8 list"

record cpu =
  current_proc :: "nat option"
  cpu_kstack :: u64
  tss_rsp0 :: u64
  cr3 :: u64
  fpu :: "u8 list"

record pipe =
  in_use :: bool
  pbuf :: "u32 \<Rightarrow> u8"
  head :: u32
  tail :: u32
  pcount :: u32
  write_open :: bool
  read_open :: bool
  writer_pid :: int
  reader_pid :: int

datatype ext_call = Vfs_close int | Vfs_create "u8 list" | Vfs_seek_end int | Vfs_truncate int | Sock_release_owner int | Wm_notify_exit int

record kw =
  vw :: vmw
  procs :: "process list"
  cpus :: "cpu list"
  me :: nat
  next_pid :: int
  pipes :: "pipe list"
  rr_last :: nat
  kernel_space :: u64
  scheduler_active :: bool
  last_exit_code :: int
  kframes :: "u64 \<Rightarrow> intr_frame"
  envs :: "u64 \<Rightarrow> u8 list"
  now_ticks :: u64
  calls :: "ext_call list"

definition MAX_PROCESSES :: nat where "MAX_PROCESSES = 64"
definition MAX_PIPES :: nat where "MAX_PIPES = 16"
definition PIPE_BUF_SIZE :: u32 where "PIPE_BUF_SIZE = 4096"
definition PROC_NAME_MAX :: nat where "PROC_NAME_MAX = 32"
definition KSTACK_SIZE :: u64 where "KSTACK_SIZE = 16384"
definition USER_CS :: u64 where "USER_CS = 0x2B"
definition USER_SS :: u64 where "USER_SS = 0x23"
definition RFLAGS_IF :: u64 where "RFLAGS_IF = 0x202"

subsection \<open>Looking processes up\<close>

definition current :: "kw \<Rightarrow> nat option" where
  "current w = current_proc (cpus w ! me w)"

definition proc :: "kw \<Rightarrow> nat \<Rightarrow> process" where
  "proc w i = procs w ! i"

definition upd :: "nat \<Rightarrow> (process \<Rightarrow> process) \<Rightarrow> kw \<Rightarrow> kw" where
  "upd i f w = w\<lparr>procs := (procs w)[i := f (procs w ! i)]\<rparr>"

definition upd_cpu :: "(cpu \<Rightarrow> cpu) \<Rightarrow> kw \<Rightarrow> kw" where
  "upd_cpu f w = w\<lparr>cpus := (cpus w)[me w := f (cpus w ! me w)]\<rparr>"

definition upd_pipe :: "nat \<Rightarrow> (pipe \<Rightarrow> pipe) \<Rightarrow> kw \<Rightarrow> kw" where
  "upd_pipe i f w = w\<lparr>pipes := (pipes w)[i := f (pipes w ! i)]\<rparr>"

definition call :: "ext_call \<Rightarrow> kw \<Rightarrow> kw" where
  "call c w = w\<lparr>calls := calls w @ [c]\<rparr>"

definition process_by_pid :: "int \<Rightarrow> kw \<Rightarrow> nat option" where
  "process_by_pid n w = first_idx (\<lambda>p. pstate p \<noteq> PROC_UNUSED \<and> pid p = n) (procs w)"

definition find_by_pid :: "int \<Rightarrow> kw \<Rightarrow> nat option" where
  "find_by_pid n w = first_idx (\<lambda>p. pstate p \<noteq> PROC_UNUSED \<and> pid p = n) (procs w)"

definition process_slots :: nat where
  "process_slots = MAX_PROCESSES"

definition process_at :: "int \<Rightarrow> kw \<Rightarrow> nat option" where
  "process_at i w =
     (if i < 0 \<or> i \<ge> int MAX_PROCESSES then None
      else if pstate (proc w (nat i)) = PROC_UNUSED then None
      else Some (nat i))"

text \<open>
  The calls of the memory map read the process of this core through \<^verbatim>\<open>process_current()\<close>.
\<close>

definition view :: "kw \<Rightarrow> vmw" where
  "view w = (vw w)\<lparr>cur := map_option (\<lambda>i. \<lparr>p_as = asp (proc w i), p_pml4 = ppml4 (proc w i)\<rparr>) (current w)\<rparr>"

definition k_alloc :: "u64 \<Rightarrow> kw \<Rightarrow> (u64 \<times> kw) option" where
  "k_alloc n w = map_option (\<lambda>(p, h). (p, w\<lparr>vw := (vw w)\<lparr>kheap := h\<rparr>\<rparr>)) (kmalloc_ret n (kheap (vw w)))"

definition k_free :: "u64 \<Rightarrow> kw \<Rightarrow> kw option" where
  "k_free p w = map_option (\<lambda>h. w\<lparr>vw := (vw w)\<lparr>kheap := h\<rparr>\<rparr>) (kfree p (kheap (vw w)))"

definition space_unref :: "u64 \<Rightarrow> kw \<Rightarrow> kw option" where
  "space_unref a w = map_option (\<lambda>v. w\<lparr>vw := v\<rparr>) (vmm_space_unref a (vw w))"

subsection \<open>Environments\<close>

definition base_env :: "bool \<Rightarrow> u8 list" where
  "base_env en =
     concat (map (\<lambda>s. map of_char s @ [0])
       [''HOME=/home'', ''PATH=/bin'', ''USER=user'', ''SHELL=/bin/sh'',
        (if en then ''LANG=en_US.UTF-8'' else ''LANG=ru_RU.UTF-8''), ''TERM=xyuos''])"

definition env_inherit :: "bool \<Rightarrow> nat \<Rightarrow> kw \<Rightarrow> kw option" where
  "env_inherit en i w =
     (let src = (case current w of
                   Some c \<Rightarrow> if env (proc w c) \<noteq> 0 \<and> env_len (proc w c) \<noteq> 0
                              then take (unat (env_len (proc w c))) (envs w (env (proc w c))) else base_env en
                 | None \<Rightarrow> base_env en)
      in Option.bind (k_alloc (of_nat (length src) + 1) w) (\<lambda>(a, w1).
           if a = 0 then Some (upd i (\<lambda>p. p\<lparr>env := 0, env_len := 0\<rparr>) w1)
           else Some (upd i (\<lambda>p. p\<lparr>env := a, env_len := of_nat (length src)\<rparr>)
                        (w1\<lparr>envs := (envs w1)(a := src @ [0])\<rparr>))))"

definition process_env_get :: "u32 \<Rightarrow> kw \<Rightarrow> int \<times> u8 list" where
  "process_env_get room w =
     (case current w of
        None \<Rightarrow> (- 1, [])
      | Some c \<Rightarrow>
          let p = proc w c; n = (if env_len p < room then env_len p else room)
          in (uint (env_len p), take (unat n) (envs w (env p))))"

definition process_env_set :: "u8 list \<Rightarrow> u32 \<Rightarrow> kw \<Rightarrow> (int \<times> kw) option" where
  "process_env_set block len w =
     (case current w of
        None \<Rightarrow> Some (- 1, w)
      | Some c \<Rightarrow>
          if len > 65536 then Some (- 1, w)
          else Option.bind (k_alloc (ucast len + 1) w) (\<lambda>(n, w1).
            if n = 0 then Some (- 1, w1)
            else let w2 = w1\<lparr>envs := (envs w1)(n := take (unat len) block @ [0])\<rparr> in
              Option.bind (if env (proc w c) \<noteq> 0 then k_free (env (proc w c)) w2 else Some w2) (\<lambda>w3.
                Some (0, upd c (\<lambda>p. p\<lparr>env := n, env_len := len\<rparr>) w3))))"

subsection \<open>Slots\<close>

definition zero_process :: process where
  "zero_process =
     \<lparr>pid = 0, parent_pid = 0, is_thread = False, tgid = 0, tstack = 0, tstack_len = 0, pstate = PROC_UNUSED,
      stopped = False, pticks = 0, pname = [], asp = 0, ppml4 = 0, entry = 0, kstack = 0, kstack_top = 0,
      resume_kernel = False, saved_rsp = 0, kctx = In_none, pin = \<lparr>kind = STREAM_TERM, handle = 0\<rparr>,
      pout = \<lparr>kind = STREAM_TERM, handle = 0\<rparr>, wait_reason = WAIT_NONE, waiting_for = 0, wake_at = 0,
      exit_code = 0, sig_pending = 0, sig_blocked = 0, sig_restart = False, alarm_at = 0, env = 0, env_len = 0,
      fxstate = replicate 512 0\<rparr>"

definition init_process :: "int \<Rightarrow> int \<Rightarrow> string \<Rightarrow> process \<Rightarrow> process" where
  "init_process n parent name p =
     p\<lparr>pid := n, parent_pid := parent, pstate := PROC_READY, asp := 0, ppml4 := 0, entry := 0, exit_code := 0, kstack := 0,
       resume_kernel := False, wait_reason := WAIT_NONE, waiting_for := 0, wake_at := 0,
       sig_pending := 0, sig_blocked := 0, sig_restart := False, alarm_at := 0,
       pin := \<lparr>kind = STREAM_TERM, handle = - 1\<rparr>, pout := \<lparr>kind = STREAM_TERM, handle = - 1\<rparr>,
       pname := take (PROC_NAME_MAX - 1) name\<rparr>"

text \<open>
  \<^verbatim>\<open>next_pid\<close> is a C \<^verbatim>\<open>int\<close>: past \<^verbatim>\<open>INT_MAX\<close> it goes on from \<^verbatim>\<open>INT_MIN\<close>, as the increment of the machine does.
\<close>

definition int_succ :: "int \<Rightarrow> int" where
  "int_succ n = (n + 1 + 2147483648) mod 4294967296 - 2147483648"

lemma int_succ_small: "- 2147483648 \<le> n \<Longrightarrow> n < 2147483647 \<Longrightarrow> int_succ n = n + 1"
  by (simp add: int_succ_def)

definition proc_alloc :: "bool \<Rightarrow> string \<Rightarrow> kw \<Rightarrow> (nat option \<times> kw) option" where
  "proc_alloc en name w =
     (case first_idx (\<lambda>p. pstate p = PROC_UNUSED) (procs w) of
        None \<Rightarrow> Some (None, w)
      | Some i \<Rightarrow>
          Option.bind (if env (proc w i) \<noteq> 0 then k_free (env (proc w i)) w else Some w) (\<lambda>w1.
          Option.bind (env_inherit en i (upd i (\<lambda>_. zero_process) w1)) (\<lambda>w2.
            Some (Some i,
              upd i (init_process (next_pid w2) (case current w2 of Some c \<Rightarrow> pid (proc w2 c) | None \<Rightarrow> 0) name)
                (w2\<lparr>next_pid := int_succ (next_pid w2)\<rparr>)))))"

definition proc_reap :: "nat \<Rightarrow> kw \<Rightarrow> kw option" where
  "proc_reap i w =
     Option.bind (if kstack (proc w i) \<noteq> 0 then k_free (kstack (proc w i)) w else Some w) (\<lambda>w1.
       Some (upd i (\<lambda>p. p\<lparr>kstack := 0, pstate := PROC_UNUSED\<rparr>) w1))"

definition proc_abandon :: "nat \<Rightarrow> kw \<Rightarrow> kw option" where
  "proc_abandon i w =
     Option.bind (space_unref (asp (proc w i)) w) (\<lambda>w1.
       proc_reap i (upd i (\<lambda>p. p\<lparr>asp := 0, ppml4 := 0\<rparr>) w1))"

subsection \<open>Waking sleepers\<close>

definition wake :: "(process \<Rightarrow> bool) \<Rightarrow> process \<Rightarrow> process" where
  "wake P p = (if pstate p = PROC_BLOCKED \<and> P p then p\<lparr>pstate := PROC_READY\<rparr> else p)"

definition process_wake_pipe :: "kw \<Rightarrow> kw" where
  "process_wake_pipe w = w\<lparr>procs := map (wake (\<lambda>p. wait_reason p = WAIT_PIPE)) (procs w)\<rparr>"

definition process_wake_key :: "kw \<Rightarrow> kw" where
  "process_wake_key w = w\<lparr>procs := map (wake (\<lambda>p. wait_reason p = WAIT_KEY)) (procs w)\<rparr>"

definition wake_joiners_of :: "nat \<Rightarrow> kw \<Rightarrow> kw" where
  "wake_joiners_of d w =
     w\<lparr>procs := map (wake (\<lambda>p. wait_reason p = WAIT_THREAD \<and> waiting_for p = pid (proc w d))) (procs w)\<rparr>"

definition wake_parent_of :: "nat \<Rightarrow> kw \<Rightarrow> kw" where
  "wake_parent_of d w =
     (if parent_pid (proc w d) = 0 then w
      else case find_by_pid (parent_pid (proc w d)) w of
             None \<Rightarrow> w
           | Some i \<Rightarrow>
               if pstate (proc w i) \<noteq> PROC_BLOCKED then w
               else if waiting_for (proc w i) \<ge> 0 \<and> waiting_for (proc w i) \<noteq> pid (proc w d) then w
               else upd i (\<lambda>p. p\<lparr>pstate := PROC_READY\<rparr>) w)"

subsection \<open>Signals: what they do\<close>

definition SIGILL :: int where "SIGILL = 4"
definition SIGTRAP :: int where "SIGTRAP = 5"
definition SIGBUS :: int where "SIGBUS = 7"
definition SIGFPE :: int where "SIGFPE = 8"
definition SIGKILL :: int where "SIGKILL = 9"
definition SIGSEGV :: int where "SIGSEGV = 11"
definition SIGPIPE :: int where "SIGPIPE = 13"
definition SIGALRM :: int where "SIGALRM = 14"
definition SIGCHLD :: int where "SIGCHLD = 17"
definition SIGCONT :: int where "SIGCONT = 18"
definition SIGSTOP :: int where "SIGSTOP = 19"
definition SIGTSTP :: int where "SIGTSTP = 20"
definition SIGWINCH :: int where "SIGWINCH = 28"
definition SIG_DFL_ADDR :: u64 where "SIG_DFL_ADDR = 0"
definition SIG_IGN_ADDR :: u64 where "SIG_IGN_ADDR = 1"
definition SIGMASK_SET :: int where "SIGMASK_SET = 0"
definition SIGMASK_BLOCK :: int where "SIGMASK_BLOCK = 1"
definition SIGMASK_UNBLOCK :: int where "SIGMASK_UNBLOCK = 2"

lemmas signal_numbers = SIGILL_def SIGTRAP_def SIGBUS_def SIGFPE_def SIGKILL_def SIGSEGV_def SIGPIPE_def SIGALRM_def
  SIGCHLD_def SIGCONT_def SIGSTOP_def SIGTSTP_def SIGWINCH_def

definition SIGBIT :: "int \<Rightarrow> u32" where
  "SIGBIT n = push_bit (nat n) 1"

definition UNCATCHABLE :: u32 where
  "UNCATCHABLE = SIGBIT SIGKILL OR SIGBIT SIGSTOP"

datatype dfl = DFL_TERM | DFL_IGN | DFL_STOP | DFL_CONT

definition default_action :: "int \<Rightarrow> dfl" where
  "default_action signo =
     (if signo = SIGCHLD \<or> signo = SIGWINCH then DFL_IGN
      else if signo = SIGSTOP \<or> signo = SIGTSTP then DFL_STOP
      else if signo = SIGCONT then DFL_CONT
      else DFL_TERM)"

definition handler_of :: "kw \<Rightarrow> process \<Rightarrow> int \<Rightarrow> u64" where
  "handler_of w p signo =
     (if asp p = 0 then SIG_DFL_ADDR
      else if signo \<le> 0 \<or> signo \<ge> int NSIG then SIG_DFL_ADDR
      else sig_handler (spaces (vw w) (asp p)) ! nat signo)"

definition is_handler :: "u64 \<Rightarrow> bool" where
  "is_handler h \<longleftrightarrow> h > SIG_IGN_ADDR"

definition next_handled :: "kw \<Rightarrow> process \<Rightarrow> int option" where
  "next_handled w p =
     (let ready = sig_pending p AND NOT (sig_blocked p) in
      find (\<lambda>i. ready AND SIGBIT i \<noteq> 0 \<and> SIGBIT i AND UNCATCHABLE = 0 \<and> is_handler (handler_of w p i))
        [1..int NSIG - 1])"

definition signal_deliverable :: "kw \<Rightarrow> process \<Rightarrow> bool" where
  "signal_deliverable w p \<longleftrightarrow> next_handled w p \<noteq> None"

definition signal_no_restart :: "kw \<Rightarrow> kw" where
  "signal_no_restart w = (case current w of None \<Rightarrow> w | Some c \<Rightarrow> upd c (\<lambda>p. p\<lparr>sig_restart := False\<rparr>) w)"

subsection \<open>Sending\<close>

definition wakes :: "kw \<Rightarrow> process \<Rightarrow> int \<Rightarrow> bool" where
  "wakes w p signo =
     (if SIGBIT signo AND UNCATCHABLE \<noteq> 0 then True
      else if sig_blocked p AND SIGBIT signo \<noteq> 0 then False
      else if is_handler (handler_of w p signo) then True
      else if handler_of w p signo = SIG_IGN_ADDR then False
      else default_action signo \<noteq> DFL_IGN)"

definition post :: "kw \<Rightarrow> int \<Rightarrow> process \<Rightarrow> process" where
  "post w signo p =
     (let p1 = (if signo = SIGCONT
                then p\<lparr>stopped := False, sig_pending := sig_pending p AND NOT (SIGBIT SIGSTOP OR SIGBIT SIGTSTP)\<rparr>
                else p);
          p2 = (if signo = SIGSTOP \<or> signo = SIGTSTP
                then p1\<lparr>sig_pending := sig_pending p1 AND NOT (SIGBIT SIGCONT)\<rparr> else p1);
          p3 = p2\<lparr>sig_pending := sig_pending p2 OR SIGBIT signo\<rparr>
      in if pstate p3 = PROC_BLOCKED \<and> wakes w p3 signo then p3\<lparr>pstate := PROC_READY\<rparr> else p3)"

definition signal_post :: "nat option \<Rightarrow> int \<Rightarrow> kw \<Rightarrow> kw" where
  "signal_post po signo w =
     (case po of
        None \<Rightarrow> w
      | Some i \<Rightarrow>
          if signo \<le> 0 \<or> signo \<ge> int NSIG then w
          else if pstate (proc w i) = PROC_UNUSED \<or> pstate (proc w i) = PROC_ZOMBIE then w
          else upd i (post w signo) w)"

definition signal_send :: "int \<Rightarrow> int \<Rightarrow> kw \<Rightarrow> int \<times> kw" where
  "signal_send n signo w =
     (if signo < 0 \<or> signo \<ge> int NSIG then (- 1, w)
      else case process_by_pid n w of
             None \<Rightarrow> (- 1, w)
           | Some i \<Rightarrow>
               if pstate (proc w i) = PROC_UNUSED \<or> pstate (proc w i) = PROC_ZOMBIE then (- 1, w)
               else if signo = 0 then (0, w)
               else (0, signal_post (Some i) signo w))"

definition process_kill :: "int \<Rightarrow> kw \<Rightarrow> int \<times> kw" where
  "process_kill n w = signal_send n SIGKILL w"

subsection \<open>Dispositions\<close>

definition put_space :: "u64 \<Rightarrow> (addr_space \<Rightarrow> addr_space) \<Rightarrow> kw \<Rightarrow> kw" where
  "put_space a f w = w\<lparr>vw := set_space a (f (spaces (vw w) a)) (vw w)\<rparr>"

definition signal_set_handler :: "int \<Rightarrow> u64 \<Rightarrow> kw \<Rightarrow> u64 \<times> kw" where
  "signal_set_handler signo handler w =
     (case current w of
        None \<Rightarrow> (- 1, w)
      | Some c \<Rightarrow>
          let a = asp (proc w c); s = spaces (vw w) a in
          if a = 0 then (- 1, w)
          else if signo \<le> 0 \<or> signo \<ge> int NSIG then (- 1, w)
          else if SIGBIT signo AND UNCATCHABLE \<noteq> 0 then (- 1, w)
          else if is_handler handler \<and> \<not> vmm_user_range_ok handler 1 then (- 1, w)
          else if is_handler handler \<and> sig_tramp s = 0 then (- 1, w)
          else let old = sig_handler s ! nat signo;
                   w1 = put_space a (\<lambda>s. s\<lparr>sig_handler := (sig_handler s)[nat signo := handler]\<rparr>) w
               in (old, if old = SIG_IGN_ADDR
                        then upd c (\<lambda>p. p\<lparr>sig_pending := sig_pending p AND NOT (SIGBIT signo)\<rparr>) w1 else w1))"

definition signal_set_trampoline :: "u64 \<Rightarrow> kw \<Rightarrow> int \<times> kw" where
  "signal_set_trampoline addr w =
     (case current w of
        None \<Rightarrow> (- 1, w)
      | Some c \<Rightarrow>
          if asp (proc w c) = 0 then (- 1, w)
          else if \<not> vmm_user_range_ok addr 1 then (- 1, w)
          else (0, put_space (asp (proc w c)) (\<lambda>s. s\<lparr>sig_tramp := addr\<rparr>) w))"

definition signal_mask :: "int \<Rightarrow> u32 \<Rightarrow> kw \<Rightarrow> u32 \<times> kw" where
  "signal_mask how mask0 w =
     (case current w of
        None \<Rightarrow> (0, w)
      | Some c \<Rightarrow>
          let old = sig_blocked (proc w c);
              mask = mask0 AND NOT UNCATCHABLE;
              new = (if how = SIGMASK_SET then mask
                     else if how = SIGMASK_BLOCK then old OR mask
                     else if how = SIGMASK_UNBLOCK then old AND NOT mask
                     else old)
          in (old, upd c (\<lambda>p. p\<lparr>sig_blocked := new\<rparr>) w))"

definition signal_alarm :: "u64 \<Rightarrow> kw \<Rightarrow> int \<times> kw" where
  "signal_alarm ms w =
     (case current w of
        None \<Rightarrow> (- 1, w)
      | Some c \<Rightarrow>
          if ms = 0 then (0, upd c (\<lambda>p. p\<lparr>alarm_at := 0\<rparr>) w)
          else let t = (ms + 9) div 10; ticks = (if t = 0 then 1 else t)
               in (0, upd c (\<lambda>p. p\<lparr>alarm_at := now_ticks w + ticks\<rparr>) w))"

subsection \<open>The clock\<close>

definition alarm_step :: "u64 \<Rightarrow> nat \<Rightarrow> kw \<Rightarrow> kw" where
  "alarm_step now i w =
     (case process_at (int i) w of
        None \<Rightarrow> w
      | Some k \<Rightarrow>
          if alarm_at (proc w k) = 0 \<or> now < alarm_at (proc w k) then w
          else signal_post (Some k) SIGALRM (upd k (\<lambda>p. p\<lparr>alarm_at := 0\<rparr>) w))"

definition signal_tick :: "u64 \<Rightarrow> kw \<Rightarrow> kw" where
  "signal_tick now w = fold (alarm_step now) [0..<process_slots] w"

definition process_tick :: "u64 \<Rightarrow> kw \<Rightarrow> kw" where
  "process_tick now w =
     signal_tick now (w\<lparr>procs := map (wake (\<lambda>p. wait_reason p = WAIT_TIME \<and> now \<ge> wake_at p)) (procs w)\<rparr>)"

subsection \<open>The task manager's calls\<close>

definition process_suspend :: "int \<Rightarrow> kw \<Rightarrow> int \<times> kw" where
  "process_suspend n w =
     (case process_by_pid n w of
        None \<Rightarrow> (- 1, w)
      | Some i \<Rightarrow>
          if pstate (proc w i) = PROC_UNUSED \<or> pstate (proc w i) = PROC_ZOMBIE then (- 1, w)
          else if current w = Some i then (- 1, w)
          else (0, upd i (\<lambda>p. p\<lparr>stopped := True\<rparr>) w))"

definition process_resume :: "int \<Rightarrow> kw \<Rightarrow> int \<times> kw" where
  "process_resume n w =
     (case process_by_pid n w of
        None \<Rightarrow> (- 1, w)
      | Some i \<Rightarrow>
          if pstate (proc w i) = PROC_UNUSED then (- 1, w)
          else (0, upd i (\<lambda>p. p\<lparr>stopped := False\<rparr>) w))"

definition SI_NAME_MAX :: nat where "SI_NAME_MAX = 32"

record si_proc =
  si_pid :: int
  si_parent_pid :: int
  si_state :: proc_state
  si_pane :: bool
  si_stopped :: bool
  si_ticks :: u64
  si_name :: string

definition process_list :: "(int \<Rightarrow> bool) \<Rightarrow> nat \<Rightarrow> kw \<Rightarrow> si_proc list" where
  "process_list has_pane mx w =
     take mx (map (\<lambda>p. \<lparr>si_pid = pid p, si_parent_pid = parent_pid p, si_state = pstate p, si_pane = has_pane (pid p),
                       si_stopped = stopped p, si_ticks = pticks p, si_name = take (SI_NAME_MAX - 1) (pname p)\<rparr>)
       (filter (\<lambda>p. pstate p \<noteq> PROC_UNUSED) (procs w)))"

definition child_of :: "kw \<Rightarrow> int \<Rightarrow> int option" where
  "child_of w n =
     map_option (\<lambda>i. pid (proc w i))
       (first_idx (\<lambda>p. pstate p \<noteq> PROC_UNUSED \<and> pstate p \<noteq> PROC_ZOMBIE \<and> parent_pid p = n) (procs w))"

fun foreground_from :: "nat \<Rightarrow> kw \<Rightarrow> int \<Rightarrow> int" where
  "foreground_from 0 w n = n"
| "foreground_from (Suc depth) w n =
     (case child_of w n of
        None \<Rightarrow> n
      | Some c \<Rightarrow> if c < 0 then n else foreground_from depth w c)"

definition process_foreground :: "int \<Rightarrow> kw \<Rightarrow> int" where
  "process_foreground n w = foreground_from MAX_PROCESSES w n"

definition process_make_session_root :: "int \<Rightarrow> kw \<Rightarrow> kw" where
  "process_make_session_root n w =
     (case process_by_pid n w of None \<Rightarrow> w | Some i \<Rightarrow> upd i (\<lambda>p. p\<lparr>parent_pid := 0\<rparr>) w)"

end
