(* ===== verification/Proc_Exit.thy ===== *)
theory Proc_Exit
  imports Proc_Table
begin

text \<open>
  How a process ends, and the pipes its end closes: the pipe object, \<^verbatim>\<open>stream_release\<close>,
  \<^verbatim>\<open>reap_dead_threads\<close> and \<^verbatim>\<open>process_notify_exit\<close> of \<^verbatim>\<open>kernel/kernel/process.c\<close>, and
  the safe-point check \<^verbatim>\<open>signal_check\<close> of \<^verbatim>\<open>kernel/kernel/signal.c\<close>, which ends processes.
  The buffer of a pipe is indexed by the \<^verbatim>\<open>uint32_t\<close> positions the code keeps.
\<close>

subsection \<open>The pipe object\<close>

definition pipe_create :: "kw \<Rightarrow> int \<times> kw" where
  "pipe_create w =
     (case first_idx (\<lambda>p. \<not> in_use p) (pipes w) of
        None \<Rightarrow> (- 1, w)
      | Some i \<Rightarrow>
          (int i, upd_pipe i (\<lambda>p. p\<lparr>in_use := True, head := 0, tail := 0, pcount := 0, write_open := True,
                                  read_open := True, writer_pid := 0, reader_pid := 0\<rparr>) w))"

definition pipe_attach_writer :: "nat \<Rightarrow> int \<Rightarrow> kw \<Rightarrow> kw" where
  "pipe_attach_writer idx n w = upd_pipe idx (\<lambda>p. p\<lparr>writer_pid := n\<rparr>) w"

definition pipe_attach_reader :: "nat \<Rightarrow> int \<Rightarrow> kw \<Rightarrow> kw" where
  "pipe_attach_reader idx n w = upd_pipe idx (\<lambda>p. p\<lparr>reader_pid := n\<rparr>) w"

definition pipe_close :: "int \<Rightarrow> kw \<Rightarrow> kw" where
  "pipe_close idx w =
     (if idx < 0 \<or> idx \<ge> int MAX_PIPES \<or> \<not> in_use (pipes w ! nat idx) then w
      else process_wake_pipe
             (upd_pipe (nat idx) (\<lambda>p. p\<lparr>write_open := False, read_open := False, in_use := False\<rparr>) w))"

definition pipe_maybe_free :: "int \<Rightarrow> kw \<Rightarrow> kw" where
  "pipe_maybe_free idx w =
     (if idx < 0 \<or> idx \<ge> int MAX_PIPES then w
      else if \<not> write_open (pipes w ! nat idx) \<and> \<not> read_open (pipes w ! nat idx)
      then upd_pipe (nat idx) (\<lambda>p. p\<lparr>in_use := False\<rparr>) w
      else w)"

fun put_bytes :: "u8 list \<Rightarrow> pipe \<Rightarrow> u8 list \<times> pipe" where
  "put_bytes [] p = ([], p)"
| "put_bytes (b # bs) p =
     (if pcount p < PIPE_BUF_SIZE
      then put_bytes bs (p\<lparr>pbuf := (pbuf p)(head p := b), head := (head p + 1) mod PIPE_BUF_SIZE, pcount := pcount p + 1\<rparr>)
      else (b # bs, p))"

fun get_bytes :: "nat \<Rightarrow> pipe \<Rightarrow> u8 list \<times> pipe" where
  "get_bytes 0 p = ([], p)"
| "get_bytes (Suc n) p =
     (if pcount p > 0
      then (case get_bytes n (p\<lparr>tail := (tail p + 1) mod PIPE_BUF_SIZE, pcount := pcount p - 1\<rparr>) of
              (bs, p') \<Rightarrow> (pbuf p (tail p) # bs, p'))
      else ([], p))"

subsection \<open>Letting streams go\<close>

definition release_pipe :: "int \<Rightarrow> nat \<Rightarrow> kw \<Rightarrow> kw" where
  "release_pipe n i w =
     (let w1 = (if writer_pid (pipes w ! i) = n then upd_pipe i (\<lambda>p. p\<lparr>write_open := False\<rparr>) w else w);
          w2 = (if reader_pid (pipes w1 ! i) = n
                then let wr = upd_pipe i (\<lambda>p. p\<lparr>read_open := False\<rparr>) w1; p = pipes wr ! i
                     in if write_open p \<and> writer_pid p \<noteq> 0 then snd (signal_send (writer_pid p) SIGPIPE wr) else wr
                else w1)
      in pipe_maybe_free (int i) (process_wake_pipe w2))"

definition stream_release :: "nat \<Rightarrow> pstream \<Rightarrow> kw \<Rightarrow> pstream \<times> kw" where
  "stream_release c s w =
     (\<lparr>kind = STREAM_TERM, handle = - 1\<rparr>,
      case kind s of
        STREAM_FILE \<Rightarrow> call (Vfs_close (handle s)) w
      | STREAM_PIPE \<Rightarrow>
          if handle s \<ge> 0 \<and> handle s < int MAX_PIPES \<and> in_use (pipes w ! nat (handle s))
          then release_pipe (pid (proc w c)) (nat (handle s)) w else w
      | STREAM_TERM \<Rightarrow> w)"

definition release_in :: "nat \<Rightarrow> kw \<Rightarrow> kw" where
  "release_in d w = (case stream_release d (pin (proc w d)) w of (s, w1) \<Rightarrow> upd d (\<lambda>p. p\<lparr>pin := s\<rparr>) w1)"

definition release_out :: "nat \<Rightarrow> kw \<Rightarrow> kw" where
  "release_out d w = (case stream_release d (pout (proc w d)) w of (s, w1) \<Rightarrow> upd d (\<lambda>p. p\<lparr>pout := s\<rparr>) w1)"

subsection \<open>The end of a process\<close>

definition reap_thread :: "nat \<Rightarrow> kw \<Rightarrow> kw option" where
  "reap_thread i w =
     (if current w = Some i then Some w
      else if \<not> is_thread (proc w i) \<or> pstate (proc w i) \<noteq> PROC_ZOMBIE then Some w
      else Option.bind (space_unref (asp (proc w i)) w) (\<lambda>w1.
             proc_reap i (upd i (\<lambda>p. p\<lparr>asp := 0, ppml4 := 0, is_thread := False\<rparr>) w1)))"

fun reap_threads :: "nat list \<Rightarrow> kw \<Rightarrow> kw option" where
  "reap_threads [] w = Some w"
| "reap_threads (i # js) w = Option.bind (reap_thread i w) (reap_threads js)"

definition reap_dead_threads :: "kw \<Rightarrow> kw option" where
  "reap_dead_threads w = reap_threads [0..<MAX_PROCESSES] w"

definition end_thread :: "nat \<Rightarrow> kw \<Rightarrow> kw option" where
  "end_thread d w =
     (let p = proc w d in
      map_option (wake_joiners_of d)
        (if tstack p \<noteq> 0
         then map_option (\<lambda>(_, v). w\<lparr>vw := v\<rparr>) (vmm_munmap (tstack p) (tstack_len p) (view w))
         else Some w))"

definition end_program :: "nat \<Rightarrow> kw \<Rightarrow> kw" where
  "end_program d w =
     (let w1 = release_out d (release_in d w);
          w2 = wake_parent_of d (call (Sock_release_owner (pid (proc w1 d))) w1);
          w3 = (if parent_pid (proc w2 d) \<noteq> 0 then snd (signal_send (parent_pid (proc w2 d)) SIGCHLD w2) else w2)
      in call (Wm_notify_exit (pid (proc w3 d))) w3)"

definition process_notify_exit :: "int \<Rightarrow> kw \<Rightarrow> kw option" where
  "process_notify_exit code w =
     (case current w of
        None \<Rightarrow> None
      | Some d \<Rightarrow>
          Option.bind (reap_dead_threads w) (\<lambda>w1.
          let w2 = (upd d (\<lambda>p. p\<lparr>exit_code := code, pstate := PROC_ZOMBIE\<rparr>) w1)\<lparr>last_exit_code := code\<rparr> in
          Option.bind (if is_thread (proc w2 d) then end_thread d w2 else Some (end_program d w2)) (\<lambda>w3.
          let w4 = upd_cpu (\<lambda>c. c\<lparr>current_proc := None, cr3 := kernel_space w3, cpu_kstack := 0\<rparr>) w3 in
          Option.bind (if is_thread (proc w4 d) then Some w4
                       else map_option (upd d (\<lambda>p. p\<lparr>asp := 0, ppml4 := 0\<rparr>)) (space_unref (asp (proc w4 d)) w4)) (\<lambda>w5.
          if parent_pid (proc w5 d) = 0 \<and> \<not> is_thread (proc w5 d) then proc_reap d w5 else Some w5))))"

subsection \<open>The safe-point check\<close>

definition due :: "(int \<Rightarrow> u64) \<Rightarrow> process \<Rightarrow> int option" where
  "due h p =
     (let ready = sig_pending p AND NOT (sig_blocked p) in
      find (\<lambda>i. ready AND SIGBIT i \<noteq> 0 \<and> \<not> (is_handler (h i) \<and> SIGBIT i AND UNCATCHABLE = 0)) [1..int NSIG - 1])"

definition unpend :: "int \<Rightarrow> process \<Rightarrow> process" where
  "unpend s p = p\<lparr>sig_pending := sig_pending p AND NOT (SIGBIT s)\<rparr>"

lemma SIGBIT_bit: "0 \<le> s \<Longrightarrow> bit (SIGBIT s) n \<longleftrightarrow> n = nat s \<and> n < 32"
  by (auto simp: SIGBIT_def bit_exp_iff)

lemma and_SIGBIT:
  assumes "0 \<le> s" and "s < 32"
  shows "x AND SIGBIT s \<noteq> 0 \<longleftrightarrow> bit x (nat s)"
proof -
  have "x AND SIGBIT s = 0 \<longleftrightarrow> (\<forall>n. \<not> bit (x AND SIGBIT s) n)"
    by (auto intro: bit_word_eqI)
  then show ?thesis using assms by (auto simp: bit_and_iff SIGBIT_bit)
qed

lemma due_Some:
  assumes "due h p = Some s"
  shows "1 \<le> s \<and> s < 32 \<and> bit (sig_pending p) (nat s) \<and> \<not> bit (sig_blocked p) (nat s)
    \<and> \<not> (is_handler (h s) \<and> SIGBIT s AND UNCATCHABLE = 0)"
proof -
  have m: "s \<in> set [1..int NSIG - 1]" and r: "(sig_pending p AND NOT (sig_blocked p)) AND SIGBIT s \<noteq> 0"
    and c: "\<not> (is_handler (h s) \<and> SIGBIT s AND UNCATCHABLE = 0)"
    using assms by (auto simp: due_def Let_def find_Some_iff set_conv_nth)
  have s: "1 \<le> s" "s < 32" using m by (auto simp: NSIG_def)
  have "bit (sig_pending p AND NOT (sig_blocked p)) (nat s)"
    using r and_SIGBIT [of s "sig_pending p AND NOT (sig_blocked p)"] s by simp
  then show ?thesis using s c by (simp add: bit_and_iff bit_not_iff)
qed

lemma unpend_less:
  assumes "due h p = Some s"
  shows "unat (sig_pending (unpend s p)) < unat (sig_pending p)"
proof -
  have s: "0 \<le> s" "s < 32" "bit (sig_pending p) (nat s)" using due_Some [OF assms] by auto
  have "\<not> bit (sig_pending (unpend s p)) (nat s)" using s by (simp add: unpend_def bit_and_iff bit_not_iff SIGBIT_bit)
  then have "sig_pending (unpend s p) \<noteq> sig_pending p" using s by auto
  moreover have "sig_pending (unpend s p) \<le> sig_pending p" by (simp add: unpend_def word_and_le2)
  ultimately have "sig_pending (unpend s p) < sig_pending p" by (simp add: order_less_le)
  then show ?thesis by (simp add: word_less_nat_alt)
qed

function check_signals :: "(int \<Rightarrow> u64) \<Rightarrow> process \<Rightarrow> int option \<times> process" where
  "check_signals h p =
     (case due h p of
        None \<Rightarrow> (None, p)
      | Some signo \<Rightarrow>
          let p1 = unpend signo p in
          if h signo = SIG_IGN_ADDR \<and> SIGBIT signo AND UNCATCHABLE = 0 then check_signals h p1
          else (case default_action signo of
                  DFL_IGN \<Rightarrow> check_signals h p1
                | DFL_CONT \<Rightarrow> check_signals h (p1\<lparr>stopped := False\<rparr>)
                | DFL_STOP \<Rightarrow> check_signals h (p1\<lparr>stopped := True\<rparr>)
                | DFL_TERM \<Rightarrow> (Some signo, p1)))"
  by pat_completeness auto
termination
  by (relation "measure (\<lambda>(h, p). unat (sig_pending p))")
     (auto simp: unpend_less)

declare check_signals.simps [simp del]

definition signal_check :: "kw \<Rightarrow> (bool \<times> kw) option" where
  "signal_check w =
     (case current w of
        None \<Rightarrow> Some (True, w)
      | Some c \<Rightarrow>
          (case check_signals (handler_of w (proc w c)) (proc w c) of
             (None, p) \<Rightarrow> Some (True, upd c (\<lambda>_. p) w)
           | (Some signo, p) \<Rightarrow> map_option (Pair False) (process_notify_exit (128 + signo) (upd c (\<lambda>_. p) w))))"

end
