(* ===== verification/Signal.thy ===== *)
theory Signal
  imports Proc_Exit
begin

text \<open>
  Running a program's signal handlers: the delivery half of \<^verbatim>\<open>kernel/kernel/signal.c\<close>. The frame is
  written to and read from the program's own stack, byte by byte, through the page
  tables in \<^verbatim>\<open>CR3\<close> into physical memory. A
  touch of a user address that has no page goes to \<^verbatim>\<open>vmm_fault\<close>, as the page-fault handler of
  \<^verbatim>\<open>kernel/arch/x86_64/idt.c\<close> does for the kernel's own accesses; where that builds nothing the kernel
  panics, which is \<open>None\<close>. Writes by the kernel are not subject to a page's write permission, since
  \<^verbatim>\<open>CR0.WP\<close> is never set.
\<close>

subsection \<open>The program's memory\<close>

definition core_cr3 :: "kw \<Rightarrow> u64" where
  "core_cr3 w = cr3 (cpus w ! me w)"

definition user_pa :: "u64 \<Rightarrow> u64 \<Rightarrow> u64 \<Rightarrow> vmw \<Rightarrow> (u64 \<times> vmw) option" where
  "user_pa pm va err v =
     (case paging_translate pm va (mem v) of
        (t, m) \<Rightarrow>
          if t \<noteq> 0 then Some (t, set_mem m v)
          else (case vmm_fault va err (set_mem m v) of
                  (ok, v1) \<Rightarrow>
                    if \<not> ok then None
                    else (case paging_translate pm va (mem v1) of
                            (t1, m1) \<Rightarrow> if t1 \<noteq> 0 then Some (t1, set_mem m1 v1) else None)))"

definition poke :: "u64 \<Rightarrow> u8 \<Rightarrow> vmw \<Rightarrow> vmw" where
  "poke pa b v = set_mem ((mem v)\<lparr>ram := (ram (mem v))(pa := b)\<rparr>) v"

fun user_write :: "u64 \<Rightarrow> u64 \<Rightarrow> u8 list \<Rightarrow> vmw \<Rightarrow> vmw option" where
  "user_write pm va [] v = Some v"
| "user_write pm va (b # bs) v =
     Option.bind (user_pa pm va PF_WRITE v) (\<lambda>(pa, v1). user_write pm (va + 1) bs (poke pa b v1))"

fun user_read :: "u64 \<Rightarrow> u64 \<Rightarrow> nat \<Rightarrow> vmw \<Rightarrow> (u8 list \<times> vmw) option" where
  "user_read pm va 0 v = Some ([], v)"
| "user_read pm va (Suc n) v =
     Option.bind (user_pa pm va 0 v) (\<lambda>(pa, v1).
       map_option (\<lambda>(bs, v2). (ram (mem v1) pa # bs, v2)) (user_read pm (va + 1) n v1))"

subsection \<open>Frames as bytes\<close>

definition le_bytes :: "u64 \<Rightarrow> u8 list" where
  "le_bytes x = map (\<lambda>i. ucast (drop_bit (8 * i) x)) [0..<8]"

definition le_word :: "u8 list \<Rightarrow> u64" where
  "le_word bs = foldr (\<lambda>b acc. ucast b OR push_bit 8 acc) bs 0"

record sigframe =
  fx :: "u8 list"
  magic :: u64
  from_door :: u64
  blocked :: u64
  signo :: u64
  ctx :: intr_frame

definition frame_words :: "intr_frame \<Rightarrow> u64 list" where
  "frame_words f =
     [r15 f, r14 f, r13 f, r12 f, r11 f, r10 f, r9 f, r8 f, rbp f, rdi f, rsi f, rdx f, rcx f, rbx f, rax f,
      int_no f, err_code f, rip f, cs f, rflags f, rsp f, ss f]"

definition words_frame :: "u64 list \<Rightarrow> intr_frame" where
  "words_frame x =
     \<lparr>r15 = x!0, r14 = x!1, r13 = x!2, r12 = x!3, r11 = x!4, r10 = x!5, r9 = x!6, r8 = x!7, rbp = x!8, rdi = x!9,
      rsi = x!10, rdx = x!11, rcx = x!12, rbx = x!13, rax = x!14, int_no = x!15, err_code = x!16, rip = x!17,
      cs = x!18, rflags = x!19, rsp = x!20, ss = x!21\<rparr>"

definition sigframe_bytes :: "sigframe \<Rightarrow> u8 list" where
  "sigframe_bytes s =
     fx s @ concat (map le_bytes ([magic s, from_door s, blocked s, signo s] @ frame_words (ctx s)))"

fun words_of :: "nat \<Rightarrow> u8 list \<Rightarrow> u64 list" where
  "words_of 0 bs = []"
| "words_of (Suc n) bs = le_word (take 8 bs) # words_of n (drop 8 bs)"

definition sigframe_of :: "u8 list \<Rightarrow> sigframe" where
  "sigframe_of bs =
     (let ws = words_of 26 (drop 512 bs) in
      \<lparr>fx = take 512 bs, magic = ws!0, from_door = ws!1, blocked = ws!2, signo = ws!3, ctx = words_frame (drop 4 ws)\<rparr>)"

definition SIGFRAME_MAGIC :: u64 where "SIGFRAME_MAGIC = 0x5849554F53534947"
definition SIGFROM_SYSCALL :: u64 where "SIGFROM_SYSCALL = 1"
definition SIGFROM_INTERRUPT :: u64 where "SIGFROM_INTERRUPT = 2"
definition SIGFRAME_SIZE :: nat where "SIGFRAME_SIZE = 720"

record syscall_frame =
  s_r10 :: u64
  s_r9 :: u64
  s_r8 :: u64
  s_rdx :: u64
  s_rsi :: u64
  s_rdi :: u64
  s_rflags :: u64
  s_rip :: u64
  s_user_rsp :: u64

subsection \<open>Delivery\<close>

definition core_fpu :: "kw \<Rightarrow> u8 list" where
  "core_fpu w = fpu (cpus w ! me w)"

text \<open>\<open>Some (None, w)\<close> is the 0 \<open>deliver\<close> returns when the frame cannot be placed.\<close>

definition deliver :: "nat \<Rightarrow> int \<Rightarrow> u64 \<Rightarrow> sigframe \<Rightarrow> kw \<Rightarrow> (sigframe option \<times> kw) option" where
  "deliver c sig h sf w =
     (let p = proc w c; tramp = (if asp p \<noteq> 0 then sig_tramp (spaces (vw w) (asp p)) else 0) in
      if tramp = 0 then Some (None, w)
      else let at = ((rsp (ctx sf) - 128) - of_nat SIGFRAME_SIZE) AND NOT 0xF; sp = at - 8 in
        Option.bind (vmm_touch_write sp (of_nat SIGFRAME_SIZE + 8) (view w)) (\<lambda>(ok, v).
          if \<not> ok then Some (None, w\<lparr>vw := v\<rparr>)
          else let sf1 = sf\<lparr>magic := SIGFRAME_MAGIC, blocked := ucast (sig_blocked p), signo := word_of_int sig\<rparr> in
            Option.bind (user_write (core_cr3 w) at (sigframe_bytes (sf1\<lparr>fx := core_fpu w\<rparr>)) v) (\<lambda>v1.
            Option.bind (user_write (core_cr3 w) sp (le_bytes tramp) v1) (\<lambda>v2.
              Some (Some (sf1\<lparr>ctx := (ctx sf1)\<lparr>rsp := sp, rip := h, rdi := word_of_int sig,
                                rflags := rflags (ctx sf1) AND NOT 0x400\<rparr>\<rparr>),
                    upd c (\<lambda>p. p\<lparr>sig_blocked := sig_blocked p OR SIGBIT sig, sig_pending := sig_pending p AND NOT (SIGBIT sig)\<rparr>)
                      (w\<lparr>vw := v2\<rparr>))))))"

definition deliver_failed :: "int \<Rightarrow> kw \<Rightarrow> kw option" where
  "deliver_failed sig w = process_notify_exit (128 + sig) w"

definition zero_frame :: intr_frame where
  "zero_frame = words_frame (replicate 22 0)"

definition syscall_sigframe :: "bool \<Rightarrow> u64 \<Rightarrow> u64 \<Rightarrow> syscall_frame \<Rightarrow> sigframe" where
  "syscall_sigframe restart num ret f =
     \<lparr>fx = replicate 512 0, magic = 0, from_door = SIGFROM_SYSCALL, blocked = 0, signo = 0,
      ctx = zero_frame\<lparr>rax := (if restart then num else ret), rip := (if restart then s_rip f - 2 else s_rip f),
              rdi := s_rdi f, rsi := s_rsi f, rdx := s_rdx f, r8 := s_r8 f, r9 := s_r9 f, r10 := s_r10 f,
              rflags := s_rflags f, rsp := s_user_rsp f, cs := USER_CS, ss := USER_SS\<rparr>\<rparr>"

definition load_syscall :: "intr_frame \<Rightarrow> syscall_frame" where
  "load_syscall x =
     \<lparr>s_r10 = r10 x, s_r9 = r9 x, s_r8 = r8 x, s_rdx = rdx x, s_rsi = rsi x, s_rdi = rdi x,
      s_rflags = rflags x, s_rip = rip x, s_user_rsp = rsp x\<rparr>"

text \<open>The answer is the rewritten frame, or \<open>None\<close> when the process ended instead.\<close>

definition signal_on_syscall_return ::
  "syscall_frame \<Rightarrow> u64 \<Rightarrow> u64 \<Rightarrow> kw \<Rightarrow> (syscall_frame option \<times> kw) option" where
  "signal_on_syscall_return f num ret w =
     (case current w of
        None \<Rightarrow> Some (Some f, w)
      | Some c \<Rightarrow>
          let restart = sig_restart (proc w c); w1 = upd c (\<lambda>p. p\<lparr>sig_restart := False\<rparr>) w in
          (case next_handled w1 (proc w1 c) of
             None \<Rightarrow> Some (Some f, w1)
           | Some sig \<Rightarrow>
               Option.bind (deliver c sig (handler_of w1 (proc w1 c) sig) (syscall_sigframe restart num ret f) w1)
                 (\<lambda>(r, w2).
                    case r of
                      None \<Rightarrow> map_option (Pair None) (deliver_failed sig w2)
                    | Some sf \<Rightarrow> Some (Some (load_syscall (ctx sf)), w2))))"

definition frame_to_sigframe :: "intr_frame \<Rightarrow> sigframe \<Rightarrow> sigframe" where
  "frame_to_sigframe f sf = sf\<lparr>ctx := f\<lparr>int_no := 0, err_code := 0\<rparr>\<rparr>"

definition sigframe_to_frame :: "sigframe \<Rightarrow> intr_frame" where
  "sigframe_to_frame sf = (ctx sf)\<lparr>int_no := 0, err_code := 0, cs := USER_CS, ss := USER_SS\<rparr>"

text \<open>\<open>junk\<close> is what the uninitialised local \<^verbatim>\<open>struct sigframe\<close> holds before it is filled in.\<close>

definition signal_on_interrupt_return ::
  "sigframe \<Rightarrow> intr_frame \<Rightarrow> kw \<Rightarrow> (intr_frame option \<times> kw) option" where
  "signal_on_interrupt_return junk f w =
     (case current w of
        None \<Rightarrow> Some (Some f, w)
      | Some c \<Rightarrow>
          if cs f AND 3 \<noteq> 3 then Some (Some f, w)
          else (case next_handled w (proc w c) of
             None \<Rightarrow> Some (Some f, w)
           | Some sig \<Rightarrow>
               Option.bind (deliver c sig (handler_of w (proc w c) sig)
                              ((frame_to_sigframe f junk)\<lparr>from_door := SIGFROM_INTERRUPT\<rparr>) w)
                 (\<lambda>(r, w2).
                    case r of
                      None \<Rightarrow> map_option (Pair None) (deliver_failed sig w2)
                    | Some sf \<Rightarrow>
                        Some (Some (f\<lparr>rip := rip (ctx sf), rflags := rflags (ctx sf), rsp := rsp (ctx sf),
                                     rdi := rdi (ctx sf)\<rparr>), w2))))"

definition fault_signal :: "nat \<Rightarrow> int option" where
  "fault_signal n =
     (if n = 0 \<or> n = 16 \<or> n = 19 then Some SIGFPE
      else if n = 6 then Some SIGILL
      else if n = 3 \<or> n = 1 then Some SIGTRAP
      else if n = 13 \<or> n = 14 \<or> n = 12 then Some SIGSEGV
      else if n = 17 then Some SIGBUS
      else None)"

definition signal_from_fault :: "sigframe \<Rightarrow> intr_frame \<Rightarrow> nat \<Rightarrow> kw \<Rightarrow> (bool \<times> intr_frame option \<times> kw) option" where
  "signal_from_fault junk f n w =
     (case current w of
        None \<Rightarrow> Some (False, Some f, w)
      | Some c \<Rightarrow>
          (case fault_signal n of
             None \<Rightarrow> Some (False, Some f, w)
           | Some sig \<Rightarrow>
               let p = proc w c in
               if \<not> is_handler (handler_of w p sig) then Some (False, Some f, w)
               else if sig_blocked p AND SIGBIT sig \<noteq> 0 then Some (False, Some f, w)
               else map_option (Pair True)
                      (signal_on_interrupt_return junk f
                        (upd c (\<lambda>p. p\<lparr>sig_pending := sig_pending p OR SIGBIT sig\<rparr>) w))))"

subsection \<open>Coming back\<close>

text \<open>
  The answer of \<open>signal_return\<close>: an error, the system call's value with its frame rewritten, or the interrupt frame
  it leaves through, never returning.
\<close>

datatype sigret = Bad_frame | Back_syscall u64 syscall_frame | Back_interrupt intr_frame

definition signal_return :: "syscall_frame \<Rightarrow> u64 \<Rightarrow> kw \<Rightarrow> (sigret \<times> kw) option" where
  "signal_return f uframe w =
     (case current w of
        None \<Rightarrow> Some (Bad_frame, w)
      | Some c \<Rightarrow>
          if \<not> vmm_user_range_ok uframe (of_nat SIGFRAME_SIZE) then Some (Bad_frame, w)
          else if uframe AND 15 \<noteq> 0 then Some (Bad_frame, w)
          else Option.bind (user_read (core_cr3 w) (uframe + 512) 8 (view w)) (\<lambda>(mg, v0).
            if le_word mg \<noteq> SIGFRAME_MAGIC then Some (Bad_frame, w\<lparr>vw := v0\<rparr>)
            else Option.bind (user_read (core_cr3 w) uframe SIGFRAME_SIZE v0) (\<lambda>(bs, v).
              let sf = sigframe_of bs;
                  w1 = upd c (\<lambda>p. p\<lparr>sig_blocked := ucast (blocked sf)\<rparr>) (upd_cpu (\<lambda>k. k\<lparr>fpu := fx sf\<rparr>) (w\<lparr>vw := v\<rparr>))
              in if from_door sf = SIGFROM_SYSCALL then Some (Back_syscall (rax (ctx sf)) (load_syscall (ctx sf)), w1)
                 else Some (Back_interrupt (sigframe_to_frame sf), w1))))"

end
