(* ===== verification/Scheduler.thy ===== *)
theory Scheduler
  imports Signal
begin

text \<open>
  Who runs: the round-robin scheduler, blocking and waking, waiting for children and threads, pipe reads and writes
  and threads, from \<^verbatim>\<open>kernel/kernel/process.c\<close>. A step of the kernel ends in one of three ways: a system call
  hands a value back to the system call layer (\<open>Ret\<close>, with the bytes stored in the caller's buffer), the core
  returns to the register frame at an address (\<open>Frame\<close>), or it jumps to its own scheduler loop (\<open>Idle\<close>, which
  includes the two assignments that loop begins with). A process that blocks leaves what it was doing in \<open>kctx\<close>; being
  picked again runs \<open>resume_kont\<close>, the code after the \<^verbatim>\<open>kctx_save\<close>.
\<close>

datatype flow = Ret int "u8 list" | Frame u64 | Idle

definition go_idle :: "kw \<Rightarrow> flow \<times> kw" where
  "go_idle w = (Idle, upd_cpu (\<lambda>c. c\<lparr>current_proc := None, cpu_kstack := 0\<rparr>) w)"

subsection \<open>Choosing and switching\<close>

definition runnable :: "process \<Rightarrow> bool" where
  "runnable p \<longleftrightarrow> pstate p = PROC_READY \<and> \<not> stopped p"

definition pick_next :: "nat option \<Rightarrow> kw \<Rightarrow> nat option" where
  "pick_next after w =
     (let start = (case after of None \<Rightarrow> (rr_last w + 1) mod MAX_PROCESSES | Some a \<Rightarrow> a + 1) in
      find (\<lambda>i. runnable (proc w i)) (map (\<lambda>n. (start + n) mod MAX_PROCESSES) [0..<MAX_PROCESSES]))"

definition activate :: "nat \<Rightarrow> kw \<Rightarrow> kw" where
  "activate i w =
     (let p = proc w i in
      upd_cpu (\<lambda>c. c\<lparr>current_proc := Some i, cr3 := ppml4 p, tss_rsp0 := kstack_top p, cpu_kstack := kstack_top p,
                     fpu := fxstate p\<rparr>)
        ((upd i (\<lambda>p. p\<lparr>pstate := PROC_RUNNING\<rparr>) w)\<lparr>rr_last := i\<rparr>))"

definition put_down :: "nat \<Rightarrow> kw \<Rightarrow> kw" where
  "put_down c w = upd c (\<lambda>p. p\<lparr>resume_kernel := False, pstate := PROC_READY, fxstate := core_fpu w\<rparr>) w"

subsection \<open>Blocking and being woken\<close>

definition block_current :: "nat \<Rightarrow> kont \<Rightarrow> kw \<Rightarrow> flow \<times> kw" where
  "block_current c k w = go_idle (upd c (\<lambda>p. p\<lparr>resume_kernel := True, fxstate := core_fpu w, kctx := k\<rparr>) w)"

definition block_on :: "nat \<Rightarrow> wait_why \<Rightarrow> kont \<Rightarrow> kw \<Rightarrow> flow \<times> kw" where
  "block_on c why k w = block_current c k (upd c (\<lambda>p. p\<lparr>pstate := PROC_BLOCKED, wait_reason := why\<rparr>) w)"

text \<open>
  The second half of \<open>block_current\<close>, with its caller's clearing of \<^verbatim>\<open>wait_reason\<close>: \<open>None\<close> when a pending
  signal ended the process, otherwise whether a handler wants to run.
\<close>

definition woken :: "nat \<Rightarrow> kw \<Rightarrow> (bool option \<times> kw) option" where
  "woken c w =
     Option.bind (signal_check w) (\<lambda>(alive, w1).
       if \<not> alive then Some (None, w1)
       else let sig = signal_deliverable w1 (proc w1 c)
            in Some (Some sig, upd c (\<lambda>p. p\<lparr>sig_restart := (if sig then True else sig_restart p),
                                            wait_reason := WAIT_NONE\<rparr>) w1))"

definition process_yield :: "kw \<Rightarrow> flow \<times> kw" where
  "process_yield w =
     (case current w of
        None \<Rightarrow> (Ret 0 [], w)
      | Some c \<Rightarrow>
          if pick_next (Some c) w = None then (Ret 0 [], w)
          else block_current c In_yield (upd c (\<lambda>p. p\<lparr>pstate := PROC_READY\<rparr>) w))"

definition process_block_on_key :: "kw \<Rightarrow> flow \<times> kw" where
  "process_block_on_key w =
     (case current w of None \<Rightarrow> (Ret 0 [], w) | Some c \<Rightarrow> block_on c WAIT_KEY In_key w)"

definition process_sleep_ms :: "u64 \<Rightarrow> kw \<Rightarrow> flow \<times> kw" where
  "process_sleep_ms ms w =
     (case current w of
        None \<Rightarrow> (Ret 0 [], w)
      | Some c \<Rightarrow>
          let t = (ms + 10 - 1) div 10; ticks = (if t = 0 then 1 else t)
          in block_on c WAIT_TIME In_sleep (upd c (\<lambda>p. p\<lparr>wake_at := now_ticks w + ticks\<rparr>) w))"

subsection \<open>Waiting for children and threads\<close>

definition waits_for :: "kw \<Rightarrow> nat \<Rightarrow> int \<Rightarrow> process \<Rightarrow> bool" where
  "waits_for w c n p \<longleftrightarrow> pstate p \<noteq> PROC_UNUSED \<and> parent_pid p = pid (proc w c) \<and> (n \<ge> 0 \<longrightarrow> pid p = n)"

definition process_wait :: "int \<Rightarrow> kw \<Rightarrow> (flow \<times> kw) option" where
  "process_wait n w =
     (case current w of
        None \<Rightarrow> Some (Ret (- 1) [], w)
      | Some c \<Rightarrow>
          (case first_idx (\<lambda>p. waits_for w c n p \<and> pstate p = PROC_ZOMBIE) (procs w) of
             Some i \<Rightarrow> map_option (Pair (Ret (exit_code (proc w i)) [])) (proc_reap i w)
           | None \<Rightarrow>
               if \<not> list_ex (waits_for w c n) (procs w) then Some (Ret (- 1) [], w)
               else Some (block_on c WAIT_CHILD (In_wait n) (upd c (\<lambda>p. p\<lparr>waiting_for := n\<rparr>) w))))"

definition process_thread_join :: "int \<Rightarrow> kw \<Rightarrow> (flow \<times> kw) option" where
  "process_thread_join tid w =
     (case current w of
        None \<Rightarrow> Some (Ret (- 1) [], w)
      | Some c \<Rightarrow>
          Option.bind (reap_dead_threads w) (\<lambda>w1.
            case find_by_pid tid w1 of
              None \<Rightarrow> Some (Ret 0 [], w1)
            | Some t \<Rightarrow>
                if \<not> is_thread (proc w1 t) then Some (Ret (- 1) [], w1)
                else if t = c then Some (Ret (- 1) [], w1)
                else if pstate (proc w1 t) = PROC_ZOMBIE then map_option (Pair (Ret 0 [])) (reap_dead_threads w1)
                else Some (block_on c WAIT_THREAD (In_join tid) (upd c (\<lambda>p. p\<lparr>waiting_for := tid\<rparr>) w1))))"

subsection \<open>Pipe reads and writes\<close>

lemma put_bytes_shrinks:
  "pcount p < PIPE_BUF_SIZE \<Longrightarrow> bs \<noteq> [] \<Longrightarrow> put_bytes bs p = (bs', p') \<Longrightarrow> length bs' < length bs"
proof (induction bs p arbitrary: bs' p' rule: put_bytes.induct)
  case (2 b bs p)
  let ?q = "p\<lparr>pbuf := (pbuf p)(head p := b), head := (head p + 1) mod PIPE_BUF_SIZE, pcount := pcount p + 1\<rparr>"
  have e: "put_bytes bs ?q = (bs', p')" using 2(2,4) by simp
  show ?case
  proof (cases "bs \<noteq> [] \<and> pcount ?q < PIPE_BUF_SIZE")
    case True
    then have "length bs' < length bs" using 2(1) [OF 2(2) _ _ e] by blast
    then show ?thesis by simp
  next
    case False
    then have "bs' = bs" using e by (cases bs) auto
    then show ?thesis by simp
  qed
qed simp

text \<open>
  The code blocks when \<^verbatim>\<open>count == PIPE_BUF_SIZE\<close>; the count never exceeds that, so any other count leaves room.
\<close>

function pipe_write :: "nat \<Rightarrow> u8 list \<Rightarrow> nat \<Rightarrow> nat \<Rightarrow> kw \<Rightarrow> flow \<times> kw" where
  "pipe_write c bs written idx w =
     (if bs = [] then (Ret (int written) [], w)
      else let p = pipes w ! idx in
        if \<not> read_open p then (Ret (if written > 0 then int written else - 1) [], w)
        else if pcount p < PIPE_BUF_SIZE then
          (case put_bytes bs p of
             (bs1, p1) \<Rightarrow>
               pipe_write c bs1 (written + (length bs - length bs1)) idx
                 (process_wake_pipe (upd_pipe idx (\<lambda>_. p1) w)))
        else block_on c WAIT_PIPE (In_pipe_write idx bs written) w)"
  by pat_completeness auto
termination
  by (relation "measure (\<lambda>(c, bs, written, idx, w). length bs)") (auto dest: put_bytes_shrinks [OF _ _ sym])

declare pipe_write.simps [simp del]

definition pipe_read :: "nat \<Rightarrow> nat \<Rightarrow> nat \<Rightarrow> kw \<Rightarrow> flow \<times> kw" where
  "pipe_read c idx len w =
     (let p = pipes w ! idx in
      if pcount p = 0 then
        if \<not> write_open p then (Ret 0 [], w)
        else block_on c WAIT_PIPE (In_pipe_read idx len) w
      else case get_bytes len p of
             (bs, p1) \<Rightarrow> (Ret (int (length bs)) bs, process_wake_pipe (upd_pipe idx (\<lambda>_. p1) w)))"

definition STREAM_TERMINAL :: int where "STREAM_TERMINAL = - 2"

text \<open>Reading and writing a redirected file is the file system's; its answer comes in as an argument.\<close>

definition process_read_stdin :: "flow \<Rightarrow> u64 \<Rightarrow> kw \<Rightarrow> flow \<times> kw" where
  "process_read_stdin vfs_read len w =
     (case current w of
        None \<Rightarrow> (Ret STREAM_TERMINAL [], w)
      | Some c \<Rightarrow>
          (case kind (pin (proc w c)) of
             STREAM_FILE \<Rightarrow> (vfs_read, w)
           | STREAM_PIPE \<Rightarrow> pipe_read c (nat (handle (pin (proc w c)))) (unat (ucast len :: u32)) w
           | STREAM_TERM \<Rightarrow> (Ret STREAM_TERMINAL [], w)))"

definition process_write_stdout :: "flow \<Rightarrow> u8 list \<Rightarrow> u64 \<Rightarrow> kw \<Rightarrow> flow \<times> kw" where
  "process_write_stdout vfs_write buf len w =
     (case current w of
        None \<Rightarrow> (Ret STREAM_TERMINAL [], w)
      | Some c \<Rightarrow>
          (case kind (pout (proc w c)) of
             STREAM_FILE \<Rightarrow> (vfs_write, w)
           | STREAM_PIPE \<Rightarrow> pipe_write c (take (unat (ucast len :: u32)) buf) 0 (nat (handle (pout (proc w c)))) w
           | STREAM_TERM \<Rightarrow> (Ret STREAM_TERMINAL [], w)))"

subsection \<open>Going on after a block\<close>

definition resume_kont :: "nat \<Rightarrow> kont \<Rightarrow> kw \<Rightarrow> (flow \<times> kw) option" where
  "resume_kont c k w =
     (if k = In_yield then Some (Ret 1 [], w)
      else Option.bind (woken c w) (\<lambda>(sig, w1).
        case sig of
          None \<Rightarrow> Some (Idle, w1)
        | Some s \<Rightarrow>
            (case k of
               In_sleep \<Rightarrow> Some (Ret 0 [], upd c (\<lambda>p. p\<lparr>sig_restart := False\<rparr>) w1)
             | In_wait n \<Rightarrow> if s then Some (Ret (- 1) [], w1) else process_wait n w1
             | In_join tid \<Rightarrow> if s then Some (Ret (- 1) [], w1) else process_thread_join tid w1
             | In_pipe_write idx bs written \<Rightarrow>
                 if s then if written > 0 then Some (Ret (int written) [], upd c (\<lambda>p. p\<lparr>sig_restart := False\<rparr>) w1)
                           else Some (Ret 0 [], w1)
                 else Some (pipe_write c bs written idx w1)
             | In_pipe_read idx len \<Rightarrow> if s then Some (Ret 0 [], w1) else Some (pipe_read c idx len w1)
             | _ \<Rightarrow> Some (Ret (if s then 1 else 0) [], w1))))"

definition resume_process :: "nat \<Rightarrow> kw \<Rightarrow> (flow \<times> kw) option" where
  "resume_process i w =
     (let w1 = activate i w in
      if resume_kernel (proc w1 i) then resume_kont i (kctx (proc w1 i)) w1
      else Some (Frame (saved_rsp (proc w1 i)), w1))"

subsection \<open>The timer\<close>

definition bend_frame :: "sigframe \<Rightarrow> u64 \<Rightarrow> kw \<Rightarrow> (flow \<times> kw) option" where
  "bend_frame junk at w =
     map_option (\<lambda>(f, w1). case f of None \<Rightarrow> (Idle, w1) | Some x \<Rightarrow> (Frame at, w1\<lparr>kframes := (kframes w1)(at := x)\<rparr>))
       (signal_on_interrupt_return junk (kframes w at) w)"

definition sched_on_tick :: "sigframe \<Rightarrow> bool \<Rightarrow> u64 \<Rightarrow> u64 \<Rightarrow> kw \<Rightarrow> (flow \<times> kw) option" where
  "sched_on_tick junk wm_wants_frame cur_rsp csel w =
     (case current w of
        None \<Rightarrow> Some (Frame cur_rsp, w)
      | Some c \<Rightarrow>
          if \<not> scheduler_active w then Some (Frame cur_rsp, w)
          else let w1 = (if pstate (proc w c) = PROC_RUNNING then upd c (\<lambda>p. p\<lparr>pticks := pticks p + 1\<rparr>) w else w) in
          if csel AND 3 \<noteq> 3 then Some (Frame cur_rsp, w1)
          else Option.bind (signal_check (upd c (\<lambda>p. p\<lparr>saved_rsp := cur_rsp\<rparr>) w1)) (\<lambda>(alive, w2).
            if \<not> alive then Some (Idle, w2)
            else if me w2 = 0 \<and> wm_wants_frame then Some (go_idle (put_down c w2))
            else let nxt = pick_next (Some c) w2 in
              if stopped (proc w2 c) \<and> nxt = None then Some (go_idle (put_down c w2))
              else (case nxt of
                      None \<Rightarrow> bend_frame junk cur_rsp w2
                    | Some n \<Rightarrow>
                        if n = c then bend_frame junk cur_rsp w2
                        else let w3 = activate n (put_down c w2) in
                          if resume_kernel (proc w3 n) then resume_kont n (kctx (proc w3 n)) w3
                          else bend_frame junk (saved_rsp (proc w3 n)) w3)))"

subsection \<open>A core's scheduler loop\<close>

definition any_alive :: "kw \<Rightarrow> bool" where
  "any_alive w = list_ex (\<lambda>p. pstate p = PROC_READY \<or> pstate p = PROC_RUNNING \<or> pstate p = PROC_BLOCKED) (procs w)"

text \<open>
  One pass of \<^verbatim>\<open>cpu_loop\<close>: it runs something, sleeps, or leaves the loop. What the window manager, the
  network and USB do when the loop calls them is not part of this state.
\<close>

datatype pass = Runs flow | Sleeps | Leaves

definition cpu_loop :: "bool \<Rightarrow> kw \<Rightarrow> (pass \<times> kw) option" where
  "cpu_loop wm_running w0 =
     (let w = upd_cpu (\<lambda>c. c\<lparr>current_proc := None, cpu_kstack := 0\<rparr>) w0 in
      case pick_next None w of
        Some n \<Rightarrow> map_option (\<lambda>(f, w1). (Runs f, w1)) (resume_process n w)
      | None \<Rightarrow>
          if me w = 0 \<and> \<not> any_alive w \<and> \<not> wm_running then Some (Leaves, w)
          else Some (Sleeps, upd_cpu (\<lambda>c. c\<lparr>cr3 := kernel_space w\<rparr>) w))"

fun reap_zombies :: "nat list \<Rightarrow> kw \<Rightarrow> kw option" where
  "reap_zombies [] w = Some w"
| "reap_zombies (i # js) w =
     Option.bind (if pstate (proc w i) = PROC_ZOMBIE then proc_reap i w else Some w) (reap_zombies js)"

definition run_all_start :: "u64 \<Rightarrow> kw \<Rightarrow> kw option" where
  "run_all_start space w =
     (if \<not> any_alive w then None else Some (w\<lparr>kernel_space := space, scheduler_active := True\<rparr>))"

definition run_all_end :: "kw \<Rightarrow> (int \<times> kw) option" where
  "run_all_end w =
     Option.bind (reap_zombies [0..<MAX_PROCESSES] w) (\<lambda>w1.
       Some (last_exit_code w1,
             upd_cpu (\<lambda>c. c\<lparr>current_proc := None, cpu_kstack := 0, tss_rsp0 := 0\<rparr>) (w1\<lparr>scheduler_active := False\<rparr>)))"

subsection \<open>Threads\<close>

definition THREAD_STACK_SIZE :: u64 where "THREAD_STACK_SIZE = 1024 * 1024"

definition build_initial_frame :: "nat \<Rightarrow> u64 \<Rightarrow> kw \<Rightarrow> kw" where
  "build_initial_frame i user_sp w =
     (let p = proc w i; at = kstack_top p - 22 * 8 in
      upd i (\<lambda>p. p\<lparr>saved_rsp := at, resume_kernel := False\<rparr>)
        (w\<lparr>kframes := (kframes w)(at := zero_frame\<lparr>rip := entry p, cs := USER_CS, rflags := RFLAGS_IF, rsp := user_sp,
                                    ss := USER_SS\<rparr>)\<rparr>))"

definition drop_thread :: "nat \<Rightarrow> kw \<Rightarrow> (int \<times> kw) option" where
  "drop_thread t w =
     map_option (\<lambda>w1. (- 1, upd t (\<lambda>p. p\<lparr>asp := 0, pstate := PROC_UNUSED\<rparr>) w1)) (space_unref (asp (proc w t)) w)"

definition set_kstack :: "u64 \<Rightarrow> process \<Rightarrow> process" where
  "set_kstack ks p = p\<lparr>kstack := ks, kstack_top := (ks + KSTACK_SIZE) AND NOT 0xF\<rparr>"

definition thread_ready :: "nat \<Rightarrow> u64 \<Rightarrow> u64 \<Rightarrow> kw \<Rightarrow> int \<times> kw" where
  "thread_ready t st arg w =
     (let w1 = build_initial_frame t ((st + THREAD_STACK_SIZE - 16) AND NOT 0xF)
                 (upd t (\<lambda>p. p\<lparr>tstack := st, tstack_len := THREAD_STACK_SIZE\<rparr>) w);
          at = saved_rsp (proc w1 t);
          w2 = w1\<lparr>kframes := (kframes w1)(at := (kframes w1 at)\<lparr>rdi := arg\<rparr>)\<rparr>
      in (pid (proc w2 t), upd t (\<lambda>p. p\<lparr>fxstate := core_fpu w2, pstate := PROC_READY\<rparr>) w2))"

definition thread_stacks :: "nat \<Rightarrow> u64 \<Rightarrow> kw \<Rightarrow> (int \<times> kw) option" where
  "thread_stacks t arg w =
     Option.bind (k_alloc KSTACK_SIZE w) (\<lambda>(ks, w1).
     if ks = 0 then drop_thread t w1
     else case vmm_mmap THREAD_STACK_SIZE (VM_READ OR VM_WRITE) (view (upd t (set_kstack ks) w1)) of
            (st, v) \<Rightarrow>
              let w2 = (upd t (set_kstack ks) w1)\<lparr>vw := v\<rparr> in
              if st = 0 then Option.bind (k_free ks w2) (\<lambda>w3. drop_thread t (upd t (\<lambda>p. p\<lparr>kstack := 0\<rparr>) w3))
              else Some (thread_ready t st arg w2))"

definition share_with :: "process \<Rightarrow> u64 \<Rightarrow> process \<Rightarrow> process" where
  "share_with m entry0 p =
     p\<lparr>asp := asp m, ppml4 := ppml4 m, is_thread := True, tgid := (if is_thread m then tgid m else pid m),
       entry := entry0, parent_pid := 0, pin := pin m, pout := pout m\<rparr>"

definition process_thread_create :: "bool \<Rightarrow> u64 \<Rightarrow> u64 \<Rightarrow> kw \<Rightarrow> (int \<times> kw) option" where
  "process_thread_create en entry0 arg w =
     (case current w of
        None \<Rightarrow> Some (- 1, w)
      | Some c \<Rightarrow>
          if asp (proc w c) = 0 then Some (- 1, w)
          else if \<not> vmm_user_range_ok entry0 1 then Some (- 1, w)
          else Option.bind (reap_dead_threads w) (\<lambda>w1.
               Option.bind (proc_alloc en (pname (proc w1 c)) w1) (\<lambda>(slot, w2).
               case slot of
                 None \<Rightarrow> Some (- 1, w2)
               | Some t \<Rightarrow>
                   let m = proc w2 c
                   in thread_stacks t arg (upd t (share_with m entry0) (w2\<lparr>vw := vmm_space_ref (asp m) (vw w2)\<rparr>)))))"

definition process_thread_exit :: "int \<Rightarrow> kw \<Rightarrow> (flow \<times> kw) option" where
  "process_thread_exit code w = map_option (Pair Idle) (process_notify_exit code w)"

end
