(* ===== verification/Elf.thy ===== *)
theory Elf
  imports Vmm
begin

text \<open>
  Loading a program: \<^verbatim>\<open>kernel/kernel/elf.c\<close>. The image lies in kernel memory, which the identity map makes
  physical memory at the same address, so its headers and bytes are read from \<open>ram\<close>. A field of a packed header is a
  little-endian load at its offset.
\<close>

definition EHDR_SIZE :: u64 where "EHDR_SIZE = 64"
definition PT_LOAD :: u32 where "PT_LOAD = 1"
definition ET_EXEC :: u16 where "ET_EXEC = 2"
definition EM_X86_64 :: u16 where "EM_X86_64 = 0x3E"

subsection \<open>The headers\<close>

record elf64_ehdr =
  e_ident :: "u8 list"
  e_type :: u16
  e_machine :: u16
  e_entry :: u64
  e_phoff :: u64
  e_phentsize :: u16
  e_phnum :: u16

definition ehdr_at :: "pmm \<Rightarrow> u64 \<Rightarrow> elf64_ehdr" where
  "ehdr_at m a =
     \<lparr>e_ident = map (\<lambda>i. ram m (a + of_nat i)) [0..<16], e_type = rd16 (ram m) (a + 16), e_machine = rd16 (ram m) (a + 18),
      e_entry = rd64 (ram m) (a + 24), e_phoff = rd64 (ram m) (a + 32), e_phentsize = rd16 (ram m) (a + 54),
      e_phnum = rd16 (ram m) (a + 56)\<rparr>"

record elf64_phdr =
  p_type :: u32
  p_offset :: u64
  p_vaddr :: u64
  p_filesz :: u64
  p_memsz :: u64

definition phdr_at :: "pmm \<Rightarrow> u64 \<Rightarrow> elf64_phdr" where
  "phdr_at m a =
     \<lparr>p_type = rd32 (ram m) a, p_offset = rd64 (ram m) (a + 8), p_vaddr = rd64 (ram m) (a + 16),
      p_filesz = rd64 (ram m) (a + 32), p_memsz = rd64 (ram m) (a + 40)\<rparr>"

subsection \<open>Copying into another address space\<close>

definition copy_bytes :: "u64 \<Rightarrow> u64 \<Rightarrow> nat \<Rightarrow> pmm \<Rightarrow> pmm" where
  "copy_bytes dst src n m =
     fold (\<lambda>i s. s\<lparr>ram := (ram s)(dst + of_nat i := ram s (src + of_nat i))\<rparr>) [0..<n] m"

definition chunk_at :: "u64 \<Rightarrow> u64 \<Rightarrow> u64" where
  "chunk_at vaddr n = (let chunk = PAGE_SIZE - (vaddr AND 0xFFF) in if chunk > n then n else chunk)"

lemma chunk_at_nat: "unat (chunk_at v n) = min (4096 - unat v mod 4096) (unat n)"
proof -
  have o: "unat (v AND 0xFFF) = unat v mod 4096"
    using and_mask_mod [of v 12] by (simp add: mask_eq_exp_minus_1 unat_mod)
  have "unat (PAGE_SIZE - (v AND 0xFFF)) = 4096 - unat v mod 4096"
    by (subst unat_sub_small) (simp_all add: o PAGE_SIZE_def less_imp_le)
  then show ?thesis by (auto simp: chunk_at_def Let_def word_less_nat_alt min_def)
qed

lemma chunk_shrinks:
  assumes "0 < n"
  shows "unat (n - chunk_at v n) < unat n"
proof -
  have "unat (chunk_at v n) \<le> unat n" "0 < unat (chunk_at v n)"
    using assms by (auto simp: chunk_at_nat word_less_nat_alt)
  then show ?thesis by (simp add: unat_sub_small)
qed

function copy_into_space :: "u64 \<Rightarrow> u64 \<Rightarrow> u64 \<Rightarrow> u64 \<Rightarrow> pmm \<Rightarrow> bool \<times> pmm" where
  "copy_into_space pm vaddr src n m =
     (if n > 0 then
        let chunk = chunk_at vaddr n in
        (case paging_translate pm vaddr m of
           (phys, m1) \<Rightarrow>
             if phys = 0 then (False, m1)
             else copy_into_space pm (vaddr + chunk) (src + chunk) (n - chunk) (copy_bytes phys src (unat chunk) m1))
      else (True, m))"
  by pat_completeness auto
termination
  by (relation "measure (\<lambda>(pm, v, s, n, m). unat n)") (auto simp: chunk_shrinks)

declare copy_into_space.simps [simp del]

subsection \<open>Loading\<close>

text \<open>\<open>None\<close> is a mapping loop that does not return; the \<open>bool\<close> is the code's 0 or -1.\<close>

definition load_segment :: "u64 \<Rightarrow> u64 \<Rightarrow> u64 \<Rightarrow> elf64_phdr \<Rightarrow> pmm \<Rightarrow> (bool \<times> pmm) option" where
  "load_segment pm data sz ph m =
     (if p_type ph \<noteq> PT_LOAD then Some (True, m)
      else if p_filesz ph > p_memsz ph \<or> p_offset ph + p_filesz ph > sz then Some (False, m)
      else if \<not> vmm_user_range_ok (p_vaddr ph) (p_memsz ph) then Some (False, m)
      else Option.bind (paging_map_alloc pm (p_vaddr ph) (p_memsz ph) (PAGE_PRESENT OR PAGE_WRITE OR PAGE_USER) m)
             (\<lambda>(ok, m1).
                if \<not> ok then Some (False, m1)
                else Some (copy_into_space pm (p_vaddr ph) (data + p_offset ph) (p_filesz ph) m1)))"

fun load_segments :: "u64 \<Rightarrow> u64 \<Rightarrow> u64 \<Rightarrow> elf64_ehdr \<Rightarrow> nat list \<Rightarrow> pmm \<Rightarrow> (bool \<times> pmm) option" where
  "load_segments pm data sz eh [] m = Some (True, m)"
| "load_segments pm data sz eh (i # js) m =
     Option.bind (load_segment pm data sz (phdr_at m (data + e_phoff eh + of_nat i * ucast (e_phentsize eh))) m)
       (\<lambda>(ok, m1). if \<not> ok then Some (False, m1) else load_segments pm data sz eh js m1)"

definition elf_load_into :: "u64 \<Rightarrow> u64 \<Rightarrow> u64 \<Rightarrow> pmm \<Rightarrow> (u64 option \<times> pmm) option" where
  "elf_load_into pm data sz m =
     (let eh = ehdr_at m data in
      if sz < EHDR_SIZE then Some (None, m)
      else if take 5 (e_ident eh) \<noteq> [0x7F, 0x45, 0x4C, 0x46, 2] then Some (None, m)
      else if e_machine eh \<noteq> EM_X86_64 \<or> e_type eh \<noteq> ET_EXEC then Some (None, m)
      else if e_phoff eh + ucast (e_phnum eh) * ucast (e_phentsize eh) > sz then Some (None, m)
      else Option.bind (load_segments pm data sz eh [0..<unat (e_phnum eh)] m) (\<lambda>(ok, m1).
             if \<not> ok then Some (None, m1)
             else if \<not> vmm_user_range_ok (e_entry eh) 1 then Some (None, m1)
             else Some (Some (e_entry eh), m1)))"

end
