(* ===== verification/Exec.thy ===== *)
theory Exec
  imports Scheduler Elf
begin

text \<open>
  Starting programs: \<^verbatim>\<open>process_spawn_image\<close>, \<^verbatim>\<open>process_spawn\<close> and the calls that spawn on behalf of a
  program, from \<^verbatim>\<open>kernel/kernel/process.c\<close>. What the file system answers comes in as the record \<open>vfs\<close>;
  \<open>p4_table\<close> and \<open>p3_table\<close> are the boot page tables, and \<open>en\<close> is the desktop's language.
\<close>

record vfs =
  vfs_stat :: "u8 list \<Rightarrow> (u32 \<times> bool) option"
  vfs_open :: "u8 list \<Rightarrow> int"
  vfs_reads :: "int \<Rightarrow> u8 list list"

definition MAX_ARGS :: nat where "MAX_ARGS = 32"
definition MAX_ARG_LEN :: nat where "MAX_ARG_LEN = 256"
definition USER_STACK_EAGER :: u64 where "USER_STACK_EAGER = 0x00010000"

subsection \<open>Arguments on the new stack\<close>

fun push_args :: "u64 \<Rightarrow> u8 list list \<Rightarrow> u64 \<Rightarrow> u64 list \<Rightarrow> vmw \<Rightarrow> (u64 list \<times> u64 \<times> vmw) option" where
  "push_args pm [] sp ptrs v = Some (ptrs, sp, v)"
| "push_args pm (a # as) sp ptrs v =
     (let sp1 = sp - (of_nat (length a) + 1) in
      Option.bind (user_write pm sp1 (a @ [0]) v) (push_args pm as sp1 (sp1 # ptrs)))"

definition setup_args :: "u64 \<Rightarrow> u64 \<Rightarrow> u8 list list \<Rightarrow> vmw \<Rightarrow> (u64 \<times> vmw) option" where
  "setup_args pm stack_top argv0 v =
     (let argv = take MAX_ARGS argv0 in
      Option.bind (push_args pm (rev argv) stack_top [] v) (\<lambda>(ptrs, sp0, v1).
        let sp1 = sp0 AND NOT 0xF;
            words = 1 + length argv + 1;
            sp2 = (if odd words then sp1 - 8 else sp1);
            sp = sp2 - of_nat words * 8
        in map_option (Pair sp)
             (user_write pm sp (concat (map le_bytes ([of_nat (length argv)] @ ptrs @ [0]))) v1)))"

subsection \<open>A process from an image in memory\<close>

definition on_mem :: "(pmm \<Rightarrow> ('a \<times> pmm) option) \<Rightarrow> kw \<Rightarrow> ('a \<times> kw) option" where
  "on_mem f w = map_option (\<lambda>(r, m). (r, w\<lparr>vw := set_mem m (vw w)\<rparr>)) (f (mem (vw w)))"

definition give_up :: "nat \<Rightarrow> kw \<Rightarrow> (int \<times> kw) option" where
  "give_up i w = map_option (Pair (- 1)) (proc_abandon i w)"

definition first_frame :: "nat \<Rightarrow> u64 \<Rightarrow> vmw \<Rightarrow> kw \<Rightarrow> int \<times> kw" where
  "first_frame i sp v w =
     (let w1 = build_initial_frame i sp (w\<lparr>vw := v\<rparr>); w2 = upd i (\<lambda>p. p\<lparr>fxstate := core_fpu w1\<rparr>) w1
      in (pid (proc w2 i), w2))"

definition give_stacks :: "nat \<Rightarrow> u64 \<Rightarrow> u8 list list \<Rightarrow> kw \<Rightarrow> (int \<times> kw) option" where
  "give_stacks i pm argv w =
     Option.bind (on_mem (paging_map_alloc pm (USER_STACK_TOP - USER_STACK_EAGER) USER_STACK_EAGER
                    (PAGE_PRESENT OR PAGE_WRITE OR PAGE_USER)) w) (\<lambda>(ok, w1).
     if \<not> ok then give_up i w1
     else Option.bind (k_alloc KSTACK_SIZE w1) (\<lambda>(ks, w2).
     if ks = 0 then give_up i w2
     else Option.bind (setup_args pm ((USER_STACK_TOP - 16) AND NOT 0xF) argv (view (upd i (set_kstack ks) w2))) (\<lambda>(sp, v).
     Some (first_frame i sp v (upd i (set_kstack ks) w2)))))"

definition load_image :: "nat \<Rightarrow> u64 \<Rightarrow> u64 \<Rightarrow> u64 \<Rightarrow> u8 list list \<Rightarrow> kw \<Rightarrow> (int \<times> kw) option" where
  "load_image i pm elf_data sz argv w =
     Option.bind (on_mem (elf_load_into pm elf_data sz) w) (\<lambda>(ent0, w1).
     case ent0 of
       None \<Rightarrow> give_up i w1
     | Some e \<Rightarrow> give_stacks i pm argv (upd i (\<lambda>p. p\<lparr>entry := e\<rparr>) w1))"

definition process_spawn_image ::
  "bool \<Rightarrow> u64 \<Rightarrow> u64 \<Rightarrow> string \<Rightarrow> u64 \<Rightarrow> u64 \<Rightarrow> u8 list list \<Rightarrow> kw \<Rightarrow> (int \<times> kw) option" where
  "process_spawn_image en p4_table p3_table name elf_data sz argv w =
     Option.bind (proc_alloc en name w) (\<lambda>(slot, w1).
     case slot of
       None \<Rightarrow> Some (- 1, w1)
     | Some i \<Rightarrow>
         Option.bind (vmm_space_new p4_table p3_table (vw w1)) (\<lambda>(a, v).
         if a = 0 then Some (- 1, upd i (\<lambda>p. p\<lparr>asp := 0, pstate := PROC_UNUSED\<rparr>) (w1\<lparr>vw := v\<rparr>))
         else load_image i (pml4 (spaces v a)) elf_data sz argv
                (upd i (\<lambda>p. p\<lparr>asp := a, ppml4 := pml4 (spaces v a)\<rparr>) (w1\<lparr>vw := v\<rparr>))))"

subsection \<open>A process from a file\<close>

fun read_image :: "u8 list list \<Rightarrow> nat \<Rightarrow> u8 list \<Rightarrow> u8 list" where
  "read_image [] sz got = got"
| "read_image (c # rest) sz got =
     (if length got < sz then if c = [] then got else read_image rest sz (got @ take (sz - length got) c) else got)"

definition store_bytes :: "u64 \<Rightarrow> u8 list \<Rightarrow> pmm \<Rightarrow> pmm" where
  "store_bytes a bs m =
     m\<lparr>ram := (\<lambda>x. if unat (x - a) < length bs then bs ! unat (x - a) else ram m x)\<rparr>"

definition base_name :: "u8 list \<Rightarrow> string" where
  "base_name path = map (\<lambda>c. char_of (unat c)) (rev (takeWhile (\<lambda>c. c \<noteq> 0x2F) (rev path)))"

definition process_spawn :: "bool \<Rightarrow> u64 \<Rightarrow> u64 \<Rightarrow> vfs \<Rightarrow> u8 list \<Rightarrow> u8 list list \<Rightarrow> kw \<Rightarrow> (int \<times> kw) option" where
  "process_spawn en p4_table p3_table fs path argv w =
     (case vfs_stat fs path of
        None \<Rightarrow> Some (- 1, w)
      | Some (sz, is_dir) \<Rightarrow>
          if is_dir then Some (- 1, w)
          else let fd = vfs_open fs path in
            if fd < 0 then Some (- 1, w)
            else Option.bind (k_alloc (ucast sz) w) (\<lambda>(image, w1).
              if image = 0 then Some (- 1, call (Vfs_close fd) w1)
              else let bs = read_image (vfs_reads fs fd) (unat sz) [];
                       w2 = call (Vfs_close fd) (w1\<lparr>vw := set_mem (store_bytes image bs (mem (vw w1))) (vw w1)\<rparr>)
                   in if length bs \<noteq> unat sz then map_option (Pair (- 1)) (k_free image w2)
                      else Option.bind (process_spawn_image en p4_table p3_table (base_name path) image (ucast sz) argv w2)
                             (\<lambda>(n, w3). map_option (Pair n) (k_free image w3))))"

subsection \<open>Spawning on behalf of a program\<close>

fun copy_user_str :: "u64 \<Rightarrow> u64 \<Rightarrow> nat \<Rightarrow> vmw \<Rightarrow> (u8 list option \<times> vmw) option" where
  "copy_user_str pm uaddr 0 v = Some (None, v)"
| "copy_user_str pm uaddr (Suc n) v =
     (if \<not> vmm_user_range_ok uaddr 1 then Some (None, v)
      else Option.bind (user_pa pm uaddr 0 v) (\<lambda>(pa, v1).
             let c = ram (mem v1) pa in
             if c = 0 then Some (Some [], v1)
             else map_option (\<lambda>(r, v2). (map_option (Cons c) r, v2)) (copy_user_str pm (uaddr + 1) n v1)))"

fun copy_args :: "u64 \<Rightarrow> u64 \<Rightarrow> nat \<Rightarrow> vmw \<Rightarrow> (u8 list list option \<times> vmw) option" where
  "copy_args pm ua 0 v = Some (Some [], v)"
| "copy_args pm ua (Suc n) v =
     Option.bind (user_read pm ua 8 v) (\<lambda>(ptr, v1).
     Option.bind (copy_user_str pm (le_word ptr) MAX_ARG_LEN v1) (\<lambda>(s, v2).
     case s of
       None \<Rightarrow> Some (None, v2)
     | Some a \<Rightarrow> map_option (\<lambda>(r, v3). (map_option (Cons a) r, v3)) (copy_args pm (ua + 8) n v2)))"

definition copy_path :: "u64 \<Rightarrow> u64 \<Rightarrow> vmw \<Rightarrow> (u8 list option \<times> vmw) option" where
  "copy_path pm ua v = (if ua = 0 then Some (Some [], v) else copy_user_str pm ua MAX_ARG_LEN v)"

definition pipe_ready :: "int \<Rightarrow> kw \<Rightarrow> bool" where
  "pipe_ready i w \<longleftrightarrow> i \<ge> 0 \<and> i < int MAX_PIPES \<and> in_use (pipes w ! nat i)"

definition wire_out :: "vfs \<Rightarrow> u64 \<Rightarrow> u8 list \<Rightarrow> bool \<Rightarrow> int \<Rightarrow> int \<Rightarrow> nat \<Rightarrow> kw \<Rightarrow> kw" where
  "wire_out fs uout out_path app out_pipe n c w =
     (if pipe_ready out_pipe w
      then pipe_attach_writer (nat out_pipe) n (upd c (\<lambda>p. p\<lparr>pout := \<lparr>kind = STREAM_PIPE, handle = out_pipe\<rparr>\<rparr>) w)
      else if uout \<noteq> 0 then
        let w1 = call (Vfs_create out_path) w; fd = vfs_open fs out_path in
        if fd \<ge> 0 then upd c (\<lambda>p. p\<lparr>pout := \<lparr>kind = STREAM_FILE, handle = fd\<rparr>\<rparr>)
                         (call (if app then Vfs_seek_end fd else Vfs_truncate fd) w1)
        else w1
      else w)"

definition unspawn :: "nat \<Rightarrow> kw \<Rightarrow> (int \<times> kw) option" where
  "unspawn c w =
     Option.bind (space_unref (asp (proc w c)) (upd c (\<lambda>p. p\<lparr>pstate := PROC_UNUSED\<rparr>) w)) (\<lambda>w1.
       let w2 = upd c (\<lambda>p. p\<lparr>asp := 0, ppml4 := 0\<rparr>) w1 in
       map_option (Pair (- 1)) (if kstack (proc w2 c) \<noteq> 0 then k_free (kstack (proc w2 c)) w2 else Some w2))"

definition copy_request ::
  "u64 \<Rightarrow> u64 \<Rightarrow> u64 \<Rightarrow> int \<Rightarrow> u64 \<Rightarrow> u64 \<Rightarrow> vmw \<Rightarrow>
     ((u8 list \<times> u8 list list \<times> u8 list \<times> u8 list) option \<times> vmw) option" where
  "copy_request pm upath uargv argc uin uout v =
     Option.bind (copy_user_str pm upath MAX_ARG_LEN v) (\<lambda>(path, v1).
     case path of None \<Rightarrow> Some (None, v1) | Some path \<Rightarrow>
     if argc < 0 \<or> argc > int MAX_ARGS then Some (None, v1)
     else if argc > 0 \<and> \<not> vmm_user_range_ok uargv (word_of_int argc * 8) then Some (None, v1)
     else Option.bind (copy_args pm uargv (nat argc) v1) (\<lambda>(argv, v2).
     case argv of None \<Rightarrow> Some (None, v2) | Some argv \<Rightarrow>
     Option.bind (copy_path pm uin v2) (\<lambda>(in_path, v3).
     case in_path of None \<Rightarrow> Some (None, v3) | Some in_path \<Rightarrow>
     Option.bind (copy_path pm uout v3) (\<lambda>(out_path, v4).
     case out_path of None \<Rightarrow> Some (None, v4) | Some out_path \<Rightarrow> Some (Some (path, argv, in_path, out_path), v4)))))"

definition wire_child ::
  "vfs \<Rightarrow> u64 \<Rightarrow> u64 \<Rightarrow> u8 list \<Rightarrow> u8 list \<Rightarrow> bool \<Rightarrow> int \<Rightarrow> int \<Rightarrow> int \<Rightarrow> nat \<Rightarrow> kw \<Rightarrow> (int \<times> kw) option" where
  "wire_child fs uin uout in_path out_path app in_pipe out_pipe n c w =
     (if pipe_ready in_pipe w
      then Some (n, wire_out fs uout out_path app out_pipe n c
             (pipe_attach_reader (nat in_pipe) n (upd c (\<lambda>p. p\<lparr>pin := \<lparr>kind = STREAM_PIPE, handle = in_pipe\<rparr>\<rparr>) w)))
      else if uin \<noteq> 0 then
        (let fd = vfs_open fs in_path in
         if fd < 0 then unspawn c w
         else Some (n, wire_out fs uout out_path app out_pipe n c
                (upd c (\<lambda>p. p\<lparr>pin := \<lparr>kind = STREAM_FILE, handle = fd\<rparr>\<rparr>) w)))
      else Some (n, wire_out fs uout out_path app out_pipe n c w))"

definition spawn_from_user ::
  "bool \<Rightarrow> u64 \<Rightarrow> u64 \<Rightarrow> vfs \<Rightarrow> u64 \<Rightarrow> u64 \<Rightarrow> int \<Rightarrow> u64 \<Rightarrow> u64 \<Rightarrow> bool \<Rightarrow> int \<Rightarrow> int \<Rightarrow> kw \<Rightarrow> (int \<times> kw) option" where
  "spawn_from_user en p4_table p3_table fs upath uargv argc uin uout app in_pipe out_pipe w =
     Option.bind (copy_request (core_cr3 w) upath uargv argc uin uout (view w)) (\<lambda>(req, v).
     case req of
       None \<Rightarrow> Some (- 1, w\<lparr>vw := v\<rparr>)
     | Some (path, argv, in_path, out_path) \<Rightarrow>
         Option.bind (process_spawn en p4_table p3_table fs path argv (w\<lparr>vw := v\<rparr>)) (\<lambda>(n, w1).
         if n < 0 then Some (- 1, w1)
         else case process_by_pid n w1 of
                None \<Rightarrow> Some (n, w1)
              | Some c \<Rightarrow> wire_child fs uin uout in_path out_path app in_pipe out_pipe n c w1))"

definition process_spawn_user :: "bool \<Rightarrow> u64 \<Rightarrow> u64 \<Rightarrow> vfs \<Rightarrow> u64 \<Rightarrow> u64 \<Rightarrow> int \<Rightarrow> kw \<Rightarrow> (int \<times> kw) option" where
  "process_spawn_user en p4_table p3_table fs upath uargv argc w =
     spawn_from_user en p4_table p3_table fs upath uargv argc 0 0 False (- 1) (- 1) w"

text \<open>
  \<^verbatim>\<open>struct spawn_req\<close> as it lies in user memory: pointers at 0, 8, 24 and 32, the ints at 16, 40, 44 and 48,
  padded to 56 bytes.
\<close>

definition SPAWN_REQ_SIZE :: nat where "SPAWN_REQ_SIZE = 56"

definition int_at :: "u8 list \<Rightarrow> nat \<Rightarrow> int" where
  "int_at bs k = sint (ucast (le_word (take 4 (drop k bs))) :: 32 word)"

definition process_spawn_user2 :: "bool \<Rightarrow> u64 \<Rightarrow> u64 \<Rightarrow> vfs \<Rightarrow> u64 \<Rightarrow> kw \<Rightarrow> (int \<times> kw) option" where
  "process_spawn_user2 en p4_table p3_table fs ureq w =
     (if \<not> vmm_user_range_ok ureq (of_nat SPAWN_REQ_SIZE) then Some (- 1, w)
      else Option.bind (user_read (core_cr3 w) ureq SPAWN_REQ_SIZE (view w)) (\<lambda>(bs, v).
        let ptr = (\<lambda>k. le_word (take 8 (drop k bs))) in
        spawn_from_user en p4_table p3_table fs (ptr 0) (ptr 8) (int_at bs 16) (ptr 24) (ptr 32)
          (int_at bs 40 \<noteq> 0) (int_at bs 44) (int_at bs 48) (w\<lparr>vw := v\<rparr>)))"

end
