(* ===== verification/Teardown.thy ===== *)
theory Teardown
  imports Proc_Exit
begin

text \<open>
  What the end of a process may do to the rest of the kernel, as an interface: a relation between states that allows
  changing pipes, recording calls, letting streams go, waking sleepers and posting signals holds across the whole of a program's
  teardown. The relations the scheduler's invariant and the delivery of exit codes rest on are instances.
\<close>

lemma stream_release_kind: "kind (fst (stream_release c s w)) = STREAM_TERM"
  by (simp add: stream_release_def)

locale teardown =
  fixes R :: "kw \<Rightarrow> kw \<Rightarrow> bool"
  assumes R_refl: "R w w"
    and R_trans: "R a b \<Longrightarrow> R b c \<Longrightarrow> R a c"
    and R_pipe: "(\<And>p. pbuf (f p) = pbuf p \<and> head (f p) = head p \<and> tail (f p) = tail p \<and> pcount (f p) = pcount p) \<Longrightarrow> R w (upd_pipe i f w)"
    and R_call: "R w (call x w)"
    and R_wake: "R w (w\<lparr>procs := map (wake P) (procs w)\<rparr>)"
    and R_ready: "pstate (proc w i) = PROC_BLOCKED \<Longrightarrow> R w (upd i (\<lambda>p. p\<lparr>pstate := PROC_READY\<rparr>) w)"
    and R_post: "pstate (proc w i) \<noteq> PROC_UNUSED \<Longrightarrow> pstate (proc w i) \<noteq> PROC_ZOMBIE \<Longrightarrow> R w (upd i (post w s) w)"
    and R_pin: "kind st = STREAM_TERM \<Longrightarrow> R w (upd i (\<lambda>p. p\<lparr>pin := st\<rparr>) w)"
    and R_pout: "kind st = STREAM_TERM \<Longrightarrow> R w (upd i (\<lambda>p. p\<lparr>pout := st\<rparr>) w)"
begin

lemma wake_pipe: "R w (process_wake_pipe w)"
  unfolding process_wake_pipe_def by (rule R_wake)

lemma wake_key: "R w (process_wake_key w)"
  unfolding process_wake_key_def by (rule R_wake)

lemma wake_joiners: "R w (wake_joiners_of d w)"
  unfolding wake_joiners_of_def by (rule R_wake)

lemma signal_post: "R w (signal_post po s w)"
  by (auto simp: signal_post_def R_refl intro: R_post split: option.split)

lemma signal_send: "R w (snd (signal_send n s w))"
  by (auto simp: signal_send_def R_refl signal_post split: option.split)

lemma wake_parent: "R w (wake_parent_of d w)"
  by (auto simp: wake_parent_of_def R_refl intro: R_ready split: option.split)

lemma maybe_free: "R w (pipe_maybe_free i w)"
  by (auto simp: pipe_maybe_free_def R_refl intro!: R_pipe)

lemma release_pipe: "R w (release_pipe n i w)"
proof -
  have c: "R w (upd_pipe i (\<lambda>p. p\<lparr>write_open := False\<rparr>) w)" and d: "R w (upd_pipe i (\<lambda>p. p\<lparr>read_open := False\<rparr>) w)" for w
    by (rule R_pipe, simp)+
  have p: "R w w1 \<Longrightarrow> R w (pipe_maybe_free (int i) (process_wake_pipe w1))" for w w1
    using R_trans wake_pipe maybe_free by blast
  note s = R_trans [OF d signal_send]
  show ?thesis unfolding release_pipe_def Let_def by (rule p) (simp add: R_refl c d s R_trans [OF c d] R_trans [OF c s])
qed

lemma stream_release: "R w (snd (stream_release c s w))"
  by (auto simp: stream_release_def R_refl R_call release_pipe split: stream_kind.split)

lemma release_in: "R w (release_in d w)"
  unfolding release_in_def using R_trans [OF stream_release R_pin] by (simp add: split_beta stream_release_kind)

lemma release_out: "R w (release_out d w)"
  unfolding release_out_def using R_trans [OF stream_release R_pout] by (simp add: split_beta stream_release_kind)

lemma end_program: "R w (end_program d w)"
proof -
  have a: "R w (release_out d (release_in d w))" by (rule R_trans [OF release_in release_out])
  have b: "R w1 (wake_parent_of d (call x w1))" for w1 x by (rule R_trans [OF R_call wake_parent])
  have c: "R w2 (call x (if P then snd (signal_send n s w2) else w2))" for w2 x P n s
    using R_trans [OF signal_send R_call] R_call by simp
  show ?thesis unfolding end_program_def Let_def by (rule R_trans [OF R_trans [OF a b] c])
qed

end

end
