(* ===== verification/Sched_Inv.thy ===== *)
theory Sched_Inv
  imports Exec Teardown
begin

text \<open>
  The invariant of the process table under every call of the kernel, while the process ids last: a process is RUNNING
  exactly while one core, and only one, has it as its current process, and no two processes in use share a pid. The effect of most operations on
  it is captured by \<open>quiet\<close>; what stops and starts processes is tracked against an explicit list of the
  processes the cores are running.
\<close>

subsection \<open>The invariant\<close>

definition cores :: "kw \<Rightarrow> nat option list" where
  "cores w = map current_proc (cpus w)"

definition running :: "kw \<Rightarrow> nat \<Rightarrow> bool" where
  "running w i \<longleftrightarrow> pstate (procs w ! i) = PROC_RUNNING"

definition in_slot :: "kw \<Rightarrow> nat \<Rightarrow> bool" where
  "in_slot w i \<longleftrightarrow> pstate (procs w ! i) \<noteq> PROC_UNUSED"

definition ok_with :: "nat option list \<Rightarrow> kw \<Rightarrow> bool" where
  "ok_with cl w \<longleftrightarrow> length (procs w) = MAX_PROCESSES
     \<and> (\<forall>k < length cl. \<forall>i. cl ! k = Some i \<longrightarrow> i < MAX_PROCESSES \<and> running w i)
     \<and> (\<forall>k < length cl. \<forall>l < length cl. \<forall>i. cl ! k = Some i \<longrightarrow> cl ! l = Some i \<longrightarrow> k = l)
     \<and> (\<forall>i < MAX_PROCESSES. running w i \<longrightarrow> Some i \<in> set cl)
     \<and> (\<forall>i < MAX_PROCESSES. in_slot w i \<longrightarrow> 0 < pid (procs w ! i) \<and> pid (procs w ! i) < next_pid w)
     \<and> (\<forall>i < MAX_PROCESSES. \<forall>j < MAX_PROCESSES. in_slot w i \<longrightarrow> in_slot w j \<longrightarrow> pid (procs w ! i) = pid (procs w ! j) \<longrightarrow> i = j)
     \<and> 0 < next_pid w"

definition sched_ok :: "kw \<Rightarrow> bool" where
  "sched_ok w \<longleftrightarrow> ok_with (cores w) w \<and> me w < length (cpus w)"

subsection \<open>Operations that stop and start nothing\<close>

definition quiet :: "kw \<Rightarrow> kw \<Rightarrow> bool" where
  "quiet w w' \<longleftrightarrow> length (procs w') = length (procs w) \<and> cpus w' = cpus w \<and> me w' = me w \<and> next_pid w' = next_pid w
     \<and> (\<forall>i < length (procs w). (running w' i \<longleftrightarrow> running w i)
          \<and> (in_slot w' i \<longrightarrow> in_slot w i) \<and> pid (procs w' ! i) = pid (procs w ! i))"

named_theorems quiets \<open>operations that stop and start nothing\<close>

lemma quiet_refl [simp]: "quiet w w"
  by (simp add: quiet_def)

lemma quiet_trans: "quiet a b \<Longrightarrow> quiet b c \<Longrightarrow> quiet a c"
  by (simp add: quiet_def)

lemma quiet_same: "procs w' = procs w \<Longrightarrow> cpus w' = cpus w \<Longrightarrow> me w' = me w \<Longrightarrow> next_pid w' = next_pid w \<Longrightarrow> quiet w w'"
  by (simp add: quiet_def running_def in_slot_def)

lemma quiet_current: "quiet w w' \<Longrightarrow> current w' = current w"
  by (simp add: quiet_def current_def)

lemma ok_with_quiet:
  assumes q: "quiet w w'" and ok: "ok_with cl w"
  shows "ok_with cl w'"
proof -
  have l: "length (procs w) = MAX_PROCESSES" using ok by (simp add: ok_with_def)
  have r: "running w' i = running w i" "in_slot w' i \<Longrightarrow> in_slot w i" "pid (procs w' ! i) = pid (procs w ! i)"
    if "i < MAX_PROCESSES" for i using q that by (auto simp: quiet_def l)
  show ?thesis using ok q r by (simp add: ok_with_def quiet_def)
qed

lemma sched_ok_quiet: "quiet w w' \<Longrightarrow> sched_ok w \<Longrightarrow> sched_ok w'"
  using ok_with_quiet [of w w' "cores w"] by (auto simp: sched_ok_def quiet_def cores_def)

lemma upd_nth:
  "j < length (procs w) \<Longrightarrow> procs (upd i f w) ! j = (if i = j then f (procs w ! i) else procs w ! j)"
  by (simp add: upd_def nth_list_update)

lemma upd_fields [simp]:
  "length (procs (upd i f w)) = length (procs w)" "cpus (upd i f w) = cpus w" "me (upd i f w) = me w"
  "next_pid (upd i f w) = next_pid w" "vw (upd i f w) = vw w" "pipes (upd i f w) = pipes w" "kframes (upd i f w) = kframes w"
  "rr_last (upd i f w) = rr_last w" "current (upd i f w) = current w"
  by (simp_all add: upd_def current_def)

lemma quiet_upd:
  assumes "\<And>p. p = procs w ! i \<Longrightarrow> (pstate (f p) = PROC_RUNNING \<longleftrightarrow> pstate p = PROC_RUNNING)
             \<and> (pstate (f p) \<noteq> PROC_UNUSED \<longrightarrow> pstate p \<noteq> PROC_UNUSED) \<and> pid (f p) = pid p"
  shows "quiet w (upd i f w)"
  using assms by (auto simp: quiet_def upd_nth running_def in_slot_def)

lemma quiet_map:
  assumes "\<And>p. (pstate (f p) = PROC_RUNNING \<longleftrightarrow> pstate p = PROC_RUNNING)
             \<and> (pstate (f p) \<noteq> PROC_UNUSED \<longrightarrow> pstate p \<noteq> PROC_UNUSED) \<and> pid (f p) = pid p"
  shows "quiet w (w\<lparr>procs := map f (procs w)\<rparr>)"
  using assms by (auto simp: quiet_def running_def in_slot_def)

lemma quiet_wake [quiets]: "quiet w (w\<lparr>procs := map (wake P) (procs w)\<rparr>)"
  by (rule quiet_map) (auto simp: wake_def)

lemma quiet_upd_pipe [quiets]: "quiet w (upd_pipe i f w)"
  by (simp add: quiet_same upd_pipe_def)

lemma quiet_call [quiets]: "quiet w (call c w)"
  by (simp add: quiet_same call_def)

lemma quiet_vw [quiets]: "quiet w (w\<lparr>vw := v\<rparr>)"
  by (simp add: quiet_same)

lemma quiet_put_space [quiets]: "quiet w (put_space a f w)"
  by (simp add: put_space_def quiet_vw)

lemma quiet_k_alloc: "k_alloc n w = Some (p, w') \<Longrightarrow> quiet w w'"
  by (auto simp: k_alloc_def intro: quiet_vw)

lemma quiet_k_free: "k_free p w = Some w' \<Longrightarrow> quiet w w'"
  by (auto simp: k_free_def intro: quiet_vw)

lemma quiet_space_unref: "space_unref a w = Some w' \<Longrightarrow> quiet w w'"
  by (auto simp: space_unref_def intro: quiet_vw)

lemma post_keeps: "pid (post w s p) = pid p \<and> (pstate (post w s p) = PROC_RUNNING \<longleftrightarrow> pstate p = PROC_RUNNING)
    \<and> (pstate (post w s p) = PROC_UNUSED \<longleftrightarrow> pstate p = PROC_UNUSED)"
  by (auto simp: post_def Let_def)

interpretation quietly: teardown quiet
proof (unfold_locales, goal_cases)
  case (6 w i)
  then show ?case by (intro quiet_upd) (auto simp: proc_def)
next
  case (7 w i s)
  then show ?case by (intro quiet_upd) (simp add: post_keeps)
qed (auto intro: quiet_trans quiets quiet_upd)

lemmas quiet_wakes [quiets] = quietly.wake_pipe quietly.wake_key quietly.wake_joiners
lemmas quiet_signal_post [quiets] = quietly.signal_post
lemmas quiet_signal_send [quiets] = quietly.signal_send
lemmas quiet_end_program = quietly.end_program

lemma quiet_proc_reap:
  assumes "proc_reap i w = Some w'" and "pstate (proc w i) \<noteq> PROC_RUNNING"
  shows "quiet w w'"
proof -
  obtain w1 where w1: "quiet w w1" "procs w1 = procs w" "w' = upd i (\<lambda>p. p\<lparr>kstack := 0, pstate := PROC_UNUSED\<rparr>) w1"
  proof (cases "kstack (proc w i) = 0")
    case True
    then show ?thesis using that [of w] assms(1) by (simp add: proc_reap_def)
  next
    case False
    then obtain w1 where "k_free (kstack (proc w i)) w = Some w1" "w' = upd i (\<lambda>p. p\<lparr>kstack := 0, pstate := PROC_UNUSED\<rparr>) w1"
      using assms(1) by (auto simp: proc_reap_def Option.bind_eq_Some_conv)
    then show ?thesis using that [of w1] quiet_k_free by (auto simp: k_free_def)
  qed
  have "quiet w1 w'" unfolding w1(3) using assms(2) w1(2) by (intro quiet_upd) (auto simp: proc_def)
  then show ?thesis by (rule quiet_trans [OF w1(1)])
qed

lemma quiet_reap_thread:
  assumes "reap_thread i w = Some w'"
  shows "quiet w w'"
proof (cases "current w = Some i \<or> \<not> is_thread (proc w i) \<or> pstate (proc w i) \<noteq> PROC_ZOMBIE")
  case True
  then show ?thesis using assms by (auto simp: reap_thread_def split: if_splits)
next
  case False
  then obtain w1 where w1: "space_unref (asp (proc w i)) w = Some w1"
    "proc_reap i (upd i (\<lambda>p. p\<lparr>asp := 0, ppml4 := 0, is_thread := False\<rparr>) w1) = Some w'"
    using assms by (auto simp: reap_thread_def Option.bind_eq_Some_conv)
  let ?u = "upd i (\<lambda>p. p\<lparr>asp := 0, ppml4 := 0, is_thread := False\<rparr>) w1"
  have pr: "procs w1 = procs w" using w1(1) by (auto simp: space_unref_def)
  have a: "quiet w ?u" by (rule quiet_trans [OF quiet_space_unref [OF w1(1)]], rule quiet_upd) simp
  have "pstate (proc ?u i) = pstate (proc w i)" using pr by (cases "i < length (procs w)") (auto simp: proc_def upd_def list_update_beyond)
  then show ?thesis using quiet_trans [OF a quiet_proc_reap [OF w1(2)]] False by simp
qed

lemma quiet_reap_threads: "reap_threads is w = Some w' \<Longrightarrow> quiet w w'"
proof (induction "is" arbitrary: w)
  case (Cons i "is")
  then obtain w1 where "reap_thread i w = Some w1" "reap_threads is w1 = Some w'" by (auto simp: Option.bind_eq_Some_conv)
  then show ?case using Cons.IH quiet_reap_thread quiet_trans by blast
qed simp

lemma quiet_reap_dead_threads: "reap_dead_threads w = Some w' \<Longrightarrow> quiet w w'"
  by (simp add: reap_dead_threads_def quiet_reap_threads)

subsection \<open>Stopping and starting\<close>

lemma ok_withD:
  assumes "ok_with cl w"
  shows "length (procs w) = MAX_PROCESSES"
    and "k < length cl \<Longrightarrow> cl ! k = Some i \<Longrightarrow> i < MAX_PROCESSES"
    and "k < length cl \<Longrightarrow> cl ! k = Some i \<Longrightarrow> running w i"
    and "k < length cl \<Longrightarrow> l < length cl \<Longrightarrow> cl ! k = Some i \<Longrightarrow> cl ! l = Some i \<Longrightarrow> k = l"
    and "i < MAX_PROCESSES \<Longrightarrow> running w i \<Longrightarrow> Some i \<in> set cl"
  using assms unfolding ok_with_def by blast+

lemma ok_with_transfer:
  assumes ok: "ok_with cl w" and l: "length (procs w') = length (procs w)" "next_pid w' = next_pid w"
    and s: "\<And>i. i < MAX_PROCESSES \<Longrightarrow> in_slot w' i \<Longrightarrow> in_slot w i"
    and p: "\<And>i. i < MAX_PROCESSES \<Longrightarrow> pid (procs w' ! i) = pid (procs w ! i)"
    and a: "\<And>k i. k < length cl' \<Longrightarrow> cl' ! k = Some i \<Longrightarrow> i < MAX_PROCESSES \<and> running w' i"
    and b: "\<And>k l i. k < length cl' \<Longrightarrow> l < length cl' \<Longrightarrow> cl' ! k = Some i \<Longrightarrow> cl' ! l = Some i \<Longrightarrow> k = l"
    and c: "\<And>i. i < MAX_PROCESSES \<Longrightarrow> running w' i \<Longrightarrow> Some i \<in> set cl'"
  shows "ok_with cl' w'"
proof -
  have z: "length (procs w) = MAX_PROCESSES" "0 < next_pid w"
    and o: "\<And>i. i < MAX_PROCESSES \<Longrightarrow> in_slot w i \<Longrightarrow> 0 < pid (procs w ! i) \<and> pid (procs w ! i) < next_pid w"
    and j: "\<And>i j. i < MAX_PROCESSES \<Longrightarrow> j < MAX_PROCESSES \<Longrightarrow> in_slot w i \<Longrightarrow> in_slot w j \<Longrightarrow>
              pid (procs w ! i) = pid (procs w ! j) \<Longrightarrow> i = j"
    using ok unfolding ok_with_def by blast+
  have o': "0 < pid (procs w' ! i) \<and> pid (procs w' ! i) < next_pid w'" if "i < MAX_PROCESSES" "in_slot w' i" for i
    using o [OF that(1) s [OF that]] p [OF that(1)] l(2) by simp
  have j': "i = k" if "i < MAX_PROCESSES" "k < MAX_PROCESSES" "in_slot w' i" "in_slot w' k" "pid (procs w' ! i) = pid (procs w' ! k)" for i k
    using j [OF that(1,2) s [OF that(1,3)] s [OF that(2,4)]] p [OF that(1)] p [OF that(2)] that(5) by simp
  have len: "length (procs w') = MAX_PROCESSES" and pos: "0 < next_pid w'" using z l by simp_all
  show ?thesis unfolding ok_with_def
  proof (intro conjI)
    show "\<forall>k < length cl'. \<forall>i. cl' ! k = Some i \<longrightarrow> i < MAX_PROCESSES \<and> running w' i" using a by blast
    show "\<forall>k < length cl'. \<forall>l < length cl'. \<forall>i. cl' ! k = Some i \<longrightarrow> cl' ! l = Some i \<longrightarrow> k = l" using b by blast
    show "\<forall>i < MAX_PROCESSES. running w' i \<longrightarrow> Some i \<in> set cl'" using c by blast
    show "\<forall>i < MAX_PROCESSES. in_slot w' i \<longrightarrow> 0 < pid (procs w' ! i) \<and> pid (procs w' ! i) < next_pid w'" using o' by blast
    show "\<forall>i < MAX_PROCESSES. \<forall>j < MAX_PROCESSES. in_slot w' i \<longrightarrow> in_slot w' j \<longrightarrow> pid (procs w' ! i) = pid (procs w' ! j) \<longrightarrow> i = j"
      using j' by blast
  qed (fact len pos)+
qed

lemma ok_with_stop:
  assumes ok: "ok_with cl w" and k: "k < length cl" "cl ! k = Some d"
    and f: "\<And>p. pid (f p) = pid p \<and> pstate (f p) \<noteq> PROC_RUNNING"
  shows "ok_with (cl[k := None]) (upd d f w)"
proof -
  have l: "length (procs w) = MAX_PROCESSES" and d: "d < MAX_PROCESSES" "running w d"
    using ok_withD [OF ok] k by blast+
  have u: "in_slot w d" using d(2) by (simp add: running_def in_slot_def)
  have n: "procs (upd d f w) ! i = (if d = i then f (procs w ! d) else procs w ! i)" if "i < MAX_PROCESSES" for i
    using that l by (simp add: upd_nth)
  have r: "running (upd d f w) i \<longleftrightarrow> running w i \<and> i \<noteq> d" if "i < MAX_PROCESSES" for i
    using n [OF that] f by (simp add: running_def)
  have c: "l < length cl \<and> cl ! l = Some i \<and> l \<noteq> k" if "cl[k := None] ! l = Some i" "l < length (cl[k := None])" for l i
    using that by (cases "l = k") simp_all
  show ?thesis
  proof (rule ok_with_transfer [OF ok])
    show "in_slot w i" if "i < MAX_PROCESSES" "in_slot (upd d f w) i" for i
      using that n [OF that(1)] u by (cases "d = i") (simp_all add: in_slot_def)
    show "pid (procs (upd d f w) ! i) = pid (procs w ! i)" if "i < MAX_PROCESSES" for i
      using n [OF that] f by simp
    show "i < MAX_PROCESSES \<and> running (upd d f w) i" if x: "l < length (cl[k := None])" "cl[k := None] ! l = Some i" for l i
    proof -
      have y: "l < length cl" "cl ! l = Some i" "l \<noteq> k" using c [OF x(2,1)] by simp_all
      have "i \<noteq> d" using ok_withD(4) [OF ok y(1) k(1) y(2)] k(2) y(3) by blast
      then show ?thesis using ok_withD(2,3) [OF ok y(1,2)] r by blast
    qed
    show "l = l'" if "l < length (cl[k := None])" "l' < length (cl[k := None])" "cl[k := None] ! l = Some i" "cl[k := None] ! l' = Some i" for l l' i
      using ok_withD(4) [OF ok] c that by blast
    show "Some i \<in> set (cl[k := None])" if i: "i < MAX_PROCESSES" "running (upd d f w) i" for i
    proof -
      have y: "running w i" "i \<noteq> d" using r i by blast+
      obtain l where l: "l < length cl" "cl ! l = Some i" using ok_withD(5) [OF ok i(1) y(1)] by (auto simp: in_set_conv_nth)
      have "l \<noteq> k" using l k(2) y(2) by auto
      then have "cl[k := None] ! l = Some i" "l < length (cl[k := None])" using l by simp_all
      then show ?thesis by (metis nth_mem)
    qed
  qed simp_all
qed

lemma ok_with_start:
  assumes ok: "ok_with cl w" and k: "k < length cl" "cl ! k = None" and n: "n < MAX_PROCESSES" "\<not> running w n" "in_slot w n"
  shows "ok_with (cl[k := Some n]) (upd n (\<lambda>p. p\<lparr>pstate := PROC_RUNNING\<rparr>) w)"
proof -
  let ?w = "upd n (\<lambda>p. p\<lparr>pstate := PROC_RUNNING\<rparr>) w"
  have l: "length (procs w) = MAX_PROCESSES" by (rule ok_withD [OF ok])
  have r: "running ?w i \<longleftrightarrow> running w i \<or> i = n" if "i < MAX_PROCESSES" for i
    using that l by (simp add: running_def upd_nth)
  have no: "cl ! j \<noteq> Some n" if "j < length cl" for j using ok_withD(3) [OF ok that] n(2) by blast
  have c: "cl[k := Some n] ! j = (if j = k then Some n else cl ! j)" if "j < length cl" for j
    using that k by (simp add: nth_list_update)
  show ?thesis
  proof (rule ok_with_transfer [OF ok])
    show "in_slot w i" if "i < MAX_PROCESSES" "in_slot ?w i" for i
      using that l n(3) by (cases "i = n") (simp_all add: in_slot_def upd_nth)
    show "pid (procs ?w ! i) = pid (procs w ! i)" if "i < MAX_PROCESSES" for i
      using that l by (simp add: upd_nth)
    show "i < MAX_PROCESSES \<and> running ?w i" if x: "j < length (cl[k := Some n])" "cl[k := Some n] ! j = Some i" for j i
    proof (cases "j = k")
      case True
      then show ?thesis using x c [of j] n r by simp
    next
      case False
      then have "cl ! j = Some i" "j < length cl" using x c by simp_all
      then show ?thesis using ok_withD(2,3) [OF ok] r by blast
    qed
    show "j = j'" if x: "j < length (cl[k := Some n])" "j' < length (cl[k := Some n])" "cl[k := Some n] ! j = Some i" "cl[k := Some n] ! j' = Some i" for j j' i
    proof (cases "j = k \<or> j' = k")
      case True
      then have "i = n" using x c [of j] c [of j'] by auto
      then show ?thesis using x c no by (metis length_list_update)
    next
      case False
      then show ?thesis using ok_withD(4) [OF ok, of j j' i] x c by simp
    qed
    show "Some i \<in> set (cl[k := Some n])" if i: "i < MAX_PROCESSES" "running ?w i" for i
    proof (cases "i = n")
      case True
      then show ?thesis using k by (simp add: set_update_memI)
    next
      case False
      then have "running w i" using r i by blast
      then obtain j where j: "j < length cl" "cl ! j = Some i" using ok_withD(5) [OF ok i(1)] by (auto simp: in_set_conv_nth)
      then have "j \<noteq> k" using k by auto
      then have "cl[k := Some n] ! j = Some i" "j < length (cl[k := Some n])" using j c by simp_all
      then show ?thesis by (metis nth_mem)
    qed
  qed simp_all
qed

lemma cores_upd_cpu: "cores (upd_cpu f w) = (cores w)[me w := current_proc (f (cpus w ! me w))]"
  by (simp add: cores_def upd_cpu_def map_update)

lemma upd_cpu_fields [simp]:
  "procs (upd_cpu f w) = procs w" "me (upd_cpu f w) = me w" "next_pid (upd_cpu f w) = next_pid w"
  "length (cpus (upd_cpu f w)) = length (cpus w)" "vw (upd_cpu f w) = vw w" "pipes (upd_cpu f w) = pipes w"
  "rr_last (upd_cpu f w) = rr_last w" "kframes (upd_cpu f w) = kframes w"
  by (simp_all add: upd_cpu_def)

lemma ok_with_procs:
  "procs w' = procs w \<Longrightarrow> next_pid w' = next_pid w \<Longrightarrow> ok_with cl w' = ok_with cl w"
  by (simp add: ok_with_def running_def in_slot_def)

lemma cores_current: "me w < length (cpus w) \<Longrightarrow> cores w ! me w = current w"
  by (simp add: cores_def current_def)

text \<open>What a call of the kernel may do to the invariant: keep it, on the same core of the same machine.\<close>

definition sound :: "kw \<Rightarrow> kw \<Rightarrow> bool" where
  "sound w w' \<longleftrightarrow> sched_ok w' \<and> me w' = me w \<and> length (cpus w') = length (cpus w) \<and> next_pid w' = next_pid w"

lemma sound_quiet: "quiet w w' \<Longrightarrow> sched_ok w \<Longrightarrow> sound w w'"
  using sched_ok_quiet by (auto simp: sound_def quiet_def)

lemma sound_trans: "sound a b \<Longrightarrow> sound b c \<Longrightarrow> sound a c"
  by (simp add: sound_def)

lemma soundD: "sound w w' \<Longrightarrow> sched_ok w'"
  by (simp add: sound_def)

text \<open>A call that may also hand out one process id, while there are ids left.\<close>

definition grown :: "kw \<Rightarrow> kw \<Rightarrow> bool" where
  "grown w w' \<longleftrightarrow> sched_ok w' \<and> me w' = me w \<and> length (cpus w') = length (cpus w) \<and> next_pid w' \<le> next_pid w + 1"

lemma grownD: "grown w w' \<Longrightarrow> sched_ok w'"
  by (simp add: grown_def)

lemma grown_sound: "sound w w' \<Longrightarrow> grown w w'"
  by (simp add: sound_def grown_def)

lemma grown_after: "sound a b \<Longrightarrow> grown b c \<Longrightarrow> grown a c"
  by (simp add: sound_def grown_def)

lemma grown_then: "grown a b \<Longrightarrow> sound b c \<Longrightarrow> grown a c"
  by (simp add: sound_def grown_def)

lemma grown_quiet: "grown a b \<Longrightarrow> quiet b c \<Longrightarrow> grown a c"
  by (rule grown_then [OF _ sound_quiet [OF _ grownD]])

text \<open>The largest value \<^verbatim>\<open>next_pid\<close> can take.\<close>

definition INT_MAX :: int where "INT_MAX = 2147483647"

lemma leave_ok:
  assumes ok: "sched_ok w" and c: "current w = Some c" and f: "\<And>p. pid (f p) = pid p \<and> pstate (f p) \<noteq> PROC_RUNNING"
    and q: "quiet (upd c f w) w1" and g: "\<And>x. current_proc (g x) = None"
  shows "sound w (upd_cpu g w1)" and "current (upd_cpu g w1) = None"
proof -
  have m: "me w < length (cpus w)" using ok by (simp add: sched_ok_def)
  have "ok_with ((cores w)[me w := None]) (upd c f w)"
    using ok_with_stop [OF _ _ _ f, of "cores w" w "me w" c] ok m cores_current [OF m] c by (simp add: sched_ok_def cores_def)
  then have "ok_with ((cores w)[me w := None]) w1" by (rule ok_with_quiet [OF q])
  moreover have e: "cores w1 = cores w" "me w1 = me w" "length (cpus w1) = length (cpus w)"
    using q by (simp_all add: quiet_def cores_def)
  moreover have "next_pid w1 = next_pid w" using q by (simp add: quiet_def)
  ultimately show "sound w (upd_cpu g w1)"
    using ok_with_procs [of "upd_cpu g w1" w1] m by (simp add: sound_def sched_ok_def cores_upd_cpu g)
  show "current (upd_cpu g w1) = None" using m e by (simp add: current_def upd_cpu_def g)
qed

lemma activate_ok:
  assumes ok: "sched_ok w" and c: "current w = None" and n: "n < MAX_PROCESSES" "runnable (proc w n)"
  shows "sound w (activate n w)" and "current (activate n w) = Some n"
proof -
  let ?u = "upd n (\<lambda>p. p\<lparr>pstate := PROC_RUNNING\<rparr>) w"
  have m: "me w < length (cpus w)" using ok by (simp add: sched_ok_def)
  have "ok_with ((cores w)[me w := Some n]) ?u"
    using ok_with_start [of "cores w" w "me w" n] ok m c cores_current [OF m] n
    by (simp add: sched_ok_def cores_def runnable_def proc_def running_def in_slot_def)
  then show "sound w (activate n w)"
    using ok_with_procs [of "activate n w" ?u] m
    by (simp add: sound_def sched_ok_def activate_def Let_def cores_upd_cpu) (simp add: cores_def upd_def)
  show "current (activate n w) = Some n" using m by (simp add: activate_def Let_def current_def upd_cpu_def upd_def)
qed

subsection \<open>Ending a process\<close>

lemma check_signals_keeps: "check_signals h p = (r, p') \<Longrightarrow> \<exists>a b. p' = p\<lparr>sig_pending := a, stopped := b\<rparr>"
proof (induction h p arbitrary: r p' rule: check_signals.induct)
  case (1 h p)
  show ?case
  proof (cases "due h p")
    case None
    then have "p' = p\<lparr>sig_pending := sig_pending p, stopped := stopped p\<rparr>" using 1(5) by (subst (asm) check_signals.simps) simp
    then show ?thesis by blast
  next
    case (Some s)
    let ?p = "unpend s p"
    show ?thesis
    proof (cases "h s = SIG_IGN_ADDR \<and> SIGBIT s AND UNCATCHABLE = 0")
      case True
      then have "check_signals h ?p = (r, p')" using 1(5) Some by (subst (asm) check_signals.simps) (simp add: Let_def)
      then obtain a b where "p' = ?p\<lparr>sig_pending := a, stopped := b\<rparr>" using 1(1) [OF Some refl True] by blast
      then show ?thesis by (auto simp: unpend_def)
    next
      case False
      note e = 1(5) [unfolded check_signals.simps [of h p] Some option.case Let_def if_not_P [OF False]]
      show ?thesis
      proof (cases "default_action s")
        case DFL_TERM
        then have "p' = p\<lparr>sig_pending := sig_pending ?p, stopped := stopped p\<rparr>" using e by (auto simp: unpend_def)
        then show ?thesis by blast
      next
        case DFL_IGN
        then obtain a b where "p' = ?p\<lparr>sig_pending := a, stopped := b\<rparr>" using e 1(2) [OF Some refl False DFL_IGN] by auto
        then show ?thesis by (auto simp: unpend_def)
      next
        case DFL_STOP
        then obtain a b where "p' = ?p\<lparr>stopped := True, sig_pending := a, stopped := b\<rparr>" using e 1(3) [OF Some refl False DFL_STOP] by auto
        then show ?thesis by (auto simp: unpend_def)
      next
        case DFL_CONT
        then obtain a b where "p' = ?p\<lparr>stopped := False, sig_pending := a, stopped := b\<rparr>" using e 1(4) [OF Some refl False DFL_CONT] by auto
        then show ?thesis by (auto simp: unpend_def)
      qed
    qed
  qed
qed

lemma quiet_check:
  assumes "check_signals h (proc w c) = (r, p)"
  shows "quiet w (upd c (\<lambda>_. p) w)"
proof -
  obtain a b where "p = (proc w c)\<lparr>sig_pending := a, stopped := b\<rparr>" using check_signals_keeps [OF assms] by blast
  then show ?thesis by (intro quiet_upd) (simp add: proc_def)
qed

lemma quiet_end_thread:
  assumes "end_thread d w = Some w'"
  shows "quiet w w'"
proof -
  obtain v where "w' = wake_joiners_of d (w\<lparr>vw := v\<rparr>) \<or> w' = wake_joiners_of d w"
    using assms by (auto simp: end_thread_def Let_def split: if_splits)
  then show ?thesis using quiet_trans [OF quiet_vw quiet_wakes(3)] quiet_wakes(3) by blast
qed

lemma exit_ok:
  assumes ok: "sched_ok w" and e: "process_notify_exit code w = Some w'"
  shows "sound w w'" and "current w' = None"
proof -
  obtain d w1 where d: "current w = Some d" and w1: "reap_dead_threads w = Some w1"
    using e by (auto simp: process_notify_exit_def Option.bind_eq_Some_conv split: option.splits)
  let ?f = "\<lambda>p. p\<lparr>exit_code := code, pstate := PROC_ZOMBIE\<rparr>"
  let ?w2 = "(upd d ?f w1)\<lparr>last_exit_code := code\<rparr>"
  obtain w3 where w3: "(if is_thread (proc ?w2 d) then end_thread d ?w2 else Some (end_program d ?w2)) = Some w3"
    using e d w1 by (auto simp: process_notify_exit_def Option.bind_eq_Some_conv Let_def)
  let ?g = "\<lambda>c. c\<lparr>current_proc := None, cr3 := kernel_space w3, cpu_kstack := 0\<rparr>"
  let ?w4 = "upd_cpu ?g w3"
  obtain w5 where w5: "(if is_thread (proc ?w4 d) then Some ?w4
      else map_option (upd d (\<lambda>p. p\<lparr>asp := 0, ppml4 := 0\<rparr>)) (space_unref (asp (proc ?w4 d)) ?w4)) = Some w5"
    and w6: "(if parent_pid (proc w5 d) = 0 \<and> \<not> is_thread (proc w5 d) then proc_reap d w5 else Some w5) = Some w'"
    using e d w1 w3 by (auto simp: process_notify_exit_def Option.bind_eq_Some_conv Let_def)
  have q1: "quiet w w1" by (rule quiet_reap_dead_threads [OF w1])
  have s1: "sched_ok w1" "current w1 = Some d" using sched_ok_quiet [OF q1 ok] quiet_current [OF q1] d by simp_all
  have dl: "d < length (procs w1)"
    using ok_withD(1) [of "cores w1" w1] ok_withD(2) [of "cores w1" w1 "me w1" d] s1 cores_current [of w1]
    by (simp add: sched_ok_def cores_def)
  have "quiet ?w2 w3" using w3 quiet_end_thread quiet_end_program by (auto split: if_splits)
  moreover have "quiet (upd d ?f w1) ?w2" by (rule quiet_same) simp_all
  ultimately have q3: "quiet (upd d ?f w1) w3" using quiet_trans by blast
  have s4: "sound w1 ?w4" and c4: "current ?w4 = None" using leave_ok [OF s1 _ q3, of ?g] by simp_all
  have zom: "\<not> running ?w4 d"
    using q3 dl by (simp add: quiet_def running_def upd_nth)
  have q5: "quiet ?w4 w5"
  proof (cases "is_thread (proc ?w4 d)")
    case False
    then obtain x where x: "space_unref (asp (proc ?w4 d)) ?w4 = Some x" "w5 = upd d (\<lambda>p. p\<lparr>asp := 0, ppml4 := 0\<rparr>) x"
      using w5 by auto
    have "quiet x w5" unfolding x(2) by (rule quiet_upd) simp
    then show ?thesis by (rule quiet_trans [OF quiet_space_unref [OF x(1)]])
  qed (use w5 in simp)
  have "length (procs w3) = length (procs w1)" using q3 by (simp add: quiet_def)
  then have "\<not> running w5 d" using q5 zom dl by (simp add: quiet_def)
  then have q6: "quiet w5 w'" using w6 quiet_proc_reap by (auto simp: running_def proc_def split: if_splits)
  show "sound w w'"
    using sound_trans [OF sound_quiet [OF q1 ok] sound_trans [OF s4 sound_quiet [OF quiet_trans [OF q5 q6] soundD [OF s4]]]] .
  show "current w' = None" using quiet_current [OF quiet_trans [OF q5 q6]] c4 by simp
qed

lemma signal_check_ok:
  assumes ok: "sched_ok w" and e: "signal_check w = Some (alive, w')"
  shows "sound w w'" and "alive \<Longrightarrow> quiet w w'" and "\<not> alive \<Longrightarrow> current w' = None"
proof -
  have "sound w w' \<and> (alive \<longrightarrow> quiet w w') \<and> (\<not> alive \<longrightarrow> current w' = None)"
  proof (cases "current w")
    case None
    then show ?thesis using e sound_quiet [OF quiet_refl ok] by (simp add: signal_check_def)
  next
    case (Some c)
    obtain r p where rp: "check_signals (handler_of w (proc w c)) (proc w c) = (r, p)" by fastforce
    have q: "quiet w (upd c (\<lambda>_. p) w)" by (rule quiet_check [OF rp])
    show ?thesis
    proof (cases r)
      case None
      then have "alive \<and> w' = upd c (\<lambda>_. p) w" using e Some rp by (simp add: signal_check_def)
      then show ?thesis using q sound_quiet [OF q ok] by simp
    next
      case (Some s)
      then have x: "\<not> alive" "process_notify_exit (128 + s) (upd c (\<lambda>_. p) w) = Some w'"
        using e \<open>current w = _\<close> rp by (auto simp: signal_check_def)
      show ?thesis
        using x(1) exit_ok [OF sched_ok_quiet [OF q ok] x(2)] sound_trans [OF sound_quiet [OF q ok]] by blast
    qed
  qed
  then show "sound w w'" "alive \<Longrightarrow> quiet w w'" "\<not> alive \<Longrightarrow> current w' = None" by blast+
qed

lemma quiet_deliver: "deliver c sig h sf w = Some (r, w') \<Longrightarrow> quiet w w'"
proof -
  assume e: "deliver c sig h sf w = Some (r, w')"
  have "w' = w \<or> (\<exists>v. w' = w\<lparr>vw := v\<rparr>) \<or> (\<exists>v. w' = upd c (\<lambda>p. p\<lparr>sig_blocked := sig_blocked p OR SIGBIT sig,
          sig_pending := sig_pending p AND NOT (SIGBIT sig)\<rparr>) (w\<lparr>vw := v\<rparr>))"
    using e by (auto simp: deliver_def Let_def Option.bind_eq_Some_conv split: if_splits)
  moreover have "quiet w (upd c (\<lambda>p. p\<lparr>sig_blocked := sig_blocked p OR SIGBIT sig,
          sig_pending := sig_pending p AND NOT (SIGBIT sig)\<rparr>) (w\<lparr>vw := v\<rparr>))" for v
    by (rule quiet_trans [OF quiet_vw]) (rule quiet_upd, simp)
  ultimately show ?thesis using quiet_vw by auto
qed

lemma delivered_ok:
  assumes ok: "sched_ok w" and q: "quiet w w1"
    and e: "Option.bind (deliver c sig h sf w1) (\<lambda>(r, w2). case r of None \<Rightarrow> map_option (Pair None) (deliver_failed sig w2)
             | Some sf \<Rightarrow> Some (Some (g sf), w2)) = Some (x, w')"
  shows "sound w w'"
proof -
  obtain r w2 where d: "deliver c sig h sf w1 = Some (r, w2)" using e by (cases "deliver c sig h sf w1") auto
  have q2: "quiet w w2" by (rule quiet_trans [OF q quiet_deliver [OF d]])
  show ?thesis
  proof (cases r)
    case None
    then have "process_notify_exit (128 + sig) w2 = Some w'" using e d by (auto simp: deliver_failed_def)
    then show ?thesis using exit_ok(1) sched_ok_quiet [OF q2 ok] sound_trans [OF sound_quiet [OF q2 ok]] by blast
  next
    case (Some sf1)
    then show ?thesis using e d sound_quiet [OF q2 ok] by simp
  qed
qed

lemma signal_on_interrupt_return_ok:
  assumes ok: "sched_ok w" and e: "signal_on_interrupt_return junk f w = Some (r, w')"
  shows "sound w w'"
proof (cases "\<exists>c sig. current w = Some c \<and> cs f AND 3 = 3 \<and> next_handled w (proc w c) = Some sig")
  case True
  then obtain c sig where c: "current w = Some c" "cs f AND 3 = 3" "next_handled w (proc w c) = Some sig" by blast
  show ?thesis using e c by (intro delivered_ok [OF ok quiet_refl]) (simp add: signal_on_interrupt_return_def)
next
  case False
  then have "w' = w" using e by (auto simp: signal_on_interrupt_return_def split: option.splits if_splits)
  then show ?thesis using sound_quiet [OF quiet_refl ok] by simp
qed

lemma signal_on_syscall_return_ok:
  assumes ok: "sched_ok w" and e: "signal_on_syscall_return f num ret w = Some (r, w')"
  shows "sound w w'"
proof (cases "current w")
  case None
  then show ?thesis using e sound_quiet [OF quiet_refl ok] by (simp add: signal_on_syscall_return_def)
next
  case (Some c)
  let ?w = "upd c (\<lambda>p. p\<lparr>sig_restart := False\<rparr>) w"
  have u: "quiet w ?w" by (rule quiet_upd) simp
  show ?thesis
  proof (cases "next_handled ?w (proc ?w c)")
    case None
    then show ?thesis using e Some sound_quiet [OF u ok] by (simp add: signal_on_syscall_return_def Let_def)
  next
    case (Some sig)
    then show ?thesis using e \<open>current w = _\<close>
      by (intro delivered_ok [OF ok u]) (simp add: signal_on_syscall_return_def Let_def)
  qed
qed

subsection \<open>Blocking and going on\<close>

lemma block_current_ok:
  assumes ok: "sched_ok w" and c: "current w = Some c" and f: "\<And>p. pid (f p) = pid p \<and> pstate (f p) \<noteq> PROC_RUNNING"
  shows "sound w (snd (block_current c k (upd c f w)))"
proof -
  have "quiet (upd c f w) (upd c (\<lambda>p. p\<lparr>resume_kernel := True, fxstate := core_fpu (upd c f w), kctx := k\<rparr>) (upd c f w))"
    by (rule quiet_upd) simp
  from leave_ok(1) [OF ok c f this, of "\<lambda>c. c\<lparr>current_proc := None, cpu_kstack := 0\<rparr>"]
  show ?thesis by (simp add: block_current_def go_idle_def)
qed

lemma block_on_ok:
  assumes ok: "sched_ok w" and c: "current w = Some c"
  shows "sound w (snd (block_on c why k w))"
  unfolding block_on_def by (rule block_current_ok [OF ok c]) simp

lemma block_on_after:
  assumes ok: "sched_ok w" and c: "current w = Some c" and q: "quiet w w1"
  shows "sound w (snd (block_on c why k w1))"
  using sound_trans [OF sound_quiet [OF q ok] block_on_ok [OF sched_ok_quiet [OF q ok]]] quiet_current [OF q] c by simp

lemma quiet_keep:
  "quiet w (upd c (\<lambda>p. p\<lparr>waiting_for := n\<rparr>) w)" "quiet w (upd c (\<lambda>p. p\<lparr>wake_at := t\<rparr>) w)"
  "quiet w (upd c (\<lambda>p. p\<lparr>sig_restart := b\<rparr>) w)"
  "quiet w (upd c (\<lambda>p. p\<lparr>sig_restart := (if s then True else sig_restart p), wait_reason := WAIT_NONE\<rparr>) w)"
  "quiet w (upd c (\<lambda>p. p\<lparr>pticks := pticks p + 1\<rparr>) w)" "quiet w (upd c (\<lambda>p. p\<lparr>saved_rsp := r\<rparr>) w)"
  by (rule quiet_upd, simp)+

lemma woken_ok:
  assumes ok: "sched_ok w" and e: "woken c w = Some (s, w')"
  shows "sound w w'" and "s \<noteq> None \<Longrightarrow> quiet w w'"
proof -
  obtain alive w1 where w1: "signal_check w = Some (alive, w1)" using e by (auto simp: woken_def Option.bind_eq_Some_conv)
  have "sound w w' \<and> (s \<noteq> None \<longrightarrow> quiet w w')"
  proof (cases alive)
    case True
    have q: "quiet w w1" using signal_check_ok(2) [OF ok w1] True by simp
    have "quiet w1 w'" using e w1 True quiet_keep(4) by (auto simp: woken_def Let_def)
    then show ?thesis using sound_quiet [OF _ ok] quiet_trans [OF q] by blast
  next
    case False
    then show ?thesis using e w1 signal_check_ok(1) [OF ok w1] by (simp add: woken_def)
  qed
  then show "sound w w'" "s \<noteq> None \<Longrightarrow> quiet w w'" by blast+
qed

lemma process_wait_ok:
  assumes ok: "sched_ok w" and e: "process_wait n w = Some (r, w')"
  shows "sound w w'"
proof (cases "current w")
  case None
  then show ?thesis using e sound_quiet [OF quiet_refl ok] by (simp add: process_wait_def)
next
  case (Some c)
  show ?thesis
  proof (cases "first_idx (\<lambda>p. waits_for w c n p \<and> pstate p = PROC_ZOMBIE) (procs w)")
    case None
    then have "w' = w \<or> w' = snd (block_on c WAIT_CHILD (In_wait n) (upd c (\<lambda>p. p\<lparr>waiting_for := n\<rparr>) w))"
      using e Some by (auto simp: process_wait_def split: if_splits)
    then show ?thesis using block_on_after [OF ok Some quiet_keep(1)] sound_quiet [OF quiet_refl ok] by blast
  next
    case (Some i)
    then have "proc_reap i w = Some w'" "pstate (proc w i) = PROC_ZOMBIE"
      using e \<open>current w = _\<close> first_idx_Some [OF Some] by (auto simp: process_wait_def proc_def)
    then show ?thesis using sound_quiet [OF quiet_proc_reap ok] by simp
  qed
qed

lemma process_thread_join_ok:
  assumes ok: "sched_ok w" and e: "process_thread_join tid w = Some (r, w')"
  shows "sound w w'"
proof (cases "current w")
  case None
  then show ?thesis using e sound_quiet [OF quiet_refl ok] by (simp add: process_thread_join_def)
next
  case (Some c)
  obtain w1 where w1: "reap_dead_threads w = Some w1"
    using e Some by (auto simp: process_thread_join_def Option.bind_eq_Some_conv)
  have q: "quiet w w1" by (rule quiet_reap_dead_threads [OF w1])
  have "w' = w1 \<or> reap_dead_threads w1 = Some w'
      \<or> w' = snd (block_on c WAIT_THREAD (In_join tid) (upd c (\<lambda>p. p\<lparr>waiting_for := tid\<rparr>) w1))"
    using e Some w1 by (auto simp: process_thread_join_def split: option.splits if_splits)
  then show ?thesis
    using sound_quiet [OF _ ok] q quiet_trans [OF q quiet_reap_dead_threads] block_on_after [OF ok Some quiet_trans [OF q quiet_keep(1)]]
    by blast
qed

lemma pipe_write_ok:
  "sched_ok w \<Longrightarrow> current w = Some c \<Longrightarrow> sound w (snd (pipe_write c bs written idx w))"
proof (induction c bs written idx w rule: pipe_write.induct)
  case (1 c bs written idx w)
  have r: "sound w w" by (rule sound_quiet [OF quiet_refl 1(2)])
  show ?case
  proof (cases "bs \<noteq> [] \<and> read_open (pipes w ! idx) \<and> pcount (pipes w ! idx) < PIPE_BUF_SIZE")
    case True
    obtain bs1 p1 where p: "put_bytes bs (pipes w ! idx) = (bs1, p1)" by fastforce
    let ?w = "process_wake_pipe (upd_pipe idx (\<lambda>_. p1) w)"
    have q: "quiet w ?w" by (rule quiet_trans [OF quiet_upd_pipe quiet_wakes(1)])
    have "sound ?w (snd (pipe_write c bs1 (written + (length bs - length bs1)) idx ?w))"
      using 1(1) [OF _ refl _ _ p [symmetric]] True sched_ok_quiet [OF q 1(2)] quiet_current [OF q] 1(3) by simp
    then have "sound w (snd (pipe_write c bs1 (written + (length bs - length bs1)) idx ?w))"
      by (rule sound_trans [OF sound_quiet [OF q 1(2)]])
    then show ?thesis using True p by (subst pipe_write.simps) (simp add: Let_def)
  next
    case False
    then show ?thesis using r block_on_ok [OF 1(2,3)] by (subst pipe_write.simps) (auto simp: Let_def)
  qed
qed

lemma pipe_read_ok:
  assumes "sched_ok w" and "current w = Some c"
  shows "sound w (snd (pipe_read c idx len w))"
proof -
  have "quiet w (process_wake_pipe (upd_pipe idx f w))" for f by (rule quiet_trans [OF quiet_upd_pipe quiet_wakes(1)])
  then show ?thesis
    using sound_quiet [OF _ assms(1)] block_on_ok [OF assms] quiet_refl by (auto simp: pipe_read_def Let_def split: prod.splits)
qed

lemma resume_kont_ok:
  assumes ok: "sched_ok w" and c: "current w = Some c" and e: "resume_kont c k w = Some (r, w')"
  shows "sound w w'"
proof (cases "k = In_yield")
  case True
  then show ?thesis using e sound_quiet [OF quiet_refl ok] by (simp add: resume_kont_def)
next
  case False
  obtain s w1 where w1: "woken c w = Some (s, w1)" using e False by (auto simp: resume_kont_def Option.bind_eq_Some_conv)
  show ?thesis
  proof (cases s)
    case None
    then show ?thesis using e False w1 woken_ok(1) [OF ok w1] by (simp add: resume_kont_def)
  next
    case (Some b)
    have q: "quiet w w1" using woken_ok(2) [OF ok w1] Some by simp
    have k: "sched_ok w1" "current w1 = Some c" using sched_ok_quiet [OF q ok] quiet_current [OF q] c by simp_all
    have z: "sound w1 w1" by (rule sound_quiet [OF quiet_refl k(1)])
    have u: "sound w1 (upd c (\<lambda>p. p\<lparr>sig_restart := False\<rparr>) w1)" by (rule sound_quiet [OF quiet_keep(3) k(1)])
    have "sound w1 w'"
    proof (cases k)
      case (In_wait n)
      then show ?thesis using e w1 Some z process_wait_ok [OF k(1)] by (auto simp: resume_kont_def split: if_splits)
    next
      case (In_join n)
      then show ?thesis using e w1 Some z process_thread_join_ok [OF k(1)] by (auto simp: resume_kont_def split: if_splits)
    next
      case (In_pipe_write i bs wr)
      then have "w' \<in> {w1, upd c (\<lambda>p. p\<lparr>sig_restart := False\<rparr>) w1, snd (pipe_write c bs wr i w1)}"
        using e w1 Some by (auto simp: resume_kont_def split: if_splits)
      then show ?thesis using z u pipe_write_ok [OF k] by auto
    next
      case (In_pipe_read i n)
      then have "w' \<in> {w1, snd (pipe_read c i n w1)}" using e w1 Some by (auto simp: resume_kont_def split: if_splits)
      then show ?thesis using z pipe_read_ok [OF k] by auto
    qed (use e w1 Some z u False in \<open>auto simp: resume_kont_def\<close>)
    then show ?thesis by (rule sound_trans [OF sound_quiet [OF q ok]])
  qed
qed

subsection \<open>Switching\<close>

lemma pick_next_Some:
  assumes "pick_next a w = Some n"
  shows "n < MAX_PROCESSES" and "runnable (proc w n)"
proof -
  have "n \<in> set (map (\<lambda>k. ((case a of None \<Rightarrow> (rr_last w + 1) mod MAX_PROCESSES | Some a \<Rightarrow> a + 1) + k) mod MAX_PROCESSES) [0..<MAX_PROCESSES])"
    and r: "runnable (proc w n)"
    using assms by (auto simp: pick_next_def Let_def find_Some_iff in_set_conv_nth)
  then show "n < MAX_PROCESSES" by (auto simp: MAX_PROCESSES_def)
  show "runnable (proc w n)" by (rule r)
qed

lemma put_down_ok:
  assumes ok: "sched_ok w" and c: "current w = Some c"
  shows "sound w (snd (go_idle (put_down c w)))" and "current (snd (go_idle (put_down c w))) = None"
proof -
  let ?f = "\<lambda>p. p\<lparr>resume_kernel := False, pstate := PROC_READY, fxstate := core_fpu w\<rparr>"
  have f: "pid (?f p) = pid p \<and> pstate (?f p) \<noteq> PROC_RUNNING" for p by simp
  show "sound w (snd (go_idle (put_down c w)))" "current (snd (go_idle (put_down c w))) = None"
    using leave_ok [OF ok c f quiet_refl, of "\<lambda>c. c\<lparr>current_proc := None, cpu_kstack := 0\<rparr>"]
    by (simp_all add: go_idle_def put_down_def)
qed

lemma activate_absorbs:
  assumes "me w < length (cpus w)"
  shows "activate n (snd (go_idle w)) = activate n w"
  using assms by (simp add: activate_def go_idle_def upd_cpu_def upd_def proc_def Let_def)

lemma switch_ok:
  assumes ok: "sched_ok w" and c: "current w = Some c" and n: "n < MAX_PROCESSES" "runnable (proc w n)"
  shows "sound w (activate n (put_down c w))" and "current (activate n (put_down c w)) = Some n"
proof -
  let ?i = "snd (go_idle (put_down c w))"
  have m: "me w < length (cpus w)" using ok by (simp add: sched_ok_def)
  have i: "sound w ?i" "current ?i = None" by (rule put_down_ok [OF ok c])+
  have l: "length (procs w) = MAX_PROCESSES" using ok ok_withD(1) by (auto simp: sched_ok_def)
  have "runnable (proc ?i n)"
  proof (cases "n = c")
    case True
    then show ?thesis using n l by (simp add: go_idle_def put_down_def proc_def upd_nth runnable_def)
  next
    case False
    then show ?thesis using n l by (simp add: go_idle_def put_down_def proc_def upd_nth)
  qed
  from activate_ok [OF soundD [OF i(1)] i(2) n(1) this]
  have "sound ?i (activate n ?i)" "current (activate n ?i) = Some n" .
  moreover have "activate n ?i = activate n (put_down c w)"
    using m by (intro activate_absorbs) (simp add: put_down_def)
  ultimately show "sound w (activate n (put_down c w))" "current (activate n (put_down c w)) = Some n"
    using sound_trans [OF i(1)] by simp_all
qed

lemma bend_frame_ok:
  assumes ok: "sched_ok w" and e: "bend_frame junk at w = Some (r, w')"
  shows "sound w w'"
proof -
  obtain f w1 where f: "signal_on_interrupt_return junk (kframes w at) w = Some (f, w1)"
    using e by (auto simp: bend_frame_def)
  have s: "sound w w1" by (rule signal_on_interrupt_return_ok [OF ok f])
  have "quiet w1 w'" using e f by (cases f) (auto simp: bend_frame_def intro: quiet_same)
  then show ?thesis using sound_trans [OF s sound_quiet [OF _ soundD [OF s]]] by blast
qed

lemma sched_on_tick_ok:
  assumes ok: "sched_ok w" and e: "sched_on_tick junk wants r0 csel w = Some (r, w')"
  shows "sound w w'"
proof (cases "current w")
  case None
  then show ?thesis using e sound_quiet [OF quiet_refl ok] by (simp add: sched_on_tick_def)
next
  case (Some c)
  let ?w1 = "if pstate (proc w c) = PROC_RUNNING then upd c (\<lambda>p. p\<lparr>pticks := pticks p + 1\<rparr>) w else w"
  let ?u = "upd c (\<lambda>p. p\<lparr>saved_rsp := r0\<rparr>) ?w1"
  have q1: "quiet w ?w1" using quiet_keep(5) by simp
  have qu: "quiet w ?u" by (rule quiet_trans [OF q1 quiet_keep(6)])
  show ?thesis
  proof (cases "\<not> scheduler_active w \<or> csel AND 3 \<noteq> 3")
    case True
    then have "w' = w \<or> w' = ?w1" using e Some by (auto simp: sched_on_tick_def Let_def split: if_splits)
    then show ?thesis using sound_quiet [OF _ ok] q1 quiet_refl by blast
  next
    case False
    then obtain alive w2 where w2: "signal_check ?u = Some (alive, w2)"
      using e Some by (auto simp: sched_on_tick_def Let_def Option.bind_eq_Some_conv split: if_splits)
    note u = sched_ok_quiet [OF qu ok]
    note e2 = e [unfolded sched_on_tick_def Some option.case Let_def, simplified False w2, simplified]
    have s2: "sound w w2" by (rule sound_trans [OF sound_quiet [OF qu ok] signal_check_ok(1) [OF u w2]])
    show ?thesis
    proof (cases alive)
      case False
      then show ?thesis using e2 w2 \<open>\<not> (_ \<or> _)\<close> s2 by simp
    next
      case True
      have q2: "quiet w w2" by (rule quiet_trans [OF qu signal_check_ok(2) [OF u w2 True]])
      have k: "sched_ok w2" "current w2 = Some c" using soundD [OF s2] quiet_current [OF q2] Some by simp_all
      consider "w' = snd (go_idle (put_down c w2))" | "bend_frame junk r0 w2 = Some (r, w')"
        | n where "pick_next (Some c) w2 = Some n"
            "(if resume_kernel (proc (activate n (put_down c w2)) n) then resume_kont n (kctx (proc (activate n (put_down c w2)) n)) (activate n (put_down c w2))
              else bend_frame junk (saved_rsp (proc (activate n (put_down c w2)) n)) (activate n (put_down c w2))) = Some (r, w')"
        using e2 w2 \<open>\<not> (_ \<or> _)\<close> True by (auto split: if_splits option.splits)
      then have "sound w2 w'"
      proof cases
        case 1
        then show ?thesis using put_down_ok(1) [OF k] by simp
      next
        case 2
        then show ?thesis by (rule bend_frame_ok [OF k(1)])
      next
        case (3 n)
        note a = switch_ok [OF k pick_next_Some [OF 3(1)]]
        show ?thesis
          using 3(2) sound_trans [OF a(1) resume_kont_ok [OF soundD [OF a(1)] a(2)]] sound_trans [OF a(1) bend_frame_ok [OF soundD [OF a(1)]]]
          by (auto split: if_splits)
      qed
      then show ?thesis by (rule sound_trans [OF s2])
    qed
  qed
qed

lemma cpu_loop_ok:
  assumes ok: "sched_ok w" and c: "current w = None" and e: "cpu_loop wm w = Some (r, w')"
  shows "sound w w'"
proof -
  let ?w = "upd_cpu (\<lambda>c. c\<lparr>current_proc := None, cpu_kstack := 0\<rparr>) w"
  have m: "me w < length (cpus w)" using ok by (simp add: sched_ok_def)
  have cs': "cores ?w = cores w" using c cores_current [OF m] by (simp add: cores_upd_cpu) (metis list_update_id)
  have s: "sound w ?w" using ok cs' ok_with_procs [of ?w w] by (simp add: sound_def sched_ok_def)
  have n: "current ?w = None" using m by (simp add: current_def upd_cpu_def)
  show ?thesis
  proof (cases "pick_next None ?w")
    case None
    then have "w' = ?w \<or> w' = upd_cpu (\<lambda>c. c\<lparr>cr3 := kernel_space ?w\<rparr>) ?w"
      using e by (auto simp: cpu_loop_def Let_def split: if_splits)
    moreover have "sound ?w (upd_cpu (\<lambda>c. c\<lparr>cr3 := x\<rparr>) ?w)" for x
      using soundD [OF s] ok_with_procs [of "upd_cpu (\<lambda>c. c\<lparr>cr3 := x\<rparr>) ?w" ?w] m
      by (simp add: sound_def sched_ok_def cores_upd_cpu) (simp add: cores_def upd_cpu_def map_update)
    ultimately show ?thesis using s sound_trans by blast
  next
    case (Some i)
    note a = activate_ok [OF soundD [OF s] n pick_next_Some [OF Some]]
    have "w' = activate i ?w \<or> (\<exists>f. resume_kont i (kctx (proc (activate i ?w) i)) (activate i ?w) = Some (f, w'))"
      using e Some by (auto simp: cpu_loop_def resume_process_def Let_def split: if_splits)
    then show ?thesis
      using sound_trans [OF s a(1)] sound_trans [OF sound_trans [OF s a(1)] resume_kont_ok [OF soundD [OF a(1)] a(2)]] by blast
  qed
qed

subsection \<open>New processes\<close>

lemma ok_with_fresh:
  assumes ok: "ok_with cl w" and i: "i < MAX_PROCESSES" "\<not> in_slot w i"
    and f: "\<And>p. pid (f p) = next_pid w \<and> pstate (f p) = PROC_READY" and b: "next_pid w < INT_MAX"
  shows "ok_with cl ((upd i f w)\<lparr>next_pid := int_succ (next_pid w)\<rparr>)"
proof -
  let ?w = "(upd i f w)\<lparr>next_pid := int_succ (next_pid w)\<rparr>"
  have l: "length (procs w) = MAX_PROCESSES" by (rule ok_withD [OF ok])
  have n: "procs ?w ! j = (if i = j then f (procs w ! i) else procs w ! j)" if "j < MAX_PROCESSES" for j
    using that l by (simp add: upd_nth)
  have nr: "\<not> running w i" using i by (simp add: running_def in_slot_def)
  have r: "running ?w j \<longleftrightarrow> running w j" if "j < MAX_PROCESSES" for j
    using n [OF that] nr f by (cases "i = j") (simp_all add: running_def)
  have s: "in_slot ?w j \<longleftrightarrow> in_slot w j \<or> j = i" if "j < MAX_PROCESSES" for j
    using n [OF that] f by (cases "i = j") (simp_all add: in_slot_def)
  have g: "pid (procs ?w ! j) = (if j = i then next_pid w else pid (procs w ! j))" if "j < MAX_PROCESSES" for j
    using n [OF that] f by simp
  have p: "0 < pid (procs w ! j) \<and> pid (procs w ! j) < next_pid w" if "j < MAX_PROCESSES" "in_slot w j" for j
    using ok that unfolding ok_with_def by blast
  have d: "j = k" if "j < MAX_PROCESSES" "k < MAX_PROCESSES" "in_slot w j" "in_slot w k" "pid (procs w ! j) = pid (procs w ! k)" for j k
    using ok that unfolding ok_with_def by blast
  have z0: "0 < next_pid w" using ok by (simp add: ok_with_def)
  then have z: "0 < next_pid w" "int_succ (next_pid w) = next_pid w + 1" using b by (simp_all add: int_succ_small INT_MAX_def)
  show ?thesis unfolding ok_with_def
  proof (intro conjI allI impI)
    show "length (procs ?w) = MAX_PROCESSES" using l by simp
    show "0 < next_pid ?w" using z by simp
    show "j < MAX_PROCESSES" "running ?w j" if "k < length cl" "cl ! k = Some j" for k j
      using ok_withD(2,3) [OF ok that] r by blast+
    show "k = k'" if "k < length cl" "k' < length cl" "cl ! k = Some j" "cl ! k' = Some j" for k k' j
      using ok_withD(4) [OF ok] that by blast
    show "Some j \<in> set cl" if "j < MAX_PROCESSES" "running ?w j" for j using ok_withD(5) [OF ok] that r by blast
    show "0 < pid (procs ?w ! j)" "pid (procs ?w ! j) < next_pid ?w" if "j < MAX_PROCESSES" "in_slot ?w j" for j
      using g [OF that(1)] s [OF that(1)] p that z by (cases "j = i"; force)+
    show "j = k" if "j < MAX_PROCESSES" "k < MAX_PROCESSES" "in_slot ?w j" "in_slot ?w k" "pid (procs ?w ! j) = pid (procs ?w ! k)" for j k
    proof (rule ccontr)
      assume "j \<noteq> k"
      have "in_slot w j \<or> j = i" "in_slot w k \<or> k = i" using s that by blast+
      then show False using g [OF that(1)] g [OF that(2)] that(5) d [OF that(1,2)] p [OF that(1)] p [OF that(2)] \<open>j \<noteq> k\<close> by (auto split: if_splits)
    qed
  qed
qed

lemma env_inherit_same:
  assumes "env_inherit en i w = Some w'"
  obtains a n where "procs w' = (procs w)[i := (procs w ! i)\<lparr>env := a, env_len := n\<rparr>]" "cpus w' = cpus w" "me w' = me w" "next_pid w' = next_pid w"
  using assms by (auto simp: env_inherit_def Let_def Option.bind_eq_Some_conv k_alloc_def upd_def split: if_splits option.splits)

lemma proc_alloc_ok:
  assumes ok: "sched_ok w" and b: "next_pid w < INT_MAX" and e: "proc_alloc en name w = Some (r, w')"
  shows "grown w w'" and "current w' = current w"
    and "r = Some i \<Longrightarrow> i < MAX_PROCESSES \<and> \<not> running w' i \<and> in_slot w' i \<and> pid (procs w' ! i) = next_pid w
      \<and> (\<forall>j < MAX_PROCESSES. running w' j \<longrightarrow> pid (procs w' ! j) \<noteq> next_pid w)"
proof -
  have l: "length (procs w) = MAX_PROCESSES" using ok ok_withD(1) by (auto simp: sched_ok_def)
  have "grown w w' \<and> (\<forall>i. r = Some i \<longrightarrow> i < MAX_PROCESSES \<and> \<not> running w' i \<and> in_slot w' i \<and> pid (procs w' ! i) = next_pid w
      \<and> (\<forall>j < MAX_PROCESSES. running w' j \<longrightarrow> pid (procs w' ! j) \<noteq> next_pid w)) \<and> current w' = current w"
  proof (cases "first_idx (\<lambda>p. pstate p = PROC_UNUSED) (procs w)")
    case None
    then show ?thesis using e grown_sound [OF sound_quiet [OF quiet_refl ok]] by (simp add: proc_alloc_def)
  next
    case (Some i)
    have i: "i < MAX_PROCESSES" "pstate (procs w ! i) = PROC_UNUSED" using first_idx_Some [OF Some] l by simp_all
    obtain w1 w2 where w1: "(if env (proc w i) \<noteq> 0 then k_free (env (proc w i)) w else Some w) = Some w1"
      and w2: "env_inherit en i (upd i (\<lambda>_. zero_process) w1) = Some w2" and r: "r = Some i"
      and e': "w' = upd i (init_process (next_pid w2) (case current w2 of Some c \<Rightarrow> pid (proc w2 c) | None \<Rightarrow> 0) name)
                 (w2\<lparr>next_pid := int_succ (next_pid w2)\<rparr>)"
      using e Some by (auto simp: proc_alloc_def Option.bind_eq_Some_conv)
    have q1: "quiet w w1" "procs w1 = procs w" using w1 quiet_k_free by (auto simp: k_free_def split: if_splits)
    obtain a n where w2': "procs w2 = (procs (upd i (\<lambda>_. zero_process) w1))[i := (procs (upd i (\<lambda>_. zero_process) w1) ! i)\<lparr>env := a, env_len := n\<rparr>]"
      "cpus w2 = cpus w1" "me w2 = me w1" "next_pid w2 = next_pid w1"
      by (rule env_inherit_same [OF w2]) simp
    have p2: "procs w2 = (procs w)[i := zero_process\<lparr>env := a, env_len := n\<rparr>]"
      using w2'(1) q1(2) i l by (simp add: upd_def)
    let ?f = "init_process (next_pid w2) (case current w2 of Some c \<Rightarrow> pid (proc w2 c) | None \<Rightarrow> 0) name"
    have np: "next_pid w2 = next_pid w" "cpus w2 = cpus w" "me w2 = me w" using w2'(2-4) q1(1) by (simp_all add: quiet_def)
    have w': "procs w' = procs (upd i (\<lambda>_. ?f (zero_process\<lparr>env := a, env_len := n\<rparr>)) w)" "next_pid w' = int_succ (next_pid w)"
        "cpus w' = cpus w" "me w' = me w"
      using e' p2 i l np by (simp_all add: upd_def)
    let ?v = "(upd i (\<lambda>_. ?f (zero_process\<lparr>env := a, env_len := n\<rparr>)) w)\<lparr>next_pid := int_succ (next_pid w)\<rparr>"
    have "ok_with (cores w) ?v"
      using ok i b by (intro ok_with_fresh) (simp_all add: sched_ok_def in_slot_def np init_process_def)
    moreover have "procs w' = procs ?v" "next_pid w' = next_pid ?v" using w' by simp_all
    ultimately have "ok_with (cores w) w'" using ok_with_procs [of w' ?v "cores w"] by blast
    moreover have "0 < next_pid w" using ok by (simp add: sched_ok_def ok_with_def)
    then have "next_pid w' = next_pid w + 1" using w'(2) b by (simp add: int_succ_small INT_MAX_def)
    ultimately have "grown w w'" using ok w' by (simp add: grown_def sched_ok_def cores_def)
    moreover have "\<not> running w' i" "in_slot w' i" "pid (procs w' ! i) = next_pid w"
      using w' i l np by (simp_all add: running_def in_slot_def upd_nth init_process_def)
    moreover have "running w' j \<longrightarrow> pid (procs w' ! j) \<noteq> next_pid w" if j: "j < MAX_PROCESSES" for j
    proof (cases "j = i")
      case False
      then have "procs w' ! j = procs w ! j" using w' j l by (simp add: upd_nth)
      moreover have "in_slot w j \<Longrightarrow> pid (procs w ! j) < next_pid w" using ok j unfolding sched_ok_def ok_with_def by blast
      ultimately show ?thesis by (auto simp: running_def in_slot_def)
    qed (use \<open>\<not> running w' i\<close> in simp)
    moreover have "current w' = current w" using w' by (simp add: current_def)
    ultimately show ?thesis using r i by simp
  qed
  then show "grown w w'" "current w' = current w" "r = Some i \<Longrightarrow> i < MAX_PROCESSES \<and> \<not> running w' i \<and> in_slot w' i \<and> pid (procs w' ! i) = next_pid w
      \<and> (\<forall>j < MAX_PROCESSES. running w' j \<longrightarrow> pid (procs w' ! j) \<noteq> next_pid w)" by blast+
qed

text \<open>A call that only touches a slot nothing runs in, with whatever it answers.\<close>

definition settles :: "nat \<Rightarrow> kw \<Rightarrow> ('a \<times> kw) option \<Rightarrow> bool" where
  "settles i w m \<longleftrightarrow> (\<forall>x w'. m = Some (x, w') \<longrightarrow> \<not> running w i \<longrightarrow> i < length (procs w) \<longrightarrow> quiet w w')"

lemma settles_bind:
  assumes "settles i w m" and "\<And>x w1. settles i w1 (f (x, w1))"
  shows "settles i w (Option.bind m f)"
  unfolding settles_def
proof (intro allI impI)
  fix x w' assume e: "Option.bind m f = Some (x, w')" and i: "\<not> running w i" "i < length (procs w)"
  obtain y w1 where m: "m = Some (y, w1)" "f (y, w1) = Some (x, w')" using e by (cases m) auto
  have q: "quiet w w1" using assms(1) m(1) i unfolding settles_def by blast
  have "\<not> running w1 i" "i < length (procs w1)" using q i by (simp_all add: quiet_def)
  then have "quiet w1 w'" using assms(2) m(2) unfolding settles_def by blast
  then show "quiet w w'" by (rule quiet_trans [OF q])
qed

lemma settles_pure: "(\<And>y. settles i w (f y)) \<Longrightarrow> settles i w (Option.bind m f)"
  by (cases m) (simp_all add: settles_def)

lemma settles_after:
  assumes "quiet w w1" and "settles i w1 m"
  shows "settles i w m"
proof -
  have "\<not> running w1 i \<and> i < length (procs w1)" if "\<not> running w i" "i < length (procs w)" using assms(1) that by (simp add: quiet_def)
  then show ?thesis using assms quiet_trans unfolding settles_def by blast
qed

lemma settles_upd:
  assumes "\<And>p. pstate p \<noteq> PROC_RUNNING \<Longrightarrow> pstate (f p) \<noteq> PROC_RUNNING \<and> (pstate (f p) \<noteq> PROC_UNUSED \<longrightarrow> pstate p \<noteq> PROC_UNUSED)"
    and "\<And>p. pid (f p) = pid p" and "settles i (upd i f w) m"
  shows "settles i w m"
  unfolding settles_def
proof (intro allI impI)
  fix x w' assume e: "m = Some (x, w')" and r: "\<not> running w i" "i < length (procs w)"
  have q: "quiet w (upd i f w)" using assms(1,2) r(1) by (intro quiet_upd) (simp add: running_def)
  then have "settles i w m" by (rule settles_after [OF _ assms(3)])
  then show "quiet w w'" using e r unfolding settles_def by blast
qed

lemma settles_Some [simp]: "settles i w (Some (x, w))"
  by (simp add: settles_def)

lemma settles_quiet: "quiet w w1 \<Longrightarrow> settles i w (Some (x, w1))"
  by (simp add: settles_def)

lemma settles_proc_abandon: "settles i w (map_option (Pair x) (proc_abandon i w))"
  unfolding settles_def
proof (intro allI impI)
  fix y w' assume e: "map_option (Pair x) (proc_abandon i w) = Some (y, w')" and i: "\<not> running w i" "i < length (procs w)"
  obtain w1 where w1: "space_unref (asp (proc w i)) w = Some w1" "proc_reap i (upd i (\<lambda>p. p\<lparr>asp := 0, ppml4 := 0\<rparr>) w1) = Some w'"
    using e by (auto simp: proc_abandon_def Option.bind_eq_Some_conv)
  let ?u = "upd i (\<lambda>p. p\<lparr>asp := 0, ppml4 := 0\<rparr>) w1"
  have q: "quiet w ?u" by (rule quiet_trans [OF quiet_space_unref [OF w1(1)]], rule quiet_upd) simp
  have "pstate (proc ?u i) \<noteq> PROC_RUNNING" using q i by (simp add: quiet_def running_def proc_def)
  then show "quiet w w'" using quiet_trans [OF q quiet_proc_reap [OF w1(2)]] by blast
qed

lemma settles_give_up: "settles i w (give_up i w)"
  unfolding give_up_def by (rule settles_proc_abandon)

lemma settles_on_mem: "settles i w (on_mem f w)"
  by (auto simp: settles_def on_mem_def intro: quiet_vw)

lemma settles_k_alloc: "settles i w (k_alloc n w)"
  by (auto simp: settles_def intro: quiet_k_alloc)

lemma settles_k_free: "settles i w (map_option (Pair x) (k_free n w))"
  by (auto simp: settles_def intro: quiet_k_free)

lemma quiet_build_initial_frame: "quiet w (build_initial_frame i sp w)"
proof -
  have a: "quiet w (w\<lparr>kframes := k\<rparr>)" for k by (rule quiet_same) simp_all
  have b: "quiet u (upd i (\<lambda>p. p\<lparr>saved_rsp := x, resume_kernel := False\<rparr>) u)" for x u by (rule quiet_upd) simp
  show ?thesis unfolding build_initial_frame_def Let_def by (rule quiet_trans [OF a b])
qed

lemma settles_if: "(b \<Longrightarrow> settles i w x) \<Longrightarrow> (\<not> b \<Longrightarrow> settles i w y) \<Longrightarrow> settles i w (if b then x else y)"
  by simp

lemma quiet_set_kstack: "quiet w (upd i (set_kstack ks) w)"
  by (rule quiet_upd) (simp add: set_kstack_def)

lemma quiet_first_frame:
  assumes "first_frame i sp v w = (n, w')"
  shows "quiet w w'" and "n = pid (proc w' i)"
proof -
  let ?b = "build_initial_frame i sp (w\<lparr>vw := v\<rparr>)"
  have e: "w' = upd i (\<lambda>p. p\<lparr>fxstate := core_fpu ?b\<rparr>) ?b" "n = pid (proc w' i)"
    using assms by (auto simp: first_frame_def Let_def)
  have "quiet ?b w'" unfolding e(1) by (rule quiet_upd) simp
  then show "quiet w w'" using quiet_trans [OF quiet_trans [OF quiet_vw quiet_build_initial_frame]] by blast
  show "n = pid (proc w' i)" by (rule e(2))
qed

lemma settles_first_frame: "settles i w (Some (first_frame i sp v w))"
proof -
  obtain n w' where "first_frame i sp v w = (n, w')" by (cases "first_frame i sp v w")
  then show ?thesis using quiet_first_frame(1) by (simp add: settles_quiet)
qed

lemma settles_give_stacks: "settles i w (give_stacks i pm argv w)"
  unfolding give_stacks_def
proof (rule settles_bind [OF settles_on_mem])
  fix ok w1
  have "settles i w2 (if ks = 0 then give_up i w2
     else Option.bind (setup_args pm ((USER_STACK_TOP - 16) AND NOT 0xF) argv (view (upd i (set_kstack ks) w2))) (\<lambda>(sp, v).
     Some (first_frame i sp v (upd i (set_kstack ks) w2))))" for ks w2
    by (rule settles_if [OF settles_give_up], rule settles_pure)
       (auto intro: settles_after [OF quiet_set_kstack settles_first_frame] split: prod.split)
  then show "settles i w1 (case (ok, w1) of (ok, w1) \<Rightarrow> if \<not> ok then give_up i w1
     else Option.bind (k_alloc KSTACK_SIZE w1) (\<lambda>(ks, w2). if ks = 0 then give_up i w2
     else Option.bind (setup_args pm ((USER_STACK_TOP - 16) AND NOT 0xF) argv (view (upd i (set_kstack ks) w2))) (\<lambda>(sp, v).
     Some (first_frame i sp v (upd i (set_kstack ks) w2)))))"
    unfolding prod.case by (intro settles_if [OF settles_give_up] settles_bind [OF settles_k_alloc]) simp
qed

lemma settles_load_image: "settles i w (load_image i pm data sz argv w)"
  unfolding load_image_def
proof (rule settles_bind [OF settles_on_mem])
  fix ent0 w1
  have "quiet w1 (upd i (\<lambda>p. p\<lparr>entry := e\<rparr>) w1)" for e by (rule quiet_upd) simp
  then have "settles i w1 (give_stacks i pm argv (upd i (\<lambda>p. p\<lparr>entry := e\<rparr>) w1))" for e
    by (rule settles_after [OF _ settles_give_stacks])
  then show "settles i w1 (case (ent0, w1) of (ent0, w1) \<Rightarrow> case ent0 of None \<Rightarrow> give_up i w1
      | Some e \<Rightarrow> give_stacks i pm argv (upd i (\<lambda>p. p\<lparr>entry := e\<rparr>) w1))"
    by (simp add: settles_give_up split: option.split)
qed

lemma load_image_pid:
  assumes "load_image i pm data sz argv w = Some (n, w')"
  shows "n = - 1 \<or> n = pid (proc w' i)"
  using assms quiet_first_frame(2)
  unfolding load_image_def give_stacks_def give_up_def
  by (fastforce simp: Option.bind_eq_Some_conv split: option.splits if_splits)

lemma spawn_image_ok:
  assumes ok: "sched_ok w" and b: "next_pid w < INT_MAX" and e: "process_spawn_image en p4 p3 name data sz argv w = Some (n, w')"
  shows "grown w w'" and "current w' = current w" and "n = - 1 \<or> (\<forall>j < MAX_PROCESSES. running w' j \<longrightarrow> pid (procs w' ! j) \<noteq> n)"
proof -
  obtain slot w1 where a: "proc_alloc en name w = Some (slot, w1)"
    using e by (auto simp: process_spawn_image_def Option.bind_eq_Some_conv)
  note al = proc_alloc_ok [OF ok b a]
  have "grown w w' \<and> current w' = current w \<and> (n = - 1 \<or> (\<forall>j < MAX_PROCESSES. running w' j \<longrightarrow> pid (procs w' ! j) \<noteq> n))"
  proof (cases slot)
    case None
    then show ?thesis using e a al by (simp add: process_spawn_image_def)
  next
    case (Some i)
    have i: "i < MAX_PROCESSES" "\<not> running w1 i" "pid (procs w1 ! i) = next_pid w"
      and o: "\<And>j. j < MAX_PROCESSES \<Longrightarrow> running w1 j \<Longrightarrow> pid (procs w1 ! j) \<noteq> next_pid w" using al(3) [OF Some] by blast+
    have l: "length (procs w1) = MAX_PROCESSES" using al(1) ok_withD(1) by (auto simp: grown_def sched_ok_def)
    obtain ap v where v: "vmm_space_new p4 p3 (vw w1) = Some (ap, v)"
      using e a Some by (auto simp: process_spawn_image_def Option.bind_eq_Some_conv)
    let ?u = "upd i (\<lambda>p. p\<lparr>asp := ap, ppml4 := pml4 (spaces v ap)\<rparr>) (w1\<lparr>vw := v\<rparr>)"
    have qu: "quiet w1 ?u" by (rule quiet_trans [OF quiet_vw]) (rule quiet_upd, simp)
    have x: "quiet w1 w' \<and> (n = - 1 \<or> n = pid (proc w' i))"
    proof (cases "ap = 0")
      case True
      then have w': "w' = upd i (\<lambda>p. p\<lparr>asp := 0, pstate := PROC_UNUSED\<rparr>) (w1\<lparr>vw := v\<rparr>)" "n = - 1"
        using e a Some v by (simp_all add: process_spawn_image_def)
      have "quiet (w1\<lparr>vw := v\<rparr>) w'" unfolding w'(1) using i by (intro quiet_upd) (auto simp: running_def)
      then show ?thesis using quiet_trans [OF quiet_vw] w'(2) by blast
    next
      case False
      then have lo: "load_image i (pml4 (spaces v ap)) data sz argv ?u = Some (n, w')"
        using e a Some v by (simp add: process_spawn_image_def)
      have "settles i w1 (load_image i (pml4 (spaces v ap)) data sz argv ?u)" by (rule settles_after [OF qu settles_load_image])
      then show ?thesis using lo i l load_image_pid [OF lo] unfolding settles_def by auto
    qed
    have np: "pid (proc w' i) = next_pid w" using x i l by (simp add: quiet_def proc_def)
    have rn: "running w' j = running w1 j" "pid (procs w' ! j) = pid (procs w1 ! j)" if "j < MAX_PROCESSES" for j
      using x that l by (simp_all add: quiet_def)
    show ?thesis
      using grown_quiet [OF al(1)] x quiet_current [of w1 w'] al(2) o np rn by auto
  qed
  then show "grown w w'" "current w' = current w" "n = - 1 \<or> (\<forall>j < MAX_PROCESSES. running w' j \<longrightarrow> pid (procs w' ! j) \<noteq> n)"
    by blast+
qed

definition new_pid_ok :: "int \<Rightarrow> kw \<Rightarrow> bool" where
  "new_pid_ok n w \<longleftrightarrow> n = - 1 \<or> (\<forall>j < MAX_PROCESSES. running w j \<longrightarrow> pid (procs w ! j) \<noteq> n)"

lemma new_pid_quiet: "quiet w w' \<Longrightarrow> sched_ok w \<Longrightarrow> new_pid_ok n w \<Longrightarrow> new_pid_ok n w'"
  using ok_withD(1) [of "cores w" w] by (auto simp: new_pid_ok_def quiet_def sched_ok_def)

lemma process_spawn_ok:
  assumes ok: "sched_ok w" and b: "next_pid w < INT_MAX" and e: "process_spawn en p4 p3 fs path argv w = Some (n, w')"
  shows "grown w w' \<and> current w' = current w \<and> new_pid_ok n w'"
proof -
  have same: ?thesis if "quiet w w'" "n = - 1" using that grown_sound [OF sound_quiet [OF _ ok]] quiet_current by (simp add: new_pid_ok_def)
  show ?thesis
  proof (cases "\<exists>sz. vfs_stat fs path = Some (sz, False) \<and> \<not> vfs_open fs path < 0")
    case False
    then have "w' = w" "n = - 1" using e by (auto simp: process_spawn_def Let_def split: option.splits prod.splits if_splits)
    then show ?thesis using same by simp
  next
    case True
    then obtain sz where st: "vfs_stat fs path = Some (sz, False)" "\<not> vfs_open fs path < 0" by blast
    obtain im w1 where a: "k_alloc (ucast sz) w = Some (im, w1)"
      using e st by (auto simp: process_spawn_def Let_def Option.bind_eq_Some_conv)
    let ?bs = "read_image (vfs_reads fs (vfs_open fs path)) (unat sz) []"
    let ?w2 = "call (Vfs_close (vfs_open fs path)) (w1\<lparr>vw := set_mem (store_bytes im ?bs (mem (vw w1))) (vw w1)\<rparr>)"
    have q1: "quiet w w1" by (rule quiet_k_alloc [OF a])
    have q2: "quiet w ?w2" by (rule quiet_trans [OF q1 quiet_trans [OF quiet_vw quiet_call]])
    consider "w' = call (Vfs_close (vfs_open fs path)) w1" "n = - 1" | "k_free im ?w2 = Some w'" "n = - 1"
      | w3 where "process_spawn_image en p4 p3 (base_name path) im (ucast sz) argv ?w2 = Some (n, w3)" "k_free im w3 = Some w'"
      using e st a by (auto simp: process_spawn_def Let_def Option.bind_eq_Some_conv split: if_splits)
    then show ?thesis
    proof cases
      case 1
      then show ?thesis using same quiet_trans [OF q1 quiet_call] by simp
    next
      case 2
      then show ?thesis using same quiet_trans [OF q2 quiet_k_free] by blast
    next
      case (3 w3)
      have "next_pid ?w2 < INT_MAX" using q2 b by (simp add: quiet_def)
      note s = spawn_image_ok [OF sched_ok_quiet [OF q2 ok] this 3(1)]
      have q3: "quiet w3 w'" by (rule quiet_k_free [OF 3(2)])
      have "grown w w3" by (rule grown_after [OF sound_quiet [OF q2 ok] s(1)])
      moreover have "current w' = current w" using s(2) quiet_current [OF q2] quiet_current [OF q3] by simp
      moreover have "new_pid_ok n w'" using new_pid_quiet [OF q3 grownD [OF s(1)]] s(3) by (simp add: new_pid_ok_def)
      ultimately show ?thesis using grown_quiet [OF _ q3] by blast
    qed
  qed
qed

lemma quiet_wire_out: "quiet w (wire_out fs uout path app op n c w)"
proof -
  have u: "quiet w (upd c (\<lambda>p. p\<lparr>pout := s\<rparr>) w)" for s w by (rule quiet_upd) simp
  have a: "quiet w (pipe_attach_writer i n (upd c (\<lambda>p. p\<lparr>pout := s\<rparr>) w))" for i s
    unfolding pipe_attach_writer_def by (rule quiet_trans [OF u quiet_upd_pipe])
  have b: "quiet w (upd c (\<lambda>p. p\<lparr>pout := s\<rparr>) (call x (call y w)))" for s x y
    by (rule quiet_trans [OF quiet_trans [OF quiet_call quiet_call] u])
  show ?thesis using a b quiet_call by (simp add: wire_out_def Let_def)
qed

lemma unspawn_quiet:
  assumes "unspawn c w = Some (n, w')" and "\<not> running w c"
  shows "quiet w w'"
proof -
  let ?a = "upd c (\<lambda>p. p\<lparr>pstate := PROC_UNUSED\<rparr>) w"
  obtain w1 where w1: "space_unref (asp (proc w c)) ?a = Some w1"
    and e: "map_option (Pair (- 1)) (if kstack (proc (upd c (\<lambda>p. p\<lparr>asp := 0, ppml4 := 0\<rparr>) w1) c) \<noteq> 0
              then k_free (kstack (proc (upd c (\<lambda>p. p\<lparr>asp := 0, ppml4 := 0\<rparr>) w1) c)) (upd c (\<lambda>p. p\<lparr>asp := 0, ppml4 := 0\<rparr>) w1)
              else Some (upd c (\<lambda>p. p\<lparr>asp := 0, ppml4 := 0\<rparr>) w1)) = Some (n, w')"
    using assms(1) by (auto simp: unspawn_def Let_def Option.bind_eq_Some_conv)
  let ?u = "upd c (\<lambda>p. p\<lparr>asp := 0, ppml4 := 0\<rparr>) w1"
  have "quiet w ?a" using assms(2) by (intro quiet_upd) (auto simp: running_def)
  moreover have "quiet w1 ?u" by (rule quiet_upd) simp
  ultimately have "quiet w ?u" using quiet_trans quiet_space_unref [OF w1] by blast
  moreover have "quiet ?u w'" using e quiet_k_free by (auto split: if_splits)
  ultimately show ?thesis by (rule quiet_trans)
qed

lemma wire_child_quiet:
  assumes "wire_child fs uin uout ip op app pi po n c w = Some (m, w')" and "\<not> running w c"
  shows "quiet w w'"
proof -
  have u: "quiet w (upd c (\<lambda>p. p\<lparr>pin := s\<rparr>) w)" for s by (rule quiet_upd) simp
  have a: "quiet w (pipe_attach_reader i n (upd c (\<lambda>p. p\<lparr>pin := s\<rparr>) w))" for i s
    unfolding pipe_attach_reader_def by (rule quiet_trans [OF u quiet_upd_pipe])
  show ?thesis
    using assms(1) quiet_trans [OF u quiet_wire_out] quiet_trans [OF a quiet_wire_out] quiet_wire_out unspawn_quiet [OF _ assms(2)]
    unfolding wire_child_def Let_def by (auto split: if_splits)
qed

lemma spawn_from_user_ok:
  assumes ok: "sched_ok w" and b: "next_pid w < INT_MAX" and e: "spawn_from_user en p4 p3 fs upath uargv argc uin uout app ip op w = Some (n, w')"
  shows "grown w w'"
proof -
  obtain req v where r: "copy_request (core_cr3 w) upath uargv argc uin uout (view w) = Some (req, v)"
    using e by (auto simp: spawn_from_user_def Option.bind_eq_Some_conv)
  have v: "sound w (w\<lparr>vw := v\<rparr>)" by (rule sound_quiet [OF quiet_vw ok])
  show ?thesis
  proof (cases req)
    case None
    then show ?thesis using e r grown_sound [OF v] by (simp add: spawn_from_user_def)
  next
    case (Some x)
    obtain path argv inp outp where x: "x = (path, argv, inp, outp)" by (cases x)
    obtain m w1 where w1: "process_spawn en p4 p3 fs path argv (w\<lparr>vw := v\<rparr>) = Some (m, w1)"
      using e r Some x by (auto simp: spawn_from_user_def Option.bind_eq_Some_conv)
    have "next_pid (w\<lparr>vw := v\<rparr>) < INT_MAX" using b by simp
    note s = process_spawn_ok [OF soundD [OF v] this w1]
    have ok1: "sched_ok w1" and s1: "grown w w1" using s grownD grown_after [OF v] by blast+
    have l: "length (procs w1) = MAX_PROCESSES" using ok1 ok_withD(1) by (auto simp: sched_ok_def)
    show ?thesis
    proof (cases "m < 0 \<or> process_by_pid m w1 = None")
      case True
      then have "w' = w1" using e r Some x w1 by (auto simp: spawn_from_user_def split: if_splits)
      then show ?thesis using s1 by simp
    next
      case False
      then obtain c where c: "process_by_pid m w1 = Some c" "m \<ge> 0" by auto
      have "c < MAX_PROCESSES" "pid (procs w1 ! c) = m" using first_idx_Some [OF c(1) [unfolded process_by_pid_def]] l by simp_all
      then have "\<not> running w1 c" using s c(2) by (auto simp: new_pid_ok_def)
      then have "quiet w1 w'" using e r Some x w1 c wire_child_quiet by (simp add: spawn_from_user_def)
      then show ?thesis by (rule grown_quiet [OF s1])
    qed
  qed
qed

lemma process_spawn_user2_ok:
  assumes ok: "sched_ok w" and b: "next_pid w < INT_MAX" and e: "process_spawn_user2 en p4 p3 fs ureq w = Some (n, w')"
  shows "grown w w'"
proof (cases "vmm_user_range_ok ureq (of_nat SPAWN_REQ_SIZE)")
  case False
  then show ?thesis using e grown_sound [OF sound_quiet [OF quiet_refl ok]] by (simp add: process_spawn_user2_def)
next
  case True
  then obtain bs v where "user_read (core_cr3 w) ureq SPAWN_REQ_SIZE (view w) = Some (bs, v)"
    using e by (auto simp: process_spawn_user2_def Option.bind_eq_Some_conv)
  then have "\<exists>a b c d e' f g h. spawn_from_user en p4 p3 fs a b c d e' f g h (w\<lparr>vw := v\<rparr>) = Some (n, w')"
    using e True by (simp add: process_spawn_user2_def Let_def) blast
  moreover have "next_pid (w\<lparr>vw := v\<rparr>) < INT_MAX" using b by simp
  ultimately show ?thesis using spawn_from_user_ok [OF sched_ok_quiet [OF quiet_vw ok]] grown_after [OF sound_quiet [OF quiet_vw ok]] by blast
qed

subsection \<open>Threads\<close>

lemma settles_drop_thread: "settles t w (drop_thread t w)"
  unfolding settles_def
proof (intro allI impI)
  fix x w' assume e: "drop_thread t w = Some (x, w')" and r: "\<not> running w t" "t < length (procs w)"
  obtain w1 where w1: "space_unref (asp (proc w t)) w = Some w1" "w' = upd t (\<lambda>p. p\<lparr>asp := 0, pstate := PROC_UNUSED\<rparr>) w1"
    using e by (auto simp: drop_thread_def)
  have q: "quiet w w1" by (rule quiet_space_unref [OF w1(1)])
  have "quiet w1 w'" unfolding w1(2) using q r by (intro quiet_upd) (auto simp: quiet_def running_def)
  then show "quiet w w'" by (rule quiet_trans [OF q])
qed

lemma thread_ready_ok:
  assumes ok: "sched_ok w" and t: "t < MAX_PROCESSES" "\<not> running w t" "in_slot w t"
  shows "quiet w (snd (thread_ready t st arg w))"
proof -
  let ?w1 = "build_initial_frame t ((st + THREAD_STACK_SIZE - 16) AND NOT 0xF) (upd t (\<lambda>p. p\<lparr>tstack := st, tstack_len := THREAD_STACK_SIZE\<rparr>) w)"
  let ?w2 = "?w1\<lparr>kframes := (kframes ?w1)(saved_rsp (proc ?w1 t) := (kframes ?w1 (saved_rsp (proc ?w1 t)))\<lparr>rdi := arg\<rparr>)\<rparr>"
  have l: "length (procs w) = MAX_PROCESSES" using ok ok_withD(1) by (auto simp: sched_ok_def)
  have a: "quiet w (upd t (\<lambda>p. p\<lparr>tstack := st, tstack_len := THREAD_STACK_SIZE\<rparr>) w)" by (rule quiet_upd) simp
  have b: "quiet ?w1 ?w2" by (rule quiet_same) simp_all
  have q: "quiet w ?w2" by (rule quiet_trans [OF quiet_trans [OF a quiet_build_initial_frame] b])
  have s: "pstate (procs ?w2 ! t) = pstate (procs w ! t)" using t l
    by (simp add: build_initial_frame_def Let_def upd_def proc_def)
  have "quiet ?w2 (upd t (\<lambda>p. p\<lparr>fxstate := core_fpu ?w2, pstate := PROC_READY\<rparr>) ?w2)"
    using t s by (intro quiet_upd) (auto simp: running_def in_slot_def)
  then show ?thesis using quiet_trans [OF q] by (simp add: thread_ready_def Let_def)
qed

lemma thread_stacks_ok:
  assumes ok: "sched_ok w" and t: "t < MAX_PROCESSES" "\<not> running w t" "in_slot w t" and e: "thread_stacks t arg w = Some (n, w')"
  shows "quiet w w'"
proof -
  have l: "length (procs w) = MAX_PROCESSES" using ok ok_withD(1) by (auto simp: sched_ok_def)
  obtain ks w1 where a: "k_alloc KSTACK_SIZE w = Some (ks, w1)"
    using e by (auto simp: thread_stacks_def Option.bind_eq_Some_conv)
  have q1: "quiet w w1" by (rule quiet_k_alloc [OF a])
  have p1: "procs w1 = procs w" using a by (auto simp: k_alloc_def)
  have fin: "quiet w w'" if "settles t w1 (Some (n, w'))"
    using that quiet_trans [OF q1] t l p1 unfolding settles_def by (simp add: running_def)
  show ?thesis
  proof (cases "ks = 0")
    case True
    then show ?thesis using e a settles_drop_thread [of t w1] fin by (simp add: thread_stacks_def)
  next
    case False
    obtain st v where m: "vmm_mmap THREAD_STACK_SIZE (VM_READ OR VM_WRITE) (view (upd t (set_kstack ks) w1)) = (st, v)" by fastforce
    let ?w2 = "(upd t (set_kstack ks) w1)\<lparr>vw := v\<rparr>"
    have q2: "quiet w1 ?w2" by (rule quiet_trans [OF quiet_set_kstack quiet_vw])
    have s2: "sched_ok ?w2" by (rule sched_ok_quiet [OF quiet_trans [OF q1 q2] ok])
    have t2: "\<not> running ?w2 t" "in_slot ?w2 t" using t l p1 by (simp_all add: running_def in_slot_def upd_nth set_kstack_def)
    show ?thesis
    proof (cases "st = 0")
      case True
      then obtain w3 where w3: "k_free ks ?w2 = Some w3" "drop_thread t (upd t (\<lambda>p. p\<lparr>kstack := 0\<rparr>) w3) = Some (n, w')"
        using e a False m by (auto simp: thread_stacks_def Let_def Option.bind_eq_Some_conv)
      have "quiet w3 (upd t (\<lambda>p. p\<lparr>kstack := 0\<rparr>) w3)" by (rule quiet_upd) simp
      then have "settles t w1 (drop_thread t (upd t (\<lambda>p. p\<lparr>kstack := 0\<rparr>) w3))"
        by (rule settles_after [OF quiet_trans [OF quiet_trans [OF q2 quiet_k_free [OF w3(1)]]] settles_drop_thread])
      then show ?thesis using fin w3(2) by simp
    next
      case F: False
      then have "w' = snd (thread_ready t st arg ?w2)" using e a False m by (simp add: thread_stacks_def Let_def)
      then show ?thesis using quiet_trans [OF quiet_trans [OF q1 q2] thread_ready_ok [OF s2 t(1) t2]] by simp
    qed
  qed
qed

lemma process_thread_create_ok:
  assumes ok: "sched_ok w" and b: "next_pid w < INT_MAX" and e: "process_thread_create en ent0 arg w = Some (n, w')"
  shows "grown w w'"
proof (cases "\<exists>c. current w = Some c \<and> asp (proc w c) \<noteq> 0 \<and> vmm_user_range_ok ent0 1")
  case False
  then have "w' = w" using e by (auto simp: process_thread_create_def split: option.splits if_splits)
  then show ?thesis using grown_sound [OF sound_quiet [OF quiet_refl ok]] by simp
next
  case True
  then obtain c where c: "current w = Some c" "asp (proc w c) \<noteq> 0" "vmm_user_range_ok ent0 1" by blast
  obtain w1 slot w2 where w1: "reap_dead_threads w = Some w1" and w2: "proc_alloc en (pname (proc w1 c)) w1 = Some (slot, w2)"
    using e c by (auto simp: process_thread_create_def Option.bind_eq_Some_conv)
  have q1: "quiet w w1" by (rule quiet_reap_dead_threads [OF w1])
  have ok1: "sched_ok w1" by (rule sched_ok_quiet [OF q1 ok])
  have "next_pid w1 < INT_MAX" using q1 b by (simp add: quiet_def)
  note al = proc_alloc_ok [OF ok1 this w2]
  have s2: "grown w w2" by (rule grown_after [OF sound_quiet [OF q1 ok] al(1)])
  show ?thesis
  proof (cases slot)
    case None
    then show ?thesis using e c w1 w2 s2 by (simp add: process_thread_create_def)
  next
    case (Some t)
    let ?v = "w2\<lparr>vw := vmm_space_ref (asp (proc w2 c)) (vw w2)\<rparr>"
    let ?u = "upd t (share_with (proc w2 c) ent0) ?v"
    have q: "quiet w2 ?u" by (rule quiet_trans [OF quiet_vw]) (rule quiet_upd, simp add: share_with_def)
    have t: "t < MAX_PROCESSES" "\<not> running w2 t" using al(3) [OF Some] by blast+
    have l: "length (procs w2) = MAX_PROCESSES" using s2 ok_withD(1) by (auto simp: grown_def sched_ok_def)
    have "in_slot w2 t" using al(3) [OF Some] by blast
    then have u: "\<not> running ?u t" "in_slot ?u t" using t l by (simp_all add: running_def in_slot_def upd_nth share_with_def)
    have "thread_stacks t arg ?u = Some (n, w')" using e c w1 w2 Some by (simp add: process_thread_create_def Let_def)
    from thread_stacks_ok [OF sched_ok_quiet [OF q grownD [OF s2]] t(1) u this]
    show ?thesis using grown_quiet [OF s2 quiet_trans [OF q]] by blast
  qed
qed

subsection \<open>The kernel's entry points\<close>

text \<open>
  Everything that enters the kernel and touches processes: the system calls, the timer, the keyboard, faults, and a pass of a
  core's own scheduler loop, which runs only where no process is.
\<close>

datatype kev =
    Ev_wait int | Ev_join int | Ev_sleep u64 | Ev_wait_key | Ev_yield | Ev_exit int | Ev_thread_exit int
  | Ev_read int "u8 list" u64 | Ev_write int "u8 list" u64
  | Ev_send int int | Ev_kill int | Ev_suspend int | Ev_resume int | Ev_root int
  | Ev_handler int u64 | Ev_tramp u64 | Ev_mask int u32 | Ev_alarm u64 | Ev_no_restart | Ev_check
  | Ev_sigreturn syscall_frame u64 | Ev_sysret syscall_frame u64 u64 | Ev_fault sigframe intr_frame nat
  | Ev_env "u8 list" u32 | Ev_pipe | Ev_pipe_close int
  | Ev_thread bool u64 u64 | Ev_spawn bool u64 u64 vfs u64 u64 int | Ev_spawn2 bool u64 u64 vfs u64
  | Ev_start bool u64 u64 vfs "u8 list" "u8 list list"
  | Ev_clock u64 | Ev_key | Ev_tick sigframe bool u64 u64 | Ev_loop bool

definition out :: "('a \<times> kw) option \<Rightarrow> kw option" where
  "out r = map_option snd r"

fun k_event :: "kev \<Rightarrow> kw \<Rightarrow> kw option" where
  "k_event (Ev_wait n) w = out (process_wait n w)"
| "k_event (Ev_join n) w = out (process_thread_join n w)"
| "k_event (Ev_sleep ms) w = Some (snd (process_sleep_ms ms w))"
| "k_event Ev_wait_key w = Some (snd (process_block_on_key w))"
| "k_event Ev_yield w = Some (snd (process_yield w))"
| "k_event (Ev_exit code) w = process_notify_exit code w"
| "k_event (Ev_thread_exit code) w = out (process_thread_exit code w)"
| "k_event (Ev_read n bs len) w = Some (snd (process_read_stdin (Ret n bs) len w))"
| "k_event (Ev_write n bs len) w = Some (snd (process_write_stdout (Ret n []) bs len w))"
| "k_event (Ev_send n s) w = Some (snd (signal_send n s w))"
| "k_event (Ev_kill n) w = Some (snd (process_kill n w))"
| "k_event (Ev_suspend n) w = Some (snd (process_suspend n w))"
| "k_event (Ev_resume n) w = Some (snd (process_resume n w))"
| "k_event (Ev_root n) w = Some (process_make_session_root n w)"
| "k_event (Ev_handler s h) w = Some (snd (signal_set_handler s h w))"
| "k_event (Ev_tramp a) w = Some (snd (signal_set_trampoline a w))"
| "k_event (Ev_mask how m) w = Some (snd (signal_mask how m w))"
| "k_event (Ev_alarm ms) w = Some (snd (signal_alarm ms w))"
| "k_event Ev_no_restart w = Some (signal_no_restart w)"
| "k_event Ev_check w = out (signal_check w)"
| "k_event (Ev_sigreturn f a) w = out (signal_return f a w)"
| "k_event (Ev_sysret f num ret) w = out (signal_on_syscall_return f num ret w)"
| "k_event (Ev_fault junk f n) w = map_option (\<lambda>(_, _, w'). w') (signal_from_fault junk f n w)"
| "k_event (Ev_env b len) w = out (process_env_set b len w)"
| "k_event Ev_pipe w = Some (snd (pipe_create w))"
| "k_event (Ev_pipe_close i) w = Some (pipe_close i w)"
| "k_event (Ev_thread en e a) w = out (process_thread_create en e a w)"
| "k_event (Ev_spawn en p4 p3 fs pa av n) w = out (process_spawn_user en p4 p3 fs pa av n w)"
| "k_event (Ev_spawn2 en p4 p3 fs r) w = out (process_spawn_user2 en p4 p3 fs r w)"
| "k_event (Ev_start en p4 p3 fs path argv) w = out (process_spawn en p4 p3 fs path argv w)"
| "k_event (Ev_clock now) w = Some (process_tick now w)"
| "k_event Ev_key w = Some (process_wake_key w)"
| "k_event (Ev_tick junk wants r c) w = out (sched_on_tick junk wants r c w)"
| "k_event (Ev_loop wm) w = (if current w = None then out (cpu_loop wm w) else Some w)"

fun k_run :: "(nat \<times> kev) list \<Rightarrow> kw \<Rightarrow> kw option" where
  "k_run [] w = Some w"
| "k_run ((core, ev) # evs) w =
     (if core < length (cpus w) then Option.bind (k_event ev (w\<lparr>me := core\<rparr>)) (k_run evs) else None)"

subsection \<open>Every entry keeps the invariant\<close>

lemma quiet_alarm_step: "quiet w (alarm_step now i w)"
proof -
  have "quiet w (signal_post (Some k) SIGALRM (upd k (\<lambda>p. p\<lparr>alarm_at := 0\<rparr>) w))" for k
    by (rule quiet_trans [OF quiet_upd quiet_signal_post]) simp
  then show ?thesis by (auto simp: alarm_step_def split: option.splits)
qed

lemma quiet_fold: "(\<And>i w. quiet w (f i w)) \<Longrightarrow> quiet w (fold f is w)"
  by (induction "is" arbitrary: w) (auto intro: quiet_trans)

lemma quiet_process_tick: "quiet w (process_tick now w)"
  unfolding process_tick_def signal_tick_def by (rule quiet_trans [OF quiet_wake quiet_fold]) (rule quiet_alarm_step)

lemma quiet_small:
  "quiet w (snd (process_suspend n w))" "quiet w (snd (process_resume n w))" "quiet w (process_make_session_root n w)"
  "quiet w (snd (signal_set_trampoline a w))" "quiet w (snd (signal_mask how m w))" "quiet w (snd (signal_alarm ms w))"
  "quiet w (signal_no_restart w)" "quiet w (snd (pipe_create w))" "quiet w (snd (process_kill n w))"
  by (auto simp: process_suspend_def process_resume_def process_make_session_root_def signal_set_trampoline_def
      signal_mask_def signal_alarm_def signal_no_restart_def pipe_create_def process_kill_def Let_def
      quiet_put_space quiet_upd_pipe quiet_signal_send intro!: quiet_upd split: option.splits)

lemma quiet_set_handler: "quiet w (snd (signal_set_handler s h w))"
proof -
  have "quiet w (upd c (\<lambda>p. p\<lparr>sig_pending := sig_pending p AND NOT (SIGBIT s)\<rparr>) (put_space a f w))" for c a f
    by (rule quiet_trans [OF quiet_put_space]) (rule quiet_upd, simp)
  then show ?thesis using quiet_put_space by (auto simp: signal_set_handler_def Let_def split: option.splits)
qed

lemma quiet_pipe_close: "quiet w (pipe_close i w)"
  using quiet_trans [OF quiet_upd_pipe quiet_wakes(1)] by (auto simp: pipe_close_def)

lemma quiet_env_set:
  assumes "process_env_set b len w = Some (r, w')"
  shows "quiet w w'"
proof (cases "\<exists>c. current w = Some c \<and> \<not> len > 65536")
  case False
  then show ?thesis using assms by (auto simp: process_env_set_def split: option.splits if_splits)
next
  case True
  then obtain c where c: "current w = Some c" "\<not> len > 65536" by blast
  obtain n w1 where a: "k_alloc (ucast len + 1) w = Some (n, w1)" using assms c by (auto simp: process_env_set_def Option.bind_eq_Some_conv)
  have q: "quiet w w1" by (rule quiet_k_alloc [OF a])
  show ?thesis
  proof (cases "n = 0")
    case True
    then show ?thesis using assms c a q by (simp add: process_env_set_def)
  next
    case False
    let ?w2 = "w1\<lparr>envs := (envs w1)(n := take (unat len) b @ [0])\<rparr>"
    obtain w3 where w3: "(if env (proc w c) \<noteq> 0 then k_free (env (proc w c)) ?w2 else Some ?w2) = Some w3"
      "w' = upd c (\<lambda>p. p\<lparr>env := n, env_len := len\<rparr>) w3"
      using assms c a False by (auto simp: process_env_set_def Let_def Option.bind_eq_Some_conv)
    have "quiet w1 ?w2" by (rule quiet_same) simp_all
    moreover have "quiet ?w2 w3" using w3(1) quiet_k_free by (auto split: if_splits)
    moreover have "quiet w3 w'" unfolding w3(2) by (rule quiet_upd) simp
    ultimately show ?thesis using quiet_trans q by blast
  qed
qed

lemma sound_upd_cpu:
  assumes "\<And>x. current_proc (f x) = current_proc x" and ok: "sched_ok w"
  shows "sound w (upd_cpu f w)"
proof -
  have "cores (upd_cpu f w) = cores w"
    using ok assms(1) by (simp add: cores_upd_cpu sched_ok_def) (simp add: cores_def flip: nth_map)
  then show ?thesis using ok ok_with_procs [of "upd_cpu f w" w] by (simp add: sound_def sched_ok_def)
qed

lemma signal_return_ok:
  assumes ok: "sched_ok w" and e: "signal_return f a w = Some (r, w')"
  shows "sound w w'"
proof -
  have k: "sound w (upd c (\<lambda>p. p\<lparr>sig_blocked := b\<rparr>) (upd_cpu (\<lambda>k. k\<lparr>fpu := x\<rparr>) (w\<lparr>vw := v\<rparr>)))" for c b x v
  proof -
    have "sound (w\<lparr>vw := v\<rparr>) (upd_cpu (\<lambda>k. k\<lparr>fpu := x\<rparr>) (w\<lparr>vw := v\<rparr>))"
      by (rule sound_upd_cpu [OF _ sched_ok_quiet [OF quiet_vw ok]]) simp
    then have s: "sound w (upd_cpu (\<lambda>k. k\<lparr>fpu := x\<rparr>) (w\<lparr>vw := v\<rparr>))" by (rule sound_trans [OF sound_quiet [OF quiet_vw ok]])
    show ?thesis by (rule sound_trans [OF s sound_quiet [OF quiet_upd soundD [OF s]]]) simp
  qed
  show ?thesis
    using e k sound_quiet [OF quiet_vw ok] sound_quiet [OF quiet_refl ok] unfolding signal_return_def Let_def
    by (auto simp: Option.bind_eq_Some_conv split: option.splits if_splits)
qed

lemma signal_from_fault_ok:
  assumes ok: "sched_ok w" and e: "signal_from_fault junk f n w = Some (b, r, w')"
  shows "sound w w'"
proof -
  have q: "quiet w (upd c (\<lambda>p. p\<lparr>sig_pending := sig_pending p OR SIGBIT s\<rparr>) w)" for c s by (rule quiet_upd) simp
  have "w' = w \<or> (\<exists>c s x. signal_on_interrupt_return junk f (upd c (\<lambda>p. p\<lparr>sig_pending := sig_pending p OR SIGBIT s\<rparr>) w) = Some (x, w'))"
    using e by (auto simp: signal_from_fault_def Let_def split: option.splits if_splits)
  then show ?thesis
    using sound_quiet [OF quiet_refl ok] signal_on_interrupt_return_ok [OF sched_ok_quiet [OF q ok]] sound_trans [OF sound_quiet [OF q ok]] by blast
qed

lemma blocking_calls_ok:
  assumes ok: "sched_ok w"
  shows "sound w (snd (process_sleep_ms ms w))" "sound w (snd (process_block_on_key w))" "sound w (snd (process_yield w))"
    "sound w (snd (process_read_stdin (Ret n bs) len w))" "sound w (snd (process_write_stdout (Ret m []) bs len w))"
proof -
  have r: "sound w w" by (rule sound_quiet [OF quiet_refl ok])
  show "sound w (snd (process_sleep_ms ms w))"
    using r block_on_after [OF ok _ quiet_keep(2)] by (auto simp: process_sleep_ms_def Let_def split: option.splits)
  show "sound w (snd (process_block_on_key w))"
    using r block_on_ok [OF ok] by (auto simp: process_block_on_key_def split: option.splits)
  show "sound w (snd (process_yield w))"
    using r block_current_ok [OF ok, where f = "\<lambda>p. p\<lparr>pstate := PROC_READY\<rparr>"] by (auto simp: process_yield_def split: option.splits)
  show "sound w (snd (process_read_stdin (Ret n bs) len w))"
    using r pipe_read_ok [OF ok] by (auto simp: process_read_stdin_def split: option.splits stream_kind.splits)
  show "sound w (snd (process_write_stdout (Ret m []) bs len w))"
    using r pipe_write_ok [OF ok] by (auto simp: process_write_stdout_def split: option.splits stream_kind.splits)
qed

lemma process_spawn_user_ok:
  "sched_ok w \<Longrightarrow> next_pid w < INT_MAX \<Longrightarrow> process_spawn_user en p4 p3 fs pa av n w = Some (r, w') \<Longrightarrow> grown w w'"
  unfolding process_spawn_user_def by (rule spawn_from_user_ok)

fun makes_process :: "kev \<Rightarrow> bool" where
  "makes_process (Ev_thread _ _ _) = True"
| "makes_process (Ev_spawn _ _ _ _ _ _ _) = True"
| "makes_process (Ev_spawn2 _ _ _ _ _) = True"
| "makes_process (Ev_start _ _ _ _ _ _) = True"
| "makes_process _ = False"

lemma k_event_sound:
  assumes "sched_ok w" and "k_event ev w = Some w'" and "\<not> makes_process ev"
  shows "sound w w'"
proof (cases ev)
  case (Ev_loop wm)
  then show ?thesis using assms cpu_loop_ok [OF assms(1)] sound_quiet [OF quiet_refl assms(1)]
    by (auto simp: out_def split: if_splits)
qed (use assms blocking_calls_ok [OF assms(1)] sound_quiet [OF quiet_small(1) assms(1)] sound_quiet [OF quiet_small(2) assms(1)]
      sound_quiet [OF quiet_small(3) assms(1)] sound_quiet [OF quiet_small(4) assms(1)] sound_quiet [OF quiet_small(5) assms(1)]
      sound_quiet [OF quiet_small(6) assms(1)] sound_quiet [OF quiet_small(7) assms(1)] sound_quiet [OF quiet_small(8) assms(1)]
      sound_quiet [OF quiet_small(9) assms(1)] sound_quiet [OF quiet_set_handler assms(1)] sound_quiet [OF quiet_pipe_close assms(1)]
      sound_quiet [OF quiet_process_tick assms(1)] sound_quiet [OF quiet_wakes(2) assms(1)] sound_quiet [OF quiet_signal_send assms(1)]
    in \<open>auto simp: out_def process_thread_exit_def intro: process_wait_ok process_thread_join_ok exit_ok(1) signal_check_ok(1) signal_return_ok
      signal_on_syscall_return_ok signal_from_fault_ok sound_quiet [OF quiet_env_set] sched_on_tick_ok\<close>)

lemma k_event_ok:
  assumes ok: "sched_ok w" and b: "next_pid w < INT_MAX" and e: "k_event ev w = Some w'"
  shows "grown w w'"
proof (cases "makes_process ev")
  case True
  then show ?thesis using e process_thread_create_ok [OF ok b] process_spawn_user_ok [OF ok b]
      process_spawn_user2_ok [OF ok b] process_spawn_ok [OF ok b, THEN conjunct1]
    by (cases ev) (auto simp: out_def)
qed (rule grown_sound [OF k_event_sound [OF ok e]])

lemma sched_ok_me: "sched_ok w \<Longrightarrow> k < length (cpus w) \<Longrightarrow> sched_ok (w\<lparr>me := k\<rparr>)"
  using ok_with_procs [of "w\<lparr>me := k\<rparr>" w] by (simp add: sched_ok_def cores_def)

lemma k_run_ok:
  "k_run evs w = Some w' \<Longrightarrow> sched_ok w \<Longrightarrow> next_pid w + int (length evs) \<le> INT_MAX \<Longrightarrow>
     sched_ok w' \<and> length (cpus w') = length (cpus w)"
proof (induction evs w rule: k_run.induct)
  case (2 core ev evs w)
  then obtain w1 where w1: "core < length (cpus w)" "k_event ev (w\<lparr>me := core\<rparr>) = Some w1" "k_run evs w1 = Some w'"
    by (auto simp: Option.bind_eq_Some_conv split: if_splits)
  have "next_pid (w\<lparr>me := core\<rparr>) < INT_MAX" using 2(4) by simp
  then have g: "grown (w\<lparr>me := core\<rparr>) w1" by (rule k_event_ok [OF sched_ok_me [OF 2(3) w1(1)] _ w1(2)])
  then have "next_pid w1 + int (length evs) \<le> INT_MAX" using 2(4) by (simp add: grown_def)
  then show ?case using 2(1) w1 g by (simp add: grown_def)
qed simp

subsection \<open>Two cores, two programs\<close>

definition demo_proc :: "int \<Rightarrow> process" where
  "demo_proc n = zero_process\<lparr>pid := n, pstate := PROC_READY\<rparr>"

definition idle_cpu :: cpu where
  "idle_cpu = \<lparr>current_proc = None, cpu_kstack = 0, tss_rsp0 = 0, cr3 = 0, fpu = []\<rparr>"

definition demo_pipe :: pipe where
  "demo_pipe = \<lparr>in_use = False, pbuf = (\<lambda>_. 0), head = 0, tail = 0, pcount = 0, write_open = False, read_open = False,
     writer_pid = 0, reader_pid = 0\<rparr>"

definition sched_demo :: kw where
  "sched_demo =
     \<lparr>vw = vm_demo, procs = [demo_proc 1, demo_proc 2] @ replicate 62 zero_process, cpus = [idle_cpu, idle_cpu], me = 0,
      next_pid = 3, pipes = replicate 16 demo_pipe, rr_last = 63, kernel_space = 0, scheduler_active = True,
      last_exit_code = 0, kframes = (\<lambda>_. zero_frame), envs = (\<lambda>_. []), now_ticks = 0, calls = []\<rparr>"

lemma demo_procs:
  "length (procs sched_demo) = 64" "procs sched_demo ! 0 = demo_proc 1" "procs sched_demo ! Suc 0 = demo_proc 2"
  "1 < i \<Longrightarrow> i < 64 \<Longrightarrow> procs sched_demo ! i = zero_process"
  by (auto simp: sched_demo_def nth_append nth_Cons' less_Suc_eq)

lemma sched_demo_ok: "sched_ok sched_demo"
proof -
  have u: "in_slot sched_demo i \<longleftrightarrow> i < 2" if "i < 64" for i
    using that demo_procs(4) [of i] demo_procs(2,3) less_2_cases [of i]
    by (cases "i < 2") (auto simp: in_slot_def demo_proc_def zero_process_def)
  have r: "\<not> running sched_demo i" if "i < 64" for i
    using that demo_procs(4) [of i] demo_procs(2,3) less_2_cases [of i]
    by (cases "i < 2") (auto simp: running_def demo_proc_def zero_process_def)
  have p: "pid (procs sched_demo ! i) = int i + 1" if "i < 2" for i
    using that demo_procs(2,3) less_2_cases [of i] by (auto simp: demo_proc_def)
  have c: "cores sched_demo = [None, None]" by (simp add: cores_def sched_demo_def idle_cpu_def)
  have "ok_with [None, None] sched_demo"
    unfolding ok_with_def MAX_PROCESSES_def using u r p demo_procs(1)
    by (auto simp: sched_demo_def less_Suc_eq nth_Cons')
  then show ?thesis by (simp add: sched_ok_def c) (simp add: sched_demo_def)
qed

text \<open>
  C1. From any state in which the processes that run are those the cores have, over every sequence of system calls, ticks, keys,
  faults and scheduler passes on any of the cores, as long as the \<^verbatim>\<open>int\<close> that counts the process ids cannot overflow (\<^verbatim>\<open>next_pid\<close> plus
  the number of events is at most \<^verbatim>\<open>INT_MAX\<close>; an event hands out at most one id): a process is RUNNING exactly while one core,
  and only one, has it as its current process, and no two slots in use carry the same pid.
\<close>

theorem each_process_on_one_core:
  assumes "sched_ok w" and "next_pid w + int (length evs) \<le> INT_MAX" and "k_run evs w = Some w'"
  shows "(\<forall>i < MAX_PROCESSES. pstate (procs w' ! i) = PROC_RUNNING \<longrightarrow> (\<exists>!k. k < length (cpus w') \<and> current_proc (cpus w' ! k) = Some i))
    \<and> (\<forall>k < length (cpus w'). \<forall>i. current_proc (cpus w' ! k) = Some i \<longrightarrow> i < MAX_PROCESSES \<and> pstate (procs w' ! i) = PROC_RUNNING)
    \<and> (\<forall>i < MAX_PROCESSES. \<forall>j < MAX_PROCESSES. pstate (procs w' ! i) \<noteq> PROC_UNUSED \<longrightarrow> pstate (procs w' ! j) \<noteq> PROC_UNUSED \<longrightarrow>
         pid (procs w' ! i) = pid (procs w' ! j) \<longrightarrow> i = j)"
proof (intro conjI)
  have ok: "ok_with (cores w') w'" using k_run_ok [OF assms(3,1,2)] by (simp add: sched_ok_def)
  have c: "k < length (cpus w') \<Longrightarrow> cores w' ! k = current_proc (cpus w' ! k)" "length (cores w') = length (cpus w')" for k
    by (simp_all add: cores_def)
  show "\<forall>i < MAX_PROCESSES. pstate (procs w' ! i) = PROC_RUNNING \<longrightarrow> (\<exists>!k. k < length (cpus w') \<and> current_proc (cpus w' ! k) = Some i)"
  proof (intro allI impI)
    fix i assume i: "i < MAX_PROCESSES" "pstate (procs w' ! i) = PROC_RUNNING"
    then obtain k where "k < length (cores w')" "cores w' ! k = Some i"
      using ok_withD(5) [OF ok i(1)] by (auto simp: running_def in_set_conv_nth)
    then show "\<exists>!k. k < length (cpus w') \<and> current_proc (cpus w' ! k) = Some i"
      using ok_withD(4) [OF ok] c by (intro ex1I [of _ k]) auto
  qed
  show "\<forall>k < length (cpus w'). \<forall>i. current_proc (cpus w' ! k) = Some i \<longrightarrow> i < MAX_PROCESSES \<and> pstate (procs w' ! i) = PROC_RUNNING"
    using ok_withD(2,3) [OF ok] c unfolding running_def by metis
  show "\<forall>i < MAX_PROCESSES. \<forall>j < MAX_PROCESSES. pstate (procs w' ! i) \<noteq> PROC_UNUSED \<longrightarrow> pstate (procs w' ! j) \<noteq> PROC_UNUSED \<longrightarrow>
         pid (procs w' ! i) = pid (procs w' ! j) \<longrightarrow> i = j"
    using ok unfolding ok_with_def in_slot_def by blast
qed

lemma pick_head:
  assumes "runnable (proc w ((rr_last w + 1) mod MAX_PROCESSES))"
  shows "pick_next None w = Some ((rr_last w + 1) mod MAX_PROCESSES)"
proof -
  have "[0..<MAX_PROCESSES] = 0 # [1..<MAX_PROCESSES]" by (simp add: MAX_PROCESSES_def upt_rec [of 0])
  then show ?thesis using assms by (simp add: pick_next_def Let_def)
qed

definition both_running :: kw where
  "both_running = the (k_run [(0, Ev_loop False), (1, Ev_loop False)] sched_demo)"

lemma demo_runs: "k_run [(0, Ev_loop False), (1, Ev_loop False)] sched_demo = Some both_running
  \<and> current_proc (cpus both_running ! 0) = Some 0 \<and> current_proc (cpus both_running ! 1) = Some 1"
proof -
  let ?w1 = "activate 0 (upd_cpu (\<lambda>c. c\<lparr>current_proc := None, cpu_kstack := 0\<rparr>) sched_demo)"
  let ?w2 = "activate 1 (upd_cpu (\<lambda>c. c\<lparr>current_proc := None, cpu_kstack := 0\<rparr>) (?w1\<lparr>me := 1\<rparr>))"
  have z: "sched_demo\<lparr>me := 0\<rparr> = sched_demo" by (simp add: sched_demo_def)
  have a: "pick_next None (upd_cpu (\<lambda>c. c\<lparr>current_proc := None, cpu_kstack := 0\<rparr>) sched_demo) = Some 0"
    by (subst pick_head) (simp_all add: sched_demo_def demo_proc_def runnable_def zero_process_def proc_def MAX_PROCESSES_def)
  have b: "pick_next None (upd_cpu (\<lambda>c. c\<lparr>current_proc := None, cpu_kstack := 0\<rparr>) (?w1\<lparr>me := 1\<rparr>)) = Some 1"
    by (subst pick_head)
       (simp_all add: activate_def Let_def upd_def sched_demo_def demo_proc_def runnable_def zero_process_def proc_def MAX_PROCESSES_def)
  have 1: "k_event (Ev_loop False) sched_demo = Some ?w1"
    using a by (simp add: out_def cpu_loop_def resume_process_def Let_def)
       (simp add: current_def sched_demo_def idle_cpu_def activate_def upd_cpu_def upd_def proc_def demo_proc_def zero_process_def Let_def)
  have 2: "k_event (Ev_loop False) (?w1\<lparr>me := 1\<rparr>) = Some ?w2"
    using b by (simp add: out_def cpu_loop_def resume_process_def Let_def)
       (simp add: current_def sched_demo_def idle_cpu_def activate_def upd_cpu_def upd_def proc_def demo_proc_def zero_process_def Let_def)
  have l: "length (cpus sched_demo) = 2" "length (cpus ?w1) = 2" by (simp_all add: sched_demo_def activate_def Let_def)
  have "k_run [(0, Ev_loop False), (1, Ev_loop False)] sched_demo = Some ?w2" using 1 2 z l by simp
  moreover have "current_proc (cpus ?w2 ! 0) = Some 0" "current_proc (cpus ?w2 ! 1) = Some 1"
    by (simp_all add: sched_demo_def activate_def Let_def upd_cpu_def upd_def)
  ultimately show ?thesis by (simp add: both_running_def)
qed

theorem each_process_on_one_core_witness:
  "pstate (procs both_running ! 0) = PROC_RUNNING \<and> pstate (procs both_running ! 1) = PROC_RUNNING"
proof -
  have r: "k_run [(0, Ev_loop False), (1, Ev_loop False)] sched_demo = Some both_running"
    and c: "current_proc (cpus both_running ! 0) = Some 0" "current_proc (cpus both_running ! 1) = Some 1" using demo_runs by blast+
  have n: "next_pid sched_demo + int (length [(0 :: nat, Ev_loop False), (1, Ev_loop False)]) \<le> INT_MAX"
    by (simp add: sched_demo_def INT_MAX_def)
  have "length (cpus sched_demo) = 2" by (simp add: sched_demo_def)
  then have "length (cpus both_running) = 2" using k_run_ok [OF r sched_demo_ok n] by simp
  then have k: "(0::nat) < length (cpus both_running)" "1 < length (cpus both_running)" by simp_all
  note t = each_process_on_one_core [OF sched_demo_ok n r, THEN conjunct2, THEN conjunct1, rule_format]
  show ?thesis using t [OF k(1) c(1)] t [OF k(2) c(2)] by blast
qed

subsection \<open>Round robin\<close>

definition gap :: "nat \<Rightarrow> nat \<Rightarrow> nat" where
  "gap s i = (i + 63 - s) mod 64"

lemma gap_slot: "s < 64 \<Longrightarrow> i < 64 \<Longrightarrow> (s + 1 + gap s i) mod 64 = i \<and> gap s i < 64"
proof -
  assume a: "s < 64" "i < 64"
  have "(s + 1 + (i + 63 - s) mod 64) mod 64 = (s + 1 + (i + 63 - s)) mod 64" by (rule mod_add_right_eq)
  also have "s + 1 + (i + 63 - s) = i + 64" using a by simp
  finally show ?thesis using a by (simp add: gap_def)
qed

lemma gap_value:
  assumes "s < 64" and "i < 64"
  shows "gap s i = (if s < i then i - s - 1 else i + 63 - s)"
proof (cases "s < i")
  case True
  then have "i + 63 - s = 64 + (i - s - 1)" by simp
  then show ?thesis using assms True unfolding gap_def by (simp only: mod_add_self1) simp
qed (use assms in \<open>simp add: gap_def\<close>)

lemma gap_shrinks:
  assumes "s < 64" and "i < 64" and "n < gap s i"
  shows "gap ((s + 1 + n) mod 64) i < gap s i"
proof (cases "s + 1 + n < 64")
  case True
  then show ?thesis using assms gap_value [of s i] gap_value [of "s + 1 + n" i] by (auto split: if_splits)
next
  case False
  have l: "s + 1 + n - 64 < 64" using assms gap_value [of s i] by (simp split: if_splits)
  then have "(s + 1 + n) mod 64 = s + 1 + n - 64" using False le_mod_geq [of 64 "s + 1 + n"] by simp
  with l show ?thesis using assms False gap_value [of s i] gap_value [of "s + 1 + n - 64" i] by (auto split: if_splits)
qed

lemma pick_closer:
  assumes s: "s < MAX_PROCESSES" and i: "i < MAX_PROCESSES" "runnable (proc w i)" and p: "pick_next (Some s) w = Some j"
  shows "j < MAX_PROCESSES \<and> (j = i \<or> gap j i < gap s i)"
proof -
  note M = MAX_PROCESSES_def
  let ?xs = "map (\<lambda>n. (s + 1 + n) mod MAX_PROCESSES) [0..<MAX_PROCESSES]"
  have f: "find (\<lambda>i. runnable (proc w i)) ?xs = Some j" using p by (simp add: pick_next_def)
  obtain n where n: "n < length ?xs" "j = ?xs ! n" "\<forall>m < n. \<not> runnable (proc w (?xs ! m))"
    using f unfolding find_Some_iff by blast
  have j: "j = (s + 1 + n) mod 64" "n < 64" using n(1,2) by (simp_all add: M)
  have g: "(s + 1 + gap s i) mod 64 = i" "gap s i < 64" using gap_slot [of s i] s i by (simp_all add: M)
  have "\<not> gap s i < n"
  proof
    assume "gap s i < n"
    then have "\<not> runnable (proc w (?xs ! gap s i))" using n(3) by blast
    then show False using g i(2) by (simp add: M)
  qed
  then show ?thesis using j g gap_shrinks [of s i n] s i by (cases "n = gap s i") (simp_all add: M)
qed

lemma pick_next_rr: "rr_last w < MAX_PROCESSES \<Longrightarrow> pick_next None w = pick_next (Some (rr_last w)) w"
  by (simp add: pick_next_def mod_add_left_eq)

lemma rotate_all: "(\<lambda>n. (s + n) mod 64) ` {0..<64} = {0..<64 :: nat}"
proof
  show "{0..<64} \<subseteq> (\<lambda>n. (s + n) mod 64) ` {0..<64}"
  proof
    fix i :: nat assume i: "i \<in> {0..<64}"
    let ?n = "(i + 64 - s mod 64) mod 64"
    have m: "s mod 64 < 64" by simp
    have "(s + ?n) mod 64 = (s mod 64 + (i + 64 - s mod 64)) mod 64" by presburger
    also have "\<dots> = i" using i m by simp
    finally show "i \<in> (\<lambda>n. (s + n) mod 64) ` {0..<64}" by (intro image_eqI [of _ _ ?n]) simp_all
  qed
qed auto

lemma pick_next_None: "pick_next a w = None \<longleftrightarrow> (\<forall>i < MAX_PROCESSES. \<not> runnable (proc w i))"
proof -
  have "find P (map (\<lambda>n. (s + n) mod 64) [0..<64]) = None \<longleftrightarrow> (\<forall>i < 64. \<not> P i)" for P and s :: nat
  proof -
    have "find P (map (\<lambda>n. (s + n) mod 64) [0..<64]) = None \<longleftrightarrow> (\<forall>i \<in> (\<lambda>n. (s + n) mod 64) ` {0..<64}. \<not> P i)"
      by (auto simp: find_None_iff)
    then show ?thesis unfolding rotate_all by auto
  qed
  then show ?thesis by (simp add: pick_next_def MAX_PROCESSES_def)
qed

text \<open>
  C29. The scheduler is fair: in a chain of picks, each starting past the slot picked before it, a process that stays runnable
  is picked within 64 picks, whatever happens to the rest of the table meanwhile; and a pick fails only when no
  process at all is runnable.
\<close>

theorem runnable_is_picked:
  assumes "i < MAX_PROCESSES" and "ps 0 < MAX_PROCESSES"
    and "\<And>k. k < MAX_PROCESSES \<Longrightarrow> (\<forall>j. 0 < j \<longrightarrow> j \<le> k \<longrightarrow> ps j \<noteq> i) \<Longrightarrow>
           runnable (proc (ws k) i) \<and> pick_next (Some (ps k)) (ws k) = Some (ps (Suc k))"
  shows "(\<exists>k. 0 < k \<and> k \<le> MAX_PROCESSES \<and> ps k = i) \<and> (\<forall>a w. pick_next a w = None \<longleftrightarrow> (\<forall>j < MAX_PROCESSES. \<not> runnable (proc w j)))"
proof (intro conjI allI pick_next_None, rule ccontr)
  assume no: "\<not> (\<exists>k. 0 < k \<and> k \<le> MAX_PROCESSES \<and> ps k = i)"
  have "ps k < MAX_PROCESSES \<and> gap (ps k) i + k < MAX_PROCESSES" if "k \<le> MAX_PROCESSES" for k
    using that
  proof (induction k)
    case 0
    then show ?case using gap_slot [of "ps 0" i] assms(1,2) by (simp add: MAX_PROCESSES_def)
  next
    case (Suc k)
    have k: "ps k < MAX_PROCESSES" "gap (ps k) i + k < MAX_PROCESSES" using Suc by simp_all
    have h: "\<forall>j. 0 < j \<longrightarrow> j \<le> k \<longrightarrow> ps j \<noteq> i" using no Suc.prems by (metis Suc_leD order.trans)
    have r: "runnable (proc (ws k) i)" "pick_next (Some (ps k)) (ws k) = Some (ps (Suc k))" using assms(3) [OF _ h] Suc.prems by simp_all
    have "ps (Suc k) \<noteq> i" using no Suc.prems by auto
    then show ?case using pick_closer [OF k(1) assms(1) r] k(2) by simp
  qed
  from this [of MAX_PROCESSES] show False by simp
qed

definition demo_chain :: "nat \<Rightarrow> nat" where
  "demo_chain k = (if k = 0 then 63 else if k = 1 then 0 else 1)"

theorem runnable_is_picked_witness:
  "\<exists>k. 0 < k \<and> k \<le> MAX_PROCESSES \<and> demo_chain k = 1"
proof -
  have x: "[0..<MAX_PROCESSES] = 0 # [1..<MAX_PROCESSES]" by (simp add: MAX_PROCESSES_def upt_rec [of 0])
  have r: "runnable (proc sched_demo 0)" "runnable (proc sched_demo 1)"
    using demo_procs(2,3) by (simp_all add: proc_def runnable_def demo_proc_def zero_process_def)
  have a: "pick_next (Some 63) sched_demo = Some 0" "pick_next (Some 0) sched_demo = Some 1"
    using r by (simp_all add: pick_next_def Let_def x) (simp_all add: MAX_PROCESSES_def)
  have "runnable (proc sched_demo 1) \<and> pick_next (Some (demo_chain k)) sched_demo = Some (demo_chain (Suc k))"
    if h: "\<forall>j. 0 < j \<longrightarrow> j \<le> k \<longrightarrow> demo_chain j \<noteq> 1" for k
  proof -
    have "k < 2"
    proof (rule ccontr)
      assume "\<not> k < 2"
      then show False using h [rule_format, of 2] by (simp add: demo_chain_def)
    qed
    then have "k = 0 \<or> k = 1" by linarith
    then show ?thesis using r a by (auto simp: demo_chain_def)
  qed
  then show ?thesis
    using runnable_is_picked [of 1 demo_chain "\<lambda>_. sched_demo"] by (simp add: MAX_PROCESSES_def demo_chain_def)
qed

end
