(* ===== verification/Byte_Channel.thy ===== *)
theory Byte_Channel
  imports Prelude
begin

text \<open>
  The contract of a bounded byte channel between one writer and one reader, and what follows from it for every
  interleaving of writes and reads: nothing is lost, nothing is repeated, nothing is reordered, and as long as the capacity
  is not zero at least one side can always move.
\<close>

datatype 'b chan_op = Put "'b list" | Get nat

text \<open>A run gives the bytes taken in, the bytes given out, and the channel after it.\<close>

fun chan_run :: "('b list \<Rightarrow> 'c \<Rightarrow> 'b list \<times> 'c) \<Rightarrow> (nat \<Rightarrow> 'c \<Rightarrow> 'b list \<times> 'c) \<Rightarrow> 'b chan_op list \<Rightarrow> 'c \<Rightarrow> 'b list \<times> 'b list \<times> 'c" where
  "chan_run put get [] c = ([], [], c)"
| "chan_run put get (Put bs # ops) c =
     (case put bs c of (rest, c1) \<Rightarrow> case chan_run put get ops c1 of (i, u, c2) \<Rightarrow> (take (length bs - length rest) bs @ i, u, c2))"
| "chan_run put get (Get n # ops) c =
     (case get n c of (bs, c1) \<Rightarrow> case chan_run put get ops c1 of (i, u, c2) \<Rightarrow> (i, bs @ u, c2))"

locale byte_channel =
  fixes inv :: "'c \<Rightarrow> bool"
    and content :: "'c \<Rightarrow> 'b list"
    and cap :: nat
    and put :: "'b list \<Rightarrow> 'c \<Rightarrow> 'b list \<times> 'c"
    and get :: "nat \<Rightarrow> 'c \<Rightarrow> 'b list \<times> 'c"
  assumes put_spec: "inv c \<Longrightarrow> put bs c = (rest, c') \<Longrightarrow>
      inv c' \<and> rest = drop (cap - length (content c)) bs \<and> content c' = content c @ take (cap - length (content c)) bs"
    and get_spec: "inv c \<Longrightarrow> get n c = (bs, c') \<Longrightarrow> inv c' \<and> bs = take n (content c) \<and> content c' = drop n (content c)"
    and bounded: "inv c \<Longrightarrow> length (content c) \<le> cap"
begin

lemma run_fifo:
  "inv c \<Longrightarrow> chan_run put get ops c = (i, u, c') \<Longrightarrow> inv c' \<and> content c @ i = u @ content c'"
proof (induction ops arbitrary: c i u)
  case (Cons x ops)
  show ?case
  proof (cases x)
    case (Put bs)
    obtain rest c1 where p: "put bs c = (rest, c1)" by fastforce
    obtain j v c2 where r: "chan_run put get ops c1 = (j, v, c2)" by (metis prod_cases3)
    note s = put_spec [OF Cons.prems(1) p]
    have "i = take (length bs - length rest) bs @ j" "u = v" "c' = c2" using Cons.prems(2) Put p r by simp_all
    moreover have "take (length bs - length rest) bs = take (cap - length (content c)) bs"
      using s by (cases "cap - length (content c) \<le> length bs") simp_all
    ultimately show ?thesis using Cons.IH [of c1 j v] r s by simp
  next
    case (Get n)
    obtain bs c1 where p: "get n c = (bs, c1)" by fastforce
    obtain j v c2 where r: "chan_run put get ops c1 = (j, v, c2)" by (metis prod_cases3)
    have s: "inv c1" "bs = take n (content c)" "content c1 = drop n (content c)" using get_spec [OF Cons.prems(1) p] by simp_all
    have e: "i = j" "u = bs @ v" "c' = c2" using Cons.prems(2) Get p r by simp_all
    have "inv c2 \<and> content c1 @ j = v @ content c2" using Cons.IH [of c1 j v] r s(1) e(3) by simp
    then show ?thesis using e s by (metis append.assoc append_take_drop_id)
  qed
qed simp

lemma never_stuck:
  assumes "inv c" and "0 < cap" and "bs \<noteq> []" and "0 < n"
  shows "length (fst (put bs c)) < length bs \<or> fst (get n c) \<noteq> []"
proof (cases "content c = []")
  case True
  obtain r c1 where p: "put bs c = (r, c1)" by fastforce
  show ?thesis using put_spec [OF assms(1) p] p True assms by (cases bs) auto
next
  case False
  obtain r c1 where g: "get n c = (r, c1)" by fastforce
  show ?thesis using get_spec [OF assms(1) g] g False assms by (cases n) auto
qed

end

end
