(* ===== verification/Pipe_Fifo.thy ===== *)
theory Pipe_Fifo
  imports Sched_Inv Byte_Channel
begin

text \<open>
  The ring buffer of a pipe is a bounded queue of bytes. \<open>pipe_bytes\<close> is what the ring holds, oldest first; the two
  copy loops of \<^verbatim>\<open>pipe_write\<close> and \<^verbatim>\<open>pipe_read\<close> meet the contract of a byte channel, and the
  calls around them block, report and end exactly as that queue says.
\<close>

definition pipe_ok :: "pipe \<Rightarrow> bool" where
  "pipe_ok p \<longleftrightarrow> unat (pcount p) \<le> 4096 \<and> unat (tail p) < 4096 \<and> unat (head p) = (unat (tail p) + unat (pcount p)) mod 4096"

definition pipe_bytes :: "pipe \<Rightarrow> u8 list" where
  "pipe_bytes p = map (\<lambda>k. pbuf p (of_nat ((unat (tail p) + k) mod 4096))) [0..<unat (pcount p)]"

lemma length_pipe_bytes [simp]: "length (pipe_bytes p) = unat (pcount p)"
  by (simp add: pipe_bytes_def)

lemma ring_inj:
  fixes a :: nat
  assumes "j < 4096" "k < 4096" "(a + j) mod 4096 = (a + k) mod 4096"
  shows "j = k"
proof -
  have "j = k" if "j \<le> k" "j < 4096" "k < 4096" "(a + j) mod 4096 = (a + k) mod 4096" for j k
  proof -
    have "4096 dvd k - j" using that mod_eq_dvd_iff_nat [of "a + j" "a + k" 4096] by simp
    then show ?thesis using that dvd_imp_le [of 4096 "k - j"] by (cases "k - j = 0") simp_all
  qed
  then show ?thesis using assms by (metis nat_le_linear)
qed

lemma of_nat_mod_inj: "of_nat (x mod 4096) = (of_nat (y mod 4096) :: u32) \<Longrightarrow> x mod 4096 = y mod (4096 :: nat)"
proof -
  assume e: "of_nat (x mod 4096) = (of_nat (y mod 4096) :: u32)"
  have "unat (of_nat (z mod 4096) :: u32) = z mod 4096" for z :: nat
    by (rule unat_of_nat_small) (use mod_less_divisor [of 4096 z] in simp)
  then show ?thesis using e by metis
qed

lemma step_nat: "unat (x :: u32) < 4096 \<Longrightarrow> unat ((x + 1) mod PIPE_BUF_SIZE) = (unat x + 1) mod 4096"
  using unat_add_small [of x 1] by (simp add: PIPE_BUF_SIZE_def unat_mod)

lemma put_one:
  fixes b :: u8
  assumes ok: "pipe_ok p" and r: "pcount p < PIPE_BUF_SIZE"
  defines "q \<equiv> p\<lparr>pbuf := (pbuf p)(head p := b), head := (head p + 1) mod PIPE_BUF_SIZE, pcount := pcount p + 1\<rparr>"
  shows "pipe_ok q" and "pipe_bytes q = pipe_bytes p @ [b]"
proof -
  have c: "unat (pcount p) < 4096" using r by (simp add: PIPE_BUF_SIZE_def word_less_nat_alt)
  have t: "unat (tail p) < 4096" and h: "unat (head p) = (unat (tail p) + unat (pcount p)) mod 4096" using ok by (simp_all add: pipe_ok_def)
  have s: "unat (pcount p + 1) = unat (pcount p) + 1" using unat_add_small [of "pcount p" 1] c by simp
  have hl: "unat (head p) < 4096" using h by simp
  have "unat (head q) = (unat (tail q) + unat (pcount q)) mod 4096"
    using step_nat [OF hl] s h by (simp add: q_def mod_Suc_eq)
  then show "pipe_ok q" using s c t by (simp add: pipe_ok_def q_def)
  have hw: "head p = of_nat ((unat (tail p) + unat (pcount p)) mod 4096)" unfolding h [symmetric] by simp
  have k: "of_nat ((unat (tail p) + k) mod 4096) \<noteq> head p" if "k < unat (pcount p)" for k
  proof
    assume "of_nat ((unat (tail p) + k) mod 4096) = head p"
    then have "(unat (tail p) + k) mod 4096 = (unat (tail p) + unat (pcount p)) mod 4096" using hw of_nat_mod_inj by metis
    then show False using ring_inj [of k "unat (pcount p)" "unat (tail p)"] that c by simp
  qed
  have "pipe_bytes q = map (\<lambda>k. pbuf q (of_nat ((unat (tail p) + k) mod 4096))) ([0..<unat (pcount p)] @ [unat (pcount p)])"
    using s by (simp add: pipe_bytes_def q_def)
  also have "\<dots> = pipe_bytes p @ [b]" using k hw by (simp add: pipe_bytes_def q_def)
  finally show "pipe_bytes q = pipe_bytes p @ [b]" .
qed

lemma get_one:
  assumes ok: "pipe_ok p" and r: "pcount p > 0"
  defines "q \<equiv> p\<lparr>tail := (tail p + 1) mod PIPE_BUF_SIZE, pcount := pcount p - 1\<rparr>"
  shows "pipe_ok q" and "pipe_bytes p = pbuf p (tail p) # pipe_bytes q"
proof -
  have c: "0 < unat (pcount p)" "unat (pcount p) \<le> 4096" using r ok by (simp_all add: pipe_ok_def word_less_nat_alt)
  have t: "unat (tail p) < 4096" and h: "unat (head p) = (unat (tail p) + unat (pcount p)) mod 4096" using ok by (simp_all add: pipe_ok_def)
  have s: "unat (pcount p - 1) = unat (pcount p) - 1" using unat_sub_small [of 1 "pcount p"] c by simp
  have m: "((unat (tail p) + 1) mod 4096 + k) mod 4096 = (unat (tail p) + Suc k) mod 4096" for k
    by (simp add: mod_add_left_eq)
  have "unat (head q) = (unat (tail q) + unat (pcount q)) mod 4096"
    using step_nat [OF t] s h m [of "unat (pcount p) - 1"] c by (simp add: q_def)
  then show "pipe_ok q" using s c step_nat [OF t] by (simp add: pipe_ok_def q_def)
  have t0: "of_nat (unat (tail p) mod 4096) = tail p" using t by simp
  have "[0..<unat (pcount p)] = 0 # map Suc [0..<unat (pcount p) - 1]" using c(1) by (simp add: map_Suc_upt upt_conv_Cons)
  then have "pipe_bytes p = pbuf p (tail p) # map (\<lambda>k. pbuf p (of_nat ((unat (tail p) + Suc k) mod 4096))) [0..<unat (pcount p) - 1]"
    using t0 by (simp add: pipe_bytes_def comp_def)
  also have "map (\<lambda>k. pbuf p (of_nat ((unat (tail p) + Suc k) mod 4096))) [0..<unat (pcount p) - 1] = pipe_bytes q"
    using s step_nat [OF t] m by (simp add: pipe_bytes_def q_def)
  finally show "pipe_bytes p = pbuf p (tail p) # pipe_bytes q" .
qed

lemma put_bytes_spec:
  "pipe_ok p \<Longrightarrow> put_bytes bs p = (rest, p') \<Longrightarrow>
     pipe_ok p' \<and> rest = drop (4096 - length (pipe_bytes p)) bs \<and> pipe_bytes p' = pipe_bytes p @ take (4096 - length (pipe_bytes p)) bs"
proof (induction bs p arbitrary: rest p' rule: put_bytes.induct)
  case (2 b bs p)
  let ?q = "p\<lparr>pbuf := (pbuf p)(head p := b), head := (head p + 1) mod PIPE_BUF_SIZE, pcount := pcount p + 1\<rparr>"
  show ?case
  proof (cases "pcount p < PIPE_BUF_SIZE")
    case True
    have e: "put_bytes bs ?q = (rest, p')" using 2(3) True by simp
    note s = 2(1) [OF True put_one(1) [OF 2(2) True] e]
    have l: "4096 - length (pipe_bytes p) = Suc (4096 - length (pipe_bytes ?q))"
      using put_one(2) [OF 2(2) True, of b] True by (simp del: length_pipe_bytes add: PIPE_BUF_SIZE_def word_less_nat_alt length_pipe_bytes [of p] flip: length_pipe_bytes [of ?q])
    show ?thesis using s put_one(2) [OF 2(2) True, of b] by (simp only: l) simp
  next
    case False
    then have "unat (pcount p) = 4096" using 2(2) by (simp add: pipe_ok_def PIPE_BUF_SIZE_def word_less_nat_alt)
    then show ?thesis using 2(2,3) False by simp
  qed
qed simp

lemma get_bytes_spec:
  "pipe_ok p \<Longrightarrow> get_bytes n p = (bs, p') \<Longrightarrow> pipe_ok p' \<and> bs = take n (pipe_bytes p) \<and> pipe_bytes p' = drop n (pipe_bytes p)"
proof (induction n p arbitrary: bs p' rule: get_bytes.induct)
  case (2 n p)
  let ?q = "p\<lparr>tail := (tail p + 1) mod PIPE_BUF_SIZE, pcount := pcount p - 1\<rparr>"
  show ?case
  proof (cases "pcount p > 0")
    case True
    obtain bs1 where e: "get_bytes n ?q = (bs1, p')" "bs = pbuf p (tail p) # bs1" using 2(3) True by (auto split: prod.splits)
    show ?thesis using 2(1) [OF True get_one(1) [OF 2(2) True] e(1)] e(2) get_one(2) [OF 2(2) True] by simp
  next
    case False
    then have "pipe_bytes p = []" by (simp add: pipe_bytes_def word_gt_0)
    then show ?thesis using 2(2,3) False by simp
  qed
qed simp

interpretation pipe: byte_channel pipe_ok pipe_bytes 4096 put_bytes get_bytes
proof unfold_locales
  show "pipe_ok c \<Longrightarrow> length (pipe_bytes c) \<le> 4096" for c by (simp add: pipe_ok_def)
qed (use put_bytes_spec get_bytes_spec in blast)+

subsection \<open>The calls\<close>

definition asleep_on_pipe :: "process \<Rightarrow> bool" where
  "asleep_on_pipe p \<longleftrightarrow> pstate p = PROC_BLOCKED \<and> wait_reason p = WAIT_PIPE"

lemma wake_pipe_fields [simp]:
  "pipes (process_wake_pipe w) = pipes w" "length (procs (process_wake_pipe w)) = length (procs w)"
  "pipes (upd_cpu f w) = pipes w" "pipes (upd i g w) = pipes w" "procs (upd_pipe i h w) = procs w"
  "length (pipes (upd_pipe i h w)) = length (pipes w)"
  by (simp_all add: process_wake_pipe_def upd_cpu_def upd_def upd_pipe_def)

lemma pipe_after: "i < length (pipes w) \<Longrightarrow> pipes (upd_pipe i (\<lambda>_. p) w) ! i = p"
  by (simp add: upd_pipe_def)

lemma wake_pipe_awake: "i < length (procs w) \<Longrightarrow> \<not> asleep_on_pipe (procs (process_wake_pipe w) ! i)"
  by (auto simp: process_wake_pipe_def asleep_on_pipe_def wake_def)

lemma block_on_effect:
  assumes "c < length (procs w)"
  shows "fst (block_on c why k w) = Idle" and "pipes (snd (block_on c why k w)) = pipes w"
    and "pstate (proc (snd (block_on c why k w)) c) = PROC_BLOCKED" "wait_reason (proc (snd (block_on c why k w)) c) = why"
    and "kctx (proc (snd (block_on c why k w)) c) = k"
    and "i \<noteq> c \<Longrightarrow> procs (snd (block_on c why k w)) ! i = procs w ! i"
  using assms by (simp_all add: block_on_def block_current_def go_idle_def upd_cpu_def upd_def proc_def)

lemma put_bytes_open: "read_open (snd (put_bytes bs p)) = read_open p"
  by (induction bs p rule: put_bytes.induct) simp_all

text \<open>What a write and a read leave, spelled over the queue.\<close>

definition write_spec :: "nat \<Rightarrow> nat \<Rightarrow> u8 list \<Rightarrow> nat \<Rightarrow> kw \<Rightarrow> flow \<times> kw \<Rightarrow> bool" where
  "write_spec c idx bs written w r \<longleftrightarrow>
     (let q = pipe_bytes (pipes w ! idx); room = 4096 - length q; w' = snd r in
      if bs = [] then r = (Ret (int written) [], w)
      else if \<not> read_open (pipes w ! idx) then r = (Ret (if written > 0 then int written else - 1) [], w)
      else pipe_ok (pipes w' ! idx) \<and> pipe_bytes (pipes w' ! idx) = q @ take room bs
        \<and> (if length bs \<le> room then fst r = Ret (int (written + length bs)) []
           else fst r = Idle \<and> asleep_on_pipe (proc w' c) \<and> kctx (proc w' c) = In_pipe_write idx (drop room bs) (written + room))
        \<and> (room > 0 \<longrightarrow> (\<forall>i < length (procs w). i \<noteq> c \<longrightarrow> \<not> asleep_on_pipe (procs w' ! i))))"

definition read_spec :: "nat \<Rightarrow> nat \<Rightarrow> nat \<Rightarrow> kw \<Rightarrow> flow \<times> kw \<Rightarrow> bool" where
  "read_spec c idx len w r \<longleftrightarrow>
     (let q = pipe_bytes (pipes w ! idx); w' = snd r in
      if q = [] then
        if write_open (pipes w ! idx)
        then fst r = Idle \<and> asleep_on_pipe (proc w' c) \<and> kctx (proc w' c) = In_pipe_read idx len \<and> pipes w' = pipes w
        else r = (Ret 0 [], w)
      else fst r = Ret (int (min len (length q))) (take len q) \<and> pipe_ok (pipes w' ! idx)
        \<and> pipe_bytes (pipes w' ! idx) = drop len q \<and> (\<forall>i < length (procs w). \<not> asleep_on_pipe (procs w' ! i)))"

lemma pipe_write_meets:
  assumes i: "idx < length (pipes w)" "pipe_ok (pipes w ! idx)" and c: "c < length (procs w)"
  shows "write_spec c idx bs written w (pipe_write c bs written idx w)"
proof -
  let ?p = "pipes w ! idx" and ?q = "pipe_bytes (pipes w ! idx)"
  let ?room = "4096 - length ?q"
  have b: "asleep_on_pipe (proc (snd (block_on c WAIT_PIPE k v)) c) \<and> kctx (proc (snd (block_on c WAIT_PIPE k v)) c) = k"
    if "c < length (procs v)" for k v
    using block_on_effect [OF that] by (simp add: asleep_on_pipe_def)
  show ?thesis
  proof (cases "bs = [] \<or> \<not> read_open ?p")
    case True
    then show ?thesis by (subst pipe_write.simps) (auto simp: write_spec_def Let_def)
  next
    case False
    show ?thesis
    proof (cases "pcount ?p < PIPE_BUF_SIZE")
      case full: False
      then have r: "?room = 0" by (simp add: PIPE_BUF_SIZE_def word_less_nat_alt)
      have "pipe_write c bs written idx w = block_on c WAIT_PIPE (In_pipe_write idx bs written) w"
        using False full by (subst pipe_write.simps) (simp add: Let_def)
      then show ?thesis using False r i b [OF c] block_on_effect(1,2) [OF c] by (simp add: write_spec_def Let_def)
    next
      case room: True
      obtain bs1 p1 where p: "put_bytes bs ?p = (bs1, p1)" by fastforce
      note s = pipe.put_spec [OF i(2) p]
      let ?w1 = "process_wake_pipe (upd_pipe idx (\<lambda>_. p1) w)"
      have e: "pipe_write c bs written idx w = pipe_write c bs1 (written + (length bs - length bs1)) idx ?w1"
        using False room p by (subst pipe_write.simps) (simp add: Let_def)
      have p1: "pipes ?w1 ! idx = p1" using i by (simp add: pipe_after)
      have l1: "c < length (procs ?w1)" using c by simp
      have aw: "\<not> asleep_on_pipe (procs ?w1 ! j)" if "j < length (procs w)" for j using wake_pipe_awake [of j] that by simp
      show ?thesis
      proof (cases "length bs \<le> ?room")
        case True
        then have "bs1 = []" using s by simp
        then have "pipe_write c bs written idx w = (Ret (int (written + length bs)) [], ?w1)" using e by (simp add: pipe_write.simps)
        then show ?thesis using False True s p1 aw by (simp add: write_spec_def Let_def)
      next
        case long: False
        have b1: "bs1 = drop ?room bs" "bs1 \<noteq> []" "length bs - length bs1 = ?room" using s long by auto
        have "length (pipe_bytes p1) = 4096" using s long i(2) by (simp add: pipe_ok_def)
        then have f: "\<not> pcount p1 < PIPE_BUF_SIZE" by (simp add: PIPE_BUF_SIZE_def word_less_nat_alt)
        have "p1 = snd (put_bytes bs ?p)" using p by simp
        then have ro: "read_open p1" using False put_bytes_open [of bs ?p] by simp
        have "pipe_write c bs written idx w = block_on c WAIT_PIPE (In_pipe_write idx bs1 (written + ?room)) ?w1"
          using e b1(2,3) f ro p1 by (subst (asm) (2) pipe_write.simps) (simp add: Let_def)
        then show ?thesis using False long s p1 b1 b [OF l1] block_on_effect(1,2) [OF l1] block_on_effect(6) [OF l1] aw
          by (simp add: write_spec_def Let_def)
      qed
    qed
  qed
qed

lemma pipe_read_meets:
  assumes i: "idx < length (pipes w)" "pipe_ok (pipes w ! idx)" and c: "c < length (procs w)"
  shows "read_spec c idx len w (pipe_read c idx len w)"
proof (cases "pcount (pipes w ! idx) = 0")
  case True
  then have "pipe_bytes (pipes w ! idx) = []" by (simp add: pipe_bytes_def)
  then show ?thesis using True block_on_effect [OF c]
    by (simp add: read_spec_def pipe_read_def Let_def asleep_on_pipe_def)
next
  case False
  obtain bs p1 where p: "get_bytes len (pipes w ! idx) = (bs, p1)" by fastforce
  note s = pipe.get_spec [OF i(2) p]
  have q: "pipe_bytes (pipes w ! idx) \<noteq> []" using False by (metis length_pipe_bytes list.size(3) unat_eq_zero)
  show ?thesis using False p s q i wake_pipe_awake [of _ "upd_pipe idx (\<lambda>_. p1) w"]
    by (simp add: read_spec_def pipe_read_def Let_def pipe_after)
qed

text \<open>
  C30. Whatever the state of a pipe, a write appends to the bytes in it as many of its own, in order, as there is room for; it
  answers the count when all of them fitted, and otherwise sleeps with the rest remembered; with the reading end closed it
  reports what was written before, or an error. A read answers the oldest bytes, up to its length, and removes exactly
  them; on an empty pipe it sleeps while the writing end is open and reports the end after that. A
  write that found room wakes every other process asleep on a pipe, and a read of a pipe that was not empty wakes all.
\<close>

theorem pipe_calls_exact:
  assumes "idx < length (pipes w)" and "pipe_ok (pipes w ! idx)" and "c < length (procs w)"
  shows "write_spec c idx bs written w (pipe_write c bs written idx w) \<and> read_spec c idx len w (pipe_read c idx len w)"
  using pipe_write_meets [OF assms] pipe_read_meets [OF assms] by blast

definition open_pipe :: pipe where
  "open_pipe = demo_pipe\<lparr>in_use := True, write_open := True, read_open := True\<rparr>"

definition pipe_demo :: kw where
  "pipe_demo = upd_pipe 0 (\<lambda>_. open_pipe) sched_demo"

lemma pipe_demo_facts:
  "0 < length (pipes pipe_demo)" "pipes pipe_demo ! 0 = open_pipe" "pipe_ok open_pipe" "pipe_bytes open_pipe = []" "0 < length (procs pipe_demo)"
  by (simp_all add: pipe_demo_def sched_demo_def upd_pipe_def pipe_ok_def pipe_bytes_def open_pipe_def demo_pipe_def)

theorem pipe_calls_exact_witness:
  "fst (pipe_write 0 [1, 2] 0 0 pipe_demo) = Ret 2 [] \<and> pipe_bytes (pipes (snd (pipe_write 0 [1, 2] 0 0 pipe_demo)) ! 0) = [1, 2]
   \<and> fst (pipe_read 0 0 5 pipe_demo) = Idle"
  using pipe_calls_exact [OF pipe_demo_facts(1) _ pipe_demo_facts(5), of "[1, 2]" 0 5] pipe_demo_facts
  by (simp add: write_spec_def read_spec_def Let_def, simp add: open_pipe_def)

text \<open>
  C5. Over every interleaving of writes and reads of a pipe, what was in it followed by the bytes taken in is what was
  given out followed by what is left: no byte is lost, repeated or reordered, and a pipe never refuses both a write and a read.
\<close>

theorem pipe_is_fifo:
  assumes "pipe_ok p" and "chan_run put_bytes get_bytes ops p = (taken, given, p')"
  shows "pipe_ok p' \<and> pipe_bytes p @ taken = given @ pipe_bytes p'
    \<and> (\<forall>bs n. bs \<noteq> [] \<longrightarrow> 0 < n \<longrightarrow> length (fst (put_bytes bs p')) < length bs \<or> fst (get_bytes n p') \<noteq> [])"
proof -
  have "pipe_ok p' \<and> pipe_bytes p @ taken = given @ pipe_bytes p'" by (rule pipe.run_fifo [OF assms])
  then show ?thesis using pipe.never_stuck [of p'] by simp
qed

theorem pipe_is_fifo_witness:
  "\<exists>p'. chan_run put_bytes get_bytes [Put [1, 2, 3], Get (Suc (Suc 0))] open_pipe = ([1, 2, 3], [1, 2], p') \<and> pipe_bytes p' = [3]"
proof -
  have "\<exists>p'. chan_run put_bytes get_bytes [Put [1, 2, 3], Get (Suc (Suc 0))] open_pipe = ([1, 2, 3], [1, 2], p')"
    by (simp add: open_pipe_def demo_pipe_def PIPE_BUF_SIZE_def)
  then obtain p' where e: "chan_run put_bytes get_bytes [Put [1, 2, 3], Get (Suc (Suc 0))] open_pipe = ([1, 2, 3], [1, 2], p')" ..
  from pipe_is_fifo [OF pipe_demo_facts(3) e] have "pipe_bytes open_pipe @ [1, 2, 3] = [1, 2] @ pipe_bytes p'" by blast
  then have "pipe_bytes p' = [3]" using pipe_demo_facts(4) by simp
  then show ?thesis using e by blast
qed

end
