(* ===== verification/Streams.thy ===== *)
theory Streams
  imports Pipe_Fifo
begin

text \<open>
  Streams are well typed: whatever the kernel is asked to do, every stream of kind pipe names a pipe that exists,
  every interrupted read or write goes on with such a pipe, every core's process is a slot of the table, and every ring stays a ring, so no access is out of bounds.
\<close>

subsection \<open>The invariant\<close>

definition stream_ok :: "pstream \<Rightarrow> bool" where
  "stream_ok s \<longleftrightarrow> (kind s = STREAM_PIPE \<longrightarrow> 0 \<le> handle s \<and> handle s < int MAX_PIPES)"

fun kont_ok :: "kont \<Rightarrow> bool" where
  "kont_ok (In_pipe_write i _ _) = (i < MAX_PIPES)"
| "kont_ok (In_pipe_read i _) = (i < MAX_PIPES)"
| "kont_ok _ = True"

definition proc_ok :: "process \<Rightarrow> bool" where
  "proc_ok p \<longleftrightarrow> stream_ok (pin p) \<and> stream_ok (pout p) \<and> kont_ok (kctx p)"

definition streams_ok :: "kw \<Rightarrow> bool" where
  "streams_ok w \<longleftrightarrow> length (procs w) = MAX_PROCESSES \<and> length (pipes w) = MAX_PIPES \<and> (\<forall>p \<in> set (pipes w). pipe_ok p) \<and> (\<forall>p \<in> set (procs w). proc_ok p)
     \<and> (\<forall>c \<in> set (cpus w). \<forall>i. current_proc c = Some i \<longrightarrow> i < MAX_PROCESSES)"

definition safe :: "('a \<times> kw) option \<Rightarrow> bool" where
  "safe r \<longleftrightarrow> (\<forall>x w'. r = Some (x, w') \<longrightarrow> streams_ok w')"

definition safely :: "kw option \<Rightarrow> bool" where
  "safely r \<longleftrightarrow> (\<forall>w'. r = Some w' \<longrightarrow> streams_ok w')"

named_theorems typed \<open>operations that keep the streams well typed\<close>

lemma streams_same: "procs w' = procs w \<Longrightarrow> pipes w' = pipes w \<Longrightarrow> cpus w' = cpus w \<Longrightarrow> streams_ok w' = streams_ok w"
  by (simp add: streams_ok_def)

lemma streams_upd:
  assumes "streams_ok w" and "\<And>p. proc_ok p \<Longrightarrow> proc_ok (f p)"
  shows "streams_ok (upd i f w)"
proof (cases "i < length (procs w)")
  case True
  then have "proc_ok (f (procs w ! i))" using assms by (simp add: streams_ok_def)
  moreover have "set ((procs w)[i := f (procs w ! i)]) \<subseteq> insert (f (procs w ! i)) (set (procs w))" by (rule set_update_subset_insert)
  ultimately show ?thesis using assms(1) by (auto simp: streams_ok_def upd_def)
next
  case False
  then show ?thesis using assms(1) by (simp add: streams_ok_def upd_def list_update_beyond)
qed

lemma streams_proc: "streams_ok w \<Longrightarrow> i < MAX_PROCESSES \<Longrightarrow> proc_ok (proc w i)"
  by (simp add: streams_ok_def proc_def)

lemma streams_pipe:
  assumes "streams_ok w" and "\<And>p. pipe_ok p \<Longrightarrow> p = pipes w ! i \<Longrightarrow> pipe_ok (f p)"
  shows "streams_ok (upd_pipe i f w)"
proof (cases "i < length (pipes w)")
  case True
  then have "pipe_ok (f (pipes w ! i))" using assms by (simp add: streams_ok_def)
  moreover have "set ((pipes w)[i := f (pipes w ! i)]) \<subseteq> insert (f (pipes w ! i)) (set (pipes w))" by (rule set_update_subset_insert)
  ultimately show ?thesis using assms(1) by (auto simp: streams_ok_def upd_pipe_def)
next
  case False
  then show ?thesis using assms(1) by (simp add: streams_ok_def upd_pipe_def list_update_beyond)
qed

lemma streams_cpu:
  assumes "streams_ok w" and "\<And>c i. current_proc (g c) = Some i \<Longrightarrow> current_proc c = Some i \<or> i < MAX_PROCESSES"
  shows "streams_ok (upd_cpu g w)"
proof (cases "me w < length (cpus w)")
  case True
  then have "cpus w ! me w \<in> set (cpus w)" by simp
  moreover have "set ((cpus w)[me w := g (cpus w ! me w)]) \<subseteq> insert (g (cpus w ! me w)) (set (cpus w))" by (rule set_update_subset_insert)
  moreover have cur: "i < MAX_PROCESSES" if "c \<in> set (cpus w)" "current_proc c = Some i" for c i
    using that assms(1) unfolding streams_ok_def by blast
  moreover have "current_proc c = Some i \<longrightarrow> i < MAX_PROCESSES" if "c \<in> set ((cpus w)[me w := g (cpus w ! me w)])" for c i
    using calculation that assms(2) by blast
  ultimately show ?thesis using assms(1) by (simp add: streams_ok_def upd_cpu_def)
next
  case False
  then show ?thesis using assms(1) by (simp add: streams_ok_def upd_cpu_def list_update_beyond)
qed

lemma streams_current: "streams_ok w \<Longrightarrow> me w < length (cpus w) \<Longrightarrow> current w = Some c \<Longrightarrow> c < MAX_PROCESSES"
  by (auto simp: streams_ok_def current_def)

text \<open>Operations that change neither streams, nor interrupted calls, nor rings.\<close>

lemma proc_ok_fields [simp]:
  "proc_ok (p\<lparr>pid := a\<rparr>) = proc_ok p" "proc_ok (p\<lparr>parent_pid := a\<rparr>) = proc_ok p" "proc_ok (p\<lparr>is_thread := b\<rparr>) = proc_ok p"
  "proc_ok (p\<lparr>tgid := a\<rparr>) = proc_ok p" "proc_ok (p\<lparr>tstack := x\<rparr>) = proc_ok p" "proc_ok (p\<lparr>tstack_len := x\<rparr>) = proc_ok p"
  "proc_ok (p\<lparr>pstate := st\<rparr>) = proc_ok p" "proc_ok (p\<lparr>stopped := b\<rparr>) = proc_ok p" "proc_ok (p\<lparr>pticks := x\<rparr>) = proc_ok p"
  "proc_ok (p\<lparr>pname := n\<rparr>) = proc_ok p" "proc_ok (p\<lparr>asp := x\<rparr>) = proc_ok p" "proc_ok (p\<lparr>ppml4 := x\<rparr>) = proc_ok p"
  "proc_ok (p\<lparr>entry := x\<rparr>) = proc_ok p" "proc_ok (p\<lparr>kstack := x\<rparr>) = proc_ok p" "proc_ok (p\<lparr>kstack_top := x\<rparr>) = proc_ok p"
  "proc_ok (p\<lparr>resume_kernel := b\<rparr>) = proc_ok p" "proc_ok (p\<lparr>saved_rsp := x\<rparr>) = proc_ok p"
  "proc_ok (p\<lparr>wait_reason := wr\<rparr>) = proc_ok p" "proc_ok (p\<lparr>waiting_for := a\<rparr>) = proc_ok p" "proc_ok (p\<lparr>wake_at := x\<rparr>) = proc_ok p"
  "proc_ok (p\<lparr>exit_code := a\<rparr>) = proc_ok p" "proc_ok (p\<lparr>sig_pending := y\<rparr>) = proc_ok p" "proc_ok (p\<lparr>sig_blocked := y\<rparr>) = proc_ok p"
  "proc_ok (p\<lparr>sig_restart := b\<rparr>) = proc_ok p" "proc_ok (p\<lparr>alarm_at := x\<rparr>) = proc_ok p" "proc_ok (p\<lparr>env := x\<rparr>) = proc_ok p"
  "proc_ok (p\<lparr>env_len := y\<rparr>) = proc_ok p" "proc_ok (p\<lparr>fxstate := bs\<rparr>) = proc_ok p"
  by (simp_all add: proc_ok_def)

lemma proc_ok_zero [simp]: "proc_ok zero_process"
  by (simp add: proc_ok_def zero_process_def stream_ok_def)

lemma proc_ok_init [simp]: "kont_ok (kctx p) \<Longrightarrow> proc_ok (init_process n m nm p)"
  by (simp add: proc_ok_def init_process_def stream_ok_def)

lemma streams_fields [simp]:
  "streams_ok (w\<lparr>vw := v\<rparr>) = streams_ok w" "streams_ok (w\<lparr>me := m\<rparr>) = streams_ok w"
  "streams_ok (w\<lparr>next_pid := n\<rparr>) = streams_ok w" "streams_ok (w\<lparr>rr_last := r\<rparr>) = streams_ok w" "streams_ok (w\<lparr>last_exit_code := n\<rparr>) = streams_ok w"
  "streams_ok (w\<lparr>kframes := k\<rparr>) = streams_ok w" "streams_ok (w\<lparr>envs := e\<rparr>) = streams_ok w" "streams_ok (w\<lparr>calls := cl\<rparr>) = streams_ok w"
  "streams_ok (call x w) = streams_ok w" "streams_ok (put_space a h w) = streams_ok w"
  by (rule streams_same; simp add: call_def put_space_def)+

lemma streams_map: "streams_ok w \<Longrightarrow> (\<And>p. proc_ok p \<Longrightarrow> proc_ok (f p)) \<Longrightarrow> streams_ok (w\<lparr>procs := map f (procs w)\<rparr>)"
  by (auto simp: streams_ok_def)

lemma proc_ok_wake [simp]: "proc_ok (wake P p) = proc_ok p"
  by (simp add: wake_def)

lemma proc_ok_post [simp]: "proc_ok (post w s p) = proc_ok p"
  by (simp add: post_def Let_def)

text \<open>Teardown keeps them, by the interface every such relation has.\<close>

interpretation typing: teardown "\<lambda>w w'. streams_ok w \<longrightarrow> streams_ok w'"
proof (unfold_locales, goal_cases)
  case (3 f w i)
  then show ?case by (intro impI streams_pipe) (simp_all add: pipe_ok_def)
next
  case (5 w P)
  then show ?case by (simp add: streams_map)
next
  case (8 st w i)
  then show ?case by (intro impI streams_upd) (auto simp: proc_ok_def stream_ok_def)
next
  case (9 st w i)
  then show ?case by (intro impI streams_upd) (auto simp: proc_ok_def stream_ok_def)
qed (auto intro: streams_upd)

lemma safeI: "(\<And>x w'. r = Some (x, w') \<Longrightarrow> streams_ok w') \<Longrightarrow> safe r"
  by (simp add: safe_def)

lemma safe_Some [simp]: "safe (Some r) = streams_ok (snd r)"
  by (cases r) (auto simp: safe_def)

lemma safe_None [simp]: "safe None" "safely None"
  by (simp_all add: safe_def safely_def)

lemma safely_Some [simp]: "safely (Some w) = streams_ok w"
  by (auto simp: safely_def)

lemma safe_bind: "safe m \<Longrightarrow> (\<And>x w. m = Some (x, w) \<Longrightarrow> streams_ok w \<Longrightarrow> safe (f (x, w))) \<Longrightarrow> safe (Option.bind m f)"
  by (cases m) (auto simp: safe_def)

lemma safely_bind: "safely m \<Longrightarrow> (\<And>w. m = Some w \<Longrightarrow> streams_ok w \<Longrightarrow> safely (f w)) \<Longrightarrow> safely (Option.bind m f)"
  by (cases m) (auto simp: safely_def)

lemma safe_bindly: "safely m \<Longrightarrow> (\<And>w. m = Some w \<Longrightarrow> streams_ok w \<Longrightarrow> safe (f w)) \<Longrightarrow> safe (Option.bind m f)"
  by (cases m) (auto simp: safe_def safely_def)

lemma safely_of: "safe m \<Longrightarrow> (\<And>x w. m = Some (x, w) \<Longrightarrow> streams_ok w \<Longrightarrow> safely (f (x, w))) \<Longrightarrow> safely (Option.bind m f)"
  by (cases m) (auto simp: safe_def safely_def)

text \<open>Work on memory alone, whatever it does, leaves streams as they are.\<close>

lemma safe_pure:
  fixes m :: "('a \<times> vmw) option" and n :: "vmw option"
  shows "(\<And>x. safe (f x)) \<Longrightarrow> safe (Option.bind m f)" and "(\<And>x. safe (g x)) \<Longrightarrow> safe (Option.bind n g)"
  by (cases m, simp_all) (cases n, simp_all)

lemma safe_Pair [simp]: "safe (map_option (Pair x) m) = safely m"
  by (cases m) simp_all

subsection \<open>Small operations\<close>

lemma typed_heap [typed]: "streams_ok w \<Longrightarrow> safe (k_alloc n w)" "streams_ok w \<Longrightarrow> safely (k_free a w)" "streams_ok w \<Longrightarrow> safely (space_unref a w)"
  by (auto simp: safe_def safely_def k_alloc_def k_free_def space_unref_def)

lemma typed_on_mem [typed]: "streams_ok w \<Longrightarrow> safe (on_mem f w)"
  by (auto simp: safe_def on_mem_def)

lemma typed_sends [typed]:
  "streams_ok w \<Longrightarrow> streams_ok (snd (signal_send n s w))" "streams_ok w \<Longrightarrow> streams_ok (snd (process_kill n w))"
  "streams_ok w \<Longrightarrow> streams_ok (process_wake_pipe w)" "streams_ok w \<Longrightarrow> streams_ok (process_wake_key w)"
  "streams_ok w \<Longrightarrow> streams_ok (wake_joiners_of d w)" "streams_ok w \<Longrightarrow> streams_ok (signal_post po s w)"
  using typing.signal_send typing.wake_pipe typing.wake_key typing.wake_joiners typing.signal_post by (auto simp: process_kill_def)

lemma typed_proc_reap [typed]: "streams_ok w \<Longrightarrow> safely (proc_reap i w)"
  unfolding proc_reap_def by (rule safely_bind) (auto intro: typed streams_upd)

lemma typed_proc_abandon [typed]: "streams_ok w \<Longrightarrow> safely (proc_abandon i w)"
  unfolding proc_abandon_def by (rule safely_bind) (auto intro!: typed streams_upd)

lemma typed_reap_thread [typed]: "streams_ok w \<Longrightarrow> safely (reap_thread i w)"
  unfolding reap_thread_def by (auto intro!: safely_bind typed streams_upd)

lemma typed_reap_threads: "streams_ok w \<Longrightarrow> safely (reap_threads is w)"
  by (induction "is" arbitrary: w) (auto intro!: safely_bind typed_reap_thread)

lemma typed_reap_dead_threads [typed]: "streams_ok w \<Longrightarrow> safely (reap_dead_threads w)"
  by (simp add: reap_dead_threads_def typed_reap_threads)

lemma typed_end_thread [typed]: "streams_ok w \<Longrightarrow> safely (end_thread d w)"
  by (auto simp: safely_def end_thread_def Let_def intro!: typed split: if_splits)

lemma typed_exit [typed]:
  assumes "streams_ok w"
  shows "safely (process_notify_exit code w)"
proof -
  have e: "streams_ok v \<Longrightarrow> streams_ok (end_program d v)" for d v using typing.end_program by blast
  have u: "streams_ok v \<Longrightarrow> safely (map_option (upd d (\<lambda>p. p\<lparr>asp := 0, ppml4 := 0\<rparr>)) (space_unref x v))" for d v x
    by (auto simp: safely_def space_unref_def intro!: streams_upd)
  show ?thesis unfolding process_notify_exit_def Let_def using assms
    by (auto split: option.split intro!: safely_bind typed streams_upd streams_cpu e u)
qed

lemma typed_signal_check [typed]:
  assumes "streams_ok w"
  shows "safe (signal_check w)"
proof -
  have "streams_ok (upd c (\<lambda>_. p) w)" if cs: "check_signals h (proc w c) = (r, p)" for c h r p
  proof -
    obtain a b where "p = (proc w c)\<lparr>sig_pending := a, stopped := b\<rparr>" using check_signals_keeps [OF cs] by blast
    then have "upd c (\<lambda>_. p) w = upd c (\<lambda>p. p\<lparr>sig_pending := a, stopped := b\<rparr>) w" by (simp add: upd_def proc_def)
    then show ?thesis using assms by (auto intro: streams_upd)
  qed
  then show ?thesis using assms unfolding signal_check_def by (auto split: option.split prod.split intro!: typed)
qed

subsection \<open>Signals\<close>

lemma typed_deliver [typed]: "streams_ok w \<Longrightarrow> safe (deliver c sig h sf w)"
  unfolding deliver_def Let_def by (auto intro!: safe_pure streams_upd split: prod.split)

lemma typed_syscall_return [typed]: "streams_ok w \<Longrightarrow> safe (signal_on_syscall_return f num ret w)"
  unfolding signal_on_syscall_return_def Let_def deliver_failed_def
  by (auto split: option.split intro!: safe_bind typed streams_upd)

lemma typed_interrupt_return [typed]: "streams_ok w \<Longrightarrow> safe (signal_on_interrupt_return junk f w)"
  unfolding signal_on_interrupt_return_def Let_def deliver_failed_def
  by (auto split: option.split intro!: safe_bind typed)

lemma typed_from_fault:
  assumes "streams_ok w" and "signal_from_fault junk f n w = Some (b, g, w')"
  shows "streams_ok w'"
proof -
  have u: "streams_ok (upd c (\<lambda>p. p\<lparr>sig_pending := sig_pending p OR SIGBIT sig\<rparr>) w)" for c sig
    using assms(1) by (rule streams_upd) simp
  have "w' = w \<or> (\<exists>c sig. signal_on_interrupt_return junk f (upd c (\<lambda>p. p\<lparr>sig_pending := sig_pending p OR SIGBIT sig\<rparr>) w) = Some (g, w'))"
    using assms(2) unfolding signal_from_fault_def Let_def by (simp split: option.splits if_splits) blast+
  then show ?thesis using typed_interrupt_return [OF u] assms(1) unfolding safe_def by blast
qed

lemma typed_signal_return [typed]: "streams_ok w \<Longrightarrow> safe (signal_return f a w)"
  unfolding signal_return_def Let_def by (auto split: option.split prod.split intro!: safe_pure streams_upd streams_cpu)

subsection \<open>Blocking, pipes and waiting\<close>

lemma typed_go_idle [typed]: "streams_ok w \<Longrightarrow> streams_ok (snd (go_idle w))"
  by (auto simp: go_idle_def intro: streams_cpu)

lemma proc_ok_kctx: "proc_ok p \<Longrightarrow> kont_ok k \<Longrightarrow> proc_ok (p\<lparr>kctx := k\<rparr>)"
  by (simp add: proc_ok_def)

lemma typed_block_current [typed]: "streams_ok w \<Longrightarrow> kont_ok k \<Longrightarrow> streams_ok (snd (block_current c k w))"
  unfolding block_current_def by (rule typed_go_idle) (auto intro!: streams_upd proc_ok_kctx)

lemma typed_block_on [typed]: "streams_ok w \<Longrightarrow> kont_ok k \<Longrightarrow> streams_ok (snd (block_on c why k w))"
  unfolding block_on_def by (auto intro!: typed streams_upd)

lemma typed_pipe_write [typed]: "streams_ok w \<Longrightarrow> idx < MAX_PIPES \<Longrightarrow> streams_ok (snd (pipe_write c bs written idx w))"
proof (induction c bs written idx w rule: pipe_write.induct)
  case (1 c bs written idx w)
  show ?case
  proof (cases "bs = [] \<or> \<not> read_open (pipes w ! idx) \<or> \<not> pcount (pipes w ! idx) < PIPE_BUF_SIZE")
    case True
    then show ?thesis using 1(2,3) by (subst pipe_write.simps) (auto simp: Let_def intro: typed_block_on)
  next
    case False
    then have f: "bs \<noteq> []" "\<not> \<not> read_open (pipes w ! idx)" "pcount (pipes w ! idx) < PIPE_BUF_SIZE" by simp_all
    obtain bs1 p1 where b: "put_bytes bs (pipes w ! idx) = (bs1, p1)" by fastforce
    have "pipe_ok (pipes w ! idx)" using 1(2,3) by (simp add: streams_ok_def)
    then have "pipe_ok p1" using put_bytes_spec b by blast
    then have "streams_ok (process_wake_pipe (upd_pipe idx (\<lambda>_. p1) w))" using 1(2) by (auto intro!: typed streams_pipe)
    then have "streams_ok (snd (pipe_write c bs1 (written + (length bs - length bs1)) idx (process_wake_pipe (upd_pipe idx (\<lambda>_. p1) w))))"
      using 1(1) [OF f(1) refl f(2,3) b [symmetric]] 1(3) by blast
    then show ?thesis using f b by (subst pipe_write.simps) (simp add: Let_def)
  qed
qed

lemma typed_pipe_read [typed]:
  assumes "streams_ok w" and "idx < MAX_PIPES"
  shows "streams_ok (snd (pipe_read c idx len w))"
proof -
  obtain bs p1 where b: "get_bytes len (pipes w ! idx) = (bs, p1)" by fastforce
  have "pipe_ok (pipes w ! idx)" using assms by (simp add: streams_ok_def)
  then have "pipe_ok p1" using get_bytes_spec b by blast
  then have "streams_ok (process_wake_pipe (upd_pipe idx (\<lambda>_. p1) w))" using assms(1) by (auto intro!: typed streams_pipe)
  then show ?thesis using assms b by (auto simp: pipe_read_def Let_def intro: typed_block_on)
qed

lemma stream_pipe: "stream_ok s \<Longrightarrow> kind s = STREAM_PIPE \<Longrightarrow> nat (handle s) < MAX_PIPES"
  by (auto simp: stream_ok_def)

lemma typed_read_stdin:
  assumes "streams_ok w" and "\<And>c. current w = Some c \<Longrightarrow> c < MAX_PROCESSES"
  shows "streams_ok (snd (process_read_stdin x len w))"
  using assms(1) streams_proc [OF assms] unfolding process_read_stdin_def proc_ok_def
  by (auto split: option.split stream_kind.split intro!: typed_pipe_read stream_pipe)

lemma typed_write_stdout:
  assumes "streams_ok w" and "\<And>c. current w = Some c \<Longrightarrow> c < MAX_PROCESSES"
  shows "streams_ok (snd (process_write_stdout x bs len w))"
  using assms(1) streams_proc [OF assms] unfolding process_write_stdout_def proc_ok_def
  by (auto split: option.split stream_kind.split intro!: typed_pipe_write stream_pipe)

lemma typed_wait [typed]:
  assumes "streams_ok w"
  shows "safe (process_wait n w)"
proof -
  have "streams_ok (snd (block_on c WAIT_CHILD (In_wait n) (upd c (\<lambda>p. p\<lparr>waiting_for := n\<rparr>) w)))" for c
    using assms by (intro typed_block_on streams_upd) simp_all
  then show ?thesis using assms typed_proc_reap unfolding process_wait_def by (simp split: option.split)
qed

lemma typed_join [typed]:
  assumes "streams_ok w"
  shows "safe (process_thread_join n w)"
proof -
  have b: "streams_ok v \<Longrightarrow> streams_ok (snd (block_on c WAIT_THREAD (In_join n) (upd c (\<lambda>p. p\<lparr>waiting_for := n\<rparr>) v)))" for c v
    by (intro typed_block_on streams_upd) simp_all
  show ?thesis
  proof (cases "current w")
    case None
    then show ?thesis using assms by (simp add: process_thread_join_def)
  next
    case (Some c)
    show ?thesis unfolding process_thread_join_def Some option.simps
      by (rule safe_bindly [OF typed_reap_dead_threads [OF assms]]) (simp add: b typed_reap_dead_threads split: option.split)
  qed
qed

subsection \<open>Going on, and choosing\<close>

lemma typed_woken [typed]: "streams_ok w \<Longrightarrow> safe (woken c w)"
  unfolding woken_def Let_def by (rule safe_bind [OF typed_signal_check]) (auto intro: streams_upd)

lemma typed_resume_kont:
  assumes "streams_ok w" and "kont_ok k"
  shows "safe (resume_kont c k w)"
proof (cases "k = In_yield")
  case True
  then show ?thesis using assms by (simp add: resume_kont_def)
next
  case False
  have u: "streams_ok v \<Longrightarrow> streams_ok (upd c (\<lambda>p. p\<lparr>sig_restart := False\<rparr>) v)" for v by (rule streams_upd) simp_all
  show ?thesis unfolding resume_kont_def if_not_P [OF False]
    by (rule safe_bind [OF typed_woken [OF assms(1)]])
       (use assms(2) in \<open>auto simp: u typed_wait typed_join typed_pipe_write typed_pipe_read split: option.split kont.split\<close>)
qed

lemma typed_activate: "streams_ok w \<Longrightarrow> i < MAX_PROCESSES \<Longrightarrow> streams_ok (activate i w)"
  unfolding activate_def Let_def by (auto intro!: streams_upd streams_cpu)

lemma typed_put_down: "streams_ok w \<Longrightarrow> streams_ok (put_down c w)"
  unfolding put_down_def by (auto intro: streams_upd)

lemma pick_slot: "pick_next a w = Some i \<Longrightarrow> i < MAX_PROCESSES"
  by (auto simp: pick_next_def find_Some_iff MAX_PROCESSES_def)

lemma typed_kont: "streams_ok w \<Longrightarrow> i < MAX_PROCESSES \<Longrightarrow> kont_ok (kctx (proc w i))"
  using streams_proc by (auto simp: proc_ok_def)

lemma typed_resume_process:
  assumes "streams_ok w" and "i < MAX_PROCESSES"
  shows "safe (resume_process i w)"
  using typed_resume_kont [OF typed_activate [OF assms] typed_kont [OF typed_activate [OF assms] assms(2)]] typed_activate [OF assms]
  by (simp add: resume_process_def Let_def)

lemma typed_bend_frame: "streams_ok w \<Longrightarrow> safe (bend_frame junk at w)"
  using typed_interrupt_return [of w junk "kframes w at"]
  by (auto simp: bend_frame_def safe_def split: option.splits)

lemma typed_tick:
  assumes w: "streams_ok w"
  shows "safe (sched_on_tick junk wants r sel w)"
proof (cases "current w")
  case None
  then show ?thesis using w by (simp add: sched_on_tick_def)
next
  case (Some c)
  have g: "streams_ok v \<Longrightarrow> streams_ok (snd (go_idle (put_down c v)))" for v by (intro typed_go_idle typed_put_down)
  show ?thesis unfolding sched_on_tick_def Some option.simps
    using w by (auto simp: Let_def g intro!: safe_bind typed_signal_check streams_upd typed_bend_frame typed_resume_kont typed_kont typed_activate typed_put_down
        intro: pick_slot split: option.split)
qed

lemma typed_cpu_loop:
  assumes "streams_ok w"
  shows "safe (cpu_loop wm w)"
proof -
  let ?v = "upd_cpu (\<lambda>c. c\<lparr>current_proc := None, cpu_kstack := 0\<rparr>) w"
  have v: "streams_ok ?v" using assms by (rule streams_cpu) simp
  have "safe (map_option (\<lambda>(f, w1). (Runs f, w1)) (resume_process n ?v))" if "pick_next None ?v = Some n" for n
    using typed_resume_process [OF v pick_slot [OF that]] by (auto simp: safe_def)
  then show ?thesis using v unfolding cpu_loop_def Let_def by (auto split: option.split intro!: streams_cpu)
qed

subsection \<open>Making processes\<close>

lemma typed_env_inherit: "streams_ok w \<Longrightarrow> safely (env_inherit en i w)"
  unfolding env_inherit_def Let_def by (rule safely_of [OF typed_heap(1)]) (auto intro!: streams_upd)

lemma env_inherit_kctx:
  assumes "env_inherit en i (upd i (\<lambda>_. zero_process) w) = Some w'"
  shows "kctx (proc w' i) = kctx (proc w i) \<or> kctx (proc w' i) = In_none"
proof (cases "i < length (procs w)")
  case True
  then show ?thesis using assms
    by (auto simp: env_inherit_def Let_def k_alloc_def Option.bind_eq_Some_conv proc_def upd_def zero_process_def split: if_splits)
next
  case False
  then show ?thesis using assms
    by (auto simp: env_inherit_def Let_def k_alloc_def Option.bind_eq_Some_conv proc_def upd_def list_update_beyond split: if_splits)
qed

lemma typed_proc_alloc: "streams_ok w \<Longrightarrow> safe (proc_alloc en name w)"
proof -
  assume w: "streams_ok w"
  have e: "streams_ok v \<Longrightarrow> safely (env_inherit en i (upd i (\<lambda>_. zero_process) v))" for v i
    by (intro typed_env_inherit streams_upd) simp_all
  have k: "streams_ok v \<Longrightarrow> streams_ok (upd i (init_process n m name) (v\<lparr>next_pid := x\<rparr>))" for v i n m x
  proof (rule streams_upd)
    fix p assume "proc_ok p"
    then show "proc_ok (init_process n m name p)" by (intro proc_ok_init) (simp add: proc_ok_def)
  qed simp
  show ?thesis using w unfolding proc_alloc_def
    by (auto split: option.split intro!: safe_bindly typed_heap(2) e k)
qed

lemma typed_give_up: "streams_ok w \<Longrightarrow> safe (give_up i w)"
  by (simp add: give_up_def typed_proc_abandon)

lemma typed_initial_frame: "streams_ok w \<Longrightarrow> streams_ok (build_initial_frame i sp w)"
  unfolding build_initial_frame_def Let_def by (rule streams_upd) simp_all

lemma typed_first_frame: "streams_ok w \<Longrightarrow> streams_ok (snd (first_frame i sp v w))"
proof -
  assume "streams_ok w"
  then have "streams_ok (build_initial_frame i sp (w\<lparr>vw := v\<rparr>))" by (intro typed_initial_frame) simp
  then show ?thesis unfolding first_frame_def Let_def by (auto intro: streams_upd)
qed

lemma proc_ok_set_kstack [simp]: "proc_ok (set_kstack ks p) = proc_ok p"
  by (simp add: set_kstack_def)

lemma typed_give_stacks: "streams_ok w \<Longrightarrow> safe (give_stacks i pm argv w)"
  unfolding give_stacks_def
  by (auto intro!: safe_bind [OF typed_on_mem] safe_bind [OF typed_heap(1)] safe_pure typed_give_up typed_first_frame streams_upd split: prod.split)

lemma typed_load_image: "streams_ok w \<Longrightarrow> safe (load_image i pm d sz argv w)"
  unfolding load_image_def
  by (auto intro!: safe_bind [OF typed_on_mem] typed_give_up typed_give_stacks streams_upd split: option.split)

lemma typed_spawn_image: "streams_ok w \<Longrightarrow> safe (process_spawn_image en p4 p3 name d sz argv w)"
  unfolding process_spawn_image_def
  by (auto intro!: safe_bind [OF typed_proc_alloc] safe_pure typed_load_image streams_upd split: option.split prod.split)

lemma typed_spawn: "streams_ok w \<Longrightarrow> safe (process_spawn en p4 p3 fs path argv w)"
  unfolding process_spawn_def Let_def
  by (auto intro!: safe_bind [OF typed_heap(1)] safe_bind [OF typed_spawn_image] typed_heap(2) split: option.split)

lemma stream_ok_ready: "pipe_ready i w \<Longrightarrow> stream_ok \<lparr>kind = k, handle = i\<rparr>"
  by (simp add: pipe_ready_def stream_ok_def)

lemma stream_ok_file [simp]: "stream_ok \<lparr>kind = STREAM_FILE, handle = fd\<rparr>"
  by (simp add: stream_ok_def)

lemma typed_attach: "streams_ok w \<Longrightarrow> streams_ok (pipe_attach_writer i n w)" "streams_ok w \<Longrightarrow> streams_ok (pipe_attach_reader i n w)"
  unfolding pipe_attach_writer_def pipe_attach_reader_def by (auto intro!: streams_pipe simp: pipe_ok_def)

lemma typed_set_streams:
  "streams_ok w \<Longrightarrow> stream_ok s \<Longrightarrow> streams_ok (upd c (\<lambda>p. p\<lparr>pin := s\<rparr>) w)"
  "streams_ok w \<Longrightarrow> stream_ok s \<Longrightarrow> streams_ok (upd c (\<lambda>p. p\<lparr>pout := s\<rparr>) w)"
  by (rule streams_upd; simp add: proc_ok_def)+

lemma typed_wire_out: "streams_ok w \<Longrightarrow> streams_ok (wire_out fs uout path app op n c w)"
  unfolding wire_out_def Let_def by (auto intro!: typed_attach typed_set_streams dest: stream_ok_ready)

lemma typed_unspawn: "streams_ok w \<Longrightarrow> safe (unspawn c w)"
  unfolding unspawn_def Let_def by (rule safe_bindly [OF typed_heap(3)]) (auto intro!: streams_upd typed_heap(2))

lemma typed_wire_child: "streams_ok w \<Longrightarrow> safe (wire_child fs uin uout ip op app ipi opi n c w)"
  unfolding wire_child_def Let_def
  by (auto intro!: typed_wire_out typed_attach typed_set_streams typed_unspawn dest: stream_ok_ready)

lemma typed_spawn_from_user: "streams_ok w \<Longrightarrow> safe (spawn_from_user en p4 p3 fs a b n i u app x y w)"
  unfolding spawn_from_user_def
  by (auto intro!: safe_pure safe_bind [OF typed_spawn] typed_wire_child split: option.split prod.split)

lemma typed_spawn_user:
  "streams_ok w \<Longrightarrow> safe (process_spawn_user en p4 p3 fs a b n w)" "streams_ok w \<Longrightarrow> safe (process_spawn_user2 en p4 p3 fs r w)"
  unfolding process_spawn_user_def process_spawn_user2_def Let_def
  by (auto intro!: safe_pure typed_spawn_from_user split: prod.split)

lemma typed_thread_ready: "streams_ok w \<Longrightarrow> streams_ok (snd (thread_ready t st arg w))"
  unfolding thread_ready_def Let_def by (auto intro!: streams_upd typed_initial_frame)

lemma typed_drop_thread: "streams_ok w \<Longrightarrow> safe (drop_thread t w)"
  using typed_heap(3) [of w "asp (proc w t)"] by (auto simp: drop_thread_def safe_def safely_def intro!: streams_upd)

lemma typed_thread_stacks: "streams_ok w \<Longrightarrow> safe (thread_stacks t arg w)"
  unfolding thread_stacks_def Let_def
  by (auto intro!: safe_bind [OF typed_heap(1)] safe_bindly [OF typed_heap(2)] typed_drop_thread typed_thread_ready streams_upd split: prod.split)

lemma typed_thread_create:
  assumes w: "streams_ok w" and c: "\<And>c. current w = Some c \<Longrightarrow> c < MAX_PROCESSES"
  shows "safe (process_thread_create en e a w)"
proof -
  have sh: "streams_ok (upd t (share_with (proc v c) e) (v\<lparr>vw := x\<rparr>))" if "streams_ok v" "c < MAX_PROCESSES" for v t c x
  proof (rule streams_upd)
    show "proc_ok (share_with (proc v c) e p)" if "proc_ok p" for p
      using that streams_proc [OF \<open>streams_ok v\<close> \<open>c < MAX_PROCESSES\<close>] by (simp add: share_with_def proc_ok_def)
  qed (use that in simp)
  show ?thesis using w c unfolding process_thread_create_def Let_def
    by (auto split: option.split intro!: safe_bindly [OF typed_reap_dead_threads] safe_bind [OF typed_proc_alloc] typed_thread_stacks sh)
qed

subsection \<open>Every entry to the kernel\<close>

lemma typed_small [typed]:
  "streams_ok w \<Longrightarrow> streams_ok (snd (process_suspend n w))" "streams_ok w \<Longrightarrow> streams_ok (snd (process_resume n w))"
  "streams_ok w \<Longrightarrow> streams_ok (process_make_session_root n w)" "streams_ok w \<Longrightarrow> streams_ok (snd (signal_set_trampoline a w))"
  "streams_ok w \<Longrightarrow> streams_ok (snd (signal_mask how m w))" "streams_ok w \<Longrightarrow> streams_ok (snd (signal_alarm ms w))"
  "streams_ok w \<Longrightarrow> streams_ok (signal_no_restart w)" "streams_ok w \<Longrightarrow> streams_ok (snd (process_sleep_ms ms w))"
  "streams_ok w \<Longrightarrow> streams_ok (snd (process_block_on_key w))" "streams_ok w \<Longrightarrow> streams_ok (snd (process_yield w))"
  by (auto simp: process_suspend_def process_resume_def process_make_session_root_def signal_set_trampoline_def signal_mask_def
        signal_alarm_def signal_no_restart_def process_sleep_ms_def process_block_on_key_def process_yield_def Let_def
        intro!: streams_upd typed_block_on typed_block_current split: option.split)

lemma typed_set_handler [typed]: "streams_ok w \<Longrightarrow> streams_ok (snd (signal_set_handler s h w))"
  by (auto simp: signal_set_handler_def Let_def intro!: streams_upd split: option.split)

lemma typed_pipe_objects [typed]: "streams_ok w \<Longrightarrow> streams_ok (snd (pipe_create w))" "streams_ok w \<Longrightarrow> streams_ok (pipe_close i w)"
  by (auto simp: pipe_create_def pipe_close_def pipe_ok_def intro!: streams_pipe typed_sends(3) split: option.split)

lemma typed_env_set [typed]: "streams_ok w \<Longrightarrow> safe (process_env_set b len w)"
  unfolding process_env_set_def Let_def
  by (auto split: option.split intro!: safe_bind [OF typed_heap(1)] safe_bindly typed_heap(2) streams_upd)

lemma typed_process_tick [typed]: "streams_ok w \<Longrightarrow> streams_ok (process_tick now w)"
proof -
  have a: "streams_ok v \<Longrightarrow> streams_ok (alarm_step now i v)" for v i
    by (auto simp: alarm_step_def intro!: typed_sends(6) streams_upd split: option.split)
  have f: "streams_ok v \<Longrightarrow> streams_ok (fold (alarm_step now) is v)" for v "is"
    by (induction "is" arbitrary: v) (simp_all add: a)
  assume "streams_ok w"
  then have "streams_ok (w\<lparr>procs := map (wake P) (procs w)\<rparr>)" for P by (intro streams_map) simp_all
  then show ?thesis unfolding process_tick_def signal_tick_def by (rule f)
qed

lemma safely_out: "safely (out r) = safe r"
  by (auto simp: safely_def safe_def out_def)

lemma typed_event:
  assumes w: "streams_ok w" and c: "\<And>c. current w = Some c \<Longrightarrow> c < MAX_PROCESSES"
  shows "safely (k_event ev w)"
proof (cases ev)
  case (Ev_fault junk f n)
  then show ?thesis using typed_from_fault [OF w] by (auto simp: safely_def)
next
  case (Ev_thread_exit n)
  then show ?thesis using typed_exit [OF w] by (simp add: process_thread_exit_def safely_out)
next
  case (Ev_read n bs len)
  then show ?thesis using typed_read_stdin [OF w c] by simp
next
  case (Ev_write n bs len)
  then show ?thesis using typed_write_stdout [OF w c] by simp
next
  case (Ev_thread en e a)
  then show ?thesis using typed_thread_create [OF w c] by (simp add: safely_out)
qed (use w in \<open>simp_all add: safely_out typed typed_spawn typed_spawn_user typed_tick typed_cpu_loop\<close>)

lemma typed_run: "k_run evs w = Some w' \<Longrightarrow> streams_ok w \<Longrightarrow> streams_ok w'"
proof (induction evs arbitrary: w)
  case (Cons x evs)
  obtain core ev where x: "x = (core, ev)" by (cases x)
  have l: "core < length (cpus w)" using Cons.prems(1) x by (simp split: if_splits)
  then obtain w1 where w1: "k_event ev (w\<lparr>me := core\<rparr>) = Some w1" "k_run evs w1 = Some w'"
    using Cons.prems(1) x by (auto simp: Option.bind_eq_Some_conv)
  have "streams_ok (w\<lparr>me := core\<rparr>)" using Cons.prems(2) by simp
  then have "safely (k_event ev (w\<lparr>me := core\<rparr>))" using streams_current [of "w\<lparr>me := core\<rparr>"] l by (intro typed_event) simp_all
  then show ?case using Cons.IH [OF w1(2)] w1(1) by simp
qed simp

text \<open>
  C33. Pipes are accessed within bounds. Over every sequence of events on any of the cores, every ring's positions stay inside its buffer with the
  count they imply, every stream of kind pipe names one of the pipes, and so does every interrupted pipe read or write that a sleeping process will go on with.
\<close>

theorem streams_well_typed:
  assumes "streams_ok w" and "k_run evs w = Some w'"
  shows "(\<forall>p \<in> set (pipes w'). pcount p \<le> PIPE_BUF_SIZE \<and> head p < PIPE_BUF_SIZE \<and> tail p < PIPE_BUF_SIZE
      \<and> (unat (tail p) + unat (pcount p)) mod 4096 = unat (head p))
    \<and> (\<forall>p \<in> set (procs w'). \<forall>s \<in> {pin p, pout p}. kind s = STREAM_PIPE \<longrightarrow> 0 \<le> handle s \<and> nat (handle s) < length (pipes w'))
    \<and> (\<forall>p \<in> set (procs w'). \<forall>i bs n. (kctx p = In_pipe_write i bs n \<longrightarrow> i < length (pipes w')) \<and> (kctx p = In_pipe_read i n \<longrightarrow> i < length (pipes w')))"
proof -
  have ok: "streams_ok w'" by (rule typed_run [OF assms(2,1)])
  have "pcount p \<le> PIPE_BUF_SIZE \<and> head p < PIPE_BUF_SIZE \<and> tail p < PIPE_BUF_SIZE \<and> (unat (tail p) + unat (pcount p)) mod 4096 = unat (head p)"
    if "pipe_ok p" for p
    using that by (simp add: pipe_ok_def PIPE_BUF_SIZE_def word_le_nat_alt word_less_nat_alt)
  moreover have "0 \<le> handle s \<and> nat (handle s) < length (pipes w')" if "stream_ok s" "kind s = STREAM_PIPE" for s
    using that ok by (auto simp: stream_ok_def streams_ok_def)
  moreover have "(kctx p = In_pipe_write i bs n \<longrightarrow> i < length (pipes w')) \<and> (kctx p = In_pipe_read i n \<longrightarrow> i < length (pipes w'))"
    if "kont_ok (kctx p)" for p i bs n
    using that ok by (auto simp: streams_ok_def)
  ultimately show ?thesis using ok unfolding streams_ok_def proc_ok_def by (intro conjI ballI allI) auto
qed

lemma sched_demo_streams: "streams_ok sched_demo"
  by (simp add: streams_ok_def sched_demo_def MAX_PROCESSES_def MAX_PIPES_def pipe_ok_def demo_pipe_def demo_proc_def idle_cpu_def)

theorem streams_well_typed_witness:
  "head (pipes both_running ! 0) < PIPE_BUF_SIZE \<and> pcount (pipes both_running ! 0) \<le> PIPE_BUF_SIZE"
proof -
  note r = conjunct1 [OF demo_runs]
  have "0 < length (pipes both_running)"
    using typed_run [OF r sched_demo_streams] by (simp add: streams_ok_def MAX_PIPES_def)
  then have "pipes both_running ! 0 \<in> set (pipes both_running)" by (rule nth_mem)
  then show ?thesis using streams_well_typed [OF sched_demo_streams r] by blast
qed

end
