(* ===== verification/Signal_Check.thy ===== *)
theory Signal_Check
  imports Sched_Inv
begin

text \<open>
  What the safe point does with pending signals: the loop of \<^verbatim>\<open>signal_check\<close>, which looks for the lowest
  signal it has to act on afresh each time round, is one pass over the signals in ascending order, and its effect has a closed form.
\<close>

subsection \<open>One pass\<close>

definition acts :: "(int \<Rightarrow> u64) \<Rightarrow> process \<Rightarrow> int \<Rightarrow> bool" where
  "acts h p s \<longleftrightarrow> (sig_pending p AND NOT (sig_blocked p)) AND SIGBIT s \<noteq> 0 \<and> \<not> (is_handler (h s) \<and> SIGBIT s AND UNCATCHABLE = 0)"

definition sig_effect :: "(int \<Rightarrow> u64) \<Rightarrow> int \<Rightarrow> dfl" where
  "sig_effect h s = (if h s = SIG_IGN_ADDR \<and> SIGBIT s AND UNCATCHABLE = 0 then DFL_IGN else default_action s)"

fun one_pass :: "(int \<Rightarrow> u64) \<Rightarrow> int list \<Rightarrow> process \<Rightarrow> int option \<times> process" where
  "one_pass h [] p = (None, p)"
| "one_pass h (s # rest) p =
     (if \<not> acts h p s then one_pass h rest p
      else case sig_effect h s of
             DFL_TERM \<Rightarrow> (Some s, unpend s p)
           | DFL_IGN \<Rightarrow> one_pass h rest (unpend s p)
           | DFL_CONT \<Rightarrow> one_pass h rest ((unpend s p)\<lparr>stopped := False\<rparr>)
           | DFL_STOP \<Rightarrow> one_pass h rest ((unpend s p)\<lparr>stopped := True\<rparr>))"

lemma due_find: "due h p = find (acts h p) [1..int NSIG - 1]"
proof -
  have "acts h p = (\<lambda>i. (sig_pending p AND NOT (sig_blocked p)) AND SIGBIT i \<noteq> 0 \<and> \<not> (is_handler (h i) \<and> SIGBIT i AND UNCATCHABLE = 0))"
    by (rule ext) (rule acts_def)
  then show ?thesis by (simp only: due_def Let_def)
qed

lemma acts_bits:
  assumes "1 \<le> s" and "s < 32"
  shows "acts h p s \<longleftrightarrow> bit (sig_pending p) (nat s) \<and> \<not> bit (sig_blocked p) (nat s) \<and> \<not> (is_handler (h s) \<and> SIGBIT s AND UNCATCHABLE = 0)"
  using assms and_SIGBIT [of s "sig_pending p AND NOT (sig_blocked p)"] by (auto simp: acts_def bit_and_iff bit_not_iff nat_less_iff)

lemma acts_stopped [simp]: "acts h (p\<lparr>stopped := b\<rparr>) s = acts h p s"
  by (simp add: acts_def)

lemma acts_unpend:
  assumes "1 \<le> s" "s < 32" "1 \<le> t" "t < 32"
  shows "acts h (unpend s p) t \<longleftrightarrow> acts h p t \<and> t \<noteq> s"
proof -
  have "bit (sig_pending (unpend s p)) (nat t) \<longleftrightarrow> bit (sig_pending p) (nat t) \<and> t \<noteq> s"
    using assms by (auto simp: unpend_def bit_and_iff bit_not_iff SIGBIT_bit)
  then show ?thesis using assms by (simp add: acts_bits) (auto simp: unpend_def)
qed

lemma check_signals_step:
  "check_signals h p =
     (case due h p of
        None \<Rightarrow> (None, p)
      | Some s \<Rightarrow> (case sig_effect h s of
             DFL_TERM \<Rightarrow> (Some s, unpend s p)
           | DFL_IGN \<Rightarrow> check_signals h (unpend s p)
           | DFL_CONT \<Rightarrow> check_signals h ((unpend s p)\<lparr>stopped := False\<rparr>)
           | DFL_STOP \<Rightarrow> check_signals h ((unpend s p)\<lparr>stopped := True\<rparr>)))"
  by (subst check_signals.simps) (auto simp: sig_effect_def Let_def split: option.split dfl.split)

lemma find_append: "find P (xs @ ys) = (case find P xs of None \<Rightarrow> find P ys | Some x \<Rightarrow> Some x)"
  by (induction xs) auto

lemma check_signals_rest:
  assumes "[1..int NSIG - 1] = done_ones @ rest" and "\<forall>s \<in> set done_ones. \<not> acts h p s"
  shows "check_signals h p = one_pass h rest p"
  using assms
proof (induction rest arbitrary: done_ones p)
  case Nil
  then have "due h p = None" by (auto simp: due_find find_None_iff)
  then show ?case by (simp add: check_signals_step [of h p])
next
  case (Cons s rest)
  have l: "[1..int NSIG - 1] = (done_ones @ [s]) @ rest" using Cons.prems(1) by simp
  have r: "1 \<le> t \<and> t < 32" if "t \<in> set (done_ones @ s # rest)" for t
    using that Cons.prems(1) [symmetric] by (auto simp: NSIG_def)
  have "find (acts h p) done_ones = None" using Cons.prems(2) by (simp add: find_None_iff)
  then have d: "due h p = find (acts h p) (s # rest)"
    using Cons.prems(1) by (simp only: due_find find_append option.simps(4))
  show ?case
  proof (cases "acts h p s")
    case False
    then show ?thesis using Cons.IH [OF l] Cons.prems(2) by simp
  next
    case True
    have n: "\<forall>t \<in> set (done_ones @ [s]). \<not> acts h (unpend s p) t"
      using Cons.prems(2) acts_unpend [of s] r by auto
    show ?thesis
      using True Cons.IH [OF l n] Cons.IH [OF l, of "(unpend s p)\<lparr>stopped := True\<rparr>"] Cons.IH [OF l, of "(unpend s p)\<lparr>stopped := False\<rparr>"] n
      by (subst check_signals_step) (simp add: d split: dfl.split)
  qed
qed

lemma check_signals_one_pass: "check_signals h p = one_pass h [1..int NSIG - 1] p"
  by (rule check_signals_rest [of "[]"]) auto

subsection \<open>The closed form\<close>

definition ends :: "(int \<Rightarrow> u64) \<Rightarrow> process \<Rightarrow> int \<Rightarrow> bool" where
  "ends h p s \<longleftrightarrow> acts h p s \<and> sig_effect h s = DFL_TERM"

text \<open>\<open>acted h p k q\<close>: \<open>q\<close> is \<open>p\<close> after every signal up to \<open>k\<close> that needed acting on was acted on.\<close>

definition acted :: "(int \<Rightarrow> u64) \<Rightarrow> process \<Rightarrow> int \<Rightarrow> process \<Rightarrow> bool" where
  "acted h p k q \<longleftrightarrow>
     (\<forall>n < 32. bit (sig_pending q) n \<longleftrightarrow> bit (sig_pending p) n \<and> \<not> (1 \<le> n \<and> int n \<le> k \<and> acts h p (int n)))
     \<and> (stopped q \<longleftrightarrow> (\<exists>s \<in> {1..k}. acts h p s \<and> sig_effect h s = DFL_STOP)
                     \<or> stopped p \<and> \<not> (\<exists>s \<in> {1..k}. acts h p s \<and> sig_effect h s = DFL_CONT))
     \<and> q = p\<lparr>sig_pending := sig_pending q, stopped := stopped q\<rparr>"

lemma effect_order:
  "sig_effect h s = DFL_CONT \<Longrightarrow> s = SIGCONT" "sig_effect h s = DFL_STOP \<Longrightarrow> s = SIGSTOP \<or> s = SIGTSTP"
  by (auto simp: sig_effect_def default_action_def split: if_splits)

lemma acted_0: "acted h p 0 p"
  by (auto simp: acted_def)

lemma range_next: "{1..k + 1} = insert (k + 1) {1..k :: int}" if "0 \<le> k"
  using that by auto

lemma acted_skip:
  assumes "acted h p k q" and "0 \<le> k" and "\<not> acts h p (k + 1)"
  shows "acted h p (k + 1) q"
proof -
  have "int n \<le> k + 1 \<and> acts h p (int n) \<longleftrightarrow> int n \<le> k \<and> acts h p (int n)" for n
    using assms(3) by (metis add.commute add_le_cancel_left order_le_less zle_add1_eq_le zless_add1_eq)
  then have n: "(1 \<le> n \<and> int n \<le> k + 1 \<and> acts h p (int n)) = (1 \<le> n \<and> int n \<le> k \<and> acts h p (int n))" for n
    by simp
  have e: "(\<exists>s \<in> {1..k + 1}. acts h p s \<and> P s) = (\<exists>s \<in> {1..k}. acts h p s \<and> P s)" for P
    unfolding range_next [OF assms(2)] using assms(3) by blast
  show ?thesis using assms(1) unfolding acted_def n e .
qed

definition takes_effect :: "(int \<Rightarrow> u64) \<Rightarrow> int \<Rightarrow> process \<Rightarrow> process" where
  "takes_effect h s p =
     (let q = unpend s p
      in case sig_effect h s of DFL_CONT \<Rightarrow> q\<lparr>stopped := False\<rparr> | DFL_STOP \<Rightarrow> q\<lparr>stopped := True\<rparr> | _ \<Rightarrow> q)"

lemma takes_effect_fields:
  "sig_pending (takes_effect h s q) = sig_pending q AND NOT (SIGBIT s)"
  "stopped (takes_effect h s q) \<longleftrightarrow> sig_effect h s = DFL_STOP \<or> stopped q \<and> sig_effect h s \<noteq> DFL_CONT"
  "takes_effect h s q = q\<lparr>sig_pending := sig_pending (takes_effect h s q), stopped := stopped (takes_effect h s q)\<rparr>"
  by (simp_all add: takes_effect_def unpend_def Let_def split: dfl.split)

lemma acted_takes:
  assumes "acted h p k q" and "0 \<le> k" and "k < 31" and "acts h p (k + 1)"
  shows "acted h p (k + 1) (takes_effect h (k + 1) q)"
proof -
  have q: "\<And>n. n < 32 \<Longrightarrow> bit (sig_pending q) n \<longleftrightarrow> bit (sig_pending p) n \<and> \<not> (1 \<le> n \<and> int n \<le> k \<and> acts h p (int n))"
    and st: "stopped q \<longleftrightarrow> (\<exists>s \<in> {1..k}. acts h p s \<and> sig_effect h s = DFL_STOP)
                     \<or> stopped p \<and> \<not> (\<exists>s \<in> {1..k}. acts h p s \<and> sig_effect h s = DFL_CONT)"
    and k: "q = p\<lparr>sig_pending := sig_pending q, stopped := stopped q\<rparr>"
    using assms(1) unfolding acted_def by blast+
  have "bit (sig_pending (takes_effect h (k + 1) q)) n \<longleftrightarrow> bit (sig_pending p) n \<and> \<not> (1 \<le> n \<and> int n \<le> k + 1 \<and> acts h p (int n))"
    if "n < 32" for n
    using that q [of n] assms(2-4) by (auto simp: takes_effect_fields(1) bit_and_iff bit_not_iff SIGBIT_bit)
  moreover have "stopped (takes_effect h (k + 1) q) \<longleftrightarrow> (\<exists>s \<in> {1..k + 1}. acts h p s \<and> sig_effect h s = DFL_STOP)
      \<or> stopped p \<and> \<not> (\<exists>s \<in> {1..k + 1}. acts h p s \<and> sig_effect h s = DFL_CONT)"
  proof (cases "sig_effect h (k + 1) = DFL_CONT")
    case True
    then have "k + 1 = SIGCONT" using effect_order(1) by blast
    then have "\<not> (\<exists>s \<in> {1..k}. sig_effect h s = DFL_STOP)" using effect_order(2) by (fastforce simp: signal_numbers)
    then show ?thesis using st True assms(4) unfolding range_next [OF assms(2)] takes_effect_fields(2) by auto
  next
    case False
    then show ?thesis using st assms(4) unfolding range_next [OF assms(2)] takes_effect_fields(2) by auto
  qed
  moreover have "takes_effect h (k + 1) q = p\<lparr>sig_pending := sig_pending (takes_effect h (k + 1) q), stopped := stopped (takes_effect h (k + 1) q)\<rparr>"
    by (subst takes_effect_fields(3)) (subst k, simp)
  ultimately show ?thesis unfolding acted_def by blast
qed

lemma acted_acts:
  assumes "acted h p k q" and "1 \<le> s" and "k < s" and "s < 32"
  shows "acts h q s = acts h p s"
proof -
  have "bit (sig_pending q) (nat s) = bit (sig_pending p) (nat s)"
    using assms unfolding acted_def by (auto simp: nat_less_iff)
  moreover have "sig_blocked q = sig_blocked p"
  proof -
    have "q = p\<lparr>sig_pending := sig_pending q, stopped := stopped q\<rparr>" using assms(1) unfolding acted_def by blast
    then have "sig_blocked q = sig_blocked (p\<lparr>sig_pending := sig_pending q, stopped := stopped q\<rparr>)" by (rule arg_cong)
    then show ?thesis by simp
  qed
  ultimately show ?thesis using assms by (simp add: acts_bits)
qed

lemma one_pass_exact:
  assumes "acted h p k q" and "0 \<le> k" and "k \<le> 31"
  shows "\<exists>r. one_pass h [k + 1..31] q = (find (ends h p) [k + 1..31], r)
    \<and> acted h p (case find (ends h p) [k + 1..31] of Some s \<Rightarrow> s | None \<Rightarrow> 31) r"
  using assms
proof (induction "nat (31 - k)" arbitrary: k q)
  case 0
  then show ?case by simp
next
  case (Suc m)
  then have k: "k < 31" by simp
  have u: "[k + 1..31] = (k + 1) # [k + 1 + 1..31]" using k by (simp add: upto_rec1)
  have IH: "acted h p (k + 1) x \<Longrightarrow> \<exists>r. one_pass h [k + 1 + 1..31] x = (find (ends h p) [k + 1 + 1..31], r)
    \<and> acted h p (case find (ends h p) [k + 1 + 1..31] of Some s \<Rightarrow> s | None \<Rightarrow> 31) r" for x
    using Suc.hyps(1) [of "k + 1" x] Suc.hyps(2) k Suc.prems(2) by simp
  have a: "acts h q (k + 1) = acts h p (k + 1)" using acted_acts [OF Suc.prems(1), of "k + 1"] Suc.prems(2) k by simp
  show ?case
  proof (cases "acts h p (k + 1)")
    case False
    then show ?thesis using IH [OF acted_skip [OF Suc.prems(1,2) False]] a by (simp add: u ends_def)
  next
    case True
    note t = acted_takes [OF Suc.prems(1,2) k True]
    show ?thesis
    proof (cases "sig_effect h (k + 1)")
      case DFL_TERM
      then show ?thesis using t True a by (simp add: u ends_def takes_effect_def Let_def)
    qed (use IH [OF t] True a in \<open>simp_all add: u ends_def takes_effect_def Let_def\<close>)
  qed
qed

lemma check_signals_exact:
  "\<exists>q. check_signals h p = (find (ends h p) [1..31], q)
     \<and> acted h p (case find (ends h p) [1..31] of Some s \<Rightarrow> s | None \<Rightarrow> 31) q"
  using one_pass_exact [OF acted_0, of h p] by (simp add: check_signals_one_pass NSIG_def)

lemma sigkill_acts:
  assumes "bit (sig_pending p) 9" and "\<not> bit (sig_blocked p) 9"
  shows "ends h p SIGKILL"
proof -
  have u: "SIGBIT SIGKILL AND UNCATCHABLE \<noteq> 0" by (simp add: SIGBIT_def UNCATCHABLE_def signal_numbers)
  have "acts h p SIGKILL" using assms u by (simp add: acts_bits signal_numbers)
  then show ?thesis using u by (simp add: ends_def sig_effect_def default_action_def signal_numbers)
qed

lemma find_upto:
  assumes "P k" and "1 \<le> k" and "k \<le> 31"
  shows "\<exists>s. find P [1..31] = Some s \<and> s \<le> (k :: int)"
proof -
  have u: "[1..31] = [1..k - 1] @ [k..31]" using upto_split1 [of 1 k 31] assms by simp
  have v: "[k..31] = k # [k + 1..31]" using assms by (simp add: upto_rec1)
  show ?thesis
  proof (cases "find P [1..k - 1]")
    case None
    then show ?thesis using assms(1) by (simp add: u v find_append del: upto_rec_numeral)
  next
    case (Some s)
    then have "s \<le> k - 1" by (auto simp: find_Some_iff set_conv_nth)
    then show ?thesis using Some by (simp add: u find_append del: upto_rec_numeral)
  qed
qed

subsection \<open>What the code guarantees\<close>

text \<open>
  C32. The loop of \<open>signal_check\<close>, which starts its search from signal 1 again after every signal it acts on, does
  what a single ascending pass over the signals does: acting on one never makes an earlier one due.
\<close>

theorem signal_check_is_one_pass: "check_signals h p = one_pass h [1..int NSIG - 1] p"
  by (rule check_signals_one_pass)

text \<open>
  C31. At a safe point the current process ends with the lowest pending, unblocked signal whose action is to end it, with exit
  code 128 plus the signal, after the lower ones were acted on; when there is none it goes on, exactly the signals
  that no handler waits for are no longer pending, and it is stopped if a stop was among them, and not stopped if only a continue was. A pending \<open>SIGKILL\<close> that is
  not blocked always ends it.
\<close>

theorem signal_check_exact:
  assumes "current w = Some c"
  shows "let p = proc w c; h = handler_of w p; f = find (ends h p) [1..31] in
    (\<exists>q. acted h p (case f of Some s \<Rightarrow> s | None \<Rightarrow> 31) q
       \<and> signal_check w = (case f of
            None \<Rightarrow> Some (True, upd c (\<lambda>_. q) w)
          | Some s \<Rightarrow> map_option (Pair False) (process_notify_exit (128 + s) (upd c (\<lambda>_. q) w))))
    \<and> (bit (sig_pending p) 9 \<and> \<not> bit (sig_blocked p) 9 \<longrightarrow> (\<exists>s \<le> SIGKILL. f = Some s))"
proof -
  define p where "p = proc w c"
  define h where "h = handler_of w p"
  obtain q where q: "check_signals h p = (find (ends h p) [1..31], q)"
    "acted h p (case find (ends h p) [1..31] of Some s \<Rightarrow> s | None \<Rightarrow> 31) q" using check_signals_exact by blast
  have "signal_check w = (case find (ends h p) [1..31] of
            None \<Rightarrow> Some (True, upd c (\<lambda>_. q) w)
          | Some s \<Rightarrow> map_option (Pair False) (process_notify_exit (128 + s) (upd c (\<lambda>_. q) w)))"
    using q(1) assms unfolding signal_check_def p_def h_def by (simp split: option.split)
  moreover have "\<exists>s \<le> SIGKILL. find (ends h p) [1..31] = Some s" if "bit (sig_pending p) 9 \<and> \<not> bit (sig_blocked p) 9"
    using find_upto [of "ends h p" SIGKILL] sigkill_acts [of p h] that by (auto simp: SIGKILL_def)
  ultimately show ?thesis unfolding Let_def using q(2) p_def h_def by blast
qed

definition kill_demo :: kw where
  "kill_demo = upd 0 (\<lambda>p. p\<lparr>sig_pending := SIGBIT SIGKILL, pstate := PROC_RUNNING\<rparr>) (upd_cpu (\<lambda>c. c\<lparr>current_proc := Some 0\<rparr>) sched_demo)"

lemma kill_demo_facts:
  "current kill_demo = Some 0" "bit (sig_pending (proc kill_demo 0)) 9" "\<not> bit (sig_blocked (proc kill_demo 0)) 9"
  by (simp_all add: kill_demo_def upd_def upd_cpu_def current_def sched_demo_def proc_def demo_proc_def zero_process_def
       SIGBIT_bit SIGKILL_def)

theorem signal_check_exact_witness:
  "\<exists>q s. s \<le> SIGKILL \<and> signal_check kill_demo = map_option (Pair False) (process_notify_exit (128 + s) (upd 0 (\<lambda>_. q) kill_demo))"
proof -
  let ?p = "proc kill_demo 0"
  let ?f = "find (ends (handler_of kill_demo ?p) ?p) [1..31]"
  note t = signal_check_exact [OF kill_demo_facts(1), unfolded Let_def]
  from t obtain q where q: "signal_check kill_demo = (case ?f of
            None \<Rightarrow> Some (True, upd 0 (\<lambda>_. q) kill_demo)
          | Some s \<Rightarrow> map_option (Pair False) (process_notify_exit (128 + s) (upd 0 (\<lambda>_. q) kill_demo)))" by blast
  from t kill_demo_facts(2,3) obtain s where "s \<le> SIGKILL" "?f = Some s" by blast
  then show ?thesis using q by auto
qed

text \<open>
  A process that is suspended is passed over by the scheduler, and only \<open>SIGCONT\<close> lifts that: one that is killed
  while suspended stays in the table, its \<open>SIGKILL\<close> pending, until something resumes it.
\<close>

lemma post_stopped: "s \<noteq> SIGCONT \<Longrightarrow> stopped (post w s p) = stopped p"
  by (simp add: post_def Let_def)

lemma kill_of_suspended_waits:
  assumes "stopped (proc w i)"
  shows "stopped (proc (snd (process_kill n w)) i) \<and> pick_next a (snd (process_kill n w)) \<noteq> Some i"
proof -
  have "SIGKILL \<noteq> SIGCONT" by (simp add: signal_numbers)
  then have st: "stopped (proc (upd j (post w SIGKILL) w) i)" for j
    using assms post_stopped by (cases "j = i"; cases "i < length (procs w)") (auto simp: proc_def upd_def list_update_beyond)
  have "stopped (proc (snd (process_kill n w)) i)"
    using st assms by (auto simp: process_kill_def signal_send_def signal_post_def split: option.splits)
  then show ?thesis by (auto simp: pick_next_def find_Some_iff runnable_def)
qed

end
