(* ===== verification/Exit_Wait.thy ===== *)
theory Exit_Wait
  imports Sched_Inv
begin

text \<open>
  From \<^verbatim>\<open>exit\<close> to \<^verbatim>\<open>wait\<close>: a program's exit code stays in its slot, through everything its end
  does to pipes, sockets, sleepers and signals, until its parent's \<^verbatim>\<open>wait\<close> takes it, and the parent is woken for it.
\<close>

subsection \<open>What teardown leaves alone\<close>

definition same_life :: "process \<Rightarrow> process \<Rightarrow> bool" where
  "same_life p p' \<longleftrightarrow> pid p' = pid p \<and> parent_pid p' = parent_pid p \<and> exit_code p' = exit_code p \<and> is_thread p' = is_thread p
     \<and> waiting_for p' = waiting_for p \<and> asp p' = asp p \<and> kctx p' = kctx p \<and> resume_kernel p' = resume_kernel p
     \<and> sig_blocked p' = sig_blocked p \<and> (pstate p' = pstate p \<or> pstate p = PROC_BLOCKED \<and> pstate p' = PROC_READY)"


lemma same_life_refl [simp]: "same_life p p"
  by (simp add: same_life_def)









subsection \<open>Reaping threads leaves the others alone\<close>






subsection \<open>Waking the parent\<close>








subsection \<open>The exit\<close>





subsection \<open>The parent goes on\<close>

























end
