(* ===== verification/User_Memory.thy ===== *)
theory User_Memory
  imports Signal
begin

text \<open>
  A program's memory as the program sees it: what is at a user address, through the page tables. Pages that
  appear on first touch leave every byte that was there alone; storing a byte changes that byte and no other.
  \<open>B\<close> is, as for address spaces, the set of frames that are only borrowed from shared segments; the bytes here are those
  of the other, private frames.
\<close>

subsection \<open>Bytes of a space\<close>

definition pa_of :: "u64 \<Rightarrow> u64 \<Rightarrow> u64" where
  "pa_of t va = t + (va AND 0xFFF)"

definition byte_at :: "u64 set \<Rightarrow> pmm \<Rightarrow> u64 \<Rightarrow> u64 \<Rightarrow> u8 option" where
  "byte_at B s p va = (case fr s p va of None \<Rightarrow> None | Some t \<Rightarrow> if t \<in> B then None else Some (ram s (pa_of t va)))"

definition not_shared :: "u64 set \<Rightarrow> pmm \<Rightarrow> u64 \<Rightarrow> u64 \<Rightarrow> bool" where
  "not_shared B s p va \<longleftrightarrow> (\<forall>t. fr s p va = Some t \<longrightarrow> t \<notin> B)"

lemma low_bits: "unat (va AND 0xFFF :: u64) = unat va mod 4096"
  using and_mask_mod [of va 12] by (simp add: mask_eq_exp_minus_1 unat_mod)

lemma frame_bounds: "is_frame t \<Longrightarrow> unat t mod 4096 = 0 \<and> unat t < 2 ^ 52"
proof -
  assume t: "is_frame t"
  then have m: "unat t mod 4096 = 0" by (simp add: is_frame_def is_table_def word_unat_eq_iff unat_mod)
  have "unat t div 4096 < 1048576" using t by (simp add: is_frame_def MAX_FRAMES_def word_less_nat_alt unat_div)
  then have "unat t < 1048576 * 4096" by (simp add: div_less_iff_less_mult)
  then show ?thesis using m by simp
qed

lemma unat_pa_of:
  assumes "is_frame t"
  shows "unat (pa_of t va) = unat t + unat va mod 4096"
proof -
  have a: "unat va mod 4096 < 4096" by simp
  have b: "unat t < 4503599627370496" using frame_bounds [OF assms] by simp
  have "unat t + unat (va AND 0xFFF) < 18446744073709551616" unfolding low_bits using a b by linarith
  then show ?thesis by (simp add: pa_of_def unat_add_small low_bits)
qed

lemma pg_pa_of: "is_frame t \<Longrightarrow> pg (pa_of t va) = pg t"
  using frame_bounds [of t] by (simp add: word_unat_eq_iff unat_div unat_pa_of div_add1_eq)

lemma pa_of_nonzero: "is_frame t \<Longrightarrow> t \<noteq> 0 \<Longrightarrow> pa_of t va \<noteq> 0"
  by (simp add: word_unat_eq_iff unat_pa_of)

lemma pa_of_inj:
  assumes "is_frame t" "is_frame u" "pa_of t x = pa_of u y"
  shows "t = u" and "unat x mod 4096 = unat y mod 4096"
proof -
  have "pg t = pg u" using assms pg_pa_of by metis
  then show "t = u" using pg_inj assms(1,2) by (simp add: is_frame_table)
  then show "unat x mod 4096 = unat y mod 4096" using assms unat_pa_of by (metis add_left_cancel)
qed

lemma fr_frame:
  assumes "own_ok B s p" and "user_addr v" and "fr s p v = Some t"
  shows "is_frame t" and "t \<noteq> 0" and "pg t \<notin> free_set s" and "pg t \<notin> pg ` tables s p"
proof -
  have u: "t \<in> B \<or> t \<in> user_frames B s p" using assms(2,3) by (auto simp: user_frames_def)
  then show f: "is_frame t" and "pg t \<notin> free_set s" using own_okD(2,3,5,6) [OF assms(1)] by blast+
  have n: "t \<notin> tables s p" using u own_okD(4,7) [OF assms(1)] by blast
  then show "pg t \<notin> pg ` tables s p"
    using pg_inj [of t] f space_okD(3) [OF own_okD(1) [OF assms(1)]] by (auto simp: is_frame_def)
  show "t \<noteq> 0" using f by (simp add: is_frame_def)
qed

lemma translate_fr:
  assumes "own_ok B s p" and "user_addr v"
  shows "paging_translate p v s = (case fr s p v of None \<Rightarrow> 0 | Some t \<Rightarrow> pa_of t v, s)"
  using paging_translate_eq [OF own_okD(1) [OF assms(1)] assms(2)] by (simp add: fr_def pa_of_def)

subsection \<open>Pages that appear\<close>

definition appears :: "u64 set \<Rightarrow> u64 \<Rightarrow> pmm \<Rightarrow> pmm \<Rightarrow> bool" where
  "appears B p s s1 \<longleftrightarrow> own_ok B s1 p \<and> calm p s s1
     \<and> (\<forall>x t. user_addr x \<longrightarrow> fr s p x = Some t \<longrightarrow> fr s1 p x = Some t)
     \<and> (\<forall>x t. user_addr x \<longrightarrow> fr s p x = None \<longrightarrow> fr s1 p x = Some t \<longrightarrow> pg t \<in> free_set s)"

lemma appears_refl: "own_ok B s p \<Longrightarrow> appears B p s s"
  by (simp add: appears_def calm_refl)

lemma appears_trans:
  assumes "appears B p a b" and "appears B p b c"
  shows "appears B p a c"
proof -
  have f: "free_set b \<subseteq> free_set a" using assms(1) by (simp add: appears_def calm_def)
  have "pg t \<in> free_set a" if "user_addr x" "fr a p x = None" "fr c p x = Some t" for x t
  proof (cases "fr b p x")
    case None
    then show ?thesis using assms(2) that f unfolding appears_def by blast
  next
    case (Some u)
    then have "u = t" using assms(2) that unfolding appears_def by fastforce
    then show ?thesis using Some assms(1) that unfolding appears_def by blast
  qed
  moreover have "calm p a c" using assms calm_trans unfolding appears_def by blast
  ultimately show ?thesis using assms unfolding appears_def by blast
qed

lemma appears_byte:
  assumes "own_ok B s p" and "appears B p s s1" and "user_addr x" and "byte_at B s p x = Some b"
  shows "byte_at B s1 p x = Some b"
proof -
  obtain t where t: "fr s p x = Some t" "t \<notin> B" "b = ram s (pa_of t x)"
    using assms(4) by (auto simp: byte_at_def split: option.splits if_splits)
  note f = fr_frame [OF assms(1,3) t(1)]
  have "ram s1 (pa_of t x) = ram s (pa_of t x)"
    using assms(2) f pg_pa_of [OF f(1), of x] by (simp add: appears_def calm_def)
  then show ?thesis using assms(2,3) t by (auto simp: byte_at_def appears_def)
qed

lemma appears_not_shared:
  assumes "own_ok B s p" and "appears B p s s1" and "user_addr x" and "not_shared B s p x"
  shows "not_shared B s1 p x"
proof (cases "fr s p x")
  case None
  then show ?thesis using assms own_okD(3) [OF assms(1)] unfolding not_shared_def appears_def by blast
next
  case (Some t)
  then show ?thesis using assms unfolding not_shared_def appears_def by fastforce
qed

lemma built_appears:
  assumes ok: "own_ok B s p" and u: "user_addr v" and np: "\<not> present (pte_at s p v)" and b: "build_page p v flags s = (r, s1)"
  shows "appears B p s s1" and "r \<Longrightarrow> fr s1 p v \<noteq> None"
proof -
  from ok u np have "appears B p s s1 \<and> (r \<longrightarrow> fr s1 p v \<noteq> None)"
  proof (cases rule: build_page_cases [of B s p v flags, consumes 3, case_names full built])
    case (full s')
    then show ?thesis using b by (simp add: appears_def keeps_def fr_def)
  next
    case (built t s')
    then have e: "s1 = s'" "r" using b by simp_all
    have nv: "fr s p x = None" if "user_addr x" "pg x = pg v" for x using np fr_page [OF that(1) u that(2)] by (simp add: fr_def)
    have f: "fr s1 p x = (if pg x = pg v then Some t else fr s p x)" if "user_addr x" for x
      using built(5) [OF that] tbl_leaf [OF built(3)] e by (simp add: fr_def)
    have o: "own_ok B s1 p" "calm p s s1" using built(2,7) e by (simp_all add: keeps_def)
    have "fr s1 p x = Some y" if "user_addr x" "fr s p x = Some y" for x y
      using f [OF that(1)] nv [OF that(1)] that(2) by auto
    moreover have "pg y \<in> free_set s" if "user_addr x" "fr s p x = None" "fr s1 p x = Some y" for x y
      using f [OF that(1)] that(2,3) built(4) by (auto split: if_splits)
    ultimately show ?thesis using f [OF u] o unfolding appears_def by simp
  qed
  then show "appears B p s s1" and "r \<Longrightarrow> fr s1 p v \<noteq> None" by blast+
qed

lemma set_mem_same [simp]: "set_mem (mem v) v = v"
  by (simp add: set_mem_def mem_def)

lemma fault_appears:
  assumes c: "cur_as v = Some (ap, pm, a)" and ok: "own_ok B (mem v) pm" and f: "vmm_fault va err v = (r, v1)"
  shows "appears B pm (mem v) (mem v1)" and "cur_as v1 = cur_as v" and "r \<Longrightarrow> user_addr va \<and> fr (mem v1) pm va \<noteq> None"
proof -
  let ?page = "va AND NOT (VM_PAGE - 1)"
  show "cur_as v1 = cur_as v" using vmm_fault_keeps [OF f] by (intro cur_as_cong) simp_all
  have "appears B pm (mem v) (mem v1) \<and> (r \<longrightarrow> user_addr va \<and> fr (mem v1) pm va \<noteq> None)"
  proof (cases "pm = 0 \<or> \<not> user_addr va \<or> err AND PF_PRESENT \<noteq> 0 \<or> fault_flags a ?page err = None")
    case True
    then have "\<not> r \<and> mem v1 = mem v"
      using c f by (auto simp: vmm_fault_def Let_def user_addr_def split: if_splits option.splits prod.splits)
    then show ?thesis using appears_refl [OF ok] by simp
  next
    case False
    then obtain fl where fl: "fault_flags a ?page err = Some fl" and u: "user_addr va" by auto
    have pu: "user_addr ?page" using u page_of by simp
    have frp: "fr s pm ?page = fr s pm va" for s using fr_page [OF pu u] page_of(2) by simp
    have e: "vmm_fault va err v = (case paging_translate pm ?page (mem v) of
                    (t, m) \<Rightarrow> if t \<noteq> 0 then (True, set_mem m v)
                      else (case build_page pm ?page fl m of (ok, m1) \<Rightarrow> (ok, set_mem m1 v)))"
    proof -
      have "\<not> va < USER_VIRT_BASE" "\<not> USER_VIRT_END \<le> va" "pm \<noteq> 0" "err AND PF_PRESENT = 0" using u False by (auto simp: user_addr_def)
      then show ?thesis using c by (simp add: vmm_fault_def Let_def fl)
    qed
    show ?thesis
    proof (cases "fr (mem v) pm ?page")
      case None
      then have np: "\<not> present (pte_at (mem v) pm ?page)" by (simp add: fr_def split: if_splits)
      obtain x m1 where b: "build_page pm ?page fl (mem v) = (x, m1)" by force
      have "r = x \<and> mem v1 = m1" using f e translate_fr [OF ok pu] None b by auto
      then show ?thesis using built_appears [OF ok pu np b] u frp by simp
    next
      case (Some t)
      have "pa_of t ?page \<noteq> 0" using fr_frame(1,2) [OF ok pu Some] by (rule pa_of_nonzero)
      then have "v1 = v" using f e translate_fr [OF ok pu] Some by simp
      moreover have "fr (mem v) pm va = Some t" using frp [of "mem v"] Some by simp
      ultimately show ?thesis using appears_refl [OF ok] u by simp
    qed
  qed
  then show "appears B pm (mem v) (mem v1)" and "r \<Longrightarrow> user_addr va \<and> fr (mem v1) pm va \<noteq> None" by blast+
qed

lemma user_pa_appears:
  assumes c: "cur_as v = Some (ap, pm, a)" and ok: "own_ok B (mem v) pm" and u: "user_addr va" and e: "user_pa pm va err v = Some (pa, v1)"
  shows "appears B pm (mem v) (mem v1)" and "cur_as v1 = cur_as v" and "\<exists>t. fr (mem v1) pm va = Some t \<and> pa = pa_of t va"
proof -
  have "appears B pm (mem v) (mem v1) \<and> cur_as v1 = cur_as v \<and> (\<exists>t. fr (mem v1) pm va = Some t \<and> pa = pa_of t va)"
  proof (cases "fr (mem v) pm va")
    case (Some t)
    have "pa_of t va \<noteq> 0" using fr_frame(1,2) [OF ok u Some] by (rule pa_of_nonzero)
    then have "v1 = v \<and> pa = pa_of t va" using e translate_fr [OF ok u] Some by (simp add: user_pa_def)
    then show ?thesis using Some appears_refl [OF ok] by simp
  next
    case None
    obtain r v2 where f: "vmm_fault va err v = (r, v2)" by force
    note g = fault_appears [OF c ok f]
    have o2: "own_ok B (mem v2) pm" using g(1) by (simp add: appears_def)
    have r: "r" using e f translate_fr [OF ok u] None by (auto simp: user_pa_def split: if_splits)
    then obtain t where t: "fr (mem v2) pm va = Some t" using g(3) by blast
    have "pa_of t va \<noteq> 0" using fr_frame(1,2) [OF o2 u t] by (rule pa_of_nonzero)
    then have "v1 = v2 \<and> pa = pa_of t va" using e f translate_fr [OF ok u] translate_fr [OF o2 u] None t r by (simp add: user_pa_def)
    then show ?thesis using g t by simp
  qed
  then show "appears B pm (mem v) (mem v1)" and "cur_as v1 = cur_as v" and "\<exists>t. fr (mem v1) pm va = Some t \<and> pa = pa_of t va" by blast+
qed

lemma user_pa_there:
  assumes "own_ok B (mem v) pm" and "user_addr va" and "fr (mem v) pm va = Some t"
  shows "user_pa pm va err v = Some (pa_of t va, v)"
  using translate_fr [OF assms(1,2)] assms(3) pa_of_nonzero [OF fr_frame(1,2) [OF assms]] by (simp add: user_pa_def)

subsection \<open>Storing a byte\<close>

lemma poke_fields [simp]: "cur_as (poke pa b v) = cur_as v" "mem (poke pa b v) = (mem v)\<lparr>ram := (ram (mem v))(pa := b)\<rparr>"
proof -
  show "cur_as (poke pa b v) = cur_as v" by (rule cur_as_cong) (simp_all add: poke_def)
qed (simp add: poke_def)

lemma pmm_ok_ram [simp]: "pmm_ok (s\<lparr>ram := r\<rparr>) = pmm_ok s"
proof -
  have "free_set (s\<lparr>ram := r\<rparr>) = free_set s" by (rule free_set_cong) simp
  then show ?thesis by (simp add: pmm_ok_def pmm_wf_def)
qed

lemma poke_effect:
  fixes b :: u8
  assumes ok: "own_ok B (mem v) pm" and u: "user_addr va" and t: "fr (mem v) pm va = Some t" "t \<notin> B"
  defines "v1 \<equiv> poke (pa_of t va) b v"
  shows "own_ok B (mem v1) pm" and "\<And>x. user_addr x \<Longrightarrow> fr (mem v1) pm x = fr (mem v) pm x"
    and "byte_at B (mem v1) pm va = Some b"
    and "\<And>x. user_addr x \<Longrightarrow> x \<noteq> va \<Longrightarrow> byte_at B (mem v1) pm x = byte_at B (mem v) pm x"
proof -
  note f = fr_frame [OF ok u t(1)]
  have m: "mem v1 = (mem v)\<lparr>ram := (ram (mem v))(pa_of t va := b)\<rparr>" by (simp add: v1_def)
  have fs: "free_set (mem v1) = free_set (mem v)" by (rule free_set_cong) (simp add: m)
  have pk: "pmm_ok (mem v1)" using space_okD(1) [OF own_okD(1) [OF ok]] by (simp add: m)
  have nf: "free_set (mem v1) \<inter> pg ` (owned B (mem v) pm \<union> B) = {}"
    using own_okD(3,6) [OF ok] space_okD(5) [OF own_okD(1) [OF ok]] by (auto simp: fs owned_def)
  have "ram (mem v1) a = ram (mem v) a" if "pg a \<in> pg ` tables (mem v) pm" for a
  proof -
    have "a \<noteq> pa_of t va" using that f(4) pg_pa_of [OF f(1), of va] by metis
    then show ?thesis by (simp add: m)
  qed
  note g = own_frame [OF ok pk nf this]
  show "own_ok B (mem v1) pm" by (rule g(1))
  show fr: "user_addr x \<Longrightarrow> fr (mem v1) pm x = fr (mem v) pm x" for x using g(3) by (simp add: fr_def)
  show "byte_at B (mem v1) pm va = Some b" using t fr [OF u] by (simp add: byte_at_def m)
  show "byte_at B (mem v1) pm x = byte_at B (mem v) pm x" if x: "user_addr x" "x \<noteq> va" for x
  proof -
    have "pa_of y x \<noteq> pa_of t va" if y: "fr (mem v) pm x = Some y" for y
    proof
      assume e: "pa_of y x = pa_of t va"
      have yt: "y = t" "unat x mod 4096 = unat va mod 4096" using pa_of_inj [OF fr_frame(1) [OF ok x(1) y] f(1) e] .
      then have "pg x = pg va" using own_okD(8) [OF ok x(1) u] y t by simp
      then have "x = va" using yt(2) word_div_mod_eqI [of x 4096 va] by (simp add: word_unat_eq_iff unat_mod unat_div)
      then show False using x(2) by simp
    qed
    then show ?thesis using fr [OF x(1)] by (auto simp: byte_at_def m split: option.split)
  qed
qed

subsection \<open>Storing and fetching many\<close>

lemma user_next:
  assumes "unat va + Suc n \<le> 2147483648" and "1073741824 \<le> unat va"
  shows "user_addr va" and "unat (va + 1) = unat va + 1"
  using assms by (simp_all add: user_addr_def word_le_nat_alt word_less_nat_alt window_nat unat_add_small)

definition in_bytes :: "u64 \<Rightarrow> nat \<Rightarrow> u64 \<Rightarrow> bool" where
  "in_bytes va n x \<longleftrightarrow> unat va \<le> unat x \<and> unat x < unat va + n"

lemma user_write_effect:
  assumes "user_write pm va bs v = Some v'" and "cur_as v = Some (ap, pm, a)" and "own_ok B (mem v) pm"
    and "1073741824 \<le> unat va" and "unat va + length bs \<le> 2147483648"
    and "\<forall>x. in_bytes va (length bs) x \<longrightarrow> not_shared B (mem v) pm x"
  shows "own_ok B (mem v') pm \<and> cur_as v' = cur_as v
    \<and> (\<forall>x b. user_addr x \<longrightarrow> \<not> in_bytes va (length bs) x \<longrightarrow> byte_at B (mem v) pm x = Some b \<longrightarrow> byte_at B (mem v') pm x = Some b)
    \<and> (\<forall>x. in_bytes va (length bs) x \<longrightarrow> byte_at B (mem v') pm x = Some (bs ! (unat x - unat va)))
    \<and> (\<forall>x. user_addr x \<longrightarrow> not_shared B (mem v) pm x \<longrightarrow> not_shared B (mem v') pm x)"
  using assms
proof (induction bs arbitrary: va v)
  case Nil
  then show ?case by (auto simp: in_bytes_def)
next
  case (Cons b bs)
  have n: "user_addr va" "unat (va + 1) = unat va + 1" using user_next [of va "length bs"] Cons.prems(4,5) by simp_all
  obtain pa v1 where p: "user_pa pm va PF_WRITE v = Some (pa, v1)" and w: "user_write pm (va + 1) bs (poke pa b v1) = Some v'"
    using Cons.prems(1) by (auto simp: Option.bind_eq_Some_conv)
  note g = user_pa_appears [OF Cons.prems(2,3) n(1) p]
  obtain t where t: "fr (mem v1) pm va = Some t" "pa = pa_of t va" using g(3) by blast
  have o1: "own_ok B (mem v1) pm" using g(1) by (simp add: appears_def)
  have ns: "user_addr x \<Longrightarrow> not_shared B (mem v) pm x \<Longrightarrow> not_shared B (mem v1) pm x" for x
    by (rule appears_not_shared [OF Cons.prems(3) g(1)])
  have "not_shared B (mem v) pm va" using Cons.prems(6) by (simp add: in_bytes_def)
  then have tb: "t \<notin> B" using ns [OF n(1)] t(1) by (simp add: not_shared_def)
  note k = poke_effect [OF o1 n(1) t(1) tb, where b = b, folded t(2)]
  let ?v2 = "poke pa b v1"
  have ns2: "user_addr x \<Longrightarrow> not_shared B (mem v) pm x \<Longrightarrow> not_shared B (mem ?v2) pm x" for x
    using ns k(2) [of x] unfolding not_shared_def by (simp only:)
  have ub: "in_bytes (va + 1) (length bs) x \<Longrightarrow> user_addr x" for x
    using Cons.prems(4,5) n(2) by (simp add: in_bytes_def user_addr_def word_le_nat_alt word_less_nat_alt window_nat)
  have sub: "in_bytes (va + 1) (length bs) x \<Longrightarrow> in_bytes va (length (b # bs)) x" for x
    using n(2) by (simp add: in_bytes_def)
  have IH: "own_ok B (mem v') pm \<and> cur_as v' = cur_as ?v2
    \<and> (\<forall>x b. user_addr x \<longrightarrow> \<not> in_bytes (va + 1) (length bs) x \<longrightarrow> byte_at B (mem ?v2) pm x = Some b \<longrightarrow> byte_at B (mem v') pm x = Some b)
    \<and> (\<forall>x. in_bytes (va + 1) (length bs) x \<longrightarrow> byte_at B (mem v') pm x = Some (bs ! (unat x - unat (va + 1))))
    \<and> (\<forall>x. user_addr x \<longrightarrow> not_shared B (mem ?v2) pm x \<longrightarrow> not_shared B (mem v') pm x)"
  proof (rule Cons.IH [OF w])
    show "cur_as ?v2 = Some (ap, pm, a)" using g(2) Cons.prems(2) by simp
    show "own_ok B (mem ?v2) pm" by (rule k(1))
    show "\<forall>x. in_bytes (va + 1) (length bs) x \<longrightarrow> not_shared B (mem ?v2) pm x"
      using Cons.prems(6) sub ub ns2 by blast
  qed (use Cons.prems(4,5) n(2) in simp_all)
  have out: "byte_at B (mem v') pm x = Some y"
    if "user_addr x" "\<not> in_bytes va (length (b # bs)) x" "byte_at B (mem v) pm x = Some y" for x y
  proof -
    have "x \<noteq> va" using that(2) by (auto simp: in_bytes_def)
    then have "byte_at B (mem ?v2) pm x = Some y"
      using k(4) [OF that(1)] appears_byte [OF Cons.prems(3) g(1) that(1,3)] by simp
    then show ?thesis using IH that(1,2) sub by blast
  qed
  have inn: "byte_at B (mem v') pm x = Some ((b # bs) ! (unat x - unat va))" if x: "in_bytes va (length (b # bs)) x" for x
  proof (cases "x = va")
    case True
    then have "\<not> in_bytes (va + 1) (length bs) x" using n(2) by (simp add: in_bytes_def)
    then show ?thesis using IH k(3) n(1) True by simp
  next
    case False
    then have "unat x \<noteq> unat va" by (simp add: word_unat_eq_iff)
    then have i: "in_bytes (va + 1) (length bs) x" "unat x - unat va = Suc (unat x - unat (va + 1))"
      using x n(2) by (auto simp: in_bytes_def)
    then show ?thesis using IH by simp
  qed
  show ?case using IH out inn ns2 g(2) by auto
qed

lemma user_read_effect:
  assumes "own_ok B (mem v) pm" and "1073741824 \<le> unat va" and "unat va + length bs \<le> 2147483648"
    and "\<forall>x. in_bytes va (length bs) x \<longrightarrow> byte_at B (mem v) pm x = Some (bs ! (unat x - unat va))"
  shows "user_read pm va (length bs) v = Some (bs, v)"
  using assms(2-4)
proof (induction bs arbitrary: va)
  case (Cons b bs)
  have n: "user_addr va" "unat (va + 1) = unat va + 1" using user_next [of va "length bs"] Cons.prems(1,2) by simp_all
  have "byte_at B (mem v) pm va = Some b" using Cons.prems(3) [rule_format, of va] by (simp add: in_bytes_def)
  then obtain t where t: "fr (mem v) pm va = Some t" "ram (mem v) (pa_of t va) = b"
    by (auto simp: byte_at_def split: option.splits if_splits)
  have "byte_at B (mem v) pm x = Some (bs ! (unat x - unat (va + 1)))" if "in_bytes (va + 1) (length bs) x" for x
  proof -
    have "in_bytes va (length (b # bs)) x" "unat x - unat va = Suc (unat x - unat (va + 1))"
      using that n(2) by (auto simp: in_bytes_def)
    then show ?thesis using Cons.prems(3) by simp
  qed
  then have "user_read pm (va + 1) (length bs) v = Some (bs, v)" using Cons.IH [of "va + 1"] Cons.prems(1,2) n(2) by simp
  then show ?case using user_pa_there [OF assms(1) n(1) t(1)] t(2) by simp
qed simp

subsection \<open>Touching a range before writing it\<close>

lemma appears_there:
  assumes "appears B p s s1" and "user_addr x" and "fr s p x \<noteq> None"
  shows "fr s1 p x \<noteq> None"
  using assms unfolding appears_def by blast

lemma table_multiple: "is_table v \<Longrightarrow> unat v = unat v div 4096 * 4096"
  by (simp add: is_table_def word_unat_eq_iff unat_mod) (metis div_mult_mod_eq add_0_right)

lemma page_order:
  fixes v x :: u64
  assumes "is_table v" and "v \<le> x" and "pg x \<noteq> pg v" and "unat v < 2147483648"
  shows "v + VM_PAGE \<le> x"
proof -
  have m: "unat v = unat v div 4096 * 4096" by (rule table_multiple [OF assms(1)])
  have "unat v div 4096 \<le> unat x div 4096" using assms(2) by (simp add: word_le_nat_alt div_le_mono)
  moreover have "unat x div 4096 \<noteq> unat v div 4096" using assms(3) by (simp add: word_unat_eq_iff unat_div)
  ultimately have "unat v div 4096 + 1 \<le> unat x div 4096" by simp
  then have "(unat v div 4096 + 1) * 4096 \<le> unat x" by (simp add: less_eq_div_iff_mult_less_eq)
  then have "unat v + 4096 \<le> unat x" using m by simp
  moreover have "unat (v + VM_PAGE) = unat v + 4096" using assms(4) by (simp add: unat_add_small window_nat)
  ultimately show ?thesis by (simp add: word_le_nat_alt)
qed

lemma touch_step:
  assumes c: "cur_as w = Some (ap, pm, a)" and ok: "own_ok B (mem w) pm" and u: "user_addr v" and le: "v \<le> lim"
  obtains (gone) w1 where "touch_from pm v lim w = Some (False, w1)" "appears B pm (mem w) (mem w1)" "cur_as w1 = cur_as w"
  | (more) w1 where "touch_from pm v lim w = touch_from pm (v + VM_PAGE) lim w1" "appears B pm (mem w) (mem w1)" "cur_as w1 = cur_as w"
      "fr (mem w1) pm v \<noteq> None"
proof (cases "fr (mem w) pm v")
  case (Some t)
  have "pa_of t v \<noteq> 0" by (rule pa_of_nonzero [OF fr_frame(1,2) [OF ok u Some]])
  then have "touch_from pm v lim w = touch_from pm (v + VM_PAGE) lim w"
    using le translate_fr [OF ok u] Some by (subst touch_from.simps) simp
  then show ?thesis using more [of w] appears_refl [OF ok] Some by simp
next
  case None
  obtain r w1 where f: "vmm_fault v PF_WRITE w = (r, w1)" by force
  note g = fault_appears [OF c ok f]
  have e: "touch_from pm v lim w = (if \<not> r then Some (False, w1) else touch_from pm (v + VM_PAGE) lim w1)"
    using le translate_fr [OF ok u] None f by (subst touch_from.simps) simp
  show ?thesis
  proof (cases r)
    case True
    then show ?thesis using more [of w1] e g by simp
  next
    case False
    then show ?thesis using gone [of w1] e g by simp
  qed
qed

lemma touch_from_effect:
  assumes "cur_as w = Some (ap, pm, a)" and "own_ok B (mem w) pm" and "is_table v" and "1073741824 \<le> unat v" and "unat lim < 2147483648"
  shows "\<exists>r w'. touch_from pm v lim w = Some (r, w') \<and> appears B pm (mem w) (mem w') \<and> cur_as w' = cur_as w
    \<and> (r \<longrightarrow> (\<forall>x. user_addr x \<longrightarrow> v \<le> x \<longrightarrow> x AND NOT (VM_PAGE - 1) \<le> lim \<longrightarrow> fr (mem w') pm x \<noteq> None))"
  using assms(1-4)
proof (induction "unat lim + 4096 - unat v" arbitrary: v w rule: less_induct)
  case less
  show ?case
  proof (cases "v \<le> lim")
    case False
    then have e: "touch_from pm v lim w = Some (True, w)" by (subst touch_from.simps) simp
    have "\<not> (v \<le> x \<and> x AND NOT (VM_PAGE - 1) \<le> lim)" for x
    proof
      assume x: "v \<le> x \<and> x AND NOT (VM_PAGE - 1) \<le> lim"
      have "is_table (x AND NOT (VM_PAGE - 1))" "pg (x AND NOT (VM_PAGE - 1)) = pg x" by (rule page_of)+
      then have "unat v div 4096 * 4096 \<le> unat (x AND NOT (VM_PAGE - 1))"
        using x by (simp add: is_table_def word_unat_eq_iff unat_mod unat_div word_le_nat_alt)
           (metis div_le_mono div_mult_mod_eq add_0_right mult_le_mono1)
      moreover have "unat v = unat v div 4096 * 4096" by (rule table_multiple [OF less.prems(3)])
      ultimately show False using False x by (simp add: word_le_nat_alt)
    qed
    then show ?thesis using e appears_refl [OF less.prems(2)] by blast
  next
    case True
    then have l: "unat v \<le> unat lim" by (simp add: word_le_nat_alt)
    then have u: "user_addr v" using less.prems(4) assms(5) by (simp add: user_addr_def word_le_nat_alt word_less_nat_alt window_nat)
    have n: "unat (v + VM_PAGE) = unat v + 4096" using l assms(5) by (simp add: unat_add_small window_nat)
    from less.prems(1,2) u True show ?thesis
    proof (cases rule: touch_step)
      case (gone w1)
      then show ?thesis by blast
    next
      case (more w1)
      have o1: "own_ok B (mem w1) pm" using more(2) by (simp add: appears_def)
      have tb: "is_table (v + VM_PAGE)" using less.prems(3) by (simp add: is_table_def word_unat_eq_iff unat_mod n)
      have dec: "unat lim + 4096 - unat (v + VM_PAGE) < unat lim + 4096 - unat v" using l n by simp
      have c1: "cur_as w1 = Some (ap, pm, a)" and b1: "1073741824 \<le> unat (v + VM_PAGE)" using more(3) less.prems(1,4) n by simp_all
      obtain r w' where r: "touch_from pm (v + VM_PAGE) lim w1 = Some (r, w')" "appears B pm (mem w1) (mem w')" "cur_as w' = cur_as w1"
        "r \<longrightarrow> (\<forall>x. user_addr x \<longrightarrow> v + VM_PAGE \<le> x \<longrightarrow> x AND NOT (VM_PAGE - 1) \<le> lim \<longrightarrow> fr (mem w') pm x \<noteq> None)"
        using less.hyps [OF dec c1 o1 tb b1] by blast
      have "fr (mem w') pm x \<noteq> None" if "r" "user_addr x" "v \<le> x" "x AND NOT (VM_PAGE - 1) \<le> lim" for x
      proof (cases "pg x = pg v")
        case True
        then have "fr (mem w1) pm x \<noteq> None" using more(4) fr_page [OF that(2) u] by simp
        then show ?thesis by (rule appears_there [OF r(2) that(2)])
      next
        case False
        then have "v + VM_PAGE \<le> x" using page_order [OF less.prems(3) that(3)] l assms(5) by simp
        then show ?thesis using r(4) that by blast
      qed
      then show ?thesis using r(1-3) more(1,3) appears_trans [OF more(2) r(2)] by auto
    qed
  qed
qed

end
