(* ===== verification/Signal_Frames.thy ===== *)
theory Signal_Frames
  imports User_Memory Sched_Inv
begin

text \<open>
  A handler's round trip: what \<^verbatim>\<open>deliver\<close> leaves on the program's stack is what \<^verbatim>\<open>signal_return\<close>
  puts back, byte for byte through the page tables, as long as the handler leaves the frame alone.
\<close>

subsection \<open>The frame as bytes\<close>

lemma le_word_Cons: "le_word (b # bs) = ucast b OR push_bit 8 (le_word bs)"
  by (simp add: le_word_def)

lemma bit_le_word: "length bs \<le> 8 \<Longrightarrow> bit (le_word bs) n \<longleftrightarrow> n div 8 < length bs \<and> bit (bs ! (n div 8)) (n mod 8)"
proof (induction bs arbitrary: n)
  case Nil
  then show ?case by (simp add: le_word_def)
next
  case (Cons b bs)
  show ?case
  proof (cases "n < 8")
    case True
    then show ?thesis by (auto simp: le_word_Cons bit_or_iff bit_push_bit_iff bit_ucast_iff)
  next
    case False
    then have d: "n div 8 = Suc ((n - 8) div 8)" "n mod 8 = (n - 8) mod 8" by (simp_all add: le_div_geq le_mod_geq)
    have "\<not> bit b n" using False bit_imp_le_length [of b n] by auto
    moreover have "n < 64" if "n div 8 < length (b # bs)"
    proof -
      have "n div 8 < 8" using that Cons.prems by simp
      then show ?thesis by (simp add: div_less_iff_less_mult)
    qed
    ultimately show ?thesis using False Cons.IH [of "n - 8"] Cons.prems d
      by (auto simp: le_word_Cons bit_or_iff bit_push_bit_iff bit_ucast_iff)
  qed
qed

lemma length_le_bytes [simp]: "length (le_bytes x) = 8"
  by (simp add: le_bytes_def)

lemma le_word_le_bytes [simp]: "le_word (le_bytes x) = x"
proof (rule bit_word_eqI)
  fix n assume "n < LENGTH(64)"
  then have n: "n div 8 < 8" by (simp add: div_less_iff_less_mult)
  have "bit (le_word (le_bytes x)) n \<longleftrightarrow> bit (drop_bit (8 * (n div 8)) x) (n mod 8)"
    using bit_le_word [of "le_bytes x" n] n by (simp add: le_bytes_def bit_ucast_iff)
  also have "\<dots> \<longleftrightarrow> bit x n" by (simp add: bit_drop_bit_eq)
  finally show "bit (le_word (le_bytes x)) n = bit x n" .
qed

lemma words_of_bytes: "length ws = n \<Longrightarrow> words_of n (concat (map le_bytes ws)) = ws"
  by (induction ws arbitrary: n) auto

lemma words_frame_words [simp]: "words_frame (frame_words f) = f"
  by (simp add: words_frame_def frame_words_def)

lemma length_frame_words [simp]: "length (frame_words f) = 22"
  by (simp add: frame_words_def)

lemma sigframe_round: "length (fx s) = 512 \<Longrightarrow> sigframe_of (sigframe_bytes s) = s"
  using words_of_bytes [of "[magic s, from_door s, blocked s, signo s] @ frame_words (ctx s)" 26]
  by (simp add: sigframe_of_def sigframe_bytes_def Let_def)

lemma length_sigframe_bytes: "length (fx s) = 512 \<Longrightarrow> length (sigframe_bytes s) = SIGFRAME_SIZE"
  by (simp add: sigframe_bytes_def length_concat o_def SIGFRAME_SIZE_def frame_words_def)

lemma sigframe_magic: "length (fx s) = 512 \<Longrightarrow> take 8 (drop 512 (sigframe_bytes s)) = le_bytes (magic s)"
  by (simp add: sigframe_bytes_def)

subsection \<open>Writing where pages are\<close>

lemma user_write_there:
  assumes "own_ok B (mem v) pm" and "1073741824 \<le> unat va" and "unat va + length bs \<le> 2147483648"
    and "\<forall>x. in_bytes va (length bs) x \<longrightarrow> fr (mem v) pm x \<noteq> None \<and> not_shared B (mem v) pm x"
  shows "\<exists>v'. user_write pm va bs v = Some v' \<and> own_ok B (mem v') pm \<and> (\<forall>x. user_addr x \<longrightarrow> fr (mem v') pm x = fr (mem v) pm x)"
  using assms
proof (induction bs arbitrary: va v)
  case (Cons b bs)
  have n: "user_addr va" "unat (va + 1) = unat va + 1" using user_next [of va "length bs"] Cons.prems(2,3) by simp_all
  obtain t where t: "fr (mem v) pm va = Some t" "t \<notin> B"
    using Cons.prems(4) [rule_format, of va] by (auto simp: in_bytes_def not_shared_def)
  note k = poke_effect [OF Cons.prems(1) n(1) t, where b = b]
  let ?v = "poke (pa_of t va) b v"
  have ub: "in_bytes (va + 1) (length bs) x \<Longrightarrow> user_addr x \<and> in_bytes va (length (b # bs)) x" for x
    using Cons.prems(2,3) n(2) by (simp add: in_bytes_def user_addr_def word_le_nat_alt word_less_nat_alt window_nat)
  have "fr (mem ?v) pm x \<noteq> None \<and> not_shared B (mem ?v) pm x" if "in_bytes (va + 1) (length bs) x" for x
  proof -
    have e: "fr (mem ?v) pm x = fr (mem v) pm x" using k(2) ub [OF that] by blast
    have o: "fr (mem v) pm x \<noteq> None \<and> not_shared B (mem v) pm x" using Cons.prems(4) ub [OF that] by blast
    show ?thesis using o unfolding not_shared_def e .
  qed
  then obtain v' where v': "user_write pm (va + 1) bs ?v = Some v'" "own_ok B (mem v') pm"
    "\<forall>x. user_addr x \<longrightarrow> fr (mem v') pm x = fr (mem ?v) pm x"
    using Cons.IH [OF k(1), of "va + 1"] Cons.prems(2,3) n(2) by auto
  then show ?case using user_pa_there [OF Cons.prems(1) n(1) t(1)] k(2) by auto
qed auto

subsection \<open>Leaving the frame\<close>

definition frame_addr :: "sigframe \<Rightarrow> u64" where
  "frame_addr sf = ((rsp (ctx sf) - 128) - of_nat SIGFRAME_SIZE) AND NOT 0xF"

definition tramp_of :: "nat \<Rightarrow> kw \<Rightarrow> u64" where
  "tramp_of c w = (if asp (proc w c) \<noteq> 0 then sig_tramp (spaces (vw w) (asp (proc w c))) else 0)"

definition saved_frame :: "nat \<Rightarrow> int \<Rightarrow> sigframe \<Rightarrow> kw \<Rightarrow> sigframe" where
  "saved_frame c sig sf w =
     sf\<lparr>magic := SIGFRAME_MAGIC, blocked := ucast (sig_blocked (proc w c)), signo := word_of_int sig, fx := core_fpu w\<rparr>"

definition handler_frame :: "int \<Rightarrow> u64 \<Rightarrow> sigframe \<Rightarrow> kw \<Rightarrow> nat \<Rightarrow> sigframe" where
  "handler_frame sig h sf w c =
     sf\<lparr>magic := SIGFRAME_MAGIC, blocked := ucast (sig_blocked (proc w c)), signo := word_of_int sig,
        ctx := (ctx sf)\<lparr>rsp := frame_addr sf - 8, rip := h, rdi := word_of_int sig, rflags := rflags (ctx sf) AND NOT 0x400\<rparr>\<rparr>"

lemma deliver_alt:
  "deliver c sig h sf w =
     (if tramp_of c w = 0 then Some (None, w)
      else Option.bind (vmm_touch_write (frame_addr sf - 8) (of_nat SIGFRAME_SIZE + 8) (view w)) (\<lambda>(ok, v).
          if \<not> ok then Some (None, w\<lparr>vw := v\<rparr>)
          else Option.bind (user_write (core_cr3 w) (frame_addr sf) (sigframe_bytes (saved_frame c sig sf w)) v) (\<lambda>v1.
               Option.bind (user_write (core_cr3 w) (frame_addr sf - 8) (le_bytes (tramp_of c w)) v1) (\<lambda>v2.
                 Some (Some (handler_frame sig h sf w c),
                    upd c (\<lambda>p. p\<lparr>sig_blocked := sig_blocked p OR SIGBIT sig, sig_pending := sig_pending p AND NOT (SIGBIT sig)\<rparr>)
                      (w\<lparr>vw := v2\<rparr>))))))"
  unfolding deliver_def tramp_of_def saved_frame_def handler_frame_def frame_addr_def Let_def by (simp cong: if_cong)

lemma unat_page: "unat (x AND NOT (VM_PAGE - 1) :: u64) = unat x div 4096 * 4096"
proof -
  have "VM_PAGE - 1 = mask 12" by (simp add: VM_PAGE_def mask_eq_exp_minus_1)
  then show ?thesis using unat_and_not_mask [of 12 x] by (simp add: minus_mod_eq_mult_div mult.commute)
qed

lemma touch_write_effect:
  assumes c: "cur_as v = Some (ap, pm, a)" and ok: "own_ok B (mem v) pm" and n: "0 < len" "len < 4096"
  shows "\<exists>r v'. vmm_touch_write sp (of_nat len) v = Some (r, v') \<and> appears B pm (mem v) (mem v') \<and> cur_as v' = cur_as v
    \<and> (r \<longrightarrow> 1073741824 \<le> unat sp \<and> unat sp + len \<le> 2147483648 \<and> (\<forall>x. in_bytes sp len x \<longrightarrow> user_addr x \<and> fr (mem v') pm x \<noteq> None))"
proof -
  let ?n = "of_nat len :: u64"
  have un: "unat ?n = len" using n by (simp add: unat_of_nat)
  have nz: "?n \<noteq> 0" using un n by (metis unat_0 less_irrefl)
  show ?thesis
  proof (cases "pm = 0 \<or> \<not> vmm_user_range_ok sp ?n")
    case True
    then have "vmm_touch_write sp ?n v = Some (False, v)" using c by (auto simp: vmm_touch_write_def)
    then show ?thesis using appears_refl [OF ok] by blast
  next
    case False
    then have b: "1073741824 \<le> unat sp" "unat sp + len \<le> 2147483648" by (simp_all add: user_range_ok_iff un)
    let ?lim = "(sp + ?n - 1) AND NOT (VM_PAGE - 1)"
    have us: "unat (sp + ?n) = unat sp + len" using b un by (simp add: unat_add_small)
    then have ul: "unat (sp + ?n - 1) = unat sp + len - 1" using n by (subst unat_sub_small) simp_all
    have e: "vmm_touch_write sp ?n v = touch_from pm (sp AND NOT (VM_PAGE - 1)) ?lim v"
      using c False nz by (simp add: vmm_touch_write_def)
    have l: "unat ?lim < 2147483648"
    proof -
      have "(unat sp + len - 1) div 4096 * 4096 \<le> unat sp + len - 1" by (rule div_times_less_eq_dividend)
      then show ?thesis unfolding unat_page ul using b n by linarith
    qed
    have "262144 \<le> unat sp div 4096" using b(1) by (simp add: less_eq_div_iff_mult_less_eq)
    then have lo: "1073741824 \<le> unat (sp AND NOT (VM_PAGE - 1))" unfolding unat_page by simp
    obtain r v' where r: "touch_from pm (sp AND NOT (VM_PAGE - 1)) ?lim v = Some (r, v')" "appears B pm (mem v) (mem v')" "cur_as v' = cur_as v"
      "r \<longrightarrow> (\<forall>x. user_addr x \<longrightarrow> sp AND NOT (VM_PAGE - 1) \<le> x \<longrightarrow> x AND NOT (VM_PAGE - 1) \<le> ?lim \<longrightarrow> fr (mem v') pm x \<noteq> None)"
      using touch_from_effect [OF c ok page_of(1) lo l] by blast
    have "user_addr x \<and> fr (mem v') pm x \<noteq> None" if "r" "in_bytes sp len x" for x
    proof -
      have x: "unat sp \<le> unat x" "unat x \<le> unat sp + len - 1" using that(2) unfolding in_bytes_def by linarith+
      then have u: "user_addr x" using b n by (simp add: user_addr_def word_le_nat_alt word_less_nat_alt window_nat)
      have "sp AND NOT (VM_PAGE - 1) \<le> x"
        unfolding word_le_nat_alt unat_page using x(1) by (meson div_times_less_eq_dividend order_trans)
      moreover have "x AND NOT (VM_PAGE - 1) \<le> ?lim"
        unfolding word_le_nat_alt unat_page ul using x(2) by (intro mult_le_mono1 div_le_mono)
      ultimately show ?thesis using r(4) that(1) u by blast
    qed
    then show ?thesis using r(1-3) e b by auto
  qed
qed

lemma deliver_effect:
  assumes cw: "cur_as (view w) = Some (ap, pm, a)" and cr: "core_cr3 w = pm" and ok: "own_ok B (mem (vw w)) pm"
    and fpu: "length (core_fpu w) = 512"
    and ns: "\<forall>x. in_bytes (frame_addr sf - 8) (SIGFRAME_SIZE + 8) x \<longrightarrow> not_shared B (mem (vw w)) pm x"
  shows "(\<exists>v. deliver c sig h sf w = Some (None, w\<lparr>vw := v\<rparr>)) \<or>
    (\<exists>v. deliver c sig h sf w = Some (Some (handler_frame sig h sf w c),
            upd c (\<lambda>p. p\<lparr>sig_blocked := sig_blocked p OR SIGBIT sig, sig_pending := sig_pending p AND NOT (SIGBIT sig)\<rparr>) (w\<lparr>vw := v\<rparr>))
       \<and> own_ok B (mem v) pm \<and> vmm_user_range_ok (frame_addr sf) (of_nat SIGFRAME_SIZE)
       \<and> (\<forall>x. in_bytes (frame_addr sf) SIGFRAME_SIZE x \<longrightarrow>
            byte_at B (mem v) pm x = Some (sigframe_bytes (saved_frame c sig sf w) ! (unat x - unat (frame_addr sf))))
       \<and> (\<forall>x. in_bytes (frame_addr sf - 8) 8 x \<longrightarrow>
            byte_at B (mem v) pm x = Some (le_bytes (tramp_of c w) ! (unat x - unat (frame_addr sf - 8)))))"
proof (cases "tramp_of c w = 0")
  case True
  have "w = w\<lparr>vw := vw w\<rparr>" by simp
  then show ?thesis using True deliver_alt [of c sig h sf w] by metis
next
  case tr: False
  let ?at = "frame_addr sf" and ?sp = "frame_addr sf - 8" and ?fb = "sigframe_bytes (saved_frame c sig sf w)"
  have mv: "mem (view w) = mem (vw w)" by (simp add: view_def mem_def)
  have len: "length ?fb = SIGFRAME_SIZE" using fpu by (intro length_sigframe_bytes) (simp add: saved_frame_def)
  have sz: "(of_nat SIGFRAME_SIZE + 8 :: u64) = of_nat (SIGFRAME_SIZE + 8)" by simp
  obtain r v where r: "vmm_touch_write ?sp (of_nat (SIGFRAME_SIZE + 8)) (view w) = Some (r, v)" "appears B pm (mem (vw w)) (mem v)"
      "cur_as v = cur_as (view w)"
    and rt: "r \<longrightarrow> 1073741824 \<le> unat ?sp \<and> unat ?sp + (SIGFRAME_SIZE + 8) \<le> 2147483648
      \<and> (\<forall>x. in_bytes ?sp (SIGFRAME_SIZE + 8) x \<longrightarrow> user_addr x \<and> fr (mem v) pm x \<noteq> None)"
    using touch_write_effect [OF cw, of B "SIGFRAME_SIZE + 8" ?sp] ok unfolding mv by (auto simp: SIGFRAME_SIZE_def)
  show ?thesis
  proof (cases r)
    case False
    then show ?thesis using r(1) tr unfolding deliver_alt sz by auto
  next
    case True
    then have b: "1073741824 \<le> unat ?sp" "unat ?sp + (SIGFRAME_SIZE + 8) \<le> 2147483648"
      and there: "\<And>x. in_bytes ?sp (SIGFRAME_SIZE + 8) x \<Longrightarrow> user_addr x \<and> fr (mem v) pm x \<noteq> None" using rt by blast+
    have "unat (?sp + 8) = unat ?sp + unat (8 :: u64)" by (rule unat_add_small) (use b in simp)
    then have ua: "unat ?at = unat ?sp + 8" by simp
    have o: "own_ok B (mem v) pm" using r(2) by (simp add: appears_def)
    have nsv: "not_shared B (mem v) pm x" if "in_bytes ?sp (SIGFRAME_SIZE + 8) x" for x
      using appears_not_shared [OF ok r(2)] there [OF that] ns that by blast
    have i1: "in_bytes ?at SIGFRAME_SIZE x \<Longrightarrow> in_bytes ?sp (SIGFRAME_SIZE + 8) x" for x using ua by (simp add: in_bytes_def)
    have i2: "in_bytes ?sp 8 x \<Longrightarrow> in_bytes ?sp (SIGFRAME_SIZE + 8) x" for x by (simp add: in_bytes_def)
    have c: "cur_as v = Some (ap, pm, a)" using r(3) cw by simp
    obtain v1 where v1: "user_write pm ?at ?fb v = Some v1" "own_ok B (mem v1) pm" "\<forall>x. user_addr x \<longrightarrow> fr (mem v1) pm x = fr (mem v) pm x"
      using user_write_there [OF o, of ?at ?fb] b ua there nsv i1 unfolding len by auto
    note e1 = user_write_effect [OF v1(1) c o, unfolded len]
    have e1': "cur_as v1 = cur_as v" "\<forall>x. in_bytes ?at SIGFRAME_SIZE x \<longrightarrow> byte_at B (mem v1) pm x = Some (?fb ! (unat x - unat ?at))"
      "\<forall>x. user_addr x \<longrightarrow> not_shared B (mem v) pm x \<longrightarrow> not_shared B (mem v1) pm x"
      using e1 b ua nsv i1 by auto
    have "\<forall>x. in_bytes ?sp 8 x \<longrightarrow> fr (mem v1) pm x \<noteq> None \<and> not_shared B (mem v1) pm x"
      using v1(3) e1'(3) there nsv i2 by metis
    note w2 = user_write_there [OF v1(2), of ?sp "le_bytes (tramp_of c w)", simplified length_le_bytes, OF b(1) _ this]
    obtain v2 where v2: "user_write pm ?sp (le_bytes (tramp_of c w)) v1 = Some v2" "own_ok B (mem v2) pm"
      using w2 b(2) by (auto simp: SIGFRAME_SIZE_def)
    have ns1: "\<forall>x. in_bytes ?sp 8 x \<longrightarrow> not_shared B (mem v1) pm x" using e1'(3) there nsv i2 by blast
    have c1: "cur_as v1 = Some (ap, pm, a)" using e1'(1) c by simp
    have b8: "unat ?sp + 8 \<le> 2147483648" using b(2) by simp
    note e2 = user_write_effect [OF v2(1) c1 v1(2) b(1), simplified length_le_bytes, OF b8 ns1]
    have fb: "byte_at B (mem v2) pm x = Some (?fb ! (unat x - unat ?at))" if x: "in_bytes ?at SIGFRAME_SIZE x" for x
    proof -
      have "\<not> in_bytes ?sp 8 x" using x ua by (simp add: in_bytes_def)
      then show ?thesis using e1'(2) e2 x there [OF i1 [OF x]] by blast
    qed
    have "vmm_user_range_ok ?at (of_nat SIGFRAME_SIZE)" using b ua by (simp add: user_range_ok_iff SIGFRAME_SIZE_def)
    moreover have "deliver c sig h sf w = Some (Some (handler_frame sig h sf w c),
            upd c (\<lambda>p. p\<lparr>sig_blocked := sig_blocked p OR SIGBIT sig, sig_pending := sig_pending p AND NOT (SIGBIT sig)\<rparr>) (w\<lparr>vw := v2\<rparr>))"
      using tr True r(1) v1(1) v2(1) unfolding deliver_alt sz cr by simp
    ultimately show ?thesis using v2(2) fb e2 by blast
  qed
qed

subsection \<open>Coming back\<close>

lemma frame_addr_aligned: "frame_addr sf AND 15 = 0"
proof -
  have "(x AND NOT 0xF) AND 15 = (0 :: u64)" for x by (simp only: and.assoc) simp
  then show ?thesis unfolding frame_addr_def .
qed

definition intact :: "u64 set \<Rightarrow> u64 \<Rightarrow> u64 \<Rightarrow> u8 list \<Rightarrow> pmm \<Rightarrow> bool" where
  "intact B pm at bs s \<longleftrightarrow> (\<forall>x. in_bytes at (length bs) x \<longrightarrow> byte_at B s pm x = Some (bs ! (unat x - unat at)))"

lemma intact_part:
  assumes "intact B pm at bs s" and "k + n \<le> length bs" and "unat (at + of_nat k) = unat at + k"
  shows "intact B pm (at + of_nat k) (take n (drop k bs)) s"
  unfolding intact_def
proof (intro allI impI)
  fix x assume x: "in_bytes (at + of_nat k) (length (take n (drop k bs))) x"
  then have i: "in_bytes at (length bs) x" "unat x - unat (at + of_nat k) < n" "k + (unat x - unat (at + of_nat k)) = unat x - unat at"
    using assms(2,3) by (auto simp: in_bytes_def)
  then show "byte_at B s pm x = Some (take n (drop k bs) ! (unat x - unat (at + of_nat k)))"
    using assms(1,2) by (simp add: intact_def)
qed

lemma signal_return_exact:
  assumes c: "current w = Some c" and cr: "core_cr3 w = pm" and ok: "own_ok B (mem (vw w)) pm"
    and at: "vmm_user_range_ok at (of_nat SIGFRAME_SIZE)" "at AND 15 = 0"
    and sf: "length (fx sf) = 512" "magic sf = SIGFRAME_MAGIC" and i: "intact B pm at (sigframe_bytes sf) (mem (vw w))"
  shows "\<exists>w'. signal_return f at w = Some (if from_door sf = SIGFROM_SYSCALL then Back_syscall (rax (ctx sf)) (load_syscall (ctx sf))
            else Back_interrupt (sigframe_to_frame sf), w')
    \<and> w' = upd c (\<lambda>p. p\<lparr>sig_blocked := ucast (blocked sf)\<rparr>) (upd_cpu (\<lambda>k. k\<lparr>fpu := fx sf\<rparr>) (w\<lparr>vw := view w\<rparr>))"
proof -
  let ?b = "sigframe_bytes sf"
  have mv: "mem (view w) = mem (vw w)" by (simp add: view_def mem_def)
  have len: "length ?b = SIGFRAME_SIZE" by (rule length_sigframe_bytes [OF sf(1)])
  have b: "1073741824 \<le> unat at" "unat at + SIGFRAME_SIZE \<le> 2147483648"
    using at(1) by (simp_all add: user_range_ok_iff SIGFRAME_SIZE_def)
  have u: "unat (at + 512) = unat at + 512" using b by (simp add: unat_add_small SIGFRAME_SIZE_def)
  have "intact B pm (at + of_nat 512) (take 8 (drop 512 ?b)) (mem (vw w))"
    by (rule intact_part [OF i]) (use u len in \<open>simp_all add: SIGFRAME_SIZE_def\<close>)
  then have m: "user_read pm (at + 512) 8 (view w) = Some (le_bytes (magic sf), view w)"
    using user_read_effect [of B "view w" pm "at + 512" "le_bytes (magic sf)"] ok b u
    unfolding mv intact_def sigframe_magic [OF sf(1)] by (simp add: SIGFRAME_SIZE_def)
  have a: "user_read pm at SIGFRAME_SIZE (view w) = Some (?b, view w)"
    using user_read_effect [of B "view w" pm at ?b] ok b i unfolding mv intact_def len by simp
  show ?thesis using c at cr m a sf by (simp add: signal_return_def Let_def sigframe_round)
qed

text \<open>
  C6. Where the stack pages the frame would lie on are not shared with another process, delivering a signal to a handler either leaves the process as it was, because the frame cannot be placed, or starts the handler
  with the signal's number, an aligned stack and the trampoline as its return address; the kernel never panics over it.
  When the handler returns through the trampoline with the saved frame's bytes unharmed, whatever else happened to memory meanwhile,
  \<open>signal_return\<close> continues with exactly the registers, signal mask and floating-point state the program had.
\<close>

theorem handler_round_trip:
  assumes "cur_as (view w) = Some (ap, pm, a)" and "core_cr3 w = pm" and "own_ok B (mem (vw w)) pm" and "length (core_fpu w) = 512"
    and "\<forall>x. in_bytes (frame_addr sf - 8) (SIGFRAME_SIZE + 8) x \<longrightarrow> not_shared B (mem (vw w)) pm x"
  shows "\<exists>r w1. deliver c sig h sf w = Some (r, w1) \<and> (r = None \<longrightarrow> procs w1 = procs w \<and> cpus w1 = cpus w) \<and>
    (\<forall>sf'. r = Some sf' \<longrightarrow>
       rip (ctx sf') = h \<and> rdi (ctx sf') = word_of_int sig \<and> (rsp (ctx sf') + 8) AND 15 = 0
       \<and> intact B pm (rsp (ctx sf')) (le_bytes (tramp_of c w)) (mem (vw w1))
       \<and> (\<forall>w2 f. current w2 = Some c \<longrightarrow> c < length (procs w2) \<longrightarrow> me w2 < length (cpus w2) \<longrightarrow> core_cr3 w2 = pm \<longrightarrow>
            own_ok B (mem (vw w2)) pm \<longrightarrow>
            (\<forall>x. in_bytes (rsp (ctx sf') + 8) SIGFRAME_SIZE x \<longrightarrow> byte_at B (mem (vw w2)) pm x = byte_at B (mem (vw w1)) pm x) \<longrightarrow>
            (\<exists>w3. signal_return f (rsp (ctx sf') + 8) w2 =
                 Some (if from_door sf = SIGFROM_SYSCALL then Back_syscall (rax (ctx sf)) (load_syscall (ctx sf))
                       else Back_interrupt (sigframe_to_frame sf), w3)
               \<and> sig_blocked (proc w3 c) = sig_blocked (proc w c) \<and> core_fpu w3 = core_fpu w)))"
  using deliver_effect [OF assms, of c sig h]
proof (elim disjE exE conjE)
  fix v assume "deliver c sig h sf w = Some (None, w\<lparr>vw := v\<rparr>)"
  then show ?thesis by simp
next
  fix v
  let ?hf = "handler_frame sig h sf w c" and ?saved = "saved_frame c sig sf w" and ?at = "frame_addr sf"
  let ?w1 = "upd c (\<lambda>p. p\<lparr>sig_blocked := sig_blocked p OR SIGBIT sig, sig_pending := sig_pending p AND NOT (SIGBIT sig)\<rparr>) (w\<lparr>vw := v\<rparr>)"
  assume d: "deliver c sig h sf w = Some (Some ?hf, ?w1)"
    and rng: "vmm_user_range_ok ?at (of_nat SIGFRAME_SIZE)"
    and fb: "\<forall>x. in_bytes ?at SIGFRAME_SIZE x \<longrightarrow> byte_at B (mem v) pm x = Some (sigframe_bytes ?saved ! (unat x - unat ?at))"
    and tb: "\<forall>x. in_bytes (?at - 8) 8 x \<longrightarrow> byte_at B (mem v) pm x = Some (le_bytes (tramp_of c w) ! (unat x - unat (?at - 8)))"
  have len: "length (fx ?saved) = 512" using assms(4) by (simp add: saved_frame_def)
  have hf: "rip (ctx ?hf) = h" "rdi (ctx ?hf) = word_of_int sig" "rsp (ctx ?hf) = ?at - 8" by (simp_all add: handler_frame_def)
  have returns: "\<exists>w3. signal_return f ?at w2 = Some (if from_door sf = SIGFROM_SYSCALL then Back_syscall (rax (ctx sf)) (load_syscall (ctx sf))
                       else Back_interrupt (sigframe_to_frame sf), w3)
               \<and> sig_blocked (proc w3 c) = sig_blocked (proc w c) \<and> core_fpu w3 = core_fpu w"
    if w2: "current w2 = Some c" "c < length (procs w2)" "me w2 < length (cpus w2)" "core_cr3 w2 = pm" "own_ok B (mem (vw w2)) pm"
      and same: "\<forall>x. in_bytes ?at SIGFRAME_SIZE x \<longrightarrow> byte_at B (mem (vw w2)) pm x = byte_at B (mem v) pm x" for w2 f
  proof -
    have i: "intact B pm ?at (sigframe_bytes ?saved) (mem (vw w2))"
      using fb same unfolding intact_def length_sigframe_bytes [OF len] by simp
    have m: "magic ?saved = SIGFRAME_MAGIC" by (simp add: saved_frame_def)
    note t = signal_return_exact [OF w2(1,4,5) rng frame_addr_aligned len m i, of f]
    have b: "ucast (blocked ?saved) = sig_blocked (proc w c)" by (rule bit_word_eqI) (simp add: saved_frame_def bit_ucast_iff)
    have k: "from_door ?saved = from_door sf" "ctx ?saved = ctx sf" "fx ?saved = core_fpu w" "sigframe_to_frame ?saved = sigframe_to_frame sf"
      by (simp_all add: saved_frame_def sigframe_to_frame_def)
    show ?thesis using t w2(2,3) unfolding k b by (auto simp: proc_def upd_nth core_fpu_def upd_cpu_def upd_def)
  qed
  show ?thesis using d hf frame_addr_aligned [of sf] tb returns by (auto simp: intact_def)
qed

definition signal_demo :: "u64 \<Rightarrow> pmm \<Rightarrow> kw" where
  "signal_demo pm s =
     sched_demo\<lparr>vw := set_mem s (vm_demo\<lparr>spaces := (\<lambda>_. (spaces vm_demo 0)\<lparr>sig_tramp := 0x40002000\<rparr>)\<rparr>),
       procs := (procs sched_demo)[0 := (demo_proc 1)\<lparr>pstate := PROC_RUNNING, asp := 0x9000, ppml4 := pm\<rparr>],
       cpus := [idle_cpu\<lparr>current_proc := Some 0, cr3 := pm, fpu := replicate 512 3\<rparr>, idle_cpu]\<rparr>"

theorem handler_round_trip_witness:
  "\<exists>pm s r w1. own_ok {} s pm \<and> tramp_of 0 (signal_demo pm s) \<noteq> 0
     \<and> deliver 0 14 0x40001000 (frame_to_sigframe (zero_frame\<lparr>rsp := 0x7FFFF000\<rparr>) (sigframe_of [])) (signal_demo pm s) = Some (r, w1)"
proof -
  obtain pm s where n: "own_ok {} s pm" using page_demo_new by metis
  let ?w = "signal_demo pm s"
  have c: "cur_as (view ?w) = Some (0x9000, pm, (spaces vm_demo 0)\<lparr>sig_tramp := 0x40002000\<rparr>)"
    using demo_procs(1) by (simp add: view_def cur_as_def signal_demo_def current_def proc_def) (simp add: sched_demo_def)
  have "core_cr3 ?w = pm" "length (core_fpu ?w) = 512" "mem (vw ?w) = s" "tramp_of 0 ?w \<noteq> 0"
    using demo_procs(1) by (simp_all add: core_cr3_def core_fpu_def signal_demo_def tramp_of_def proc_def) (simp_all add: sched_demo_def)
  note f = this
  let ?sf = "frame_to_sigframe (zero_frame\<lparr>rsp := 0x7FFFF000\<rparr>) (sigframe_of [])"
  have o: "own_ok {} (mem (vw ?w)) pm" using f(3) n by simp
  have ns: "\<forall>x. in_bytes (frame_addr ?sf - 8) (SIGFRAME_SIZE + 8) x \<longrightarrow> not_shared {} (mem (vw ?w)) pm x" by (simp add: not_shared_def)
  obtain r w1 where "deliver 0 14 0x40001000 ?sf ?w = Some (r, w1)"
    using handler_round_trip [OF c f(1) o f(2) ns, of 0 14 "0x40001000"] by blast
  then show ?thesis using n f(4) by blast
qed

end
