(* ===== verification/Bignum.thy ===== *)
theory Bignum
  imports Prelude
begin

text \<open>
  The big integers of \<^verbatim>\<open>kernel/crypto/bignum.c\<close>: a number is a count of
  significant limbs and an array of sixty-four 64-bit limbs, least significant first.
  Every counting loop of the C code is the state after that many iterations
  (\<open>primrec\<close> on the iteration count), with the 128-bit intermediates kept as
  128-bit words.  The value of a number is the sum of its limbs in base
  \<^term>\<open>2 ^ 64\<close>; the lemmas read each operation through it, up to
  Montgomery multiplication and modular exponentiation.
\<close>

type_synonym u128 = "128 word"

definition BN_MAX_LIMBS :: nat where
  "BN_MAX_LIMBS = 64"

record bn =
  bn_n :: nat
  bn_v :: "u64 list"

record bn_mont =
  mont_n :: bn
  mont_rr :: bn
  mont_n0 :: u64

subsection \<open>The operations\<close>

definition bn_zero :: bn where
  "bn_zero = \<lparr> bn_n = 0, bn_v = replicate BN_MAX_LIMBS 0 \<rparr>"

primrec trim_count :: "u64 list \<Rightarrow> nat \<Rightarrow> nat" where
  "trim_count v 0 = 0"
| "trim_count v (Suc k) = (if v ! k = 0 then trim_count v k else Suc k)"

definition bn_trim :: "bn \<Rightarrow> bn" where
  "bn_trim a = a \<lparr> bn_n := trim_count (bn_v a) (bn_n a) \<rparr>"

primrec or_bytes :: "u8 list \<Rightarrow> nat \<Rightarrow> u64 list \<Rightarrow> u64 list" where
  "or_bytes be 0 v = v"
| "or_bytes be (Suc i) v =
     (let v = or_bytes be i v;
          b = (length be - 1 - i) * 8
      in v[b div 64 := (v ! (b div 64)) OR push_bit (b mod 64) (ucast (be ! i))])"

text \<open>The first component is the value returned, 1 or 0.\<close>

definition bn_from_bytes :: "u8 list \<Rightarrow> bool \<times> bn" where
  "bn_from_bytes bytes =
     (let be = dropWhile (\<lambda>b. b = 0) bytes
      in if length be > BN_MAX_LIMBS * 8 then (False, bn_zero)
         else (True, bn_trim \<lparr> bn_n = (length be * 8 + 63) div 64,
                              bn_v = or_bytes be (length be) (bn_v bn_zero) \<rparr>))"

text \<open>The limb a loop reads: 0 from the count on.\<close>

definition limb :: "bn \<Rightarrow> nat \<Rightarrow> u64" where
  "limb a i = (if i < bn_n a then bn_v a ! i else 0)"

definition bn_to_bytes :: "bn \<Rightarrow> nat \<Rightarrow> u8 list" where
  "bn_to_bytes a len =
     map (\<lambda>i. let b = (len - 1 - i) * 8
              in if b div 64 < bn_n a then ucast (drop_bit (b mod 64) (bn_v a ! (b div 64))) else 0)
       [0..<len]"

function top_bytes :: "u64 \<Rightarrow> nat" where
  "top_bytes t = (if t \<noteq> 0 then Suc (top_bytes (drop_bit 8 t)) else 0)"
  by auto

termination
proof (relation "measure unat")
  fix t :: u64
  assume "t \<noteq> 0"
  then have "0 < unat t" by (simp add: unat_gt_0)
  then show "(drop_bit 8 t, t) \<in> measure unat" by (simp add: drop_bit_eq_div unat_div)
qed simp

declare top_bytes.simps [simp del]

definition bn_bytes :: "bn \<Rightarrow> nat" where
  "bn_bytes a =
     (if bn_n a = 0 then 0 else (bn_n a - 1) * 8 + top_bytes (bn_v a ! (bn_n a - 1)))"

primrec cmp_from :: "bn \<Rightarrow> bn \<Rightarrow> nat \<Rightarrow> int" where
  "cmp_from a b 0 = 0"
| "cmp_from a b (Suc i) =
     (if limb a i \<noteq> limb b i then (if limb b i < limb a i then 1 else -1) else cmp_from a b i)"

definition bn_cmp :: "bn \<Rightarrow> bn \<Rightarrow> int" where
  "bn_cmp a b = cmp_from a b (if bn_n b < bn_n a then bn_n a else bn_n b)"

primrec sub_limbs :: "bn \<Rightarrow> nat \<Rightarrow> u64 list \<Rightarrow> u64 list \<times> u64" where
  "sub_limbs b 0 v = (v, 0)"
| "sub_limbs b (Suc i) v =
     (let (v, borrow) = sub_limbs b i v;
          d = (ucast (v ! i) :: u128) - ucast (limb b i) - ucast borrow
      in (v[i := ucast d], if (ucast (drop_bit 64 d) :: u64) \<noteq> 0 then 1 else 0))"

definition sub_w :: "bn \<Rightarrow> bn \<Rightarrow> nat \<Rightarrow> bn" where
  "sub_w a b w = bn_trim (a \<lparr> bn_v := fst (sub_limbs b w (bn_v a)), bn_n := w \<rparr>)"

primrec newton64 :: "u64 \<Rightarrow> nat \<Rightarrow> u64" where
  "newton64 n 0 = n"
| "newton64 n (Suc i) = (let x = newton64 n i in x * (2 - n * x))"

definition inv64 :: "u64 \<Rightarrow> u64" where
  "inv64 n = 0 - newton64 n 5"

primrec shl_limbs :: "nat \<Rightarrow> u64 list \<Rightarrow> u64 list \<times> u64" where
  "shl_limbs 0 v = (v, 0)"
| "shl_limbs (Suc j) v =
     (let (v, carry) = shl_limbs j v;
          hi = drop_bit 63 (v ! j)
      in (v[j := push_bit 1 (v ! j) OR carry], hi))"

definition mod_double :: "bn \<Rightarrow> bn \<Rightarrow> bn" where
  "mod_double n rr =
     (let w = bn_n n;
          (v, carry) = shl_limbs w (bn_v rr);
          rr = rr \<lparr> bn_v := v, bn_n := w \<rparr>;
          rr = (if carry \<noteq> 0 \<or> 0 \<le> bn_cmp rr n then sub_w rr n w else rr)
      in rr \<lparr> bn_n := w \<rparr>)"

text \<open>\<^const>\<open>None\<close> is the return of 0, which leaves the context unwritten.\<close>

definition bn_mont_init :: "bn \<Rightarrow> bn_mont option" where
  "bn_mont_init n =
     (if bn_n n = 0 \<or> bn_v n ! 0 AND 1 = 0 then None
      else (let w = bn_n n;
                rr = bn_zero;
                rr = \<lparr> bn_n = w, bn_v = (bn_v rr)[0 := 1] \<rparr>;
                rr = (mod_double n ^^ (128 * w)) rr
            in Some \<lparr> mont_n = n, mont_rr = bn_trim rr, mont_n0 = inv64 (bn_v n ! 0) \<rparr>))"

text \<open>One row: \<open>t += x * f\<close> over the low limbs, with the carry out.\<close>

primrec mul_row :: "u64 \<Rightarrow> (nat \<Rightarrow> u64) \<Rightarrow> nat \<Rightarrow> u64 list \<Rightarrow> u64 list \<times> u128" where
  "mul_row x f 0 t = (t, 0)"
| "mul_row x f (Suc j) t =
     (let (t, carry) = mul_row x f j t;
          s = ucast x * ucast (f j) + ucast (t ! j) + carry
      in (t[j := ucast s], drop_bit 64 s))"

definition add_row :: "u64 \<Rightarrow> (nat \<Rightarrow> u64) \<Rightarrow> nat \<Rightarrow> u64 list \<Rightarrow> u64 list" where
  "add_row x f n t =
     (let (t, carry) = mul_row x f n t;
          s = ucast (t ! n) + carry;
          t = t[n := ucast s]
      in t[n + 1 := t ! (n + 1) + ucast (drop_bit 64 s)])"

definition shift_down :: "nat \<Rightarrow> u64 list \<Rightarrow> u64 list" where
  "shift_down n t = (fold (\<lambda>j t. t[j := t ! (j + 1)]) [0..<n + 1] t)[n + 1 := 0]"

definition mont_round :: "bn \<Rightarrow> bn \<Rightarrow> bn_mont \<Rightarrow> nat \<Rightarrow> u64 list \<Rightarrow> u64 list" where
  "mont_round a b m i t =
     (let n = bn_n (mont_n m);
          t = add_row (limb a i) (limb b) n t;
          u = t ! 0 * mont_n0 m;
          t = add_row u (\<lambda>j. bn_v (mont_n m) ! j) n t
      in shift_down n t)"

primrec mont_rounds :: "bn \<Rightarrow> bn \<Rightarrow> bn_mont \<Rightarrow> nat \<Rightarrow> u64 list \<Rightarrow> u64 list" where
  "mont_rounds a b m 0 t = t"
| "mont_rounds a b m (Suc i) t = mont_round a b m i (mont_rounds a b m i t)"

text \<open>The accumulator is only ever read in its first \<open>n + 2\<close> places, which the
  first loop clears.\<close>

definition bn_mont_mul :: "bn \<Rightarrow> bn \<Rightarrow> bn_mont \<Rightarrow> bn" where
  "bn_mont_mul a b m =
     (let n = bn_n (mont_n m);
          t = mont_rounds a b m n (replicate (n + 2) 0);
          r = bn_zero \<lparr> bn_v := take n t @ drop n (bn_v bn_zero), bn_n := n \<rparr>;
          r = (if t ! n \<noteq> 0 \<or> 0 \<le> bn_cmp r (mont_n m) then sub_w r (mont_n m) n else r)
      in bn_trim r)"

definition bn_one :: bn where
  "bn_one = \<lparr> bn_n = 1, bn_v = (bn_v bn_zero)[0 := 1] \<rparr>"

text \<open>One bit of the exponent: square once started, multiply on a set bit.\<close>

definition modexp_bit :: "('a \<Rightarrow> 'a \<Rightarrow> 'a) \<Rightarrow> 'a \<Rightarrow> bool \<Rightarrow> bool \<times> 'a \<Rightarrow> bool \<times> 'a" where
  "modexp_bit mul x is_set st =
     (let (started, acc) = st;
          acc = (if started then mul acc acc else acc)
      in if is_set then (if \<not> started then (True, x) else (started, mul acc x))
         else (started, acc))"

definition modexp_byte :: "('a \<Rightarrow> 'a \<Rightarrow> 'a) \<Rightarrow> 'a \<Rightarrow> u8 \<Rightarrow> bool \<times> 'a \<Rightarrow> bool \<times> 'a" where
  "modexp_byte mul x e = fold (\<lambda>b. modexp_bit mul x (drop_bit b e AND 1 \<noteq> 0)) [7, 6, 5, 4, 3, 2, 1, 0]"

definition bn_modexp :: "bn \<Rightarrow> u8 list \<Rightarrow> bn_mont \<Rightarrow> bn" where
  "bn_modexp base exp m =
     (let x = bn_mont_mul base (mont_rr m) m;
          (started, acc) = fold (modexp_byte (\<lambda>a b. bn_mont_mul a b m) x) exp (False, bn_zero)
      in if \<not> started then bn_one else bn_mont_mul acc bn_one m)"

definition bn_set_u64 :: "u64 \<Rightarrow> bn" where
  "bn_set_u64 x = \<lparr> bn_n = (if x \<noteq> 0 then 1 else 0), bn_v = (bn_v bn_zero)[0 := x] \<rparr>"

definition bn_is_zero :: "bn \<Rightarrow> bool" where
  "bn_is_zero a = list_all (\<lambda>i. bn_v a ! i = 0) [0..<bn_n a]"

definition bn_bit :: "bn \<Rightarrow> int \<Rightarrow> u64" where
  "bn_bit a i =
     (if i < 0 \<or> int (bn_n a) * 64 \<le> i then 0
      else drop_bit (nat i mod 64) (bn_v a ! (nat i div 64)) AND 1)"

text \<open>The addition loop of the modular sum and difference; each place is read before it
  is written, so a sum that overwrites its first operand reads the operand's own limbs.\<close>

primrec add_limbs :: "(nat \<Rightarrow> u64) \<Rightarrow> (nat \<Rightarrow> u64) \<Rightarrow> nat \<Rightarrow> u64 list \<Rightarrow> u64 list \<times> u64" where
  "add_limbs f g 0 v = (v, 0)"
| "add_limbs f g (Suc i) v =
     (let (v, carry) = add_limbs f g i v;
          s2 = (ucast (f i) :: u128) + ucast (g i) + ucast carry
      in (v[i := ucast s2], ucast (drop_bit 64 s2)))"

definition bn_mod_add :: "bn \<Rightarrow> bn \<Rightarrow> bn \<Rightarrow> bn" where
  "bn_mod_add a b n =
     (let w = bn_n n;
          (v, carry) = add_limbs (limb a) (limb b) w (bn_v bn_zero);
          t = bn_zero \<lparr> bn_v := v, bn_n := w \<rparr>;
          t = (if carry \<noteq> 0 \<or> 0 \<le> bn_cmp t n then sub_w t n w else t)
      in bn_trim (t \<lparr> bn_n := w \<rparr>))"

definition bn_mod_sub :: "bn \<Rightarrow> bn \<Rightarrow> bn \<Rightarrow> bn" where
  "bn_mod_sub a b n =
     (let w = bn_n n;
          t = a \<lparr> bn_n := w \<rparr>;
          t = (if bn_cmp a b < 0
               then t \<lparr> bn_v := fst (add_limbs (\<lambda>i. bn_v a ! i) (\<lambda>i. bn_v n ! i) w (bn_v a)) \<rparr>
               else t)
      in bn_trim (sub_w t b w))"

definition bn_mont_in :: "bn \<Rightarrow> bn_mont \<Rightarrow> bn" where
  "bn_mont_in a m = bn_mont_mul a (mont_rr m) m"

definition bn_mont_out :: "bn \<Rightarrow> bn_mont \<Rightarrow> bn" where
  "bn_mont_out a m = bn_mont_mul a bn_one m"

subsection \<open>Values\<close>

definition BASE :: nat where
  "BASE = 2 ^ 64"

definition wsum :: "(nat \<Rightarrow> u64) \<Rightarrow> nat \<Rightarrow> nat" where
  "wsum f n = (\<Sum>i<n. unat (f i) * BASE ^ i)"

definition bn_val :: "bn \<Rightarrow> nat" where
  "bn_val a = wsum (limb a) (bn_n a)"

text \<open>The shape of a number while it is worked on, a full array with nothing above the
  count, and the shape every public operation leaves, with no leading zero limb either.\<close>

definition bn_shape :: "bn \<Rightarrow> bool" where
  "bn_shape a \<longleftrightarrow> length (bn_v a) = BN_MAX_LIMBS \<and> bn_n a \<le> BN_MAX_LIMBS \<and>
     list_all (\<lambda>i. bn_v a ! i = 0) [bn_n a..<BN_MAX_LIMBS]"

definition bn_wf :: "bn \<Rightarrow> bool" where
  "bn_wf a \<longleftrightarrow> bn_shape a \<and> (bn_n a = 0 \<or> bn_v a ! (bn_n a - 1) \<noteq> 0)"

lemma BASE_pos [simp]: "0 < BASE" "BASE \<noteq> 0" "1 < BASE" "Suc 0 < BASE" "Suc 0 \<le> BASE"
  by (simp_all add: BASE_def)

lemma unat_lt_BASE [simp]: "unat (x :: u64) < BASE"
  using unat_u64_bound [of x] by (simp add: BASE_def)

lemma unat_le_BASE: "unat (x :: u64) \<le> BASE - 1"
  using unat_lt_BASE [of x] by linarith

lemma wsum_0 [simp]: "wsum f 0 = 0"
  by (simp add: wsum_def)

lemma wsum_Suc [simp]: "wsum f (Suc n) = wsum f n + unat (f n) * BASE ^ n"
  by (simp add: wsum_def)

lemma wsum_cong: "(\<And>i. i < n \<Longrightarrow> f i = g i) \<Longrightarrow> wsum f n = wsum g n"
  by (simp add: wsum_def)

lemma wsum_zero: "(\<And>i. i < n \<Longrightarrow> f i = 0) \<Longrightarrow> wsum f n = 0"
  by (simp add: wsum_def)

lemma wsum_less: "wsum f n < BASE ^ n"
proof (induction n)
  case (Suc n)
  have "unat (f n) + 1 \<le> BASE" using unat_lt_BASE [of "f n"] by linarith
  then have "(unat (f n) + 1) * BASE ^ n \<le> BASE * BASE ^ n" by (rule mult_le_mono1)
  then show ?case using Suc by (simp add: algebra_simps)
qed simp

lemma wsum_split: "wsum f (m + n) = wsum f m + BASE ^ m * wsum (\<lambda>i. f (m + i)) n"
  by (induction n) (simp_all add: algebra_simps power_add)

lemma wsum_Suc_low: "wsum f (Suc n) = unat (f 0) + BASE * wsum (\<lambda>i. f (Suc i)) n"
  using wsum_split [of f 1 n] by simp

lemma wsum_extend:
  assumes "m \<le> n" and "\<And>i. \<lbrakk> m \<le> i; i < n \<rbrakk> \<Longrightarrow> f i = 0"
  shows "wsum f n = wsum f m"
  using assms
proof (induction n)
  case (Suc n)
  then show ?case by (cases "m = Suc n") auto
qed simp

lemma wsum_limb [simp]: "bn_n a \<le> n \<Longrightarrow> wsum (limb a) n = bn_val a"
  unfolding bn_val_def by (rule wsum_extend) (simp_all add: limb_def)

lemma wsum_update:
  assumes "k < n" "k < length v"
  shows "wsum ((!) (v[k := x])) n + unat (v ! k) * BASE ^ k = wsum ((!) v) n + unat x * BASE ^ k"
  using assms
proof (induction n)
  case (Suc n)
  show ?case
  proof (cases "k = n")
    case True
    have "wsum ((!) (v[k := x])) n = wsum ((!) v) n"
      using True by (intro wsum_cong) simp
    then show ?thesis using True Suc.prems by simp
  next
    case False
    then show ?thesis using Suc by simp
  qed
qed simp

lemma wsum_update_above [simp]:
  "n \<le> k \<Longrightarrow> wsum ((!) (v[k := x])) n = wsum ((!) v) n"
  by (rule wsum_cong) simp

lemma wsum_digit:
  assumes "i < n"
  shows "wsum f n div BASE ^ i mod BASE = unat (f i)"
proof -
  obtain k where n: "n = i + Suc k" using assms less_imp_Suc_add by auto
  have "wsum f n = wsum f i + BASE ^ i * (unat (f i) + BASE * wsum (\<lambda>j. f (i + Suc j)) k)"
    unfolding n wsum_split wsum_Suc_low by simp
  then have "wsum f n div BASE ^ i = unat (f i) + BASE * wsum (\<lambda>j. f (i + Suc j)) k"
    using wsum_less [of f i] by simp
  then show ?thesis by simp
qed

lemma bn_val_digit: "bn_val a div BASE ^ i mod BASE = unat (limb a i)"
proof (cases "i < bn_n a")
  case True
  then show ?thesis unfolding bn_val_def by (rule wsum_digit)
next
  case False
  then have "BASE ^ bn_n a \<le> BASE ^ i" by (intro power_increasing) simp_all
  then have "bn_val a < BASE ^ i"
    unfolding bn_val_def using wsum_less [of "limb a" "bn_n a"] by linarith
  then show ?thesis using False by (simp add: limb_def)
qed

subsection \<open>128-bit intermediates\<close>

lemma unat_ucast_128 [simp]: "unat (ucast (x :: u64) :: u128) = unat x"
  using unat_u64_bound [of x] by (simp add: unsigned_ucast_eq take_bit_eq_mod)

lemma unat_ucast_low: "unat (ucast (s :: u128) :: u64) = unat s mod BASE"
  by (simp add: BASE_def unsigned_ucast_eq take_bit_eq_mod)

lemma unat_high: "unat (drop_bit 64 (s :: u128)) = unat s div BASE"
  by (simp add: BASE_def drop_bit_eq_div unat_div)

lemma unat_high_less: "unat (drop_bit 64 (s :: u128)) < BASE"
proof -
  have "unat s < BASE * BASE" using unat_less_exp [of s] by (simp add: BASE_def)
  then show ?thesis by (simp add: unat_high div_less_iff_less_mult)
qed

lemma BASE_sq: "BASE * BASE = 2 ^ 128"
  by (simp add: BASE_def)

lemma mul_add_bound:
  assumes "x < BASE" "y < BASE" "z < BASE" "c < BASE"
  shows "x * y + z + c < 2 ^ 128"
proof -
  have "x * y \<le> (BASE - 1) * (BASE - 1)" using assms by (intro mult_le_mono) auto
  moreover have "z \<le> BASE - 1" "c \<le> BASE - 1" using assms by auto
  moreover have "(BASE - 1) * (BASE - 1) + (BASE - 1) + (BASE - 1) < 2 ^ 128"
    by (simp add: BASE_def)
  ultimately show ?thesis by linarith
qed

lemma unat_mul_add:
  assumes "unat c < BASE"
  shows "unat ((ucast (x :: u64) :: u128) * ucast (y :: u64) + ucast (z :: u64) + c) =
    unat x * unat y + unat z + unat c"
proof -
  have b: "unat x * unat y + unat z + unat c < 2 ^ 128"
    by (rule mul_add_bound) (simp_all add: assms)
  have "unat ((ucast x :: u128) * ucast y) = unat x * unat y"
    using b by (subst unat_mult_small) simp_all
  moreover from this have "unat ((ucast x :: u128) * ucast y + ucast z) = unat x * unat y + unat z"
    using b by (subst unat_add_small) simp_all
  ultimately show ?thesis using b by (subst unat_add_small) simp_all
qed

lemma unat_add_128:
  assumes "unat c < BASE"
  shows "unat ((ucast (z :: u64) :: u128) + c) = unat z + unat c"
  using unat_mul_add [OF assms, of 0 0 z] by simp

lemma low_high: "unat (ucast (s :: u128) :: u64) + unat (drop_bit 64 s) * BASE = unat s"
  by (simp add: unat_ucast_low unat_high)

lemma unat_ucast_high [simp]: "unat (ucast (drop_bit 64 (s :: u128)) :: u64) = unat (drop_bit 64 s)"
  using unat_high_less [of s] by (simp add: unat_ucast_low)

subsection \<open>The limb loops\<close>

text \<open>One place of a loop that replaces limb \<open>n\<close> by the low half of a sum.\<close>

lemma wsum_store:
  assumes "n < length v" and "unat y + q * BASE = z"
  shows "wsum ((!) (v[n := y])) (Suc n) + q * BASE ^ Suc n = wsum ((!) v) n + z * BASE ^ n"
  using assms by (auto simp: algebra_simps)

lemma mul_row_spec:
  assumes "n \<le> length t" and "mul_row x f n t = (t', c)"
  shows "length t' = length t \<and> unat c < BASE \<and>
    wsum ((!) t') n + unat c * BASE ^ n = unat x * wsum f n + wsum ((!) t) n \<and>
    (\<forall>k\<ge>n. t' ! k = t ! k)"
  using assms
proof (induction n arbitrary: t' c)
  case (Suc n)
  obtain u d where u: "mul_row x f n t = (u, d)" by fastforce
  let ?s = "ucast x * ucast (f n) + ucast (u ! n) + d"
  have t': "t' = u[n := ucast ?s]" and c: "c = drop_bit 64 ?s"
    using Suc.prems(2) by (simp_all add: u Let_def)
  have IH: "length u = length t" "unat d < BASE"
      "wsum ((!) u) n + unat d * BASE ^ n = unat x * wsum f n + wsum ((!) t) n"
      "\<forall>k\<ge>n. u ! k = t ! k"
    using Suc.IH [OF _ u] Suc.prems(1) by auto
  have s: "unat (ucast ?s :: u64) + unat c * BASE = unat x * unat (f n) + unat (t ! n) + unat d"
    unfolding c low_high using unat_mul_add [OF IH(2)] IH(4) by simp
  have "wsum ((!) t') (Suc n) + unat c * BASE ^ Suc n =
      wsum ((!) u) n + (unat x * unat (f n) + unat (t ! n) + unat d) * BASE ^ n"
    unfolding t' using Suc.prems(1) IH(1) s by (intro wsum_store) auto
  also have "\<dots> = unat x * wsum f (Suc n) + wsum ((!) t) (Suc n)"
    using IH(3) by (simp add: algebra_simps)
  finally show ?case
    using IH(1,4) t' c unat_high_less by auto
qed simp

lemma unat_plus_neg:
  fixes d :: "'a::len word"
  assumes "d \<noteq> 0"
  shows "unat d + unat (- d) = 2 ^ LENGTH('a)"
proof -
  have "(unat d + unat (- d)) mod 2 ^ LENGTH('a) = unat (d + - d)"
    by (simp only: unat_word_ariths)
  then have "2 ^ LENGTH('a) dvd unat d + unat (- d)" by (simp add: mod_eq_0_iff_dvd)
  then obtain k where k: "unat d + unat (- d) = 2 ^ LENGTH('a) * k" by (elim dvdE)
  have "0 < unat d" using assms by (simp add: unat_gt_0)
  then have "0 < k" using k by (cases k) auto
  moreover have "2 ^ LENGTH('a) * k < 2 ^ LENGTH('a) * 2"
    using unat_less_exp [of d] unat_less_exp [of "- d"] k by linarith
  ultimately have "k = 1" by simp
  then show ?thesis using k by simp
qed

lemma sub_limb_step:
  fixes x y br :: u64
  defines "d \<equiv> (ucast x :: u128) - ucast y - ucast br"
  assumes br: "unat br \<le> 1"
  shows "unat (ucast d :: u64) + unat y + unat br =
    unat x + (if (ucast (drop_bit 64 d) :: u64) \<noteq> 0 then 1 else 0) * BASE"
proof -
  have nz: "(ucast (drop_bit 64 d) :: u64) \<noteq> 0 \<longleftrightarrow> unat d div BASE \<noteq> 0"
    by (simp add: unat_eq_0 [symmetric] unat_high del: unat_eq_0)
  have yb: "unat ((ucast y :: u128) + ucast br) = unat y + unat br"
    by (rule trans [OF unat_add_128]) (simp_all)
  have d: "d = ucast x - (ucast y + ucast br)" by (simp add: d_def)
  have xl: "unat x < BASE" and yl: "unat y < BASE" by simp_all
  show ?thesis
  proof (cases "unat y + unat br \<le> unat x")
    case True
    then have "unat d = unat x - (unat y + unat br)"
      unfolding d by (subst unat_sub_small) (simp_all add: yb)
    then have "unat d < BASE" "unat d + unat y + unat br = unat x" using True xl by linarith+
    then show ?thesis using nz by (simp add: unat_ucast_low)
  next
    case False
    let ?g = "unat y + unat br - unat x"
    have g: "0 < ?g" "?g \<le> BASE" using False yl br by linarith+
    have "- d = (ucast y + ucast br) - ucast x" by (simp add: d)
    then have nd: "unat (- d) = ?g"
      using False yb by (simp add: unat_sub_small)
    then have "d \<noteq> 0" using g by auto
    then have "unat d = BASE * BASE - ?g"
      using nd unat_plus_neg [of d] by (simp add: BASE_sq)
    moreover obtain r where r: "?g + r = BASE" using g(2) le_Suc_ex by metis
    ultimately have "unat d = r + (BASE - 1) * BASE"
      by (simp add: BASE_def)
    moreover have "r < BASE" using r g(1) by linarith
    ultimately have "unat d mod BASE = r" "unat d div BASE = BASE - 1"
      by simp_all
    moreover have "r + unat y + unat br = unat x + BASE" using r False by linarith
    moreover have "\<not> BASE \<le> 1" by (simp add: BASE_def)
    ultimately show ?thesis using nz by (simp add: unat_ucast_low)
  qed
qed

lemma unat_top_bit: "unat (drop_bit 63 (x :: u64)) = unat x div 2 ^ 63"
  by (simp add: drop_bit_eq_div unat_div)

lemma shl_carry: "unat (drop_bit 63 (x :: u64)) \<le> Suc 0"
  using unat_u64_bound [of x] unfolding unat_top_bit by simp

lemma double_split: "2 * (x mod m) + x div m * (2 * m) = 2 * (x :: nat)"
proof -
  have "2 * (x mod m) + x div m * (2 * m) = 2 * (x div m * m + x mod m)"
    by (simp only: algebra_simps)
  then show ?thesis by (simp only: div_mult_mod_eq)
qed

lemma shl_limb_step:
  fixes x c :: u64
  assumes "unat c \<le> 1"
  shows "unat (push_bit 1 x OR c) + unat (drop_bit 63 x) * BASE = 2 * unat x + unat c"
proof -
  have "c = 0 \<or> c = 1" using assms by (auto simp: word_unat_eq_iff le_Suc_eq)
  then have "push_bit 1 x OR c = push_bit 1 x + c"
    by (intro disjunctive_add_eq_or [symmetric]) (auto intro!: bit_word_eqI simp: bit_simps bit_0)
  moreover have p: "unat (push_bit 1 x) = 2 * (unat x mod 2 ^ 63)"
    by (simp add: push_bit_eq_mult unat_word_ariths mult_mod_right mult.commute)
  moreover have "unat x mod 2 ^ 63 < 2 ^ 63" by simp
  ultimately have "unat (push_bit 1 x OR c) = 2 * (unat x mod 2 ^ 63) + unat c"
    using assms by (simp add: unat_add_small)
  moreover have "2 * (unat x mod 2 ^ 63) + unat x div 2 ^ 63 * BASE = 2 * unat x"
    using double_split [of "unat x" "2 ^ 63"] by (simp add: BASE_def)
  ultimately show ?thesis by (simp only: unat_top_bit)
qed

lemma sub_limbs_spec:
  assumes "w \<le> length v" and "sub_limbs b w v = (v', br)"
  shows "length v' = length v \<and> unat br \<le> 1 \<and>
    wsum ((!) v') w + wsum (limb b) w = wsum ((!) v) w + unat br * BASE ^ w \<and>
    (\<forall>k\<ge>w. v' ! k = v ! k)"
  using assms
proof (induction w arbitrary: v' br)
  case (Suc n)
  obtain u c where u: "sub_limbs b n v = (u, c)" by fastforce
  let ?d = "(ucast (u ! n) :: u128) - ucast (limb b n) - ucast c"
  have v': "v' = u[n := ucast ?d]"
    and br: "br = (if (ucast (drop_bit 64 ?d) :: u64) \<noteq> 0 then 1 else 0)"
    using Suc.prems(2) by (simp_all add: u Let_def)
  have IH: "length u = length v" "unat c \<le> 1"
      "wsum ((!) u) n + wsum (limb b) n = wsum ((!) v) n + unat c * BASE ^ n"
      "\<forall>k\<ge>n. u ! k = v ! k"
    using Suc.IH [OF _ u] Suc.prems(1) by auto
  have "unat (ucast ?d :: u64) + unat (limb b n) + unat c = unat (v ! n) + unat br * BASE"
    using sub_limb_step [OF IH(2), of "u ! n" "limb b n"] IH(4) by (simp add: br)
  then have "(unat (ucast ?d :: u64) + unat (limb b n) + unat c) * BASE ^ n =
      (unat (v ! n) + unat br * BASE) * BASE ^ n"
    by simp
  then have "wsum ((!) v') (Suc n) + wsum (limb b) (Suc n) =
      wsum ((!) v) (Suc n) + unat br * BASE ^ Suc n"
    using IH(1,3) Suc.prems(1) by (simp add: v' algebra_simps)
  then show ?case using IH(1,4) by (auto simp: v' br)
qed simp

lemma add_limbs_spec:
  assumes "w \<le> length v" and "add_limbs f g w v = (v', c)"
  shows "length v' = length v \<and> unat c \<le> 1 \<and>
    wsum ((!) v') w + unat c * BASE ^ w = wsum f w + wsum g w \<and>
    (\<forall>k\<ge>w. v' ! k = v ! k)"
  using assms
proof (induction w arbitrary: v' c)
  case (Suc n)
  obtain u d where u: "add_limbs f g n v = (u, d)" by fastforce
  let ?s = "(ucast (f n) :: u128) + ucast (g n) + ucast d"
  have v': "v' = u[n := ucast ?s]" and c: "c = ucast (drop_bit 64 ?s)"
    using Suc.prems(2) by (simp_all add: u Let_def)
  have IH: "length u = length v" "unat d \<le> 1"
      "wsum ((!) u) n + unat d * BASE ^ n = wsum f n + wsum g n"
      "\<forall>k\<ge>n. u ! k = v ! k"
    using Suc.IH [OF _ u] Suc.prems(1) by auto
  have sval: "unat ?s = unat (f n) + unat (g n) + unat d"
    using unat_mul_add [of "ucast d" "f n" 1 "g n"] by simp
  have fl: "unat (f n) < BASE" and gl: "unat (g n) < BASE" by simp_all
  have "unat ?s < BASE * 2" using sval fl gl IH(2) by linarith
  then have "unat ?s div BASE < 2" by (simp add: div_less_iff_less_mult mult.commute)
  then have cb: "unat c \<le> 1" by (simp add: c unat_high)
  have s: "unat (ucast ?s :: u64) + unat c * BASE = unat (f n) + unat (g n) + unat d"
    using low_high [of ?s] sval by (simp add: c)
  have "wsum ((!) v') (Suc n) + unat c * BASE ^ Suc n =
      wsum ((!) u) n + (unat (f n) + unat (g n) + unat d) * BASE ^ n"
    unfolding v' using Suc.prems(1) IH(1) s by (intro wsum_store) auto
  also have "\<dots> = wsum f (Suc n) + wsum g (Suc n)"
    using IH(3) by (simp add: algebra_simps)
  finally show ?case using IH(1,4) cb by (auto simp: v')
qed simp

lemma shl_limbs_spec:
  assumes "w \<le> length v" and "shl_limbs w v = (v', c)"
  shows "length v' = length v \<and> unat c \<le> 1 \<and>
    wsum ((!) v') w + unat c * BASE ^ w = 2 * wsum ((!) v) w \<and>
    (\<forall>k\<ge>w. v' ! k = v ! k)"
  using assms
proof (induction w arbitrary: v' c)
  case (Suc n)
  obtain u d where u: "shl_limbs n v = (u, d)" by fastforce
  let ?y = "push_bit 1 (u ! n) OR d"
  have v': "v' = u[n := ?y]" and c: "c = drop_bit 63 (u ! n)"
    using Suc.prems(2) by (simp_all add: u Let_def)
  have IH: "length u = length v" "unat d \<le> 1"
      "wsum ((!) u) n + unat d * BASE ^ n = 2 * wsum ((!) v) n"
      "\<forall>k\<ge>n. u ! k = v ! k"
    using Suc.IH [OF _ u] Suc.prems(1) by auto
  have s: "unat ?y + unat c * BASE = 2 * unat (v ! n) + unat d"
    unfolding c using shl_limb_step [OF IH(2), of "u ! n"] IH(4) by simp
  have "wsum ((!) v') (Suc n) + unat c * BASE ^ Suc n =
      wsum ((!) u) n + (2 * unat (v ! n) + unat d) * BASE ^ n"
    unfolding v' using Suc.prems(1) IH(1) s by (intro wsum_store) auto
  also have "\<dots> = 2 * wsum ((!) v) (Suc n)"
    using IH(3) by (simp add: algebra_simps)
  finally show ?case using IH(1,4) c by (auto simp: v' shl_carry)
qed simp

subsection \<open>Trimming, comparing, subtracting\<close>

lemma bn_shapeD:
  assumes "bn_shape a"
  shows "length (bn_v a) = BN_MAX_LIMBS" "bn_n a \<le> BN_MAX_LIMBS"
    "\<lbrakk> bn_n a \<le> i; i < BN_MAX_LIMBS \<rbrakk> \<Longrightarrow> bn_v a ! i = 0"
  using assms by (simp_all add: bn_shape_def list_all_iff)

lemma bn_val_nth: "bn_val a = wsum ((!) (bn_v a)) (bn_n a)"
  unfolding bn_val_def by (rule wsum_cong) (simp add: limb_def)

lemma trim_count_spec:
  "trim_count v k \<le> k \<and> (\<forall>i. trim_count v k \<le> i \<and> i < k \<longrightarrow> v ! i = 0) \<and>
   (trim_count v k = 0 \<or> v ! (trim_count v k - 1) \<noteq> 0)"
  by (induction k) (auto simp: less_Suc_eq)

lemma bn_trim_val [simp]: "bn_val (bn_trim a) = bn_val a"
  unfolding bn_val_nth bn_trim_def
  using trim_count_spec [of "bn_v a" "bn_n a"] by (auto intro!: wsum_extend [symmetric])

lemma bn_trim_wf [simp]:
  assumes "bn_shape a"
  shows "bn_wf (bn_trim a)"
proof -
  have "bn_v a ! i = 0" if "trim_count (bn_v a) (bn_n a) \<le> i" "i < BN_MAX_LIMBS" for i
    using that bn_shapeD(3) [OF assms, of i] trim_count_spec [of "bn_v a" "bn_n a"]
    by (cases "i < bn_n a") auto
  then show ?thesis
    using bn_shapeD [OF assms] trim_count_spec [of "bn_v a" "bn_n a"]
    by (auto simp: bn_wf_def bn_shape_def bn_trim_def list_all_iff)
qed

lemma bn_wf_shape [simp]: "bn_wf a \<Longrightarrow> bn_shape a"
  by (simp add: bn_wf_def)

lemma bn_val_less: "bn_n a \<le> k \<Longrightarrow> bn_val a < BASE ^ k"
  using wsum_less [of "limb a" k] by simp

lemma bn_wf_val_ge:
  assumes "bn_wf a" "bn_n a \<noteq> 0"
  shows "BASE ^ (bn_n a - 1) \<le> bn_val a"
proof -
  obtain k where k: "bn_n a = Suc k" using assms(2) not0_implies_Suc by auto
  have "bn_v a ! k \<noteq> 0" using assms(1) k by (simp add: bn_wf_def)
  then have "1 \<le> unat (bn_v a ! k)" by (metis One_nat_def Suc_leI unat_gt_0)
  then have "1 * BASE ^ k \<le> unat (bn_v a ! k) * BASE ^ k" by (rule mult_le_mono1)
  then show ?thesis unfolding bn_val_nth k wsum_Suc diff_Suc_1 mult_1 by (rule trans_le_add2)
qed

text \<open>A smaller number has no more limbs.\<close>

lemma bn_n_mono:
  assumes "bn_wf a" "bn_val a < BASE ^ k"
  shows "bn_n a \<le> k"
proof (rule ccontr)
  assume "\<not> bn_n a \<le> k"
  then have "BASE ^ k \<le> BASE ^ (bn_n a - 1)" by (intro power_increasing) auto
  also have "\<dots> \<le> bn_val a" using \<open>\<not> bn_n a \<le> k\<close> by (intro bn_wf_val_ge [OF assms(1)]) auto
  finally show False using assms(2) by simp
qed

lemma bn_wf_zero [simp]: "bn_wf bn_zero"
  by (simp add: bn_wf_def bn_shape_def bn_zero_def BN_MAX_LIMBS_def list_all_iff)

lemma bn_val_zero [simp]: "bn_val bn_zero = 0"
  by (simp add: bn_val_nth bn_zero_def)

lemma cmp_from_spec:
  "cmp_from a b k = sgn (int (wsum (limb a) k) - int (wsum (limb b) k))"
proof (induction k)
  case (Suc k)
  have top: "wsum f k + unat x * BASE ^ k < wsum g k + unat y * BASE ^ k"
    if "x < y" for f g and x y :: u64
  proof -
    have "(unat x + 1) * BASE ^ k \<le> unat y * BASE ^ k"
      using that by (intro mult_le_mono1) (simp add: word_less_nat_alt)
    then show ?thesis using wsum_less [of f k] by (simp add: algebra_simps)
  qed
  show ?case
  proof (cases "limb a k" "limb b k" rule: linorder_cases)
    case less
    then have "wsum (limb a) (Suc k) < wsum (limb b) (Suc k)" by (simp add: top)
    then show ?thesis using less by (auto simp: sgn_if simp del: wsum_Suc)
  next
    case equal
    then show ?thesis using Suc by simp
  next
    case greater
    then have "wsum (limb b) (Suc k) < wsum (limb a) (Suc k)" by (simp add: top)
    then show ?thesis using greater by (auto simp: sgn_if simp del: wsum_Suc)
  qed
qed simp

lemma bn_cmp_spec: "bn_cmp a b = sgn (int (bn_val a) - int (bn_val b))"
  unfolding bn_cmp_def cmp_from_spec by simp

lemma bn_cmp_ge [simp]: "0 \<le> bn_cmp a b \<longleftrightarrow> bn_val b \<le> bn_val a"
  by (simp add: bn_cmp_spec sgn_if)

lemma bn_cmp_lt [simp]: "bn_cmp a b < 0 \<longleftrightarrow> bn_val a < bn_val b"
  by (simp add: bn_cmp_spec sgn_if)

lemma sub_w_spec:
  assumes "bn_shape a" "bn_n a = w" "bn_n b \<le> w"
  shows "bn_wf (sub_w a b w) \<and>
    (\<exists>br. br \<le> 1 \<and> bn_val (sub_w a b w) + bn_val b = bn_val a + br * BASE ^ w)"
proof -
  obtain v br where v: "sub_limbs b w (bn_v a) = (v, br)" by fastforce
  note a = bn_shapeD [OF assms(1)]
  have sp: "length v = length (bn_v a)" "unat br \<le> 1"
      "wsum ((!) v) w + wsum (limb b) w = wsum ((!) (bn_v a)) w + unat br * BASE ^ w"
      "\<forall>k\<ge>w. v ! k = bn_v a ! k"
    using sub_limbs_spec [OF _ v] a assms(2) by auto
  have "bn_shape (a \<lparr> bn_v := v, bn_n := w \<rparr>)"
    using a sp(1,4) assms(2) by (auto simp: bn_shape_def list_all_iff)
  moreover have "bn_val (sub_w a b w) = wsum ((!) v) w"
    unfolding sub_w_def bn_trim_val by (simp add: v bn_val_nth)
  ultimately show ?thesis
    using sp(2,3) assms(2,3) by (auto simp: sub_w_def v bn_val_nth [of a])
qed

lemma one_subtraction:
  fixes A B N T X :: nat
  assumes "A + c * B = T" "T < 2 * N" "N < B" "c \<noteq> 0 \<or> N \<le> A" "br \<le> 1" "X + N = A + br * B" "X < B"
  shows "X + N = T"
proof (cases "c = 0")
  case True
  then have "br = 0" using assms by (cases "br = 0") (auto simp: le_Suc_eq)
  then show ?thesis using True assms by simp
next
  case False
  have "c * B < 2 * B" using assms(1,2,3) by linarith
  then have c: "c = 1" using False by simp
  have "br = 1" using assms c by (cases "br = 1") (auto simp: le_Suc_eq)
  then show ?thesis using c assms by simp
qed

text \<open>The one conditional subtraction that ends every modular step.\<close>

lemma reduce_once:
  assumes "bn_shape a" "bn_n a = bn_n n" "bn_val a + c * BASE ^ bn_n n = T" "T < 2 * bn_val n"
    and "q \<longleftrightarrow> c \<noteq> 0"
    and r: "r = (if q \<or> 0 \<le> bn_cmp a n then sub_w a n (bn_n n) else a)"
  shows "bn_shape r \<and> bn_n r \<le> bn_n n \<and> bn_val r = T mod bn_val n"
proof (cases "c \<noteq> 0 \<or> bn_val n \<le> bn_val a")
  case True
  have nb: "bn_val n < BASE ^ bn_n n" by (rule bn_val_less) simp
  obtain br where wf: "bn_wf (sub_w a n (bn_n n))" and br: "br \<le> 1"
      "bn_val (sub_w a n (bn_n n)) + bn_val n = bn_val a + br * BASE ^ bn_n n"
    using sub_w_spec [OF assms(1,2) order_refl] by blast
  have "bn_n (sub_w a n (bn_n n)) \<le> bn_n n"
    by (simp add: sub_w_def bn_trim_def trim_count_spec)
  moreover from this have "bn_val (sub_w a n (bn_n n)) < BASE ^ bn_n n"
    by (rule bn_val_less)
  then have "bn_val (sub_w a n (bn_n n)) + bn_val n = T"
    by (rule one_subtraction [OF assms(3,4) nb True br])
  then have "bn_val (sub_w a n (bn_n n)) = T mod bn_val n"
    using assms(4) by (metis add_diff_cancel_right' add_less_cancel_right mod_add_self2 mod_less mult_2)
  ultimately show ?thesis using True wf assms(5) by (simp add: r)
next
  case False
  then show ?thesis using assms by simp
qed

lemma bn_widen:
  assumes "bn_shape r" "bn_n r \<le> w" "w \<le> BN_MAX_LIMBS"
  shows "bn_shape (r \<lparr> bn_n := w \<rparr>)" "bn_val (r \<lparr> bn_n := w \<rparr>) = bn_val r"
proof -
  note r = bn_shapeD [OF assms(1)]
  show "bn_shape (r \<lparr> bn_n := w \<rparr>)"
    using r assms by (auto simp: bn_shape_def list_all_iff)
  show "bn_val (r \<lparr> bn_n := w \<rparr>) = bn_val r"
    unfolding bn_val_nth using r assms by (auto intro!: wsum_extend)
qed

subsection \<open>The Montgomery context\<close>

lemma odd_square_word:
  fixes n :: "'a::len word"
  assumes "odd (unat n)"
  shows "\<exists>k. 1 - n * n = 8 * k"
proof -
  obtain m where m: "unat n = 2 * m + 1" using assms by (elim oddE)
  obtain j where j: "m * (m + 1) = 2 * j" by (metis dvdE even_mult_iff odd_even_add odd_one)
  have "unat n * unat n = 4 * (m * (m + 1)) + 1" unfolding m by (simp add: algebra_simps)
  then have "unat n * unat n = 8 * j + 1" using j by simp
  then have "(of_nat (unat n * unat n) :: 'a word) = of_nat (8 * j + 1)" by simp
  then have "n * n = 8 * of_nat j + 1" by simp
  then have "1 - n * n = 8 * - of_nat j" by simp
  then show ?thesis by blast
qed

lemma newton64_error: "1 - n * newton64 n i = (1 - n * n) ^ (2 ^ i)"
proof (induction i)
  case (Suc i)
  let ?x = "newton64 n i"
  have "1 - n * (?x * (2 - n * ?x)) = (1 - n * ?x) * (1 - n * ?x)"
    by (simp add: algebra_simps)
  then show ?case by (simp only: newton64.simps Let_def Suc power_Suc mult_2 power_add)
qed simp

lemma inv64_spec:
  assumes "odd (unat n)"
  shows "n * inv64 n = - 1"
proof -
  obtain k where k: "1 - n * n = 8 * k" using odd_square_word [OF assms] by blast
  have z: "(8 :: u64) ^ 32 = 0" and e: "(2 :: nat) ^ 5 = 32" by simp_all
  have "1 - n * newton64 n 5 = 0"
    by (simp only: newton64_error k e power_mult_distrib z mult_zero_left)
  then show ?thesis by (simp add: inv64_def)
qed

lemma mod_double_spec:
  assumes "bn_shape n" "bn_shape rr" "bn_n rr = bn_n n" "bn_val rr < bn_val n"
  shows "bn_shape (mod_double n rr) \<and> bn_n (mod_double n rr) = bn_n n \<and>
    bn_val (mod_double n rr) = 2 * bn_val rr mod bn_val n"
proof -
  obtain v c where v: "shl_limbs (bn_n n) (bn_v rr) = (v, c)" by fastforce
  note rs = bn_shapeD [OF assms(2)] and ns = bn_shapeD [OF assms(1)]
  have sp: "length v = length (bn_v rr)"
      "wsum ((!) v) (bn_n n) + unat c * BASE ^ bn_n n = 2 * wsum ((!) (bn_v rr)) (bn_n n)"
      "\<forall>k\<ge>bn_n n. v ! k = bn_v rr ! k"
    using shl_limbs_spec [OF _ v] rs ns by auto
  let ?a = "rr \<lparr> bn_v := v, bn_n := bn_n n \<rparr>"
  have a: "bn_shape ?a" "bn_n ?a = bn_n n"
    using rs ns sp(1,3) assms(3) by (auto simp: bn_shape_def list_all_iff)
  have av: "bn_val ?a + unat c * BASE ^ bn_n n = 2 * bn_val rr"
    using sp(2) assms(3) by (simp add: bn_val_nth)
  let ?r = "if c \<noteq> 0 \<or> 0 \<le> bn_cmp ?a n then sub_w ?a n (bn_n n) else ?a"
  have "bn_shape ?r \<and> bn_n ?r \<le> bn_n n \<and> bn_val ?r = 2 * bn_val rr mod bn_val n"
    by (rule reduce_once [OF a av _ _ refl]) (use assms(4) in \<open>simp_all add: unat_eq_0\<close>)
  moreover have "mod_double n rr = ?r \<lparr> bn_n := bn_n n \<rparr>"
    by (simp add: mod_double_def v Let_def)
  ultimately show ?thesis using bn_widen [of ?r "bn_n n"] ns(2) by simp
qed

lemma mod_double_iter:
  assumes "bn_shape n" "bn_shape rr" "bn_n rr = bn_n n" "bn_val rr < bn_val n"
  shows "bn_shape ((mod_double n ^^ i) rr) \<and> bn_n ((mod_double n ^^ i) rr) = bn_n n \<and>
    bn_val ((mod_double n ^^ i) rr) = 2 ^ i * bn_val rr mod bn_val n"
proof (induction i)
  case 0
  then show ?case using assms by simp
next
  case (Suc i)
  have "bn_val ((mod_double n ^^ i) rr) < bn_val n" using Suc assms(4) by simp
  then have "bn_shape ((mod_double n ^^ Suc i) rr) \<and> bn_n ((mod_double n ^^ Suc i) rr) = bn_n n \<and>
      bn_val ((mod_double n ^^ Suc i) rr) = 2 * bn_val ((mod_double n ^^ i) rr) mod bn_val n"
    using mod_double_spec [of n "(mod_double n ^^ i) rr"] Suc assms(1) by simp
  then show ?case using Suc by (simp add: mod_mult_right_eq mult.assoc)
qed

text \<open>What \<^const>\<open>bn_mont_init\<close> sets up for an odd modulus above 1.\<close>

definition mont_good :: "bn_mont \<Rightarrow> bool" where
  "mont_good m \<longleftrightarrow> bn_wf (mont_n m) \<and> 1 < bn_val (mont_n m) \<and> odd (bn_val (mont_n m)) \<and>
     bn_v (mont_n m) ! 0 * mont_n0 m = - 1 \<and> bn_wf (mont_rr m) \<and>
     bn_val (mont_rr m) = BASE ^ (2 * bn_n (mont_n m)) mod bn_val (mont_n m)"

lemma even_wsum: "0 < n \<Longrightarrow> even (wsum f n) \<longleftrightarrow> even (unat (f 0))"
  by (cases n) (simp_all add: wsum_Suc_low BASE_def del: wsum_Suc)

lemma bn_val_pos_n: "0 < bn_val a \<Longrightarrow> 0 < bn_n a"
  by (cases "bn_n a") (simp_all add: bn_val_nth)

lemma bn_one_wf [simp]: "bn_wf bn_one"
  by (simp add: bn_wf_def bn_shape_def bn_one_def bn_zero_def BN_MAX_LIMBS_def list_all_iff)

lemma bn_one_val [simp]: "bn_val bn_one = 1"
  by (simp add: bn_val_nth bn_one_def bn_zero_def BN_MAX_LIMBS_def)

lemma bn_one_widen:
  assumes "0 < w" "w \<le> BN_MAX_LIMBS"
  shows "bn_shape \<lparr> bn_n = w, bn_v = (bn_v bn_zero)[0 := 1] \<rparr>"
    and "bn_val \<lparr> bn_n = w, bn_v = (bn_v bn_zero)[0 := 1] \<rparr> = 1"
proof -
  have e: "\<lparr> bn_n = w, bn_v = (bn_v bn_zero)[0 := 1] \<rparr> = bn_one \<lparr> bn_n := w \<rparr>"
    by (simp add: bn_one_def)
  have "bn_n bn_one \<le> w" using assms by (simp add: bn_one_def)
  then show "bn_shape \<lparr> bn_n = w, bn_v = (bn_v bn_zero)[0 := 1] \<rparr>"
    and "bn_val \<lparr> bn_n = w, bn_v = (bn_v bn_zero)[0 := 1] \<rparr> = 1"
    unfolding e using assms bn_widen [of bn_one w] by simp_all
qed

lemma BASE_power: "BASE ^ (2 * w) = 2 ^ (128 * w)"
proof -
  have "BASE ^ (2 * w) = 2 ^ (64 * (2 * w))" by (simp only: BASE_def power_mult)
  then show ?thesis by simp
qed

lemma bn_mont_init_good:
  assumes n: "bn_wf n" and gt: "1 < bn_val n"
  shows "bn_mont_init n = Some m \<Longrightarrow> mont_good m \<and> mont_n m = n"
    and "bn_mont_init n = None \<longleftrightarrow> even (bn_val n)"
proof -
  let ?w = "bn_n n"
  have w: "0 < ?w" using gt by (intro bn_val_pos_n) simp
  have par: "even (bn_val n) \<longleftrightarrow> even (unat (bn_v n ! 0))"
    unfolding bn_val_nth by (rule even_wsum [OF w])
  have par': "even (bn_val n) \<longleftrightarrow> bn_v n ! 0 AND 1 = 0"
    unfolding par by (simp add: and_one_eq even_iff_mod_2_eq_zero unat_mod flip: unat_eq_0)
  show "bn_mont_init n = None \<longleftrightarrow> even (bn_val n)"
    using w by (simp add: bn_mont_init_def par' Let_def)
  assume m: "bn_mont_init n = Some m"
  then have odd: "odd (bn_val n)" using w by (simp add: bn_mont_init_def par' Let_def split: if_splits)
  let ?r0 = "\<lparr> bn_n = ?w, bn_v = (bn_v bn_zero)[0 := 1] \<rparr>"
  have wl: "?w \<le> BN_MAX_LIMBS" using n bn_shapeD by simp
  have s0: "bn_shape ?r0" "bn_val ?r0 = 1"
    using bn_one_widen [OF w wl] by simp_all
  have it: "bn_shape ((mod_double n ^^ (128 * ?w)) ?r0) \<and> 
      bn_val ((mod_double n ^^ (128 * ?w)) ?r0) = 2 ^ (128 * ?w) mod bn_val n"
    using mod_double_iter [of n ?r0 "128 * ?w"] n s0 gt by simp
  have m': "m = \<lparr> mont_n = n, mont_rr = bn_trim ((mod_double n ^^ (128 * ?w)) ?r0),
      mont_n0 = inv64 (bn_v n ! 0) \<rparr>"
    using m by (simp add: bn_mont_init_def Let_def split: if_splits)
  show "mont_good m \<and> mont_n m = n"
    using it n gt odd inv64_spec [of "bn_v n ! 0"] par
    by (simp add: mont_good_def m' BASE_power)
qed

subsection \<open>Montgomery multiplication\<close>

lemma add_row_spec:
  assumes "length t = n + 2" "unat (t ! (n + 1)) + 1 < BASE"
  shows "length (add_row x f n t) = n + 2 \<and>
    unat (add_row x f n t ! (n + 1)) \<le> unat (t ! (n + 1)) + 1 \<and>
    wsum ((!) (add_row x f n t)) (n + 2) = wsum ((!) t) (n + 2) + unat x * wsum f n"
proof -
  obtain u c where u: "mul_row x f n t = (u, c)" by fastforce
  have sp: "length u = n + 2" "unat c < BASE"
      "wsum ((!) u) n + unat c * BASE ^ n = unat x * wsum f n + wsum ((!) t) n"
      "\<forall>k\<ge>n. u ! k = t ! k"
    using mul_row_spec [OF _ u] assms(1) by auto
  let ?s = "(ucast (u ! n) :: u128) + c"
  let ?h = "ucast (drop_bit 64 ?s) :: u64"
  have sv: "unat ?s = unat (t ! n) + unat c" using unat_add_128 [OF sp(2)] sp(4) by simp
  have "unat ?s < 2 * BASE" using sv sp(2) unat_lt_BASE [of "t ! n"] by linarith
  then have h: "unat ?h \<le> 1" by (simp add: unat_high less_mult_imp_div_less flip: less_Suc_eq_le)
  have top: "unat (u ! (n + 1) + ?h) = unat (t ! (n + 1)) + unat ?h"
    using h sp(4) assms(2) by (subst unat_add_small) (simp_all add: BASE_def)
  have e: "add_row x f n t = u[n := ucast ?s, n + 1 := u ! (n + 1) + ?h]"
    by (simp add: add_row_def u Let_def)
  have "wsum ((!) (u[n := ucast ?s])) (Suc n) + unat ?h * BASE ^ Suc n =
      wsum ((!) u) n + (unat (t ! n) + unat c) * BASE ^ n"
    using low_high [of ?s] sv sp(1) by (intro wsum_store) simp_all
  then have "wsum ((!) (add_row x f n t)) (n + 2) = wsum ((!) t) (n + 2) + unat x * wsum f n"
    using sp(1,3) top by (simp add: e algebra_simps)
  then show ?thesis using h top sp(1) by (simp add: e)
qed

lemma shift_down_eq:
  assumes "length t = n + 2"
  shows "shift_down n t = tl t @ [0]"
proof -
  have "fold (\<lambda>j t. t[j := t ! (j + 1)]) [0..<k] t = take k (tl t) @ drop k t"
    if "k \<le> n + 1" for k
    using that
  proof (induction k)
    case (Suc k)
    then show ?case using assms
      by (auto intro!: nth_equalityI simp: nth_append nth_list_update nth_tl min_def less_Suc_eq)
  qed simp
  then have "shift_down n t = (take (n + 1) (tl t) @ drop (n + 1) t)[n + 1 := 0]"
    by (simp add: shift_down_def del: upt_Suc)
  then show ?thesis using assms by (auto intro!: nth_equalityI simp: nth_append nth_list_update nth_tl)
qed

lemma of_nat_wsum:
  assumes "0 < n"
  shows "(of_nat (wsum f n) :: u64) = f 0"
proof -
  obtain k where "n = Suc k" using assms gr0_implies_Suc by auto
  moreover have "(of_nat BASE :: u64) = 0" by (simp add: BASE_def)
  ultimately show ?thesis by (simp add: wsum_Suc_low del: wsum_Suc)
qed

text \<open>One round, on a well-formed accumulator: it adds a limb's row and the multiple of
  the modulus that makes the sum divisible, and divides exactly.\<close>

lemma mont_round_spec:
  assumes m: "mont_good m" and n: "n = bn_n (mont_n m)"
    and t: "length t = n + 2" "t ! (n + 1) = 0" and b: "bn_n b \<le> n"
  shows "length (mont_round a b m i t) = n + 2 \<and> mont_round a b m i t ! (n + 1) = 0 \<and>
    (\<exists>u<BASE. BASE * wsum ((!) (mont_round a b m i t)) (n + 1) =
       wsum ((!) t) (n + 1) + unat (limb a i) * bn_val b + u * bn_val (mont_n m))"
proof -
  let ?N = "\<lambda>j. bn_v (mont_n m) ! j"
  define p where "p = add_row (limb a i) (limb b) n t"
  define u where "u = p ! 0 * mont_n0 m"
  define q where "q = add_row u ?N n p"
  have npos: "0 < n" using m unfolding n by (intro bn_val_pos_n) (simp add: mont_good_def)
  have p: "length p = n + 2" "unat (p ! (n + 1)) \<le> 1"
      "wsum ((!) p) (n + 2) = wsum ((!) t) (n + 2) + unat (limb a i) * bn_val b"
    using add_row_spec [of t n "limb a i" "limb b"] t b unfolding p_def
    by (simp_all add: BASE_def)
  have "unat (p ! (n + 1)) + 1 < BASE" using p(2) by (simp add: BASE_def)
  then have q: "length q = n + 2" "wsum ((!) q) (n + 2) = wsum ((!) p) (n + 2) + unat u * bn_val (mont_n m)"
    using add_row_spec [of p n u ?N] p(1) unfolding q_def bn_val_nth n [symmetric] by simp_all
  have "q ! 0 = of_nat (wsum ((!) q) (n + 2))" by (rule of_nat_wsum [symmetric]) simp
  also have "\<dots> = p ! 0 + u * ?N 0"
    unfolding q(2) bn_val_nth n [symmetric] using npos by (simp add: of_nat_wsum del: wsum_Suc add_2_eq_Suc')
  also have "u * ?N 0 = p ! 0 * (?N 0 * mont_n0 m)" by (simp only: u_def ac_simps)
  also have "?N 0 * mont_n0 m = - 1" using m by (simp add: mont_good_def)
  also have "p ! 0 + p ! 0 * - 1 = 0" by simp
  finally have q0: "q ! 0 = 0" .
  have r: "mont_round a b m i t = tl q @ [0]"
    using shift_down_eq [OF q(1)] by (simp add: mont_round_def p_def q_def u_def n Let_def)
  have "wsum ((!) (tl q @ [0])) (n + 1) = wsum (\<lambda>j. q ! Suc j) (n + 1)"
    using q(1) by (intro wsum_cong) (simp add: nth_append nth_tl)
  then have "BASE * wsum ((!) (mont_round a b m i t)) (n + 1) = wsum ((!) q) (Suc (n + 1))"
    unfolding wsum_Suc_low r using q0 by simp
  also have "\<dots> = wsum ((!) t) (n + 1) + unat (limb a i) * bn_val b + unat u * bn_val (mont_n m)"
    using q(2) p(3) t(2) by simp
  finally have "\<exists>u<BASE. BASE * wsum ((!) (mont_round a b m i t)) (n + 1) =
       wsum ((!) t) (n + 1) + unat (limb a i) * bn_val b + u * bn_val (mont_n m)"
    using unat_lt_BASE by blast
  then show ?thesis using q(1) by (simp add: r nth_append del: wsum_Suc)
qed

text \<open>The bound that survives a round: below the sum of the two operands' bounds.\<close>

lemma mont_bound_step:
  fixes T b N x u B T' :: nat
  assumes "B * T' = T + x * b + u * N" "T < N + b" "x < B" "u < B"
  shows "T' < N + b"
proof -
  have "x * b \<le> (B - 1) * b" "u * N \<le> (B - 1) * N" using assms(3,4) by (auto intro: mult_le_mono1)
  then have "B * T' < (N + b) + (B - 1) * b + (B - 1) * N" using assms(1,2) by linarith
  also have "\<dots> = B * (N + b)" using assms(3) by (cases B) (simp_all add: algebra_simps)
  finally show ?thesis by simp
qed

lemma mont_rounds_spec:
  assumes m: "mont_good m" and n: "n = bn_n (mont_n m)" and b: "bn_n b \<le> n"
  shows "length (mont_rounds a b m i (replicate (n + 2) 0)) = n + 2 \<and>
    mont_rounds a b m i (replicate (n + 2) 0) ! (n + 1) = 0 \<and>
    wsum ((!) (mont_rounds a b m i (replicate (n + 2) 0))) (n + 1) < bn_val (mont_n m) + bn_val b \<and>
    (\<exists>k. wsum ((!) (mont_rounds a b m i (replicate (n + 2) 0))) (n + 1) * BASE ^ i =
       wsum (limb a) i * bn_val b + k * bn_val (mont_n m))"
proof (induction i)
  case 0
  have "wsum ((!) (replicate (n + 2) 0)) (n + 1) = 0"
    by (rule wsum_zero) (simp del: replicate_Suc add_2_eq_Suc')
  moreover have "0 < bn_val (mont_n m)" using m by (simp add: mont_good_def)
  ultimately show ?case by (simp del: wsum_Suc replicate_Suc)
next
  case (Suc i)
  let ?t = "mont_rounds a b m i (replicate (n + 2) 0)"
  let ?N = "bn_val (mont_n m)" and ?W = "\<lambda>t. wsum ((!) t) (n + 1)"
  obtain k where k: "?W ?t * BASE ^ i = wsum (limb a) i * bn_val b + k * ?N" using Suc by blast
  obtain u where r: "length (mont_round a b m i ?t) = n + 2" "mont_round a b m i ?t ! (n + 1) = 0"
      "u < BASE" "BASE * ?W (mont_round a b m i ?t) = ?W ?t + unat (limb a i) * bn_val b + u * ?N"
    using mont_round_spec [OF m n _ _ b, of ?t a i] Suc by blast
  have "?W (mont_round a b m i ?t) < ?N + bn_val b"
    using Suc by (intro mont_bound_step [OF r(4) _ unat_lt_BASE r(3)]) blast
  moreover have "?W (mont_round a b m i ?t) * BASE ^ Suc i =
      (?W ?t + unat (limb a i) * bn_val b + u * ?N) * BASE ^ i"
    unfolding r(4) [symmetric] by (simp only: power_Suc ac_simps)
  then have "?W (mont_round a b m i ?t) * BASE ^ Suc i =
      wsum (limb a) (Suc i) * bn_val b + (k + u * BASE ^ i) * ?N"
    using k by (simp add: algebra_simps del: One_nat_def)
  ultimately show ?case using r(1,2) by (auto simp del: wsum_Suc)
qed

lemma bn_mont_mul_spec:
  assumes m: "mont_good m" and b: "bn_wf b" "bn_val b < bn_val (mont_n m)" 
  shows "bn_wf (bn_mont_mul a b m) \<and> bn_val (bn_mont_mul a b m) < bn_val (mont_n m) \<and>
    bn_val (bn_mont_mul a b m) * BASE ^ bn_n (mont_n m) mod bn_val (mont_n m) =
    wsum (limb a) (bn_n (mont_n m)) * bn_val b mod bn_val (mont_n m)"
proof -
  define n where "n = bn_n (mont_n m)"
  define t where "t = mont_rounds a b m n (replicate (n + 2) 0)"
  let ?N = "bn_val (mont_n m)"
  have nl: "n \<le> BN_MAX_LIMBS" using m bn_shapeD by (simp add: n_def mont_good_def)
  have "bn_val b < BASE ^ n" using b(2) bn_val_less [of "mont_n m" n] by (simp add: n_def)
  then have bn: "bn_n b \<le> n" by (rule bn_n_mono [OF b(1)])
  obtain k where t: "length t = n + 2" "wsum ((!) t) (n + 1) < ?N + bn_val b"
      "wsum ((!) t) (n + 1) * BASE ^ n = wsum (limb a) n * bn_val b + k * ?N"
    using mont_rounds_spec [OF m n_def bn, of a n] unfolding t_def by blast
  define r where "r = bn_zero \<lparr> bn_v := take n t @ drop n (bn_v bn_zero), bn_n := n \<rparr>"
  have r: "bn_shape r" "bn_n r = n"
    using nl t(1) by (auto simp: r_def bn_shape_def bn_zero_def list_all_iff nth_append)
  have "bn_val r = wsum ((!) t) n"
    unfolding bn_val_nth r(2) using t(1) by (intro wsum_cong) (simp add: r_def nth_append)
  then have rv: "bn_val r + unat (t ! n) * BASE ^ n = wsum ((!) t) (n + 1)" by simp
  define s where "s = (if t ! n \<noteq> 0 \<or> 0 \<le> bn_cmp r (mont_n m) then sub_w r (mont_n m) n else r)"
  have s: "bn_shape s \<and> bn_n s \<le> n \<and> bn_val s = wsum ((!) t) (n + 1) mod ?N"
    unfolding n_def
  proof (rule reduce_once [OF r(1) r(2) [unfolded n_def] rv [unfolded n_def]])
    show "wsum ((!) t) (bn_n (mont_n m) + 1) < 2 * ?N"
      using t(2) b(2) unfolding n_def by linarith
    show "t ! n \<noteq> 0 \<longleftrightarrow> unat (t ! bn_n (mont_n m)) \<noteq> 0" by (simp add: n_def unat_eq_0)
  qed (simp only: s_def n_def)
  have "bn_mont_mul a b m = bn_trim s"
    by (simp add: bn_mont_mul_def s_def r_def t_def n_def Let_def)
  moreover have "wsum ((!) t) (n + 1) mod ?N * BASE ^ n mod ?N = wsum (limb a) n * bn_val b mod ?N"
    using t(3) by (simp only: mod_mult_left_eq mod_mult_self3 mod_mult_self1)
  moreover have "0 < ?N" using m by (simp add: mont_good_def)
  ultimately show ?thesis using s by (simp add: n_def)
qed

subsection \<open>Exponentiation over any multiplication with a radix\<close>

text \<open>Numbers written most significant byte first, as keys and signatures are.\<close>

definition os2ip :: "u8 list \<Rightarrow> nat" where
  "os2ip bs = foldl (\<lambda>a b. 256 * a + unat b) 0 bs"

lemma mod_cancel_coprime:
  fixes a b r n :: nat
  assumes "a * r mod n = b * r mod n" "coprime r n"
  shows "a mod n = b mod n"
proof -
  have "int a * int r mod int n = int b * int r mod int n"
    using assms(1) by (metis of_nat_mod of_nat_mult)
  then have "int n dvd (int a - int b) * int r"
    by (simp add: mod_eq_dvd_iff left_diff_distrib)
  moreover have "coprime (int n) (int r)" using assms(2) by (simp add: coprime_commute)
  ultimately have "int n dvd int a - int b" by (simp add: coprime_dvd_mult_left_iff)
  then show ?thesis by (metis mod_eq_dvd_iff of_nat_eq_iff of_nat_mod)
qed

lemma foldl_bits:
  "foldl (\<lambda>e i. 2 * e + of_bool (bit x i)) e (rev [0..<n]) = 2 ^ n * e + take_bit n (x :: nat)"
  by (induction n arbitrary: e) (simp_all add: take_bit_Suc_from_most algebra_simps)

lemma byte_bits_value:
  fixes b :: u8
  shows "foldl (\<lambda>e i. 2 * e + of_bool (drop_bit i b AND 1 \<noteq> 0)) e [7, 6, 5, 4, 3, 2, 1, 0]
    = 256 * e + unat b"
proof -
  have "drop_bit i b AND 1 \<noteq> 0 \<longleftrightarrow> bit b i" for i
    unfolding bit_iff_odd_drop_bit by (simp add: and_one_eq odd_iff_mod_2_eq_one)
  then have bits: "drop_bit i b AND 1 \<noteq> 0 \<longleftrightarrow> bit (unat b) i" for i
    by (simp add: bit_unsigned_iff)
  have "[7, 6, 5, 4, 3, 2, 1, 0] = rev [0..<8]" by (simp add: upt_rec)
  moreover have "take_bit 8 (unat b) = unat b"
    using unat_u8_bound [of b] by (simp add: take_bit_eq_mod)
  ultimately show ?thesis unfolding bits using foldl_bits [of "unat b" e 8] by simp
qed

locale radix_multiplier =
  fixes good :: "'m \<Rightarrow> bool"
    and modulus :: "'m \<Rightarrow> nat"
    and radix :: "'m \<Rightarrow> nat"
    and rep :: "'m \<Rightarrow> 'a \<Rightarrow> bool"
    and num :: "'a \<Rightarrow> nat"
    and mul :: "'m \<Rightarrow> 'a \<Rightarrow> 'a \<Rightarrow> 'a"
  assumes radix_coprime: "good m \<Longrightarrow> coprime (radix m) (modulus m)"
    and rep_less: "\<lbrakk> good m; rep m a \<rbrakk> \<Longrightarrow> num a < modulus m"
    and mul_rep: "\<lbrakk> good m; rep m a; rep m b \<rbrakk> \<Longrightarrow> rep m (mul m a b)"
    and mul_num: "\<lbrakk> good m; rep m a; rep m b \<rbrakk> \<Longrightarrow>
      num (mul m a b) * radix m mod modulus m = num a * num b mod modulus m"
begin

text \<open>The product of two scaled residues is the scaled product.\<close>

lemma mul_scaled:
  assumes "good m" "rep m a" "rep m b"
    and "num a mod modulus m = x * radix m mod modulus m"
    and "num b mod modulus m = y * radix m mod modulus m"
  shows "num (mul m a b) mod modulus m = x * y * radix m mod modulus m"
proof (rule mod_cancel_coprime [OF _ radix_coprime [OF assms(1)]])
  have "num (mul m a b) * radix m mod modulus m = num a * num b mod modulus m"
    using assms(1-3) by (rule mul_num)
  also have "\<dots> = (x * radix m) * (y * radix m) mod modulus m"
    using assms(4,5) by (rule mod_mult_cong)
  finally show "num (mul m a b) * radix m mod modulus m = x * y * radix m * radix m mod modulus m"
    by (simp only: ac_simps)
qed

text \<open>The state of the square-and-multiply loop after the exponent prefix \<open>e\<close>.\<close>

definition scaled_power :: "'m \<Rightarrow> nat \<Rightarrow> nat \<Rightarrow> bool \<times> 'a \<Rightarrow> bool" where
  "scaled_power m s e st \<longleftrightarrow> (fst st \<longleftrightarrow> 0 < e) \<and>
     (0 < e \<longrightarrow> rep m (snd st) \<and> num (snd st) mod modulus m = s ^ e * radix m mod modulus m)"

lemma modexp_bit_power:
  assumes "good m" "rep m x" "num x mod modulus m = s * radix m mod modulus m"
    and "scaled_power m s e st"
  shows "scaled_power m s (2 * e + of_bool is_set) (modexp_bit (mul m) x is_set st)"
proof (cases "0 < e")
  case True
  let ?q = "mul m (snd st) (snd st)"
  have st: "fst st" "rep m (snd st)" "num (snd st) mod modulus m = s ^ e * radix m mod modulus m"
    using assms(4) True by (auto simp: scaled_power_def)
  have q: "rep m ?q" "num ?q mod modulus m = s ^ (2 * e) * radix m mod modulus m"
    using mul_rep [OF assms(1) st(2) st(2)] mul_scaled [OF assms(1) st(2) st(2) st(3) st(3)]
    by (simp_all add: power_add mult_2)
  have "rep m (mul m ?q x)"
      "num (mul m ?q x) mod modulus m = s ^ (2 * e + 1) * radix m mod modulus m"
    using mul_rep [OF assms(1) q(1) assms(2)] mul_scaled [OF assms(1) q(1) assms(2) q(2) assms(3)]
    by (simp_all add: power_add mult.commute)
  then show ?thesis using q st(1) True
    by (auto simp: scaled_power_def modexp_bit_def Let_def split: prod.splits)
next
  case False
  then show ?thesis using assms
    by (auto simp: scaled_power_def modexp_bit_def Let_def split: prod.splits)
qed

lemma modexp_byte_power:
  assumes "good m" "rep m x" "num x mod modulus m = s * radix m mod modulus m"
    and "scaled_power m s e st"
  shows "scaled_power m s (256 * e + unat b) (modexp_byte (mul m) x b st)"
proof -
  have "scaled_power m s (foldl (\<lambda>e i. 2 * e + of_bool (drop_bit i b AND 1 \<noteq> 0)) e is)
      (fold (\<lambda>i. modexp_bit (mul m) x (drop_bit i b AND 1 \<noteq> 0)) is st)" for "is"
    using assms(4)
    by (induction "is" arbitrary: e st) (simp_all add: modexp_bit_power [OF assms(1-3)])
  then show ?thesis
    using byte_bits_value [where e = e and b = b] unfolding modexp_byte_def by metis
qed

lemma modexp_power:
  assumes "good m" "rep m x" "num x mod modulus m = s * radix m mod modulus m"
    and "scaled_power m s e st"
  shows "scaled_power m s (foldl (\<lambda>a b. 256 * a + unat b) e bs)
    (fold (modexp_byte (mul m) x) bs st)"
  using assms(4)
  by (induction bs arbitrary: e st) (simp_all add: modexp_byte_power [OF assms(1-3)])

end

text \<open>The multiplier of the code: reduced well-formed numbers, radix \<open>BASE\<close> to the
  limb count of the modulus.\<close>

definition mont_rep :: "bn_mont \<Rightarrow> bn \<Rightarrow> bool" where
  "mont_rep m a \<longleftrightarrow> bn_wf a \<and> bn_val a < bn_val (mont_n m)"

definition mont_radix :: "bn_mont \<Rightarrow> nat" where
  "mont_radix m = BASE ^ bn_n (mont_n m)"

lemma mont_radix_coprime:
  assumes "mont_good m"
  shows "coprime (mont_radix m) (bn_val (mont_n m))"
proof -
  have "coprime 2 (bn_val (mont_n m))" using assms by (simp add: mont_good_def)
  then show ?thesis unfolding mont_radix_def BASE_def by (intro coprime_power_left_iff [THEN iffD2] disjI1)
qed

lemma bn_mont_mul_limbs:
  assumes "mont_good m" "bn_wf a" "bn_n a \<le> bn_n (mont_n m)" "mont_rep m b"
  shows "mont_rep m (bn_mont_mul a b m) \<and>
    bn_val (bn_mont_mul a b m) * mont_radix m mod bn_val (mont_n m) =
    bn_val a * bn_val b mod bn_val (mont_n m)"
  using bn_mont_mul_spec [OF assms(1), of b a] assms by (simp add: mont_rep_def mont_radix_def)

lemma mont_rep_limbs: "mont_rep m a \<Longrightarrow> bn_wf a \<and> bn_n a \<le> bn_n (mont_n m)"
  unfolding mont_rep_def using bn_n_mono bn_val_less less_trans by blast

interpretation mont: radix_multiplier mont_good "\<lambda>m. bn_val (mont_n m)" mont_radix mont_rep bn_val
  "\<lambda>m a b. bn_mont_mul a b m"
proof unfold_locales
  fix m a b
  assume "mont_good m"
  then show "coprime (mont_radix m) (bn_val (mont_n m))" by (rule mont_radix_coprime)
  assume a: "mont_rep m a"
  then show "bn_val a < bn_val (mont_n m)" by (simp add: mont_rep_def)
  assume "mont_rep m b"
  then show "mont_rep m (bn_mont_mul a b m)"
      "bn_val (bn_mont_mul a b m) * mont_radix m mod bn_val (mont_n m) =
       bn_val a * bn_val b mod bn_val (mont_n m)"
    using bn_mont_mul_limbs [OF \<open>mont_good m\<close>] mont_rep_limbs [OF a] by blast+
qed

lemma mont_rep_rr: "mont_good m \<Longrightarrow> mont_rep m (mont_rr m)"
  by (simp add: mont_rep_def mont_good_def)

lemma mont_rep_one: "mont_good m \<Longrightarrow> mont_rep m bn_one"
  by (simp add: mont_rep_def mont_good_def)

text \<open>Into and out of the scaled form.\<close>

lemma bn_mont_in_scaled:
  assumes "mont_good m" "bn_wf a" "bn_n a \<le> bn_n (mont_n m)"
  shows "mont_rep m (bn_mont_in a m) \<and>
    bn_val (bn_mont_in a m) mod bn_val (mont_n m) = bn_val a * mont_radix m mod bn_val (mont_n m)"
proof -
  let ?N = "bn_val (mont_n m)"
  have mul: "mont_rep m (bn_mont_in a m)"
      "bn_val (bn_mont_in a m) * mont_radix m mod ?N = bn_val a * bn_val (mont_rr m) mod ?N"
    using bn_mont_mul_limbs [OF assms mont_rep_rr [OF assms(1)]] by (auto simp: bn_mont_in_def)
  have "bn_val (mont_rr m) = mont_radix m * mont_radix m mod ?N"
    using assms(1) by (simp add: mont_good_def mont_radix_def mult_2 power_add)
  then have "bn_val (bn_mont_in a m) * mont_radix m mod ?N =
      bn_val a * mont_radix m * mont_radix m mod ?N"
    using mul(2) by (simp add: mod_mult_right_eq mult.assoc)
  then show ?thesis using mul(1) mod_cancel_coprime [OF _ mont_radix_coprime [OF assms(1)]] by blast
qed

lemma bn_mont_out_unscaled:
  assumes "mont_good m" "mont_rep m a"
    and "bn_val a mod bn_val (mont_n m) = x * mont_radix m mod bn_val (mont_n m)"
  shows "mont_rep m (bn_mont_out a m) \<and> bn_val (bn_mont_out a m) = x mod bn_val (mont_n m)"
proof -
  have r: "mont_rep m (bn_mont_out a m)"
      "bn_val (bn_mont_out a m) * mont_radix m mod bn_val (mont_n m) =
       x * mont_radix m mod bn_val (mont_n m)"
    using mont.mul_rep [OF assms(1,2) mont_rep_one [OF assms(1)]]
      mont.mul_num [OF assms(1,2) mont_rep_one [OF assms(1)]] assms(3)
    by (simp_all add: bn_mont_out_def)
  then have "bn_val (bn_mont_out a m) mod bn_val (mont_n m) = x mod bn_val (mont_n m)"
    using mod_cancel_coprime [OF _ mont_radix_coprime [OF assms(1)]] by blast
  then show ?thesis using r(1) by (simp add: mont_rep_def)
qed

lemma bn_modexp_power:
  assumes "mont_good m" "bn_wf base" "bn_n base \<le> bn_n (mont_n m)"
  shows "mont_rep m (bn_modexp base e m) \<and>
    bn_val (bn_modexp base e m) = bn_val base ^ os2ip e mod bn_val (mont_n m)"
proof -
  let ?x = "bn_mont_mul base (mont_rr m) m"
  obtain started acc where
    st: "fold (modexp_byte (\<lambda>a b. bn_mont_mul a b m) ?x) e (False, bn_zero) = (started, acc)"
    by fastforce
  have x: "mont_rep m ?x" "bn_val ?x mod bn_val (mont_n m) = bn_val base * mont_radix m mod bn_val (mont_n m)"
    using bn_mont_in_scaled [OF assms] by (auto simp: bn_mont_in_def)
  have "mont.scaled_power m (bn_val base) (os2ip e) (started, acc)"
    using mont.modexp_power [OF assms(1) x, of 0 "(False, bn_zero)" e]
    by (simp add: st os2ip_def mont.scaled_power_def)
  then have p: "started \<longleftrightarrow> 0 < os2ip e" "started \<Longrightarrow> mont_rep m acc"
      "started \<Longrightarrow> bn_val acc mod bn_val (mont_n m) = bn_val base ^ os2ip e * mont_radix m mod bn_val (mont_n m)"
    by (auto simp: mont.scaled_power_def)
  have e: "bn_modexp base e m = (if started then bn_mont_out acc m else bn_one)"
    by (simp add: bn_modexp_def bn_mont_out_def st Let_def)
  show ?thesis
  proof (cases started)
    case True
    then show ?thesis using bn_mont_out_unscaled [OF assms(1) p(2) p(3)] e by simp
  next
    case False
    then show ?thesis using p(1) e assms(1) by (simp add: mont_rep_one mont_good_def)
  qed
qed

end
