(* ===== verification/Bignum_Bytes.thy ===== *)
theory Bignum_Bytes
  imports Bignum
begin

text \<open>
  The ways in and out of a big integer: most-significant-first byte strings, the size in
  bytes, single bits, small constants, and the modular sum and difference the curve code
  uses.  Each is read through the value of the number.
\<close>

subsection \<open>Byte strings\<close>

lemma os2ip_Nil [simp]: "os2ip [] = 0"
  by (simp add: os2ip_def)

lemma os2ip_snoc [simp]: "os2ip (bs @ [b]) = 256 * os2ip bs + unat b"
  by (simp add: os2ip_def)

lemma os2ip_less: "os2ip bs < 256 ^ length bs"
proof (induction bs rule: rev_induct)
  case (snoc b bs)
  then show ?case using unat_u8_bound [of b] by simp
qed simp

lemma os2ip_append: "os2ip (as @ bs) = os2ip as * 256 ^ length bs + os2ip bs"
proof (induction bs rule: rev_induct)
  case (snoc b bs)
  have "os2ip (as @ bs @ [b]) = 256 * os2ip (as @ bs) + unat b"
    using os2ip_snoc [of "as @ bs" b] by simp
  then show ?case using snoc by (simp add: algebra_simps)
qed simp

lemma os2ip_Cons: "os2ip (b # bs) = unat b * 256 ^ length bs + os2ip bs"
  using os2ip_append [of "[b]" bs] by (simp add: os2ip_def)

lemma os2ip_strip [simp]: "os2ip (dropWhile (\<lambda>b. b = 0) bs) = os2ip bs"
  by (induction bs) (simp_all add: os2ip_Cons)

lemma os2ip_inj: "length as = length bs \<Longrightarrow> os2ip as = os2ip bs \<longleftrightarrow> as = bs"
proof (induction as arbitrary: bs rule: rev_induct)
  case (snoc a as)
  then obtain cs c where bs: "bs = cs @ [c]" "length cs = length as"
    by (metis length_append_singleton length_Suc_conv_rev)
  have "256 * x + unat a = 256 * y + unat c \<longleftrightarrow> x = y \<and> a = c" for x y
  proof
    assume "256 * x + unat a = 256 * y + unat c"
    moreover from this have "x = y" using unat_u8_bound [of a] unat_u8_bound [of c] by linarith
    ultimately show "x = y \<and> a = c" by (simp add: word_unat_eq_iff)
  qed simp
  then show ?case using snoc.IH [OF bs(2) [symmetric]] by (simp add: bs)
qed simp

text \<open>The bytes of a number: the inverse, of a given length.\<close>

lemma os2ip_bytes:
  assumes "\<And>i. i < n \<Longrightarrow> unat (f i) = x div 256 ^ (n - 1 - i) mod 256"
  shows "os2ip (map f [0..<n]) = x mod 256 ^ n"
  using assms
proof (induction n arbitrary: x)
  case (Suc n)
  have "unat (f i) = (x div 256) div 256 ^ (n - 1 - i) mod 256" if "i < n" for i
  proof -
    have "256 ^ (n - i) = (256 :: nat) * 256 ^ (n - 1 - i)"
      using that by (metis Suc_diff_Suc diff_Suc_eq_diff_pred power_Suc)
    then show ?thesis using Suc.prems [of i] that by (simp add: div_mult2_eq)
  qed
  then have "os2ip (map f [0..<n]) = x div 256 mod 256 ^ n" by (rule Suc.IH)
  moreover have "unat (f n) = x mod 256" using Suc.prems [of n] by simp
  ultimately show ?case by (simp add: mod_mult2_eq)
qed simp

lemma two_power_split: "(256 :: nat) ^ k = BASE ^ (k * 8 div 64) * 2 ^ (k * 8 mod 64)"
proof -
  have "(256 :: nat) ^ k = (2 ^ 8) ^ k" by simp
  also have "\<dots> = 2 ^ (k * 8)" by (simp only: power_mult [symmetric] mult.commute)
  also have "k * 8 = 64 * (k * 8 div 64) + k * 8 mod 64" by (simp only: mult_div_mod_eq)
  finally show ?thesis by (simp only: power_add power_mult BASE_def)
qed

lemma unat_shifted: "unat (drop_bit r (x :: 'a::len word)) = unat x div 2 ^ r"
  unfolding unat_drop_bit_eq by (simp add: drop_bit_eq_div)

lemma bn_to_bytes_length [simp]: "length (bn_to_bytes a len) = len"
  by (simp add: bn_to_bytes_def)

lemma bn_to_bytes_value: "os2ip (bn_to_bytes a len) = bn_val a mod 256 ^ len"
  unfolding bn_to_bytes_def
proof (rule os2ip_bytes)
  fix i
  assume "i < len"
  define k where "k = len - 1 - i"
  let ?l = "k * 8 div 64" and ?r = "k * 8 mod 64"
  have r: "?r + 8 \<le> 64" by presburger
  have "bn_val a div 256 ^ k mod 256 = bn_val a div BASE ^ ?l div 2 ^ ?r mod 2 ^ 8"
    unfolding two_power_split div_mult2_eq by simp
  also have "\<dots> = bn_val a div BASE ^ ?l mod 2 ^ 64 div 2 ^ ?r mod 2 ^ 8"
    using r by (simp only: flip: drop_bit_eq_div take_bit_eq_mod) (simp add: take_bit_drop_bit min_def)
  also have "\<dots> = unat (limb a ?l) div 2 ^ ?r mod 2 ^ 8"
    by (simp only: bn_val_digit flip: BASE_def)
  also have "\<dots> = unat (if ?l < bn_n a then ucast (drop_bit ?r (bn_v a ! ?l)) else 0 :: u8)"
    by (simp add: limb_def unsigned_ucast_eq take_bit_eq_mod unat_shifted)
  finally show "unat (let b = (len - 1 - i) * 8 in
      if b div 64 < bn_n a then ucast (drop_bit (b mod 64) (bn_v a ! (b div 64))) else 0 :: u8) =
      bn_val a div 256 ^ (len - 1 - i) mod 256"
    by (simp add: k_def Let_def)
qed

text \<open>Reading a byte string: each byte lands in bits that are still clear.\<close>

lemma unat_or_disjoint:
  fixes a b :: "'a::len word"
  assumes "a AND b = 0"
  shows "unat (a OR b) = unat a + unat b"
proof -
  have "unat a AND unat b = 0" using assms by (metis unat_0 unsigned_and_eq)
  then show ?thesis by (simp add: unsigned_or_eq disjunctive_add_eq_or)
qed

lemma unat_push_byte:
  assumes "r + 8 \<le> 64"
  shows "unat (push_bit r (ucast (b :: u8)) :: u64) = unat b * 2 ^ r"
proof -
  have "unat b * 2 ^ r < 2 ^ 8 * 2 ^ r" using unat_u8_bound [of b] by simp
  also have "\<dots> \<le> (2 :: nat) ^ 64" unfolding power_add [symmetric] using assms by (intro power_increasing) simp_all
  finally show ?thesis
    unfolding unsigned_push_bit_eq by (simp add: push_bit_eq_mult take_bit_eq_mod)
qed

definition low_clear :: "u64 list \<Rightarrow> nat \<Rightarrow> bool" where
  "low_clear v k \<longleftrightarrow> (\<forall>l<length v. \<forall>p. 64 * l + p < k \<longrightarrow> \<not> bit (v ! l) p)"

lemma or_bytes_spec:
  assumes "length be \<le> BN_MAX_LIMBS * 8" "i \<le> length be" and
    v: "v = replicate BN_MAX_LIMBS 0"
  shows "length (or_bytes be i v) = BN_MAX_LIMBS \<and> low_clear (or_bytes be i v) (8 * (length be - i)) \<and>
    wsum ((!) (or_bytes be i v)) BN_MAX_LIMBS = os2ip (take i be) * 256 ^ (length be - i)"
  using assms(2)
proof (induction i)
  case 0
  have "wsum ((!) v) BN_MAX_LIMBS = 0" by (rule wsum_zero) (simp add: v)
  then show ?case by (simp add: v low_clear_def)
next
  case (Suc i)
  define u where "u = or_bytes be i v"
  define k where "k = length be - 1 - i"
  let ?l = "k * 8 div 64" and ?r = "k * 8 mod 64"
  let ?x = "push_bit ?r (ucast (be ! i)) :: u64"
  have k: "length be - i = Suc k" "length be - Suc i = k" using Suc.prems by (auto simp: k_def)
  have IH: "length u = BN_MAX_LIMBS" "low_clear u (8 * Suc k)"
      "wsum ((!) u) BN_MAX_LIMBS = os2ip (take i be) * 256 ^ Suc k"
    using Suc by (simp_all add: u_def k)
  have e: "or_bytes be (Suc i) v = u[?l := (u ! ?l) OR ?x]"
    by (simp add: u_def k_def Let_def)
  have r: "?r + 8 \<le> 64" by presburger
  have l: "?l < BN_MAX_LIMBS" using assms(1) k(2) Suc.prems by (simp add: BN_MAX_LIMBS_def k_def)
  have kd: "64 * ?l + ?r = 8 * k" by (simp only: mult_div_mod_eq mult.commute)
  have disj: "u ! ?l AND ?x = 0"
  proof (rule bit_word_eqI)
    fix p
    assume "p < LENGTH(64)"
    have "\<not> bit (u ! ?l) p" if "p < ?r + 8"
      using IH(1,2) l kd that unfolding low_clear_def by (auto simp: mult_Suc_right)
    moreover have "\<not> bit (be ! i) (p - ?r)" if "\<not> p < ?r + 8"
      using that bit_imp_le_length [of "be ! i" "p - ?r"] by auto
    ultimately show "bit (u ! ?l AND ?x) p = bit (0 :: u64) p"
      by (auto simp: bit_simps)
  qed
  have "unat ((u ! ?l) OR ?x) = unat (u ! ?l) + unat (be ! i) * 2 ^ ?r"
    unfolding unat_or_disjoint [OF disj] unat_push_byte [OF r] by simp
  then have "wsum ((!) (u[?l := (u ! ?l) OR ?x])) BN_MAX_LIMBS =
      wsum ((!) u) BN_MAX_LIMBS + unat (be ! i) * 2 ^ ?r * BASE ^ ?l"
    using wsum_update [of ?l BN_MAX_LIMBS u "(u ! ?l) OR ?x"] l IH(1) by (simp add: algebra_simps)
  also have "\<dots> = os2ip (take (Suc i) be) * 256 ^ k"
    using Suc.prems IH(3) two_power_split [of k]
    by (simp add: take_Suc_conv_app_nth algebra_simps)
  moreover have "low_clear (u[?l := (u ! ?l) OR ?x]) (8 * k)"
    using IH(2) kd l IH(1) by (auto simp: low_clear_def nth_list_update bit_simps)
  ultimately show ?case using IH(1) by (simp add: e k del: or_bytes.simps)
qed

lemma bn_from_bytes_spec:
  "fst (bn_from_bytes bs) \<longleftrightarrow> length (dropWhile (\<lambda>b. b = 0) bs) \<le> 512"
  "bn_wf (snd (bn_from_bytes bs))"
  "fst (bn_from_bytes bs) \<Longrightarrow> bn_val (snd (bn_from_bytes bs)) = os2ip bs"
proof -
  let ?be = "dropWhile (\<lambda>b. b = 0) bs"
  let ?v = "or_bytes ?be (length ?be) (bn_v bn_zero)"
  let ?n = "(length ?be * 8 + 63) div 64"
  show "fst (bn_from_bytes bs) \<longleftrightarrow> length (dropWhile (\<lambda>b. b = 0) bs) \<le> 512"
    by (simp add: bn_from_bytes_def Let_def BN_MAX_LIMBS_def)
  have ok: "bn_shape \<lparr> bn_n = ?n, bn_v = ?v \<rparr> \<and> bn_val \<lparr> bn_n = ?n, bn_v = ?v \<rparr> = os2ip bs"
    if len: "length ?be \<le> BN_MAX_LIMBS * 8"
  proof -
    have v: "length ?v = BN_MAX_LIMBS" "wsum ((!) ?v) BN_MAX_LIMBS = os2ip bs"
      using or_bytes_spec [OF len order_refl refl] by (simp_all add: bn_zero_def)
    have n: "?n \<le> BN_MAX_LIMBS" using len by (simp add: BN_MAX_LIMBS_def)
    have "os2ip bs < 256 ^ length ?be" using os2ip_less [of ?be] by simp
    also have "\<dots> \<le> BASE ^ ?n"
    proof -
      have "(256 :: nat) ^ length ?be = 2 ^ (8 * length ?be)" by (simp add: power_mult)
      also have "\<dots> \<le> 2 ^ (64 * ?n)" by (rule power_increasing) simp_all
      also have "\<dots> = BASE ^ ?n" by (simp only: BASE_def power_mult)
      finally show ?thesis .
    qed
    finally have small: "os2ip bs < BASE ^ ?n" .
    have above: "?v ! i = 0" if i: "?n \<le> i" "i < BN_MAX_LIMBS" for i
    proof -
      have "BASE ^ ?n \<le> BASE ^ i" using i(1) by (rule power_increasing) simp
      then have "os2ip bs div BASE ^ i = 0" using small by (intro div_less) linarith
      then show ?thesis using wsum_digit [OF i(2), of "(!) ?v"] v(2) by (simp add: unat_eq_0)
    qed
    have "wsum ((!) ?v) ?n = wsum ((!) ?v) BN_MAX_LIMBS"
      using above n by (intro wsum_extend [symmetric]) auto
    then show ?thesis using v n above by (auto simp: bn_shape_def list_all_iff bn_val_nth)
  qed
  show "bn_wf (snd (bn_from_bytes bs))"
    using ok by (simp add: bn_from_bytes_def Let_def)
  show "bn_val (snd (bn_from_bytes bs)) = os2ip bs" if "fst (bn_from_bytes bs)"
    using ok that by (simp add: bn_from_bytes_def Let_def split: if_splits)
qed

subsection \<open>Sizes, bits, small constants\<close>

lemma top_bytes_spec: "unat t < 256 ^ k \<longleftrightarrow> top_bytes t \<le> k"
proof (induction t arbitrary: k rule: top_bytes.induct)
  case (1 t)
  show ?case
  proof (cases "t = 0")
    case True
    then show ?thesis by (simp add: top_bytes.simps)
  next
    case False
    then have t: "top_bytes t = Suc (top_bytes (drop_bit 8 t))" by (simp add: top_bytes.simps)
    have pos: "0 < unat t" using False by (simp add: unat_gt_0)
    show ?thesis
    proof (cases k)
      case 0
      then show ?thesis using pos t by simp
    next
      case (Suc j)
      have "unat t < 256 ^ Suc j \<longleftrightarrow> unat (drop_bit 8 t) < 256 ^ j"
        by (simp add: unat_shifted div_less_iff_less_mult mult.commute)
      then show ?thesis using 1 [OF False, of j] t Suc by simp
    qed
  qed
qed

text \<open>The size in bytes is the least number of bytes the value fits in.\<close>

lemma bn_bytes_least:
  assumes "bn_wf a"
  shows "bn_val a < 256 ^ k \<longleftrightarrow> bn_bytes a \<le> k"
proof (cases "bn_n a")
  case 0
  then show ?thesis by (simp add: bn_bytes_def bn_val_nth)
next
  case (Suc m)
  let ?t = "bn_v a ! m"
  have B: "(256 :: nat) ^ (m * 8 + j) = BASE ^ m * 256 ^ j" for j
  proof -
    have "(256 :: nat) ^ (m * 8) = (256 ^ 8) ^ m" by (simp only: power_mult [symmetric] mult.commute)
    then show ?thesis by (simp add: power_add BASE_def)
  qed
  have val: "bn_val a = wsum ((!) (bn_v a)) m + unat ?t * BASE ^ m" by (simp add: bn_val_nth Suc)
  have low: "wsum ((!) (bn_v a)) m < BASE ^ m" by (rule wsum_less)
  have bytes: "bn_bytes a = m * 8 + top_bytes ?t" by (simp add: bn_bytes_def Suc)
  have pos: "0 < unat ?t" using assms Suc by (simp add: bn_wf_def unat_gt_0)
  show ?thesis
  proof (cases "m * 8 \<le> k")
    case True
    then obtain j where k: "k = m * 8 + j" using le_Suc_ex by blast
    have "bn_val a div BASE ^ m = unat ?t" using low by (simp add: val)
    then have "bn_val a < 256 ^ k \<longleftrightarrow> unat ?t < 256 ^ j"
      unfolding k B by (metis BASE_pos(1) div_less_iff_less_mult mult.commute zero_less_power)
    then show ?thesis using top_bytes_spec [of ?t j] by (simp add: bytes k)
  next
    case False
    have "(256 :: nat) ^ k \<le> 256 ^ (m * 8 + 0)" using False by (intro power_increasing) simp_all
    also have "\<dots> \<le> bn_val a" unfolding B val using pos by (simp add: trans_le_add2)
    finally show ?thesis using False by (simp add: bytes)
  qed
qed

lemma bn_set_u64_wf [simp]: "bn_wf (bn_set_u64 x)"
  by (auto simp: bn_wf_def bn_shape_def bn_set_u64_def bn_zero_def BN_MAX_LIMBS_def list_all_iff nth_list_update)

lemma bn_set_u64_val [simp]: "bn_val (bn_set_u64 x) = unat x"
  by (simp add: bn_val_nth bn_set_u64_def bn_zero_def BN_MAX_LIMBS_def)

lemma bn_is_zero_val: "bn_is_zero a \<longleftrightarrow> bn_val a = 0"
proof -
  have "bn_val a = 0 \<longleftrightarrow> (\<forall>i<bn_n a. unat (bn_v a ! i) = 0)"
    by (auto simp: bn_val_nth wsum_def)
  then show ?thesis by (auto simp: bn_is_zero_def list_all_iff unat_eq_0)
qed

lemma bn_bit_val:
  assumes "0 \<le> i"
  shows "bn_bit a i = of_bool (bit (bn_val a) (nat i))"
proof -
  let ?k = "nat i"
  have "bit (bn_val a) ?k \<longleftrightarrow> bit (bn_val a div BASE ^ (?k div 64) mod BASE) (?k mod 64)"
    unfolding BASE_def power_mult [symmetric]
    by (simp only: flip: drop_bit_eq_div take_bit_eq_mod) (simp add: bit_take_bit_iff bit_drop_bit_eq)
  then have "bit (bn_val a) ?k \<longleftrightarrow> bit (limb a (?k div 64)) (?k mod 64)"
    by (simp add: bn_val_digit bit_unsigned_iff)
  moreover have "?k div 64 < bn_n a \<longleftrightarrow> \<not> int (bn_n a) * 64 \<le> i" using assms by linarith
  ultimately show ?thesis using assms
    by (auto simp: bn_bit_def limb_def and_one_eq bit_iff_odd_drop_bit odd_iff_mod_2_eq_one
        even_iff_mod_2_eq_zero)
qed

subsection \<open>Modular sum and difference\<close>

lemma bn_mod_add_spec:
  assumes n: "bn_wf n" and a: "bn_wf a" "bn_val a < bn_val n" and b: "bn_wf b" "bn_val b < bn_val n"
  shows "bn_wf (bn_mod_add a b n) \<and> bn_val (bn_mod_add a b n) = (bn_val a + bn_val b) mod bn_val n"
proof -
  let ?w = "bn_n n"
  obtain v c where v: "add_limbs (limb a) (limb b) ?w (bn_v bn_zero) = (v, c)" by fastforce
  have w: "?w \<le> BN_MAX_LIMBS" using n bn_shapeD by simp
  have z: "length (bn_v bn_zero) = BN_MAX_LIMBS" by (simp add: bn_zero_def)
  have ab: "bn_n a \<le> ?w" "bn_n b \<le> ?w"
    using a b bn_n_mono bn_val_less [of n ?w] by (meson less_trans order_refl)+
  have sp: "length v = BN_MAX_LIMBS"
      "wsum ((!) v) ?w + unat c * BASE ^ ?w = bn_val a + bn_val b"
      "\<forall>k\<ge>?w. v ! k = bn_v bn_zero ! k"
    using add_limbs_spec [OF _ v] w z ab by auto
  let ?t = "bn_zero \<lparr> bn_v := v, bn_n := ?w \<rparr>"
  have t: "bn_shape ?t" "bn_n ?t = ?w"
    using sp(1,3) w by (auto simp: bn_shape_def list_all_iff bn_zero_def)
  have tv: "bn_val ?t + unat c * BASE ^ ?w = bn_val a + bn_val b"
    using sp(2) by (simp add: bn_val_nth [of ?t])
  let ?r = "if c \<noteq> 0 \<or> 0 \<le> bn_cmp ?t n then sub_w ?t n ?w else ?t"
  have r: "bn_shape ?r \<and> bn_n ?r \<le> ?w \<and> bn_val ?r = (bn_val a + bn_val b) mod bn_val n"
    by (rule reduce_once [OF t tv _ _ refl]) (use a(2) b(2) in \<open>simp_all add: unat_eq_0\<close>)
  have "bn_mod_add a b n = bn_trim (?r \<lparr> bn_n := ?w \<rparr>)"
    by (simp add: bn_mod_add_def v Let_def)
  then show ?thesis using r bn_widen [of ?r ?w] w by simp
qed

lemma bn_mod_sub_spec:
  assumes n: "bn_wf n" and a: "bn_wf a" "bn_val a < bn_val n" and b: "bn_wf b" "bn_val b < bn_val n"
  shows "bn_wf (bn_mod_sub a b n) \<and>
    int (bn_val (bn_mod_sub a b n)) = (int (bn_val a) - int (bn_val b)) mod int (bn_val n)"
proof -
  let ?w = "bn_n n"
  have w: "?w \<le> BN_MAX_LIMBS" using n bn_shapeD by simp
  have nv: "bn_val n < BASE ^ ?w" by (rule bn_val_less) simp
  have ab: "bn_n a \<le> ?w" "bn_n b \<le> ?w"
    using a b bn_n_mono bn_val_less [of n ?w] by (meson less_trans order_refl)+
  define t where "t = (if bn_cmp a b < 0
    then a \<lparr> bn_n := ?w, bn_v := fst (add_limbs (\<lambda>i. bn_v a ! i) (\<lambda>i. bn_v n ! i) ?w (bn_v a)) \<rparr>
    else a \<lparr> bn_n := ?w \<rparr>)"
  note aw = bn_widen [OF bn_wf_shape [OF a(1)] ab(1) w]
  have t: "bn_shape t \<and> bn_n t = ?w \<and>
    (\<exists>c. bn_val t + c * BASE ^ ?w = bn_val a + (if bn_val a < bn_val b then bn_val n else 0))"
  proof (cases "bn_val a < bn_val b")
    case True
    obtain v c where v: "add_limbs (\<lambda>i. bn_v a ! i) (\<lambda>i. bn_v n ! i) ?w (bn_v a) = (v, c)" by fastforce
    note as = bn_shapeD [OF bn_wf_shape [OF a(1)]]
    have sp: "length v = BN_MAX_LIMBS"
        "wsum ((!) v) ?w + unat c * BASE ^ ?w = wsum ((!) (bn_v a)) ?w + wsum ((!) (bn_v n)) ?w"
        "\<forall>k\<ge>?w. v ! k = bn_v a ! k"
      using add_limbs_spec [OF _ v] w as(1) by auto
    have te: "t = a \<lparr> bn_n := ?w, bn_v := v \<rparr>" using True by (simp add: t_def v)
    have "bn_shape t" using as sp(1,3) w ab(1) by (auto simp: te bn_shape_def list_all_iff)
    moreover have "bn_val t + unat c * BASE ^ ?w = bn_val a + bn_val n"
      using sp(2) aw(2) by (simp add: te bn_val_nth)
    ultimately show ?thesis using True by (auto simp: te)
  next
    case False
    then have "t = a \<lparr> bn_n := ?w \<rparr>" by (simp add: t_def)
    then show ?thesis using aw False by (auto intro: exI [of _ 0])
  qed
  then obtain c where tv: "bn_val t + c * BASE ^ ?w = bn_val a + (if bn_val a < bn_val b then bn_val n else 0)"
    by blast
  let ?r = "sub_w t b ?w"
  obtain br where r: "bn_wf ?r" "bn_val ?r + bn_val b = bn_val t + br * BASE ^ ?w"
    using sub_w_spec [of t ?w b] t ab(2) by blast
  have "bn_n ?r \<le> ?w" by (simp add: sub_w_def bn_trim_def trim_count_spec)
  then have rl: "bn_val ?r < BASE ^ ?w" by (rule bn_val_less)
  have e: "bn_mod_sub a b n = bn_trim ?r"
    by (simp add: bn_mod_sub_def t_def Let_def)
  define d where "d = bn_val a + (if bn_val a < bn_val b then bn_val n else 0) - bn_val b"
  have d: "d < bn_val n" "int d = int (bn_val a) - int (bn_val b) + (if bn_val a < bn_val b then int (bn_val n) else 0)"
    using a(2) b(2) by (auto simp: d_def)
  have "d + bn_val b + br * BASE ^ ?w = bn_val ?r + bn_val b + c * BASE ^ ?w"
    using tv r(2) a(2) b(2) unfolding d_def by (auto split: if_splits)
  then have "(d + br * BASE ^ ?w) mod BASE ^ ?w = (bn_val ?r + c * BASE ^ ?w) mod BASE ^ ?w" by simp
  then have "bn_val ?r = d" using rl d(1) nv by simp
  moreover have "int d = int d mod int (bn_val n)" using d(1) by simp
  then have "int d = (int (bn_val a) - int (bn_val b)) mod int (bn_val n)"
    unfolding d(2) by (simp split: if_splits)
  ultimately show ?thesis using r(1) e by simp
qed

subsection \<open>Modular exponentiation from the public interface\<close>

text \<open>C35. Modular exponentiation is the power: once a context is set up for a modulus above
  1, the result for any base with no more limbs than the modulus and any big-endian
  exponent, zero included, has the value of the base to the exponent modulo the modulus.\<close>

theorem bn_modexp_correct:
  assumes "bn_wf n" "1 < bn_val n" "bn_mont_init n = Some m" "bn_wf base" "bn_n base \<le> bn_n n"
  shows "bn_val (bn_modexp base e m) = bn_val base ^ os2ip e mod bn_val n"
proof -
  have m: "mont_good m" "mont_n m = n" using bn_mont_init_good(1) [OF assms(1-3)] by auto
  show ?thesis using bn_modexp_power [OF m(1) assms(4)] m(2) assms(5) by simp
qed

text \<open>The witness: three to the usual public exponent, modulo 101.\<close>

theorem bn_modexp_correct_witness:
  "bn_val (bn_modexp (bn_set_u64 3) [1, 0, 1] (the (bn_mont_init (bn_set_u64 101)))) = 3 ^ 65537 mod 101"
proof -
  have "bn_mont_init (bn_set_u64 101) \<noteq> None"
    using bn_mont_init_good(2) [of "bn_set_u64 101"] by simp
  then obtain m where m: "bn_mont_init (bn_set_u64 101) = Some m" by auto
  have u: "unat (3 :: u64) = 3" "unat (101 :: u64) = 101" by simp_all
  have e: "os2ip [1, 0, 1] = 65537" by (simp add: os2ip_def)
  have le: "bn_n (bn_set_u64 3) \<le> bn_n (bn_set_u64 101)" by (simp add: bn_set_u64_def)
  have "bn_val (bn_modexp (bn_set_u64 3) [1, 0, 1] m) =
      bn_val (bn_set_u64 3) ^ os2ip [1, 0, 1] mod bn_val (bn_set_u64 101)"
    by (rule bn_modexp_correct [OF _ _ m _ le]) simp_all
  then show ?thesis by (simp only: m bn_set_u64_val option.sel u e)
qed

end
