(* ===== verification/Block_Stream.thy ===== *)
theory Block_Stream
  imports Prelude
begin

text \<open>
  What the two hash functions share: a message is absorbed block by block into a chaining
  value, and bytes that do not fill a block are held back.  The locale states the laws of
  an update loop over such a state; inside it the loop is shown to absorb any sequence of
  pieces as it absorbs their concatenation, and the padding to end on a block boundary.
\<close>

function absorb :: "nat \<Rightarrow> ('h \<Rightarrow> u8 list \<Rightarrow> 'h) \<Rightarrow> 'h \<Rightarrow> u8 list \<Rightarrow> 'h" where
  "absorb bs f h m =
     (if 0 < bs \<and> bs \<le> length m then absorb bs f (f h (take bs m)) (drop bs m) else h)"
  by auto
termination by (relation "measure (\<lambda>(bs, f, h, m). length m)") auto

declare absorb.simps [simp del]

definition leftover :: "nat \<Rightarrow> u8 list \<Rightarrow> u8 list" where
  "leftover bs m = drop (bs * (length m div bs)) m"

lemma absorb_short [simp]: "length m < bs \<Longrightarrow> absorb bs f h m = h"
  by (subst absorb.simps) simp

lemma absorb_block: "\<lbrakk> 0 < bs; length b = bs \<rbrakk> \<Longrightarrow> absorb bs f h (b @ m) = absorb bs f (f h b) m"
  by (subst absorb.simps) simp

lemma leftover_short [simp]: "length m < bs \<Longrightarrow> leftover bs m = m"
  by (simp add: leftover_def)

lemma leftover_block: "\<lbrakk> 0 < bs; length b = bs \<rbrakk> \<Longrightarrow> leftover bs (b @ m) = leftover bs m"
  by (simp add: leftover_def div_add_self1)

lemma leftover_length [simp]: "length (leftover bs m) = length m mod bs"
  by (simp add: leftover_def minus_mult_div_eq_mod)

lemma block_prefix: "bs \<le> length m \<Longrightarrow> \<exists>b r. m = b @ r \<and> length b = bs"
  by (intro exI [of _ "take bs m"] exI [of _ "drop bs m"]) simp

text \<open>Absorbing a piece and then another is absorbing what was held back and the other.\<close>

lemma absorb_append:
  assumes "0 < bs"
  shows "absorb bs f h (m @ p) = absorb bs f (absorb bs f h m) (leftover bs m @ p) \<and>
    leftover bs (m @ p) = leftover bs (leftover bs m @ p)"
proof (induction "length m" arbitrary: m h rule: less_induct)
  case less
  show ?case
  proof (cases "bs \<le> length m")
    case True
    then obtain b r where m: "m = b @ r" "length b = bs" using block_prefix by blast
    have "length r < length m" using m assms by simp
    then have "absorb bs f (f h b) (r @ p) = absorb bs f (absorb bs f (f h b) r) (leftover bs r @ p)"
        "leftover bs (r @ p) = leftover bs (leftover bs r @ p)"
      using less by blast+
    then show ?thesis using m assms by (simp add: absorb_block leftover_block)
  qed simp
qed

text \<open>The number of zero bytes the padding appends to a message of length \<open>n\<close>, so that
  the terminating one byte and the zeros end at place \<open>t\<close> of a block.\<close>

definition zeros_needed :: "nat \<Rightarrow> nat \<Rightarrow> nat \<Rightarrow> nat" where
  "zeros_needed bs t n = (bs + t - n mod bs) mod bs"

lemma zeros_needed_least:
  assumes "t < bs"
  shows "(n + zeros_needed bs t n) mod bs = t"
proof -
  have "n mod bs \<le> bs + t" using assms by (simp add: mod_less_divisor trans_le_add1 order_less_imp_le)
  then have "n mod bs + (bs + t - n mod bs) = bs + t" by simp
  then show ?thesis using assms unfolding zeros_needed_def
    by (metis mod_add_left_eq mod_add_right_eq mod_add_self1 mod_less)
qed

lemma zeros_needed_Suc:
  assumes "t < bs" "n mod bs \<noteq> t"
  shows "zeros_needed bs t n = Suc (zeros_needed bs t (Suc n))"
proof -
  let ?r = "n mod bs"
  have r: "?r < bs" using assms by simp
  show ?thesis
  proof (cases "Suc ?r = bs")
    case True
    then have "Suc n mod bs = 0" by (simp add: mod_Suc)
    moreover have "bs + t - ?r = Suc t" "Suc t < bs" using True assms by linarith+
    then have "(bs + t - ?r) mod bs = Suc t" by simp
    ultimately show ?thesis using assms by (simp add: zeros_needed_def)
  next
    case False
    then have s: "Suc n mod bs = Suc ?r" using r by (simp add: mod_Suc)
    show ?thesis
    proof (cases "?r < t")
      case True
      then show ?thesis using assms r by (simp add: zeros_needed_def s le_mod_geq)
    next
      case nl: False
      then show ?thesis using assms r False by (simp add: zeros_needed_def s)
    qed
  qed
qed

lemma zeros_needed_0: "\<lbrakk> t < bs; n mod bs = t \<rbrakk> \<Longrightarrow> zeros_needed bs t n = 0"
  by (simp add: zeros_needed_def)

locale block_stream =
  fixes bs :: nat
    and compress :: "'h \<Rightarrow> u8 list \<Rightarrow> 'h"
    and chain :: "'s \<Rightarrow> 'h"
    and held :: "'s \<Rightarrow> u8 list"
    and ok :: "'s \<Rightarrow> bool"
    and note_len :: "nat \<Rightarrow> 's \<Rightarrow> 's"
    and feed :: "'s \<Rightarrow> u8 list \<Rightarrow> 's option"
    and stop :: nat
    and pad :: "'s \<Rightarrow> 's option"
  assumes bs_pos: "0 < bs"
    and stop_less: "stop < bs"
    and held_less: "ok s \<Longrightarrow> length (held s) < bs"
    and note_keeps: "chain (note_len k s) = chain s" "held (note_len k s) = held s"
      "ok (note_len k s) = ok s"
    and feed_done: "feed s [] = Some s"
    and feed_straight: "\<lbrakk> ok s; held s = []; length b = bs \<rbrakk> \<Longrightarrow>
      \<exists>s'. feed s (b @ q) = feed s' q \<and> ok s' \<and> held s' = [] \<and> chain s' = compress (chain s) b"
    and feed_hold: "\<lbrakk> ok s; p \<noteq> []; length (held s @ p) < bs \<rbrakk> \<Longrightarrow>
      \<exists>s'. feed s p = Some s' \<and> ok s' \<and> held s' = held s @ p \<and> chain s' = chain s"
    and feed_fill: "\<lbrakk> ok s; held s \<noteq> []; p \<noteq> []; length (held s @ p) = bs \<rbrakk> \<Longrightarrow>
      \<exists>s'. feed s (p @ q) = feed s' q \<and> ok s' \<and> held s' = [] \<and> chain s' = compress (chain s) (held s @ p)"
    and pad_loop: "ok s \<Longrightarrow> pad s = (if length (held s) = stop then Some s
      else case feed (note_len 1 s) [0] of None \<Rightarrow> None | Some s' \<Rightarrow> pad s')"
begin

lemma feed_absorbs:
  assumes "ok s"
  shows "\<exists>s'. feed s p = Some s' \<and> ok s' \<and> chain s' = absorb bs compress (chain s) (held s @ p) \<and>
    held s' = leftover bs (held s @ p)"
  using assms
proof (induction "length p" arbitrary: p s rule: less_induct)
  case less
  note hl = held_less [OF less.prems]
  consider "p = []" | "p \<noteq> []" "length (held s @ p) < bs" | "bs \<le> length (held s @ p)"
    by linarith
  then show ?case
  proof cases
    case 1
    then show ?thesis using less.prems hl feed_done by simp
  next
    case 2
    then show ?thesis using feed_hold [OF less.prems] by fastforce
  next
    case 3
    define k where "k = bs - length (held s)"
    have k: "0 < k" "k \<le> length p" using 3 hl by (auto simp: k_def)
    let ?b = "take k p" and ?q = "drop k p"
    have b: "length (held s @ ?b) = bs" "?b \<noteq> []" using k hl by (auto simp: k_def)
    obtain s' where s': "feed s p = feed s' ?q" "ok s'" "held s' = []"
        "chain s' = compress (chain s) (held s @ ?b)"
      using feed_fill [OF less.prems _ b(2,1), of ?q] feed_straight [OF less.prems, of ?b ?q] b
      by (cases "held s = []") auto
    have "length ?q < length p" using k by simp
    then obtain s'' where "feed s' ?q = Some s''" "ok s''"
        "chain s'' = absorb bs compress (chain s') ?q" "held s'' = leftover bs ?q"
      using less.hyps s'(2,3) by fastforce
    moreover have "held s @ p = (held s @ ?b) @ ?q" by simp
    ultimately show ?thesis
      using s' absorb_block [OF bs_pos b(1)] leftover_block [OF bs_pos b(1)] by metis
  qed
qed

lemma pad_absorbs:
  assumes "ok s"
  shows "\<exists>s'. pad s = Some s' \<and> ok s' \<and> length (held s') = stop \<and>
    chain s' = absorb bs compress (chain s) (held s @ replicate (zeros_needed bs stop (length (held s))) 0) \<and>
    held s' = leftover bs (held s @ replicate (zeros_needed bs stop (length (held s))) 0)"
  using assms
proof (induction "zeros_needed bs stop (length (held s))" arbitrary: s)
  case 0
  have "length (held s) = stop"
    using zeros_needed_least [OF stop_less, of "length (held s)"] 0 held_less by simp
  then show ?case using 0 held_less [OF 0(2)] by (simp add: pad_loop [OF 0(2)])
next
  case (Suc k)
  have ne: "length (held s) \<noteq> stop"
    using Suc.hyps(2) zeros_needed_0 [OF stop_less, of stop] stop_less by auto
  have z: "zeros_needed bs stop (length (held s)) = Suc (zeros_needed bs stop (Suc (length (held s))))"
    using ne held_less [OF Suc.prems] by (intro zeros_needed_Suc [OF stop_less]) simp
  obtain s' where s': "feed (note_len 1 s) [0] = Some s'" "ok s'"
      "chain s' = absorb bs compress (chain s) (held s @ [0])" "held s' = leftover bs (held s @ [0])"
    using feed_absorbs [of "note_len 1 s" "[0]"] Suc.prems note_keeps by auto
  have "zeros_needed bs stop (length (held s')) = zeros_needed bs stop (Suc (length (held s)))"
    unfolding s'(4) by (simp add: zeros_needed_def)
  then have k: "k = zeros_needed bs stop (length (held s'))" using z Suc.hyps(2) by simp
  have p: "pad s = pad s'" using ne s'(1) by (simp add: pad_loop [OF Suc.prems])
  have e: "held s @ replicate (Suc k) 0 = (held s @ [0]) @ replicate k 0" by simp
  obtain s'' where s'': "pad s' = Some s''" "ok s''" "length (held s'') = stop"
      "chain s'' = absorb bs compress (chain s') (held s' @ replicate k 0)"
      "held s'' = leftover bs (held s' @ replicate k 0)"
    using Suc.hyps(1) [OF k s'(2)] unfolding k [symmetric] by blast
  have "chain s'' = absorb bs compress (chain s) (held s @ replicate (Suc k) 0)"
      "held s'' = leftover bs (held s @ replicate (Suc k) 0)"
    unfolding e s''(4,5) s'(3,4)
    using absorb_append [OF bs_pos, of compress "chain s" "held s @ [0]" "replicate k 0"] by simp_all
  then show ?case unfolding p Suc.hyps(2) [symmetric] using s''(1-3) by blast
qed

text \<open>The whole end of a hash: the one bit, the zeros, and a length field that fills the block.\<close>

lemma finish_absorbs:
  assumes "ok s"
  shows "\<exists>s1 s2 s3. feed (note_len 1 s) [0x80] = Some s1 \<and> pad s1 = Some s2 \<and>
    feed (note_len k s2) lenb = Some s3 \<and> ok s3 \<and>
    chain s3 = absorb bs compress (chain s)
      (held s @ [0x80] @ replicate (zeros_needed bs stop (Suc (length (held s)))) 0 @ lenb)"
proof -
  let ?z = "replicate (zeros_needed bs stop (Suc (length (held s)))) (0 :: u8)"
  note app = absorb_append [OF bs_pos, of compress]
  obtain s1 where s1: "feed (note_len 1 s) [0x80] = Some s1" "ok s1"
      "chain s1 = absorb bs compress (chain s) (held s @ [0x80])" "held s1 = leftover bs (held s @ [0x80])"
    using feed_absorbs [of "note_len 1 s" "[0x80]"] assms note_keeps by auto
  have "zeros_needed bs stop (length (held s1)) = zeros_needed bs stop (Suc (length (held s)))"
    unfolding s1(4) by (simp add: zeros_needed_def)
  then obtain s2 where s2: "pad s1 = Some s2" "ok s2"
      "chain s2 = absorb bs compress (chain s1) (held s1 @ ?z)" "held s2 = leftover bs (held s1 @ ?z)"
    using pad_absorbs [OF s1(2)] by auto
  obtain s3 where s3: "feed (note_len k s2) lenb = Some s3" "ok s3"
      "chain s3 = absorb bs compress (chain s2) (held s2 @ lenb)"
    using feed_absorbs [of "note_len k s2" lenb] s2(2) note_keeps by auto
  have "chain s2 = absorb bs compress (chain s) ((held s @ [0x80]) @ ?z)"
      "held s2 = leftover bs ((held s @ [0x80]) @ ?z)"
    using s1(3,4) s2(3,4) app by metis+
  then have "chain s3 = absorb bs compress (chain s) (((held s @ [0x80]) @ ?z) @ lenb)"
    using s3(3) app by metis
  then show ?thesis using s1(1) s2(1) s3(1,2) by auto
qed

end

end
