(* ===== verification/Sha256.thy ===== *)
theory Sha256
  imports Block_Stream
begin

text \<open>
  SHA-256 as \<^verbatim>\<open>kernel/crypto/sha256.c\<close> has it: the compression of one block, the
  running state with its buffer, and the padding.  The update loop and the padding loop
  are \<open>partial_function\<close>s, so that a loop that does not end is \<open>None\<close>; the
  theorems show that on every state the code reaches they do end.
\<close>

subsection \<open>One block\<close>

definition K256 :: "u32 list" where
  "K256 = concat [
    [0x428a2f98, 0x71374491, 0xb5c0fbcf, 0xe9b5dba5],
    [0x3956c25b, 0x59f111f1, 0x923f82a4, 0xab1c5ed5],
    [0xd807aa98, 0x12835b01, 0x243185be, 0x550c7dc3],
    [0x72be5d74, 0x80deb1fe, 0x9bdc06a7, 0xc19bf174],
    [0xe49b69c1, 0xefbe4786, 0x0fc19dc6, 0x240ca1cc],
    [0x2de92c6f, 0x4a7484aa, 0x5cb0a9dc, 0x76f988da],
    [0x983e5152, 0xa831c66d, 0xb00327c8, 0xbf597fc7],
    [0xc6e00bf3, 0xd5a79147, 0x06ca6351, 0x14292967],
    [0x27b70a85, 0x2e1b2138, 0x4d2c6dfc, 0x53380d13],
    [0x650a7354, 0x766a0abb, 0x81c2c92e, 0x92722c85],
    [0xa2bfe8a1, 0xa81a664b, 0xc24b8b70, 0xc76c51a3],
    [0xd192e819, 0xd6990624, 0xf40e3585, 0x106aa070],
    [0x19a4c116, 0x1e376c08, 0x2748774c, 0x34b0bcb5],
    [0x391c0cb3, 0x4ed8aa4a, 0x5b9cca4f, 0x682e6ff3],
    [0x748f82ee, 0x78a5636f, 0x84c87814, 0x8cc70208],
    [0x90befffa, 0xa4506ceb, 0xbef9a3f7, 0xc67178f2]]"

definition ror :: "u32 \<Rightarrow> nat \<Rightarrow> u32" where
  "ror x n = drop_bit n x OR push_bit (32 - n) x"

definition be_word :: "u8 list \<Rightarrow> nat \<Rightarrow> u32" where
  "be_word p i = push_bit 24 (ucast (p ! (i * 4))) OR push_bit 16 (ucast (p ! (i * 4 + 1))) OR
     push_bit 8 (ucast (p ! (i * 4 + 2))) OR ucast (p ! (i * 4 + 3))"

definition sched_step :: "nat \<Rightarrow> u32 list \<Rightarrow> u32 list" where
  "sched_step i w =
     (let s0 = ror (w ! (i - 15)) 7 XOR ror (w ! (i - 15)) 18 XOR drop_bit 3 (w ! (i - 15));
          s1 = ror (w ! (i - 2)) 17 XOR ror (w ! (i - 2)) 19 XOR drop_bit 10 (w ! (i - 2))
      in w @ [w ! (i - 16) + s0 + w ! (i - 7) + s1])"

definition schedule :: "u8 list \<Rightarrow> u32 list" where
  "schedule p = fold sched_step [16..<64] (map (be_word p) [0..<16])"

type_synonym regs = "u32 \<times> u32 \<times> u32 \<times> u32 \<times> u32 \<times> u32 \<times> u32 \<times> u32"

definition sha_round :: "u32 list \<Rightarrow> nat \<Rightarrow> regs \<Rightarrow> regs" where
  "sha_round w i r =
     (case r of (a, b, c, d, e, f, g, h) \<Rightarrow>
        (let S1 = ror e 6 XOR ror e 11 XOR ror e 25;
             ch = (e AND f) XOR (NOT e AND g);
             t1 = h + S1 + ch + K256 ! i + w ! i;
             S0 = ror a 2 XOR ror a 13 XOR ror a 22;
             maj = (a AND b) XOR (a AND c) XOR (b AND c);
             t2 = S0 + maj
         in (t1 + t2, a, b, c, d + t1, e, f, g)))"

definition compress :: "u32 list \<Rightarrow> u8 list \<Rightarrow> u32 list" where
  "compress hs p =
     (case fold (sha_round (schedule p)) [0..<64]
        (hs ! 0, hs ! 1, hs ! 2, hs ! 3, hs ! 4, hs ! 5, hs ! 6, hs ! 7) of
        (a, b, c, d, e, f, g, h) \<Rightarrow>
          [hs ! 0 + a, hs ! 1 + b, hs ! 2 + c, hs ! 3 + d, hs ! 4 + e, hs ! 5 + f, hs ! 6 + g, hs ! 7 + h])"

subsection \<open>The running state\<close>

record sha256_t =
  sh_h :: "u32 list"
  sh_len :: u64
  sh_buf :: "u8 list"
  sh_n :: nat

definition block :: "sha256_t \<Rightarrow> u8 list \<Rightarrow> sha256_t" where
  "block s p = s \<lparr> sh_h := compress (sh_h s) p \<rparr>"

definition H256 :: "u32 list" where
  "H256 = concat [
    [0x6a09e667, 0xbb67ae85],
    [0x3c6ef372, 0xa54ff53a],
    [0x510e527f, 0x9b05688c],
    [0x1f83d9ab, 0x5be0cd19]]"

text \<open>The buffer keeps whatever the caller's memory held: it is an argument.\<close>

definition sha256_init :: "sha256_t \<Rightarrow> sha256_t" where
  "sha256_init s = s \<lparr> sh_h := H256, sh_len := 0, sh_n := 0 \<rparr>"

text \<open>A count above 64 would write past the buffer; the model stops there.\<close>

partial_function (option) update_loop :: "sha256_t \<Rightarrow> u8 list \<Rightarrow> sha256_t option" where
  "update_loop s p =
     (if p = [] then Some s
      else if sh_n s = 0 \<and> 64 \<le> length p then update_loop (block s (take 64 p)) (drop 64 p)
      else if 64 < sh_n s then None
      else (let k = (if 64 - sh_n s > length p then length p else 64 - sh_n s);
                s = s \<lparr> sh_buf := take (sh_n s) (sh_buf s) @ take k p @ drop (sh_n s + k) (sh_buf s),
                        sh_n := sh_n s + k \<rparr>;
                s = (if sh_n s = 64 then (block s (sh_buf s)) \<lparr> sh_n := 0 \<rparr> else s)
            in update_loop s (drop k p)))"

definition count_bytes :: "nat \<Rightarrow> sha256_t \<Rightarrow> sha256_t" where
  "count_bytes k s = s \<lparr> sh_len := sh_len s + of_nat k \<rparr>"

definition sha256_update :: "sha256_t \<Rightarrow> u8 list \<Rightarrow> sha256_t option" where
  "sha256_update s p = update_loop (count_bytes (length p) s) p"

partial_function (option) pad_zeros :: "sha256_t \<Rightarrow> sha256_t option" where
  "pad_zeros s =
     (if sh_n s = 56 then Some s
      else (case sha256_update s [0] of None \<Rightarrow> None | Some s \<Rightarrow> pad_zeros s))"

definition len_be :: "u64 \<Rightarrow> u8 list" where
  "len_be bits = map (\<lambda>i. ucast (drop_bit (56 - i * 8) bits)) [0..<8]"

definition put_word :: "u32 \<Rightarrow> u8 list" where
  "put_word x = [ucast (drop_bit 24 x), ucast (drop_bit 16 x), ucast (drop_bit 8 x), ucast x]"

definition sha256_final :: "sha256_t \<Rightarrow> (sha256_t \<times> u8 list) option" where
  "sha256_final s =
     (let bits = sh_len s * 8 in
      case sha256_update s [0x80] of None \<Rightarrow> None | Some s \<Rightarrow>
      (case pad_zeros s of None \<Rightarrow> None | Some s \<Rightarrow>
      (case sha256_update s (len_be bits) of None \<Rightarrow> None | Some s \<Rightarrow>
         Some (s, concat (map (\<lambda>i. put_word (sh_h s ! i)) [0..<8])))))"

definition sha256_peek :: "sha256_t \<Rightarrow> u8 list option" where
  "sha256_peek s = map_option snd (sha256_final s)"

definition sha256 :: "sha256_t \<Rightarrow> u8 list \<Rightarrow> u8 list option" where
  "sha256 s p =
     (case sha256_update (sha256_init s) p of None \<Rightarrow> None | Some s \<Rightarrow>
      map_option snd (sha256_final s))"

definition crypto_equal :: "u8 list \<Rightarrow> u8 list \<Rightarrow> nat \<Rightarrow> bool" where
  "crypto_equal x y len \<longleftrightarrow> fold (\<lambda>i diff. diff OR (x ! i XOR y ! i)) [0..<len] 0 = 0"

subsection \<open>The reference: pad, split, chain\<close>

definition sha256_pad :: "u8 list \<Rightarrow> u8 list" where
  "sha256_pad m = m @ [0x80] @ replicate (zeros_needed 64 56 (length m + 1)) 0 @
     len_be (of_nat (8 * length m))"

definition sha256_spec :: "u8 list \<Rightarrow> u8 list" where
  "sha256_spec m = concat (map put_word (absorb 64 compress H256 (sha256_pad m)))"

subsection \<open>The stream interface\<close>

definition sha_held :: "sha256_t \<Rightarrow> u8 list" where
  "sha_held s = take (sh_n s) (sh_buf s)"

definition sha_ok :: "sha256_t \<Rightarrow> bool" where
  "sha_ok s \<longleftrightarrow> sh_n s < 64 \<and> length (sh_buf s) = 64"

lemma block_simps [simp]:
  "sh_h (block s p) = compress (sh_h s) p" "sh_len (block s p) = sh_len s"
  "sh_buf (block s p) = sh_buf s" "sh_n (block s p) = sh_n s"
  by (simp_all add: block_def)

lemma count_bytes_simps [simp]:
  "sh_h (count_bytes k s) = sh_h s" "sh_buf (count_bytes k s) = sh_buf s"
  "sh_n (count_bytes k s) = sh_n s" "sh_len (count_bytes k s) = sh_len s + of_nat k"
  by (simp_all add: count_bytes_def)

lemma update_loop_nil [simp]: "update_loop s [] = Some s"
  by (subst update_loop.simps) simp

lemma update_loop_straight:
  assumes "sh_n s = 0" "length b = 64"
  shows "update_loop s (b @ q) = update_loop (block s b) q"
  using assms by (subst update_loop.simps) auto

lemma update_loop_hold:
  assumes "sha_ok s" "p \<noteq> []" "sh_n s + length p < 64"
  shows "update_loop s p =
    Some (s \<lparr> sh_buf := take (sh_n s) (sh_buf s) @ p @ drop (sh_n s + length p) (sh_buf s),
             sh_n := sh_n s + length p \<rparr>)"
  using assms by (subst update_loop.simps) (simp add: sha_ok_def Let_def)

lemma update_loop_fill:
  assumes "sha_ok s" "sh_n s \<noteq> 0" "p \<noteq> []" "sh_n s + length p = 64"
  shows "update_loop s (p @ q) =
    update_loop ((block (s \<lparr> sh_buf := sha_held s @ p \<rparr>) (sha_held s @ p)) \<lparr> sh_n := 0 \<rparr>) q"
proof -
  have k: "64 - sh_n s = length p" using assms by simp
  have d: "drop (sh_n s + length p) (sh_buf s) = []" using assms by (simp add: sha_ok_def)
  show ?thesis using assms k d
    by (subst update_loop.simps) (simp add: sha_ok_def sha_held_def Let_def block_def)
qed

interpretation sha256: block_stream 64 compress sh_h sha_held sha_ok count_bytes update_loop 56 pad_zeros
proof unfold_locales
  fix s k p b q
  show "(0 :: nat) < 64" "(56 :: nat) < 64" by simp_all
  show "sh_h (count_bytes k s) = sh_h s" "sha_held (count_bytes k s) = sha_held s"
      "sha_ok (count_bytes k s) = sha_ok s" "update_loop s [] = Some s"
    by (simp_all add: sha_held_def sha_ok_def)
  assume ok: "sha_ok s"
  then have n: "length (sha_held s) = sh_n s" "sh_n s < 64" by (simp_all add: sha_held_def sha_ok_def)
  then show "length (sha_held s) < 64" by simp
  show "\<exists>s'. update_loop s (b @ q) = update_loop s' q \<and> sha_ok s' \<and> sha_held s' = [] \<and>
      sh_h s' = compress (sh_h s) b" if "sha_held s = []" "length b = 64"
    using update_loop_straight [of s b q] that n ok
    by (intro exI [of _ "block s b"]) (auto simp: sha_ok_def sha_held_def)
  show "\<exists>s'. update_loop s p = Some s' \<and> sha_ok s' \<and> sha_held s' = sha_held s @ p \<and> sh_h s' = sh_h s"
    if "p \<noteq> []" "length (sha_held s @ p) < 64"
    using update_loop_hold [OF ok, of p] that n ok by (simp add: sha_ok_def sha_held_def)
  show "\<exists>s'. update_loop s (p @ q) = update_loop s' q \<and> sha_ok s' \<and> sha_held s' = [] \<and>
      sh_h s' = compress (sh_h s) (sha_held s @ p)"
    if "sha_held s \<noteq> []" "p \<noteq> []" "length (sha_held s @ p) = 64"
    using update_loop_fill [OF ok, of p q] that n
    by (intro exI [of _ "(block (s \<lparr> sh_buf := sha_held s @ p \<rparr>) (sha_held s @ p)) \<lparr> sh_n := 0 \<rparr>"])
      (auto simp: sha_ok_def sha_held_def)
  show "pad_zeros s = (if length (sha_held s) = 56 then Some s
      else case update_loop (count_bytes 1 s) [0] of None \<Rightarrow> None | Some s' \<Rightarrow> pad_zeros s')"
    using n by (subst pad_zeros.simps) (simp add: sha256_update_def)
qed

subsection \<open>Comparing bytes\<close>

lemma fold_or_zero: "fold (\<lambda>i d. d OR f i) xs (a :: u8) = 0 \<longleftrightarrow> a = 0 \<and> list_all (\<lambda>i. f i = 0) xs"
  by (induction xs arbitrary: a) (auto simp: or_eq_0_iff)

lemma xor_eq_zero_iff: "(x :: 'a::len word) XOR y = 0 \<longleftrightarrow> x = y"
proof
  assume "x XOR y = 0"
  then have "(x XOR y) XOR y = 0 XOR y" by simp
  then show "x = y" by (simp only: xor.assoc xor_self_eq xor.left_neutral xor.right_neutral)
qed simp

lemma crypto_equal_take:
  assumes "len \<le> length x" "len \<le> length y"
  shows "crypto_equal x y len \<longleftrightarrow> take len x = take len y"
proof -
  have "crypto_equal x y len \<longleftrightarrow> (\<forall>i<len. x ! i = y ! i)"
    by (auto simp: crypto_equal_def fold_or_zero list_all_iff xor_eq_zero_iff)
  then show ?thesis using assms by (auto simp: list_eq_iff_nth_eq)
qed

subsection \<open>The running hash is the hash of everything fed in\<close>

text \<open>\<open>s\<close> has absorbed the message \<open>m\<close>.\<close>

definition absorbed :: "sha256_t \<Rightarrow> u8 list \<Rightarrow> bool" where
  "absorbed s m \<longleftrightarrow> sha_ok s \<and> sh_h s = absorb 64 compress H256 m \<and> sha_held s = leftover 64 m \<and>
     sh_len s = of_nat (length m)"

lemma update_loop_len: "update_loop s p = Some s' \<Longrightarrow> sh_len s' = sh_len s"
proof (induction rule: update_loop.raw_induct [rotated 1, consumes 1])
  case (1 update_loop s p s')
  then show ?case by (fastforce simp: Let_def split: if_splits)
qed

lemma sha256_init_absorbed: "length (sh_buf s) = 64 \<Longrightarrow> absorbed (sha256_init s) []"
  by (simp add: absorbed_def sha256_init_def sha_ok_def sha_held_def)

lemma sha256_update_absorbs:
  assumes "absorbed s m"
  shows "\<exists>s'. sha256_update s p = Some s' \<and> absorbed s' (m @ p)"
proof -
  obtain s' where s': "sha256_update s p = Some s'" "sha_ok s'"
      "sh_h s' = absorb 64 compress (sh_h s) (sha_held s @ p)" "sha_held s' = leftover 64 (sha_held s @ p)"
    using sha256.feed_absorbs [of "count_bytes (length p) s" p] assms
    by (auto simp: sha256_update_def absorbed_def sha256.note_keeps)
  have "sh_len s' = of_nat (length (m @ p))"
    using update_loop_len [OF s'(1) [unfolded sha256_update_def]] assms by (simp add: absorbed_def)
  then show ?thesis
    using s' assms absorb_append [of 64 compress H256 m p] by (simp add: absorbed_def)
qed

lemma compress_length [simp]: "length (compress h p) = 8"
  by (simp add: compress_def split: prod.splits)

lemma absorb_length: "length h = 8 \<Longrightarrow> length (absorb 64 compress h m) = 8"
proof (induction "length m" arbitrary: m h rule: less_induct)
  case less
  show ?case
  proof (cases "64 \<le> length m")
    case True
    then show ?thesis using less by (subst absorb.simps) simp
  next
    case False
    then show ?thesis using less by simp
  qed
qed

lemma sha256_final_digest:
  assumes "absorbed s m"
  shows "\<exists>s'. sha256_final s = Some (s', sha256_spec m) \<and> length (sh_buf s') = 64"
proof -
  let ?L = "len_be (sh_len s * 8)"
  obtain s1 s2 s3 where st: "update_loop (count_bytes 1 s) [0x80] = Some s1" "pad_zeros s1 = Some s2"
      "update_loop (count_bytes 8 s2) ?L = Some s3" "sha_ok s3"
      "sh_h s3 = absorb 64 compress (sh_h s)
        (sha_held s @ [0x80] @ replicate (zeros_needed 64 56 (Suc (length (sha_held s)))) 0 @ ?L)"
    using sha256.finish_absorbs [of s 8 ?L] assms by (auto simp: absorbed_def)
  have z: "zeros_needed 64 56 (Suc (length (sha_held s))) = zeros_needed 64 56 (Suc (length m))"
    using assms by (simp add: absorbed_def zeros_needed_def mod_Suc_eq)
  have L: "?L = len_be (of_nat (8 * length m))" using assms by (simp add: absorbed_def mult.commute)
  have h: "sh_h s3 = absorb 64 compress H256 (sha256_pad m)"
    using st(5) assms absorb_append [of 64 compress H256 m] unfolding z L
    by (simp add: absorbed_def sha256_pad_def)
  have "length (sh_h s3) = 8" unfolding h by (rule absorb_length) (simp add: H256_def)
  then have "map (\<lambda>i. put_word (sh_h s3 ! i)) [0..<8] = map put_word (sh_h s3)"
    by (intro nth_equalityI) simp_all
  then show ?thesis using st(1-4) h
    by (simp add: sha256_final_def sha256_update_def sha256_spec_def len_be_def sha_ok_def)
qed

text \<open>A whole run: start, feed the pieces in order, finish.\<close>

fun feed_all :: "sha256_t \<Rightarrow> u8 list list \<Rightarrow> sha256_t option" where
  "feed_all s [] = Some s"
| "feed_all s (p # ps) = (case sha256_update s p of None \<Rightarrow> None | Some s' \<Rightarrow> feed_all s' ps)"

lemma feed_all_absorbs:
  "absorbed s m \<Longrightarrow> \<exists>s'. feed_all s ps = Some s' \<and> absorbed s' (m @ concat ps)"
proof (induction ps arbitrary: s m)
  case (Cons p ps)
  obtain s' where "sha256_update s p = Some s'" "absorbed s' (m @ p)"
    using sha256_update_absorbs [OF Cons.prems] by blast
  then show ?case using Cons.IH [of s' "m @ p"] by simp
qed simp

text \<open>C36. Feeding a message in any pieces and asking for the running digest returns, and
  gives the FIPS 180-4 digest of the whole message: one-shot padding, splitting into
  blocks and chaining; the state can be fed further afterwards.\<close>

theorem sha256_streaming:
  assumes "length (sh_buf s) = 64"
  shows "\<exists>s'. feed_all (sha256_init s) ps = Some s' \<and>
    sha256_peek s' = Some (sha256_spec (concat ps))"
proof -
  obtain s' where s': "feed_all (sha256_init s) ps = Some s'" "absorbed s' (concat ps)"
    using feed_all_absorbs [OF sha256_init_absorbed [OF assms], of ps] by auto
  then show ?thesis using sha256_final_digest [OF s'(2)] by (auto simp: sha256_peek_def)
qed

lemma sha256_digest:
  assumes "length (sh_buf s) = 64"
  shows "sha256 s p = Some (sha256_spec p)"
proof -
  obtain s' where s': "sha256_update (sha256_init s) p = Some s'" "absorbed s' p"
    using sha256_update_absorbs [OF sha256_init_absorbed [OF assms], of p] by auto
  then show ?thesis using sha256_final_digest [OF s'(2)] by (auto simp: sha256_def)
qed

lemma sha256_spec_length [simp]: "length (sha256_spec m) = 32"
proof -
  have "length (absorb 64 compress H256 (sha256_pad m)) = 8"
    by (rule absorb_length) (simp add: H256_def)
  then show ?thesis by (simp add: sha256_spec_def length_concat put_word_def comp_def sum_list_triv)
qed

text \<open>The witness: an empty piece, three bytes, and two more.\<close>

theorem sha256_streaming_witness:
  "\<exists>s'. feed_all (sha256_init \<lparr> sh_h = [], sh_len = 0, sh_buf = replicate 64 0, sh_n = 0 \<rparr>)
      [[], [1, 2, 3], [4, 5]] = Some s' \<and>
    sha256_peek s' = Some (sha256_spec [1, 2, 3, 4, 5])"
  using sha256_streaming [of "\<lparr> sh_h = [], sh_len = 0, sh_buf = replicate 64 0, sh_n = 0 \<rparr>"
      "[[], [1, 2, 3], [4, 5]]"]
  by simp

end
