(* ===== verification/Sha256_Vector.thy ===== *)
theory Sha256_Vector
  imports Sha256
begin

text \<open>
  The compression function against a published vector: the one-block message
  \<open>abc\<close> of FIPS 180-4, evaluated in the kernel through the schedule and the two
  halves of the rounds.  The boot self-test checks its own vectors the same way.
\<close>

definition abc_words :: "u32 list" where
  "abc_words = [
    0x61626380, 0x00000000, 0x00000000, 0x00000000, 0x00000000, 0x00000000,
    0x00000000, 0x00000000, 0x00000000, 0x00000000, 0x00000000, 0x00000000,
    0x00000000, 0x00000000, 0x00000000, 0x00000018, 0x61626380, 0x000f0000,
    0x7da86405, 0x600003c6, 0x3e9d7b78, 0x0183fc00, 0x12dcbfdb, 0xe2e2c38e,
    0xc8215c1a, 0xb73679a2, 0xe5bc3909, 0x32663c5b, 0x9d209d67, 0xec8726cb,
    0x702138a4, 0xd3b7973b, 0x93f5997f, 0x3b68ba73, 0xaff4ffc1, 0xf10a5c62,
    0x0a8b3996, 0x72af830a, 0x9409e33e, 0x24641522, 0x9f47bf94, 0xf0a64f5a,
    0x3e246a79, 0x27333ba3, 0x0c4763f2, 0x840abf27, 0x7a290d5d, 0x065c43da,
    0xfb3e89cb, 0xcc7617db, 0xb9e66c34, 0xa9993667, 0x84badedd, 0xc21462bc,
    0x1487472c, 0xb20f7a99, 0xef57b9cd, 0xebe6b238, 0x9fe3095e, 0x78bc8d4b,
    0xa43fcf15, 0x668b2ff8, 0xeeaba2cc, 0x12b1edeb]"

lemma abc_schedule: "schedule (sha256_pad [0x61, 0x62, 0x63]) = abc_words"
  by code_simp

lemma abc_first_half:
  "fold (sha_round abc_words) [0..<32]
     (0x6a09e667, 0xbb67ae85, 0x3c6ef372, 0xa54ff53a, 0x510e527f, 0x9b05688c, 0x1f83d9ab, 0x5be0cd19) =
     (0x73b33bf5, 0xea992a22, 0xa0060b30, 0x363482c9, 0xba591112, 0x0109ab3a, 0xade79437, 0x6112a3b7)"
  by code_simp

lemma abc_second_half:
  "fold (sha_round abc_words) [32..<64]
     (0x73b33bf5, 0xea992a22, 0xa0060b30, 0x363482c9, 0xba591112, 0x0109ab3a, 0xade79437, 0x6112a3b7) =
     (0x506e3058, 0xd39a2165, 0x04d24d6c, 0xb85e2ce9, 0x5ef50f24, 0xfb121210, 0x948d25b6, 0x961f4894)"
  by code_simp

lemma abc_compress:
  "compress H256 (sha256_pad [0x61, 0x62, 0x63]) =
    [0xba7816bf, 0x8f01cfea, 0x414140de, 0x5dae2223, 0xb00361a3, 0x96177a9c, 0xb410ff61, 0xf20015ad]"
proof -
  have "[0..<64] = [0..<32] @ [32..<64]" using upt_add_eq_append [of 0 32 32] by simp
  note rounds = this fold_append comp_apply abc_first_half abc_second_half
  show ?thesis
    by (simp add: compress_def abc_schedule H256_def rounds del: upt_Suc upt_rec_numeral)
qed

lemma sha256_abc:
  "sha256_spec [0x61, 0x62, 0x63] =
    [0xba, 0x78, 0x16, 0xbf, 0x8f, 0x01, 0xcf, 0xea, 0x41, 0x41, 0x40, 0xde, 0x5d, 0xae, 0x22, 0x23, 0xb0, 0x03, 0x61, 0xa3, 0x96, 0x17, 0x7a, 0x9c, 0xb4, 0x10, 0xff, 0x61, 0xf2, 0x00, 0x15, 0xad]"
proof -
  have "length (sha256_pad [0x61, 0x62, 0x63]) = 64" by (simp add: sha256_pad_def zeros_needed_def len_be_def)
  then have "absorb 64 compress H256 (sha256_pad [0x61, 0x62, 0x63]) =
      compress H256 (sha256_pad [0x61, 0x62, 0x63])"
    using absorb_block [of 64 "sha256_pad [0x61, 0x62, 0x63]" compress H256 "[]"] by simp
  then show ?thesis by (simp add: sha256_spec_def abc_compress put_word_def drop_bit_eq_div ucast_eq)
qed

end
