(* ===== verification/Sha512.thy ===== *)
theory Sha512
  imports Block_Stream
begin

text \<open>
  SHA-512 and SHA-384 as \<^verbatim>\<open>kernel/crypto/sha512.c\<close> has them, over the same
  interface as SHA-256 with 128-byte blocks: the two differ in the starting value and in
  how much of the chaining value is written out.
\<close>

definition K512 :: "u64 list" where
  "K512 = concat [
    [0x428a2f98d728ae22, 0x7137449123ef65cd, 0xb5c0fbcfec4d3b2f],
    [0xe9b5dba58189dbbc, 0x3956c25bf348b538, 0x59f111f1b605d019],
    [0x923f82a4af194f9b, 0xab1c5ed5da6d8118, 0xd807aa98a3030242],
    [0x12835b0145706fbe, 0x243185be4ee4b28c, 0x550c7dc3d5ffb4e2],
    [0x72be5d74f27b896f, 0x80deb1fe3b1696b1, 0x9bdc06a725c71235],
    [0xc19bf174cf692694, 0xe49b69c19ef14ad2, 0xefbe4786384f25e3],
    [0x0fc19dc68b8cd5b5, 0x240ca1cc77ac9c65, 0x2de92c6f592b0275],
    [0x4a7484aa6ea6e483, 0x5cb0a9dcbd41fbd4, 0x76f988da831153b5],
    [0x983e5152ee66dfab, 0xa831c66d2db43210, 0xb00327c898fb213f],
    [0xbf597fc7beef0ee4, 0xc6e00bf33da88fc2, 0xd5a79147930aa725],
    [0x06ca6351e003826f, 0x142929670a0e6e70, 0x27b70a8546d22ffc],
    [0x2e1b21385c26c926, 0x4d2c6dfc5ac42aed, 0x53380d139d95b3df],
    [0x650a73548baf63de, 0x766a0abb3c77b2a8, 0x81c2c92e47edaee6],
    [0x92722c851482353b, 0xa2bfe8a14cf10364, 0xa81a664bbc423001],
    [0xc24b8b70d0f89791, 0xc76c51a30654be30, 0xd192e819d6ef5218],
    [0xd69906245565a910, 0xf40e35855771202a, 0x106aa07032bbd1b8],
    [0x19a4c116b8d2d0c8, 0x1e376c085141ab53, 0x2748774cdf8eeb99],
    [0x34b0bcb5e19b48a8, 0x391c0cb3c5c95a63, 0x4ed8aa4ae3418acb],
    [0x5b9cca4f7763e373, 0x682e6ff3d6b2b8a3, 0x748f82ee5defb2fc],
    [0x78a5636f43172f60, 0x84c87814a1f0ab72, 0x8cc702081a6439ec],
    [0x90befffa23631e28, 0xa4506cebde82bde9, 0xbef9a3f7b2c67915],
    [0xc67178f2e372532b, 0xca273eceea26619c, 0xd186b8c721c0c207],
    [0xeada7dd6cde0eb1e, 0xf57d4f7fee6ed178, 0x06f067aa72176fba],
    [0x0a637dc5a2c898a6, 0x113f9804bef90dae, 0x1b710b35131c471b],
    [0x28db77f523047d84, 0x32caab7b40c72493, 0x3c9ebe0a15c9bebc],
    [0x431d67c49c100d4c, 0x4cc5d4becb3e42b6, 0x597f299cfc657e2a],
    [0x5fcb6fab3ad6faec, 0x6c44198c4a475817]]"

definition H512 :: "u64 list" where
  "H512 = concat [
    [0x6a09e667f3bcc908, 0xbb67ae8584caa73b, 0x3c6ef372fe94f82b],
    [0xa54ff53a5f1d36f1, 0x510e527fade682d1, 0x9b05688c2b3e6c1f],
    [0x1f83d9abfb41bd6b, 0x5be0cd19137e2179]]"

definition H384 :: "u64 list" where
  "H384 = concat [
    [0xcbbb9d5dc1059ed8, 0x629a292a367cd507, 0x9159015a3070dd17],
    [0x152fecd8f70e5939, 0x67332667ffc00b31, 0x8eb44a8768581511],
    [0xdb0c2e0d64f98fa7, 0x47b5481dbefa4fa4]]"

definition ror64 :: "u64 \<Rightarrow> nat \<Rightarrow> u64" where
  "ror64 x n = drop_bit n x OR push_bit (64 - n) x"

definition be_word64 :: "u8 list \<Rightarrow> nat \<Rightarrow> u64" where
  "be_word64 p i = fold (\<lambda>j w. push_bit 8 w OR ucast (p ! (i * 8 + j))) [0..<8] 0"

definition sched512_step :: "nat \<Rightarrow> u64 list \<Rightarrow> u64 list" where
  "sched512_step i w =
     (let s0 = ror64 (w ! (i - 15)) 1 XOR ror64 (w ! (i - 15)) 8 XOR drop_bit 7 (w ! (i - 15));
          s1 = ror64 (w ! (i - 2)) 19 XOR ror64 (w ! (i - 2)) 61 XOR drop_bit 6 (w ! (i - 2))
      in w @ [w ! (i - 16) + s0 + w ! (i - 7) + s1])"

definition schedule512 :: "u8 list \<Rightarrow> u64 list" where
  "schedule512 p = fold sched512_step [16..<80] (map (be_word64 p) [0..<16])"

type_synonym regs64 = "u64 \<times> u64 \<times> u64 \<times> u64 \<times> u64 \<times> u64 \<times> u64 \<times> u64"

definition round512 :: "u64 list \<Rightarrow> nat \<Rightarrow> regs64 \<Rightarrow> regs64" where
  "round512 w i r =
     (case r of (a, b, c, d, e, f, g, h) \<Rightarrow>
        (let S1 = ror64 e 14 XOR ror64 e 18 XOR ror64 e 41;
             ch = (e AND f) XOR (NOT e AND g);
             t1 = h + S1 + ch + K512 ! i + w ! i;
             S0 = ror64 a 28 XOR ror64 a 34 XOR ror64 a 39;
             maj = (a AND b) XOR (a AND c) XOR (b AND c);
             t2 = S0 + maj
         in (t1 + t2, a, b, c, d + t1, e, f, g)))"

definition compress512 :: "u64 list \<Rightarrow> u8 list \<Rightarrow> u64 list" where
  "compress512 hs p =
     (case fold (round512 (schedule512 p)) [0..<80]
        (hs ! 0, hs ! 1, hs ! 2, hs ! 3, hs ! 4, hs ! 5, hs ! 6, hs ! 7) of
        (a, b, c, d, e, f, g, h) \<Rightarrow>
          [hs ! 0 + a, hs ! 1 + b, hs ! 2 + c, hs ! 3 + d, hs ! 4 + e, hs ! 5 + f, hs ! 6 + g, hs ! 7 + h])"

record sha512_t =
  s5_h :: "u64 list"
  s5_len :: u64
  s5_buf :: "u8 list"
  s5_n :: nat
  s5_outlen :: nat

definition block512 :: "sha512_t \<Rightarrow> u8 list \<Rightarrow> sha512_t" where
  "block512 s p = s \<lparr> s5_h := compress512 (s5_h s) p \<rparr>"

definition init_with :: "sha512_t \<Rightarrow> u64 list \<Rightarrow> nat \<Rightarrow> sha512_t" where
  "init_with s iv outlen = s \<lparr> s5_h := iv, s5_len := 0, s5_n := 0, s5_outlen := outlen \<rparr>"

definition sha512_init :: "sha512_t \<Rightarrow> sha512_t" where
  "sha512_init s = init_with s H512 64"

definition sha384_init :: "sha512_t \<Rightarrow> sha512_t" where
  "sha384_init s = init_with s H384 48"

partial_function (option) update512_loop :: "sha512_t \<Rightarrow> u8 list \<Rightarrow> sha512_t option" where
  "update512_loop s p =
     (if p = [] then Some s
      else if s5_n s = 0 \<and> 128 \<le> length p then update512_loop (block512 s (take 128 p)) (drop 128 p)
      else if 128 < s5_n s then None
      else (let k = (if 128 - s5_n s > length p then length p else 128 - s5_n s);
                s = s \<lparr> s5_buf := take (s5_n s) (s5_buf s) @ take k p @ drop (s5_n s + k) (s5_buf s),
                        s5_n := s5_n s + k \<rparr>;
                s = (if s5_n s = 128 then (block512 s (s5_buf s)) \<lparr> s5_n := 0 \<rparr> else s)
            in update512_loop s (drop k p)))"

definition count512 :: "nat \<Rightarrow> sha512_t \<Rightarrow> sha512_t" where
  "count512 k s = s \<lparr> s5_len := s5_len s + of_nat k \<rparr>"

definition sha512_update :: "sha512_t \<Rightarrow> u8 list \<Rightarrow> sha512_t option" where
  "sha512_update s p = update512_loop (count512 (length p) s) p"

partial_function (option) pad512 :: "sha512_t \<Rightarrow> sha512_t option" where
  "pad512 s =
     (if s5_n s = 112 then Some s
      else (case sha512_update s [0] of None \<Rightarrow> None | Some s \<Rightarrow> pad512 s))"

definition len512_be :: "u64 \<Rightarrow> u8 list" where
  "len512_be bits = replicate 8 0 @ map (\<lambda>i. ucast (drop_bit (56 - i * 8) bits)) [0..<8]"

definition put_digest :: "u64 list \<Rightarrow> nat \<Rightarrow> u8 list" where
  "put_digest h outlen =
     concat (map (\<lambda>i. map (\<lambda>j. ucast (drop_bit (56 - j * 8) (h ! i)))
                        (takeWhile (\<lambda>j. i * 8 + j < outlen) [0..<8]))
               (takeWhile (\<lambda>i. i * 8 < outlen) [0..<8]))"

definition sha512_final :: "sha512_t \<Rightarrow> (sha512_t \<times> u8 list) option" where
  "sha512_final s =
     (let bits = s5_len s * 8; outlen = s5_outlen s in
      case sha512_update s [0x80] of None \<Rightarrow> None | Some s \<Rightarrow>
      (case pad512 s of None \<Rightarrow> None | Some s \<Rightarrow>
      (case sha512_update s (len512_be bits) of None \<Rightarrow> None | Some s \<Rightarrow>
         Some (s, put_digest (s5_h s) outlen))))"

definition sha512 :: "sha512_t \<Rightarrow> u8 list \<Rightarrow> u8 list option" where
  "sha512 s p =
     (case sha512_update (sha512_init s) p of None \<Rightarrow> None | Some s \<Rightarrow> map_option snd (sha512_final s))"

definition sha384 :: "sha512_t \<Rightarrow> u8 list \<Rightarrow> u8 list option" where
  "sha384 s p =
     (case sha512_update (sha384_init s) p of None \<Rightarrow> None | Some s \<Rightarrow> map_option snd (sha512_final s))"

subsection \<open>The reference\<close>

definition sha512_pad :: "u8 list \<Rightarrow> u8 list" where
  "sha512_pad m = m @ [0x80] @ replicate (zeros_needed 128 112 (length m + 1)) 0 @
     len512_be (of_nat (8 * length m))"

definition put_word64 :: "u64 \<Rightarrow> u8 list" where
  "put_word64 x = map (\<lambda>j. ucast (drop_bit (56 - j * 8) x)) [0..<8]"

definition sha512_spec :: "u64 list \<Rightarrow> nat \<Rightarrow> u8 list \<Rightarrow> u8 list" where
  "sha512_spec iv outlen m =
     take outlen (concat (map put_word64 (absorb 128 compress512 iv (sha512_pad m))))"

subsection \<open>The stream interface\<close>

definition held512 :: "sha512_t \<Rightarrow> u8 list" where
  "held512 s = take (s5_n s) (s5_buf s)"

definition ok512 :: "sha512_t \<Rightarrow> bool" where
  "ok512 s \<longleftrightarrow> s5_n s < 128 \<and> length (s5_buf s) = 128"

lemma block512_simps [simp]:
  "s5_h (block512 s p) = compress512 (s5_h s) p" "s5_len (block512 s p) = s5_len s"
  "s5_buf (block512 s p) = s5_buf s" "s5_n (block512 s p) = s5_n s" "s5_outlen (block512 s p) = s5_outlen s"
  by (simp_all add: block512_def)

lemma count512_simps [simp]:
  "s5_h (count512 k s) = s5_h s" "s5_buf (count512 k s) = s5_buf s" "s5_n (count512 k s) = s5_n s"
  "s5_len (count512 k s) = s5_len s + of_nat k" "s5_outlen (count512 k s) = s5_outlen s"
  by (simp_all add: count512_def)

lemma update512_nil [simp]: "update512_loop s [] = Some s"
  by (subst update512_loop.simps) simp

lemma update512_straight:
  assumes "s5_n s = 0" "length b = 128"
  shows "update512_loop s (b @ q) = update512_loop (block512 s b) q"
  using assms by (subst update512_loop.simps) auto

lemma update512_hold:
  assumes "ok512 s" "p \<noteq> []" "s5_n s + length p < 128"
  shows "update512_loop s p =
    Some (s \<lparr> s5_buf := take (s5_n s) (s5_buf s) @ p @ drop (s5_n s + length p) (s5_buf s),
             s5_n := s5_n s + length p \<rparr>)"
  using assms by (subst update512_loop.simps) (simp add: ok512_def Let_def)

lemma update512_fill:
  assumes "ok512 s" "s5_n s \<noteq> 0" "p \<noteq> []" "s5_n s + length p = 128"
  shows "update512_loop s (p @ q) =
    update512_loop ((block512 (s \<lparr> s5_buf := held512 s @ p \<rparr>) (held512 s @ p)) \<lparr> s5_n := 0 \<rparr>) q"
proof -
  have k: "128 - s5_n s = length p" using assms by simp
  have d: "drop (s5_n s + length p) (s5_buf s) = []" using assms by (simp add: ok512_def)
  show ?thesis using assms k d
    by (subst update512_loop.simps) (simp add: ok512_def held512_def Let_def block512_def)
qed

interpretation sha512: block_stream 128 compress512 s5_h held512 ok512 count512 update512_loop 112 pad512
proof unfold_locales
  fix s k p b q
  show "(0 :: nat) < 128" "(112 :: nat) < 128" by simp_all
  show "s5_h (count512 k s) = s5_h s" "held512 (count512 k s) = held512 s"
      "ok512 (count512 k s) = ok512 s" "update512_loop s [] = Some s"
    by (simp_all add: held512_def ok512_def)
  assume ok: "ok512 s"
  then have n: "length (held512 s) = s5_n s" "s5_n s < 128" by (simp_all add: held512_def ok512_def)
  then show "length (held512 s) < 128" by simp
  show "\<exists>s'. update512_loop s (b @ q) = update512_loop s' q \<and> ok512 s' \<and> held512 s' = [] \<and>
      s5_h s' = compress512 (s5_h s) b" if "held512 s = []" "length b = 128"
    using update512_straight [of s b q] that n ok
    by (intro exI [of _ "block512 s b"]) (auto simp: ok512_def held512_def)
  show "\<exists>s'. update512_loop s p = Some s' \<and> ok512 s' \<and> held512 s' = held512 s @ p \<and> s5_h s' = s5_h s"
    if "p \<noteq> []" "length (held512 s @ p) < 128"
    using update512_hold [OF ok, of p] that n ok by (simp add: ok512_def held512_def)
  show "\<exists>s'. update512_loop s (p @ q) = update512_loop s' q \<and> ok512 s' \<and> held512 s' = [] \<and>
      s5_h s' = compress512 (s5_h s) (held512 s @ p)"
    if "held512 s \<noteq> []" "p \<noteq> []" "length (held512 s @ p) = 128"
    using update512_fill [OF ok, of p q] that n
    by (intro exI [of _ "(block512 (s \<lparr> s5_buf := held512 s @ p \<rparr>) (held512 s @ p)) \<lparr> s5_n := 0 \<rparr>"])
      (auto simp: ok512_def held512_def)
  show "pad512 s = (if length (held512 s) = 112 then Some s
      else case update512_loop (count512 1 s) [0] of None \<Rightarrow> None | Some s' \<Rightarrow> pad512 s')"
    using n by (subst pad512.simps) (simp add: sha512_update_def)
qed

definition absorbed512 :: "sha512_t \<Rightarrow> u64 list \<Rightarrow> nat \<Rightarrow> u8 list \<Rightarrow> bool" where
  "absorbed512 s iv outlen m \<longleftrightarrow> ok512 s \<and> s5_h s = absorb 128 compress512 iv m \<and>
     held512 s = leftover 128 m \<and> s5_len s = of_nat (length m) \<and> s5_outlen s = outlen"

lemma update512_keeps:
  "update512_loop s p = Some s' \<Longrightarrow> s5_len s' = s5_len s \<and> s5_outlen s' = s5_outlen s"
proof (induction rule: update512_loop.raw_induct [rotated 1, consumes 1])
  case (1 update512_loop s p s')
  then show ?case by (fastforce simp: Let_def split: if_splits)
qed

lemma init_absorbed512:
  "length (s5_buf s) = 128 \<Longrightarrow> absorbed512 (init_with s iv outlen) iv outlen []"
  by (simp add: absorbed512_def init_with_def ok512_def held512_def)

lemma sha512_update_absorbs:
  assumes "absorbed512 s iv outlen m"
  shows "\<exists>s'. sha512_update s p = Some s' \<and> absorbed512 s' iv outlen (m @ p)"
proof -
  obtain s' where s': "sha512_update s p = Some s'" "ok512 s'"
      "s5_h s' = absorb 128 compress512 (s5_h s) (held512 s @ p)" "held512 s' = leftover 128 (held512 s @ p)"
    using sha512.feed_absorbs [of "count512 (length p) s" p] assms
    by (auto simp: sha512_update_def absorbed512_def sha512.note_keeps)
  have "s5_len s' = of_nat (length (m @ p))" "s5_outlen s' = outlen"
    using update512_keeps [OF s'(1) [unfolded sha512_update_def]] assms by (simp_all add: absorbed512_def)
  then show ?thesis
    using s' assms absorb_append [of 128 compress512 iv m p] by (simp add: absorbed512_def)
qed

lemma compress512_length [simp]: "length (compress512 h p) = 8"
  by (simp add: compress512_def split: prod.splits)

lemma absorb512_length: "length h = 8 \<Longrightarrow> length (absorb 128 compress512 h m) = 8"
proof (induction "length m" arbitrary: m h rule: less_induct)
  case less
  show ?case
  proof (cases "128 \<le> length m")
    case True
    then show ?thesis using less by (subst absorb.simps) simp
  next
    case False
    then show ?thesis using less by simp
  qed
qed

text \<open>The nested output loops write the leading bytes of the chaining value.\<close>

lemma takeWhile_upt: "m \<le> n \<Longrightarrow> takeWhile (\<lambda>i. i < m) [0..<n] = [0..<m]"
proof -
  assume "m \<le> n"
  then have "[0..<n] = [0..<m] @ [m..<n]" using upt_add_eq_append [of 0 m "n - m"] by simp
  moreover have "takeWhile (\<lambda>i. i < m) [m..<n] = []" by (cases "m < n") (simp_all add: upt_conv_Cons)
  ultimately show ?thesis using takeWhile_append2 [of "[0..<m]" "\<lambda>i. i < m" "[m..<n]"] by simp
qed

lemma take_concat_words:
  "take (8 * m) (concat (map put_word64 h)) = concat (map put_word64 (take m h))"
proof (induction m arbitrary: h)
  case (Suc m)
  then show ?case by (cases h) (simp_all add: put_word64_def)
qed simp

lemma put_digest_words:
  assumes "m \<le> 8" "m \<le> length h"
  shows "put_digest h (8 * m) = take (8 * m) (concat (map put_word64 h))"
proof -
  have o: "takeWhile (\<lambda>i. i * 8 < 8 * m) [0..<8] = [0..<m]"
    using takeWhile_upt [OF assms(1)] by (simp add: mult.commute)
  have i: "takeWhile (\<lambda>j. i * 8 + j < 8 * m) [0..<8] = [0..<8]" if "i < m" for i
    using that by (intro takeWhile_eq_all_conv [THEN iffD2]) auto
  have "put_digest h (8 * m) = concat (map (\<lambda>i. put_word64 (h ! i)) [0..<m])"
    unfolding put_digest_def o by (intro arg_cong [of _ _ concat]) (auto simp: put_word64_def i)
  also have "map (\<lambda>i. put_word64 (h ! i)) [0..<m] = map put_word64 (take m h)"
    using assms(2) by (intro nth_equalityI) simp_all
  finally show ?thesis by (simp add: take_concat_words)
qed

lemma put_digest_take:
  assumes "length h = 8" "outlen = 64 \<or> outlen = 48"
  shows "put_digest h outlen = take outlen (concat (map put_word64 h))"
  using assms put_digest_words [of 8 h] put_digest_words [of 6 h] by auto

lemma sha512_final_digest:
  assumes "absorbed512 s iv outlen m" "length iv = 8" "outlen = 64 \<or> outlen = 48"
  shows "\<exists>s'. sha512_final s = Some (s', sha512_spec iv outlen m)"
proof -
  let ?L = "len512_be (s5_len s * 8)"
  obtain s1 s2 s3 where st: "update512_loop (count512 1 s) [0x80] = Some s1" "pad512 s1 = Some s2"
      "update512_loop (count512 16 s2) ?L = Some s3"
      "s5_h s3 = absorb 128 compress512 (s5_h s)
        (held512 s @ [0x80] @ replicate (zeros_needed 128 112 (Suc (length (held512 s)))) 0 @ ?L)"
    using sha512.finish_absorbs [of s 16 ?L] assms(1) by (auto simp: absorbed512_def)
  have z: "zeros_needed 128 112 (Suc (length (held512 s))) = zeros_needed 128 112 (Suc (length m))"
    using assms(1) by (simp add: absorbed512_def zeros_needed_def mod_Suc_eq)
  have L: "?L = len512_be (of_nat (8 * length m))" using assms(1) by (simp add: absorbed512_def mult.commute)
  have h: "s5_h s3 = absorb 128 compress512 iv (sha512_pad m)"
    using st(4) assms(1) absorb_append [of 128 compress512 iv m] unfolding z L
    by (simp add: absorbed512_def sha512_pad_def)
  have "length (s5_h s3) = 8" unfolding h by (rule absorb512_length [OF assms(2)])
  then have "put_digest (s5_h s3) outlen = sha512_spec iv outlen m"
    using put_digest_take assms(3) h by (simp add: sha512_spec_def)
  then show ?thesis using st(1-3) assms(1)
    by (simp add: sha512_final_def sha512_update_def len512_be_def absorbed512_def)
qed

text \<open>C37. Both long hashes return on every message, and give the FIPS 180-4 digest: the
  message padded to whole 128-byte blocks, chained from the variant's own starting value,
  and cut to the variant's length.\<close>

theorem sha512_sha384_digest:
  assumes "length (s5_buf s) = 128"
  shows "(sha512 s m, sha384 s m) =
    (Some (sha512_spec H512 64 m), Some (sha512_spec H384 48 m))"
proof -
  have iv: "length H512 = 8" "length H384 = 8" by (simp_all add: H512_def H384_def)
  obtain s1 where s1: "sha512_update (sha512_init s) m = Some s1" "absorbed512 s1 H512 64 m"
    using sha512_update_absorbs [OF init_absorbed512 [OF assms], of H512 64 m]
    by (auto simp: sha512_init_def)
  obtain s2 where s2: "sha512_update (sha384_init s) m = Some s2" "absorbed512 s2 H384 48 m"
    using sha512_update_absorbs [OF init_absorbed512 [OF assms], of H384 48 m]
    by (auto simp: sha384_init_def)
  show ?thesis
    using s1(1) s2(1) sha512_final_digest [OF s1(2) iv(1)] sha512_final_digest [OF s2(2) iv(2)]
    by (auto simp: sha512_def sha384_def)
qed

text \<open>The witness: the empty message, on a cleared state.\<close>

theorem sha512_sha384_digest_witness:
  "(sha512 \<lparr> s5_h = [], s5_len = 0, s5_buf = replicate 128 0, s5_n = 0, s5_outlen = 0 \<rparr> [],
    sha384 \<lparr> s5_h = [], s5_len = 0, s5_buf = replicate 128 0, s5_n = 0, s5_outlen = 0 \<rparr> []) =
   (Some (sha512_spec H512 64 []), Some (sha512_spec H384 48 []))"
  using sha512_sha384_digest [of "\<lparr> s5_h = [], s5_len = 0, s5_buf = replicate 128 0, s5_n = 0, s5_outlen = 0 \<rparr>" "[]"]
  by simp

end
