(* ===== verification/Hkdf.thy ===== *)
theory Hkdf
  imports Sha256
begin

text \<open>
  HMAC, HKDF and the TLS 1.3 labelled expansion of \<^verbatim>\<open>kernel/crypto/sha256.c\<close>, over
  the streaming hash.  A \<^typ>\<open>sha256_t\<close> argument is the uninitialised state on the
  caller's stack, whose buffer may hold anything.
\<close>

subsection \<open>The operations\<close>

text \<open>Start, two updates, finish: the sequence each half of HMAC performs.\<close>

definition hash_two :: "sha256_t \<Rightarrow> u8 list \<Rightarrow> u8 list \<Rightarrow> (sha256_t \<times> u8 list) option" where
  "hash_two s a b =
     (case sha256_update (sha256_init s) a of None \<Rightarrow> None | Some s \<Rightarrow>
      (case sha256_update s b of None \<Rightarrow> None | Some s \<Rightarrow> sha256_final s))"

definition hmac_key :: "sha256_t \<Rightarrow> u8 list \<Rightarrow> u8 list option" where
  "hmac_key s key =
     (let k = replicate 64 0 in
      if length key > 64
      then (case sha256 s key of None \<Rightarrow> None | Some d \<Rightarrow> Some (d @ drop 32 k))
      else Some (key @ drop (length key) k))"

definition hmac_sha256 :: "sha256_t \<Rightarrow> u8 list \<Rightarrow> u8 list \<Rightarrow> u8 list option" where
  "hmac_sha256 s key data =
     (case hmac_key s key of None \<Rightarrow> None | Some k \<Rightarrow>
      (case hash_two s (map (\<lambda>x. x XOR 0x36) k) data of None \<Rightarrow> None | Some (s, inner) \<Rightarrow>
       map_option snd (hash_two s (map (\<lambda>x. x XOR 0x5c) k) inner)))"

text \<open>A missing salt and an empty one are both the empty list.\<close>

definition hkdf_extract :: "sha256_t \<Rightarrow> u8 list \<Rightarrow> u8 list \<Rightarrow> u8 list option" where
  "hkdf_extract s salt ikm =
     (let salt = (if salt = [] then replicate 32 0 else salt) in hmac_sha256 s salt ikm)"

text \<open>The loop with \<open>left\<close> bytes still to write, the previous block \<open>t\<close> (empty
  before the first) and the one-byte counter, which wraps.\<close>

function expand_loop :: "sha256_t \<Rightarrow> u8 list \<Rightarrow> u8 list \<Rightarrow> u8 list \<Rightarrow> u8 \<Rightarrow> nat \<Rightarrow> u8 list option" where
  "expand_loop s prk info t counter left =
     (if left = 0 then Some []
      else (case hmac_sha256 s prk (t @ take 256 info @ [counter]) of None \<Rightarrow> None | Some t \<Rightarrow>
            map_option (\<lambda>rest. take left t @ rest)
              (expand_loop s prk info t (counter + 1) (left - 32))))"
  by auto
termination by (relation "measure (\<lambda>(s, prk, info, t, counter, left). left)") auto

declare expand_loop.simps [simp del]

definition hkdf_expand :: "sha256_t \<Rightarrow> u8 list \<Rightarrow> u8 list \<Rightarrow> nat \<Rightarrow> u8 list option" where
  "hkdf_expand s prk info outlen = expand_loop s prk info [] 1 outlen"

definition tls13_prefix :: "u8 list" where
  "tls13_prefix = [0x74, 0x6c, 0x73, 0x31, 0x33, 0x20]"

definition label_info :: "u8 list \<Rightarrow> u8 list \<Rightarrow> u32 \<Rightarrow> u8 list" where
  "label_info label ctx outlen =
     (let ll = (if length label > 64 then 64 else length label);
          ctxlen = (if length ctx > 64 then 64 else length ctx)
      in [ucast (drop_bit 8 outlen), ucast outlen, of_nat (6 + ll)] @ tls13_prefix @ take ll label @
         [of_nat ctxlen] @ take ctxlen ctx)"

definition hkdf_expand_label :: "sha256_t \<Rightarrow> u8 list \<Rightarrow> u8 list \<Rightarrow> u8 list \<Rightarrow> u32 \<Rightarrow> u8 list option" where
  "hkdf_expand_label s secret label ctx outlen =
     hkdf_expand s secret (label_info label ctx outlen) (unat outlen)"

definition tls13_derive_secret :: "sha256_t \<Rightarrow> u8 list \<Rightarrow> u8 list \<Rightarrow> u8 list \<Rightarrow> u8 list option" where
  "tls13_derive_secret s secret label hash = hkdf_expand_label s secret label hash 32"

subsection \<open>The references: RFC 2104 and RFC 5869\<close>

definition hmac_block_key :: "u8 list \<Rightarrow> u8 list" where
  "hmac_block_key key =
     (let k = (if length key \<le> 64 then key else sha256_spec key) in k @ replicate (64 - length k) 0)"

definition hmac_spec :: "u8 list \<Rightarrow> u8 list \<Rightarrow> u8 list" where
  "hmac_spec key text =
     sha256_spec (map (\<lambda>x. x XOR 0x5c) (hmac_block_key key) @
       sha256_spec (map (\<lambda>x. x XOR 0x36) (hmac_block_key key) @ text))"

primrec hkdf_T :: "u8 list \<Rightarrow> u8 list \<Rightarrow> nat \<Rightarrow> u8 list" where
  "hkdf_T prk info 0 = []"
| "hkdf_T prk info (Suc i) = hmac_spec prk (hkdf_T prk info i @ info @ [of_nat (Suc i)])"

definition hkdf_expand_spec :: "u8 list \<Rightarrow> u8 list \<Rightarrow> nat \<Rightarrow> u8 list" where
  "hkdf_expand_spec prk info L =
     take L (concat (map (hkdf_T prk info) [1..<(L + 31) div 32 + 1]))"

subsection \<open>Correctness\<close>

lemma hash_two_digest:
  assumes "length (sh_buf s) = 64"
  shows "\<exists>s'. hash_two s a b = Some (s', sha256_spec (a @ b)) \<and> length (sh_buf s') = 64"
proof -
  obtain s1 where s1: "sha256_update (sha256_init s) a = Some s1" "absorbed s1 a"
    using sha256_update_absorbs [OF sha256_init_absorbed [OF assms], of a] by auto
  obtain s2 where s2: "sha256_update s1 b = Some s2" "absorbed s2 (a @ b)"
    using sha256_update_absorbs [OF s1(2)] by blast
  show ?thesis using s1(1) s2(1) sha256_final_digest [OF s2(2)] by (simp add: hash_two_def)
qed

lemma hmac_key_spec:
  "length (sh_buf s) = 64 \<Longrightarrow> hmac_key s key = Some (hmac_block_key key)"
  by (simp add: hmac_key_def hmac_block_key_def sha256_digest Let_def)

text \<open>HMAC returns for every key and message, and is the RFC 2104 construction over
  SHA-256, with a key of more than 64 bytes hashed first and a shorter one padded with
  zeros.\<close>

lemma hmac_sha256_digest:
  assumes "length (sh_buf s) = 64"
  shows "hmac_sha256 s key data = Some (hmac_spec key data)"
proof -
  let ?k = "hmac_block_key key"
  obtain s1 where s1: "hash_two s (map (\<lambda>x. x XOR 0x36) ?k) data =
      Some (s1, sha256_spec (map (\<lambda>x. x XOR 0x36) ?k @ data))" "length (sh_buf s1) = 64"
    using hash_two_digest [OF assms] by blast
  show ?thesis using s1 hash_two_digest [OF s1(2)]
    by (auto simp: hmac_sha256_def hmac_key_spec [OF assms] hmac_spec_def)
qed

lemma hmac_spec_length [simp]: "length (hmac_spec k m) = 32"
  by (simp add: hmac_spec_def)

lemma hkdf_T_length [simp]: "length (hkdf_T prk info (Suc i)) = 32"
  by simp

declare hkdf_T.simps(2) [simp del]

lemma expand_loop_blocks:
  assumes "length (sh_buf s) = 64" "length info \<le> 256"
  shows "expand_loop s prk info (hkdf_T prk info i) (of_nat (Suc i)) left =
    Some (take left (concat (map (hkdf_T prk info) [Suc i..<Suc i + (left + 31) div 32])))"
proof (induction left arbitrary: i rule: less_induct)
  case (less left)
  show ?case
  proof (cases "left = 0")
    case True
    then show ?thesis by (simp add: expand_loop.simps)
  next
    case False
    have blocks: "(left + 31) div 32 = Suc ((left - 32 + 31) div 32)"
    proof (cases "left \<le> 32")
      case True
      then show ?thesis using False by (simp add: div_nat_eqI)
    next
      case more: False
      then obtain k where "left = k + 32" by (metis add.commute le_Suc_ex nat_le_linear)
      then show ?thesis by simp
    qed
    have "expand_loop s prk info (hkdf_T prk info (Suc i)) (of_nat (Suc i) + 1) (left - 32) =
        Some (take (left - 32) (concat (map (hkdf_T prk info)
          [Suc (Suc i)..<Suc (Suc i) + (left - 32 + 31) div 32])))"
      using less.IH [of "left - 32" "Suc i"] False
      by (simp only: of_nat_Suc add.commute [of 1] diff_less zero_less_numeral not_gr_zero)
    moreover have "hmac_sha256 s prk (hkdf_T prk info i @ take 256 info @ [of_nat (Suc i)]) =
        Some (hkdf_T prk info (Suc i))"
      using assms(2) by (simp add: hmac_sha256_digest [OF assms(1)] hkdf_T.simps(2))
    ultimately have "expand_loop s prk info (hkdf_T prk info i) (of_nat (Suc i)) left =
        Some (take left (hkdf_T prk info (Suc i)) @
          take (left - 32) (concat (map (hkdf_T prk info)
            [Suc (Suc i)..<Suc (Suc i) + (left - 32 + 31) div 32])))"
      using False by (subst expand_loop.simps) (simp only: if_False option.case option.map)
    then show ?thesis unfolding blocks by (simp add: upt_conv_Cons del: upt_Suc)
  qed
qed

lemma hkdf_expand_correct:
  assumes "length (sh_buf s) = 64" "length info \<le> 256"
  shows "hkdf_expand s prk info outlen = Some (hkdf_expand_spec prk info outlen)"
  using expand_loop_blocks [OF assms, of prk 0 outlen]
  by (simp add: hkdf_expand_def hkdf_expand_spec_def add.commute)

text \<open>The \<open>HkdfLabel\<close> structure of RFC 8446: a 16-bit length and two vectors, each with
  a one-byte length.\<close>

definition hkdf_label :: "nat \<Rightarrow> u8 list \<Rightarrow> u8 list \<Rightarrow> u8 list" where
  "hkdf_label L label ctx =
     [of_nat (L div 256), of_nat L] @
     of_nat (length (tls13_prefix @ label)) # tls13_prefix @ label @ of_nat (length ctx) # ctx"

lemma label_info_structure:
  assumes "length label \<le> 64" "length ctx \<le> 64"
  shows "label_info label ctx outlen = hkdf_label (unat outlen) label ctx"
proof -
  have "unat (drop_bit 8 outlen) = unat outlen div 256" by (simp add: drop_bit_eq_div unat_div)
  then have "(ucast (drop_bit 8 outlen) :: u8) = of_nat (unat outlen div 256)"
    by (metis of_nat_unat)
  moreover have "(ucast outlen :: u8) = of_nat (unat outlen)" by (simp add: of_nat_unat)
  ultimately show ?thesis
    using assms by (simp add: label_info_def hkdf_label_def tls13_prefix_def Let_def add.commute)
qed

text \<open>C38. The labelled expansion returns, and is HKDF-Expand of RFC 5869 over HMAC-SHA-256
  applied to the HkdfLabel structure of RFC 8446, for every label and context of at most
  64 bytes and every output length.\<close>

theorem hkdf_expand_label_correct:
  assumes "length (sh_buf s) = 64" "length label \<le> 64" "length ctx \<le> 64"
  shows "hkdf_expand_label s secret label ctx outlen =
    Some (hkdf_expand_spec secret (hkdf_label (unat outlen) label ctx) (unat outlen))"
proof -
  have "length (hkdf_label (unat outlen) label ctx) \<le> 256"
    using assms by (simp add: hkdf_label_def tls13_prefix_def)
  then show ?thesis
    using hkdf_expand_correct [OF assms(1)] label_info_structure [OF assms(2,3)]
    by (simp add: hkdf_expand_label_def)
qed

text \<open>The witness: the write key of a TLS 1.3 connection, sixteen bytes with no context.\<close>

theorem hkdf_expand_label_correct_witness:
  "hkdf_expand_label \<lparr> sh_h = [], sh_len = 0, sh_buf = replicate 64 0, sh_n = 0 \<rparr>
     (replicate 32 7) [0x6b, 0x65, 0x79] [] 16 =
   Some (hkdf_expand_spec (replicate 32 7) (hkdf_label 16 [0x6b, 0x65, 0x79] []) 16)"
  using hkdf_expand_label_correct [of "\<lparr> sh_h = [], sh_len = 0, sh_buf = replicate 64 0, sh_n = 0 \<rparr>"
      "[0x6b, 0x65, 0x79]" "[]" "replicate 32 7" 16]
  by simp

end
