(* ===== verification/Rsa.thy ===== *)
theory Rsa
  imports Bignum_Bytes Sha256
begin

text \<open>
  RSA signature verification, \<^verbatim>\<open>kernel/crypto/rsa.c\<close>: the public operation over the
  big integers, and the two paddings.  A byte array and its length are one list.  The static
  scratch numbers are written before they are read on every call, so they are not state.
\<close>

subsection \<open>The operations\<close>

definition rsa_public :: "u8 list \<Rightarrow> u8 list \<Rightarrow> u8 list \<Rightarrow> nat \<Rightarrow> u8 list option" where
  "rsa_public n_be e_be sig outlen =
     (let (okn, n) = bn_from_bytes n_be in
      if \<not> okn then None else
      (let (oks, s) = bn_from_bytes sig in
       if \<not> oks then None
       else if 0 \<le> bn_cmp s n then None
       else (case bn_mont_init n of None \<Rightarrow> None
             | Some m \<Rightarrow> Some (bn_to_bytes (bn_modexp s e_be m) outlen))))"

definition di_sha256 :: "u8 list" where
  "di_sha256 = concat [
    [0x30, 0x31, 0x30, 0x0d, 0x06, 0x09, 0x60, 0x86, 0x48, 0x01],
    [0x65, 0x03, 0x04, 0x02, 0x01, 0x05, 0x00, 0x04, 0x20]]"

definition di_sha384 :: "u8 list" where
  "di_sha384 = concat [
    [0x30, 0x41, 0x30, 0x0d, 0x06, 0x09, 0x60, 0x86, 0x48, 0x01],
    [0x65, 0x03, 0x04, 0x02, 0x02, 0x05, 0x00, 0x04, 0x30]]"

definition di_sha512 :: "u8 list" where
  "di_sha512 = concat [
    [0x30, 0x51, 0x30, 0x0d, 0x06, 0x09, 0x60, 0x86, 0x48, 0x01],
    [0x65, 0x03, 0x04, 0x02, 0x03, 0x05, 0x00, 0x04, 0x40]]"

definition digest_info :: "nat \<Rightarrow> u8 list option" where
  "digest_info hashlen =
     (if hashlen = 32 then Some di_sha256 else if hashlen = 48 then Some di_sha384
      else if hashlen = 64 then Some di_sha512 else None)"

function ff_end :: "u8 list \<Rightarrow> nat \<Rightarrow> nat \<Rightarrow> nat" where
  "ff_end em k i = (if i < k \<and> em ! i = 0xFF then ff_end em k (i + 1) else i)"
  by auto
termination by (relation "measure (\<lambda>(em, k, i). k - i)") auto

declare ff_end.simps [simp del]

text \<open>The checks on the recovered block, in the order of the code.\<close>

definition pkcs1_padding_ok :: "u8 list \<Rightarrow> nat \<Rightarrow> u8 list \<Rightarrow> u8 list \<Rightarrow> bool" where
  "pkcs1_padding_ok em k di hash =
     (if em ! 0 \<noteq> 0x00 \<or> em ! 1 \<noteq> 0x01 then False
      else let i = ff_end em k 2 in
        if i - 2 < 8 then False
        else if k \<le> i \<or> em ! i \<noteq> 0x00 then False
        else let i = i + 1 in
          if k - i \<noteq> 19 + length hash then False
          else if \<not> crypto_equal (drop i em) di 19 then False
          else crypto_equal (drop (i + 19) em) hash (length hash))"

definition rsa_verify_pkcs1 :: "u8 list \<Rightarrow> u8 list \<Rightarrow> u8 list \<Rightarrow> u8 list \<Rightarrow> bool" where
  "rsa_verify_pkcs1 n e sig hash =
     (case digest_info (length hash) of None \<Rightarrow> False
      | Some di \<Rightarrow>
        let n = dropWhile (\<lambda>b. b = 0) n; k = length n in
        if k < 11 + 19 + length hash \<or> BN_MAX_LIMBS * 8 < k then False
        else if length sig \<noteq> k then False
        else (case rsa_public n e sig k of None \<Rightarrow> False | Some em \<Rightarrow> pkcs1_padding_ok em k di hash))"

definition rsa_verify_pkcs1_sha256 :: "u8 list \<Rightarrow> u8 list \<Rightarrow> u8 list \<Rightarrow> u8 list \<Rightarrow> bool" where
  "rsa_verify_pkcs1_sha256 n e sig hash = rsa_verify_pkcs1 n e sig (take 32 hash)"

function mgf1_loop :: "sha256_t \<Rightarrow> u8 list \<Rightarrow> u32 \<Rightarrow> nat \<Rightarrow> u8 list option" where
  "mgf1_loop s seed counter left =
     (if left = 0 then Some []
      else (case sha256 s (take 64 seed @ [ucast (drop_bit 24 counter), ucast (drop_bit 16 counter),
                                           ucast (drop_bit 8 counter), ucast counter]) of
              None \<Rightarrow> None
            | Some digest \<Rightarrow> map_option (\<lambda>rest. take left digest @ rest)
                (mgf1_loop s seed (counter + 1) (left - 32))))"
  by auto
termination by (relation "measure (\<lambda>(s, seed, counter, left). left)") auto

declare mgf1_loop.simps [simp del]

definition mgf1 :: "sha256_t \<Rightarrow> u8 list \<Rightarrow> nat \<Rightarrow> u8 list option" where
  "mgf1 s seed masklen = mgf1_loop s seed 0 masklen"

function bit_count :: "u8 \<Rightarrow> nat" where
  "bit_count t = (if t \<noteq> 0 then Suc (bit_count (drop_bit 1 t)) else 0)"
  by auto

termination
proof (relation "measure unat")
  fix t :: u8
  assume "t \<noteq> 0"
  then have "0 < unat t" by (simp add: unat_gt_0)
  then show "(drop_bit 1 t, t) \<in> measure unat" by (simp add: drop_bit_eq_div unat_div)
qed simp

declare bit_count.simps [simp del]

function zero_end :: "u8 list \<Rightarrow> nat \<Rightarrow> nat \<Rightarrow> nat" where
  "zero_end db m i = (if i < m \<and> db ! i = 0 then zero_end db m (i + 1) else i)"
  by auto
termination by (relation "measure (\<lambda>(db, m, i). m - i)") auto

declare zero_end.simps [simp del]

text \<open>The checks of the PSS padding, with \<open>lead\<close> the first byte of the stripped modulus.
  The outcome is \<^const>\<open>None\<close> only where a hash does not return.\<close>

definition pss_padding_ok :: "sha256_t \<Rightarrow> u8 list \<Rightarrow> nat \<Rightarrow> u8 \<Rightarrow> u8 list \<Rightarrow> bool option" where
  "pss_padding_ok s em k lead hash =
     (if em ! (k - 1) \<noteq> 0xBC then Some False
      else let embits = (int k - 1) * 8 + int (bit_count lead) - 1;
               maskedlen = k - 32 - 1;
               spare = int k * 8 - embits in
        if spare < 0 \<or> 7 < spare then Some False
        else if spare \<noteq> 0 \<and> drop_bit (8 - nat spare) (em ! 0) \<noteq> 0 then Some False
        else let h = take 32 (drop maskedlen em) in
          (case mgf1 s h maskedlen of None \<Rightarrow> None
           | Some db_mask \<Rightarrow>
             let db = map (\<lambda>i. db_mask ! i XOR em ! i) [0..<maskedlen];
                 db = (if spare \<noteq> 0 then db[0 := db ! 0 AND drop_bit (nat spare) 0xFF] else db);
                 i = zero_end db (maskedlen - 32 - 1) 0 in
             if i \<noteq> maskedlen - 32 - 1 then Some False
             else if db ! i \<noteq> 0x01 then Some False
             else let salt = take 32 (drop (i + 1) db);
                      mprime = replicate 8 0 @ take 32 hash @ salt in
               map_option (\<lambda>h2. crypto_equal h2 h 32) (sha256 s mprime)))"

definition rsa_verify_pss_sha256 :: "sha256_t \<Rightarrow> u8 list \<Rightarrow> u8 list \<Rightarrow> u8 list \<Rightarrow> u8 list \<Rightarrow> bool option" where
  "rsa_verify_pss_sha256 s n e sig hash =
     (let n = dropWhile (\<lambda>b. b = 0) n; k = length n in
      if k < 32 + 32 + 2 \<or> BN_MAX_LIMBS * 8 < k then Some False
      else if length sig \<noteq> k then Some False
      else (case rsa_public n e sig k of None \<Rightarrow> Some False
            | Some em \<Rightarrow> pss_padding_ok s em k (n ! 0) hash))"

subsection \<open>The public operation\<close>

text \<open>Exactly when it answers, and what: the power of the signature modulo the key, as
  bytes of the length asked.\<close>

lemma os2ip_strip_ge:
  assumes "dropWhile (\<lambda>b. b = 0) n \<noteq> []"
  shows "256 ^ (length (dropWhile (\<lambda>b. b = 0) n) - 1) \<le> os2ip n"
proof -
  obtain b bs where d: "dropWhile (\<lambda>b. b = 0) n = b # bs" using assms by (meson neq_Nil_conv)
  then have "b \<noteq> 0" using hd_dropWhile [OF assms] by simp
  then have "1 \<le> unat b" by (metis One_nat_def Suc_leI unat_gt_0)
  then have "1 * 256 ^ length bs \<le> unat b * 256 ^ length bs" by (rule mult_le_mono1)
  then have "256 ^ length bs \<le> os2ip (b # bs)" unfolding os2ip_Cons by linarith
  then show ?thesis using os2ip_strip [of n] d by simp
qed

lemma rsa_public_spec:
  assumes "length (dropWhile (\<lambda>b. b = 0) n) \<le> 512" "1 < os2ip n"
    and "length (dropWhile (\<lambda>b. b = 0) sig) \<le> 512"
  shows "rsa_public n e sig k =
    (if odd (os2ip n) \<and> os2ip sig < os2ip n
     then Some (bn_to_bytes (bn_modexp (snd (bn_from_bytes sig)) e
            (the (bn_mont_init (snd (bn_from_bytes n))))) k) else None)"
    and "\<lbrakk> odd (os2ip n); os2ip sig < os2ip n; rsa_public n e sig k = Some em \<rbrakk> \<Longrightarrow>
      length em = k \<and> os2ip em = os2ip sig ^ os2ip e mod os2ip n mod 256 ^ k"
proof -
  let ?n = "snd (bn_from_bytes n)" and ?s = "snd (bn_from_bytes sig)"
  have n: "fst (bn_from_bytes n)" "bn_wf ?n" "bn_val ?n = os2ip n"
    using bn_from_bytes_spec [of n] assms by auto
  have s: "fst (bn_from_bytes sig)" "bn_wf ?s" "bn_val ?s = os2ip sig"
    using bn_from_bytes_spec [of sig] assms by auto
  have none: "bn_mont_init ?n = None \<longleftrightarrow> even (os2ip n)"
    using bn_mont_init_good(2) [OF n(2)] n(3) assms(2) by simp
  show r: "rsa_public n e sig k =
    (if odd (os2ip n) \<and> os2ip sig < os2ip n
     then Some (bn_to_bytes (bn_modexp ?s e (the (bn_mont_init ?n))) k) else None)"
    using n s none by (auto simp: rsa_public_def Let_def split: prod.splits option.splits)
  assume o: "odd (os2ip n)" and lt: "os2ip sig < os2ip n" and em: "rsa_public n e sig k = Some em"
  obtain m where m: "bn_mont_init ?n = Some m" using none o by auto
  have g: "mont_good m" "mont_n m = ?n"
    using bn_mont_init_good(1) [OF n(2) _ m] n(3) assms(2) by auto
  have "bn_val ?s < BASE ^ bn_n ?n"
    using s(3) n(3) lt bn_val_less [of ?n "bn_n ?n"] by simp
  then have "bn_n ?s \<le> bn_n (mont_n m)" unfolding g(2) by (rule bn_n_mono [OF s(2)])
  then have "bn_val (bn_modexp ?s e m) = os2ip sig ^ os2ip e mod os2ip n"
    using bn_modexp_power [OF g(1) s(2), of e] g(2) s(3) n(3) by simp
  then show "length em = k \<and> os2ip em = os2ip sig ^ os2ip e mod os2ip n mod 256 ^ k"
    using em r o lt m by (auto simp: bn_to_bytes_value)
qed

text \<open>The call both verifications make: the stripped modulus, a signature of its length.\<close>

lemma rsa_public_recovers:
  assumes k: "k = length (dropWhile (\<lambda>b. b = 0) n)" and b: "2 \<le> k" "k \<le> 512" "length sig = k"
  shows "rsa_public (dropWhile (\<lambda>b. b = 0) n) e sig k = None \<longleftrightarrow> \<not> (odd (os2ip n) \<and> os2ip sig < os2ip n)"
    and "rsa_public (dropWhile (\<lambda>b. b = 0) n) e sig k = Some em \<Longrightarrow>
      length em = k \<and> os2ip em = os2ip sig ^ os2ip e mod os2ip n"
proof -
  let ?n = "dropWhile (\<lambda>b. b = 0) n"
  have nn: "dropWhile (\<lambda>b. b = 0) ?n = ?n" by (simp add: dropWhile_idem)
  have sl: "length (dropWhile (\<lambda>b. b = 0) sig) \<le> 512"
    using b length_dropWhile_le [of "\<lambda>b. b = 0" sig] by linarith
  have "0 < length ?n" using k b by linarith
  then have "?n \<noteq> []" by (rule length_greater_0_conv [THEN iffD1])
  moreover have "(256 :: nat) ^ 1 \<le> 256 ^ (k - 1)" using b by (intro power_increasing) auto
  ultimately have gt: "1 < os2ip n" using os2ip_strip_ge [of n] by (simp add: k)
  have lt: "os2ip n < 256 ^ k" using os2ip_less [of ?n] by (simp add: k)
  show pub: "rsa_public ?n e sig k = None \<longleftrightarrow> \<not> (odd (os2ip n) \<and> os2ip sig < os2ip n)"
    using rsa_public_spec(1) [of ?n sig e k] nn b k gt sl by simp
  assume em: "rsa_public ?n e sig k = Some em"
  then have "odd (os2ip n)" "os2ip sig < os2ip n" using pub by auto
  then have "length em = k \<and> os2ip em = os2ip sig ^ os2ip e mod os2ip n mod 256 ^ k"
    using rsa_public_spec(2) [of ?n sig e k em] nn b k gt sl em by simp
  moreover have "os2ip sig ^ os2ip e mod os2ip n < 256 ^ k"
    using gt lt by (intro less_trans [OF mod_less_divisor]) auto
  ultimately show "length em = k \<and> os2ip em = os2ip sig ^ os2ip e mod os2ip n" by simp
qed

subsection \<open>PKCS#1 v1.5\<close>

text \<open>EMSA-PKCS1-v1\_5 of RFC 8017: the only block of \<open>k\<close> bytes that encodes a hash.\<close>

definition emsa_pkcs1 :: "nat \<Rightarrow> u8 list \<Rightarrow> u8 list \<Rightarrow> u8 list" where
  "emsa_pkcs1 k di hash =
     [0x00, 0x01] @ replicate (k - 22 - length hash) 0xFF @ [0x00] @ di @ hash"

lemma ff_end_props:
  "i \<le> k \<Longrightarrow> i \<le> ff_end em k i \<and> ff_end em k i \<le> k \<and>
     (\<forall>j. i \<le> j \<and> j < ff_end em k i \<longrightarrow> em ! j = 0xFF) \<and> (ff_end em k i < k \<longrightarrow> em ! ff_end em k i \<noteq> 0xFF)"
proof (induction em k i rule: ff_end.induct)
  case (1 em k i)
  show ?case
  proof (cases "i < k \<and> em ! i = 0xFF")
    case True
    then have e: "ff_end em k i = ff_end em k (i + 1)" by (simp add: ff_end.simps [of em k i])
    have "i + 1 \<le> ff_end em k (i + 1) \<and> ff_end em k (i + 1) \<le> k \<and>
        (\<forall>j. i + 1 \<le> j \<and> j < ff_end em k (i + 1) \<longrightarrow> em ! j = 0xFF) \<and>
        (ff_end em k (i + 1) < k \<longrightarrow> em ! ff_end em k (i + 1) \<noteq> 0xFF)"
      using 1 True by simp
    then show ?thesis unfolding e using True by (auto simp: le_eq_less_or_eq [of i])
  next
    case False
    then show ?thesis using 1(2) by (auto simp: ff_end.simps [of em k i])
  qed
qed

lemma ff_end_unique:
  assumes "i \<le> p" "p < k" "\<And>j. \<lbrakk> i \<le> j; j < p \<rbrakk> \<Longrightarrow> em ! j = 0xFF" "em ! p \<noteq> 0xFF"
  shows "ff_end em k i = p"
proof -
  have p: "i \<le> ff_end em k i" "\<And>j. \<lbrakk> i \<le> j; j < ff_end em k i \<rbrakk> \<Longrightarrow> em ! j = 0xFF"
      "ff_end em k i < k \<Longrightarrow> em ! ff_end em k i \<noteq> 0xFF" "ff_end em k i \<le> k"
    using ff_end_props [of i k em] assms(1,2) by auto
  show ?thesis
  proof (rule linorder_cases [of "ff_end em k i" p])
    assume "ff_end em k i < p"
    then show ?thesis using p(1,3) assms(2) assms(3) [of "ff_end em k i"] by simp
  next
    assume "p < ff_end em k i"
    then show ?thesis using p(2) [OF assms(1)] assms(4) by simp
  qed
qed

lemma list_as_pieces:
  "a + b \<le> length xs \<Longrightarrow> xs = take a xs @ take b (drop a xs) @ drop (a + b) xs"
  by (metis append_take_drop_id drop_drop add.commute)

lemma replicate_take_drop:
  assumes "a + b \<le> length xs" "\<And>j. \<lbrakk> a \<le> j; j < a + b \<rbrakk> \<Longrightarrow> xs ! j = c"
  shows "take b (drop a xs) = replicate b c"
  using assms by (intro nth_equalityI) auto

lemma pkcs1_padding_exact:
  assumes em: "length em = k" and k: "30 + length hash \<le> k" and di: "length di = 19"
  shows "pkcs1_padding_ok em k di hash \<longleftrightarrow> em = emsa_pkcs1 k di hash"
proof
  let ?p = "k - 20 - length hash"
  assume ok: "pkcs1_padding_ok em k di hash"
  define i where "i = ff_end em k 2"
  have c: "em ! 0 = 0" "em ! 1 = 1" "i < k" "em ! i = 0" "k - (i + 1) = 19 + length hash"
      "crypto_equal (drop (i + 1) em) di 19" "crypto_equal (drop (i + 1 + 19) em) hash (length hash)"
    using ok by (auto simp: pkcs1_padding_ok_def i_def Let_def split: if_splits)
  have i: "i = ?p" using c(3,5) by linarith
  have ff: "\<And>j. \<lbrakk> 2 \<le> j; j < i \<rbrakk> \<Longrightarrow> em ! j = 0xFF"
    using ff_end_props [of 2 k em] k unfolding i_def by auto
  have "em = take 2 em @ take (i - 2) (drop 2 em) @ drop i em"
  proof -
    have "2 + (i - 2) = i" "i \<le> length em" using i k em by linarith+
    then show ?thesis using list_as_pieces [of 2 "i - 2" em] by simp
  qed
  also have "take 2 em = [0, 1]" using c(1,2) em k by (intro nth_equalityI) (auto simp: less_2_cases_iff)
  also have "take (i - 2) (drop 2 em) = replicate (k - 22 - length hash) 0xFF"
    using replicate_take_drop [where a = 2 and b = "i - 2" and xs = em and c = "0xFF"] ff i k em by simp
  also have "drop i em = em ! i # drop (i + 1) em" using c(3) em Cons_nth_drop_Suc [of i em] by simp
  also have "drop (i + 1) em = take 19 (drop (i + 1) em) @ drop (i + 1 + 19) em"
    by (metis append_take_drop_id drop_drop add.commute)
  also have "take 19 (drop (i + 1) em) = di"
    using c(6) di em i k by (simp add: crypto_equal_take)
  also have "drop (i + 1 + 19) em = hash"
    using c(7) em i k by (simp add: crypto_equal_take)
  finally show "em = emsa_pkcs1 k di hash" using c(4) by (simp add: emsa_pkcs1_def)
next
  let ?p = "k - 20 - length hash"
  assume e: "em = emsa_pkcs1 k di hash"
  have nth: "em ! j = 0xFF" if "2 \<le> j" "j < ?p" for j
    using that k by (simp add: e emsa_pkcs1_def nth_append nth_Cons')
  have p: "em ! ?p = 0" using k by (simp add: e emsa_pkcs1_def nth_append nth_Cons')
  have i: "ff_end em k 2 = ?p"
    using nth p k by (intro ff_end_unique) auto
  obtain z where z: "k = 22 + length hash + z" using k le_Suc_ex [of "22 + length hash" k] by auto
  have d: "drop (?p + 1) em = di @ hash" by (simp add: e emsa_pkcs1_def z)
  then have d2: "drop (?p + 1 + 19) em = hash" using di by (metis append_eq_conv_conj drop_drop add.commute)
  have "em ! 0 = 0" "em ! 1 = 1" by (simp_all add: e emsa_pkcs1_def)
  then show "pkcs1_padding_ok em k di hash"
    using k p i d d2 di by (simp add: pkcs1_padding_ok_def Let_def crypto_equal_take) arith
qed

text \<open>C9. PKCS#1 v1.5 verification accepts exactly the RSA signatures: the hash is of one of
  the three sizes, the modulus is odd and between the padding's minimum and 4096 bits, the
  signature has the modulus's length and is below it, and its \<open>e\<close>-th power modulo
  \<open>n\<close> is the one EMSA-PKCS1-v1\_5 encoding of the hash.\<close>

theorem rsa_verify_pkcs1_exact:
  "rsa_verify_pkcs1 n e sig hash =
     (case digest_info (length hash) of None \<Rightarrow> False
      | Some di \<Rightarrow> let k = length (dropWhile (\<lambda>b. b = 0) n) in
          30 + length hash \<le> k \<and> k \<le> 512 \<and> length sig = k \<and> odd (os2ip n) \<and> os2ip sig < os2ip n \<and>
          os2ip sig ^ os2ip e mod os2ip n = os2ip (emsa_pkcs1 k di hash))"
proof (cases "digest_info (length hash)")
  case None
  then show ?thesis by (simp add: rsa_verify_pkcs1_def)
next
  case (Some di)
  let ?n = "dropWhile (\<lambda>b. b = 0) n"
  define k where "k = length ?n"
  have di: "length di = 19"
    using Some by (auto simp: digest_info_def di_sha256_def di_sha384_def di_sha512_def split: if_splits)
  show ?thesis
  proof (cases "30 + length hash \<le> k \<and> k \<le> 512 \<and> length sig = k")
    case True
    note pub = rsa_public_recovers [of k n sig e]
    have v: "rsa_verify_pkcs1 n e sig hash \<longleftrightarrow>
        (case rsa_public ?n e sig k of None \<Rightarrow> False | Some em \<Rightarrow> pkcs1_padding_ok em k di hash)"
      using Some True by (simp add: rsa_verify_pkcs1_def Let_def BN_MAX_LIMBS_def flip: k_def cong: option.case_cong)
    show ?thesis
    proof (cases "odd (os2ip n) \<and> os2ip sig < os2ip n")
      case False
      then show ?thesis using v pub(1) Some True by (auto simp: k_def Let_def)
    next
      case T: True
      then obtain em where em: "rsa_public ?n e sig k = Some em"
        using pub(1) True k_def by fastforce
      have l: "length em = k" "os2ip em = os2ip sig ^ os2ip e mod os2ip n"
        using pub(2) [OF k_def _ _ _ em] True by simp_all
      have "length (emsa_pkcs1 k di hash) = k" using di True by (simp add: emsa_pkcs1_def) arith
      then have "pkcs1_padding_ok em k di hash \<longleftrightarrow> os2ip em = os2ip (emsa_pkcs1 k di hash)"
        using pkcs1_padding_exact [OF l(1) _ di] True os2ip_inj [of em] l(1) by simp
      then show ?thesis using v em T True Some l(2) by (simp add: k_def Let_def)
    qed
  next
    case False
    then show ?thesis using Some by (auto simp: rsa_verify_pkcs1_def k_def Let_def BN_MAX_LIMBS_def)
  qed
qed

end
