(* ===== verification/Rsa_Pss.thy ===== *)
theory Rsa_Pss
  imports Rsa
begin

text \<open>
  The PSS half of \<^verbatim>\<open>kernel/crypto/rsa.c\<close>, against the encoding of RFC 8017:
  verification accepts exactly when some 32-byte salt encodes the hash to the recovered
  block.  Masking and unmasking are one involution, which carries the proof both ways.
\<close>

subsection \<open>The encoding\<close>

definition counter_be :: "u32 \<Rightarrow> u8 list" where
  "counter_be c = [ucast (drop_bit 24 c), ucast (drop_bit 16 c), ucast (drop_bit 8 c), ucast c]"

definition mgf1_spec :: "u8 list \<Rightarrow> nat \<Rightarrow> u8 list" where
  "mgf1_spec seed L =
     take L (concat (map (\<lambda>i. sha256_spec (seed @ counter_be (of_nat i))) [0..<(L + 31) div 32]))"

text \<open>XOR with the mask, then clear the leading \<open>spare\<close> bits.\<close>

definition pss_mask :: "nat \<Rightarrow> u8 list \<Rightarrow> u8 list \<Rightarrow> u8 list" where
  "pss_mask spare mk xs =
     (map (\<lambda>i. mk ! i XOR xs ! i) [0..<length xs])[0 := (mk ! 0 XOR xs ! 0) AND drop_bit spare 0xFF]"

definition pss_db :: "nat \<Rightarrow> u8 list \<Rightarrow> u8 list" where
  "pss_db k salt = replicate (k - 66) 0 @ [0x01] @ salt"

definition pss_h :: "u8 list \<Rightarrow> u8 list \<Rightarrow> u8 list" where
  "pss_h hash salt = sha256_spec (replicate 8 0 @ hash @ salt)"

definition emsa_pss :: "nat \<Rightarrow> nat \<Rightarrow> u8 list \<Rightarrow> u8 list \<Rightarrow> u8 list" where
  "emsa_pss k spare hash salt =
     pss_mask spare (mgf1_spec (pss_h hash salt) (k - 33)) (pss_db k salt) @ pss_h hash salt @ [0xBC]"

subsection \<open>The mask\<close>

lemma mgf1_loop_blocks:
  assumes "length (sh_buf s) = 64" "length seed \<le> 64"
  shows "mgf1_loop s seed (of_nat i) left = Some (take left (concat
    (map (\<lambda>i. sha256_spec (seed @ counter_be (of_nat i))) [i..<i + (left + 31) div 32])))"
proof (induction left arbitrary: i rule: less_induct)
  case (less left)
  show ?case
  proof (cases "left = 0")
    case True
    then show ?thesis by (simp add: mgf1_loop.simps)
  next
    case False
    let ?f = "\<lambda>i. sha256_spec (seed @ counter_be (of_nat i))"
    have blocks: "(left + 31) div 32 = Suc ((left - 32 + 31) div 32)"
    proof (cases "left \<le> 32")
      case True
      then show ?thesis using False by (simp add: div_nat_eqI)
    next
      case more: False
      then obtain k where "left = k + 32" by (metis add.commute le_Suc_ex nat_le_linear)
      then show ?thesis by simp
    qed
    have "mgf1_loop s seed (of_nat i + 1) (left - 32) =
        Some (take (left - 32) (concat (map ?f [Suc i..<Suc i + (left - 32 + 31) div 32])))"
      using less.IH [of "left - 32" "Suc i"] False
      by (simp only: of_nat_Suc add.commute [of 1] diff_less zero_less_numeral not_gr_zero)
    moreover have "sha256 s (take 64 seed @ [ucast (drop_bit 24 (of_nat i :: u32)),
        ucast (drop_bit 16 (of_nat i :: u32)), ucast (drop_bit 8 (of_nat i :: u32)), ucast (of_nat i :: u32)]) =
        Some (?f i)"
      using assms(2) by (simp add: sha256_digest [OF assms(1)] counter_be_def)
    ultimately have "mgf1_loop s seed (of_nat i) left = Some (take left (?f i) @
        take (left - 32) (concat (map ?f [Suc i..<Suc i + (left - 32 + 31) div 32])))"
      using False by (subst mgf1_loop.simps) (simp only: if_False option.case option.map)
    then show ?thesis unfolding blocks by (simp add: upt_conv_Cons del: upt_Suc)
  qed
qed

lemma mgf1_correct:
  "\<lbrakk> length (sh_buf s) = 64; length seed \<le> 64 \<rbrakk> \<Longrightarrow> mgf1 s seed L = Some (mgf1_spec seed L)"
  using mgf1_loop_blocks [of s seed 0 L] by (simp add: mgf1_def mgf1_spec_def)

lemma mgf1_spec_length [simp]: "length (mgf1_spec seed L) = L"
proof -
  have "length (concat (map (\<lambda>i. sha256_spec (seed @ counter_be (of_nat i))) [0..<n])) = 32 * n" for n
    by (induction n) simp_all
  moreover have "L \<le> 32 * ((L + 31) div 32)" by linarith
  ultimately show ?thesis unfolding mgf1_spec_def by simp
qed

subsection \<open>Masking is an involution\<close>

lemma drop_ff: "spare \<le> 8 \<Longrightarrow> drop_bit spare (0xFF :: u8) = mask (8 - spare)"
proof -
  assume "spare \<le> 8"
  have "(0xFF :: u8) = mask 8" by (simp add: mask_eq_exp_minus_1)
  then have "drop_bit spare (0xFF :: u8) = drop_bit spare (mask 8)" by (rule arg_cong)
  also have "\<dots> = mask (8 - spare)" by (auto intro!: bit_word_eqI simp: bit_simps simp del: mask_numeral)
  finally show ?thesis .
qed

lemma pss_mask_length [simp]: "length (pss_mask spare m xs) = length xs"
  by (simp add: pss_mask_def)

lemma pss_mask_nth:
  "\<lbrakk> i < length xs; spare \<le> 8 \<rbrakk> \<Longrightarrow> pss_mask spare m xs ! i =
     (if i = 0 then take_bit (8 - spare) (m ! 0 XOR xs ! 0) else m ! i XOR xs ! i)"
  by (cases "i = 0") (simp_all add: pss_mask_def drop_ff nth_list_update flip: take_bit_eq_mask)

lemma pss_mask_involution:
  assumes "spare \<le> 8" "take_bit (8 - spare) (xs ! 0) = xs ! 0"
  shows "pss_mask spare m (pss_mask spare m xs) = xs"
proof (rule nth_equalityI)
  fix i
  assume "i < length (pss_mask spare m (pss_mask spare m xs))"
  then have i: "i < length xs" by simp
  then have "0 < length xs" by linarith
  then show "pss_mask spare m (pss_mask spare m xs) ! i = xs ! i"
    using i assms by (auto simp: pss_mask_nth take_bit_xor xor.assoc [symmetric])
qed simp

lemma zero_end_all: "i \<le> m \<Longrightarrow> zero_end db m i = m \<longleftrightarrow> (\<forall>j. i \<le> j \<and> j < m \<longrightarrow> db ! j = 0)"
proof (induction db m i rule: zero_end.induct)
  case (1 db m i)
  show ?case
  proof (cases "i < m \<and> db ! i = 0")
    case True
    then have "zero_end db m i = zero_end db m (i + 1)" by (simp add: zero_end.simps [of db m i])
    then show ?thesis using 1 True by (auto simp: le_eq_less_or_eq [of i])
  next
    case False
    then have "zero_end db m i = i" by (auto simp: zero_end.simps [of db m i])
    then show ?thesis using False 1(2) by (auto simp: le_less)
  qed
qed

text \<open>The block is zeros, a one byte and the salt, when the checks on it pass.\<close>

lemma pss_db_checked:
  assumes "length db = k - 33" "66 \<le> k"
  shows "zero_end db (k - 33 - 32 - 1) 0 = k - 33 - 32 - 1 \<and> db ! (k - 33 - 32 - 1) = 1 \<longleftrightarrow>
    db = pss_db k (take 32 (drop (k - 33 - 32 - 1 + 1) db))"
proof -
  obtain z where z: "k = 66 + z" using assms(2) le_Suc_ex by blast
  have l: "length db = z + 33" using assms(1) z by simp
  have "db = take z db @ db ! z # drop (z + 1) db" using l by (simp add: id_take_nth_drop)
  moreover have "length (drop (z + 1) db) = 32" using l by simp
  moreover have "zero_end db z 0 = z \<longleftrightarrow> take z db = replicate z 0"
    using l by (auto simp: zero_end_all list_eq_iff_nth_eq)
  ultimately have "zero_end db z 0 = z \<and> db ! z = 1 \<longleftrightarrow> db = replicate z 0 @ 1 # drop (z + 1) db"
    using l by (metis append_eq_append_conv length_replicate length_take list.inject min.absorb2 le_add1)
  then show ?thesis using l by (simp add: z pss_db_def)
qed

lemma bit_count_bounds: "x \<noteq> 0 \<Longrightarrow> 1 \<le> bit_count x \<and> bit_count x \<le> 8"
proof -
  have "unat x < 2 ^ n \<Longrightarrow> bit_count x \<le> n" for n
  proof (induction n arbitrary: x)
    case 0
    then show ?case by (simp add: bit_count.simps unat_eq_0)
  next
    case (Suc n)
    then have "unat (drop_bit 1 x) < 2 ^ n" by (simp add: drop_bit_eq_div unat_div)
    then show ?case using Suc.IH by (subst bit_count.simps) simp
  qed
  then have "bit_count x \<le> 8" using unat_u8_bound [of x] by simp
  moreover assume "x \<noteq> 0"
  ultimately show ?thesis by (subst (asm) bit_count.simps, subst bit_count.simps) simp
qed

lemma emsa_pss_pieces:
  assumes "length em = k" "66 \<le> k" "length salt = 32"
  shows "em = emsa_pss k spare hash salt \<longleftrightarrow>
    take (k - 33) em = pss_mask spare (mgf1_spec (pss_h hash salt) (k - 33)) (pss_db k salt) \<and>
    take 32 (drop (k - 33) em) = pss_h hash salt \<and> em ! (k - 1) = 0xBC"
proof -
  obtain z where z: "k = 33 + z" using assms(2) le_Suc_ex [of 33 k] by auto
  have l: "length (pss_db k salt) = z" using assms z by (simp add: pss_db_def)
  have "drop (z + 32) em = [em ! (z + 32)]"
    using Cons_nth_drop_Suc [of "z + 32" em] assms(1) z by simp
  then have p: "em = take z em @ take 32 (drop z em) @ [em ! (z + 32)]"
    using list_as_pieces [of z 32 em] assms(1) z by simp
  have h: "length (take 32 (drop z em)) = length (pss_h hash salt)"
    using assms(1) z by (simp add: pss_h_def)
  have t: "length (take z em) = length (pss_mask spare (mgf1_spec (pss_h hash salt) z) (pss_db k salt))"
    using assms(1) z l by simp
  have "take z em @ take 32 (drop z em) @ [em ! (z + 32)] =
      pss_mask spare (mgf1_spec (pss_h hash salt) z) (pss_db k salt) @ pss_h hash salt @ [0xBC] \<longleftrightarrow>
    take z em = pss_mask spare (mgf1_spec (pss_h hash salt) z) (pss_db k salt) \<and>
    take 32 (drop z em) = pss_h hash salt \<and> em ! (z + 32) = 0xBC"
    using h t by simp
  then show ?thesis unfolding p [symmetric] emsa_pss_def z by (simp add: add.commute)
qed

lemma bit_count_two:
  assumes "lead \<noteq> 0" "lead \<noteq> 1"
  shows "2 \<le> bit_count lead"
proof -
  have "unat lead \<noteq> unat (0 :: u8)" "unat lead \<noteq> unat (1 :: u8)"
    using assms word_unat_eq_iff by blast+
  then have "unat (drop_bit 1 lead) \<noteq> 0" by (simp add: drop_bit_eq_div unat_div)
  then have "drop_bit 1 lead \<noteq> 0" by auto
  then have "1 \<le> bit_count (drop_bit 1 lead)" using bit_count_bounds by blast
  then show ?thesis using assms by (subst bit_count.simps) simp
qed

lemma pss_db_clean:
  assumes "length salt = 32" "sp \<le> 7"
  shows "take_bit (8 - sp) (pss_db k salt ! 0) = pss_db k salt ! 0"
proof -
  have "pss_db k salt ! 0 = 0 \<or> pss_db k salt ! 0 = 1" by (cases "k - 66") (simp_all add: pss_db_def)
  then show ?thesis using assms(2) by auto
qed

text \<open>The outcome of the checks, with the hashes evaluated.\<close>

lemma pss_padding_checks:
  assumes s: "length (sh_buf s) = 64" and em: "length em = k" and k: "66 \<le> k"
    and hash: "length hash = 32" and lead: "lead \<noteq> 0" "lead \<noteq> 1"
    and h: "h = take 32 (drop (k - 33) em)" and sp: "sp = 9 - bit_count lead"
    and db: "db = pss_mask sp (mgf1_spec h (k - 33)) (take (k - 33) em)"
    and salt: "salt = take 32 (drop (k - 33 - 32 - 1 + 1) db)"
  shows "pss_padding_ok s em k lead hash =
    Some (em ! (k - 1) = 0xBC \<and> take_bit (8 - sp) (em ! 0) = em ! 0 \<and>
      db = pss_db k salt \<and> pss_h hash salt = h)"
proof -
  have b: "2 \<le> bit_count lead" "bit_count lead \<le> 8"
    using bit_count_two [OF lead] bit_count_bounds [OF lead(1)] by auto
  have spare: "int k * 8 - ((int k - 1) * 8 + int (bit_count lead) - 1) = int sp"
    and sp7: "1 \<le> sp" "sp \<le> 7" using b by (auto simp: sp)
  have hl: "length h = 32" using em k by (simp add: h)
  have dbl: "length db = k - 33" using em by (simp add: db)
  have dbe: "(map (\<lambda>i. mgf1_spec h (k - 33) ! i XOR em ! i) [0..<k - 33])
      [0 := map (\<lambda>i. mgf1_spec h (k - 33) ! i XOR em ! i) [0..<k - 33] ! 0 AND drop_bit sp 0xFF] = db"
  proof -
    have mp: "map (\<lambda>i. mgf1_spec h (k - 33) ! i XOR em ! i) [0..<k - 33] =
        map (\<lambda>i. mgf1_spec h (k - 33) ! i XOR take (k - 33) em ! i) [0..<k - 33]" by simp
    show ?thesis unfolding mp using em k by (simp add: db pss_mask_def)
  qed
  have clean: "drop_bit (8 - sp) (em ! 0) = 0 \<longleftrightarrow> take_bit (8 - sp) (em ! 0) = em ! 0"
    by (simp add: take_bit_eq_self_iff_drop_bit_eq_0)
  have sha: "sha256 s (replicate 8 0 @ take 32 hash @ salt) = Some (pss_h hash salt)"
    using hash by (simp add: sha256_digest [OF s] pss_h_def)
  have eq: "crypto_equal (pss_h hash salt) h 32 \<longleftrightarrow> pss_h hash salt = h"
    using hl by (simp add: crypto_equal_take pss_h_def)
  have m: "k - 32 - 1 = k - 33" by simp
  have chk: "zero_end db (k - 33 - 32 - 1) 0 = k - 33 - 32 - 1 \<and> db ! (k - 33 - 32 - 1) = 1 \<longleftrightarrow>
      db = pss_db k salt"
    unfolding salt by (rule pss_db_checked [OF dbl k])
  have mg: "mgf1 s h (k - 33) = Some (mgf1_spec h (k - 33))" using mgf1_correct [OF s] hl by simp
  have "pss_padding_ok s em k lead hash =
      (if em ! (k - 1) \<noteq> 0xBC then Some False
       else if drop_bit (8 - sp) (em ! 0) \<noteq> 0 then Some False
       else if zero_end db (k - 33 - 32 - 1) 0 \<noteq> k - 33 - 32 - 1 then Some False
       else if db ! (k - 33 - 32 - 1) \<noteq> 1 then Some False
       else Some (crypto_equal (pss_h hash salt) h 32))"
  proof -
    have "int sp \<noteq> 0" "\<not> (int sp < 0 \<or> 7 < int sp)" using sp7 by auto
    then show ?thesis
      unfolding pss_padding_ok_def Let_def spare m h [symmetric] nat_int
      by (cases "zero_end db (k - 33 - 32 - 1) 0 = k - 33 - 32 - 1")
        (simp_all only: if_True if_False simp_thms option.case mg dbe salt [symmetric] sha option.map)
  qed
  then show ?thesis using clean eq chk by presburger
qed

lemma pss_padding_exact:
  assumes s: "length (sh_buf s) = 64" and em: "length em = k" and k: "66 \<le> k"
    and hash: "length hash = 32" and lead: "lead \<noteq> 0" "lead \<noteq> 1"
  shows "pss_padding_ok s em k lead hash =
    Some (\<exists>salt. length salt = 32 \<and> em = emsa_pss k (9 - bit_count lead) hash salt)"
proof -
  define sp where "sp = 9 - bit_count lead"
  define h where "h = take 32 (drop (k - 33) em)"
  define db where "db = pss_mask sp (mgf1_spec h (k - 33)) (take (k - 33) em)"
  define salt where "salt = take 32 (drop (k - 33 - 32 - 1 + 1) db)"
  have sp7: "sp \<le> 7" "sp \<le> 8" using bit_count_two [OF lead] by (auto simp: sp_def)
  have e0: "take (k - 33) em ! 0 = em ! 0" and M: "0 < k - 33" using k by auto
  have sl: "length salt = 32" using em k by (simp add: salt_def db_def)
  have "em ! (k - 1) = 0xBC \<and> take_bit (8 - sp) (em ! 0) = em ! 0 \<and> db = pss_db k salt \<and>
      pss_h hash salt = h \<longleftrightarrow> (\<exists>x. length x = 32 \<and> em = emsa_pss k sp hash x)"
  proof
    assume a: "em ! (k - 1) = 0xBC \<and> take_bit (8 - sp) (em ! 0) = em ! 0 \<and> db = pss_db k salt \<and>
      pss_h hash salt = h"
    have "pss_mask sp (mgf1_spec h (k - 33)) db = take (k - 33) em"
      unfolding db_def by (rule pss_mask_involution) (use a e0 sp7 in simp_all)
    then have "em = emsa_pss k sp hash salt"
      using a emsa_pss_pieces [OF em k sl] by (simp add: h_def)
    then show "\<exists>x. length x = 32 \<and> em = emsa_pss k sp hash x" using sl by blast
  next
    assume "\<exists>x. length x = 32 \<and> em = emsa_pss k sp hash x"
    then obtain x where x: "length x = 32" "em = emsa_pss k sp hash x" by blast
    have p: "take (k - 33) em = pss_mask sp (mgf1_spec (pss_h hash x) (k - 33)) (pss_db k x)"
        "h = pss_h hash x" "em ! (k - 1) = 0xBC"
      using emsa_pss_pieces [OF em k x(1), of sp hash] x(2) by (simp_all add: h_def)
    have d: "db = pss_db k x"
      unfolding db_def p(1,2) using sp7 pss_db_clean [OF x(1)] by (simp add: pss_mask_involution)
    have "salt = x" using x(1) k unfolding salt_def d by (simp add: pss_db_def)
    moreover have "length (pss_db k x) = k - 33" using x(1) k by (simp add: pss_db_def)
    then have "take_bit (8 - sp) (em ! 0) = em ! 0"
      using e0 M sp7 unfolding e0 [symmetric] p(1) by (simp add: pss_mask_nth)
    ultimately show "em ! (k - 1) = 0xBC \<and> take_bit (8 - sp) (em ! 0) = em ! 0 \<and>
        db = pss_db k salt \<and> pss_h hash salt = h"
      using p d by simp
  qed
  then show ?thesis
    using pss_padding_checks [OF s em k hash lead h_def sp_def db_def salt_def] by (simp add: sp_def)
qed

subsection \<open>Verification\<close>

text \<open>A modulus with a leading byte of 1 leaves eight spare bits, which the code rejects.\<close>

lemma pss_padding_lead_one: "pss_padding_ok s em k 1 hash = Some False"
  by (simp add: pss_padding_ok_def bit_count.simps)

text \<open>C34. PSS verification always returns, and for a 32-byte hash accepts exactly the RSA
  signatures: the modulus is odd, of 66 to 512 bytes, with a leading byte other than 1, the
  signature has its length and is below it, and some 32-byte salt makes its \<open>e\<close>-th power
  modulo \<open>n\<close> the EMSA-PSS encoding of the hash, with SHA-256 and MGF1.\<close>

theorem rsa_verify_pss_exact:
  assumes "length (sh_buf s) = 64" "length hash = 32"
  shows "rsa_verify_pss_sha256 s n e sig hash =
    Some (let m = dropWhile (\<lambda>b. b = 0) n; k = length m in
      66 \<le> k \<and> k \<le> 512 \<and> m ! 0 \<noteq> 1 \<and> length sig = k \<and> odd (os2ip n) \<and> os2ip sig < os2ip n \<and>
      (\<exists>salt. length salt = 32 \<and>
        os2ip sig ^ os2ip e mod os2ip n = os2ip (emsa_pss k (9 - bit_count (m ! 0)) hash salt)))"
proof -
  let ?n = "dropWhile (\<lambda>b. b = 0) n"
  define k where "k = length ?n"
  show ?thesis
  proof (cases "66 \<le> k \<and> k \<le> 512 \<and> length sig = k")
    case True
    have "0 < length ?n" using True k_def by linarith
    then have ne: "?n \<noteq> []" by (rule length_greater_0_conv [THEN iffD1])
    have lead: "?n ! 0 \<noteq> 0" using hd_dropWhile [OF ne] ne by (simp add: hd_conv_nth)
    have v: "rsa_verify_pss_sha256 s n e sig hash = (case rsa_public ?n e sig k of None \<Rightarrow> Some False
        | Some em \<Rightarrow> pss_padding_ok s em k (?n ! 0) hash)"
      using True by (simp add: rsa_verify_pss_sha256_def Let_def BN_MAX_LIMBS_def flip: k_def cong: option.case_cong)
    note pub = rsa_public_recovers [of k n sig e]
    show ?thesis
    proof (cases "odd (os2ip n) \<and> os2ip sig < os2ip n")
      case False
      then show ?thesis using v pub(1) True by (auto simp: k_def Let_def)
    next
      case T: True
      then obtain em where em: "rsa_public ?n e sig k = Some em"
        using pub(1) True k_def by fastforce
      have l: "length em = k" "os2ip em = os2ip sig ^ os2ip e mod os2ip n"
        using pub(2) [OF k_def _ _ _ em] True by simp_all
      show ?thesis
      proof (cases "?n ! 0 = 1")
        case one: True
        then show ?thesis using v em by (simp add: pss_padding_lead_one Let_def)
      next
        case two: False
        have "length (emsa_pss k sp hash salt) = k" if "length salt = 32" for sp salt
          using that True by (simp add: emsa_pss_def pss_h_def pss_db_def)
        then have "em = emsa_pss k sp hash salt \<longleftrightarrow> os2ip em = os2ip (emsa_pss k sp hash salt)"
          if "length salt = 32" for sp salt
          using that os2ip_inj [of em] l(1) by simp
        then have "pss_padding_ok s em k (?n ! 0) hash = Some (\<exists>salt. length salt = 32 \<and>
            os2ip em = os2ip (emsa_pss k (9 - bit_count (?n ! 0)) hash salt))"
          using pss_padding_exact [OF assms(1) l(1) _ assms(2) lead two] True by auto
        then show ?thesis using v em T True l(2) two by (simp add: k_def Let_def)
      qed
    qed
  next
    case False
    then show ?thesis by (auto simp: rsa_verify_pss_sha256_def k_def Let_def BN_MAX_LIMBS_def)
  qed
qed

text \<open>The witness: with exponent 1 a signature is its own encoded block; here the encoding of a
  hash, under the largest key of 66 bytes.\<close>

lemma os2ip_ff: "os2ip (replicate k 0xFF) + 1 = 256 ^ k"
  by (induction k) (simp_all add: os2ip_Cons)

theorem rsa_verify_pss_exact_witness:
  "rsa_verify_pss_sha256 \<lparr> sh_h = [], sh_len = 0, sh_buf = replicate 64 0, sh_n = 0 \<rparr> (replicate 66 0xFF) [1]
    (emsa_pss 66 1 (replicate 32 7) (replicate 32 0)) (replicate 32 7) = Some True"
proof -
  let ?sig = "emsa_pss 66 1 (replicate 32 7) (replicate 32 0)" and ?n = "replicate 66 (0xFF :: u8)"
  have l: "length ?sig = 66" by (simp add: emsa_pss_def pss_h_def pss_db_def)
  have la: "last ?sig = 0xBC" "last ?n = 0xFF" by (simp_all add: emsa_pss_def last_replicate)
  have "last ?sig \<noteq> last ?n" unfolding la by simp
  then have "?sig \<noteq> ?n" by (rule contrapos_nn) (rule arg_cong)
  then have ne: "os2ip ?sig \<noteq> os2ip ?n" using os2ip_inj [of ?sig ?n] l by simp
  have ff: "os2ip ?n + 1 = 256 ^ 66" by (rule os2ip_ff)
  have lt: "os2ip ?sig < os2ip ?n" using os2ip_less [of ?sig] ne ff unfolding l by linarith
  have "even (os2ip ?n + 1)" unfolding ff by simp
  then have odd: "odd (os2ip ?n)" by simp
  have dw: "dropWhile (\<lambda>b. b = 0) ?n = ?n" by (simp add: dropWhile_eq_self_iff hd_replicate)
  have bc: "bit_count 0xFF = 8" by code_simp
  have e: "os2ip [1] = 1" by (simp add: os2ip_def)
  have h: "length (replicate 32 (7 :: u8)) = 32"
      "length (sh_buf \<lparr> sh_h = [], sh_len = 0, sh_buf = replicate 64 0, sh_n = 0 \<rparr>) = 64" by simp_all
  have n0: "?n ! 0 = 0xFF" by (rule nth_replicate) simp
  have n: "length ?n = 66" by simp
  have "\<exists>salt. length salt = 32 \<and> os2ip ?sig ^ 1 mod os2ip ?n =
      os2ip (emsa_pss 66 (9 - bit_count 0xFF) (replicate 32 7) salt)"
    using lt bc by (intro exI [of _ "replicate 32 0"]) simp
  then show ?thesis
    unfolding rsa_verify_pss_exact [OF h(2,1)] dw Let_def n0 n e l using lt odd by simp
qed

end
