(* ===== verification/Aes_Gcm.thy ===== *)
theory Aes_Gcm
  imports Sha256
begin

text \<open>
  AES-128 in GCM mode, \<^verbatim>\<open>kernel/crypto/aes_gcm.c\<close>: the key schedule, one block of the
  cipher, the authentication hash, and sealing and opening in place.  An in-place
  operation takes the buffer and returns it.
\<close>

subsection \<open>The block cipher\<close>

definition sbox :: "u8 list" where
  "sbox = [
    0x63, 0x7c, 0x77, 0x7b, 0xf2, 0x6b, 0x6f, 0xc5, 0x30, 0x01, 0x67, 0x2b, 0xfe, 0xd7, 0xab, 0x76,
    0xca, 0x82, 0xc9, 0x7d, 0xfa, 0x59, 0x47, 0xf0, 0xad, 0xd4, 0xa2, 0xaf, 0x9c, 0xa4, 0x72, 0xc0,
    0xb7, 0xfd, 0x93, 0x26, 0x36, 0x3f, 0xf7, 0xcc, 0x34, 0xa5, 0xe5, 0xf1, 0x71, 0xd8, 0x31, 0x15,
    0x04, 0xc7, 0x23, 0xc3, 0x18, 0x96, 0x05, 0x9a, 0x07, 0x12, 0x80, 0xe2, 0xeb, 0x27, 0xb2, 0x75,
    0x09, 0x83, 0x2c, 0x1a, 0x1b, 0x6e, 0x5a, 0xa0, 0x52, 0x3b, 0xd6, 0xb3, 0x29, 0xe3, 0x2f, 0x84,
    0x53, 0xd1, 0x00, 0xed, 0x20, 0xfc, 0xb1, 0x5b, 0x6a, 0xcb, 0xbe, 0x39, 0x4a, 0x4c, 0x58, 0xcf,
    0xd0, 0xef, 0xaa, 0xfb, 0x43, 0x4d, 0x33, 0x85, 0x45, 0xf9, 0x02, 0x7f, 0x50, 0x3c, 0x9f, 0xa8,
    0x51, 0xa3, 0x40, 0x8f, 0x92, 0x9d, 0x38, 0xf5, 0xbc, 0xb6, 0xda, 0x21, 0x10, 0xff, 0xf3, 0xd2,
    0xcd, 0x0c, 0x13, 0xec, 0x5f, 0x97, 0x44, 0x17, 0xc4, 0xa7, 0x7e, 0x3d, 0x64, 0x5d, 0x19, 0x73,
    0x60, 0x81, 0x4f, 0xdc, 0x22, 0x2a, 0x90, 0x88, 0x46, 0xee, 0xb8, 0x14, 0xde, 0x5e, 0x0b, 0xdb,
    0xe0, 0x32, 0x3a, 0x0a, 0x49, 0x06, 0x24, 0x5c, 0xc2, 0xd3, 0xac, 0x62, 0x91, 0x95, 0xe4, 0x79,
    0xe7, 0xc8, 0x37, 0x6d, 0x8d, 0xd5, 0x4e, 0xa9, 0x6c, 0x56, 0xf4, 0xea, 0x65, 0x7a, 0xae, 0x08,
    0xba, 0x78, 0x25, 0x2e, 0x1c, 0xa6, 0xb4, 0xc6, 0xe8, 0xdd, 0x74, 0x1f, 0x4b, 0xbd, 0x8b, 0x8a,
    0x70, 0x3e, 0xb5, 0x66, 0x48, 0x03, 0xf6, 0x0e, 0x61, 0x35, 0x57, 0xb9, 0x86, 0xc1, 0x1d, 0x9e,
    0xe1, 0xf8, 0x98, 0x11, 0x69, 0xd9, 0x8e, 0x94, 0x9b, 0x1e, 0x87, 0xe9, 0xce, 0x55, 0x28, 0xdf,
    0x8c, 0xa1, 0x89, 0x0d, 0xbf, 0xe6, 0x42, 0x68, 0x41, 0x99, 0x2d, 0x0f, 0xb0, 0x54, 0xbb, 0x16]"

definition rcon :: "u8 list" where
  "rcon = [0x01, 0x02, 0x04, 0x08, 0x10, 0x20, 0x40, 0x80, 0x1b, 0x36]"

definition sub_byte :: "u8 \<Rightarrow> u8" where
  "sub_byte b = sbox ! unat b"

definition sub_word :: "u32 \<Rightarrow> u32" where
  "sub_word w = push_bit 24 (ucast (sbox ! unat (drop_bit 24 w AND 0xff))) OR
     push_bit 16 (ucast (sbox ! unat (drop_bit 16 w AND 0xff))) OR
     push_bit 8 (ucast (sbox ! unat (drop_bit 8 w AND 0xff))) OR
     ucast (sbox ! unat (w AND 0xff))"

definition rot_word :: "u32 \<Rightarrow> u32" where
  "rot_word w = push_bit 8 w OR drop_bit 24 w"

definition expand_step :: "nat \<Rightarrow> u32 list \<Rightarrow> u32 list" where
  "expand_step i rk =
     (let t = rk ! (i - 1);
          t = (if i mod 4 = 0 then sub_word (rot_word t) XOR push_bit 24 (ucast (rcon ! (i div 4 - 1))) else t)
      in rk @ [rk ! (i - 4) XOR t])"

definition key_expand :: "u8 list \<Rightarrow> u32 list" where
  "key_expand key = fold expand_step [4..<44] (map (be_word key) [0..<4])"

definition xtime :: "u8 \<Rightarrow> u8" where
  "xtime a = push_bit 1 a XOR drop_bit 7 a * 0x1b"

definition add_round_key :: "u32 list \<Rightarrow> nat \<Rightarrow> u8 list \<Rightarrow> u8 list" where
  "add_round_key rk round s =
     map (\<lambda>i. s ! i XOR ucast (drop_bit (24 - i mod 4 * 8) (rk ! (round * 4 + i div 4)))) [0..<16]"

definition shift_rows :: "u8 list \<Rightarrow> u8 list" where
  "shift_rows s = map (\<lambda>i. s ! ((i div 4 + i mod 4) mod 4 * 4 + i mod 4)) [0..<16]"

definition mix_column :: "u8 list \<Rightarrow> nat \<Rightarrow> u8 list" where
  "mix_column s c =
     (let a0 = s ! (c * 4); a1 = s ! (c * 4 + 1); a2 = s ! (c * 4 + 2); a3 = s ! (c * 4 + 3);
          x = a0 XOR a1 XOR a2 XOR a3
      in [a0 XOR x XOR xtime (a0 XOR a1), a1 XOR x XOR xtime (a1 XOR a2),
          a2 XOR x XOR xtime (a2 XOR a3), a3 XOR x XOR xtime (a3 XOR a0)])"

definition mix_columns :: "u8 list \<Rightarrow> u8 list" where
  "mix_columns s = concat (map (mix_column s) [0..<4])"

definition aes_round :: "u32 list \<Rightarrow> nat \<Rightarrow> u8 list \<Rightarrow> u8 list" where
  "aes_round rk round s =
     (let s = shift_rows (map sub_byte s);
          s = (if round \<noteq> 10 then mix_columns s else s)
      in add_round_key rk round s)"

definition encrypt_block :: "u32 list \<Rightarrow> u8 list \<Rightarrow> u8 list" where
  "encrypt_block rk inp = fold (aes_round rk) [1..<11] (add_round_key rk 0 inp)"

subsection \<open>The authentication hash\<close>

definition ghash_shift :: "u8 list \<Rightarrow> u8 list" where
  "ghash_shift v =
     (let lsb = v ! 15 AND 1;
          v = map (\<lambda>j. if 0 < j then drop_bit 1 (v ! j) OR push_bit 7 (v ! (j - 1)) else drop_bit 1 (v ! j)) [0..<16]
      in if lsb \<noteq> 0 then v[0 := v ! 0 XOR 0xe1] else v)"

definition ghash_bit :: "u8 list \<Rightarrow> nat \<Rightarrow> u8 list \<times> u8 list \<Rightarrow> u8 list \<times> u8 list" where
  "ghash_bit x i st =
     (let (z, v) = st;
          z = (if drop_bit (7 - i mod 8) (x ! (i div 8)) AND 1 \<noteq> 0
               then map (\<lambda>j. z ! j XOR v ! j) [0..<16] else z)
      in (z, ghash_shift v))"

definition ghash_mul :: "u8 list \<Rightarrow> u8 list \<Rightarrow> u8 list" where
  "ghash_mul x h = fst (fold (ghash_bit x) [0..<128] (replicate 16 0, h))"

function ghash_blocks :: "u8 list \<Rightarrow> u8 list \<Rightarrow> u8 list \<Rightarrow> u8 list" where
  "ghash_blocks y h data =
     (if data = [] then y
      else (let n = (if length data > 16 then 16 else length data);
                y = map (\<lambda>i. if i < n then y ! i XOR data ! i else y ! i) [0..<16]
            in ghash_blocks (ghash_mul y h) h (drop n data)))"
  by auto
termination by (relation "measure (\<lambda>(y, h, data). length data)") auto

declare ghash_blocks.simps [simp del]

subsection \<open>Counter mode and the tag\<close>

record aes128gcm =
  gcm_rk :: "u32 list"
  gcm_h :: "u8 list"

definition aes128gcm_init :: "u8 list \<Rightarrow> aes128gcm" where
  "aes128gcm_init key =
     (let rk = key_expand key in \<lparr> gcm_rk = rk, gcm_h = encrypt_block rk (replicate 16 0) \<rparr>)"

definition ctr_block :: "u8 list \<Rightarrow> u32 \<Rightarrow> u8 list" where
  "ctr_block nonce counter = take 12 nonce @
     [ucast (drop_bit 24 counter), ucast (drop_bit 16 counter), ucast (drop_bit 8 counter), ucast counter]"

function crypt_loop :: "u32 list \<Rightarrow> u8 list \<Rightarrow> u32 \<Rightarrow> u8 list \<Rightarrow> u8 list" where
  "crypt_loop rk nonce counter data =
     (if data = [] then []
      else (let ks = encrypt_block rk (ctr_block nonce counter);
                n = (if length data > 16 then 16 else length data)
            in map (\<lambda>i. data ! i XOR ks ! i) [0..<n] @ crypt_loop rk nonce (counter + 1) (drop n data)))"
  by auto
termination by (relation "measure (\<lambda>(rk, nonce, counter, data). length data)") auto

declare crypt_loop.simps [simp del]

definition gcm_crypt :: "aes128gcm \<Rightarrow> u8 list \<Rightarrow> u8 list \<Rightarrow> u8 list" where
  "gcm_crypt c nonce data = crypt_loop (gcm_rk c) nonce 2 data"

definition gcm_tag :: "aes128gcm \<Rightarrow> u8 list \<Rightarrow> u8 list \<Rightarrow> u8 list \<Rightarrow> u8 list" where
  "gcm_tag c nonce aad ct =
     (let y = ghash_blocks (replicate 16 0) (gcm_h c) aad;
          y = ghash_blocks y (gcm_h c) ct;
          lenblk = len_be (of_nat (length aad) * 8) @ len_be (of_nat (length ct) * 8);
          y = ghash_mul (map (\<lambda>i. y ! i XOR lenblk ! i) [0..<16]) (gcm_h c);
          ek = encrypt_block (gcm_rk c) (ctr_block nonce 1)
      in map (\<lambda>i. y ! i XOR ek ! i) [0..<16])"

text \<open>The buffer and the tag written.\<close>

definition aes128gcm_seal :: "aes128gcm \<Rightarrow> u8 list \<Rightarrow> u8 list \<Rightarrow> u8 list \<Rightarrow> u8 list \<times> u8 list" where
  "aes128gcm_seal c nonce aad data =
     (let data = gcm_crypt c nonce data in (data, gcm_tag c nonce aad data))"

text \<open>The value returned and the buffer.\<close>

definition aes128gcm_open :: "aes128gcm \<Rightarrow> u8 list \<Rightarrow> u8 list \<Rightarrow> u8 list \<Rightarrow> u8 list \<Rightarrow> bool \<times> u8 list" where
  "aes128gcm_open c nonce aad data tag =
     (let want = gcm_tag c nonce aad data in
      if \<not> crypto_equal want tag 16 then (False, data) else (True, gcm_crypt c nonce data))"

subsection \<open>Opening what was sealed\<close>

lemma crypt_loop_length [simp]: "length (crypt_loop rk nonce c data) = length data"
proof (induction rk nonce c data rule: crypt_loop.induct)
  case (1 rk nonce c data)
  then show ?case by (subst crypt_loop.simps) (auto simp: Let_def)
qed

text \<open>The key stream depends on the nonce and the position only, so encrypting twice is the
  identity.\<close>

lemma crypt_loop_involution: "crypt_loop rk nonce c (crypt_loop rk nonce c data) = data"
proof (induction rk nonce c data rule: crypt_loop.induct)
  case (1 rk nonce c data)
  show ?case
  proof (cases "data = []")
    case True
    then show ?thesis by (simp add: crypt_loop.simps)
  next
    case False
    let ?ks = "encrypt_block rk (ctr_block nonce c)"
    define n where "n = (if length data > 16 then 16 else length data)"
    define p where "p = map (\<lambda>i. data ! i XOR ?ks ! i) [0..<n]"
    define r where "r = crypt_loop rk nonce (c + 1) (drop n data)"
    have n: "0 < n" "n \<le> length data" "n \<le> 16" using False by (auto simp: n_def)
    have e: "crypt_loop rk nonce c data = p @ r"
      using False by (subst crypt_loop.simps) (simp add: Let_def p_def r_def flip: n_def)
    have l: "length (p @ r) = length data" unfolding e [symmetric] by (rule crypt_loop_length)
    then have n': "n = (if length (p @ r) > 16 then 16 else length (p @ r))" by (simp add: n_def)
    have ne: "p @ r \<noteq> []" using n by (simp add: p_def)
    have "crypt_loop rk nonce c (p @ r) =
        map (\<lambda>i. (p @ r) ! i XOR ?ks ! i) [0..<n] @ crypt_loop rk nonce (c + 1) (drop n (p @ r))"
      using ne by (subst crypt_loop.simps) (simp only: Let_def if_False n' [symmetric])
    also have "map (\<lambda>i. (p @ r) ! i XOR ?ks ! i) [0..<n] = take n data"
      using n by (intro nth_equalityI) (simp_all add: p_def nth_append xor.assoc)
    also have "crypt_loop rk nonce (c + 1) (drop n (p @ r)) = drop n data"
      using 1 [OF False refl n_def] by (simp add: p_def r_def)
    finally show ?thesis by (simp add: e)
  qed
qed

lemma gcm_tag_length [simp]: "length (gcm_tag c nonce aad ct) = 16"
  by (simp add: gcm_tag_def Let_def)

text \<open>C39. Opening what was sealed, with the same key, nonce and associated data, is accepted
  and gives the plaintext back, for every length of both.\<close>

theorem gcm_open_seal:
  "aes128gcm_open c nonce aad (fst (aes128gcm_seal c nonce aad data)) (snd (aes128gcm_seal c nonce aad data))
    = (True, data)"
  by (simp add: aes128gcm_open_def aes128gcm_seal_def Let_def crypto_equal_take gcm_crypt_def
      crypt_loop_involution)

text \<open>Nothing else is accepted: a buffer opens exactly under the tag that sealing its
  plaintext would give, and a refused buffer is left as it was.\<close>

lemma gcm_open_exact:
  assumes "length tag = 16"
  shows "aes128gcm_open c nonce aad data tag =
    (if aes128gcm_seal c nonce aad (gcm_crypt c nonce data) = (data, tag)
     then (True, gcm_crypt c nonce data) else (False, data))"
  using assms by (auto simp: aes128gcm_open_def aes128gcm_seal_def Let_def crypto_equal_take
      gcm_crypt_def crypt_loop_involution)

subsection \<open>The authentication hash multiplies in the field\<close>

text \<open>Coefficient \<open>k\<close> of the polynomial a block stands for: bits are read from the most
  significant of the first byte.\<close>

definition coef :: "u8 list \<Rightarrow> nat \<Rightarrow> bool" where
  "coef v k \<longleftrightarrow> k < 128 \<and> bit (v ! (k div 8)) (7 - k mod 8)"

text \<open>Multiplication by \<open>x\<close> modulo \<open>x^128 + x^7 + x^2 + x + 1\<close>, on coefficients, and the
  product as the sum over the first factor's coefficients.\<close>

definition times_x :: "(nat \<Rightarrow> bool) \<Rightarrow> nat \<Rightarrow> bool" where
  "times_x p k \<longleftrightarrow> k < 128 \<and> ((0 < k \<and> p (k - 1)) \<noteq> (p 127 \<and> k \<in> {0, 1, 2, 7}))"

definition field_product :: "(nat \<Rightarrow> bool) \<Rightarrow> (nat \<Rightarrow> bool) \<Rightarrow> nat \<Rightarrow> bool" where
  "field_product p q k \<longleftrightarrow> odd (card {i. i < 128 \<and> p i \<and> (times_x ^^ i) q k})"

lemma low_bit_iff: "(x :: 'a::len word) AND 1 \<noteq> 0 \<longleftrightarrow> bit x 0"
  by (simp add: and_one_eq bit_0 odd_iff_mod_2_eq_one)

lemma e1_bits: "bit (0xe1 :: u8) i \<longleftrightarrow> i \<in> {0, 5, 6, 7}"
proof (cases "i < 8")
  case True
  then have "i \<in> {0, 1, 2, 3, 4, 5, 6, 7}" by auto
  then show ?thesis by auto
next
  case False
  then show ?thesis by (auto dest: bit_imp_le_length)
qed

lemma no_bit8 [simp]: "\<not> bit (x :: u8) 8"
  by (auto dest: bit_imp_le_length)

lemma ghash_shift_coef:
  assumes "length v = 16"
  shows "coef (ghash_shift v) = times_x (coef v)"
proof
  fix k
  show "coef (ghash_shift v) k = times_x (coef v) k"
  proof (cases "k < 128")
    case True
    define j where "j = k div 8"
    define r where "r = k mod 8"
    have k: "k = 8 * j + r" "r < 8" "j < 16" using True by (auto simp: j_def r_def)
    define w where "w = map (\<lambda>j. if 0 < j then drop_bit 1 (v ! j) OR push_bit 7 (v ! (j - 1)) else drop_bit 1 (v ! j)) [0..<16]"
    have prev: "bit (w ! j) (7 - r) \<longleftrightarrow> 0 < k \<and> coef v (k - 1)"
    proof (cases r)
      case 0
      then show ?thesis using k by (cases j) (auto simp: w_def coef_def bit_simps)
    next
      case (Suc q)
      then have "(k - 1) div 8 = j" "(k - 1) mod 8 = q" using k by auto
      moreover have "Suc (6 - q) = 7 - q" "\<not> 7 \<le> 6 - q" using Suc k by auto
      ultimately show ?thesis using k Suc by (auto simp: w_def coef_def bit_simps)
    qed
    have lsb: "v ! 15 AND 1 \<noteq> 0 \<longleftrightarrow> coef v 127" by (simp add: low_bit_iff coef_def)
    have "bit (ghash_shift v ! j) (7 - r) \<longleftrightarrow> bit (w ! j) (7 - r) \<noteq> (coef v 127 \<and> j = 0 \<and> 7 - r \<in> {0, 5, 6, 7})"
    proof -
      have "length w = 16" by (simp add: w_def)
      then have "ghash_shift v ! j = (if coef v 127 \<and> j = 0 then w ! 0 XOR 0xe1 else w ! j)"
        using k unfolding ghash_shift_def w_def [symmetric] Let_def lsb by (auto simp: nth_list_update)
      then show ?thesis unfolding e1_bits [symmetric] by (auto simp: bit_xor_iff)
    qed
    moreover have "j = 0 \<and> 7 - r \<in> {0, 5, 6, 7} \<longleftrightarrow> k \<in> {0, 1, 2, 7}"
      using k by (cases j) auto
    moreover have "coef (ghash_shift v) k \<longleftrightarrow> bit (ghash_shift v ! j) (7 - r)"
      using True unfolding coef_def j_def r_def by simp
    ultimately show ?thesis using True prev unfolding times_x_def by blast
  next
    case False
    then show ?thesis by (simp add: coef_def times_x_def)
  qed
qed

lemma ghash_shift_length [simp]: "length (ghash_shift v) = 16"
  by (simp add: ghash_shift_def Let_def)

lemma coef_xor:
  "coef (map (\<lambda>j. z ! j XOR v ! j) [0..<16]) k \<longleftrightarrow> coef z k \<noteq> coef v k"
  by (auto simp: coef_def bit_simps)

lemma card_add_one: "odd (card {i. i < Suc n \<and> P i}) \<longleftrightarrow> odd (card {i. i < n \<and> P i}) \<noteq> P n"
proof -
  have "{i. i < Suc n \<and> P i} = (if P n then insert n {i. i < n \<and> P i} else {i. i < n \<and> P i})"
    by (auto simp: less_Suc_eq)
  then show ?thesis by simp
qed

lemma ghash_bits_coef:
  assumes "length h = 16" "fold (ghash_bit x) [0..<n] (replicate 16 0, h) = (z, v)" "n \<le> 128"
  shows "length z = 16 \<and> length v = 16 \<and> coef v = (times_x ^^ n) (coef h) \<and>
    (\<forall>k. coef z k \<longleftrightarrow> odd (card {i. i < n \<and> coef x i \<and> (times_x ^^ i) (coef h) k}))"
  using assms(2,3)
proof (induction n arbitrary: z v)
  case 0
  then show ?case using assms(1) by (auto simp: coef_def)
next
  case (Suc n)
  obtain z' v' where f: "fold (ghash_bit x) [0..<n] (replicate 16 0, h) = (z', v')" by fastforce
  have IH: "length z' = 16" "length v' = 16" "coef v' = (times_x ^^ n) (coef h)"
      "coef z' k \<longleftrightarrow> odd (card {i. i < n \<and> coef x i \<and> (times_x ^^ i) (coef h) k})" for k
    using Suc.IH [OF f] Suc.prems(2) by auto
  have st: "(z, v) = ghash_bit x n (z', v')" using Suc.prems(1) f by simp
  have sel: "drop_bit (7 - n mod 8) (x ! (n div 8)) AND 1 \<noteq> 0 \<longleftrightarrow> coef x n"
    using Suc.prems(2) by (simp add: low_bit_iff coef_def bit_drop_bit_eq)
  have z: "z = (if coef x n then map (\<lambda>j. z' ! j XOR v' ! j) [0..<16] else z')" and v: "v = ghash_shift v'"
    using st by (simp_all only: ghash_bit_def Let_def sel prod.case prod.inject)
  have "coef z k \<longleftrightarrow> odd (card {i. i < Suc n \<and> coef x i \<and> (times_x ^^ i) (coef h) k})" for k
    unfolding card_add_one using IH(3,4) by (auto simp: z coef_xor)
  then show ?case using IH(1,2,3) ghash_shift_coef [OF IH(2)] by (simp add: z v)
qed

text \<open>C40. The bit-by-bit multiplication of the authentication hash is the product in
  GF(2^128): the sum, over the coefficients of the first block, of the second block times
  that power of \<open>x\<close>, reduced by the GCM polynomial.\<close>

theorem ghash_mul_is_field_product:
  assumes "length h = 16"
  shows "coef (ghash_mul x h) = field_product (coef x) (coef h)"
proof -
  obtain z v where f: "fold (ghash_bit x) [0..<128] (replicate 16 0, h) = (z, v)" by fastforce
  have m: "ghash_mul x h = z" unfolding ghash_mul_def f by simp
  show ?thesis using ghash_bits_coef [OF assms f order_refl] unfolding m
    by (intro ext) (simp add: field_product_def)
qed

text \<open>The witness: the square of the block of all ones.\<close>

theorem ghash_mul_is_field_product_witness:
  "coef (ghash_mul (replicate 16 0xff) (replicate 16 0xff)) =
    field_product (coef (replicate 16 0xff)) (coef (replicate 16 0xff))"
  using ghash_mul_is_field_product [of "replicate 16 0xff" "replicate 16 0xff"] by simp

end
