(* ===== verification/Spec2Isabelle.thy ===== *)
theory Spec2Isabelle
  imports Prelude Pmm Region_Allocator Heap Timecal Usb_Disk Sector_Device Blkdev Vol Paging Address_Space Vmm
    Proc_Table Proc_Exit Signal Scheduler Elf Exec Teardown Sched_Inv Byte_Channel Pipe_Fifo Streams
    Signal_Check Exit_Wait User_Memory Signal_Frames
    Bignum Bignum_Bytes Block_Stream Sha256 Sha256_Vector Sha512 Hkdf Rsa Rsa_Pss Aes_Gcm
begin

text \<open>
  A verification of the core of the XyuOS kernel: memory, processes, signals and pipes, program loading, and the block
  devices under its file systems, together with the cryptography of its TLS client and the calendar of its C library. The programs under \<^verbatim>\<open>src/\<close> are
  translated into HOL definitions that keep the source's names, its order of operations and its failure branches; machine
  integers are words of their width, so every wrap-around of the C code is in the model.

  \<^bold>\<open>How the kernel is put together.\<close> Physical frames come from a bitmap (\<^verbatim>\<open>mm/pmm.c\<close>). The kernel heap
  (\<^verbatim>\<open>mm/heap.c\<close>) grows out of them, and so do page tables and user pages (\<^verbatim>\<open>mm/paging.c\<close>). The memory map of a
  process (\<^verbatim>\<open>mm/vmm.c\<close>, \<^verbatim>\<open>kernel/shm.c\<close>) decides which of them a page fault may build. The process table, scheduler,
  pipes and program loading are \<^verbatim>\<open>kernel/process.c\<close> and \<^verbatim>\<open>kernel/elf.c\<close>; signals are \<^verbatim>\<open>kernel/signal.c\<close>. Disks are
  sectors behind \<^verbatim>\<open>drivers/blkdev.c\<close> and, for the sticks a user plugs in, behind the cache of \<^verbatim>\<open>fs/vol.c\<close>, both over the
  mass-storage calls of \<^verbatim>\<open>drivers/xhci.c\<close>.

  \<^bold>\<open>Theories, in the order of dependence.\<close>

  \<^item> \<open>Prelude\<close>: word types, \<open>unat\<close> arithmetic without overflow, byte lists, the collections the other theories add to.
  \<^item> \<open>Pmm\<close> (\<^verbatim>\<open>kernel/mm/pmm.c\<close>): the record \<open>pmm\<close> holds the bitmap, the counters and physical memory, byte by byte. \<open>free_set\<close> is the
    abstract set of free frames; the counter invariant \<open>pmm_wf\<close>, boot, exactness of contiguous allocation (a single frame is handed out as it was, a longer run zeroed), and
    the window that is never handed out. The two walks over boot tags are partial functions; they are shown to return for every list that ends.
  \<^item> \<open>Region_Allocator\<close>: the contract of an allocator of regions as a locale, with the facts that hold over every sequence of its calls.
  \<^item> \<open>Heap\<close> (\<^verbatim>\<open>kernel/mm/heap.c\<close>): the doubly linked block list as a map from addresses to headers; \<open>kmalloc\<close>, \<open>kfree\<close>, \<open>krealloc\<close>.
    The heap interprets \<open>Region_Allocator\<close>: live blocks never overlap, whatever the sequence of calls.
  \<^item> \<open>Timecal\<close> (\<^verbatim>\<open>libc/src/timecal.c\<close>): day numbers against a calendar defined day by day, and the conversions between
    seconds and broken-down time, the day of the year included. The zone offset, which the kernel answers, is a parameter.
  \<^item> \<open>Usb_Disk\<close>, \<open>Sector_Device\<close>, \<open>Blkdev\<close>, \<open>Vol\<close> (\<^verbatim>\<open>kernel/drivers/xhci.c\<close>, \<^verbatim>\<open>kernel/drivers/blkdev.c\<close>,
    \<^verbatim>\<open>kernel/fs/vol.c\<close>): the SCSI transport is the parameter \<open>hw\<close>, with its documented behaviour as the locale \<open>Sector_Device\<close>;
    finding the root partition by the UUID in the superblock on its medium, range checks, moving a RAM disk, the sector cache (coherent from
    an empty cache, over volumes that do not overlap; \<^verbatim>\<open>vol.c\<close> does not itself refuse overlapping partitions) and the mount table.
  \<^item> \<open>Paging\<close>, \<open>Address_Space\<close> (\<^verbatim>\<open>kernel/mm/paging.c\<close>): four-level page tables as bytes in physical memory. \<open>tree_wf\<close> is the shape
    of a tree, \<open>own_ok\<close> says that a space owns its tables and frames and shares none but the borrowed set \<open>B\<close>; \<open>keeps\<close> and
    \<open>calm\<close> say what an operation may change. The range loops are partial functions; all of them are shown to return.
  \<^item> \<open>Vmm\<close> (\<^verbatim>\<open>kernel/mm/vmm.c\<close>, \<^verbatim>\<open>kernel/kernel/shm.c\<close>, \<^verbatim>\<open>process_sbrk\<close>): mappings, the break, page faults, shared segments.
    The search for a place runs at most 65 rounds, as the code's guard has it; that many are shown to be enough.
    \<open>grants\<close> says which pages a fault may build, and with which flags, without the code's order of tests.
  \<^item> \<open>Proc_Table\<close>, \<open>Proc_Exit\<close>, \<open>Scheduler\<close>, \<open>Exec\<close> (\<^verbatim>\<open>kernel/kernel/process.c\<close>), \<open>Signal\<close>
    (\<^verbatim>\<open>kernel/kernel/signal.c\<close>), \<open>Elf\<close> (\<^verbatim>\<open>kernel/kernel/elf.c\<close>): the record \<open>kw\<close> is the kernel's state: the table of 64
    processes, the cores with the process each runs, the pipes, and the memory of \<open>Vmm\<close>. A process that blocks in the kernel leaves a
    value of type \<open>kont\<close> that says where; being picked again runs \<open>resume_kont\<close>. A kernel panic is \<open>None\<close>.
  \<^item> \<open>Teardown\<close>: the locale of relations that hold across the end of a program, so that a fact about exits is proved once. It is interpreted
    for the scheduler's invariant (\<open>Sched_Inv\<close>), for exit codes (\<open>Exit_Wait\<close>) and for the typing of streams (\<open>Streams\<close>).
  \<^item> \<open>Sched_Inv\<close>: events (\<open>kev\<close>) are everything that enters the kernel and touches processes; \<open>k_run\<close> is any interleaving of them on any
    cores. One core per running process, unique pids while the counter does not overflow, and round-robin fairness.
  \<^item> \<open>Byte_Channel\<close>, \<open>Pipe_Fifo\<close>, \<open>Streams\<close>: the contract of a byte channel and the ring buffer that meets it; what the calls
    answer; every access within bounds over all runs.
  \<^item> \<open>Signal_Check\<close>, \<open>User_Memory\<close>, \<open>Signal_Frames\<close>, \<open>Exit_Wait\<close>: the closed form of the safe-point check, the memory of
    a program as seen through its page tables, the round trip of a handler's frame, and the way of an exit code through
    the next scheduler pass to the \<^verbatim>\<open>wait\<close> its parent sleeps in.

  \<^item> \<open>Bignum\<close>, \<open>Bignum_Bytes\<close> (\<^verbatim>\<open>kernel/crypto/bignum.c\<close>): 64-bit limbs with 128-bit intermediates; every counting loop is the state after
    that many iterations. \<open>bn_val\<close> is the number a limb array stands for and \<open>bn_wf\<close> the shape all public operations leave. The locale
    \<open>radix_multiplier\<close> states what Montgomery multiplication promises; square-and-multiply is proved in it and holds for the code by interpretation.
  \<^item> \<open>Block_Stream\<close>, \<open>Sha256\<close>, \<open>Sha256_Vector\<close>, \<open>Sha512\<close> (\<^verbatim>\<open>kernel/crypto/sha256.c\<close>, \<^verbatim>\<open>kernel/crypto/sha512.c\<close>): the locale
    \<open>block_stream\<close> is the contract of a buffered update loop, with the padding proved in it once; both hashes interpret it. The loops are
    partial functions, shown to return. The compression function is checked on the FIPS 180-4 example.
  \<^item> \<open>Hkdf\<close> (\<^verbatim>\<open>kernel/crypto/sha256.c\<close>), \<open>Rsa\<close>, \<open>Rsa_Pss\<close> (\<^verbatim>\<open>kernel/crypto/rsa.c\<close>): key derivation against RFC 2104, 5869 and 8446, and
    signature verification against the encodings of RFC 8017: what is accepted is exactly what the standard's encoding gives.
  \<^item> \<open>Aes_Gcm\<close> (\<^verbatim>\<open>kernel/crypto/aes_gcm.c\<close>): sealing and opening are inverse, and the authentication hash multiplies in its field.

  \<^bold>\<open>Atomicity.\<close> A public operation of the frame allocator and the heap holds its spinlock throughout, and every entry to the process
  code holds the big kernel lock, so each is one step; interleavings are sequences of such steps.

  \<^bold>\<open>Not modelled.\<close> The window manager, graphics and fonts (\<^verbatim>\<open>kernel/wm\<close>, \<^verbatim>\<open>kernel/gfx\<close>), the network stack (\<^verbatim>\<open>kernel/net\<close>), the
  elliptic curves and the random source of \<^verbatim>\<open>kernel/crypto\<close>, the ext2 and FAT drivers and the path layer above them
  (\<^verbatim>\<open>kernel/fs\<close> but for \<^verbatim>\<open>vol.c\<close>), the device drivers but for the calls named above, the rest of the C library, and the
  programs under \<^verbatim>\<open>userland\<close>. Loading \<^verbatim>\<open>CR3\<close>, TLB shootdowns, port and register I/O, console output and the assembly of context switches have
  no effect on the modelled state, or are an assignment to it. Telling the window manager that a process ended (\<^verbatim>\<open>wm_notify_exit\<close>) is recorded as a call; the graphics buffers it then returns to
  the kernel heap are the window manager's and are not part of the model.

  \<^bold>\<open>Bounds.\<close> \<^verbatim>\<open>next_pid\<close> is a C \<^verbatim>\<open>int\<close>: \<open>int_succ\<close> steps it, wrapping from \<^verbatim>\<open>INT_MAX\<close> to the smallest \<^verbatim>\<open>int\<close>, so that ids do repeat
  in the model after two thousand million processes; what rests on unique ids is stated for runs that end before. The other bounds are in the
  statements: requests that do not wrap when rounded, partitions that do not wrap the 64-bit sector number, years that fit \<^verbatim>\<open>tm_year\<close>.
\<close>

end
